(* ===== verification/Prelude.thy ===== *)
theory Prelude
  imports Main "HOL-Library.Word" "HOL-Library.AList" "HOL-Library.Multiset"
begin

text \<open>
  What every theory of the development shares: the machine types of the C++ code, its
  failures as values, the result monad in which handlers are written, loops over vectors
  that may fail, and bounds-checked access to vectors.

  The types are those of the x86-64 target: \<open>int\<close> and \<open>uint32_t\<close> are 32 bits wide,
  \<open>uint64_t\<close> and \<open>size_t\<close> 64 bits, \<open>char\<close> one byte. A C++ \<open>int\<close> is kept as its 32 bits
  (type \<open>i32\<close>) and read with \<^const>\<open>sint\<close>.
\<close>

named_theorems wf_intros \<open>preservation of the well-formedness invariants\<close>
named_theorems ensures_rules \<open>postconditions of computations that may fail\<close>
named_theorems eval_defs \<open>definitions a closed instance is evaluated with\<close>

type_synonym byte = "8 word"
type_synonym u32 = "32 word"
type_synonym u64 = "64 word"
type_synonym i32 = "32 word"
type_synonym f32 = "32 word"
type_synonym f64 = "64 word"

lemma unat_u64: "unat (x :: u64) < 2 ^ 64"
  using unsigned_less[of x, where 'a = nat] by simp

lemma unat_u32: "unat (x :: u32) < 2 ^ 32"
  using unsigned_less[of x, where 'a = nat] by simp

lemma unat_byte: "unat (x :: byte) < 256"
  using unsigned_less[of x, where 'a = nat] by simp

lemma sint_small: "n < 2 ^ 31 \<Longrightarrow> sint (word_of_nat n :: i32) = int n"
  by (simp add: signed_of_nat signed_take_bit_int_eq_self)

section \<open>Failures\<close>

text \<open>
  \<open>Runtime_error\<close> is \<open>std::runtime_error\<close> with the literal part of its message,
  \<open>Out_of_range\<close> what \<open>std::vector::at\<close> throws, \<open>Length_error\<close> \<open>std::length_error\<close>,
  \<open>Assertion_failed\<close> a failed \<open>assert\<close> (the build does not define \<open>NDEBUG\<close>),
  \<open>Exit_status\<close> a call of \<open>exit\<close>, and \<open>Undefined_behaviour\<close> an access the language gives
  no meaning to (past the end of a vector or buffer, an invalidated iterator, a division by
  zero). Since nothing may be concluded after it, the model stops there. \<open>Blocked\<close> is no
  failure of the program: it marks a call that never returns, because it waits for what nobody
  provides (bytes from a peer, a semaphore) or repeats a step that changes nothing.
\<close>

datatype cpp_error =
    Runtime_error string
  | Length_error string
  | Out_of_range
  | Assertion_failed
  | Exit_status int
  | Undefined_behaviour
  | Blocked

type_synonym 'a res = "cpp_error + 'a"

definition rbind :: "'a res \<Rightarrow> ('a \<Rightarrow> 'b res) \<Rightarrow> 'b res" where
  "rbind m f = (case m of Inl e \<Rightarrow> Inl e | Inr x \<Rightarrow> f x)"

lemma rbind_simps [simp, eval_defs]:
  "rbind (Inl e) f = Inl e"
  "rbind (Inr x) f = f x"
  by (simp_all add: rbind_def)

lemma rbind_eq_Inr [simp]:
  "rbind m f = Inr y \<longleftrightarrow> (\<exists>x. m = Inr x \<and> f x = Inr y)"
  by (cases m) auto

lemma rbind_cong [fundef_cong]:
  "m = m' \<Longrightarrow> (\<And>x. m' = Inr x \<Longrightarrow> f x = g x) \<Longrightarrow> rbind m f = rbind m' g"
  by (cases m') auto

lemma rbind_assoc: "rbind (rbind m f) g = rbind m (\<lambda>x. rbind (f x) g)"
  by (cases m) auto

text \<open>\<open>assert(b)\<close> and \<open>if (!b) throw std::runtime_error(s)\<close>.\<close>

definition cassert :: "bool \<Rightarrow> unit res" where
  "cassert b = (if b then Inr () else Inl Assertion_failed)"

definition guard_rt :: "bool \<Rightarrow> string \<Rightarrow> unit res" where
  "guard_rt b s = (if b then Inr () else Inl (Runtime_error s))"

lemma cassert_simps [simp, eval_defs]:
  "cassert True = Inr ()" "cassert False = Inl Assertion_failed"
  "cassert b = Inr u \<longleftrightarrow> b"
  by (simp_all add: cassert_def)

lemma guard_rt_simps [simp, eval_defs]:
  "guard_rt True s = Inr ()" "guard_rt False s = Inl (Runtime_error s)"
  "guard_rt b s = Inr u \<longleftrightarrow> b"
  by (simp_all add: guard_rt_def)

text \<open>A read past the end of a buffer is undefined behaviour.\<close>

definition or_ub :: "'a option \<Rightarrow> 'a res" where
  "or_ub v = (case v of None \<Rightarrow> Inl Undefined_behaviour | Some x \<Rightarrow> Inr x)"

lemma or_ub_simps [simp, eval_defs]:
  "or_ub None = Inl Undefined_behaviour" "or_ub (Some x) = Inr x"
  "or_ub v = Inr x \<longleftrightarrow> v = Some x"
  by (auto simp: or_ub_def split: option.splits)

text \<open>
  Partial correctness: a postcondition holds of the value, if there is one. The rules follow the
  structure of a handler, so \<open>intro ensures_rules\<close> reduces it to its returns.
\<close>

definition ensures :: "'a res \<Rightarrow> ('a \<Rightarrow> bool) \<Rightarrow> bool" where
  "ensures m Q \<longleftrightarrow> (\<forall>x. m = Inr x \<longrightarrow> Q x)"

lemma ensures_Inr [ensures_rules]: "Q x \<Longrightarrow> ensures (Inr x) Q"
  by (simp add: ensures_def)

lemma ensures_Inl [ensures_rules]: "ensures (Inl e) Q"
  by (simp add: ensures_def)

lemma ensures_bind [ensures_rules]: "(\<And>x. m = Inr x \<Longrightarrow> ensures (f x) Q) \<Longrightarrow> ensures (rbind m f) Q"
  by (auto simp: ensures_def)

lemma ensures_if [ensures_rules]:
  "(b \<Longrightarrow> ensures m Q) \<Longrightarrow> (\<not> b \<Longrightarrow> ensures m' Q) \<Longrightarrow> ensures (if b then m else m') Q"
  by simp

lemma ensures_prod [ensures_rules]:
  "(\<And>a b. p = (a, b) \<Longrightarrow> ensures (g a b) Q) \<Longrightarrow> ensures (case p of (a, b) \<Rightarrow> g a b) Q"
  by (cases p) simp

lemma ensures_option [ensures_rules]:
  "(z = None \<Longrightarrow> ensures m Q) \<Longrightarrow> (\<And>a. z = Some a \<Longrightarrow> ensures (h a) Q) \<Longrightarrow>
   ensures (case z of None \<Rightarrow> m | Some a \<Rightarrow> h a) Q"
  by (cases z) simp_all

lemma ensures_let [ensures_rules]: "(\<And>x. x = t \<Longrightarrow> ensures (f x) Q) \<Longrightarrow> ensures (Let t f) Q"
  by simp

text \<open>A step of a thread that would wait is no step.\<close>

definition unless_blocked :: "'a \<Rightarrow> 'a res \<Rightarrow> 'a res" where
  "unless_blocked s m = (if m = Inl Blocked then Inr s else m)"

section \<open>Loops over a sequence, with failures\<close>

text \<open>\<open>for (x : xs) s = f(x, s)\<close>, left at the first exception.\<close>

fun rfold :: "('a \<Rightarrow> 's \<Rightarrow> 's res) \<Rightarrow> 'a list \<Rightarrow> 's \<Rightarrow> 's res" where
  "rfold f [] s = Inr s"
| "rfold f (x # xs) s = rbind (f x s) (rfold f xs)"

text \<open>A loop that only checks: every element passes or the first failure is raised.\<close>

fun rcheck :: "('a \<Rightarrow> unit res) \<Rightarrow> 'a list \<Rightarrow> unit res" where
  "rcheck f [] = Inr ()"
| "rcheck f (x # xs) = rbind (f x) (\<lambda>_. rcheck f xs)"

lemmas loop_evals [eval_defs] = rfold.simps rcheck.simps

lemma rfold_append:
  "rfold f (xs @ ys) s = rbind (rfold f xs s) (rfold f ys)"
  by (induction xs arbitrary: s) (auto simp: rbind_def split: sum.splits)

lemma rfold_cong [fundef_cong]:
  "xs = ys \<Longrightarrow> s = t \<Longrightarrow> (\<And>x u. x \<in> set ys \<Longrightarrow> f x u = g x u) \<Longrightarrow> rfold f xs s = rfold g ys t"
proof (induction xs arbitrary: ys s t)
  case (Cons x xs)
  from Cons.prems show ?case
    by (cases "g x t") (auto intro!: Cons.IH)
qed simp

text \<open>The invariant rule of such a loop.\<close>

lemma rfold_inv:
  assumes "rfold f xs s = Inr s'" and "P s"
    and "\<And>x t t'. x \<in> set xs \<Longrightarrow> P t \<Longrightarrow> f x t = Inr t' \<Longrightarrow> P t'"
  shows "P s'"
  using assms
proof (induction xs arbitrary: s)
  case (Cons x xs)
  then obtain t where "f x s = Inr t" "rfold f xs t = Inr s'" by auto
  with Cons show ?case by (metis list.set_intros)
qed simp

text \<open>A loop whose body never fails under the invariant never fails.\<close>

lemma rfold_total:
  assumes "P s"
    and "\<And>x t. x \<in> set xs \<Longrightarrow> P t \<Longrightarrow> \<exists>t'. f x t = Inr t' \<and> P t'"
  shows "\<exists>s'. rfold f xs s = Inr s' \<and> P s'"
  using assms
proof (induction xs arbitrary: s)
  case (Cons x xs)
  then obtain t where "f x s = Inr t" "P t" by (metis list.set_intros(1))
  moreover have "\<exists>s'. rfold f xs t = Inr s' \<and> P s'"
    using Cons.IH[OF \<open>P t\<close>] Cons.prems(2) by (metis list.set_intros(2))
  ultimately show ?case by auto
qed simp

lemma rfold_pure: "rfold (\<lambda>x s. Inr (g x s)) xs s = Inr (fold g xs s)"
  by (induction xs arbitrary: s) auto

lemma rcheck_ok [simp]: "rcheck f xs = Inr u \<longleftrightarrow> (\<forall>x\<in>set xs. f x = Inr ())"
  by (induction xs) auto

section \<open>Vectors\<close>

text \<open>\<open>v[n]\<close> (undefined past the end) and \<open>v.at(n)\<close> (throws), for reading and writing.\<close>

definition vec_get :: "'a list \<Rightarrow> nat \<Rightarrow> 'a res" where
  "vec_get xs n = (if n < length xs then Inr (xs ! n) else Inl Undefined_behaviour)"

definition vec_set :: "'a list \<Rightarrow> nat \<Rightarrow> 'a \<Rightarrow> 'a list res" where
  "vec_set xs n v = (if n < length xs then Inr (xs[n := v]) else Inl Undefined_behaviour)"

definition vec_at :: "'a list \<Rightarrow> nat \<Rightarrow> 'a res" where
  "vec_at xs n = (if n < length xs then Inr (xs ! n) else Inl Out_of_range)"

definition vec_set_at :: "'a list \<Rightarrow> nat \<Rightarrow> 'a \<Rightarrow> 'a list res" where
  "vec_set_at xs n v = (if n < length xs then Inr (xs[n := v]) else Inl Out_of_range)"

lemma vec_access [simp]:
  "vec_get xs n = Inr x \<longleftrightarrow> n < length xs \<and> x = xs ! n"
  "vec_at xs n = Inr x \<longleftrightarrow> n < length xs \<and> x = xs ! n"
  "vec_set xs n v = Inr ys \<longleftrightarrow> n < length xs \<and> ys = xs[n := v]"
  "vec_set_at xs n v = Inr ys \<longleftrightarrow> n < length xs \<and> ys = xs[n := v]"
  by (auto simp: vec_get_def vec_at_def vec_set_def vec_set_at_def)

lemmas vec_evals [eval_defs] = vec_get_def vec_set_def vec_at_def vec_set_at_def

text \<open>\<open>v.resize(n)\<close>: truncate, or extend with value-initialised elements.\<close>

definition vec_resize :: "'a \<Rightarrow> nat \<Rightarrow> 'a list \<Rightarrow> 'a list" where
  "vec_resize z n xs = take n xs @ replicate (n - length xs) z"

lemma length_vec_resize [simp]: "length (vec_resize z n xs) = n"
  by (simp add: vec_resize_def)

text \<open>A sum over a vector in which one element is replaced.\<close>

lemma sum_list_upd:
  fixes f :: "'a \<Rightarrow> 'b::comm_monoid_add"
  assumes "i < length xs"
  shows "sum_list (map f (xs[i := y])) + f (xs ! i) = sum_list (map f xs) + f y"
  using assms
proof (induction xs arbitrary: i)
  case (Cons x xs)
  then show ?case by (cases i) (simp_all add: ac_simps)
qed simp

text \<open>
  An \<open>int\<close> used as a vector index is converted to \<open>size_t\<close>: a negative one becomes a
  position near \<open>2\<^sup>6\<^sup>4\<close>, past the end of every vector.
\<close>

definition idx :: "i32 \<Rightarrow> nat" where
  "idx i = nat (sint i mod 2 ^ 64)"

lemma idx_nonneg: "0 \<le> sint i \<Longrightarrow> idx i = nat (sint i)"
proof -
  assume "0 \<le> sint i"
  moreover have "sint i < 2 ^ 31" using sint_lt[of i] by simp
  ultimately show ?thesis by (simp add: idx_def)
qed

lemma idx_neg: "sint i < 0 \<Longrightarrow> 2 ^ 63 \<le> idx i"
proof -
  assume neg: "sint i < 0"
  have "- (2 ^ 31) \<le> sint i" using sint_ge[of i] by simp
  with neg have "(sint i + 2 ^ 64) mod 2 ^ 64 = sint i + 2 ^ 64"
    by (intro mod_pos_pos_trivial) auto
  then have "sint i mod 2 ^ 64 = sint i + 2 ^ 64" by simp
  moreover from \<open>- (2 ^ 31) \<le> sint i\<close> have "2 ^ 63 \<le> sint i + 2 ^ 64" by simp
  ultimately show ?thesis by (simp add: idx_def nat_le_iff le_nat_iff)
qed

end
