(* ===== verification/CircularBuf.thy ===== *)
theory CircularBuf
  imports Prelude
begin

text \<open>
  \<open>CircularBuffer<T>\<close> of \<open>CircularBuffer.h\<close>: the ring in which \<open>S3SparseIterator\<close> keeps the
  minibatches it has parsed. Elements are added at \<open>tail\<close> and taken from \<open>front\<close>; one slot
  always stays free, since \<open>front = tail\<close> reads as an empty buffer. The locale \<open>fifo\<close> is the
  contract its client relies on.
\<close>

section \<open>The first-in first-out contract\<close>

text \<open>
  \<open>room q\<close> is how many elements may still be added. \<open>enq\<close> may be called only while there is
  room; \<open>deq\<close> fails on an empty queue.
\<close>

locale fifo =
  fixes inv :: "'q \<Rightarrow> bool" and contents :: "'q \<Rightarrow> 'a list" and room :: "'q \<Rightarrow> nat"
    and enq :: "'a \<Rightarrow> 'q \<Rightarrow> 'q res" and deq :: "'q \<Rightarrow> ('a \<times> 'q) res"
  assumes enq_ok: "inv q \<Longrightarrow> 0 < room q \<Longrightarrow>
      \<exists>q'. enq x q = Inr q' \<and> inv q' \<and> contents q' = contents q @ [x] \<and> room q' = room q - 1"
    and deq_ok: "inv q \<Longrightarrow> contents q \<noteq> [] \<Longrightarrow>
      \<exists>q'. deq q = Inr (hd (contents q), q') \<and> inv q' \<and> contents q' = tl (contents q)
           \<and> room q' = Suc (room q)"
    and deq_empty: "inv q \<Longrightarrow> contents q = [] \<Longrightarrow> \<exists>e. deq q = Inl e"
begin

text \<open>Adding a sequence, and taking \<open>n\<close> elements.\<close>

fun deqs :: "nat \<Rightarrow> 'q \<Rightarrow> ('a list \<times> 'q) res" where
  "deqs 0 q = Inr ([], q)"
| "deqs (Suc n) q = rbind (deq q) (\<lambda>(x, q'). rbind (deqs n q') (\<lambda>(xs, q''). Inr (x # xs, q'')))"

lemma enqs_ok:
  assumes "inv q" "length xs \<le> room q"
  shows "\<exists>q'. rfold enq xs q = Inr q' \<and> inv q' \<and> contents q' = contents q @ xs
             \<and> room q' = room q - length xs"
  using assms
proof (induction xs arbitrary: q)
  case (Cons x xs)
  then have "0 < room q" by simp
  then obtain q1 where q1: "enq x q = Inr q1" "inv q1" "contents q1 = contents q @ [x]"
    "room q1 = room q - 1"
    using enq_ok[OF Cons.prems(1)] by metis
  then show ?case using Cons.IH[of q1] Cons.prems by auto
qed simp

lemma deqs_ok:
  assumes "inv q" "n \<le> length (contents q)"
  shows "\<exists>q'. deqs n q = Inr (take n (contents q), q') \<and> inv q' \<and> contents q' = drop n (contents q)
             \<and> room q' = room q + n"
  using assms
proof (induction n arbitrary: q)
  case (Suc n)
  then have "contents q \<noteq> []" by auto
  then obtain q1 where q1: "deq q = Inr (hd (contents q), q1)" "inv q1"
    "contents q1 = tl (contents q)" "room q1 = Suc (room q)"
    using deq_ok[OF Suc.prems(1)] by metis
  then show ?case using Suc.IH[of q1] Suc.prems \<open>contents q \<noteq> []\<close>
    by (auto simp: take_Suc drop_Suc)
qed simp

text \<open>What goes in comes out, in order.\<close>

lemma deqs_enqs:
  assumes "inv q" "contents q = []" "length xs \<le> room q"
  shows "\<exists>q'. rbind (rfold enq xs q) (deqs (length xs)) = Inr (xs, q') \<and> inv q'"
proof -
  obtain q1 where q1: "rfold enq xs q = Inr q1" "inv q1" "contents q1 = xs"
    using enqs_ok[OF assms(1,3)] assms(2) by auto
  then show ?thesis using deqs_ok[of q1 "length xs"] by auto
qed

end

section \<open>The buffer\<close>

record 'a circular_buffer =
  cb_buffer :: "'a list"
  cb_capacity :: u64
  cb_front :: u64
  cb_tail :: u64

text \<open>\<open>z\<close> is the default-constructed element with which \<open>new T[capacity]\<close> fills the array.\<close>

definition cb_new :: "'a \<Rightarrow> u64 \<Rightarrow> 'a circular_buffer res" where
  "cb_new z capacity =
     (if capacity < 1 then Inl (Length_error ''Invalid capacity'')
      else Inr \<lparr>cb_buffer = replicate (unat capacity) z, cb_capacity = capacity,
                cb_front = 0, cb_tail = 0\<rparr>)"

definition cb_copy :: "'a circular_buffer \<Rightarrow> 'a circular_buffer" where
  "cb_copy rhs = \<lparr>cb_buffer = take (unat (cb_capacity rhs)) (cb_buffer rhs),
     cb_capacity = cb_capacity rhs, cb_front = cb_front rhs, cb_tail = cb_tail rhs\<rparr>"

definition cb_size :: "'a circular_buffer \<Rightarrow> u64" where
  "cb_size b = (if cb_tail b < cb_front b then cb_capacity b - cb_front b + cb_tail b
                else cb_tail b - cb_front b)"

definition cb_pop :: "'a circular_buffer \<Rightarrow> ('a \<times> 'a circular_buffer) res" where
  "cb_pop b =
     (if cb_size b = 0 then Inl (Runtime_error ''pop: Empty circular buffer'')
      else rbind (vec_get (cb_buffer b) (unat (cb_front b))) (\<lambda>ret.
           Inr (ret, b\<lparr>cb_front := (cb_front b + 1) mod cb_capacity b\<rparr>)))"

definition cb_front_elem :: "'a circular_buffer \<Rightarrow> 'a res" where
  "cb_front_elem b =
     (if cb_size b = 0 then Inl (Runtime_error ''front(): Empty circular buffer'')
      else vec_get (cb_buffer b) (unat (cb_front b)))"

definition cb_add :: "'a \<Rightarrow> 'a circular_buffer \<Rightarrow> 'a circular_buffer res" where
  "cb_add item b =
     rbind (vec_set (cb_buffer b) (unat (cb_tail b)) item) (\<lambda>buf.
       let tail = cb_tail b + 1
       in Inr (b\<lparr>cb_buffer := buf, cb_tail := (if tail = cb_capacity b then 0 else tail)\<rparr>))"

lemmas cb_evals [eval_defs] = cb_new_def cb_copy_def cb_size_def cb_pop_def cb_front_elem_def cb_add_def

section \<open>Invariant and contents\<close>

definition cb_wf :: "'a circular_buffer \<Rightarrow> bool" where
  "cb_wf b \<longleftrightarrow> 0 < unat (cb_capacity b) \<and> length (cb_buffer b) = unat (cb_capacity b)
     \<and> unat (cb_front b) < unat (cb_capacity b) \<and> unat (cb_tail b) < unat (cb_capacity b)"

definition cb_contents :: "'a circular_buffer \<Rightarrow> 'a list" where
  "cb_contents b = map (\<lambda>i. cb_buffer b ! ((unat (cb_front b) + i) mod unat (cb_capacity b)))
     [0..<unat (cb_size b)]"

definition cb_room :: "'a circular_buffer \<Rightarrow> nat" where
  "cb_room b = unat (cb_capacity b) - 1 - unat (cb_size b)"

lemma length_cb_contents [simp]: "length (cb_contents b) = unat (cb_size b)"
  by (simp add: cb_contents_def)

text \<open>Positions in the ring, over \<open>nat\<close>.\<close>

definition ring_size :: "nat \<Rightarrow> nat \<Rightarrow> nat \<Rightarrow> nat" where
  "ring_size c f t = (if t < f then c - f + t else t - f)"

lemma ring_next: "f < c \<Longrightarrow> (f + 1) mod c = (if f + 1 = c then 0 else f + (1::nat))"
  by auto

lemma ring_size_bound: "f < c \<Longrightarrow> t < c \<Longrightarrow> ring_size c f t < c"
  by (auto simp: ring_size_def)

lemma ring_last: "f < c \<Longrightarrow> t < c \<Longrightarrow> (f + ring_size c f t) mod c = t"
  by (auto simp: ring_size_def)

lemma ring_inside: "f < c \<Longrightarrow> t < c \<Longrightarrow> i < ring_size c f t \<Longrightarrow> (f + i) mod c \<noteq> t"
proof -
  assume a: "f < c" "t < c" "i < ring_size c f t"
  then have "(f + i) mod c = (if f + i < c then f + i else f + i - c)"
    by (auto simp: ring_size_def le_mod_geq split: if_splits)
  with a show ?thesis by (auto simp: ring_size_def split: if_splits)
qed

lemma ring_size_add:
  "f < c \<Longrightarrow> t < c \<Longrightarrow> ring_size c f (if t + 1 = c then 0 else t + 1)
     = (if ring_size c f t + 1 = c then 0 else ring_size c f t + 1)"
  by (auto simp: ring_size_def)

lemma ring_size_pop:
  "f < c \<Longrightarrow> t < c \<Longrightarrow> 0 < ring_size c f t \<Longrightarrow>
   ring_size c ((f + 1) mod c) t = ring_size c f t - 1"
  by (subst ring_next) (auto simp: ring_size_def)

lemma cb_size_ring:
  assumes "cb_wf b"
  shows "unat (cb_size b) = ring_size (unat (cb_capacity b)) (unat (cb_front b)) (unat (cb_tail b))"
proof (cases "cb_tail b < cb_front b")
  case True
  have "cb_front b \<le> cb_capacity b" using assms by (simp add: cb_wf_def word_le_nat_alt)
  then have "unat (cb_capacity b - cb_front b) = unat (cb_capacity b) - unat (cb_front b)"
    by (rule unat_sub)
  moreover have "unat (cb_capacity b) - unat (cb_front b) + unat (cb_tail b) < 2 ^ 64"
    using assms True unat_u64[of "cb_capacity b"] by (simp add: cb_wf_def word_less_nat_alt)
  ultimately show ?thesis using True
    by (simp add: cb_size_def ring_size_def word_less_nat_alt unat_add_lem[THEN iffD1])
next
  case False
  then show ?thesis
    by (simp add: cb_size_def ring_size_def unat_sub word_less_nat_alt word_le_nat_alt)
qed

lemma unat_succ: "unat (x :: u64) < unat (c :: u64) \<Longrightarrow> unat (x + 1) = unat x + 1"
  using unat_u64[of c] by (simp add: unat_add_lem[THEN iffD1])

section \<open>The operations\<close>

lemma cb_new_ok:
  assumes "0 < capacity"
  shows "\<exists>b. cb_new z capacity = Inr b \<and> cb_wf b \<and> cb_contents b = [] \<and> cb_room b = unat capacity - 1"
  using assms
  by (simp add: cb_new_def cb_wf_def cb_contents_def cb_size_def cb_room_def unat_gt_0
      word_less_1 word_neq_0_conv[symmetric])

lemma cb_add_spec:
  assumes wf: "cb_wf b" and room: "unat (cb_size b) + 1 < unat (cb_capacity b)"
  shows "\<exists>b'. cb_add x b = Inr b' \<and> cb_wf b' \<and> cb_contents b' = cb_contents b @ [x]
    \<and> cb_capacity b' = cb_capacity b \<and> cb_size b' = cb_size b + 1"
proof -
  define c f t where "c = unat (cb_capacity b)" and "f = unat (cb_front b)" and "t = unat (cb_tail b)"
  have lt: "0 < c" "length (cb_buffer b) = c" "f < c" "t < c"
    using wf by (auto simp: cb_wf_def c_def f_def t_def)
  define b' where "b' = b\<lparr>cb_buffer := (cb_buffer b)[t := x],
     cb_tail := (if cb_tail b + 1 = cb_capacity b then 0 else cb_tail b + 1)\<rparr>"
  have add: "cb_add x b = Inr b'"
    using lt by (simp add: cb_add_def vec_set_def b'_def t_def Let_def)
  have u1: "unat (cb_tail b + 1) = t + 1"
    using unat_succ[of "cb_tail b" "cb_capacity b"] lt by (simp add: t_def c_def)
  then have eq: "cb_tail b + 1 = cb_capacity b \<longleftrightarrow> t + 1 = c"
    by (metis c_def word_unat_eq_iff)
  then have t': "unat (cb_tail b') = (if t + 1 = c then 0 else t + 1)"
    using u1 by (simp add: b'_def)
  have wf': "cb_wf b'"
    using lt t' by (auto simp: cb_wf_def b'_def c_def[symmetric] f_def[symmetric])
  have s: "unat (cb_size b) = ring_size c f t"
    using cb_size_ring[OF wf] by (simp add: c_def f_def t_def)
  have s': "unat (cb_size b') = ring_size c f t + 1"
    using cb_size_ring[OF wf'] t' ring_size_add[of f c t] room lt s
    by (simp add: b'_def c_def[symmetric] f_def[symmetric])
  have "cb_contents b' = map (\<lambda>i. (cb_buffer b)[t := x] ! ((f + i) mod c)) [0..<ring_size c f t] @ [x]"
    using lt s' by (simp add: cb_contents_def b'_def c_def[symmetric] f_def[symmetric] ring_last)
  also have "map (\<lambda>i. (cb_buffer b)[t := x] ! ((f + i) mod c)) [0..<ring_size c f t] = cb_contents b"
    unfolding cb_contents_def c_def[symmetric] f_def[symmetric] s
    using ring_inside[OF lt(3,4)] by (intro map_cong) (auto intro!: nth_list_update_neq dest: not_sym)
  finally have "cb_contents b' = cb_contents b @ [x]" .
  moreover have "cb_size b' = cb_size b + 1"
    using s s' room unat_u64[of "cb_capacity b"]
    by (intro word_unat_eq_iff[THEN iffD2]) (simp add: unat_add_lem[THEN iffD1])
  ultimately show ?thesis using add wf' by (auto simp: b'_def)
qed

lemma cb_pop_spec:
  assumes wf: "cb_wf b" and ne: "cb_contents b \<noteq> []"
  shows "\<exists>b'. cb_pop b = Inr (hd (cb_contents b), b') \<and> cb_wf b' \<and> cb_contents b' = tl (cb_contents b)
    \<and> cb_capacity b' = cb_capacity b \<and> cb_size b' = cb_size b - 1"
proof -
  define c f t where "c = unat (cb_capacity b)" and "f = unat (cb_front b)" and "t = unat (cb_tail b)"
  have lt: "0 < c" "length (cb_buffer b) = c" "f < c" "t < c"
    using wf by (auto simp: cb_wf_def c_def f_def t_def)
  have s: "unat (cb_size b) = ring_size c f t"
    using cb_size_ring[OF wf] by (simp add: c_def f_def t_def)
  have pos: "0 < ring_size c f t" using ne s by (auto simp flip: length_greater_0_conv)
  define b' where "b' = b\<lparr>cb_front := (cb_front b + 1) mod cb_capacity b\<rparr>"
  have f': "unat (cb_front b') = (f + 1) mod c"
    using unat_succ[of "cb_front b" "cb_capacity b"] lt
    by (simp add: b'_def unat_mod f_def c_def)
  have "cb_size b \<noteq> 0" using pos s by auto
  moreover have c0: "cb_contents b = cb_buffer b ! f # map (\<lambda>i. cb_buffer b ! ((f + Suc i) mod c)) [0..<ring_size c f t - 1]"
    unfolding cb_contents_def c_def[symmetric] f_def[symmetric] s
    using lt(3) pos by (cases "ring_size c f t") (simp_all add: map_upt_Suc del: upt_Suc)
  ultimately have pop: "cb_pop b = Inr (hd (cb_contents b), b')"
    using lt by (simp add: cb_pop_def vec_get_def b'_def f_def[symmetric])
  have wf': "cb_wf b'"
    using lt f' by (simp add: cb_wf_def b'_def c_def[symmetric] t_def[symmetric])
  have s': "unat (cb_size b') = ring_size c f t - 1"
    using cb_size_ring[OF wf'] f' ring_size_pop[of f c t] pos lt
    by (simp add: b'_def c_def[symmetric] t_def[symmetric])
  have "cb_contents b' = tl (cb_contents b)"
    unfolding c0 using s' f' lt
    by (simp add: cb_contents_def b'_def c_def[symmetric] mod_simps)
  moreover have "cb_size b' = cb_size b - 1"
    using s s' pos unat_sub[of 1 "cb_size b"] by (simp add: word_unat_eq_iff word_le_nat_alt)
  ultimately show ?thesis using pop wf' by (auto simp: b'_def)
qed

interpretation cb: fifo cb_wf cb_contents cb_room cb_add cb_pop
proof
  fix b :: "'a circular_buffer" and x
  assume "cb_wf b" "0 < cb_room b"
  then have "unat (cb_size b) + 1 < unat (cb_capacity b)" by (simp add: cb_room_def)
  from cb_add_spec[OF \<open>cb_wf b\<close> this, of x] this
  show "\<exists>q'. cb_add x b = Inr q' \<and> cb_wf q' \<and> cb_contents q' = cb_contents b @ [x] \<and> cb_room q' = cb_room b - 1"
    by (metis cb_room_def length_append_singleton length_cb_contents diff_diff_left Suc_eq_plus1)
next
  fix b :: "'a circular_buffer"
  assume wf: "cb_wf b" and ne: "cb_contents b \<noteq> []"
  have "unat (cb_size b) < unat (cb_capacity b)"
    using cb_size_ring[OF wf] wf by (simp add: cb_wf_def ring_size_bound)
  moreover have "0 < unat (cb_size b)" using ne by (simp flip: length_cb_contents)
  moreover obtain b' where b': "cb_pop b = Inr (hd (cb_contents b), b')" "cb_wf b'"
    "cb_contents b' = tl (cb_contents b)" "cb_capacity b' = cb_capacity b"
    using cb_pop_spec[OF wf ne] by metis
  moreover have "unat (cb_size b') = unat (cb_size b) - 1"
    using b'(3) by (metis length_cb_contents length_tl)
  ultimately show "\<exists>q'. cb_pop b = Inr (hd (cb_contents b), q') \<and> cb_wf q' \<and> cb_contents q' = tl (cb_contents b)
           \<and> cb_room q' = Suc (cb_room b)"
    by (auto simp: cb_room_def)
next
  fix b :: "'a circular_buffer"
  assume "cb_contents b = []"
  then have "unat (cb_size b) = 0" by (metis length_cb_contents list.size(3))
  then show "\<exists>e. cb_pop b = Inl e" by (simp add: cb_pop_def unat_eq_zero)
qed

section \<open>The element at the front\<close>

lemma cb_front_hd:
  assumes "cb_wf b" "cb_contents b = q # qs"
  shows "cb_front_elem b = Inr q"
proof -
  obtain b' where "cb_pop b = Inr (q, b')" using cb.deq_ok[OF assms(1)] assms(2) by auto
  then show ?thesis by (auto simp: cb_pop_def cb_front_elem_def split: if_splits)
qed

lemma cb_front_update:
  fixes x :: 'a
  assumes "cb_wf b" "cb_contents b = q # qs"
  defines "b' \<equiv> b\<lparr>cb_buffer := (cb_buffer b)[unat (cb_front b) := x]\<rparr>"
  shows "cb_wf b'" "cb_contents b' = x # qs" "cb_size b' = cb_size b" "cb_capacity b' = cb_capacity b"
proof -
  define c f n where "c = unat (cb_capacity b)" and "f = unat (cb_front b)" and "n = unat (cb_size b)"
  have lt: "f < c" "length (cb_buffer b) = c" using assms(1) by (auto simp: cb_wf_def c_def f_def)
  have n: "n < c" "0 < n"
    using cb_size_ring[OF assms(1)] assms(1) arg_cong[OF assms(2), of length]
      ring_size_bound[of "unat (cb_front b)" "unat (cb_capacity b)" "unat (cb_tail b)"]
    by (auto simp: cb_wf_def n_def c_def)
  show "cb_wf b'" "cb_capacity b' = cb_capacity b" using assms(1) by (simp_all add: cb_wf_def b'_def)
  show sz: "cb_size b' = cb_size b" by (simp add: b'_def cb_size_def)
  have ne: "(f + Suc i) mod c \<noteq> f" if "Suc i < n" for i
    using lt(1) n that by (cases "f + Suc i < c") (auto simp: le_mod_geq)
  have "cb_contents b' = map (\<lambda>i. (cb_buffer b)[f := x] ! ((f + i) mod c)) [0..<n]"
    by (simp add: cb_contents_def sz[unfolded b'_def] b'_def c_def f_def n_def)
  also have "\<dots> = x # map (\<lambda>i. (cb_buffer b)[f := x] ! ((f + Suc i) mod c)) [0..<n - 1]"
    using n lt by (cases n) (simp_all add: map_upt_Suc del: upt_Suc)
  also have "map (\<lambda>i. (cb_buffer b)[f := x] ! ((f + Suc i) mod c)) [0..<n - 1]
      = map (\<lambda>i. cb_buffer b ! ((f + Suc i) mod c)) [0..<n - 1]"
  proof (rule map_cong[OF refl])
    fix i assume "i \<in> set [0..<n - 1]"
    then have "Suc i < n" by auto
    from ne[OF this] show "(cb_buffer b)[f := x] ! ((f + Suc i) mod c) = cb_buffer b ! ((f + Suc i) mod c)"
      by simp
  qed
  also have "\<dots> = qs"
  proof -
    have "q # qs = map (\<lambda>i. cb_buffer b ! ((f + i) mod c)) [0..<n]"
      using assms(2) by (simp add: cb_contents_def c_def f_def n_def)
    then show ?thesis using n by (cases n) (simp_all add: map_upt_Suc del: upt_Suc)
  qed
  finally show "cb_contents b' = x # qs" .
qed

section \<open>What the users of the buffer get\<close>

text \<open>\<open>n\<close> calls of \<open>pop\<close>.\<close>

fun cb_pops :: "nat \<Rightarrow> 'a circular_buffer \<Rightarrow> ('a list \<times> 'a circular_buffer) res" where
  "cb_pops 0 b = Inr ([], b)"
| "cb_pops (Suc n) b = rbind (cb_pop b) (\<lambda>(x, b). rbind (cb_pops n b) (\<lambda>(xs, b). Inr (x # xs, b)))"

lemma cb_pops_deqs: "cb_pops n = cb.deqs n"
  by (induction n) (auto simp: fun_eq_iff)

text \<open>
  Fewer elements than the capacity, added to a new buffer, are popped in the order in which
  they were added, without an error on the way.
\<close>

lemma cb_first_in_first_out:
  assumes "length xs < unat capacity"
  shows "\<exists>b b'. cb_new z capacity = Inr b \<and> rbind (rfold cb_add xs b) (cb_pops (length xs)) = Inr (xs, b')"
proof -
  have "0 < capacity" using assms by (simp add: word_less_nat_alt)
  then obtain b where b: "cb_new z capacity = Inr b" "cb_wf b" "cb_contents b = []" "cb_room b = unat capacity - 1"
    using cb_new_ok[of capacity z] by metis
  then have "length xs \<le> cb_room b" using assms by simp
  from cb.deqs_enqs[OF b(2,3) this] obtain b' where
    "rbind (rfold cb_add xs b) (cb.deqs (length xs)) = Inr (xs, b')" by blast
  then show ?thesis unfolding cb_pops_deqs using b(1) by blast
qed

lemma cb_first_in_first_out_example:
  "\<exists>b b'. cb_new (0 :: nat) 3 = Inr b \<and> rbind (rfold cb_add [5, 6] b) (cb_pops (length [5 :: nat, 6])) = Inr ([5, 6], b')"
  by (rule cb_first_in_first_out) simp

text \<open>
  \<open>add\<close> does not check for room: on a buffer that holds \<open>capacity - 1\<close> elements it moves
  \<open>tail\<close> onto \<open>front\<close>, and the buffer then reports that it is empty.
\<close>

lemma cb_add_full:
  assumes wf: "cb_wf b" and full: "unat (cb_size b) + 1 = unat (cb_capacity b)"
  shows "\<exists>b'. cb_add x b = Inr b' \<and> cb_wf b' \<and> cb_size b' = 0"
proof -
  define c f t where "c = unat (cb_capacity b)" and "f = unat (cb_front b)" and "t = unat (cb_tail b)"
  have lt: "0 < c" "length (cb_buffer b) = c" "f < c" "t < c"
    using wf by (auto simp: cb_wf_def c_def f_def t_def)
  define b' where "b' = b\<lparr>cb_buffer := (cb_buffer b)[t := x],
     cb_tail := (if cb_tail b + 1 = cb_capacity b then 0 else cb_tail b + 1)\<rparr>"
  have u1: "unat (cb_tail b + 1) = t + 1"
    using unat_succ[of "cb_tail b" "cb_capacity b"] lt by (simp add: t_def c_def)
  then have "cb_tail b + 1 = cb_capacity b \<longleftrightarrow> t + 1 = c"
    by (metis c_def word_unat_eq_iff)
  then have t': "unat (cb_tail b') = (if t + 1 = c then 0 else t + 1)"
    using u1 by (simp add: b'_def)
  have wf': "cb_wf b'"
    using lt t' by (auto simp: cb_wf_def b'_def c_def[symmetric] f_def[symmetric])
  have "unat (cb_size b') = 0"
    using cb_size_ring[OF wf'] t' ring_size_add[of f c t] full lt cb_size_ring[OF wf]
    by (simp add: b'_def c_def[symmetric] f_def[symmetric] t_def[symmetric])
  then show ?thesis using wf' lt
    by (simp add: cb_add_def vec_set_def b'_def t_def Let_def unat_eq_zero)
qed

lemma cb_add_full_example:
  "\<exists>b'. cb_add (7 :: nat) \<lparr>cb_buffer = [5, 0], cb_capacity = 2, cb_front = 0, cb_tail = 1\<rparr> = Inr b'
     \<and> cb_wf b' \<and> cb_size b' = 0"
  by (rule cb_add_full) (simp_all add: cb_wf_def cb_size_def)

end
