(* ===== verification/Bytes.thy ===== *)
theory Bytes
  imports Prelude
begin

text \<open>
  The serialised form of values: \<open>store_value\<close> and \<open>load_value\<close> of \<open>Utils.h\<close> on the
  little-endian target. A buffer that is being read is the list of its remaining bytes, and
  a load takes its bytes off the front (\<open>advance_ptr\<close>); \<open>None\<close> is a load past the end of
  the buffer. A buffer that is being written is the list of the bytes written so far.

  The locale \<open>codec\<close> states what a pair of such routines promises; its lemmas carry the
  round trips of every message format of the development.
\<close>

section \<open>Little-endian numbers\<close>

fun nat_to_le :: "nat \<Rightarrow> nat \<Rightarrow> byte list" where
  "nat_to_le 0 n = []"
| "nat_to_le (Suc k) n = word_of_nat (n mod 256) # nat_to_le k (n div 256)"

fun le_to_nat :: "byte list \<Rightarrow> nat" where
  "le_to_nat [] = 0"
| "le_to_nat (b # bs) = unat b + 256 * le_to_nat bs"

lemmas le_evals [eval_defs] = nat_to_le.simps le_to_nat.simps

lemma length_nat_to_le [simp]: "length (nat_to_le k n) = k"
  by (induction k arbitrary: n) auto

lemma le_to_nat_nat_to_le: "le_to_nat (nat_to_le k n) = n mod 256 ^ k"
proof (induction k arbitrary: n)
  case (Suc k)
  have "n mod 256 + 256 * (n div 256 mod 256 ^ k) = n mod (256 * 256 ^ k)"
    by (simp add: mod_mult2_eq)
  with Suc show ?case by (simp add: unat_of_nat take_bit_eq_mod)
qed simp

lemma le_to_nat_less: "le_to_nat bs < 256 ^ length bs"
proof (induction bs)
  case (Cons b bs)
  have "unat b < 256" using unsigned_less[of b] by simp
  moreover have "256 * le_to_nat bs + 256 \<le> 256 * 256 ^ length bs"
    using Cons by (metis Suc_leI add.commute mult_Suc_right mult_le_mono2)
  ultimately show ?case by simp
qed simp

lemma nat_to_le_le_to_nat: "nat_to_le (length bs) (le_to_nat bs) = bs"
proof (induction bs)
  case (Cons b bs)
  have "unat b < 256" using unsigned_less[of b] by simp
  then show ?case using Cons by simp
qed simp

lemma le_to_nat_append: "le_to_nat (xs @ ys) = le_to_nat xs + 256 ^ length xs * le_to_nat ys"
  by (induction xs) (auto simp: algebra_simps)

section \<open>load_value and store_value\<close>

definition load_bytes :: "nat \<Rightarrow> byte list \<Rightarrow> (nat \<times> byte list) option" where
  "load_bytes k bs = (if length bs < k then None else Some (le_to_nat (take k bs), drop k bs))"

definition store_u32 :: "u32 \<Rightarrow> byte list" where
  "store_u32 v = nat_to_le 4 (unat v)"

definition load_u32 :: "byte list \<Rightarrow> (u32 \<times> byte list) option" where
  "load_u32 bs = map_option (map_prod word_of_nat id) (load_bytes 4 bs)"

definition store_u64 :: "u64 \<Rightarrow> byte list" where
  "store_u64 v = nat_to_le 8 (unat v)"

definition load_u64 :: "byte list \<Rightarrow> (u64 \<times> byte list) option" where
  "load_u64 bs = map_option (map_prod word_of_nat id) (load_bytes 8 bs)"

text \<open>An \<open>int\<close> is stored as its 32 bits, a \<open>float\<close> as the bits of its IEEE 754 form.\<close>

abbreviation (input) "store_int \<equiv> store_u32"
abbreviation (input) "load_int \<equiv> load_u32"
abbreviation (input) "store_float \<equiv> store_u32"
abbreviation (input) "load_float \<equiv> load_u32"

text \<open>\<open>advance_ptr(p, bytes)\<close> on a buffer that is being read.\<close>

definition advance_ptr :: "nat \<Rightarrow> byte list \<Rightarrow> byte list option" where
  "advance_ptr n bs = (if length bs < n then None else Some (drop n bs))"

lemmas byte_evals [eval_defs] =
  load_bytes_def store_u32_def load_u32_def store_u64_def load_u64_def advance_ptr_def

text \<open>Loads in sequence: \<open>load_then load k bs\<close> loads and continues with the value.\<close>

definition load_then ::
    "(byte list \<Rightarrow> ('a \<times> byte list) option) \<Rightarrow> byte list \<Rightarrow> ('a \<Rightarrow> byte list \<Rightarrow> 'b res) \<Rightarrow> 'b res" where
  "load_then load bs k = (case load bs of None \<Rightarrow> Inl Undefined_behaviour | Some (v, r) \<Rightarrow> k v r)"

lemma load_then_simps [simp, eval_defs]:
  "load bs = Some (v, r) \<Longrightarrow> load_then load bs k = k v r"
  "load bs = None \<Longrightarrow> load_then load bs k = Inl Undefined_behaviour"
  by (simp_all add: load_then_def)

lemma load_then_Inr:
  "load_then load bs k = Inr y \<longleftrightarrow> (\<exists>v r. load bs = Some (v, r) \<and> k v r = Inr y)"
  by (auto simp: load_then_def split: option.splits)

text \<open>\<open>n\<close> loads of the same kind, as the \<open>for\<close> loops of the deserialisers make them.\<close>

fun load_many ::
    "(byte list \<Rightarrow> ('a \<times> byte list) option) \<Rightarrow> nat \<Rightarrow> byte list \<Rightarrow> ('a list \<times> byte list) option" where
  "load_many load 0 bs = Some ([], bs)"
| "load_many load (Suc n) bs =
     (case load bs of None \<Rightarrow> None
      | Some (x, r) \<Rightarrow> (case load_many load n r of None \<Rightarrow> None
                        | Some (xs, r') \<Rightarrow> Some (x # xs, r')))"

lemmas load_many_evals [eval_defs] = load_many.simps

lemma load_many_length:
  "load_many load n bs = Some (xs, r) \<Longrightarrow> length xs = n"
  by (induction n arbitrary: bs xs r) (auto split: option.splits)

definition store_many :: "('a \<Rightarrow> byte list) \<Rightarrow> 'a list \<Rightarrow> byte list" where
  "store_many store xs = concat (map store xs)"

lemma store_many_simps [simp, eval_defs]:
  "store_many st [] = []"
  "store_many st (x # xs) = st x @ store_many st xs"
  "store_many st (xs @ ys) = store_many st xs @ store_many st ys"
  by (simp_all add: store_many_def)

definition store_pair :: "('a \<Rightarrow> byte list) \<Rightarrow> ('b \<Rightarrow> byte list) \<Rightarrow> 'a \<times> 'b \<Rightarrow> byte list" where
  "store_pair s t p = s (fst p) @ t (snd p)"

definition load_pair ::
    "(byte list \<Rightarrow> ('a \<times> byte list) option) \<Rightarrow> (byte list \<Rightarrow> ('b \<times> byte list) option) \<Rightarrow>
     byte list \<Rightarrow> (('a \<times> 'b) \<times> byte list) option" where
  "load_pair l m bs = (case l bs of None \<Rightarrow> None
     | Some (x, r) \<Rightarrow> (case m r of None \<Rightarrow> None | Some (y, r') \<Rightarrow> Some ((x, y), r')))"

lemmas pair_evals [eval_defs] = store_pair_def load_pair_def

text \<open>Loops over items that are each read back, whatever their width.\<close>

lemma load_many_store_items:
  "(\<And>x r. x \<in> set xs \<Longrightarrow> load (store x @ r) = Some (x, r)) \<Longrightarrow>
   load_many load (length xs) (store_many store xs @ r) = Some (xs, r)"
  by (induction xs) auto

lemma length_store_many_items:
  "(\<And>x. x \<in> set xs \<Longrightarrow> length (store x) = w) \<Longrightarrow> length (store_many store xs) = w * length xs"
  by (induction xs) auto

section \<open>The codec interface\<close>

text \<open>
  A codec of fixed width: what was stored is loaded again, whatever follows it in the
  buffer; a buffer shorter than the width is never read successfully; and a load that
  succeeds has consumed exactly the stored form of its value.
\<close>

locale codec =
  fixes store :: "'a \<Rightarrow> byte list"
    and load :: "byte list \<Rightarrow> ('a \<times> byte list) option"
    and width :: nat
  assumes load_store: "load (store x @ r) = Some (x, r)"
    and length_store: "length (store x) = width"
    and load_short: "length bs < width \<Longrightarrow> load bs = None"
    and store_load: "load bs = Some (x, r) \<Longrightarrow> bs = store x @ r"
begin

lemma store_inj: "store x = store y \<Longrightarrow> x = y"
  by (metis load_store option.inject prod.inject)

lemma length_store_many: "length (store_many store xs) = width * length xs"
  by (induction xs) (auto simp: length_store)

lemma load_many_store: "load_many load (length xs) (store_many store xs @ r) = Some (xs, r)"
  by (induction xs) (auto simp: load_store)

lemma load_many_store_n:
  "length xs = n \<Longrightarrow> load_many load n (store_many store xs @ r) = Some (xs, r)"
  using load_many_store by blast

lemma store_load_many:
  "load_many load n bs = Some (xs, r) \<Longrightarrow> bs = store_many store xs @ r"
proof (induction n arbitrary: bs xs)
  case (Suc n)
  then show ?case by (auto split: option.splits dest!: store_load)
qed simp

lemma load_many_short:
  assumes "length bs < width * n"
  shows "load_many load n bs = None"
proof (rule ccontr)
  assume "load_many load n bs \<noteq> None"
  then obtain xs r where "load_many load n bs = Some (xs, r)" by auto
  then have "length xs = n" "bs = store_many store xs @ r"
    by (auto dest: load_many_length store_load_many)
  with assms show False by (simp add: length_store_many)
qed

lemma load_then_store: "load_then load (store x @ r) k = k x r"
  by (simp add: load_store)

lemma load_then_many_store:
  "length xs = n \<Longrightarrow> load_then (load_many load n) (store_many store xs @ r) k = k xs r"
  by (simp add: load_then_def load_many_store_n)

end

text \<open>Two codecs in sequence are a codec for pairs.\<close>

locale codec_pair =
  a: codec store load width + b: codec store' load' width'
  for store :: "'a \<Rightarrow> byte list" and load width
    and store' :: "'b \<Rightarrow> byte list" and load' width'

sublocale codec_pair \<subseteq> pair: codec "store_pair store store'" "load_pair load load'" "width + width'"
proof
  fix bs x r
  assume "load_pair load load' bs = Some (x, r)"
  then show "bs = store_pair store store' x @ r"
    by (auto simp: load_pair_def store_pair_def split: option.splits
        dest!: a.store_load b.store_load)
next
  fix bs :: "byte list"
  assume short: "length bs < width + width'"
  show "load_pair load load' bs = None"
  proof (cases "load bs")
    case (Some p)
    then have "length (snd p) < width'"
      using short a.store_load[of bs "fst p" "snd p"] a.length_store[of "fst p"] by simp
    with Some show ?thesis by (cases p) (simp add: load_pair_def b.load_short)
  qed (simp add: load_pair_def)
qed (auto simp: load_pair_def store_pair_def a.load_store b.load_store a.length_store b.length_store)

section \<open>The codecs of the code\<close>

lemma load_bytes_Some:
  "load_bytes k bs = Some (n, r) \<Longrightarrow> bs = nat_to_le k n @ r \<and> n < 256 ^ k"
  using nat_to_le_le_to_nat[of "take k bs"] le_to_nat_less[of "take k bs"]
  by (auto simp: load_bytes_def min_def split: if_splits)

interpretation u32: codec store_u32 load_u32 4
proof
  fix bs :: "byte list" and x r
  assume "load_u32 bs = Some (x, r)"
  then obtain n where n: "load_bytes 4 bs = Some (n, r)" "x = word_of_nat n"
    by (auto simp: load_u32_def)
  then have "unat x = n" using load_bytes_Some[OF n(1)]
    by (simp add: unat_of_nat take_bit_nat_eq_self)
  with load_bytes_Some[OF n(1)] show "bs = store_u32 x @ r" by (simp add: store_u32_def)
next
  fix x :: u32 and r
  have "unat x < 256 ^ 4" using unsigned_less[of x] by simp
  then show "load_u32 (store_u32 x @ r) = Some (x, r)"
    by (simp add: load_u32_def store_u32_def load_bytes_def le_to_nat_nat_to_le)
qed (auto simp: load_u32_def store_u32_def load_bytes_def)

interpretation u64: codec store_u64 load_u64 8
proof
  fix bs :: "byte list" and x r
  assume "load_u64 bs = Some (x, r)"
  then obtain n where n: "load_bytes 8 bs = Some (n, r)" "x = word_of_nat n"
    by (auto simp: load_u64_def)
  then have "unat x = n" using load_bytes_Some[OF n(1)]
    by (simp add: unat_of_nat take_bit_nat_eq_self)
  with load_bytes_Some[OF n(1)] show "bs = store_u64 x @ r" by (simp add: store_u64_def)
next
  fix x :: u64 and r
  have "unat x < 256 ^ 8" using unsigned_less[of x] by simp
  then show "load_u64 (store_u64 x @ r) = Some (x, r)"
    by (simp add: load_u64_def store_u64_def load_bytes_def le_to_nat_nat_to_le)
qed (auto simp: load_u64_def store_u64_def load_bytes_def)

text \<open>An \<open>int\<close> index followed by its \<open>float\<close> value, the entry of every sparse format.\<close>

abbreviation (input) "store_entry \<equiv> store_pair store_u32 store_u32"
abbreviation (input) "load_entry \<equiv> load_pair load_u32 load_u32"

interpretation entry: codec_pair store_u32 load_u32 4 store_u32 load_u32 4
  by unfold_locales

declare u32.load_store [simp] u64.load_store [simp] entry.pair.load_store [simp]
declare u32.length_store [simp] u64.length_store [simp] entry.pair.length_store [simp]
declare u32.length_store_many [simp] u64.length_store_many [simp] entry.pair.length_store_many [simp]
declare u32.load_then_store [simp] u64.load_then_store [simp] entry.pair.load_then_store [simp]
declare u32.load_many_store_n [simp] entry.pair.load_many_store_n [simp]

end
