(* ===== verification/CFloat.thy ===== *)
theory CFloat
  imports Prelude
begin

text \<open>
  The \<open>float\<close> and \<open>double\<close> arithmetic of the code: IEEE 754 binary32 and binary64,
  round to nearest with ties to even, evaluated in the type of the expression (SSE2 code,
  no fused multiply-add, no \<open>-ffast-math\<close>: the build sets \<open>-O3\<close> only). A value is its
  bit pattern, so that copying it through memory is exact, and every operation decodes its
  operands, computes the exact result, and rounds it once. All of it is executable.

  The sign and payload of a NaN that an operation produces are not specified by C++; the
  model gives one quiet NaN. The code observes a NaN only through \<open>std::isnan\<close> and
  through comparisons, which do not depend on them.
\<close>

section \<open>Formats, decoding\<close>

text \<open>
  A format has \<open>eb\<close> exponent bits and \<open>mb\<close> fraction bits. A finite number is
  \<open>(-1)\<^sup>s * m * 2\<^sup>e\<close>; \<open>fp_emin\<close> is the exponent of the subnormal numbers.
\<close>

datatype fpv = FNan | FInf bool | FFin bool nat int

definition fp_emin :: "nat \<Rightarrow> nat \<Rightarrow> int" where
  "fp_emin eb mb = 2 - 2 ^ (eb - 1) - int mb"

definition fp_decode :: "nat \<Rightarrow> nat \<Rightarrow> nat \<Rightarrow> fpv" where
  "fp_decode eb mb n =
     (let m = n mod 2 ^ mb; e = n div 2 ^ mb mod 2 ^ eb; s = odd (n div 2 ^ (mb + eb))
      in if e = 2 ^ eb - 1 then (if m = 0 then FInf s else FNan)
         else if e = 0 then FFin s m (fp_emin eb mb)
         else FFin s (2 ^ mb + m) (fp_emin eb mb + int e - 1))"

section \<open>Rounding\<close>

fun bitlen :: "nat \<Rightarrow> nat" where
  "bitlen n = (if n = 0 then 0 else Suc (bitlen (n div 2)))"

declare bitlen.simps [simp del]

lemma bitlen_0 [simp]: "bitlen 0 = 0"
  by (simp add: bitlen.simps)

lemma bitlen_le_iff: "bitlen n \<le> k \<longleftrightarrow> n < 2 ^ k"
proof (induction k arbitrary: n)
  case 0
  then show ?case by (simp add: bitlen.simps[of n])
next
  case (Suc k)
  show ?case
  proof (cases "n = 0")
    case False
    then have "bitlen n = Suc (bitlen (n div 2))" by (simp add: bitlen.simps[of n])
    then show ?thesis using Suc.IH[of "n div 2"] by (simp add: less_mult_imp_div_less) presburger
  qed simp
qed

lemma bitlen_eqI: "2 ^ k \<le> n \<Longrightarrow> n < 2 ^ Suc k \<Longrightarrow> bitlen n = Suc k"
  by (metis bitlen_le_iff le_SucE not_less)

lemma bitlen_bounds: "0 < n \<Longrightarrow> 2 ^ (bitlen n - 1) \<le> n \<and> n < 2 ^ bitlen n"
  by (metis bitlen_le_iff diff_is_0_eq' diff_less le_eq_less_or_eq less_one linorder_not_less
      nat_less_le power_0 zero_less_diff zero_less_one Suc_pred' not_less_eq_eq)

lemma bitlen_shift: "0 < n \<Longrightarrow> bitlen (n * 2 ^ j) = bitlen n + j"
proof (induction j)
  case (Suc j)
  have "bitlen (n * 2 ^ j * 2) = Suc (bitlen (n * 2 ^ j))"
    using Suc.prems by (subst bitlen.simps) simp
  with Suc show ?case by (simp add: ac_simps)
qed simp

text \<open>Evaluation of closed instances; on literals only, so that the equations do not loop.\<close>

lemma bitlen_numeral:
  "bitlen (numeral (Num.Bit0 k)) = bitlen (numeral k) + 1"
  "bitlen (numeral (Num.Bit1 k)) = bitlen (numeral k) + 1"
  "bitlen 1 = 1" "bitlen (Suc 0) = 1"
  by (simp_all add: bitlen.simps[of "numeral _"] bitlen.simps[of "Suc 0"])

text \<open>\<open>n / 2\<^sup>k\<close> rounded to the nearest integer, ties to even.\<close>

definition round_half_even :: "nat \<Rightarrow> nat \<Rightarrow> nat" where
  "round_half_even n k =
     (let q = n div 2 ^ k; r = n mod 2 ^ k
      in if 2 ^ k < 2 * r \<or> (2 * r = 2 ^ k \<and> odd q) then Suc q else q)"

text \<open>For closed instances; a shift by one is a case of its own.\<close>

lemma round_half_even_eval:
  "round_half_even n (numeral k) =
     (let q = n div 2 ^ numeral k; r = n mod 2 ^ numeral k
      in if 2 ^ numeral k < 2 * r \<or> (2 * r = 2 ^ numeral k \<and> odd q) then Suc q else q)"
  "round_half_even (numeral (Num.Bit0 m)) (Suc 0) = numeral m"
  "round_half_even (numeral (Num.Bit1 m)) (Suc 0) = (if odd (numeral m :: nat) then Suc (numeral m) else numeral m)"
  "round_half_even (Suc 0) (Suc 0) = 0"
proof -
  show "round_half_even n (numeral k) =
     (let q = n div 2 ^ numeral k; r = n mod 2 ^ numeral k
      in if 2 ^ numeral k < 2 * r \<or> (2 * r = 2 ^ numeral k \<and> odd q) then Suc q else q)"
    by (simp only: round_half_even_def)
  show "round_half_even (numeral (Num.Bit0 m)) (Suc 0) = numeral m"
    unfolding round_half_even_def numeral_Bit0 by (simp add: mult_2[symmetric])
  have "numeral (Num.Bit1 m) = 2 * (numeral m :: nat) + 1" by (simp add: numeral_Bit1)
  then show "round_half_even (numeral (Num.Bit1 m)) (Suc 0) = (if odd (numeral m :: nat) then Suc (numeral m) else numeral m)"
    unfolding round_half_even_def by (simp only:) simp
  show "round_half_even (Suc 0) (Suc 0) = 0" by (simp add: round_half_even_def)
qed

definition fp_pack :: "nat \<Rightarrow> nat \<Rightarrow> bool \<Rightarrow> nat \<Rightarrow> nat" where
  "fp_pack eb mb s mag = (if s then 2 ^ (mb + eb) else 0) + mag"

definition fp_infbits :: "nat \<Rightarrow> nat \<Rightarrow> nat" where
  "fp_infbits eb mb = (2 ^ eb - 1) * 2 ^ mb"

definition fp_nan :: "nat \<Rightarrow> nat \<Rightarrow> nat" where
  "fp_nan eb mb = fp_infbits eb mb + 2 ^ (mb - 1)"

text \<open>
  The number of the format nearest to \<open>m * 2\<^sup>e\<close>. \<open>t\<close> is the exponent of the last place
  of the result; the encoding of the rounded significand \<open>q\<close> is written so that a carry
  out of it moves to the next exponent, and overflow becomes infinity.
\<close>

definition fp_round :: "nat \<Rightarrow> nat \<Rightarrow> bool \<Rightarrow> nat \<Rightarrow> int \<Rightarrow> nat" where
  "fp_round eb mb s m e =
     (if m = 0 then fp_pack eb mb s 0
      else let t = max (e + int (bitlen m) - int (mb + 1)) (fp_emin eb mb);
               q = (if t \<le> e then m * 2 ^ nat (e - t) else round_half_even m (nat (t - e)))
           in fp_pack eb mb s (min (fp_infbits eb mb) (nat (t - fp_emin eb mb) * 2 ^ mb + q)))"

text \<open>
  The nearest number to \<open>num / den * 2\<^sup>e\<close>: enough quotient bits that the remainder only
  matters as being zero or not (the \<open>sticky\<close> bit).
\<close>

definition fp_of_ratio :: "nat \<Rightarrow> nat \<Rightarrow> bool \<Rightarrow> nat \<Rightarrow> nat \<Rightarrow> int \<Rightarrow> nat" where
  "fp_of_ratio eb mb s num den e =
     (let k = mb + 3 + bitlen den; q = num * 2 ^ k div den;
          sticky = (if num * 2 ^ k mod den = 0 then 0 else 1)
      in fp_round eb mb s (2 * q + sticky) (e - int k - 1))"

section \<open>Arithmetic\<close>

definition fp_signed :: "bool \<Rightarrow> nat \<Rightarrow> int" where
  "fp_signed s m = (if s then - int m else int m)"

definition fp_add :: "nat \<Rightarrow> nat \<Rightarrow> fpv \<Rightarrow> fpv \<Rightarrow> nat" where
  "fp_add eb mb x y =
     (case x of FNan \<Rightarrow> fp_nan eb mb
      | FInf s \<Rightarrow> (case y of FNan \<Rightarrow> fp_nan eb mb
                  | FInf t \<Rightarrow> if s = t then fp_pack eb mb s (fp_infbits eb mb) else fp_nan eb mb
                  | FFin _ _ _ \<Rightarrow> fp_pack eb mb s (fp_infbits eb mb))
      | FFin s m e \<Rightarrow> (case y of FNan \<Rightarrow> fp_nan eb mb
                  | FInf t \<Rightarrow> fp_pack eb mb t (fp_infbits eb mb)
                  | FFin t k f \<Rightarrow>
                      (let g = min e f;
                           v = fp_signed s (m * 2 ^ nat (e - g)) + fp_signed t (k * 2 ^ nat (f - g))
                       in if v = 0 then fp_pack eb mb (s \<and> t) 0
                          else fp_round eb mb (v < 0) (nat \<bar>v\<bar>) g)))"

definition fp_neg :: "fpv \<Rightarrow> fpv" where
  "fp_neg x = (case x of FNan \<Rightarrow> FNan | FInf s \<Rightarrow> FInf (\<not> s) | FFin s m e \<Rightarrow> FFin (\<not> s) m e)"

definition fp_mul :: "nat \<Rightarrow> nat \<Rightarrow> fpv \<Rightarrow> fpv \<Rightarrow> nat" where
  "fp_mul eb mb x y =
     (case x of FNan \<Rightarrow> fp_nan eb mb
      | FInf s \<Rightarrow> (case y of FNan \<Rightarrow> fp_nan eb mb
                  | FInf t \<Rightarrow> fp_pack eb mb (s \<noteq> t) (fp_infbits eb mb)
                  | FFin t k _ \<Rightarrow> if k = 0 then fp_nan eb mb
                                  else fp_pack eb mb (s \<noteq> t) (fp_infbits eb mb))
      | FFin s m e \<Rightarrow> (case y of FNan \<Rightarrow> fp_nan eb mb
                  | FInf t \<Rightarrow> if m = 0 then fp_nan eb mb
                              else fp_pack eb mb (s \<noteq> t) (fp_infbits eb mb)
                  | FFin t k f \<Rightarrow> fp_round eb mb (s \<noteq> t) (m * k) (e + f)))"

definition fp_div :: "nat \<Rightarrow> nat \<Rightarrow> fpv \<Rightarrow> fpv \<Rightarrow> nat" where
  "fp_div eb mb x y =
     (case x of FNan \<Rightarrow> fp_nan eb mb
      | FInf s \<Rightarrow> (case y of FNan \<Rightarrow> fp_nan eb mb
                  | FInf _ \<Rightarrow> fp_nan eb mb
                  | FFin t _ _ \<Rightarrow> fp_pack eb mb (s \<noteq> t) (fp_infbits eb mb))
      | FFin s m e \<Rightarrow> (case y of FNan \<Rightarrow> fp_nan eb mb
                  | FInf t \<Rightarrow> fp_pack eb mb (s \<noteq> t) 0
                  | FFin t k f \<Rightarrow>
                      if k = 0 then (if m = 0 then fp_nan eb mb
                                     else fp_pack eb mb (s \<noteq> t) (fp_infbits eb mb))
                      else fp_of_ratio eb mb (s \<noteq> t) m k (e - f)))"

fun isqrt :: "nat \<Rightarrow> nat" where
  "isqrt n = (if n = 0 then 0
              else let r = 2 * isqrt (n div 4) in if (r + 1) * (r + 1) \<le> n then r + 1 else r)"

declare isqrt.simps [simp del]

lemma isqrt_bounds: "isqrt n * isqrt n \<le> n \<and> n < (isqrt n + 1) * (isqrt n + 1)"
proof (induction n rule: isqrt.induct)
  case (1 n)
  show ?case
  proof (cases "n = 0")
    case False
    define r where "r = isqrt (n div 4)"
    have IH: "r * r \<le> n div 4" "n div 4 < (r + 1) * (r + 1)"
      using 1 False by (auto simp: r_def)
    have "4 * (r * r) \<le> n" using IH(1) by linarith
    moreover have "n < 4 * ((r + 1) * (r + 1))" using IH(2) by linarith
    ultimately show ?thesis using False
      by (subst (1 2 3 4) isqrt.simps) (auto simp: r_def[symmetric] Let_def algebra_simps)
  qed (simp add: isqrt.simps)
qed

lemma isqrt_numeral:
  "isqrt (numeral k) =
     (let r = 2 * isqrt (numeral k div 4) in if (r + 1) * (r + 1) \<le> numeral k then r + 1 else r)"
  "isqrt 1 = 1" "isqrt (Suc 0) = 1" "isqrt 0 = 0"
  by (simp_all add: isqrt.simps[of "numeral _"] isqrt.simps[of "Suc 0"] isqrt.simps[of 0])

definition fp_sqrt :: "nat \<Rightarrow> nat \<Rightarrow> fpv \<Rightarrow> nat" where
  "fp_sqrt eb mb x =
     (case x of FNan \<Rightarrow> fp_nan eb mb
      | FInf s \<Rightarrow> if s then fp_nan eb mb else fp_pack eb mb False (fp_infbits eb mb)
      | FFin s m e \<Rightarrow>
          if m = 0 then fp_pack eb mb s 0
          else if s then fp_nan eb mb
          else let k = 2 * (mb + 3) + (if even e then 0 else 1);
                   n = m * 2 ^ k; r = isqrt n; sticky = (if r * r = n then 0 else 1)
               in fp_round eb mb False (2 * r + sticky) ((e - int k) div 2 - 1))"

definition fp_less :: "fpv \<Rightarrow> fpv \<Rightarrow> bool" where
  "fp_less x y =
     (case x of FNan \<Rightarrow> False
      | FInf s \<Rightarrow> (case y of FNan \<Rightarrow> False | FInf t \<Rightarrow> s \<and> \<not> t | FFin _ _ _ \<Rightarrow> s)
      | FFin s m e \<Rightarrow> (case y of FNan \<Rightarrow> False | FInf t \<Rightarrow> \<not> t
                  | FFin t k f \<Rightarrow> let g = min e f in
                      fp_signed s (m * 2 ^ nat (e - g)) < fp_signed t (k * 2 ^ nat (f - g))))"

definition fp_eq :: "fpv \<Rightarrow> fpv \<Rightarrow> bool" where
  "fp_eq x y =
     (case x of FNan \<Rightarrow> False
      | FInf s \<Rightarrow> (case y of FInf t \<Rightarrow> s = t | _ \<Rightarrow> False)
      | FFin s m e \<Rightarrow> (case y of FFin t k f \<Rightarrow> let g = min e f in
                      fp_signed s (m * 2 ^ nat (e - g)) = fp_signed t (k * 2 ^ nat (f - g))
                  | _ \<Rightarrow> False))"

section \<open>float and double\<close>

definition dec32 :: "f32 \<Rightarrow> fpv" where "dec32 x = fp_decode 8 23 (unat x)"
definition dec64 :: "f64 \<Rightarrow> fpv" where "dec64 x = fp_decode 11 52 (unat x)"

definition f32_add :: "f32 \<Rightarrow> f32 \<Rightarrow> f32" where
  "f32_add x y = word_of_nat (fp_add 8 23 (dec32 x) (dec32 y))"
definition f32_sub :: "f32 \<Rightarrow> f32 \<Rightarrow> f32" where
  "f32_sub x y = word_of_nat (fp_add 8 23 (dec32 x) (fp_neg (dec32 y)))"
definition f32_mul :: "f32 \<Rightarrow> f32 \<Rightarrow> f32" where
  "f32_mul x y = word_of_nat (fp_mul 8 23 (dec32 x) (dec32 y))"
definition f32_div :: "f32 \<Rightarrow> f32 \<Rightarrow> f32" where
  "f32_div x y = word_of_nat (fp_div 8 23 (dec32 x) (dec32 y))"
definition f32_sqrt :: "f32 \<Rightarrow> f32" where
  "f32_sqrt x = word_of_nat (fp_sqrt 8 23 (dec32 x))"
definition f32_less :: "f32 \<Rightarrow> f32 \<Rightarrow> bool" where
  "f32_less x y = fp_less (dec32 x) (dec32 y)"
definition f32_eq :: "f32 \<Rightarrow> f32 \<Rightarrow> bool" where
  "f32_eq x y = fp_eq (dec32 x) (dec32 y)"
definition f32_isnan :: "f32 \<Rightarrow> bool" where "f32_isnan x = (dec32 x = FNan)"
definition f32_isinf :: "f32 \<Rightarrow> bool" where "f32_isinf x = (\<exists>s\<in>{True, False}. dec32 x = FInf s)"

definition f64_add :: "f64 \<Rightarrow> f64 \<Rightarrow> f64" where
  "f64_add x y = word_of_nat (fp_add 11 52 (dec64 x) (dec64 y))"
definition f64_sub :: "f64 \<Rightarrow> f64 \<Rightarrow> f64" where
  "f64_sub x y = word_of_nat (fp_add 11 52 (dec64 x) (fp_neg (dec64 y)))"
definition f64_mul :: "f64 \<Rightarrow> f64 \<Rightarrow> f64" where
  "f64_mul x y = word_of_nat (fp_mul 11 52 (dec64 x) (dec64 y))"
definition f64_div :: "f64 \<Rightarrow> f64 \<Rightarrow> f64" where
  "f64_div x y = word_of_nat (fp_div 11 52 (dec64 x) (dec64 y))"
definition f64_sqrt :: "f64 \<Rightarrow> f64" where
  "f64_sqrt x = word_of_nat (fp_sqrt 11 52 (dec64 x))"
definition f64_less :: "f64 \<Rightarrow> f64 \<Rightarrow> bool" where
  "f64_less x y = fp_less (dec64 x) (dec64 y)"
definition f64_eq :: "f64 \<Rightarrow> f64 \<Rightarrow> bool" where
  "f64_eq x y = fp_eq (dec64 x) (dec64 y)"
definition f64_isnan :: "f64 \<Rightarrow> bool" where "f64_isnan x = (dec64 x = FNan)"
definition f64_isinf :: "f64 \<Rightarrow> bool" where "f64_isinf x = (\<exists>s\<in>{True, False}. dec64 x = FInf s)"

text \<open>Negation and absolute value change the sign bit only.\<close>

definition f32_neg :: "f32 \<Rightarrow> f32" where "f32_neg x = x + 0x80000000"
definition f64_neg :: "f64 \<Rightarrow> f64" where "f64_neg x = x + 0x8000000000000000"
definition f32_abs :: "f32 \<Rightarrow> f32" where "f32_abs x = word_of_nat (unat x mod 2 ^ 31)"
definition f64_abs :: "f64 \<Rightarrow> f64" where "f64_abs x = word_of_nat (unat x mod 2 ^ 63)"

section \<open>Conversions and literals\<close>

definition fp_convert :: "nat \<Rightarrow> nat \<Rightarrow> fpv \<Rightarrow> nat" where
  "fp_convert eb mb x =
     (case x of FNan \<Rightarrow> fp_nan eb mb
      | FInf s \<Rightarrow> fp_pack eb mb s (fp_infbits eb mb)
      | FFin s m e \<Rightarrow> fp_round eb mb s m e)"

definition f64_of_f32 :: "f32 \<Rightarrow> f64" where
  "f64_of_f32 x = word_of_nat (fp_convert 11 52 (dec32 x))"
definition f32_of_f64 :: "f64 \<Rightarrow> f32" where
  "f32_of_f64 x = word_of_nat (fp_convert 8 23 (dec64 x))"
definition f64_of_int :: "int \<Rightarrow> f64" where
  "f64_of_int n = word_of_nat (fp_round 11 52 (n < 0) (nat \<bar>n\<bar>) 0)"
definition f32_of_int :: "int \<Rightarrow> f32" where
  "f32_of_int n = word_of_nat (fp_round 8 23 (n < 0) (nat \<bar>n\<bar>) 0)"

text \<open>A literal \<open>num / den\<close> of type \<open>double\<close> and of type \<open>float\<close>.\<close>

definition f64_lit :: "nat \<Rightarrow> nat \<Rightarrow> f64" where
  "f64_lit num den = word_of_nat (fp_of_ratio 11 52 False num den 0)"
definition f32_lit :: "nat \<Rightarrow> nat \<Rightarrow> f32" where
  "f32_lit num den = word_of_nat (fp_of_ratio 8 23 False num den 0)"

lemmas fp_evals [eval_defs] =
  fp_emin_def fp_decode_def bitlen_numeral round_half_even_eval fp_pack_def fp_infbits_def fp_nan_def
  fp_round_def fp_of_ratio_def fp_signed_def fp_add_def fp_neg_def fp_mul_def fp_div_def isqrt_numeral
  fp_sqrt_def fp_less_def fp_eq_def dec32_def dec64_def f32_add_def f32_sub_def f32_mul_def f32_div_def
  f32_sqrt_def f32_less_def f32_eq_def f32_isnan_def f32_isinf_def f64_add_def f64_sub_def f64_mul_def
  f64_div_def f64_sqrt_def f64_less_def f64_eq_def f64_isnan_def f64_isinf_def f32_neg_def f64_neg_def
  f32_abs_def f64_abs_def fp_convert_def f64_of_f32_def f32_of_f64_def f64_of_int_def f32_of_int_def
  f64_lit_def f32_lit_def

section \<open>Exactness\<close>

lemma round_half_even_exact: "round_half_even (m * 2 ^ (k + i)) k = m * 2 ^ i"
  by (simp add: round_half_even_def power_add)

lemma round_half_even_scale: "round_half_even (m * 2 ^ j) (k + j) = round_half_even m k"
proof -
  have "m * 2 ^ j div 2 ^ (k + j) = m div 2 ^ k"
    by (simp add: power_add)
  moreover have "m * 2 ^ j mod 2 ^ (k + j) = (m mod 2 ^ k) * 2 ^ j"
    by (simp add: power_add mult_mod_left)
  ultimately show ?thesis
    by (simp add: round_half_even_def Let_def power_add mult.assoc[symmetric])
qed

lemma fp_round_scale:
  "fp_round eb mb s (m * 2 ^ j) (e - int j) = fp_round eb mb s m e"
proof (cases "m = 0")
  case False
  define t where "t = max (e + int (bitlen m) - int (mb + 1)) (fp_emin eb mb)"
  have t': "max (e - int j + int (bitlen (m * 2 ^ j)) - int (mb + 1)) (fp_emin eb mb) = t"
    using False by (simp add: bitlen_shift t_def)
  have "(if t \<le> e - int j then m * 2 ^ j * 2 ^ nat (e - int j - t)
            else round_half_even (m * 2 ^ j) (nat (t - (e - int j)))) =
        (if t \<le> e then m * 2 ^ nat (e - t) else round_half_even m (nat (t - e)))"
  proof -
    consider "t \<le> e - int j" | "e - int j < t" "t \<le> e" | "e < t" by linarith
    then show ?thesis
    proof cases
      case 1
      then have "nat (e - t) = j + nat (e - int j - t)" by linarith
      with 1 show ?thesis by (simp add: power_add)
    next
      case 2
      then have "j = nat (t - (e - int j)) + nat (e - t)" by linarith
      then have "round_half_even (m * 2 ^ j) (nat (t - (e - int j))) = m * 2 ^ nat (e - t)"
        using round_half_even_exact by metis
      with 2 show ?thesis by simp
    next
      case 3
      then have "nat (t - (e - int j)) = nat (t - e) + j" by linarith
      with 3 show ?thesis by (simp add: round_half_even_scale)
    qed
  qed
  then show ?thesis using False
    unfolding fp_round_def Let_def t' t_def[symmetric] by simp
qed (simp add: fp_round_def)

lemma fp_pack_decode:
  assumes "mag < 2 ^ (mb + eb)"
  shows "fp_pack eb mb s mag mod 2 ^ mb = mag mod 2 ^ mb"
    "fp_pack eb mb s mag div 2 ^ mb mod 2 ^ eb = mag div 2 ^ mb"
    "odd (fp_pack eb mb s mag div 2 ^ (mb + eb)) = s"
proof -
  have "mag div 2 ^ mb < 2 ^ eb" using assms by (simp add: less_mult_imp_div_less power_add ac_simps)
  then show "fp_pack eb mb s mag div 2 ^ mb mod 2 ^ eb = mag div 2 ^ mb"
    by (simp add: fp_pack_def power_add)
  show "fp_pack eb mb s mag mod 2 ^ mb = mag mod 2 ^ mb"
    by (simp add: fp_pack_def power_add)
  show "odd (fp_pack eb mb s mag div 2 ^ (mb + eb)) = s"
    using assms by (simp add: fp_pack_def div_add1_eq[of "2 ^ (mb + eb)" mag])
qed

lemma fp_pack_split:
  assumes "n < 2 ^ (mb + eb + 1)"
  shows "fp_pack eb mb (odd (n div 2 ^ (mb + eb)))
           (n div 2 ^ mb mod 2 ^ eb * 2 ^ mb + n mod 2 ^ mb) = n"
proof -
  have a: "n mod 2 ^ (mb + eb) = n div 2 ^ mb mod 2 ^ eb * 2 ^ mb + n mod 2 ^ mb"
    by (simp add: power_add mod_mult2_eq)
  have "n div 2 ^ (mb + eb) < 2" using assms by (simp add: less_mult_imp_div_less)
  then have "n div 2 ^ (mb + eb) * 2 ^ (mb + eb) = (if odd (n div 2 ^ (mb + eb)) then 2 ^ (mb + eb) else 0)"
    by (auto dest: less_2_cases)
  then show ?thesis
    using div_mult_mod_eq[of n "2 ^ (mb + eb)"] unfolding a[symmetric] fp_pack_def by argo
qed

text \<open>Rounding a number of the format gives that number.\<close>

lemma fp_round_decode:
  assumes "fp_decode eb mb n = FFin s m e" and n: "n < 2 ^ (mb + eb + 1)" and "0 < eb"
  shows "fp_round eb mb s m e = n"
proof -
  define f x where "f = n mod 2 ^ mb" and "x = n div 2 ^ mb mod 2 ^ eb"
  have f: "f < 2 ^ mb" and "x < 2 ^ eb" by (simp_all add: f_def x_def)
  have d: "x \<noteq> 2 ^ eb - 1" "s = odd (n div 2 ^ (mb + eb))"
    "m = (if x = 0 then f else 2 ^ mb + f)"
    "e = (if x = 0 then fp_emin eb mb else fp_emin eb mb + int x - 1)"
    using assms(1) by (auto simp: fp_decode_def Let_def f_def x_def split: if_splits)
  have p: "fp_pack eb mb s (x * 2 ^ mb + f) = n"
    using fp_pack_split[OF n] by (simp add: d(2) f_def x_def)
  have "x + 1 \<le> 2 ^ eb - 1" using d(1) \<open>x < 2 ^ eb\<close> by linarith
  then have "(x + 1) * 2 ^ mb \<le> fp_infbits eb mb" unfolding fp_infbits_def by (rule mult_le_mono1)
  then have inf: "x * 2 ^ mb + f \<le> fp_infbits eb mb" using f by simp
  show ?thesis
  proof (cases "x = 0")
    case True
    have "bitlen f \<le> mb" using f by (simp add: bitlen_le_iff)
    with True d p inf show ?thesis by (cases "f = 0") (simp_all add: fp_round_def Let_def)
  next
    case False
    then obtain y where y: "x = Suc y" by (cases x) auto
    have "bitlen (2 ^ mb + f) = Suc mb" using f by (intro bitlen_eqI) auto
    then show ?thesis using y d p inf by (simp add: fp_round_def Let_def ac_simps)
  qed
qed

text \<open>A significand that fits is not rounded.\<close>

lemma fp_decode_round:
  assumes m: "0 < m" "bitlen m \<le> mb + 1"
    and t: "fp_emin eb mb \<le> e + int (bitlen m) - int (mb + 1)"
    and hi: "e + int (bitlen m) - int (mb + 1) - fp_emin eb mb + 2 < 2 ^ eb"
  defines "j \<equiv> mb + 1 - bitlen m"
  shows "fp_decode eb mb (fp_round eb mb s m e) = FFin s (m * 2 ^ j) (e - int j)"
proof -
  define x where "x = nat (e - int j - fp_emin eb mb)"
  have t2: "max (e + int (bitlen m) - int (mb + 1)) (fp_emin eb mb) = e - int j"
    using m t by (simp add: j_def)
  define q where "q = m * 2 ^ j"
  have bl: "bitlen q = mb + 1" using m by (simp add: q_def bitlen_shift j_def)
  have q: "2 ^ mb \<le> q" "q < 2 ^ (mb + 1)"
    using bitlen_bounds[of q] bl m by (auto simp: q_def)
  have x: "x + 2 < 2 ^ eb"
  proof -
    have "int (x + 2) < 2 ^ eb" using hi t m by (simp add: x_def j_def)
    then show ?thesis by (metis of_nat_less_iff of_nat_numeral of_nat_power)
  qed
  have le: "x * 2 ^ mb + q < (x + 2) * 2 ^ mb" using q by simp
  have "(x + 2) * 2 ^ mb \<le> fp_infbits eb mb"
    unfolding fp_infbits_def using x by (intro mult_le_mono1) linarith
  with le have r: "fp_round eb mb s m e = fp_pack eb mb s (x * 2 ^ mb + q)"
    using m(1) unfolding fp_round_def Let_def t2 by (simp add: x_def q_def)
  have "(x + 2) * 2 ^ mb < 2 ^ eb * 2 ^ mb" using x by (intro mult_less_mono1) auto
  with le have mag: "x * 2 ^ mb + q < 2 ^ (mb + eb)" by (simp add: power_add ac_simps)
  have dv: "(x * 2 ^ mb + q) div 2 ^ mb = x + 1"
    using q by (simp add: div_add1_eq[of "x * 2 ^ mb" q] div_nat_eqI)
  have md: "(x * 2 ^ mb + q) mod 2 ^ mb + 2 ^ mb = q"
    using q le_mod_geq[of "2 ^ mb" q] by simp
  have "int x = e - int j - fp_emin eb mb" using t m by (simp add: x_def j_def)
  with x md show ?thesis
    unfolding r fp_decode_def fp_pack_decode[OF mag] Let_def dv by (auto simp: q_def)
qed

lemma dec32_cases:
  assumes "\<not> f32_isnan x"
  shows "fp_convert 8 23 (dec32 x) = unat x"
proof (cases "dec32 x")
  case (FFin s m e)
  have "unat x < 2 ^ 32" using unsigned_less[of x] by simp
  then show ?thesis using FFin fp_round_decode[of 8 23 "unat x" s m e]
    by (simp add: fp_convert_def dec32_def)
next
  case (FInf s)
  have "unat x < 2 ^ 32" using unsigned_less[of x] by simp
  with FInf show ?thesis using fp_pack_split[of "unat x" 23 8]
    by (auto simp: fp_convert_def dec32_def fp_decode_def Let_def fp_infbits_def split: if_splits)
qed (use assms in \<open>simp add: f32_isnan_def\<close>)

lemma dec32_fin_bounds:
  assumes "dec32 x = FFin s m e"
  shows "bitlen m \<le> 24" "-149 \<le> e" "e \<le> 104"
proof -
  have "unat x mod 2 ^ 23 < 2 ^ 23" by simp
  moreover have "unat x div 2 ^ 23 mod 2 ^ 8 < 2 ^ 8" by simp
  ultimately show "bitlen m \<le> 24" "-149 \<le> e" "e \<le> 104" using assms
    by (auto simp: dec32_def fp_decode_def Let_def bitlen_le_iff fp_emin_def simp del: mod_less_divisor split: if_splits)
qed

lemma fp_round_less:
  "0 < eb \<Longrightarrow> fp_round eb mb s m e < 2 ^ (mb + eb + 1)"
proof -
  have "min (fp_infbits eb mb) k < 2 ^ (mb + eb)" for k
    by (rule min.strict_coboundedI1) (simp add: fp_infbits_def power_add algebra_simps)
  then have "\<And>k. fp_pack eb mb s (min (fp_infbits eb mb) k) < 2 ^ (mb + eb + 1)"
  proof -
    fix k show "fp_pack eb mb s (min (fp_infbits eb mb) k) < 2 ^ (mb + eb + 1)"
      using \<open>\<And>k. min (fp_infbits eb mb) k < 2 ^ (mb + eb)\<close>[of k]
      unfolding fp_pack_def power_add[of 2 "mb + eb" 1] power_one_right by (simp only: split: if_split) linarith
  qed
  moreover have "fp_pack eb mb s 0 < 2 ^ (mb + eb + 1)" by (simp add: fp_pack_def)
  ultimately show ?thesis by (simp add: fp_round_def Let_def)
qed

text \<open>Widening a \<open>float\<close> to \<open>double\<close> is exact: narrowing it again gives it back.\<close>

lemma f32_f64_f32:
  assumes "\<not> f32_isnan x"
  shows "f32_of_f64 (f64_of_f32 x) = x"
proof (cases "dec32 x")
  case (FFin s m e)
  have u: "unat (f64_of_f32 x) = fp_round 11 52 s m e"
    using fp_round_less[of 11 52 s m e] FFin
    by (simp add: f64_of_f32_def fp_convert_def unat_of_nat take_bit_nat_eq_self)
  have c: "fp_convert 8 23 (dec64 (f64_of_f32 x)) = fp_round 8 23 s m e"
  proof (cases "m = 0")
    case True
    then show ?thesis unfolding dec64_def u
      by (auto simp: fp_round_def fp_convert_def fp_decode_def fp_pack_def)
  next
    case False
    then have "fp_decode 11 52 (fp_round 11 52 s m e) = FFin s (m * 2 ^ (53 - bitlen m)) (e - int (53 - bitlen m))"
      using dec32_fin_bounds[OF FFin] fp_decode_round[of m 52 11 e s] by (simp add: fp_emin_def)
    then show ?thesis unfolding dec64_def u by (simp add: fp_convert_def fp_round_scale)
  qed
  have "fp_round 8 23 s m e = unat x"
    using dec32_cases[OF assms] FFin by (simp add: fp_convert_def)
  then show ?thesis by (simp add: f32_of_f64_def c)
next
  case (FInf s)
  then have "fp_pack 8 23 s (fp_infbits 8 23) = unat x"
    using dec32_cases[OF assms] by (simp add: fp_convert_def)
  moreover have "dec64 (f64_of_f32 x) = FInf s" using FInf
    by (simp add: f64_of_f32_def dec64_def fp_convert_def fp_pack_def fp_infbits_def fp_decode_def)
  ultimately show ?thesis by (simp add: f32_of_f64_def fp_convert_def)
qed (use assms in \<open>simp add: f32_isnan_def\<close>)

text \<open>Adding zero to a non-zero number changes nothing.\<close>

lemma fp_add_zero:
  assumes "0 < m"
  shows "fp_add eb mb (FFin s m e) (FFin t 0 f) = fp_round eb mb s m e"
    "fp_add eb mb (FFin t 0 f) (FFin s m e) = fp_round eb mb s m e"
proof -
  define j where "j = nat (e - min e f)"
  have j: "min e f = e - int j" "min f e = e - int j" "nat (e - min f e) = j" by (auto simp: j_def)
  have "fp_round eb mb s (m * 2 ^ j) (e - int j) = fp_round eb mb s m e" by (rule fp_round_scale)
  moreover have "\<not> int m * 2 ^ j < 0" by (simp add: not_less)
  ultimately show "fp_add eb mb (FFin s m e) (FFin t 0 f) = fp_round eb mb s m e"
    "fp_add eb mb (FFin t 0 f) (FFin s m e) = fp_round eb mb s m e"
    using assms j by (auto simp: fp_add_def Let_def j_def[symmetric] fp_signed_def nat_mult_distrib nat_power_eq)
qed

lemma dec_zero: "dec64 0 = FFin False 0 (- 1074)" "dec32 0 = FFin False 0 (- 149)"
  by (simp_all add: dec64_def dec32_def fp_decode_def fp_emin_def)

lemma f64_add_zero:
  assumes "dec64 x = FFin s m e" "0 < m"
  shows "f64_add x 0 = x" "f64_add 0 x = x"
proof -
  have "unat x < 2 ^ 64" by (rule unat_u64)
  then have "fp_round 11 52 s m e = unat x"
    using assms(1) fp_round_decode[of 11 52 "unat x" s m e] by (simp add: dec64_def)
  then show "f64_add x 0 = x" "f64_add 0 x = x"
    by (simp_all add: f64_add_def assms dec_zero fp_add_zero)
qed

lemma f32_add_zero:
  assumes "dec32 x = FFin s m e" "0 < m"
  shows "f32_add x 0 = x" "f32_add 0 x = x"
proof -
  have "unat x < 2 ^ 32" by (rule unat_u32)
  then have "fp_round 8 23 s m e = unat x"
    using assms(1) fp_round_decode[of 8 23 "unat x" s m e] by (simp add: dec32_def)
  then show "f32_add x 0 = x" "f32_add 0 x = x"
    by (simp_all add: f32_add_def assms dec_zero fp_add_zero)
qed

section \<open>Reference results\<close>

lemma float_examples:
  "f32_add 0x3F800000 0x40000000 = 0x40400000"
  "f64_mul 0x3FF8000000000000 0x4004000000000000 = 0x400E000000000000"
  "f64_lit 1 10 = 0x3FB999999999999A"
  "f32_of_f64 0x3FB999999999999A = 0x3DCCCCCD"
  "f32_div 0x3F800000 0x40400000 = 0x3EAAAAAB"
  "f32_sqrt 0x40000000 = 0x3FB504F3"
  "f32_mul 0x7F7FFFFF 0x40000000 = 0x7F800000"
  by (simp_all add: fp_evals)

end
