(* ===== verification/SparseData.thy ===== *)
theory SparseData
  imports Bytes CFloat
begin

text \<open>
  \<open>SparseDataset.h\<close> and \<open>SparseDataset.cpp\<close>: samples as lists of (feature index, value)
  pairs with optional labels, the objects in which a range of samples is put into S3, and the
  two constructors that read them back. Random draws are an argument. \<open>reserve\<close> and the
  exhaustion of memory have no effect in the model; \<open>split\<close> is declared and never defined.
\<close>

type_synonym sample = "(i32 \<times> f32) list"

record sparse_dataset =
  sd_data :: "sample list"
  sd_labels :: "f32 list"
  sd_size_bytes :: u64

definition sd_empty :: sparse_dataset where
  "sd_empty = \<lparr>sd_data = [], sd_labels = [], sd_size_bytes = 0\<rparr>"

definition sd_of_samples :: "sample list \<Rightarrow> sparse_dataset" where
  "sd_of_samples samples = \<lparr>sd_data = samples, sd_labels = [], sd_size_bytes = 0\<rparr>"

definition sd_make :: "sample list \<Rightarrow> f32 list \<Rightarrow> sparse_dataset" where
  "sd_make samples labels = \<lparr>sd_data = samples, sd_labels = labels, sd_size_bytes = 0\<rparr>"

section \<open>Constructors from serialised data\<close>

text \<open>\<open>FLOAT_EQ(A, B)\<close> with a \<open>float\<close> and a \<open>double\<close>, and the two literals it is used with.\<close>

definition FLOAT_EPS :: f64 where "FLOAT_EPS = f64_lit 1 10000000"

definition FLOAT_EQ :: "f64 \<Rightarrow> f64 \<Rightarrow> bool" where
  "FLOAT_EQ a b = f64_less (f64_abs (f64_sub a b)) FLOAT_EPS"

definition f64_one :: f64 where "f64_one = 0x3FF0000000000000"

text \<open>The label of a sample, when the format has one.\<close>

definition sd_load_label :: "bool \<Rightarrow> byte list \<Rightarrow> (f32 list \<times> byte list) res" where
  "sd_load_label has_labels data =
     (if has_labels then load_then load_float data (\<lambda>label data. Inr ([label], data)) else Inr ([], data))"

definition sd_body_n :: "bool \<Rightarrow> nat \<Rightarrow> sample list \<times> f32 list \<times> byte list \<Rightarrow>
    (sample list \<times> f32 list \<times> byte list) res" where
  "sd_body_n has_labels i = (\<lambda>(samples, labels, data).
     rbind (sd_load_label has_labels data) (\<lambda>(label, data).
     load_then load_int data (\<lambda>num_sample_values data.
     rbind (rcheck (\<lambda>l. cassert (FLOAT_EQ (f64_of_f32 l) 0 \<or> FLOAT_EQ (f64_of_f32 l) f64_one)) label) (\<lambda>_.
     rbind (cassert (0 \<le> sint num_sample_values \<and> sint num_sample_values < 1000000)) (\<lambda>_.
     load_then (load_many load_entry (nat (sint num_sample_values))) data (\<lambda>sample data.
     Inr (samples @ [sample], labels @ label, data)))))))"

text \<open>\<open>SparseDataset(data, n_samples, has_labels)\<close>: the minibatches a worker is handed.\<close>

definition sd_load_n :: "byte list \<Rightarrow> u64 \<Rightarrow> bool \<Rightarrow> sparse_dataset res" where
  "sd_load_n data n_samples has_labels =
     rbind (rfold (sd_body_n has_labels) [0..<unat n_samples] ([], [], data)) (\<lambda>(samples, labels, rest).
     Inr \<lparr>sd_data = samples, sd_labels = labels,
          sd_size_bytes = word_of_nat (length data - length rest)\<rparr>)"

definition sd_body_s3 :: "bool \<Rightarrow> nat \<Rightarrow> sample list \<times> f32 list \<times> byte list \<Rightarrow>
    (sample list \<times> f32 list \<times> byte list) res" where
  "sd_body_s3 has_labels i = (\<lambda>(samples, labels, data).
     rbind (sd_load_label has_labels data) (\<lambda>(label, data).
     rbind (rcheck (\<lambda>l. cassert (f64_eq (f64_of_f32 l) 0 \<or> f64_eq (f64_of_f32 l) f64_one)) label) (\<lambda>_.
     load_then load_int data (\<lambda>num_sample_values data.
     rbind (guard_rt (\<not> (sint num_sample_values < 0 \<or> sint num_sample_values > 1000000))
              ''num_sample_values not ok'') (\<lambda>_.
     load_then (load_many load_entry (nat (sint num_sample_values))) data (\<lambda>sample data.
     Inr (samples @ [sample], labels @ label, data)))))))"

text \<open>\<open>SparseDataset(data, from_s3, has_labels)\<close>: a whole S3 object.\<close>

definition sd_load_s3 :: "byte list \<Rightarrow> bool \<Rightarrow> bool \<Rightarrow> sparse_dataset res" where
  "sd_load_s3 data from_s3 has_labels =
     (if from_s3
      then load_then load_int data (\<lambda>obj_size data.
           load_then load_int data (\<lambda>n_samples data.
           rbind (cassert (0 < sint n_samples \<and> sint n_samples < 1000000)) (\<lambda>_.
           rbind (rfold (sd_body_s3 has_labels) [0..<nat (sint n_samples)] ([], [], data))
             (\<lambda>(samples, labels, _).
           Inr \<lparr>sd_data = samples, sd_labels = labels, sd_size_bytes = 0\<rparr>))))
      else Inl (Runtime_error ''not supported''))"

section \<open>Serialisation\<close>

text \<open>\<open>build_serialized_s3_obj(l, r, &obj_size, store_labels)\<close> returns the object and its size.\<close>

definition sd_store_sample :: "sparse_dataset \<Rightarrow> bool \<Rightarrow> nat \<Rightarrow> byte list \<Rightarrow> byte list res" where
  "sd_store_sample d store_labels i obj =
     rbind (if store_labels then rbind (vec_get (sd_labels d) i) (\<lambda>l. Inr (store_float l)) else Inr []) (\<lambda>label.
     rbind (vec_get (sd_data d) i) (\<lambda>row.
     Inr (obj @ label @ store_int (word_of_nat (length row)) @ store_many store_entry row)))"

definition sd_build_s3_obj :: "sparse_dataset \<Rightarrow> u64 \<Rightarrow> u64 \<Rightarrow> bool \<Rightarrow> (byte list \<times> u64) res" where
  "sd_build_s3_obj d l r store_labels =
     rbind (cassert (l < r)) (\<lambda>_.
     rbind (rfold (\<lambda>i count. rbind (vec_get (sd_data d) i) (\<lambda>row. Inr (count + word_of_nat (length row))))
              [unat l..<unat r] 0) (\<lambda>number_entries_obj.
       let n_samples = r - l;
           obj_size = number_entries_obj * (4 + 4) + n_samples * ((if store_labels then 4 else 0) + 4) + 4 * 2
       in rbind (rfold (sd_store_sample d store_labels) [unat l..<unat r]
                  (store_int (ucast obj_size) @ store_int (ucast n_samples))) (\<lambda>obj.
          Inr (obj, obj_size))))"

section \<open>Queries and checks\<close>

definition sd_num_samples :: "sparse_dataset \<Rightarrow> u64" where
  "sd_num_samples d = word_of_nat (length (sd_data d))"

definition sd_num_features :: "sparse_dataset \<Rightarrow> u64" where
  "sd_num_features d = fold (\<lambda>w count. fold (\<lambda>v count. count + 1) w count) (sd_data d) 0"

definition sd_get_row :: "sparse_dataset \<Rightarrow> u64 \<Rightarrow> sample res" where
  "sd_get_row d n = (if unat n \<ge> length (sd_data d) then Inl (Runtime_error ''Wrong index'')
                     else Inr (sd_data d ! unat n))"

definition f32_badv :: "f32 \<Rightarrow> bool" where
  "f32_badv x \<longleftrightarrow> f32_isnan x \<or> f32_isinf x"

definition sd_check :: "sparse_dataset \<Rightarrow> unit res" where
  "sd_check d = rcheck (rcheck (\<lambda>v.
     rbind (guard_rt (\<not> sint (fst v) < 0) ''Input error'') (\<lambda>_.
     guard_rt (\<not> f32_badv (snd v)) ''SparseDataset::check_values nan/inf rating''))) (sd_data d)"

definition sd_check_ratings :: "sparse_dataset \<Rightarrow> unit res" where
  "sd_check_ratings d = rcheck (rcheck (\<lambda>v.
     rbind (guard_rt (\<not> sint (fst v) < 0) ''Input error'') (\<lambda>_.
     rbind (guard_rt (\<not> (f32_less (snd v) (f32_of_int (- 100)) \<or> f32_less (f32_of_int 100) (snd v)))
              ''SparseDataset::check_values wrong rating value: '') (\<lambda>_.
     guard_rt (\<not> f32_badv (snd v)) ''SparseDataset::check_values nan/inf rating'')))) (sd_data d)"

definition sd_check_labels :: "sparse_dataset \<Rightarrow> unit res" where
  "sd_check_labels d = rcheck (\<lambda>l.
     rbind (guard_rt (\<not> f32_badv l) ''SparseDataset::check_labels nan/inf rating'') (\<lambda>_.
     guard_rt (\<not> (\<not> f64_eq (f64_of_f32 l) 0 \<and> \<not> f64_eq (f64_of_f32 l) f64_one)) ''Label is not 1.0 nor 0.0''))
     (sd_labels d)"

section \<open>Sampling\<close>

text \<open>\<open>draws\<close> are the indices \<open>sampler(re)\<close> returns, one for every sample asked for.\<close>

definition sd_random_sample :: "i32 list \<Rightarrow> sparse_dataset \<Rightarrow> sparse_dataset res" where
  "sd_random_sample draws d =
     rbind (rfold (\<lambda>index (samples, labels).
         rbind (vec_get (sd_data d) (idx index)) (\<lambda>s.
         rbind (vec_get (sd_labels d) (idx index)) (\<lambda>l.
         Inr (samples @ [s], labels @ [l])))) draws ([], [])) (\<lambda>(samples, labels).
     Inr (sd_make samples labels))"

definition sd_sample_from :: "u64 \<Rightarrow> u64 \<Rightarrow> sparse_dataset \<Rightarrow> sparse_dataset res" where
  "sd_sample_from start n_samples d =
     (if word_of_nat (length (sd_data d)) < start + n_samples
      then Inl (Runtime_error ''Start goes over size of dataset'')
      else rbind (rfold (\<lambda>i samples. rbind (vec_get (sd_data d) i) (\<lambda>s. Inr (samples @ [s])))
                    [unat start..<unat (start + n_samples)] []) (\<lambda>samples.
           Inr (sd_of_samples samples)))"

section \<open>Normalisation\<close>

definition FLT_MAX :: f32 where "FLT_MAX = 0x7F7FFFFF"

text \<open>\<open>std::max(a, b)\<close> and \<open>std::min(a, b)\<close>.\<close>

definition f32_max :: "f32 \<Rightarrow> f32 \<Rightarrow> f32" where "f32_max a b = (if f32_less a b then b else a)"
definition f32_min :: "f32 \<Rightarrow> f32 \<Rightarrow> f32" where "f32_min a b = (if f32_less b a then b else a)"

text \<open>The minimum and maximum of every feature; an index is widened to 64 bits with its sign.\<close>

definition sd_norm_step :: "u64 \<Rightarrow> i32 \<times> f32 \<Rightarrow> f32 list \<times> f32 list \<Rightarrow> (f32 list \<times> f32 list) res" where
  "sd_norm_step hash_size = (\<lambda>(first, val) (maxv, minv).
     let index = (scast first :: u64)
     in rbind (guard_rt (\<not> index \<ge> hash_size) ''Index bigger than capacity'') (\<lambda>_.
        rbind (vec_get maxv (unat index)) (\<lambda>mx.
        rbind (vec_get minv (unat index)) (\<lambda>mn.
        Inr (maxv[unat index := f32_max val mx], minv[unat index := f32_min val mn])))))"

definition sd_norm_value :: "f32 list \<Rightarrow> f32 list \<Rightarrow> i32 \<times> f32 \<Rightarrow> (i32 \<times> f32) res" where
  "sd_norm_value maxv minv = (\<lambda>(first, val).
     rbind (vec_get maxv (idx first)) (\<lambda>mx.
     rbind (vec_get minv (idx first)) (\<lambda>mn.
     Inr (if \<not> f32_eq mx mn then (first, f32_div (f32_sub val mn) (f32_sub mx mn)) else (first, val)))))"

fun rmap :: "('a \<Rightarrow> 'b res) \<Rightarrow> 'a list \<Rightarrow> 'b list res" where
  "rmap f [] = Inr []"
| "rmap f (x # xs) = rbind (f x) (\<lambda>y. rbind (rmap f xs) (\<lambda>ys. Inr (y # ys)))"

definition sd_normalize :: "u64 \<Rightarrow> sparse_dataset \<Rightarrow> sparse_dataset res" where
  "sd_normalize hash_size d =
     rbind (rfold (rfold (sd_norm_step hash_size)) (sd_data d)
              (replicate (unat hash_size) 0, replicate (unat hash_size) FLT_MAX)) (\<lambda>(maxv, minv).
     rbind (rmap (rmap (sd_norm_value maxv minv)) (sd_data d)) (\<lambda>data.
     Inr (d\<lparr>sd_data := data\<rparr>)))"

lemmas sparse_data_evals [eval_defs] =
  sd_empty_def sd_of_samples_def sd_make_def FLOAT_EPS_def FLOAT_EQ_def f64_one_def sd_load_label_def sd_body_n_def
  sd_load_n_def sd_body_s3_def sd_load_s3_def sd_store_sample_def sd_build_s3_obj_def sd_num_samples_def
  sd_num_features_def sd_get_row_def f32_badv_def sd_check_def sd_check_ratings_def sd_check_labels_def
  sd_random_sample_def sd_sample_from_def FLT_MAX_def f32_max_def f32_min_def sd_norm_step_def
  sd_norm_value_def rmap.simps sd_normalize_def

section \<open>The S3 object is read back\<close>

definition label_bit :: "f32 \<Rightarrow> bool" where
  "label_bit l \<longleftrightarrow> l = 0 \<or> l = 0x3F800000"

lemma label_values: "f64_of_f32 0 = 0" "f64_of_f32 0x3F800000 = f64_one"
  by (simp_all add: fp_evals f64_one_def)

lemma f64_eq_labels: "f64_eq 0 0" "f64_eq f64_one f64_one"
  by (simp_all add: fp_evals f64_one_def)

lemma f64_eps: "FLOAT_EPS = 0x3E7AD7F29ABCAF48"
  by (simp add: FLOAT_EPS_def fp_evals)

lemma f64_sub_labels: "f64_abs (f64_sub 0 0) = 0" "f64_abs (f64_sub f64_one f64_one) = 0"
  by (simp_all add: fp_evals f64_one_def)

lemma eps_pos: "f64_less 0 0x3E7AD7F29ABCAF48"
  by (simp add: fp_evals)

lemma label_bit_eq: "label_bit l \<Longrightarrow> f64_eq (f64_of_f32 l) 0 \<or> f64_eq (f64_of_f32 l) f64_one"
  by (auto simp: label_bit_def label_values f64_eq_labels)

lemma label_bit_near: "label_bit l \<Longrightarrow> FLOAT_EQ (f64_of_f32 l) 0 \<or> FLOAT_EQ (f64_of_f32 l) f64_one"
  by (auto simp: label_bit_def label_values FLOAT_EQ_def f64_sub_labels f64_eps eps_pos)

text \<open>The bytes of one sample, and of a list of labelled samples.\<close>

definition sample_bytes :: "bool \<Rightarrow> sample \<times> f32 \<Rightarrow> byte list" where
  "sample_bytes store_labels = (\<lambda>(row, label). (if store_labels then store_float label else []) @
     store_int (word_of_nat (length row)) @ store_many store_entry row)"

lemma sd_store_loop:
  assumes "r \<le> length (sd_data d)" "store_labels \<longrightarrow> r \<le> length (sd_labels d)" "l \<le> r"
    and lab: "labels = (if store_labels then sd_labels d else replicate (length (sd_data d)) 0)"
  shows "rfold (sd_store_sample d store_labels) [l..<r] acc =
    Inr (acc @ store_many (sample_bytes store_labels) (zip (drop l (take r (sd_data d))) (drop l (take r labels))))"
  using assms(3,1,2)
proof (induction r rule: dec_induct)
  case (step r)
  note 2 = step
  have r: "r < length (sd_data d)" "r < length labels" using 2 lab by (auto split: if_splits)
  have "zip (drop l (take (Suc r) (sd_data d))) (drop l (take (Suc r) labels))
      = zip (drop l (take r (sd_data d))) (drop l (take r labels)) @ [(sd_data d ! r, labels ! r)]"
    using r 2 by (simp add: take_Suc_conv_app_nth)
  moreover have "sd_store_sample d store_labels r bs = Inr (bs @ sample_bytes store_labels (sd_data d ! r, labels ! r))" for bs
    using r lab by (auto simp: sd_store_sample_def sample_bytes_def vec_get_def)
  moreover have "rfold (sd_store_sample d store_labels) [l..<r] acc =
      Inr (acc @ store_many (sample_bytes store_labels) (zip (drop l (take r (sd_data d))) (drop l (take r labels))))"
    by (rule step.IH) (use step.prems in auto)
  ultimately show ?case using step.hyps by (simp add: rfold_append)
qed simp

lemma sd_count_loop:
  assumes "r \<le> length (sd_data d)" "l \<le> r"
  shows "rfold (\<lambda>i count. rbind (vec_get (sd_data d) i) (\<lambda>row. Inr (count + word_of_nat (length row)))) [l..<r] (acc :: u64)
    = Inr (acc + word_of_nat (sum_list (map length (drop l (take r (sd_data d))))))"
  using assms(2,1)
proof (induction r rule: dec_induct)
  case (step r)
  note 2 = step
  then have "drop l (take (Suc r) (sd_data d)) = drop l (take r (sd_data d)) @ [sd_data d ! r]"
    by (simp add: take_Suc_conv_app_nth)
  with 2 show ?case by (simp add: rfold_append vec_get_def)
qed simp

lemma sd_read_loop_s3:
  assumes "\<forall>p\<in>set ps. length (fst p) \<le> 1000000 \<and> (b \<longrightarrow> label_bit (snd p))" "length xs = length ps"
  shows "rfold (sd_body_s3 b) xs (da, la, store_many (sample_bytes b) ps @ rest) =
    Inr (da @ map fst ps, la @ (if b then map snd ps else []), rest)"
  using assms
proof (induction ps arbitrary: xs da la)
  case (Cons p ps)
  obtain row lab where p: "p = (row, lab)" by fastforce
  obtain x xs' where xs: "xs = x # xs'" "length xs' = length ps" using Cons.prems(2) by (cases xs) auto
  have "length row < 2 ^ 31" using Cons.prems(1) p by auto
  then have s: "sint (word_of_nat (length row) :: i32) = int (length row)"
    by (simp add: signed_of_nat signed_take_bit_int_eq_self)
  have "sd_body_s3 b x (da, la, store_many (sample_bytes b) (p # ps) @ rest) =
      Inr (da @ [row], la @ (if b then [lab] else []), store_many (sample_bytes b) ps @ rest)"
    using Cons.prems(1) p s label_bit_eq[of lab]
    by (auto simp: sd_body_s3_def sd_load_label_def sample_bytes_def load_then_def)
  with Cons xs p show ?case by auto
qed simp

lemma sd_read_loop_n:
  assumes "\<forall>p\<in>set ps. length (fst p) < 1000000 \<and> (b \<longrightarrow> label_bit (snd p))" "length xs = length ps"
  shows "rfold (sd_body_n b) xs (da, la, store_many (sample_bytes b) ps @ rest) =
    Inr (da @ map fst ps, la @ (if b then map snd ps else []), rest)"
  using assms
proof (induction ps arbitrary: xs da la)
  case (Cons p ps)
  obtain row lab where p: "p = (row, lab)" by fastforce
  obtain x xs' where xs: "xs = x # xs'" "length xs' = length ps" using Cons.prems(2) by (cases xs) auto
  have "length row < 2 ^ 31" using Cons.prems(1) p by auto
  then have s: "sint (word_of_nat (length row) :: i32) = int (length row)"
    by (simp add: signed_of_nat signed_take_bit_int_eq_self)
  have "sd_body_n b x (da, la, store_many (sample_bytes b) (p # ps) @ rest) =
      Inr (da @ [row], la @ (if b then [lab] else []), store_many (sample_bytes b) ps @ rest)"
    using Cons.prems(1) p s label_bit_near[of lab]
    by (auto simp: sd_body_n_def sd_load_label_def sample_bytes_def load_then_def)
  with Cons xs p show ?case by auto
qed simp

text \<open>What the object of a range must satisfy to be read back.\<close>

definition sd_range_ok :: "sparse_dataset \<Rightarrow> nat \<Rightarrow> nat \<Rightarrow> bool \<Rightarrow> bool" where
  "sd_range_ok d l r b \<longleftrightarrow> l < r \<and> r \<le> length (sd_data d) \<and> r - l < 1000000
     \<and> (\<forall>row\<in>set (drop l (take r (sd_data d))). length row < 1000000)
     \<and> (b \<longrightarrow> r \<le> length (sd_labels d) \<and> (\<forall>x\<in>set (drop l (take r (sd_labels d))). label_bit x))"

definition sd_range :: "sparse_dataset \<Rightarrow> nat \<Rightarrow> nat \<Rightarrow> bool \<Rightarrow> (sample \<times> f32) list" where
  "sd_range d l r b = zip (drop l (take r (sd_data d)))
     (drop l (take r (if b then sd_labels d else replicate (length (sd_data d)) 0)))"

lemma sd_range_props:
  assumes "sd_range_ok d l r b"
  shows "length (sd_range d l r b) = r - l" "map fst (sd_range d l r b) = drop l (take r (sd_data d))"
    "(if b then map snd (sd_range d l r b) else []) = (if b then drop l (take r (sd_labels d)) else [])"
    "\<forall>p\<in>set (sd_range d l r b). length (fst p) < 1000000 \<and> (b \<longrightarrow> label_bit (snd p))"
proof -
  show "length (sd_range d l r b) = r - l" "map fst (sd_range d l r b) = drop l (take r (sd_data d))"
    "(if b then map snd (sd_range d l r b) else []) = (if b then drop l (take r (sd_labels d)) else [])"
    using assms by (auto simp: sd_range_def sd_range_ok_def)
  show "\<forall>p\<in>set (sd_range d l r b). length (fst p) < 1000000 \<and> (b \<longrightarrow> label_bit (snd p))"
    using assms by (auto simp: sd_range_def sd_range_ok_def dest: set_zip_leftD set_zip_rightD split: if_splits)
qed

lemma length_sample_bytes:
  "length (sample_bytes b p) = (if b then 8 else 4) + 8 * length (fst p)"
  by (cases p) (simp add: sample_bytes_def)

lemma sd_build_ok:
  assumes ok: "sd_range_ok d (unat l) (unat r) b"
  shows "\<exists>v. sd_build_s3_obj d l r b =
      Inr (store_u32 v @ store_u32 (ucast (r - l)) @ store_many (sample_bytes b) (sd_range d (unat l) (unat r) b),
           word_of_nat (length (store_u32 v @ store_u32 (ucast (r - l)) @
             store_many (sample_bytes b) (sd_range d (unat l) (unat r) b))))"
proof -
  define ps n where "ps = sd_range d (unat l) (unat r) b" and "n = sum_list (map length (drop (unat l) (take (unat r) (sd_data d))))"
  have b: "unat l < unat r" "unat r \<le> length (sd_data d)" "b \<longrightarrow> unat r \<le> length (sd_labels d)"
    using ok by (auto simp: sd_range_ok_def)
  have lr: "l < r" using b(1) by (simp add: word_less_nat_alt)
  define sz :: u64 where "sz = word_of_nat n * 8 + (r - l) * ((if b then 4 else 0) + 4) + 8"
  define hd where "hd = store_u32 (ucast sz)"
  have build: "sd_build_s3_obj d l r b = Inr (hd @ store_u32 (ucast (r - l)) @ store_many (sample_bytes b) ps, sz)"
    using lr sd_count_loop[OF b(2), of "unat l" 0] sd_store_loop[OF b(2,3) _ refl, of "unat l"] b(1)
    by (simp add: sd_build_s3_obj_def Let_def sz_def hd_def ps_def n_def sd_range_def)
  have "sum_list (map (length \<circ> sample_bytes b) ps) = (\<Sum>p\<leftarrow>ps. (if b then 8 else 4) + 8 * length (fst p))"
    by (simp add: comp_def length_sample_bytes)
  also have "\<dots> = (if b then 8 else 4) * length ps + 8 * sum_list (map length (map fst ps))"
    by (induction ps) auto
  also have "\<dots> = (if b then 8 else 4) * (unat r - unat l) + 8 * n"
    using sd_range_props[OF ok] by (simp add: ps_def n_def)
  finally have len: "length (hd @ store_u32 (ucast (r - l)) @ store_many (sample_bytes b) ps)
      = 8 + ((if b then 8 else 4) * (unat r - unat l) + 8 * n)"
    by (simp add: store_many_def length_concat hd_def)
  have wn: "word_of_nat (unat r - unat l) = r - l"
    using lr unat_sub[of l r] by (simp add: order_less_imp_le flip: unat_sub)
  have "word_of_nat (length (hd @ store_u32 (ucast (r - l)) @ store_many (sample_bytes b) ps)) = sz"
    unfolding len of_nat_add of_nat_mult wn sz_def by (cases b) simp_all
  with build show ?thesis by (intro exI[of _ "ucast sz"]) (simp add: ps_def hd_def)
qed

lemma sd_s3_built:
  assumes ok: "sd_range_ok d (unat l) (unat r) b"
  shows "\<exists>obj. sd_build_s3_obj d l r b = Inr (obj, word_of_nat (length obj))
    \<and> sd_load_s3 (obj @ rest) True b = Inr \<lparr>sd_data = drop (unat l) (take (unat r) (sd_data d)),
         sd_labels = (if b then drop (unat l) (take (unat r) (sd_labels d)) else []), sd_size_bytes = 0\<rparr>
    \<and> sd_load_n (drop 8 obj @ rest) (r - l) b = Inr \<lparr>sd_data = drop (unat l) (take (unat r) (sd_data d)),
         sd_labels = (if b then drop (unat l) (take (unat r) (sd_labels d)) else []),
         sd_size_bytes = word_of_nat (length obj - 8)\<rparr>"
proof -
  define ps where "ps = sd_range d (unat l) (unat r) b"
  obtain v where v: "sd_build_s3_obj d l r b =
      Inr (store_u32 v @ store_u32 (ucast (r - l)) @ store_many (sample_bytes b) ps,
           word_of_nat (length (store_u32 v @ store_u32 (ucast (r - l)) @ store_many (sample_bytes b) ps)))"
    using sd_build_ok[OF ok] unfolding ps_def by blast
  define n where "n = unat r - unat l"
  have n: "0 < n" "n < 1000000" "unat (r - l) = n" "length ps = n"
    using ok sd_range_props(1)[OF ok] unat_sub[of l r]
    by (auto simp: sd_range_ok_def n_def ps_def word_le_nat_alt)
  have "(ucast (r - l) :: i32) = word_of_nat n" by (simp flip: n(3))
  moreover have "sint (word_of_nat n :: i32) = int n"
    using n(2) by (simp add: signed_of_nat signed_take_bit_int_eq_self)
  ultimately have s: "sint (ucast (r - l) :: i32) = int n" by simp
  note props = sd_range_props[OF ok, folded ps_def]
  have s3: "rfold (sd_body_s3 b) [0..<n] ([], [], store_many (sample_bytes b) ps @ rest) =
      Inr ([] @ map fst ps, [] @ (if b then map snd ps else []), rest)"
    using props(4) n(4) by (intro sd_read_loop_s3) auto
  have "rfold (sd_body_n b) [0..<n] ([], [], store_many (sample_bytes b) ps @ rest) =
      Inr ([] @ map fst ps, [] @ (if b then map snd ps else []), rest)"
    using props(4) n(4) by (intro sd_read_loop_n) auto
  with s3 show ?thesis unfolding v using n s
    by (intro exI[of _ "store_u32 v @ store_u32 (ucast (r - l)) @ store_many (sample_bytes b) ps"])
      (simp add: sd_load_s3_def sd_load_n_def props(2) props(3) split del: if_split)
qed

text \<open>
  C39: The S3 object of the samples \<open>[l, r)\<close> is \<open>obj_size\<close> bytes long, and both constructors
  read exactly those samples and labels from it: the first from the whole object, the second
  from what follows the 8-byte header, reporting that it consumed all of it.
\<close>

theorem sd_s3_roundtrip:
  assumes ok: "sd_range_ok d (unat l) (unat r) b"
  shows "\<exists>obj. sd_build_s3_obj d l r b = Inr (obj, word_of_nat (length obj))
    \<and> sd_load_s3 (obj @ rest) True b = Inr \<lparr>sd_data = drop (unat l) (take (unat r) (sd_data d)),
         sd_labels = (if b then drop (unat l) (take (unat r) (sd_labels d)) else []), sd_size_bytes = 0\<rparr>
    \<and> sd_load_n (drop 8 obj @ rest) (r - l) b = Inr \<lparr>sd_data = drop (unat l) (take (unat r) (sd_data d)),
         sd_labels = (if b then drop (unat l) (take (unat r) (sd_labels d)) else []),
         sd_size_bytes = word_of_nat (length obj - 8)\<rparr>"
  by (rule sd_s3_built[OF assms])

theorem sd_s3_roundtrip_witness:
  "let d = \<lparr>sd_data = [[(7, 0x3F800000)], [(1, 0x40000000), (2, 0x3F800000)], []],
            sd_labels = [0, 0x3F800000, 0], sd_size_bytes = 0\<rparr>
   in \<exists>obj. sd_build_s3_obj d 1 3 True = Inr (obj, word_of_nat (length obj))
    \<and> sd_load_s3 (obj @ [0]) True True = Inr \<lparr>sd_data = [[(1, 0x40000000), (2, 0x3F800000)], []],
         sd_labels = [0x3F800000, 0], sd_size_bytes = 0\<rparr>"
proof -
  define d where "d = \<lparr>sd_data = [[(7, 0x3F800000)], [(1, 0x40000000), (2, 0x3F800000)], []],
            sd_labels = [0, 0x3F800000, 0], sd_size_bytes = 0 :: u64\<rparr>"
  have ok: "sd_range_ok d (unat (1 :: u64)) (unat (3 :: u64)) True"
    by (auto simp: sd_range_ok_def d_def label_bit_def)
  show ?thesis using sd_s3_roundtrip[OF ok, of "[0]"] by (auto simp: d_def)
qed

section \<open>Ranges of samples\<close>

lemma sd_sample_loop:
  assumes "r \<le> length xs" "l \<le> r"
  shows "rfold (\<lambda>i acc. rbind (vec_get xs i) (\<lambda>s. Inr (acc @ [s]))) [l..<r] acc = Inr (acc @ drop l (take r xs))"
  using assms(2,1)
proof (induction r rule: dec_induct)
  case (step r)
  then have "drop l (take (Suc r) xs) = drop l (take r xs) @ [xs ! r]"
    by (simp add: take_Suc_conv_app_nth)
  with step show ?case by (simp add: rfold_append vec_get_def)
qed simp

text \<open>
  \<open>sample_from\<close> returns the samples of the range without their labels and fails on a range
  past the end of the dataset, as long as \<open>start + n_samples\<close> does not wrap around.
\<close>

lemma sd_sample_from_spec:
  assumes len: "length (sd_data d) < 2 ^ 64" and nowrap: "unat start + unat n < 2 ^ 64"
  shows "sd_sample_from start n d =
    (if unat start + unat n \<le> length (sd_data d)
     then Inr \<lparr>sd_data = take (unat n) (drop (unat start) (sd_data d)), sd_labels = [], sd_size_bytes = 0\<rparr>
     else Inl (Runtime_error ''Start goes over size of dataset''))"
proof -
  have u: "unat (start + n) = unat start + unat n"
    using nowrap by (simp add: unat_add_lem[THEN iffD1])
  have "word_of_nat (length (sd_data d)) < start + n \<longleftrightarrow> length (sd_data d) < unat start + unat n"
    using len u by (simp add: word_less_nat_alt unat_of_nat take_bit_nat_eq_self)
  then show ?thesis
    using sd_sample_loop[of "unat start + unat n" "sd_data d" "unat start" "[]"] u
    by (auto simp: sd_sample_from_def sd_of_samples_def drop_take)
qed

lemma sd_sample_from_spec_example:
  "sd_sample_from 1 1 (sd_make [[(5, 1)], [(6, 1)]] [0, 0])
     = Inr \<lparr>sd_data = [[(6, 1)]], sd_labels = [], sd_size_bytes = 0\<rparr>"
  by (subst sd_sample_from_spec) (simp_all add: sd_make_def)

text \<open>When the sum wraps around, the range check passes and an empty dataset is returned.\<close>

lemma sd_sample_from_wraps:
  assumes "start + n < start"  "unat (start + n) \<le> length (sd_data d)" "length (sd_data d) < 2 ^ 64"
  shows "sd_sample_from start n d = Inr (sd_of_samples [])"
proof -
  have "\<not> word_of_nat (length (sd_data d)) < start + n"
    using assms(2,3) by (simp add: word_less_nat_alt unat_of_nat take_bit_nat_eq_self)
  then show ?thesis using assms(1) by (simp add: sd_sample_from_def word_less_nat_alt)
qed

section \<open>Normalisation keeps the shape\<close>

definition norm_index_ok :: "u64 \<Rightarrow> i32 \<times> f32 \<Rightarrow> bool" where
  "norm_index_ok hash_size v \<longleftrightarrow> 0 \<le> sint (fst v) \<and> nat (sint (fst v)) < unat hash_size"

lemma scast_index:
  fixes i :: i32
  shows "0 \<le> sint i \<Longrightarrow> unat (scast i :: u64) = nat (sint i)"
    and "sint i < 0 \<Longrightarrow> 2 ^ 63 \<le> unat (scast i :: u64)"
proof -
  have u: "unat (scast i :: u64) = idx i"
  proof -
    have "uint (word_of_int (sint i) :: u64) = take_bit LENGTH(64) (sint i)" by (rule uint_word_of_int_eq)
    then have "uint (scast i :: u64) = sint i mod 2 ^ 64" by (simp only: of_int_sint take_bit_eq_mod) simp
    then show ?thesis by (simp only: idx_def unat_eq_nat_uint)
  qed
  show "0 \<le> sint i \<Longrightarrow> unat (scast i :: u64) = nat (sint i)" using u idx_nonneg by simp
  show "sint i < 0 \<Longrightarrow> 2 ^ 63 \<le> unat (scast i :: u64)" using u idx_neg by simp
qed

lemma norm_step_cases:
  assumes "unat hash_size \<le> 2 ^ 63" "length mx = unat hash_size" "length mn = unat hash_size"
  shows "if norm_index_ok hash_size v
    then \<exists>mx' mn'. sd_norm_step hash_size v (mx, mn) = Inr (mx', mn')
           \<and> length mx' = unat hash_size \<and> length mn' = unat hash_size
    else sd_norm_step hash_size v (mx, mn) = Inl (Runtime_error ''Index bigger than capacity'')"
proof (cases "0 \<le> sint (fst v)")
  case True
  then show ?thesis using assms scast_index(1)[of "fst v"]
    by (cases v) (auto simp: sd_norm_step_def norm_index_ok_def vec_get_def word_le_nat_alt Let_def)
next
  case False
  then show ?thesis using assms scast_index(2)[of "fst v"]
    by (cases v) (auto simp: sd_norm_step_def norm_index_ok_def word_le_nat_alt Let_def)
qed

lemma norm_row_cases:
  assumes "unat hash_size \<le> 2 ^ 63" "length (fst s) = unat hash_size" "length (snd s) = unat hash_size"
  shows "if \<forall>v\<in>set row. norm_index_ok hash_size v
    then \<exists>s'. rfold (sd_norm_step hash_size) row s = Inr s'
           \<and> length (fst s') = unat hash_size \<and> length (snd s') = unat hash_size
    else rfold (sd_norm_step hash_size) row s = Inl (Runtime_error ''Index bigger than capacity'')"
  using assms(2,3)
proof (induction row arbitrary: s)
  case (Cons v row)
  show ?case
  proof (cases "norm_index_ok hash_size v")
    case True
    then obtain s' where "sd_norm_step hash_size v s = Inr s'"
      "length (fst s') = unat hash_size" "length (snd s') = unat hash_size"
      using norm_step_cases[OF assms(1) Cons.prems, of v] by (metis fst_conv prod.collapse snd_conv)
    with True Cons.IH[of s'] show ?thesis by (auto split: if_splits)
  next
    case False
    then show ?thesis using norm_step_cases[OF assms(1) Cons.prems, of v] by simp
  qed
qed simp

lemma norm_rows_cases:
  assumes "unat hash_size \<le> 2 ^ 63" "length (fst s) = unat hash_size" "length (snd s) = unat hash_size"
  shows "if \<forall>row\<in>set rows. \<forall>v\<in>set row. norm_index_ok hash_size v
    then \<exists>s'. rfold (rfold (sd_norm_step hash_size)) rows s = Inr s'
           \<and> length (fst s') = unat hash_size \<and> length (snd s') = unat hash_size
    else rfold (rfold (sd_norm_step hash_size)) rows s = Inl (Runtime_error ''Index bigger than capacity'')"
  using assms(2,3)
proof (induction rows arbitrary: s)
  case (Cons row rows)
  show ?case
  proof (cases "\<forall>v\<in>set row. norm_index_ok hash_size v")
    case True
    then obtain s' where s': "rfold (sd_norm_step hash_size) row s = Inr s'"
      "length (fst s') = unat hash_size" "length (snd s') = unat hash_size"
      using norm_row_cases[OF assms(1) Cons.prems, of row] by auto
    with True Cons.IH[of s'] show ?thesis by (auto split: if_splits)
  next
    case False
    then show ?thesis using norm_row_cases[OF assms(1) Cons.prems, of row] by auto
  qed
qed simp

lemma rmap_total:
  "(\<And>x. x \<in> set xs \<Longrightarrow> \<exists>y. f x = Inr y \<and> g y = h x) \<Longrightarrow> \<exists>ys. rmap f xs = Inr ys \<and> map g ys = map h xs"
proof (induction xs)
  case (Cons x xs)
  then obtain y where y: "f x = Inr y" "g y = h x" by (metis list.set_intros(1))
  obtain ys where "rmap f xs = Inr ys" "map g ys = map h xs" using Cons by (metis list.set_intros(2))
  with y show ?case by auto
qed simp

lemma norm_values_ok:
  assumes "length mx = unat hash_size" "length mn = unat hash_size"
    and "\<forall>row\<in>set rows. \<forall>v\<in>set row. norm_index_ok hash_size v"
  shows "\<exists>rows'. rmap (rmap (sd_norm_value mx mn)) rows = Inr rows' \<and> map (map fst) rows' = map (map fst) rows"
proof (rule rmap_total)
  fix row assume "row \<in> set rows"
  show "\<exists>row'. rmap (sd_norm_value mx mn) row = Inr row' \<and> map fst row' = map fst row"
  proof (rule rmap_total)
    fix v assume "v \<in> set row"
    then have "norm_index_ok hash_size v" using assms(3) \<open>row \<in> set rows\<close> by blast
    then show "\<exists>y. sd_norm_value mx mn v = Inr y \<and> fst y = fst v"
      using assms(1,2) by (cases v) (auto simp: sd_norm_value_def norm_index_ok_def idx_nonneg vec_get_def)
  qed
qed

text \<open>
  \<open>normalize(hash_size)\<close> throws exactly when some feature index is outside of
  \<open>[0, hash_size)\<close>; otherwise it ends normally, and only values change: every sample keeps its
  feature indices, and the labels stay.
\<close>

lemma sd_normalize_shape:
  assumes "unat hash_size \<le> 2 ^ 63"
  shows "if \<forall>row\<in>set (sd_data d). \<forall>v\<in>set row. norm_index_ok hash_size v
    then \<exists>d'. sd_normalize hash_size d = Inr d' \<and> map (map fst) (sd_data d') = map (map fst) (sd_data d)
           \<and> sd_labels d' = sd_labels d
    else sd_normalize hash_size d = Inl (Runtime_error ''Index bigger than capacity'')"
proof (cases "\<forall>row\<in>set (sd_data d). \<forall>v\<in>set row. norm_index_ok hash_size v")
  case True
  then obtain mx mn where s: "rfold (rfold (sd_norm_step hash_size)) (sd_data d)
      (replicate (unat hash_size) 0, replicate (unat hash_size) FLT_MAX) = Inr (mx, mn)"
    "length mx = unat hash_size" "length mn = unat hash_size"
    using norm_rows_cases[OF assms, of "(replicate (unat hash_size) 0, replicate (unat hash_size) FLT_MAX)" "sd_data d"]
    by auto
  from norm_values_ok[OF s(2,3) True] s(1) True show ?thesis
    by (auto simp: sd_normalize_def)
next
  case False
  have "rfold (rfold (sd_norm_step hash_size)) (sd_data d)
      (replicate (unat hash_size) 0, replicate (unat hash_size) FLT_MAX)
      = Inl (Runtime_error ''Index bigger than capacity'')"
    using norm_rows_cases[OF assms, of "(replicate (unat hash_size) 0, replicate (unat hash_size) FLT_MAX)" "sd_data d",
        unfolded if_not_P[OF False]] by simp
  then have "sd_normalize hash_size d = Inl (Runtime_error ''Index bigger than capacity'')"
    by (simp only: sd_normalize_def rbind_simps)
  then show ?thesis unfolding if_not_P[OF False] .
qed

lemma sd_normalize_example:
  "sd_normalize 4 (sd_of_samples [[(1, 0x3F800000)], [(4, 0x3F800000)]])
     = Inl (Runtime_error ''Index bigger than capacity'')"
  using sd_normalize_shape[of 4 "sd_of_samples [[(1, 0x3F800000)], [(4, 0x3F800000)]]"]
  by (simp add: sd_of_samples_def norm_index_ok_def)

end
