(* ===== verification/Streams.thy ===== *)
theory Streams
  imports Prelude CFloat "HOL-Library.Char_ord"
begin

text \<open>
  The formatted input the code uses: \<open>operator>>\<close> of \<open>std::istringstream\<close> into strings,
  integers, \<open>bool\<close> and \<open>double\<close>, \<open>std::getline\<close>, and \<open>string_to\<close> of \<open>Utils.h\<close>. A stream
  is the characters it still holds and its two state bits; the behaviour on malformed and
  out-of-range input is that of the C++11 library (the value is set to zero, or clipped, and
  \<open>failbit\<close> is raised).
\<close>

section \<open>Characters\<close>

definition ccode :: "char \<Rightarrow> nat" where "ccode c = of_char c"

definition is_space :: "char \<Rightarrow> bool" where
  "is_space c \<longleftrightarrow> (9 \<le> ccode c \<and> ccode c \<le> 13) \<or> ccode c = 32"

definition is_digit :: "char \<Rightarrow> bool" where
  "is_digit c \<longleftrightarrow> 48 \<le> ccode c \<and> ccode c \<le> 57"

definition digits_value :: "string \<Rightarrow> nat" where
  "digits_value ds = fold (\<lambda>c n. n * 10 + (ccode c - 48)) ds 0"

section \<open>Streams\<close>

record istream =
  is_buf :: string
  is_eof :: bool
  is_fail :: bool

definition istream_of :: "string \<Rightarrow> istream" where
  "istream_of s = \<lparr>is_buf = s, is_eof = False, is_fail = False\<rparr>"

text \<open>
  \<open>fmt_extract get old st\<close>: the sentry skips white space; a stream that is not good, or that has
  nothing left, only gets \<open>failbit\<close> and the variable keeps its value. Otherwise \<open>get\<close> takes
  the field off the buffer and says whether it was malformed.
\<close>

definition fmt_extract :: "(string \<Rightarrow> 'a \<times> bool \<times> string) \<Rightarrow> 'a \<Rightarrow> istream \<Rightarrow> 'a \<times> istream" where
  "fmt_extract get old st =
     (if is_eof st \<or> is_fail st then (old, st\<lparr>is_fail := True\<rparr>)
      else let b = dropWhile is_space (is_buf st)
           in if b = [] then (old, st\<lparr>is_buf := [], is_eof := True, is_fail := True\<rparr>)
              else let (v, bad, r) = get b
                   in (v, st\<lparr>is_buf := r, is_eof := (r = []), is_fail := bad\<rparr>))"

definition get_string :: "string \<Rightarrow> string \<times> bool \<times> string" where
  "get_string b = (takeWhile (\<lambda>c. \<not> is_space c) b, False, dropWhile (\<lambda>c. \<not> is_space c) b)"

text \<open>An optional sign.\<close>

definition get_sign :: "string \<Rightarrow> bool \<times> string" where
  "get_sign b = (case b of [] \<Rightarrow> (False, []) | c # r \<Rightarrow>
     if c = CHR ''-'' then (True, r) else if c = CHR ''+'' then (False, r) else (False, b))"

definition get_u64 :: "string \<Rightarrow> u64 \<times> bool \<times> string" where
  "get_u64 b =
     (let (neg, b) = get_sign b; ds = takeWhile is_digit b; r = dropWhile is_digit b; n = digits_value ds
      in if ds = [] then (0, True, r)
         else if n \<ge> 2 ^ 64 then (- 1, True, r)
         else (if neg then - word_of_nat n else word_of_nat n, False, r))"

definition get_long :: "string \<Rightarrow> int \<times> bool \<times> string" where
  "get_long b =
     (let (neg, b) = get_sign b; ds = takeWhile is_digit b; r = dropWhile is_digit b; n = int (digits_value ds)
      in if ds = [] then (0, True, r)
         else if neg \<and> n > 2 ^ 63 then (- (2 ^ 63), True, r)
         else if \<not> neg \<and> n \<ge> 2 ^ 63 then (2 ^ 63 - 1, True, r)
         else (if neg then - n else n, False, r))"

definition get_int :: "string \<Rightarrow> i32 \<times> bool \<times> string" where
  "get_int b =
     (case get_long b of (l, bad, r) \<Rightarrow>
        if l < - (2 ^ 31) then (0x80000000, True, r)
        else if l > 2 ^ 31 - 1 then (0x7FFFFFFF, True, r)
        else (word_of_int l, bad, r))"

definition get_bool :: "string \<Rightarrow> bool \<times> bool \<times> string" where
  "get_bool b =
     (case get_long b of (l, bad, r) \<Rightarrow>
        if l = 0 then (False, bad, r) else if l = 1 then (True, bad, r) else (True, True, r))"

text \<open>
  A floating-point field: mantissa digits with an optional point, and an exponent once a digit
  was seen. An exponent mark without digits, or no mantissa digit, is malformed. \<open>f64_dec\<close> and
  \<open>f32_dec\<close> are the numbers nearest to the decimal, and an overflow is clipped and reported.
\<close>

definition f64_dec :: "bool \<Rightarrow> nat \<Rightarrow> int \<Rightarrow> f64" where
  "f64_dec neg m e =
     word_of_nat (fp_of_ratio 11 52 neg (m * 10 ^ nat e) (10 ^ nat (- e)) 0)"

definition f32_dec :: "bool \<Rightarrow> nat \<Rightarrow> int \<Rightarrow> f32" where
  "f32_dec neg m e =
     word_of_nat (fp_of_ratio 8 23 neg (m * 10 ^ nat e) (10 ^ nat (- e)) 0)"

definition get_decimal :: "(bool \<Rightarrow> nat \<Rightarrow> int \<Rightarrow> 'a::zero) \<Rightarrow> ('a \<Rightarrow> bool) \<Rightarrow> (bool \<Rightarrow> 'a) \<Rightarrow> string \<Rightarrow>
    'a \<times> bool \<times> string" where
  "get_decimal dec isinf clip b =
     (let (neg, b) = get_sign b;
          ip = takeWhile is_digit b; b1 = dropWhile is_digit b;
          (fp, b2) = (case b1 of [] \<Rightarrow> ([], []) | c # r \<Rightarrow>
             if c = CHR ''.'' then (takeWhile is_digit r, dropWhile is_digit r) else ([], b1))
      in if ip @ fp = [] then (0, True, b2)
         else let (e, bad, b3) = (case b2 of [] \<Rightarrow> (0, False, []) | c # r \<Rightarrow>
                 if c = CHR ''e'' \<or> c = CHR ''E''
                 then let (eneg, r) = get_sign r; ds = takeWhile is_digit r
                      in (if eneg then - int (digits_value ds) else int (digits_value ds), ds = [],
                          dropWhile is_digit r)
                 else (0, False, b2))
              in if bad then (0, True, b3)
                 else let v = dec neg (digits_value (ip @ fp)) (e - int (length fp))
                      in if isinf v then (clip neg, True, b3) else (v, False, b3))"

definition get_double :: "string \<Rightarrow> f64 \<times> bool \<times> string" where
  "get_double = get_decimal f64_dec f64_isinf (\<lambda>neg. if neg then 0xFFEFFFFFFFFFFFFF else 0x7FEFFFFFFFFFFFFF)"

definition get_float :: "string \<Rightarrow> f32 \<times> bool \<times> string" where
  "get_float = get_decimal f32_dec f32_isinf (\<lambda>neg. if neg then 0xFF7FFFFF else 0x7F7FFFFF)"

definition is_string :: "string \<Rightarrow> istream \<Rightarrow> string \<times> istream" where "is_string = fmt_extract get_string"
definition is_u64 :: "u64 \<Rightarrow> istream \<Rightarrow> u64 \<times> istream" where "is_u64 = fmt_extract get_u64"
definition is_int :: "i32 \<Rightarrow> istream \<Rightarrow> i32 \<times> istream" where "is_int = fmt_extract get_int"
definition is_bool :: "bool \<Rightarrow> istream \<Rightarrow> bool \<times> istream" where "is_bool = fmt_extract get_bool"
definition is_double :: "f64 \<Rightarrow> istream \<Rightarrow> f64 \<times> istream" where "is_double = fmt_extract get_double"
definition is_float :: "f32 \<Rightarrow> istream \<Rightarrow> f32 \<times> istream" where "is_float = fmt_extract get_float"

text \<open>
  \<open>string_to<C>(s)\<close>: zero for the empty string, else what one extraction gives (the result of
  a failed extraction is zero, or the clipped value). The variable is not initialised: \<open>u\<close> is
  what it holds when the string is all white space.
\<close>

definition string_to_int :: "i32 \<Rightarrow> string \<Rightarrow> i32" where
  "string_to_int u s = (if s = [] then 0 else fst (is_int u (istream_of s)))"

definition string_to_bool :: "bool \<Rightarrow> string \<Rightarrow> bool" where
  "string_to_bool u s = (if s = [] then False else fst (is_bool u (istream_of s)))"

definition string_to_double :: "f64 \<Rightarrow> string \<Rightarrow> f64" where
  "string_to_double u s = (if s = [] then 0 else fst (is_double u (istream_of s)))"

text \<open>
  The pieces \<open>std::getline(ss, piece, d)\<close> returns until it fails: what follows the last
  delimiter is a piece only if it is not empty.
\<close>

fun split_on :: "char \<Rightarrow> string \<Rightarrow> string list" where
  "split_on d [] = []"
| "split_on d (c # s) =
     (if c = d then [] # split_on d s
      else case split_on d s of [] \<Rightarrow> [[c]] | l # ls \<Rightarrow> (c # l) # ls)"

definition lines_of :: "string \<Rightarrow> string list" where
  "lines_of s = split_on (CHR 0x0A) s"

text \<open>Decimal printing, to state what is read back.\<close>

fun show_nat :: "nat \<Rightarrow> string" where
  "show_nat n = (if n < 10 then [char_of (48 + n)] else show_nat (n div 10) @ [char_of (48 + n mod 10)])"

declare show_nat.simps [simp del]

lemmas stream_evals [eval_defs] =
  ccode_def is_space_def is_digit_def digits_value_def istream_of_def fmt_extract_def get_string_def
  get_sign_def get_u64_def get_long_def get_int_def get_bool_def f64_dec_def f32_dec_def
  get_decimal_def get_double_def get_float_def is_string_def is_u64_def is_int_def is_bool_def is_double_def is_float_def
  string_to_int_def string_to_bool_def string_to_double_def split_on.simps lines_of_def

section \<open>Numbers are read back\<close>

lemma ccode_digit: "(k :: nat) < 10 \<Longrightarrow> ccode (char_of (48 + k)) = 48 + k"
  by (simp add: ccode_def)

lemma is_digit_digit: "(k :: nat) < 10 \<Longrightarrow> is_digit (char_of (48 + k))"
  by (simp add: is_digit_def ccode_digit)

lemma show_nat_digits: "list_all is_digit (show_nat n) \<and> show_nat n \<noteq> []"
proof (induction n rule: show_nat.induct)
  case (1 n)
  then show ?case
    by (subst (1 2) show_nat.simps) (auto simp: is_digit_digit[of "n mod 10"] is_digit_digit[of n])
qed

lemma digits_value_append1: "digits_value (ds @ [c]) = digits_value ds * 10 + (ccode c - 48)"
  by (simp add: digits_value_def)

lemma digits_value_show: "digits_value (show_nat n) = n"
proof (induction n rule: show_nat.induct)
  case (1 n)
  show ?case
  proof (cases "n < 10")
    case True
    then show ?thesis by (subst show_nat.simps) (simp add: digits_value_def ccode_digit)
  next
    case False
    then show ?thesis using 1
      by (subst show_nat.simps) (simp add: digits_value_append1 ccode_digit[of "n mod 10"])
  qed
qed

lemma digit_not_sign: "is_digit c \<Longrightarrow> c \<noteq> CHR ''-'' \<and> c \<noteq> CHR ''+''"
  by (auto simp: is_digit_def ccode_def)

lemma digit_not_space: "is_digit c \<Longrightarrow> \<not> is_space c"
  by (auto simp: is_digit_def is_space_def)

lemma show_nat_hd: "\<exists>c r. show_nat n = c # r \<and> is_digit c"
  using show_nat_digits[of n] by (cases "show_nat n") auto

lemma get_sign_show: "get_sign (show_nat n @ r) = (False, show_nat n @ r)"
  using show_nat_hd[of n] digit_not_sign by (auto simp: get_sign_def)

lemma take_drop_show:
  assumes "r = [] \<or> \<not> is_digit (hd r)"
  shows "takeWhile is_digit (show_nat n @ r) = show_nat n" "dropWhile is_digit (show_nat n @ r) = r"
proof -
  have all: "\<forall>c\<in>set (show_nat n). is_digit c" using show_nat_digits[of n] by (simp add: list_all_iff)
  show "takeWhile is_digit (show_nat n @ r) = show_nat n"
    using all assms by (cases r) auto
  show "dropWhile is_digit (show_nat n @ r) = r"
    using all assms by (cases r) auto
qed

lemma get_u64_show:
  "n < 2 ^ 64 \<Longrightarrow> r = [] \<or> \<not> is_digit (hd r) \<Longrightarrow> get_u64 (show_nat n @ r) = (word_of_nat n, False, r)"
  using show_nat_digits[of n]
  by (simp add: get_u64_def get_sign_show take_drop_show digits_value_show Let_def)

lemma is_u64_show:
  "n < 2 ^ 64 \<Longrightarrow> is_u64 old \<lparr>is_buf = CHR '' '' # show_nat n, is_eof = False, is_fail = False\<rparr>
     = (word_of_nat n, \<lparr>is_buf = [], is_eof = True, is_fail = False\<rparr>)"
proof -
  assume n: "n < 2 ^ 64"
  have "dropWhile is_space (show_nat n) = show_nat n"
    using show_nat_hd[of n] digit_not_space by auto
  moreover have "is_space (CHR '' '')" by (simp add: is_space_def ccode_def)
  ultimately show ?thesis
    using show_nat_digits[of n] get_u64_show[OF n, of "[]"] by (simp add: is_u64_def fmt_extract_def)
qed

end
