(* ===== verification/Config.thy ===== *)
theory Config
  imports Streams
begin

text \<open>
  \<open>Configuration.h\<close> and \<open>Configuration.cpp\<close>: the configuration file is a sequence of lines
  \<open>key: value\<close>, with \<open>#\<close> comments and blank lines. \<open>read\<close> parses it into the fields, prints
  them (which already fails on some missing fields) and checks them; the getters fail on
  fields that were never set. Output to the terminal is left out.
\<close>

section \<open>The fields\<close>

datatype model_type = UNKNOWN | LOGISTICREGRESSION | SOFTMAX | COLLABORATIVE_FILTERING

record configuration =
  cf_n_workers :: u64
  cf_minibatch_size :: u64
  cf_s3_size :: u64
  cf_learning_rate :: f64
  cf_epsilon :: f64
  cf_num_classes :: u64
  cf_load_input_path :: string
  cf_load_input_type :: string
  cf_samples_path :: string
  cf_labels_path :: string
  cf_model_type :: model_type
  cf_limit_cols :: u64
  cf_normalize :: bool
  cf_limit_samples :: u64
  cf_num_features :: u64
  cf_dataset_format :: string
  cf_s3_dataset_key :: string
  cf_s3_bucket_name :: string
  cf_train_set_range :: "i32 \<times> i32"
  cf_test_set_range :: "i32 \<times> i32"
  cf_use_bias :: bool
  cf_nusers :: i32
  cf_nitems :: i32
  cf_use_grad_threshold :: bool
  cf_grad_threshold :: f64
  cf_opt_method :: string
  cf_model_bits :: u64
  cf_netflix_workers :: u64
  cf_checkpoint_frequency :: u64
  cf_checkpoint_s3_bucket :: string
  cf_checkpoint_s3_keyname :: string
  cf_momentum_beta :: f64

definition f64_minus_one :: f64 where "f64_minus_one = 0xBFF0000000000000"

text \<open>\<open>Configuration()\<close>\<close>

definition conf_new :: configuration where
  "conf_new = \<lparr>cf_n_workers = 0, cf_minibatch_size = 0, cf_s3_size = 0,
     cf_learning_rate = f64_minus_one, cf_epsilon = f64_minus_one, cf_num_classes = 0,
     cf_load_input_path = [], cf_load_input_type = [], cf_samples_path = [], cf_labels_path = [],
     cf_model_type = UNKNOWN, cf_limit_cols = 0, cf_normalize = False, cf_limit_samples = 0,
     cf_num_features = 0, cf_dataset_format = [], cf_s3_dataset_key = [], cf_s3_bucket_name = [],
     cf_train_set_range = (0, 0), cf_test_set_range = (0, 0), cf_use_bias = False, cf_nusers = 0,
     cf_nitems = 0, cf_use_grad_threshold = False, cf_grad_threshold = 0,
     cf_opt_method = ''adagrad'', cf_model_bits = 20, cf_netflix_workers = 0,
     cf_checkpoint_frequency = 0, cf_checkpoint_s3_bucket = [], cf_checkpoint_s3_keyname = [],
     cf_momentum_beta = 0\<rparr>"

section \<open>Getters\<close>

definition get_load_input_path :: "configuration \<Rightarrow> string res" where
  "get_load_input_path c =
     (if cf_load_input_path c = [] then Inl (Runtime_error ''input path not loaded'')
      else Inr (cf_load_input_path c))"

definition get_samples_path :: "configuration \<Rightarrow> string res" where
  "get_samples_path c =
     (if cf_samples_path c = [] then Inl (Runtime_error ''samples path not loaded'')
      else if cf_load_input_type c \<noteq> ''double_binary''
           then Inl (Runtime_error ''mismatch between paths and input type'')
      else Inr (cf_samples_path c))"

definition get_labels_path :: "configuration \<Rightarrow> string res" where
  "get_labels_path c =
     (if cf_labels_path c = [] then Inl (Runtime_error ''labels path not loaded'')
      else if cf_load_input_type c \<noteq> ''double_binary''
           then Inl (Runtime_error ''mismatch between paths and input type'')
      else Inr (cf_labels_path c))"

definition get_learning_rate :: "configuration \<Rightarrow> f64 res" where
  "get_learning_rate c =
     (if f64_eq (cf_learning_rate c) f64_minus_one then Inl (Runtime_error ''learning rate not loaded'')
      else Inr (cf_learning_rate c))"

definition get_epsilon :: "configuration \<Rightarrow> f64 res" where
  "get_epsilon c =
     (if f64_eq (cf_epsilon c) f64_minus_one then Inl (Runtime_error ''epsilon not loaded'')
      else Inr (cf_epsilon c))"

definition get_minibatch_size :: "configuration \<Rightarrow> u64 res" where
  "get_minibatch_size c =
     (if cf_minibatch_size c = 0 then Inl (Runtime_error ''Minibatch size not loaded'')
      else Inr (cf_minibatch_size c))"

definition get_s3_size :: "configuration \<Rightarrow> u64 res" where
  "get_s3_size c =
     (if cf_s3_size c = 0 then Inl (Runtime_error ''Minibatch size not loaded'')
      else Inr (cf_s3_size c))"

definition get_load_input_type :: "configuration \<Rightarrow> string res" where
  "get_load_input_type c =
     (if cf_load_input_type c = [] then Inl (Runtime_error ''load_input_type not loaded'')
      else Inr (cf_load_input_type c))"

definition get_model_type :: "configuration \<Rightarrow> model_type res" where
  "get_model_type c =
     (if cf_model_type c = UNKNOWN then Inl (Runtime_error ''model_type not loaded'')
      else Inr (cf_model_type c))"

definition get_num_classes :: "configuration \<Rightarrow> u64 res" where
  "get_num_classes c =
     (if cf_num_classes c = 0 then Inl (Runtime_error ''num_classes not loaded'')
      else Inr (cf_num_classes c))"

text \<open>The other getters return their field.\<close>

section \<open>Parsing\<close>

text \<open>The options whose value is read into a field and nothing else.\<close>

definition parse_plain :: "string \<Rightarrow> istream \<Rightarrow> configuration \<Rightarrow> (configuration \<times> istream) option" where
  "parse_plain s iss c =
    (if s = ''num_features:'' then (case is_u64 (cf_num_features c) iss of (v, iss) \<Rightarrow> Some (c\<lparr>cf_num_features := v\<rparr>, iss))
     else if s = ''load_input_path:'' then (case is_string (cf_load_input_path c) iss of (v, iss) \<Rightarrow> Some (c\<lparr>cf_load_input_path := v\<rparr>, iss))
     else if s = ''samples_path:'' then (case is_string (cf_samples_path c) iss of (v, iss) \<Rightarrow> Some (c\<lparr>cf_samples_path := v\<rparr>, iss))
     else if s = ''labels_path:'' then (case is_string (cf_labels_path c) iss of (v, iss) \<Rightarrow> Some (c\<lparr>cf_labels_path := v\<rparr>, iss))
     else if s = ''n_workers:'' then (case is_u64 (cf_n_workers c) iss of (v, iss) \<Rightarrow> Some (c\<lparr>cf_n_workers := v\<rparr>, iss))
     else if s = ''opt_method:'' then (case is_string (cf_opt_method c) iss of (v, iss) \<Rightarrow> Some (c\<lparr>cf_opt_method := v\<rparr>, iss))
     else if s = ''epsilon:'' then (case is_double (cf_epsilon c) iss of (v, iss) \<Rightarrow> Some (c\<lparr>cf_epsilon := v\<rparr>, iss))
     else if s = ''load_input_type:'' then (case is_string (cf_load_input_type c) iss of (v, iss) \<Rightarrow> Some (c\<lparr>cf_load_input_type := v\<rparr>, iss))
     else if s = ''learning_rate:'' then (case is_double (cf_learning_rate c) iss of (v, iss) \<Rightarrow> Some (c\<lparr>cf_learning_rate := v\<rparr>, iss))
     else if s = ''num_classes:'' then (case is_u64 (cf_num_classes c) iss of (v, iss) \<Rightarrow> Some (c\<lparr>cf_num_classes := v\<rparr>, iss))
     else if s = ''limit_cols:'' then (case is_u64 (cf_limit_cols c) iss of (v, iss) \<Rightarrow> Some (c\<lparr>cf_limit_cols := v\<rparr>, iss))
     else if s = ''limit_samples:'' then (case is_u64 (cf_limit_samples c) iss of (v, iss) \<Rightarrow> Some (c\<lparr>cf_limit_samples := v\<rparr>, iss))
     else if s = ''momentum_beta:'' then (case is_double (cf_momentum_beta c) iss of (v, iss) \<Rightarrow> Some (c\<lparr>cf_momentum_beta := v\<rparr>, iss))
     else if s = ''s3_bucket:'' then (case is_string (cf_s3_bucket_name c) iss of (v, iss) \<Rightarrow> Some (c\<lparr>cf_s3_bucket_name := v\<rparr>, iss))
     else if s = ''dataset_format:'' then (case is_string (cf_dataset_format c) iss of (v, iss) \<Rightarrow> Some (c\<lparr>cf_dataset_format := v\<rparr>, iss))
     else if s = ''s3_dataset_key:'' then (case is_string (cf_s3_dataset_key c) iss of (v, iss) \<Rightarrow> Some (c\<lparr>cf_s3_dataset_key := v\<rparr>, iss))
     else if s = ''use_bias:'' then (case is_bool (cf_use_bias c) iss of (v, iss) \<Rightarrow> Some (c\<lparr>cf_use_bias := v\<rparr>, iss))
     else if s = ''num_users:'' then (case is_int (cf_nusers c) iss of (v, iss) \<Rightarrow> Some (c\<lparr>cf_nusers := v\<rparr>, iss))
     else if s = ''num_items:'' then (case is_int (cf_nitems c) iss of (v, iss) \<Rightarrow> Some (c\<lparr>cf_nitems := v\<rparr>, iss))
     else if s = ''model_bits:'' then (case is_u64 (cf_model_bits c) iss of (v, iss) \<Rightarrow> Some (c\<lparr>cf_model_bits := v\<rparr>, iss))
     else if s = ''netflix_workers:'' then (case is_u64 (cf_netflix_workers c) iss of (v, iss) \<Rightarrow> Some (c\<lparr>cf_netflix_workers := v\<rparr>, iss))
     else if s = ''checkpoint_frequency:'' then (case is_u64 (cf_checkpoint_frequency c) iss of (v, iss) \<Rightarrow> Some (c\<lparr>cf_checkpoint_frequency := v\<rparr>, iss))
     else if s = ''checkpoint_s3_bucket:'' then (case is_string (cf_checkpoint_s3_bucket c) iss of (v, iss) \<Rightarrow> Some (c\<lparr>cf_checkpoint_s3_bucket := v\<rparr>, iss))
     else if s = ''checkpoint_s3_keyname:'' then (case is_string (cf_checkpoint_s3_keyname c) iss of (v, iss) \<Rightarrow> Some (c\<lparr>cf_checkpoint_s3_keyname := v\<rparr>, iss))
     else None)"

text \<open>\<open>s.find_first_not_of("\t\n\v\f\r") == npos\<close>\<close>

definition blank :: "string \<Rightarrow> bool" where
  "blank s = list_all (\<lambda>c. 9 \<le> ccode c \<and> ccode c \<le> 13) s"

text \<open>\<open>s3_size % minibatch_size != 0\<close>, which traps on a zero divisor.\<close>

definition multiple_of :: "u64 \<Rightarrow> u64 \<Rightarrow> bool" where
  "multiple_of s m \<longleftrightarrow> s mod m = 0"

definition check_multiple :: "u64 \<Rightarrow> u64 \<Rightarrow> unit res" where
  "check_multiple s3 mb =
     (if mb = 0 then Inl Undefined_behaviour
      else guard_rt (multiple_of s3 mb) ''s3_size not multiple of minibatch_size'')"

definition parse_option :: "string \<Rightarrow> istream \<Rightarrow> configuration \<Rightarrow> (configuration \<times> istream) res" where
  "parse_option s iss c =
    (if s = ''minibatch_size:'' then (case is_u64 (cf_minibatch_size c) iss of (v, iss) \<Rightarrow>
       rbind (if cf_s3_size c \<noteq> 0 then check_multiple (cf_s3_size c) v else Inr ()) (\<lambda>_.
       Inr (c\<lparr>cf_minibatch_size := v\<rparr>, iss)))
     else if s = ''s3_size:'' then (case is_u64 (cf_s3_size c) iss of (v, iss) \<Rightarrow>
       rbind (if cf_minibatch_size c \<noteq> 0 then check_multiple v (cf_minibatch_size c) else Inr ()) (\<lambda>_.
       Inr (c\<lparr>cf_s3_size := v\<rparr>, iss)))
     else case parse_plain s iss c of Some r \<Rightarrow> Inr r
     | None \<Rightarrow>
     if s = ''normalize:'' then (case is_int 0 iss of (n, iss) \<Rightarrow> Inr (c\<lparr>cf_normalize := (n = 1)\<rparr>, iss))
     else if s = ''model_type:'' then (case is_string [] iss of (model, iss) \<Rightarrow>
       if model = ''LogisticRegression'' then Inr (c\<lparr>cf_model_type := LOGISTICREGRESSION\<rparr>, iss)
       else if model = ''Softmax'' then Inr (c\<lparr>cf_model_type := SOFTMAX\<rparr>, iss)
       else if model = ''CollaborativeFiltering'' then Inr (c\<lparr>cf_model_type := COLLABORATIVE_FILTERING\<rparr>, iss)
       else Inl (Runtime_error ''Unknown model : ''))
     else if s = ''train_set:'' then (case is_string [] iss of (rng, iss) \<Rightarrow>
       rbind (guard_rt (CHR ''-'' \<in> set rng) ''Wrong index'') (\<lambda>_.
       Inr (c\<lparr>cf_train_set_range := (string_to_int 0 (takeWhile (\<lambda>x. x \<noteq> CHR ''-'') rng),
                                string_to_int 0 (tl (dropWhile (\<lambda>x. x \<noteq> CHR ''-'') rng)))\<rparr>, iss)))
     else if s = ''test_set:'' then (case is_string [] iss of (rng, iss) \<Rightarrow>
       rbind (guard_rt (CHR ''-'' \<in> set rng) ''Wrong index'') (\<lambda>_.
       Inr (c\<lparr>cf_test_set_range := (string_to_int 0 (takeWhile (\<lambda>x. x \<noteq> CHR ''-'') rng),
                                string_to_int 0 (tl (dropWhile (\<lambda>x. x \<noteq> CHR ''-'') rng)))\<rparr>, iss)))
     else if s = ''use_grad_threshold:'' then (case is_string [] iss of (b, iss) \<Rightarrow>
       rbind (guard_rt (b = ''0'' \<or> b = ''1'') ''use_grad_threshold must be 0/1'') (\<lambda>_.
       Inr (c\<lparr>cf_use_grad_threshold := string_to_bool False b\<rparr>, iss)))
     else if s = ''grad_threshold:'' then (case is_double (cf_grad_threshold c) iss of (v, iss) \<Rightarrow>
       Inr (c\<lparr>cf_grad_threshold := v\<rparr>, iss))
     else if blank s then Inr (c, iss)
     else Inl (Runtime_error ''Unrecognized option: ''))"

definition parse_line :: "string \<Rightarrow> configuration \<Rightarrow> configuration res" where
  "parse_line line c =
     (case is_string [] (istream_of line) of (s, iss) \<Rightarrow>
      rbind (parse_option s iss c) (\<lambda>(c, iss).
      rbind (guard_rt (\<not> (is_fail iss \<and> \<not> blank s)) ''Error parsing configuration file'') (\<lambda>_.
      Inr c)))"

text \<open>\<open>print()\<close> goes through the getters of four fields.\<close>

definition conf_print :: "configuration \<Rightarrow> unit res" where
  "conf_print c =
     rbind (get_load_input_path c) (\<lambda>_. rbind (get_minibatch_size c) (\<lambda>_.
     rbind (get_s3_size c) (\<lambda>_. rbind (get_learning_rate c) (\<lambda>_. Inr ()))))"

definition conf_check :: "configuration \<Rightarrow> unit res" where
  "conf_check c =
     rbind (guard_rt (cf_s3_bucket_name c \<noteq> []) ''S3 bucket name missing from config file'') (\<lambda>_.
     rbind (guard_rt (cf_dataset_format c = ''csv'' \<or> cf_dataset_format c = ''libsvm'' \<or>
                      cf_dataset_format c = ''svmlight'' \<or> cf_dataset_format c = ''binary'')
              ''Unknown dataset format'') (\<lambda>_.
     rbind (guard_rt (\<not> (fst (cf_test_set_range c) \<noteq> 0 \<and> cf_model_type c = COLLABORATIVE_FILTERING))
              ''Can't use test range with COLLABORATIVE_FILTERING'') (\<lambda>_.
     rbind (guard_rt (\<not> (cf_use_grad_threshold c \<and> f64_eq (cf_grad_threshold c) 0))
              ''Can't use a 0 for grad threshold'') (\<lambda>_.
     rbind (guard_rt (cf_model_bits c \<noteq> 0) ''Model bits can't be 0'') (\<lambda>_.
     rbind (guard_rt (\<not> (cf_opt_method c \<noteq> ''adagrad'' \<and> cf_opt_method c \<noteq> ''nesterov'' \<and>
                         cf_opt_method c \<noteq> ''momentum'' \<and> cf_opt_method c \<noteq> ''sgd''))
              ''Choose a valid update rule: adagrad, nesterov, momentum, or sgd'') (\<lambda>_.
     guard_rt (\<not> (0 < cf_checkpoint_frequency c \<and>
                 (cf_checkpoint_s3_bucket c = [] \<or> cf_checkpoint_s3_keyname c = [])))
       ''Wrong checkpoing configuration parameters''))))))"

text \<open>\<open>file\<close> is the contents of the file, \<open>None\<close> when it cannot be opened.\<close>

definition conf_read_lines :: "string list \<Rightarrow> configuration \<Rightarrow> configuration res" where
  "conf_read_lines lines c =
     rfold (\<lambda>line c. if line \<noteq> [] \<and> hd line = CHR ''#'' then Inr c else parse_line line c) lines c"

definition conf_read :: "string option \<Rightarrow> configuration \<Rightarrow> configuration res" where
  "conf_read file c =
     (case file of None \<Rightarrow> Inl (Runtime_error ''Error opening config file: '')
      | Some contents \<Rightarrow>
          rbind (conf_read_lines (lines_of contents) c) (\<lambda>c.
          rbind (conf_print c) (\<lambda>_.
          rbind (conf_check c) (\<lambda>_.
          Inr c))))"

lemmas config_evals [eval_defs] =
  f64_minus_one_def conf_new_def get_load_input_path_def get_samples_path_def get_labels_path_def
  get_learning_rate_def get_epsilon_def get_minibatch_size_def get_s3_size_def get_load_input_type_def
  get_model_type_def get_num_classes_def parse_plain_def blank_def multiple_of_def check_multiple_def parse_option_def
  parse_line_def conf_print_def conf_check_def conf_read_lines_def conf_read_def

section \<open>What an accepted file guarantees\<close>

text \<open>Once both sizes are set, the size of an S3 object is a multiple of the minibatch size.\<close>

definition sizes_ok :: "configuration \<Rightarrow> bool" where
  "sizes_ok c \<longleftrightarrow> cf_minibatch_size c \<noteq> 0 \<and> cf_s3_size c \<noteq> 0 \<longrightarrow>
     multiple_of (cf_s3_size c) (cf_minibatch_size c)"

lemma parse_plain_sizes:
  "parse_plain s iss c = Some (c', iss') \<Longrightarrow>
   cf_minibatch_size c' = cf_minibatch_size c \<and> cf_s3_size c' = cf_s3_size c"
  unfolding parse_plain_def by (auto split: if_splits prod.splits)

lemma check_multiple_ok: "check_multiple s m = Inr u \<longleftrightarrow> m \<noteq> 0 \<and> multiple_of s m"
  by (simp add: check_multiple_def)

lemma parse_option_sizes:
  assumes "parse_option s iss c = Inr (c', iss')" "sizes_ok c"
  shows "sizes_ok c'"
proof (cases "parse_plain s iss c")
  case (Some r)
  with assms show ?thesis
    by (cases r) (auto simp: parse_option_def sizes_ok_def check_multiple_ok dest!: parse_plain_sizes
        split: if_splits prod.splits)
next
  case None
  with assms show ?thesis
    by (auto simp: parse_option_def sizes_ok_def check_multiple_ok split: if_splits prod.splits)
qed

lemma parse_line_sizes: "parse_line line c = Inr c' \<Longrightarrow> sizes_ok c \<Longrightarrow> sizes_ok c'"
  by (auto simp: parse_line_def dest: parse_option_sizes split: prod.splits)

lemma conf_read_lines_sizes: "conf_read_lines ls c = Inr c' \<Longrightarrow> sizes_ok c \<Longrightarrow> sizes_ok c'"
  unfolding conf_read_lines_def
  by (erule rfold_inv) (auto dest: parse_line_sizes split: if_splits)

text \<open>
  A configuration that \<open>read\<close> accepts has an input path, positive minibatch and object
  sizes of which the second is a multiple of the first, a learning rate, a bucket, one of the
  four formats, one of the four update rules, and a non-zero number of model bits.
\<close>

lemma conf_read_accepts:
  assumes "conf_read file conf_new = Inr c"
  shows "cf_load_input_path c \<noteq> [] \<and> 0 < cf_minibatch_size c \<and> 0 < cf_s3_size c
    \<and> unat (cf_minibatch_size c) dvd unat (cf_s3_size c) \<and> get_learning_rate c = Inr (cf_learning_rate c)
    \<and> cf_s3_bucket_name c \<noteq> [] \<and> cf_model_bits c \<noteq> 0
    \<and> cf_dataset_format c \<in> {''csv'', ''libsvm'', ''svmlight'', ''binary''}
    \<and> cf_opt_method c \<in> {''adagrad'', ''nesterov'', ''momentum'', ''sgd''}"
proof -
  obtain contents where t: "conf_read_lines (lines_of contents) conf_new = Inr c" "conf_print c = Inr ()" "conf_check c = Inr ()"
    using assms by (auto simp: conf_read_def split: option.splits)
  have "sizes_ok c" using conf_read_lines_sizes[OF t(1)] by (simp add: sizes_ok_def conf_new_def)
  moreover have "cf_load_input_path c \<noteq> []" "cf_minibatch_size c \<noteq> 0" "cf_s3_size c \<noteq> 0"
    "get_learning_rate c = Inr (cf_learning_rate c)"
    using t(2) by (auto simp: conf_print_def get_load_input_path_def get_minibatch_size_def
        get_s3_size_def get_learning_rate_def split: if_splits)
  moreover have "multiple_of a b \<Longrightarrow> unat b dvd unat a" for a b
    by (metis multiple_of_def dvd_eq_mod_eq_0 unat_mod unat_0)
  ultimately show ?thesis using t(3) by (auto simp: conf_check_def sizes_ok_def word_gt_0)
qed

lemma dec_half: "f64_dec False 5 (- 1) = 0x3FE0000000000000" "\<not> f64_isinf 0x3FE0000000000000"
  "f64_eq 0x3FE0000000000000 f64_minus_one = False"
  by (simp_all add: f64_dec_def fp_evals f64_minus_one_def)

lemma half: "get_double ''0.5'' = (0x3FE0000000000000, False, [])"
  by (simp add: get_double_def get_decimal_def get_sign_def is_digit_def ccode_def digits_value_def dec_half)

lemma read_rate: "parse_line ''learning_rate: 0.5'' c = Inr (c\<lparr>cf_learning_rate := 0x3FE0000000000000\<rparr>)"
  by (simp add: parse_line_def parse_option_def parse_plain_def istream_of_def fmt_extract_def
      is_string_def get_string_def is_double_def is_space_def ccode_def blank_def half)

lemma ex_read: "conf_read_lines [''# example'', ''load_input_path: in'', ''minibatch_size: 2'', ''s3_size: 4'',
     ''learning_rate: 0.5'', [], ''s3_bucket: b'', ''dataset_format: csv''] conf_new =
   Inr (conf_new\<lparr>cf_load_input_path := ''in'', cf_minibatch_size := 2, cf_s3_size := 4,
     cf_learning_rate := 0x3FE0000000000000, cf_s3_bucket_name := ''b'', cf_dataset_format := ''csv''\<rparr>)"
  by (simp add: conf_read_lines_def read_rate)
     (simp add: parse_line_def parse_option_def parse_plain_def stream_evals blank_def conf_new_def check_multiple_def multiple_of_def)

lemma conf_read_accepts_example:
  "\<exists>contents c. conf_read (Some contents) conf_new = Inr c \<and> cf_minibatch_size c = 2 \<and>
     unat (cf_minibatch_size c) dvd unat (cf_s3_size c) \<and> cf_opt_method c = ''adagrad''"
proof -
  define contents where "contents = ''# example'' @ [CHR 0x0A] @ ''load_input_path: in'' @ [CHR 0x0A] @
    ''minibatch_size: 2'' @ [CHR 0x0A] @ ''s3_size: 4'' @ [CHR 0x0A] @ ''learning_rate: 0.5'' @
    [CHR 0x0A, CHR 0x0A] @ ''s3_bucket: b'' @ [CHR 0x0A] @ ''dataset_format: csv''"
  define c where "c = conf_new\<lparr>cf_load_input_path := ''in'', cf_minibatch_size := 2, cf_s3_size := 4,
     cf_learning_rate := 0x3FE0000000000000, cf_s3_bucket_name := ''b'', cf_dataset_format := ''csv''\<rparr>"
  have l: "lines_of contents = [''# example'', ''load_input_path: in'', ''minibatch_size: 2'', ''s3_size: 4'',
     ''learning_rate: 0.5'', [], ''s3_bucket: b'', ''dataset_format: csv'']"
    by (simp add: contents_def lines_of_def)
  have p: "conf_print c = Inr ()" "conf_check c = Inr ()"
    by (simp_all add: c_def conf_print_def conf_check_def get_load_input_path_def get_minibatch_size_def
        get_s3_size_def get_learning_rate_def dec_half conf_new_def)
  have "conf_read (Some contents) conf_new = Inr c"
    using ex_read[folded c_def] by (simp add: conf_read_def l p)
  with conf_read_accepts[OF this] show ?thesis
    by (intro exI[of _ contents] exI[of _ c]) (simp add: c_def conf_new_def)
qed

section \<open>Single lines\<close>

text \<open>
  Comment lines and lines without characters may be put anywhere: they do not change what
  the file means.
\<close>

lemma conf_comments_ignored:
  "conf_read_lines lines c =
   conf_read_lines (filter (\<lambda>l. \<not> (l = [] \<or> hd l = CHR ''#'')) lines) c"
proof -
  have e: "parse_line [] c = Inr c" for c
    by (simp add: parse_line_def parse_option_def parse_plain_def istream_of_def is_string_def
        fmt_extract_def blank_def)
  show ?thesis
    by (induction lines arbitrary: c) (auto simp: conf_read_lines_def e rbind_def split: sum.splits)
qed

text \<open>
  The line \<open>minibatch_size: n\<close> sets the minibatch size to \<open>n\<close>, unless an object size that
  is already set is not a multiple of it.
\<close>

lemma parse_minibatch_size:
  assumes "0 < n" "n < 2 ^ 64"
  shows "parse_line (''minibatch_size: '' @ show_nat n) c =
    (if cf_s3_size c \<noteq> 0 \<and> unat (cf_s3_size c) mod n \<noteq> 0
     then Inl (Runtime_error ''s3_size not multiple of minibatch_size'')
     else Inr (c\<lparr>cf_minibatch_size := word_of_nat n\<rparr>))"
proof -
  have 1: "is_string [] (istream_of (''minibatch_size: '' @ show_nat n)) =
     (''minibatch_size:'', \<lparr>is_buf = CHR '' '' # show_nat n, is_eof = False, is_fail = False\<rparr>)"
    by (simp add: is_string_def fmt_extract_def istream_of_def get_string_def is_space_def ccode_def)
  have u: "unat (word_of_nat n :: u64) = n" using assms(2) by (simp add: unat_of_nat take_bit_nat_eq_self)
  have nz: "(word_of_nat n :: u64) \<noteq> 0" using u assms(1) by (metis less_irrefl unat_0)
  have m: "multiple_of (cf_s3_size c) (word_of_nat n) \<longleftrightarrow> unat (cf_s3_size c) mod n = 0"
    by (metis multiple_of_def u unat_0 unat_eq_zero unat_mod)
  have "\<not> blank ''minibatch_size:''" by (simp add: blank_def ccode_def)
  then show ?thesis
    unfolding parse_line_def 1
    using assms nz m by (simp add: parse_option_def is_u64_show check_multiple_def)
qed

lemma parse_minibatch_size_example:
  "parse_line (''minibatch_size: '' @ show_nat 25) (conf_new\<lparr>cf_s3_size := 50\<rparr>)
     = Inr (conf_new\<lparr>cf_s3_size := 50, cf_minibatch_size := 25\<rparr>)"
  by (subst parse_minibatch_size) (simp_all add: conf_new_def)

text \<open>A minibatch size of zero after the object size divides by zero.\<close>

lemma parse_minibatch_zero:
  "cf_s3_size c \<noteq> 0 \<Longrightarrow> parse_line ''minibatch_size: 0'' c = Inl Undefined_behaviour"
  by (simp add: parse_line_def parse_option_def stream_evals check_multiple_def)

end
