(* ===== verification/S3Iter.thy ===== *)
theory S3Iter
  imports CircularBuf SparseData Config
begin

text \<open>
  \<open>S3SparseIterator\<close> (\<open>S3SparseIterator.h\<close>, \<open>S3SparseIterator.cpp\<close>): the source of minibatches of a
  worker. A background thread (\<open>thread_step\<close>) fetches an object from S3, keeps it in \<open>list_strings\<close>,
  adds a queue of pointers to its minibatches to the ring and announces them one by one on a
  semaphore; \<open>getNext\<close> (\<open>get_next\<close>) takes the next pointer, builds a dataset from the bytes there,
  and frees an object after its last minibatch was used.

  The steps of the two threads interleave: adding a queue, announcing one minibatch, and a call of
  \<open>getNext\<close> are atomic. That is what \<open>ring_lock\<close> and the semaphores give for the ring and the
  counters; \<open>list_strings\<close> is accessed by both threads without a lock, which the model cannot show.
  The bucket is an argument (\<open>s3\<close>), and so are the random draws (\<open>draw\<close>).

  The invariant \<open>it_rel\<close> relates the state to a list of blocks, one for each queue in the ring, and
  \<open>pending\<close> are the minibatches they stand for; every step of a thread acts on that list, so that runs
  are followed on it.
\<close>

section \<open>State\<close>

text \<open>
  A pointer into a string of \<open>list_strings\<close> is the string's version and an offset. The queues are
  kept by value in the ring, where the code has owning pointers to them.
\<close>

type_synonym mb_ptr = "int \<times> nat"
type_synonym mb_queue = "(mb_ptr \<times> int) list"

record s3_iter =
  it_left_id :: u64
  it_right_id :: u64
  it_s3_rows :: u64
  it_minibatch_rows :: u64
  it_use_label :: bool
  it_has_labels :: bool
  it_random_access :: bool
  it_config :: configuration
  it_current :: u64
  it_str_version :: int
  it_strings :: "int \<rightharpoonup> byte list"
  it_ring :: "mb_queue circular_buffer"
  it_num_ready :: i32
  it_semaphore :: nat
  it_unposted :: nat
  it_pref_sem :: nat
  it_to_delete :: int

definition read_ahead :: nat where "read_ahead = 1"

text \<open>The constructor up to the creation of the thread; the initialiser of \<open>current\<close> is 0.\<close>

definition it_start :: "u64 \<Rightarrow> u64 \<Rightarrow> configuration \<Rightarrow> u64 \<Rightarrow> u64 \<Rightarrow> bool \<Rightarrow> bool \<Rightarrow> bool \<Rightarrow> s3_iter res" where
  "it_start left_id right_id c s3_rows minibatch_rows use_label random_access has_labels =
     rbind (cb_new [] 100000) (\<lambda>ring.
     Inr \<lparr>it_left_id = left_id, it_right_id = right_id, it_s3_rows = s3_rows,
          it_minibatch_rows = minibatch_rows, it_use_label = use_label, it_has_labels = has_labels,
          it_random_access = random_access, it_config = c,
          it_current = 0, it_str_version = 0,
          it_strings = Map.empty, it_ring = ring, it_num_ready = 0, it_semaphore = 0,
          it_unposted = 0, it_pref_sem = read_ahead, it_to_delete = - 1\<rparr>)"

section \<open>Which object is next\<close>

text \<open>
  \<open>draw k l r\<close> is the \<open>k\<close>-th draw of \<open>uniform_int_distribution<int>(l, r)\<close>, whose bounds are
  narrowed from \<open>uint64_t\<close>; one is made for each object.
\<close>

definition get_obj_id :: "(nat \<Rightarrow> i32 \<Rightarrow> i32 \<Rightarrow> i32) \<Rightarrow> s3_iter \<Rightarrow> u64 \<times> s3_iter" where
  "get_obj_id draw it =
     (if it_random_access it then (scast (draw (nat (it_str_version it)) (ucast (it_left_id it)) (ucast (it_right_id it - 1))), it)
      else let ret = it_current it; current = it_current it + 1
           in (ret, it\<lparr>it_current := (if current = it_right_id it then it_left_id it else current)\<rparr>))"

section \<open>Cutting an object into minibatches\<close>

text \<open>Past one sample: its label is checked, its values are skipped.\<close>

definition skip_sample :: "bool \<Rightarrow> nat \<Rightarrow> byte list \<Rightarrow> byte list res" where
  "skip_sample use_label _ data =
     rbind (if use_label
            then load_then load_float data (\<lambda>label data.
                 rbind (cassert (f64_eq (f64_of_f32 label) 0 \<or> f64_eq (f64_of_f32 label) f64_one)) (\<lambda>_. Inr data))
            else Inr data) (\<lambda>data.
     load_then load_int data (\<lambda>num_values data.
     rbind (cassert (0 \<le> sint num_values \<and> sint num_values < 1000000)) (\<lambda>_.
     or_ub (advance_ptr (nat (sint num_values) * (4 + 4)) data))))"

text \<open>One minibatch: its start is pushed, the last one with the version of the string.\<close>

definition push_minibatch :: "s3_iter \<Rightarrow> nat \<Rightarrow> nat \<Rightarrow> nat \<Rightarrow> mb_queue \<times> byte list \<Rightarrow> (mb_queue \<times> byte list) res" where
  "push_minibatch it nbytes n_minibatches i = (\<lambda>(q, data).
     let is_last = (if i + 1 = n_minibatches then it_str_version it else - 1)
     in rbind (rfold (skip_sample (it_use_label it)) [0..<unat (it_minibatch_rows it)] data) (\<lambda>data'.
        Inr (q @ [((it_str_version it, nbytes - length data), is_last)], data')))"

text \<open>
  \<open>std::string::c_str()\<close> ends with a zero. \<open>str_version\<close>, which only this thread uses, is incremented
  before the announcements instead of after them.
\<close>

definition push_samples :: "byte list \<Rightarrow> s3_iter \<Rightarrow> s3_iter res" where
  "push_samples obj it =
     rbind (if it_minibatch_rows it = 0 then Inl Undefined_behaviour
            else Inr (unat (it_s3_rows it div it_minibatch_rows it))) (\<lambda>n_minibatches.
       let it = it\<lparr>it_strings := (it_strings it)(it_str_version it \<mapsto> obj)\<rparr>; s3_data = obj @ [0]
       in load_then load_int s3_data (\<lambda>s3_obj_size data.
          load_then load_int data (\<lambda>num_samples data.
          rbind (rfold (push_minibatch it (length s3_data) n_minibatches) [0..<n_minibatches] ([], data)) (\<lambda>(new_queue, _).
          rbind (cb_add new_queue (it_ring it)) (\<lambda>ring.
          if it_str_version it = 2 ^ 31 - 1 then Inl Undefined_behaviour
          else Inr (it\<lparr>it_ring := ring, it_unposted := n_minibatches,
                       it_str_version := it_str_version it + 1\<rparr>))))))"

text \<open>
  One turn of \<open>threadFunction\<close>. The fetch is repeated until it succeeds. \<open>count\<close> is never
  incremented, so the number of passes is always zero and never the limit.
\<close>

definition LIMIT_NUMBER_PASSES :: u64 where "LIMIT_NUMBER_PASSES = 3"

definition it_fetch :: "(nat \<Rightarrow> i32 \<Rightarrow> i32 \<Rightarrow> i32) \<Rightarrow> (u64 \<Rightarrow> byte list) \<Rightarrow> s3_iter \<Rightarrow> s3_iter res" where
  "it_fetch draw s3 it =
     (if it_pref_sem it = 0 then Inl Blocked
      else let (obj_id, it) = get_obj_id draw (it\<lparr>it_pref_sem := it_pref_sem it - 1\<rparr>);
               s3_obj = s3 obj_id; count = (0 :: u64)
           in if it_right_id it - it_left_id it = 0 then Inl Undefined_behaviour
              else let num_passes = count div (it_right_id it - it_left_id it)
                   in if LIMIT_NUMBER_PASSES > 0 \<and> num_passes = LIMIT_NUMBER_PASSES then Inl (Exit_status 0)
                      else push_samples s3_obj it)"

text \<open>One turn of the loop that announces the minibatches of the object just added.\<close>

definition it_post :: "s3_iter \<Rightarrow> s3_iter" where
  "it_post it = it\<lparr>it_num_ready := it_num_ready it + 1, it_semaphore := it_semaphore it + 1,
                   it_unposted := it_unposted it - 1\<rparr>"

definition thread_step :: "(nat \<Rightarrow> i32 \<Rightarrow> i32 \<Rightarrow> i32) \<Rightarrow> (u64 \<Rightarrow> byte list) \<Rightarrow> s3_iter \<Rightarrow> s3_iter res" where
  "thread_step draw s3 it = (if 0 < it_unposted it then Inr (it_post it) else it_fetch draw s3 it)"

text \<open>
  The constructor. The thread runs before the constructor is done, which then, unless the access is
  random, sets \<open>current\<close> without a lock: \<open>early\<close> turns of the thread come before that, each of which
  reads and writes \<open>current\<close> in one step.
\<close>

definition it_new :: "(nat \<Rightarrow> i32 \<Rightarrow> i32 \<Rightarrow> i32) \<Rightarrow> (u64 \<Rightarrow> byte list) \<Rightarrow> nat \<Rightarrow> u64 \<Rightarrow> u64 \<Rightarrow> configuration \<Rightarrow> u64 \<Rightarrow> u64 \<Rightarrow>
    bool \<Rightarrow> bool \<Rightarrow> bool \<Rightarrow> s3_iter res" where
  "it_new draw s3 early left_id right_id c s3_rows minibatch_rows use_label random_access has_labels =
     rbind (it_start left_id right_id c s3_rows minibatch_rows use_label random_access has_labels) (\<lambda>it.
     rbind (rfold (\<lambda>_ it. unless_blocked it (thread_step draw s3 it)) [0..<early] it) (\<lambda>it.
     Inr (if random_access then it else it\<lparr>it_current := left_id\<rparr>)))"

section \<open>The next minibatch\<close>

text \<open>
  \<open>while (front()->size() == 0) pop();\<close> makes at most as many turns as the ring has elements, and
  \<open>front()\<close> of an empty ring throws.
\<close>

fun discard_empty :: "nat \<Rightarrow> 'a list circular_buffer \<Rightarrow> 'a list circular_buffer res" where
  "discard_empty 0 ring = rbind (cb_front_elem ring) (\<lambda>_. Inr ring)"
| "discard_empty (Suc n) ring =
     rbind (cb_front_elem ring) (\<lambda>q.
       if q = [] then rbind (cb_pop ring) (\<lambda>(_, ring). discard_empty n ring) else Inr ring)"

text \<open>\<open>front()->front()\<close> and \<open>front()->pop()\<close> of a queue that is not empty.\<close>

definition pop_front :: "mb_queue circular_buffer \<Rightarrow> ((mb_ptr \<times> int) \<times> mb_queue circular_buffer) res" where
  "pop_front ring =
     rbind (cb_front_elem ring) (\<lambda>q. case q of
       [] \<Rightarrow> Inl Undefined_behaviour
     | x # q' \<Rightarrow> rbind (vec_set (cb_buffer ring) (unat (cb_front ring)) q') (\<lambda>buf. Inr (x, ring\<lparr>cb_buffer := buf\<rparr>)))"

text \<open>The bytes a pointer stands for, while its string exists.\<close>

definition deref :: "(int \<rightharpoonup> byte list) \<Rightarrow> mb_ptr \<Rightarrow> byte list res" where
  "deref strings = (\<lambda>(version, offset). rbind (or_ub (strings version)) (\<lambda>s. Inr (drop offset (s @ [0]))))"

text \<open>The object whose last minibatch was handed out is freed by the call after that.\<close>

definition erase_used :: "s3_iter \<Rightarrow> s3_iter" where
  "erase_used it = (if it_to_delete it \<noteq> - 1 then it\<lparr>it_strings := (it_strings it)(it_to_delete it := None)\<rparr> else it)"

definition signal_pref :: "s3_iter \<Rightarrow> s3_iter" where
  "signal_pref it = (if sint (it_num_ready it) < 200 \<and> it_pref_sem it < read_ahead
                     then it\<lparr>it_pref_sem := it_pref_sem it + 1\<rparr> else it)"

definition get_next :: "s3_iter \<Rightarrow> (sparse_dataset \<times> s3_iter) res" where
  "get_next it =
     (let it = erase_used it
      in if it_semaphore it = 0 then Inl Blocked
         else rbind (discard_empty (unat (cb_size (it_ring it))) (it_ring it)) (\<lambda>ring.
              rbind (pop_front ring) (\<lambda>(ret, ring).
                let it = signal_pref (it\<lparr>it_semaphore := it_semaphore it - 1, it_ring := ring,
                           it_num_ready := it_num_ready it - 1, it_to_delete := snd ret\<rparr>)
                in rbind (get_minibatch_size (it_config it)) (\<lambda>n.
                   rbind (deref (it_strings it) (fst ret)) (\<lambda>data.
                   rbind (sd_load_n data n (it_has_labels it)) (\<lambda>ds. Inr (ds, it)))))))"

section \<open>The minibatches of an object\<close>

lemma skip_sample_bytes:
  assumes "length (fst p) < 1000000" "b \<longrightarrow> label_bit (snd p)"
  shows "skip_sample b k (sample_bytes b p @ rest) = Inr rest"
proof -
  obtain row lab where p: "p = (row, lab)" by (cases p)
  have s: "sint (word_of_nat (length row) :: i32) = int (length row)"
    using assms(1) by (simp add: p signed_of_nat signed_take_bit_int_eq_self)
  have "length (store_many store_entry row) = 8 * length row" by simp
  then have adv: "advance_ptr (length row * 8) (store_many store_entry row @ rest) = Some rest"
    by (simp add: advance_ptr_def mult.commute)
  show ?thesis
    using assms s label_bit_eq[of lab] adv
    by (auto simp: p skip_sample_def sample_bytes_def load_then_def)
qed

definition samples_ok :: "bool \<Rightarrow> (sample \<times> f32) list \<Rightarrow> bool" where
  "samples_ok b ps \<longleftrightarrow> (\<forall>p\<in>set ps. length (fst p) < 1000000 \<and> (b \<longrightarrow> label_bit (snd p)))"

lemma skip_samples_bytes:
  assumes "samples_ok b ps" "length ks = length ps"
  shows "rfold (skip_sample b) ks (store_many (sample_bytes b) ps @ rest) = Inr rest"
  using assms
proof (induction ps arbitrary: ks)
  case (Cons p ps)
  then obtain k ks' where "ks = k # ks'" "length ks' = length ps" by (cases ks) auto
  with Cons show ?case by (simp add: skip_sample_bytes samples_ok_def)
qed simp

text \<open>The \<open>i\<close>-th chunk of \<open>m\<close> samples, and the first \<open>n\<close> of them.\<close>

definition chunk :: "nat \<Rightarrow> 'a list \<Rightarrow> nat \<Rightarrow> 'a list" where
  "chunk m ps i = take m (drop (i * m) ps)"

definition chunks :: "nat \<Rightarrow> nat \<Rightarrow> 'a list \<Rightarrow> 'a list list" where
  "chunks m n ps = map (chunk m ps) [0..<n]"

lemma chunk_split: "drop (i * m) ps = chunk m ps i @ drop (Suc i * m) ps"
proof -
  have "drop (Suc i * m) ps = drop m (drop (i * m) ps)" by (simp add: add.commute)
  then show ?thesis by (simp only: chunk_def append_take_drop_id)
qed

lemma length_chunk: "Suc i * m \<le> length ps \<Longrightarrow> length (chunk m ps i) = m"
  by (simp add: chunk_def)

lemma samples_ok_chunk: "samples_ok b ps \<Longrightarrow> samples_ok b (chunk m ps i)"
  by (auto simp: samples_ok_def chunk_def dest!: in_set_takeD in_set_dropD)

lemma store_many_chunk:
  "store_many (sample_bytes b) (drop (i * m) ps) @ rest =
   store_many (sample_bytes b) (chunk m ps i) @ store_many (sample_bytes b) (drop (Suc i * m) ps) @ rest"
  by (subst chunk_split) (simp add: store_many_def)

text \<open>The offset of the \<open>i\<close>-th minibatch in an object with an 8-byte header, and the queue of an object.\<close>

definition mb_offset :: "bool \<Rightarrow> nat \<Rightarrow> (sample \<times> f32) list \<Rightarrow> nat \<Rightarrow> nat" where
  "mb_offset b m ps i = 8 + length (store_many (sample_bytes b) ps) - length (store_many (sample_bytes b) (drop (i * m) ps))"

definition mb_entry :: "bool \<Rightarrow> nat \<Rightarrow> nat \<Rightarrow> int \<Rightarrow> (sample \<times> f32) list \<Rightarrow> nat \<Rightarrow> mb_ptr \<times> int" where
  "mb_entry b m n v ps i = ((v, mb_offset b m ps i), if i + 1 = n then v else - 1)"

lemma drop_mb_offset:
  assumes "length hdr = 8"
  shows "drop (mb_offset b m ps i) (hdr @ store_many (sample_bytes b) ps @ rest)
    = store_many (sample_bytes b) (drop (i * m) ps) @ rest"
proof -
  have "store_many (sample_bytes b) ps =
      store_many (sample_bytes b) (take (i * m) ps) @ store_many (sample_bytes b) (drop (i * m) ps)"
    by (metis append_take_drop_id concat_append map_append store_many_def)
  then show ?thesis using assms by (simp add: mb_offset_def)
qed

lemma push_loop:
  assumes "samples_ok b ps" "it_use_label it = b" "m = unat (it_minibatch_rows it)" "k * m \<le> length ps"
    and "nbytes = 9 + length (store_many (sample_bytes b) ps)"
  shows "rfold (push_minibatch it nbytes n) [0..<k] ([], store_many (sample_bytes b) ps @ [0])
    = Inr (map (mb_entry b m n (it_str_version it) ps) [0..<k], store_many (sample_bytes b) (drop (k * m) ps) @ [0])"
  using assms(4)
proof (induction k)
  case (Suc k)
  have "rfold (skip_sample b) [0..<m] (store_many (sample_bytes b) (drop (k * m) ps) @ [0])
      = Inr (store_many (sample_bytes b) (drop (Suc k * m) ps) @ [0])"
    using samples_ok_chunk[OF assms(1)] length_chunk[of k m ps] Suc.prems
    by (subst store_many_chunk) (intro skip_samples_bytes, auto)
  then have "push_minibatch it nbytes n k (q, store_many (sample_bytes b) (drop (k * m) ps) @ [0])
    = Inr (q @ [mb_entry b m n (it_str_version it) ps k], store_many (sample_bytes b) (drop (Suc k * m) ps) @ [0])" for q
    using assms(2,3,5) by (simp add: push_minibatch_def mb_entry_def mb_offset_def Let_def)
  with Suc show ?case by (simp add: rfold_append)
qed simp

section \<open>The invariant\<close>

text \<open>
  A block stands for a queue in the ring: the version of its object, the samples in it, and how many
  of its minibatches were taken.
\<close>

type_synonym block = "int \<times> (sample \<times> f32) list \<times> nat"

definition it_mb :: "s3_iter \<Rightarrow> nat" where "it_mb it = unat (it_minibatch_rows it)"
definition it_n :: "s3_iter \<Rightarrow> nat" where "it_n it = unat (it_s3_rows it div it_minibatch_rows it)"

definition block_queue :: "s3_iter \<Rightarrow> block \<Rightarrow> mb_queue" where
  "block_queue it = (\<lambda>(v, ps, k). map (mb_entry (it_use_label it) (it_mb it) (it_n it) v ps) [k..<it_n it])"

definition pending :: "s3_iter \<Rightarrow> block list \<Rightarrow> (sample \<times> f32) list list" where
  "pending it blocks = concat (map (\<lambda>(v, ps, k). map (chunk (it_mb it) ps) [k..<it_n it]) blocks)"

definition block_ok :: "s3_iter \<Rightarrow> block \<Rightarrow> bool" where
  "block_ok it = (\<lambda>(v, ps, k). 0 \<le> v \<and> v < it_str_version it \<and> k \<le> it_n it \<and> samples_ok (it_use_label it) ps
     \<and> it_n it * it_mb it \<le> length ps
     \<and> (k < it_n it \<longrightarrow> v \<noteq> it_to_delete it \<and>
          (\<exists>hdr. length hdr = 8 \<and> it_strings it v = Some (hdr @ store_many (sample_bytes (it_use_label it)) ps))))"

definition live :: "s3_iter \<Rightarrow> block list \<Rightarrow> int set" where
  "live it blocks = {v. \<exists>ps k. (v, ps, k) \<in> set blocks \<and> k < it_n it}"

definition counts_ok :: "s3_iter \<Rightarrow> nat \<Rightarrow> bool" where
  "counts_ok it p \<longleftrightarrow> it_semaphore it + it_unposted it = p \<and> sint (it_num_ready it) = int (it_semaphore it)
     \<and> it_unposted it \<le> it_n it \<and> it_pref_sem it \<le> 1 \<and> (it_pref_sem it = 1 \<longrightarrow> p < 200 + it_n it)
     \<and> p < 200 + 2 * it_n it \<and> (it_pref_sem it = 1 \<or> 0 < p)"

definition ring_ok :: "s3_iter \<Rightarrow> block list \<Rightarrow> bool" where
  "ring_ok it blocks \<longleftrightarrow> cb_wf (it_ring it) \<and> cb_capacity (it_ring it) = 100000
     \<and> cb_contents (it_ring it) = map (block_queue it) blocks"

definition blocks_ok :: "s3_iter \<Rightarrow> block list \<Rightarrow> bool" where
  "blocks_ok it blocks \<longleftrightarrow> (\<forall>x\<in>set blocks. block_ok it x) \<and> (\<forall>x\<in>set (tl blocks). snd (snd x) = 0)
     \<and> distinct (map fst blocks) \<and> dom (it_strings it) \<subseteq> live it blocks \<union> {v. v = it_to_delete it \<and> 0 \<le> v}
     \<and> - 1 \<le> it_to_delete it \<and> it_to_delete it < it_str_version it \<and> 0 \<le> it_str_version it"

definition shape_ok :: "s3_iter \<Rightarrow> bool" where
  "shape_ok it \<longleftrightarrow> 0 < it_mb it \<and> 0 < it_n it \<and> it_n it \<le> 1000000000"

definition it_rel :: "s3_iter \<Rightarrow> block list \<Rightarrow> bool" where
  "it_rel it blocks \<longleftrightarrow> shape_ok it \<and> ring_ok it blocks \<and> blocks_ok it blocks
     \<and> counts_ok it (length (pending it blocks))"

text \<open>What no operation changes.\<close>

definition it_fixed :: "s3_iter \<Rightarrow> u64 \<times> u64 \<times> u64 \<times> u64 \<times> bool \<times> bool \<times> bool \<times> configuration" where
  "it_fixed it = (it_left_id it, it_right_id it, it_s3_rows it, it_minibatch_rows it, it_use_label it,
     it_has_labels it, it_random_access it, it_config it)"

lemma it_start_rel:
  assumes "it_start l r c rows m u ra h = Inr it" "0 < m" "m \<le> rows" "unat (rows div m) \<le> 1000000000"
  shows "it_rel it []" "it_fixed it = (l, r, rows, m, u, h, ra, c)" "it_str_version it = 0" "it_current it = 0"
proof -
  obtain ring where ring: "cb_new ([] :: mb_queue) 100000 = Inr ring" "cb_wf ring" "cb_contents ring = []"
    using cb_new_ok[of 100000 "[] :: mb_queue"] by auto
  then have "cb_capacity ring = 100000" by (auto simp: cb_new_def)
  have "0 < unat m" "unat m \<le> unat rows" using assms(2,3) by (auto simp: word_less_nat_alt word_le_nat_alt)
  then have "0 < unat (rows div m)" by (simp add: unat_div div_greater_zero_iff)
  with ring assms \<open>0 < unat m\<close> \<open>cb_capacity ring = 100000\<close>
  show "it_rel it []" "it_fixed it = (l, r, rows, m, u, h, ra, c)" "it_str_version it = 0" "it_current it = 0"
    by (auto simp: it_start_def it_rel_def it_fixed_def shape_ok_def ring_ok_def blocks_ok_def counts_ok_def
        pending_def it_mb_def it_n_def live_def read_ahead_def)
qed

lemma length_pending: "length (pending it blocks) = (\<Sum>x\<leftarrow>blocks. it_n it - snd (snd x))"
  by (induction blocks) (auto simp: pending_def)

text \<open>The ring never gets near its capacity.\<close>

lemma few_blocks:
  assumes "it_rel it blocks"
  shows "length blocks \<le> 202"
proof (cases blocks)
  case (Cons x bs)
  define n where "n = it_n it"
  have "\<forall>x\<in>set bs. snd (snd x) = 0" using assms Cons by (simp add: it_rel_def blocks_ok_def)
  then have "n * length bs = (\<Sum>x\<leftarrow>bs. n - snd (snd x))" by (induction bs) simp_all
  also have "\<dots> \<le> length (pending it blocks)" by (simp add: length_pending Cons n_def)
  also have "\<dots> < 200 + 2 * n" using assms by (simp add: it_rel_def counts_ok_def n_def)
  also have "\<dots> \<le> n * 202" using assms by (simp add: it_rel_def shape_ok_def n_def)
  finally have "length bs < 202" by simp
  then show ?thesis by (simp add: Cons)
qed simp

lemma same_shape:
  assumes "it_fixed it' = it_fixed it"
  shows "it_mb it' = it_mb it" "it_n it' = it_n it" "block_queue it' = block_queue it"
    "pending it' blocks = pending it blocks" "live it' blocks = live it blocks" "shape_ok it' = shape_ok it"
    "it_use_label it' = it_use_label it"
proof -
  show mn: "it_mb it' = it_mb it" "it_n it' = it_n it" "it_use_label it' = it_use_label it"
    using assms by (auto simp: it_fixed_def it_mb_def it_n_def)
  show "block_queue it' = block_queue it" "pending it' blocks = pending it blocks" "live it' blocks = live it blocks"
    "shape_ok it' = shape_ok it"
    by (simp_all add: block_queue_def pending_def live_def shape_ok_def mn)
qed

lemma sint_incr:
  assumes "sint (x :: i32) = int k" "k < 2 ^ 31 - 1"
  shows "sint (x + 1) = int (Suc k)"
proof -
  have "x = word_of_int (sint x)" by (rule sym) simp
  then have "x = word_of_nat k" by (simp only: assms(1) of_int_of_nat_eq)
  then have "x + 1 = word_of_nat (Suc k)" by (simp add: add.commute)
  then show ?thesis using assms(2)
    by (simp only: signed_of_nat) (simp add: signed_take_bit_int_eq_self)
qed

lemma it_post_rel:
  assumes "it_rel it blocks" "0 < it_unposted it"
  shows "it_rel (it_post it) blocks"
proof -
  note same = same_shape[of "it_post it" it]
  have f: "it_fixed (it_post it) = it_fixed it" by (simp add: it_fixed_def it_post_def)
  have "block_ok (it_post it) x = block_ok it x" for x
    by (cases x) (simp add: block_ok_def it_mb_def it_n_def it_post_def)
  moreover have "it_semaphore it < 2 ^ 31 - 1"
    using assms by (auto simp: it_rel_def counts_ok_def shape_ok_def)
  ultimately show ?thesis
    using assms sint_incr[of "it_num_ready it" "it_semaphore it"]
    unfolding it_rel_def ring_ok_def blocks_ok_def counts_ok_def same[OF f]
    by (auto simp: it_post_def)
qed

lemma load_header:
  assumes "length hdr = 8"
  shows "\<exists>a b. load_int (hdr @ bs) = Some (a, drop 4 hdr @ bs) \<and> load_int (drop 4 hdr @ bs) = Some (b, bs)"
  using assms by (simp add: load_u32_def load_bytes_def)

lemma push_samples_ok:
  assumes m: "0 < it_mb it" and v: "it_str_version it < 2 ^ 31 - 1" and hdr: "length hdr = 8"
    and ps: "samples_ok (it_use_label it) ps" "it_n it * it_mb it \<le> length ps"
    and ring: "ring_ok it blocks" and room: "length blocks < 99999"
    and obj: "obj = hdr @ store_many (sample_bytes (it_use_label it)) ps"
  shows "\<exists>ring'. push_samples obj it = Inr (it\<lparr>it_strings := (it_strings it)(it_str_version it \<mapsto> obj),
      it_ring := ring', it_unposted := it_n it, it_str_version := it_str_version it + 1\<rparr>)
    \<and> ring_ok (it\<lparr>it_ring := ring'\<rparr>) (blocks @ [(it_str_version it, ps, 0)])"
proof -
  let ?it = "it\<lparr>it_strings := (it_strings it)(it_str_version it \<mapsto> obj)\<rparr>"
  let ?q = "block_queue it (it_str_version it, ps, 0)"
  have ne: "it_minibatch_rows it \<noteq> 0" using m by (auto simp: it_mb_def)
  obtain a b where load: "load_int (obj @ [0]) = Some (a, drop 4 hdr @ store_many (sample_bytes (it_use_label it)) ps @ [0])"
    "load_int (drop 4 hdr @ store_many (sample_bytes (it_use_label it)) ps @ [0])
       = Some (b, store_many (sample_bytes (it_use_label it)) ps @ [0])"
    using load_header[OF hdr] unfolding obj append_assoc by blast
  have loop: "rfold (push_minibatch ?it (length (obj @ [0])) (it_n it)) [0..<it_n it]
      ([], store_many (sample_bytes (it_use_label it)) ps @ [0])
    = Inr (?q, store_many (sample_bytes (it_use_label it)) (drop (it_n it * it_mb it) ps) @ [0])"
    using push_loop[OF ps(1), of ?it "it_mb it" "it_n it" "length (obj @ [0])" "it_n it"] ps(2) hdr
    by (simp add: it_mb_def block_queue_def obj)
  have "unat (cb_size (it_ring it)) = length blocks"
    using ring by (simp add: ring_ok_def flip: length_cb_contents)
  then obtain ring' where ring': "cb_add ?q (it_ring it) = Inr ring'" "cb_wf ring'"
    "cb_contents ring' = cb_contents (it_ring it) @ [?q]" "cb_capacity ring' = cb_capacity (it_ring it)"
    using cb_add_spec[of "it_ring it" ?q] ring room by (auto simp: ring_ok_def)
  have "push_samples obj it = Inr (it\<lparr>it_strings := (it_strings it)(it_str_version it \<mapsto> obj),
      it_ring := ring', it_unposted := it_n it, it_str_version := it_str_version it + 1\<rparr>)"
    using ne load loop ring'(1) v by (simp add: push_samples_def it_n_def Let_def)
  moreover have "ring_ok (it\<lparr>it_ring := ring'\<rparr>) (blocks @ [(it_str_version it, ps, 0)])"
    using ring ring' same_shape(3)[of "it\<lparr>it_ring := ring'\<rparr>" it]
    by (simp add: ring_ok_def it_fixed_def)
  ultimately show ?thesis by blast
qed

definition next_id :: "(nat \<Rightarrow> i32 \<Rightarrow> i32 \<Rightarrow> i32) \<Rightarrow> s3_iter \<Rightarrow> u64" where
  "next_id draw it = fst (get_obj_id draw it)"

definition next_current :: "(nat \<Rightarrow> i32 \<Rightarrow> i32 \<Rightarrow> i32) \<Rightarrow> s3_iter \<Rightarrow> u64" where
  "next_current draw it = it_current (snd (get_obj_id draw it))"

lemma get_obj_id_eq:
  "get_obj_id draw (it\<lparr>it_pref_sem := x\<rparr>) =
   (next_id draw it, it\<lparr>it_pref_sem := x, it_current := next_current draw it\<rparr>)"
  by (simp add: get_obj_id_def next_id_def next_current_def Let_def)

lemma pending_append: "pending it (xs @ ys) = pending it xs @ pending it ys"
  by (simp add: pending_def)

lemma blocks_ok_add:
  assumes ok: "blocks_ok it blocks" and n: "0 < it_n it" and hdr: "length hdr = 8"
    and ps: "samples_ok (it_use_label it) ps" "it_n it * it_mb it \<le> length ps"
    and it': "it_fixed it' = it_fixed it" "it_str_version it' = it_str_version it + 1" "it_to_delete it' = it_to_delete it"
      "it_strings it' = (it_strings it)(it_str_version it \<mapsto> hdr @ store_many (sample_bytes (it_use_label it)) ps)"
  shows "blocks_ok it' (blocks @ [(it_str_version it, ps, 0)])"
proof -
  note same = same_shape[OF it'(1)]
  have "block_ok it' x" if "x \<in> set blocks" for x
    using ok that by (cases x) (auto simp: blocks_ok_def block_ok_def same it')
  moreover have "block_ok it' (it_str_version it, ps, 0)"
    using ok ps hdr by (auto simp: block_ok_def blocks_ok_def same it')
  moreover have "it_str_version it \<notin> fst ` set blocks"
    using ok by (fastforce simp: blocks_ok_def block_ok_def)
  moreover have "live it (blocks @ [(it_str_version it, ps, 0)]) = insert (it_str_version it) (live it blocks)"
    using n by (auto simp: live_def)
  ultimately show ?thesis using ok
    unfolding blocks_ok_def same it' by (auto simp: tl_append split: list.splits)
qed

lemma it_fetch_rel:
  assumes rel: "it_rel it blocks" and st: "it_unposted it = 0" "it_pref_sem it \<noteq> 0" "it_str_version it < 2 ^ 31 - 1"
    and lr: "it_left_id it \<noteq> it_right_id it"
    and obj: "s3 (next_id draw it) = hdr @ store_many (sample_bytes (it_use_label it)) ps" "length hdr = 8"
      "samples_ok (it_use_label it) ps" "it_n it * it_mb it \<le> length ps"
  shows "\<exists>it'. it_fetch draw s3 it = Inr it' \<and> it_rel it' (blocks @ [(it_str_version it, ps, 0)])
    \<and> it_fixed it' = it_fixed it \<and> it_str_version it' = it_str_version it + 1
    \<and> it_current it' = next_current draw it \<and> it_semaphore it' = it_semaphore it \<and> it_unposted it' = it_n it
    \<and> it_pref_sem it' = it_pref_sem it - 1"
proof -
  define it1 where "it1 = it\<lparr>it_pref_sem := it_pref_sem it - 1, it_current := next_current draw it\<rparr>"
  have f1: "it_fixed it1 = it_fixed it" by (simp add: it1_def it_fixed_def)
  note same1 = same_shape[OF f1]
  have "ring_ok it1 blocks" "0 < it_mb it1" using rel unfolding it_rel_def ring_ok_def shape_ok_def same1 by (simp_all add: it1_def)
  then obtain ring' where ring': "push_samples (s3 (next_id draw it)) it1 = Inr (it1\<lparr>it_strings := (it_strings it1)(it_str_version it1 \<mapsto> s3 (next_id draw it)),
      it_ring := ring', it_unposted := it_n it1, it_str_version := it_str_version it1 + 1\<rparr>)"
    "ring_ok (it1\<lparr>it_ring := ring'\<rparr>) (blocks @ [(it_str_version it1, ps, 0)])"
    using push_samples_ok[of it1 hdr ps blocks "s3 (next_id draw it)"] st(3) obj few_blocks[OF rel]
    unfolding same1 by (auto simp: it1_def)
  define it' where "it' = it1\<lparr>it_strings := (it_strings it1)(it_str_version it1 \<mapsto> s3 (next_id draw it)),
      it_ring := ring', it_unposted := it_n it1, it_str_version := it_str_version it1 + 1\<rparr>"
  have f: "it_fixed it' = it_fixed it" by (simp add: it'_def it1_def it_fixed_def)
  note same = same_shape[OF f]
  have "ring_ok it' (blocks @ [(it_str_version it, ps, 0)])"
    using ring'(2) same_shape(3)[of "it1\<lparr>it_ring := ring'\<rparr>" it]
    unfolding ring_ok_def same by (simp add: it'_def it1_def it_fixed_def)
  moreover have "blocks_ok it' (blocks @ [(it_str_version it, ps, 0)])"
    using rel obj f by (intro blocks_ok_add) (auto simp: it_rel_def shape_ok_def it'_def it1_def)
  moreover have "counts_ok it' (length (pending it (blocks @ [(it_str_version it, ps, 0)])))"
    using rel st unfolding it_rel_def counts_ok_def pending_append same
    by (auto simp: length_pending shape_ok_def it'_def it1_def it_n_def)
  ultimately have "it_rel it' (blocks @ [(it_str_version it, ps, 0)])"
    using rel unfolding it_rel_def same by blast
  moreover have "it_right_id it - it_left_id it \<noteq> 0" using lr by simp
  then have "it_fetch draw s3 it = Inr it'"
    using ring'(1) st(2) by (simp add: it_fetch_def get_obj_id_eq it1_def it'_def LIMIT_NUMBER_PASSES_def Let_def)
  ultimately show ?thesis using f by (auto simp: it'_def it1_def it_n_def)
qed

lemma discard_empty_ok:
  assumes "cb_wf ring" "\<exists>q\<in>set (cb_contents ring). q \<noteq> []" "length (cb_contents ring) \<le> n"
  shows "\<exists>ring'. discard_empty n ring = Inr ring' \<and> cb_wf ring' \<and> cb_capacity ring' = cb_capacity ring
    \<and> cb_contents ring' = dropWhile (\<lambda>q. q = []) (cb_contents ring)"
  using assms
proof (induction n arbitrary: ring)
  case 0
  then have "cb_contents ring = []" by (simp del: length_cb_contents)
  with 0 show ?case by (simp del: length_cb_contents)
next
  case (Suc n)
  then obtain q qs where qs: "cb_contents ring = q # qs" by (cases "cb_contents ring") auto
  note front = cb_front_hd[OF Suc.prems(1) qs]
  show ?case
  proof (cases "q = []")
    case True
    obtain r1 where r1: "cb_pop ring = Inr (q, r1)" "cb_wf r1" "cb_contents r1 = qs" "cb_capacity r1 = cb_capacity ring"
      using cb_pop_spec[OF Suc.prems(1)] qs by auto
    then show ?thesis using Suc.IH[OF r1(2)] Suc.prems(2,3) front True qs by auto
  next
    case False
    then show ?thesis using front qs Suc.prems(1) by simp
  qed
qed

definition taken :: "s3_iter \<Rightarrow> block \<Rightarrow> bool" where "taken it x \<longleftrightarrow> it_n it \<le> snd (snd x)"

lemma block_queue_empty: "block_queue it x = [] \<longleftrightarrow> taken it x"
  by (cases x) (auto simp: block_queue_def taken_def)

lemma drop_taken_contents:
  "dropWhile (\<lambda>q. q = []) (map (block_queue it) blocks) = map (block_queue it) (dropWhile (taken it) blocks)"
  by (simp add: dropWhile_map comp_def block_queue_empty)

lemma drop_taken_pending: "pending it (dropWhile (taken it) blocks) = pending it blocks"
  by (induction blocks) (auto simp: pending_def taken_def)

lemma drop_taken_live: "live it (dropWhile (taken it) blocks) = live it blocks"
  by (induction blocks) (auto simp: live_def taken_def)

lemma drop_taken_blocks:
  assumes "blocks_ok it blocks"
  shows "blocks_ok it (dropWhile (taken it) blocks)"
proof -
  obtain pre where pre: "blocks = pre @ dropWhile (taken it) blocks" by (metis takeWhile_dropWhile_id)
  define post where "post = dropWhile (taken it) blocks"
  have "set (tl post) \<subseteq> set post" by (cases post) auto
  then have "set (tl post) \<subseteq> set (tl blocks)"
    unfolding pre[folded post_def] by (cases pre) auto
  moreover have "set post \<subseteq> set blocks" "distinct (map fst post)"
    using assms unfolding blocks_ok_def pre[folded post_def] by auto
  moreover have "live it post = live it blocks" by (simp add: post_def drop_taken_live)
  ultimately show ?thesis using assms unfolding post_def[symmetric] by (auto simp: blocks_ok_def)
qed

lemma pending_not_empty: "pending it blocks \<noteq> [] \<longleftrightarrow> (\<exists>x\<in>set blocks. \<not> taken it x)"
  by (force simp: pending_def taken_def)

lemma pop_front_ok:
  assumes "cb_wf ring" "cb_contents ring = (x # q) # qs"
  shows "\<exists>ring'. pop_front ring = Inr (x, ring') \<and> cb_wf ring' \<and> cb_contents ring' = q # qs
    \<and> cb_capacity ring' = cb_capacity ring"
  using assms cb_front_hd[OF assms] cb_front_update[OF assms, of q]
  by (auto simp: pop_front_def cb_wf_def vec_set_def)

text \<open>The ring after the empty queues were discarded and a pointer was taken.\<close>

lemma take_pointer:
  assumes rel: "it_rel it blocks" and ne: "pending it blocks \<noteq> []"
  shows "\<exists>ring ring' v ps k rest. discard_empty (unat (cb_size (it_ring it))) (it_ring it) = Inr ring
    \<and> pop_front ring = Inr (mb_entry (it_use_label it) (it_mb it) (it_n it) v ps k, ring')
    \<and> k < it_n it \<and> dropWhile (taken it) blocks = (v, ps, k) # rest
    \<and> ring_ok (it\<lparr>it_ring := ring'\<rparr>) ((v, ps, Suc k) # rest)"
proof -
  have r: "cb_wf (it_ring it)" "cb_capacity (it_ring it) = 100000" "cb_contents (it_ring it) = map (block_queue it) blocks"
    using rel by (auto simp: it_rel_def ring_ok_def)
  have ex: "\<exists>x\<in>set blocks. \<not> taken it x" using ne pending_not_empty by blast
  then have ne': "dropWhile (taken it) blocks \<noteq> []" by (auto simp: dropWhile_eq_Nil_conv)
  then obtain x rest where x: "dropWhile (taken it) blocks = x # rest" "\<not> taken it x"
    using hd_dropWhile[OF ne'] by (cases "dropWhile (taken it) blocks") auto
  obtain v ps k where "x = (v, ps, k)" by (cases x)
  with x have d: "dropWhile (taken it) blocks = (v, ps, k) # rest" "k < it_n it" by (simp_all add: taken_def)
  have len: "length (cb_contents (it_ring it)) \<le> unat (cb_size (it_ring it))" by simp
  have some: "\<exists>q\<in>set (cb_contents (it_ring it)). q \<noteq> []"
    unfolding r(3) using ex by (simp add: block_queue_empty)
  then obtain ring where ring: "discard_empty (unat (cb_size (it_ring it))) (it_ring it) = Inr ring" "cb_wf ring"
    "cb_capacity ring = 100000" "cb_contents ring = map (block_queue it) ((v, ps, k) # rest)"
    using discard_empty_ok[OF r(1) some len] unfolding r(2,3) drop_taken_contents d(1) by blast
  have "block_queue it (v, ps, k) =
      mb_entry (it_use_label it) (it_mb it) (it_n it) v ps k # block_queue it (v, ps, Suc k)"
    using d(2) by (simp add: block_queue_def upt_conv_Cons)
  then obtain ring' where "pop_front ring = Inr (mb_entry (it_use_label it) (it_mb it) (it_n it) v ps k, ring')"
    "cb_wf ring'" "cb_contents ring' = map (block_queue it) ((v, ps, Suc k) # rest)" "cb_capacity ring' = 100000"
    using pop_front_ok[OF ring(2)] ring(3,4) by fastforce
  then have "pop_front ring = Inr (mb_entry (it_use_label it) (it_mb it) (it_n it) v ps k, ring')
      \<and> ring_ok (it\<lparr>it_ring := ring'\<rparr>) ((v, ps, Suc k) # rest)"
    using same_shape(3)[of "it\<lparr>it_ring := ring'\<rparr>" it] by (simp add: ring_ok_def it_fixed_def)
  with ring(1) d show ?thesis by blast
qed

text \<open>The dataset of a minibatch.\<close>

definition mb_dataset :: "bool \<Rightarrow> (sample \<times> f32) list \<Rightarrow> sparse_dataset" where
  "mb_dataset b g = \<lparr>sd_data = map fst g, sd_labels = (if b then map snd g else []),
     sd_size_bytes = word_of_nat (length (store_many (sample_bytes b) g))\<rparr>"

lemma load_chunk:
  assumes "samples_ok b ps" "Suc k * unat n \<le> length ps"
  shows "sd_load_n (store_many (sample_bytes b) (drop (k * unat n) ps) @ rest) n b = Inr (mb_dataset b (chunk (unat n) ps k))"
proof -
  have "rfold (sd_body_n b) [0..<unat n] ([], [], store_many (sample_bytes b) (drop (k * unat n) ps) @ rest)
      = Inr ([] @ map fst (chunk (unat n) ps k), [] @ (if b then map snd (chunk (unat n) ps k) else []),
             store_many (sample_bytes b) (drop (Suc k * unat n) ps) @ rest)"
    using samples_ok_chunk[OF assms(1)] length_chunk[OF assms(2)]
    by (subst store_many_chunk, intro sd_read_loop_n) (auto simp: samples_ok_def)
  then show ?thesis
    by (simp add: sd_load_n_def mb_dataset_def) (subst chunk_split, simp)
qed

lemma blocks_ok_take:
  assumes ok: "blocks_ok it ((v, ps, k) # rest)" and k: "k < it_n it" and it': "it_fixed it' = it_fixed it"
    "it_str_version it' = it_str_version it" "it_to_delete it' = (if k + 1 = it_n it then v else - 1)"
    "it_strings it' = (if it_to_delete it \<noteq> - 1 then (it_strings it)(it_to_delete it := None) else it_strings it)"
  shows "blocks_ok it' ((v, ps, Suc k) # rest)"
proof -
  note same = same_shape[OF it'(1)]
  have b: "block_ok it (v, ps, k)" "\<forall>x\<in>set rest. block_ok it x \<and> snd (snd x) = 0" "v \<notin> fst ` set rest" "distinct (map fst rest)"
    "dom (it_strings it) \<subseteq> live it ((v, ps, k) # rest) \<union> {v. v = it_to_delete it \<and> 0 \<le> v}"
    using ok by (auto simp: blocks_ok_def)
  have keep: "it_strings it' w = it_strings it w" if "w \<noteq> it_to_delete it" for w
    using that by (simp add: it'(4))
  have "block_ok it' (v, ps, Suc k)"
    using b(1) k keep[of v] by (auto simp: block_ok_def same it')
  moreover have "block_ok it' x" if "x \<in> set rest" for x
  proof -
    obtain w qs j where x: "x = (w, qs, j)" by (cases x)
    have "w \<noteq> v" using b(3) that x by force
    then show ?thesis using b(2) that keep[of w] unfolding x by (fastforce simp: block_ok_def same it')
  qed
  moreover have d: "dom (it_strings it') \<subseteq> live it ((v, ps, k) # rest)"
    using b(5) by (auto simp: it'(4) dom_def split: if_splits)
  have l: "live it ((v, ps, k) # rest) \<subseteq> live it ((v, ps, Suc k) # rest) \<union> {w. w = it_to_delete it' \<and> 0 \<le> w}"
    using k b(1) less_linear[of "Suc k" "it_n it"] by (auto simp: live_def it'(3) block_ok_def)
  moreover have "- 1 \<le> it_to_delete it'" "it_to_delete it' < it_str_version it" "0 \<le> it_str_version it"
    using b(1) by (auto simp: it'(3) block_ok_def)
  ultimately show ?thesis
    using b(2,3,4) subset_trans[OF d l] unfolding blocks_ok_def same it'(2) by simp
qed

lemma sint_decr:
  assumes "sint (x :: i32) = int k" "0 < k"
  shows "sint (x - 1) = int (k - 1)"
proof -
  have "k < 2 ^ 31" using assms(1) sint_lt[of x] by simp
  have "x = word_of_int (sint x)" by (rule sym) simp
  then have "x = word_of_nat k" by (simp only: assms(1) of_int_of_nat_eq)
  then have "x - 1 = word_of_nat (k - 1)" using assms(2) by (cases k) simp_all
  then show ?thesis using \<open>k < 2 ^ 31\<close> assms(2)
    by (simp only: signed_of_nat) (simp add: signed_take_bit_int_eq_self)
qed

lemma get_next_rel:
  assumes rel: "it_rel it blocks" and sem: "0 < it_semaphore it"
    and conf: "get_minibatch_size (it_config it) = Inr (it_minibatch_rows it)" "it_has_labels it = it_use_label it"
  shows "\<exists>it' blocks'. get_next it = Inr (mb_dataset (it_use_label it) (hd (pending it blocks)), it')
    \<and> it_rel it' blocks' \<and> pending it blocks = hd (pending it blocks) # pending it' blocks'
    \<and> it_fixed it' = it_fixed it \<and> it_str_version it' = it_str_version it \<and> it_current it' = it_current it"
proof -
  have cnt: "counts_ok it (length (pending it blocks))" and sh: "shape_ok it" using rel by (auto simp: it_rel_def)
  then have ne: "pending it blocks \<noteq> []" using sem by (auto simp: counts_ok_def)
  from take_pointer[OF rel ne] obtain ring ring' v ps k rest where
    d: "discard_empty (unat (cb_size (it_ring it))) (it_ring it) = Inr ring"
      "pop_front ring = Inr (mb_entry (it_use_label it) (it_mb it) (it_n it) v ps k, ring')"
    and k: "k < it_n it" and dw: "dropWhile (taken it) blocks = (v, ps, k) # rest"
    and rok: "ring_ok (it\<lparr>it_ring := ring'\<rparr>) ((v, ps, Suc k) # rest)" by metis
  have pend: "pending it blocks = chunk (it_mb it) ps k # pending it ((v, ps, Suc k) # rest)"
    using drop_taken_pending[of it blocks] k unfolding dw by (simp add: pending_def upt_conv_Cons)
  have bok: "blocks_ok it ((v, ps, k) # rest)"
    using drop_taken_blocks[of it blocks] rel unfolding dw by (simp add: it_rel_def)
  define strings where "strings = (if it_to_delete it \<noteq> - 1 then (it_strings it)(it_to_delete it := None) else it_strings it)"
  define last where "last = (if k + 1 = it_n it then v else - 1)"
  define pref where "pref = (if sint (it_num_ready it - 1) < 200 \<and> it_pref_sem it < 1 then it_pref_sem it + 1 else it_pref_sem it)"
  define it' where "it' = it\<lparr>it_strings := strings, it_semaphore := it_semaphore it - 1, it_ring := ring',
      it_num_ready := it_num_ready it - 1, it_to_delete := last, it_pref_sem := pref\<rparr>"
  have f: "it_fixed it' = it_fixed it" by (simp add: it'_def it_fixed_def)
  note same = same_shape[OF f]
  obtain hdr where hdr: "length hdr = 8" "it_strings it v = Some (hdr @ store_many (sample_bytes (it_use_label it)) ps)"
    and v: "v \<noteq> it_to_delete it" and ps: "samples_ok (it_use_label it) ps" "it_n it * it_mb it \<le> length ps"
    using bok k by (auto simp: blocks_ok_def block_ok_def)
  have "Suc k * it_mb it \<le> length ps"
    using ps(2) k by (meson Suc_leI le_trans mult_le_mono1)
  then have load: "sd_load_n (store_many (sample_bytes (it_use_label it)) (drop (k * it_mb it) ps) @ [0]) (it_minibatch_rows it)
      (it_use_label it) = Inr (mb_dataset (it_use_label it) (chunk (it_mb it) ps k))"
    using load_chunk[OF ps(1), of k "it_minibatch_rows it"] by (simp add: it_mb_def)
  have "strings v = Some (hdr @ store_many (sample_bytes (it_use_label it)) ps)"
    using v hdr(2) by (simp add: strings_def)
  then have ptr: "deref strings (v, mb_offset (it_use_label it) (it_mb it) ps k)
      = Inr (store_many (sample_bytes (it_use_label it)) (drop (k * it_mb it) ps) @ [0])"
    using drop_mb_offset[OF hdr(1), of "it_use_label it" "it_mb it" ps k "[0]"] by (simp add: deref_def)
  have "erase_used it = it\<lparr>it_strings := strings\<rparr>" by (simp add: erase_used_def strings_def)
  moreover have "signal_pref (it\<lparr>it_strings := strings, it_semaphore := it_semaphore it - 1, it_ring := ring',
      it_num_ready := it_num_ready it - 1, it_to_delete := last\<rparr>) = it'"
    by (simp add: signal_pref_def it'_def pref_def read_ahead_def)
  moreover have "it_config it' = it_config it" "it_has_labels it' = it_has_labels it" "it_strings it' = strings"
    by (simp_all add: it'_def)
  moreover have "mb_entry (it_use_label it) (it_mb it) (it_n it) v ps k = ((v, mb_offset (it_use_label it) (it_mb it) ps k), last)"
    by (simp add: mb_entry_def last_def)
  ultimately have "get_next it = Inr (mb_dataset (it_use_label it) (chunk (it_mb it) ps k), it')"
    using sem d ptr load conf by (simp add: get_next_def)
  moreover have "ring_ok it' ((v, ps, Suc k) # rest)"
    using rok same_shape(3)[of "it\<lparr>it_ring := ring'\<rparr>" it] unfolding ring_ok_def same
    by (simp add: it'_def it_fixed_def)
  moreover have "blocks_ok it' ((v, ps, Suc k) # rest)"
    using bok k f by (rule blocks_ok_take) (simp_all add: it'_def strings_def last_def)
  moreover have "counts_ok it' (length (pending it' ((v, ps, Suc k) # rest)))"
    using cnt sem sint_decr[of "it_num_ready it" "it_semaphore it"]
    unfolding pend counts_ok_def same by (auto simp: it'_def pref_def it_n_def)
  ultimately have g: "get_next it = Inr (mb_dataset (it_use_label it) (chunk (it_mb it) ps k), it')"
    and r: "it_rel it' ((v, ps, Suc k) # rest)"
    using sh unfolding it_rel_def same(6) by blast+
  have "it_str_version it' = it_str_version it" "it_current it' = it_current it" by (simp_all add: it'_def)
  with g r f show ?thesis unfolding pend list.sel same(4)[of "(v, ps, Suc k) # rest", symmetric] by blast
qed

section \<open>Runs of the two threads\<close>

text \<open>A blocked call leaves the state as it is; \<open>out\<close> are the datasets handed out so far.\<close>

datatype turn = Thread_turn | Next_call

fun it_turn :: "(nat \<Rightarrow> i32 \<Rightarrow> i32 \<Rightarrow> i32) \<Rightarrow> (u64 \<Rightarrow> byte list) \<Rightarrow> turn \<Rightarrow> s3_iter \<times> sparse_dataset list \<Rightarrow>
    (s3_iter \<times> sparse_dataset list) res" where
  "it_turn draw s3 Thread_turn (it, out) =
     unless_blocked (it, out) (rbind (thread_step draw s3 it) (\<lambda>it. Inr (it, out)))"
| "it_turn draw s3 Next_call (it, out) =
     unless_blocked (it, out) (rbind (get_next it) (\<lambda>(ds, it). Inr (it, out @ [ds])))"

definition it_run :: "(nat \<Rightarrow> i32 \<Rightarrow> i32 \<Rightarrow> i32) \<Rightarrow> (u64 \<Rightarrow> byte list) \<Rightarrow> turn list \<Rightarrow> s3_iter \<times> sparse_dataset list \<Rightarrow>
    (s3_iter \<times> sparse_dataset list) res" where
  "it_run draw s3 = rfold (it_turn draw s3)"

text \<open>
  How objects are chosen: drawn, in order, or in order but with object 0 first, when the thread was
  ahead of the constructor. The \<open>k\<close>-th object, and its minibatches.
\<close>

datatype access = Drawn | In_order | Zero_first

definition access_of :: "bool \<Rightarrow> nat \<Rightarrow> access" where
  "access_of random_access early = (if random_access then Drawn else if early = 0 then In_order else Zero_first)"

lemma access_of_simps [simp]: "access_of True early = Drawn" "access_of False 0 = In_order"
  "access_of False (Suc k) = Zero_first" "access_of ra early = Drawn \<longleftrightarrow> ra"
  by (auto simp: access_of_def)

definition object_id :: "(nat \<Rightarrow> i32 \<Rightarrow> i32 \<Rightarrow> i32) \<Rightarrow> u64 \<Rightarrow> u64 \<Rightarrow> access \<Rightarrow> nat \<Rightarrow> u64" where
  "object_id draw l r a k = (case a of
       Drawn \<Rightarrow> scast (draw k (ucast l) (ucast (r - 1)))
     | In_order \<Rightarrow> l + word_of_nat (k mod unat (r - l))
     | Zero_first \<Rightarrow> (if k = 0 then 0 else l + word_of_nat ((k - 1) mod unat (r - l))))"

definition minibatches :: "(u64 \<Rightarrow> (sample \<times> f32) list) \<Rightarrow> u64 \<Rightarrow> u64 \<Rightarrow> u64 \<Rightarrow> (sample \<times> f32) list list" where
  "minibatches ps rows m oid = chunks (unat m) (unat (rows div m)) (ps oid)"

definition holds_samples :: "bool \<Rightarrow> nat \<Rightarrow> byte list \<Rightarrow> (sample \<times> f32) list \<Rightarrow> bool" where
  "holds_samples b k obj ps \<longleftrightarrow> samples_ok b ps \<and> k \<le> length ps \<and> 8 \<le> length obj
     \<and> drop 8 obj = store_many (sample_bytes b) ps"

text \<open>
  What is assumed of the draws, as the standard has it, and of the bucket and the sizes: the objects
  that are fetched are there, and the bounds of the draws fit into an \<open>int\<close>.
\<close>

definition uniform_int :: "(nat \<Rightarrow> i32 \<Rightarrow> i32 \<Rightarrow> i32) \<Rightarrow> bool" where
  "uniform_int draw \<longleftrightarrow> (\<forall>k a b. sint a \<le> sint b \<longrightarrow> sint a \<le> sint (draw k a b) \<and> sint (draw k a b) \<le> sint b)"

definition fetched :: "access \<Rightarrow> u64 \<Rightarrow> u64 \<Rightarrow> u64 \<Rightarrow> bool" where
  "fetched a l r oid \<longleftrightarrow> l \<le> oid \<and> oid < r \<or> a = Zero_first \<and> oid = 0"

definition source_ok :: "(nat \<Rightarrow> i32 \<Rightarrow> i32 \<Rightarrow> i32) \<Rightarrow> (u64 \<Rightarrow> byte list) \<Rightarrow> (u64 \<Rightarrow> (sample \<times> f32) list) \<Rightarrow>
    u64 \<Rightarrow> u64 \<Rightarrow> u64 \<Rightarrow> u64 \<Rightarrow> bool \<Rightarrow> access \<Rightarrow> bool" where
  "source_ok draw s3 ps l r rows m b a \<longleftrightarrow>
     l < r \<and> 0 < m \<and> m \<le> rows \<and> unat (rows div m) \<le> 1000000000
     \<and> (a = Drawn \<longrightarrow> r \<le> 2 ^ 31 \<and> uniform_int draw)
     \<and> (\<forall>oid. fetched a l r oid \<longrightarrow> holds_samples b (unat (rows div m) * unat m) (s3 oid) (ps oid))"

lemma in_order_range:
  assumes "l < r"
  shows "l \<le> l + word_of_nat (k mod unat (r - l))" "l + word_of_nat (k mod unat (r - l)) < (r :: u64)"
proof -
  define d where "d = unat (r - l)"
  have d: "d = unat r - unat l" "0 < d" using assms unat_sub[OF less_imp_le[OF assms]] by (simp_all add: d_def word_less_nat_alt)
  have "k mod d < d" using d(2) by simp
  then have u: "unat (word_of_nat (k mod d) :: u64) = k mod d" "unat l + k mod d < unat r"
    using d(1) unat_u64[of r] by (auto simp: unat_of_nat take_bit_nat_eq_self)
  then have "unat (l + word_of_nat (k mod d)) = unat l + k mod d"
    using unat_u64[of r] by (simp add: unat_add_lem[THEN iffD1])
  then show "l \<le> l + word_of_nat (k mod unat (r - l))" "l + word_of_nat (k mod unat (r - l)) < r"
    using u(2) by (simp_all add: d_def word_le_nat_alt word_less_nat_alt)
qed

lemma small_int: "unat (x :: u64) < 2 ^ 31 \<Longrightarrow> sint (ucast x :: i32) = int (unat x)"
proof -
  assume x: "unat x < 2 ^ 31"
  have "(ucast x :: i32) = word_of_nat (unat x)" by (simp add: unsigned_of_nat)
  then show ?thesis using sint_small[OF x] by simp
qed

lemma word_of_int_nat: "0 \<le> k \<Longrightarrow> (word_of_int k :: 'a::len word) = word_of_nat (nat k)"
  by (metis int_nat_eq of_int_of_nat_eq)

lemma int_to_u64:
  assumes "0 \<le> sint (x :: i32)"
  shows "unat (scast x :: u64) = nat (sint x)"
proof -
  have "nat (sint x) < 2 ^ 31" using sint_lt[of x] by simp
  then have "nat (sint x) < 2 ^ 64" by simp
  then have "unat (word_of_nat (nat (sint x)) :: u64) = nat (sint x)"
    by (simp only: unat_of_nat) (simp add: take_bit_nat_eq_self)
  moreover have "(scast x :: u64) = word_of_nat (nat (sint x))" unfolding scast_eq using assms by (rule word_of_int_nat)
  ultimately show ?thesis by simp
qed

lemma drawn_range:
  assumes "uniform_int draw" "l < r" "r \<le> 2 ^ 31"
  shows "l \<le> (scast (draw k (ucast l) (ucast (r - 1))) :: u64)" "(scast (draw k (ucast l) (ucast (r - 1))) :: u64) < r"
proof -
  have e: "unat ((2 :: u64) ^ 31) = 2 ^ 31" by simp
  have r1: "unat r \<le> 2 ^ 31" using assms(3) unfolding word_le_nat_alt e .
  have r2: "unat l < unat r" using assms(2) unfolding word_less_nat_alt .
  note r = r1 r2
  then have "0 < unat r" by simp
  then have pred: "unat (r - 1) = unat r - 1" by (metis unat_1 unat_gt_0 unat_minus_one word_neq_0_conv)
  have s: "sint (ucast l :: i32) = int (unat l)" "sint (ucast (r - 1) :: i32) = int (unat r - 1)"
    using r by (simp_all add: small_int pred)
  define x where "x = draw k (ucast l :: i32) (ucast (r - 1))"
  have "int (unat l) \<le> int (unat r - 1)" using r by linarith
  then have x: "int (unat l) \<le> sint x" "sint x \<le> int (unat r - 1)"
    using assms(1) s unfolding uniform_int_def x_def by metis+
  have "unat (scast x :: u64) = nat (sint x)" using x(1) by (intro int_to_u64) linarith
  then show "l \<le> (scast (draw k (ucast l) (ucast (r - 1))) :: u64)" "(scast (draw k (ucast l) (ucast (r - 1))) :: u64) < r"
    using x r(2) unfolding x_def[symmetric] word_le_nat_alt word_less_nat_alt by linarith+
qed

lemma object_id_range:
  assumes "source_ok draw s3 ps l r rows m b a"
  shows "fetched a l r (object_id draw l r a k)"
proof (cases a)
  case Drawn
  then show ?thesis using assms drawn_range[of draw l r k] by (simp add: source_ok_def fetched_def object_id_def)
qed (use assms in_order_range[of l r] in \<open>auto simp: source_ok_def fetched_def object_id_def\<close>)

lemma object_id_next:
  assumes "l < r"
  shows "(if object_id draw l r In_order k + 1 = r then l else object_id draw l r In_order k + 1) = object_id draw l r In_order (Suc k)"
proof -
  define d where "d = unat (r - l)"
  have d: "0 < d" using assms by (auto simp: d_def unat_gt_0)
  have r: "r = l + word_of_nat d" by (simp add: d_def)
  have "d < 2 ^ 64" using unat_u64[of "r - l"] by (simp add: d_def)
  have "word_of_nat (Suc (k mod d)) = (word_of_nat d :: u64) \<longleftrightarrow> Suc (k mod d) = d"
  proof
    assume eq: "word_of_nat (Suc (k mod d)) = (word_of_nat d :: u64)"
    have "Suc (k mod d) \<le> d" using d by (simp add: Suc_leI)
    then have "unat (word_of_nat (Suc (k mod d)) :: u64) = Suc (k mod d)" "unat (word_of_nat d :: u64) = d"
      using \<open>d < 2 ^ 64\<close> by (simp_all only: unat_of_nat) (simp_all add: take_bit_nat_eq_self)
    then show "Suc (k mod d) = d" using eq by simp
  qed simp
  moreover have "object_id draw l r In_order k + 1 = l + word_of_nat (Suc (k mod d))"
    by (simp add: object_id_def d_def algebra_simps)
  ultimately have "object_id draw l r In_order k + 1 = r \<longleftrightarrow> Suc (k mod d) = d"
    unfolding r by (simp add: add.commute)
  then show ?thesis by (auto simp: object_id_def d_def[symmetric] mod_Suc algebra_simps)
qed

lemma object_id_zero_first: "object_id draw l r Zero_first (Suc k) = object_id draw l r In_order k"
  by (simp add: object_id_def)

lemma object_id_after:
  assumes "l < r" "a = In_order \<or> a = Zero_first \<and> 0 < k"
  shows "(if object_id draw l r a k + 1 = r then l else object_id draw l r a k + 1) = object_id draw l r a (Suc k)"
  using assms(2) object_id_next[OF assms(1), of draw k] object_id_next[OF assms(1), of draw "k - 1"] object_id_zero_first[of draw l r]
  by (cases k) auto

text \<open>The state of a run: what was handed out and what is pending make up what was fetched.\<close>

definition it_inv :: "(nat \<Rightarrow> i32 \<Rightarrow> i32 \<Rightarrow> i32) \<Rightarrow> (u64 \<Rightarrow> (sample \<times> f32) list) \<Rightarrow> configuration \<Rightarrow> u64 \<Rightarrow> u64 \<Rightarrow> u64 \<Rightarrow> u64 \<Rightarrow>
    bool \<Rightarrow> access \<Rightarrow> s3_iter \<Rightarrow> sparse_dataset list \<Rightarrow> block list \<Rightarrow> bool" where
  "it_inv draw ps c l r rows m b a it out blocks \<longleftrightarrow> it_rel it blocks
     \<and> it_fixed it = (l, r, rows, m, b, b, a = Drawn, c)
     \<and> (a = Zero_first \<longrightarrow> 0 < it_str_version it)
     \<and> (a \<noteq> Drawn \<longrightarrow> it_current it = object_id draw l r a (nat (it_str_version it)))
     \<and> map (mb_dataset b) (concat (map (\<lambda>k. minibatches ps rows m (object_id draw l r a k)) [0..<nat (it_str_version it)]))
         = out @ map (mb_dataset b) (pending it blocks)"

text \<open>What a fetch adds.\<close>

lemma fetched_block:
  assumes src: "source_ok draw s3 ps l r rows m b a" and rel: "it_rel it blocks" and fx: "it_fixed it = (l, r, rows, m, b, b, a = Drawn, c)"
    and st: "it_unposted it = 0" "it_pref_sem it \<noteq> 0" "it_str_version it < 2 ^ 31 - 1"
    and oid: "next_id draw it = oid" "fetched a l r oid"
  shows "\<exists>it'. it_fetch draw s3 it = Inr it' \<and> it_rel it' (blocks @ [(it_str_version it, ps oid, 0)])
    \<and> it_fixed it' = it_fixed it \<and> it_str_version it' = it_str_version it + 1
    \<and> it_current it' = next_current draw it \<and> it_semaphore it' = it_semaphore it \<and> 0 < it_unposted it'
    \<and> it_pref_sem it' = it_pref_sem it - 1
    \<and> pending it' (blocks @ [(it_str_version it, ps oid, 0)]) = pending it blocks @ minibatches ps rows m oid"
proof -
  have fld: "it_left_id it = l" "it_right_id it = r" "it_use_label it = b"
    "it_mb it = unat m" "it_n it = unat (rows div m)"
    using fx by (auto simp: it_fixed_def it_mb_def it_n_def)
  have lr: "l < r" using src by (simp add: source_ok_def)
  have "holds_samples b (unat (rows div m) * unat m) (s3 oid) (ps oid)"
    using src oid(2) by (simp add: source_ok_def)
  then have obj: "s3 oid = take 8 (s3 oid) @ store_many (sample_bytes b) (ps oid)" "length (take 8 (s3 oid)) = 8"
    "samples_ok b (ps oid)" "unat (rows div m) * unat m \<le> length (ps oid)"
    unfolding holds_samples_def by (metis append_take_drop_id, auto)
  from it_fetch_rel[OF rel st, of s3 draw "take 8 (s3 oid)" "ps oid"] obj lr obtain it' where
    it': "it_fetch draw s3 it = Inr it'" "it_rel it' (blocks @ [(it_str_version it, ps oid, 0)])"
      "it_fixed it' = it_fixed it" "it_str_version it' = it_str_version it + 1" "it_current it' = next_current draw it"
      "it_semaphore it' = it_semaphore it" "it_unposted it' = it_n it" "it_pref_sem it' = it_pref_sem it - 1"
    unfolding fld oid(1) by auto
  have "pending it' (blocks @ [(it_str_version it, ps oid, 0)]) = pending it blocks @ minibatches ps rows m oid"
    unfolding same_shape(4)[OF it'(3)] pending_append
    by (simp add: pending_def minibatches_def chunks_def fld)
  moreover have "0 < it_n it" using rel by (simp add: it_rel_def shape_ok_def)
  ultimately show ?thesis using it' by auto
qed

lemma inv_fetch:
  assumes src: "source_ok draw s3 ps l r rows m b a" and inv: "it_inv draw ps c l r rows m b a it out blocks"
    and st: "it_unposted it = 0" "it_pref_sem it \<noteq> 0" "it_str_version it < 2 ^ 31 - 1"
  shows "\<exists>it' blocks'. it_fetch draw s3 it = Inr it' \<and> it_inv draw ps c l r rows m b a it' out blocks'
    \<and> it_str_version it' = it_str_version it + 1 \<and> it_semaphore it' = it_semaphore it \<and> 0 < it_unposted it'"
proof -
  have rel: "it_rel it blocks" and fx: "it_fixed it = (l, r, rows, m, b, b, a = Drawn, c)" using inv by (auto simp: it_inv_def)
  define k where "k = nat (it_str_version it)"
  have k: "it_str_version it = int k" "nat (int k + 1) = Suc k"
    using rel by (auto simp: it_rel_def blocks_ok_def k_def)
  have fld: "it_left_id it = l" "it_right_id it = r" "it_random_access it = (a = Drawn)"
    using fx by (auto simp: it_fixed_def)
  have lr: "l < r" using src by (simp add: source_ok_def)
  have nid: "next_id draw it = object_id draw l r a k"
    using inv fld by (cases a) (auto simp: it_inv_def next_id_def get_obj_id_def Let_def object_id_def k(1))
  have "a = In_order \<or> a = Zero_first \<and> 0 < k" if "a \<noteq> Drawn"
    using inv that by (cases a) (auto simp: it_inv_def k(1))
  then have cur: "a \<noteq> Drawn \<Longrightarrow> next_current draw it = object_id draw l r a (Suc k)"
    using inv fld object_id_after[OF lr, of a k draw]
    by (auto simp: it_inv_def next_current_def get_obj_id_def Let_def k(1))
  obtain it' where it': "it_fetch draw s3 it = Inr it'" "it_rel it' (blocks @ [(it_str_version it, ps (object_id draw l r a k), 0)])"
      "it_fixed it' = it_fixed it" "it_str_version it' = it_str_version it + 1" "it_current it' = next_current draw it"
      "it_semaphore it' = it_semaphore it" "0 < it_unposted it'"
      "pending it' (blocks @ [(it_str_version it, ps (object_id draw l r a k), 0)])
        = pending it blocks @ minibatches ps rows m (object_id draw l r a k)"
    using fetched_block[OF src rel fx st nid object_id_range[OF src]] by blast
  then have "it_inv draw ps c l r rows m b a it' out (blocks @ [(it_str_version it, ps (object_id draw l r a k), 0)])"
    using inv cur by (simp add: it_inv_def k)
  with it' show ?thesis by auto
qed

text \<open>The constructor establishes the invariant, however far the thread is by then.\<close>

lemma early_turns:
  assumes src: "source_ok draw s3 ps l r rows m b (access_of ra early)" and start: "it_start l r c rows m b ra b = Inr it0"
    and early: "early = Suc k" and oid: "oid = object_id draw l r (access_of ra early) 0"
  shows "\<exists>it. rfold (\<lambda>_ it. unless_blocked it (thread_step draw s3 it)) [0..<early] it0 = Inr it
    \<and> it_rel it [(0, ps oid, 0)] \<and> it_fixed it = (l, r, rows, m, b, b, ra, c) \<and> it_str_version it = 1 \<and> it_pref_sem it = 0
    \<and> pending it [(0, ps oid, 0)] = minibatches ps rows m oid"
  unfolding early
proof (induction k)
  case 0
  have m: "0 < m" "m \<le> rows" "unat (rows div m) \<le> 1000000000" using src by (auto simp: source_ok_def)
  note s = it_start_rel[OF start m]
  have p: "it_pref_sem it0 = 1" "it_unposted it0 = 0"
    using start by (auto simp: it_start_def read_ahead_def)
  have fx: "it_fixed it0 = (l, r, rows, m, b, b, access_of ra early = Drawn, c)" using s(2) by simp
  have "next_id draw it0 = oid"
    using s unfolding oid early by (cases ra) (auto simp: next_id_def get_obj_id_def it_fixed_def object_id_def Let_def)
  from fetched_block[OF src s(1) fx p(2) _ _ this] obtain it1 where it1: "it_fetch draw s3 it0 = Inr it1"
    "it_rel it1 [(0, ps oid, 0)]" "it_fixed it1 = it_fixed it0" "it_str_version it1 = 1" "0 < it_unposted it1"
    "pending it1 [(0, ps oid, 0)] = minibatches ps rows m oid" "it_pref_sem it1 = 0"
    using p(1) s(3) object_id_range[OF src, of 0] unfolding oid by (auto simp: pending_def)
  show ?case using it1 s(2) p(2)
    by (intro exI[of _ it1]) (simp add: thread_step_def unless_blocked_def)
next
  case (Suc k)
  then obtain it where it: "rfold (\<lambda>_ it. unless_blocked it (thread_step draw s3 it)) [0..<Suc k] it0 = Inr it"
    "it_rel it [(0, ps oid, 0)]" "it_fixed it = (l, r, rows, m, b, b, ra, c)" "it_str_version it = 1" "it_pref_sem it = 0"
    "pending it [(0, ps oid, 0)] = minibatches ps rows m oid" by blast
  show ?case
  proof (cases "it_unposted it = 0")
    case True
    then have "unless_blocked it (thread_step draw s3 it) = Inr it"
      using it(5) by (simp add: thread_step_def it_fetch_def unless_blocked_def)
    then have "rfold (\<lambda>_ it. unless_blocked it (thread_step draw s3 it)) ([0..<Suc k] @ [Suc k]) it0 = Inr it"
      using it(1) unfolding rfold_append by simp
    then show ?thesis using it(2-) by (intro exI[of _ it]) simp
  next
    case False
    have f: "it_fixed (it_post it) = it_fixed it" by (simp add: it_fixed_def it_post_def)
    have "unless_blocked it (thread_step draw s3 it) = Inr (it_post it)"
      using False by (simp add: thread_step_def unless_blocked_def)
    then have "rfold (\<lambda>_ it. unless_blocked it (thread_step draw s3 it)) ([0..<Suc k] @ [Suc k]) it0 = Inr (it_post it)"
      using it(1) unfolding rfold_append by simp
    moreover have "it_str_version (it_post it) = 1" "it_pref_sem (it_post it) = 0" using it(4,5) by (simp_all add: it_post_def)
    ultimately show ?thesis using it(3,6) it_post_rel[OF it(2)] False same_shape(4)[OF f] f
      by (intro exI[of _ "it_post it"]) simp
  qed
qed

lemma it_rel_current: "it_rel (it\<lparr>it_current := x\<rparr>) blocks = it_rel it blocks"
proof -
  have f: "it_fixed (it\<lparr>it_current := x\<rparr>) = it_fixed it" by (simp add: it_fixed_def)
  note same = same_shape[OF f]
  have "block_ok (it\<lparr>it_current := x\<rparr>) y = block_ok it y" for y by (cases y) (simp add: block_ok_def same)
  then show ?thesis by (simp add: it_rel_def ring_ok_def blocks_ok_def counts_ok_def same)
qed

lemma inv_start:
  assumes src: "source_ok draw s3 ps l r rows m b (access_of ra early)"
    and new: "it_new draw s3 early l r c rows m b ra b = Inr it"
  shows "\<exists>blocks. it_inv draw ps c l r rows m b (access_of ra early) it [] blocks" "it_str_version it = int (min early 1)"
proof -
  have m: "0 < m" "m \<le> rows" "unat (rows div m) \<le> 1000000000" using src by (auto simp: source_ok_def)
  obtain it0 it1 where 0: "it_start l r c rows m b ra b = Inr it0"
    "rfold (\<lambda>_ it. unless_blocked it (thread_step draw s3 it)) [0..<early] it0 = Inr it1"
    "it = (if ra then it1 else it1\<lparr>it_current := l\<rparr>)" using new by (auto simp: it_new_def)
  note s = it_start_rel[OF 0(1) m]
  have "(\<exists>blocks. it_inv draw ps c l r rows m b (access_of ra early) it [] blocks) \<and> it_str_version it = int (min early 1)"
  proof (cases early)
    case 0
    then show ?thesis using s \<open>it = _\<close> \<open>rfold _ _ _ = _\<close>
      by (intro conjI exI[of _ "[]"]) (auto simp: it_inv_def object_id_def pending_def it_rel_current it_fixed_def access_of_def)
  next
    case (Suc k)
    define oid where "oid = object_id draw l r (access_of ra early) 0"
    from early_turns[OF src 0(1) Suc oid_def] 0(2) have
      e: "it_rel it1 [(0, ps oid, 0)]" "it_fixed it1 = (l, r, rows, m, b, b, ra, c)" "it_str_version it1 = 1"
      "pending it1 [(0, ps oid, 0)] = minibatches ps rows m oid" by auto
    have f: "it_fixed it = it_fixed it1" by (simp add: 0(3) it_fixed_def)
    have "it_rel it [(0, ps oid, 0)]" "it_str_version it = 1" "it_current it = l \<or> ra"
      using e by (auto simp: 0(3) it_rel_current)
    moreover have "object_id draw l r (access_of ra early) (Suc 0) = l \<or> ra"
      by (cases ra) (simp_all add: Suc object_id_def)
    ultimately show ?thesis using e(2,4) f same_shape(4)[OF f, of "[(0, ps oid, 0)]"] Suc
      by (intro conjI exI[of _ "[(0, ps oid, 0)]"]) (auto simp: it_inv_def oid_def access_of_def)
  qed
  then show "\<exists>blocks. it_inv draw ps c l r rows m b (access_of ra early) it [] blocks" "it_str_version it = int (min early 1)" by blast+
qed

lemma it_new_ok:
  assumes src: "source_ok draw s3 ps l r rows m b (access_of ra early)"
  shows "\<exists>it. it_new draw s3 early l r c rows m b ra b = Inr it"
proof -
  obtain it0 where 0: "it_start l r c rows m b ra b = Inr it0" by (simp add: it_start_def cb_new_def)
  show ?thesis
  proof (cases early)
    case (Suc k)
    from early_turns[OF src 0 Suc refl] 0 show ?thesis by (auto simp: it_new_def)
  qed (simp add: it_new_def 0)
qed

lemma inv_post:
  assumes "it_inv draw ps c l r rows m b a it out blocks" "0 < it_unposted it"
  shows "it_inv draw ps c l r rows m b a (it_post it) out blocks"
proof -
  have f: "it_fixed (it_post it) = it_fixed it" by (simp add: it_fixed_def it_post_def)
  show ?thesis using assms it_post_rel[of it blocks] unfolding it_inv_def f same_shape(4)[OF f]
    by (simp add: it_post_def)
qed

lemma inv_next:
  assumes inv: "it_inv draw ps c l r rows m b a it out blocks" and sem: "0 < it_semaphore it"
    and conf: "get_minibatch_size c = Inr m"
  shows "\<exists>ds it' blocks'. get_next it = Inr (ds, it') \<and> it_inv draw ps c l r rows m b a it' (out @ [ds]) blocks'
    \<and> it_str_version it' = it_str_version it"
proof -
  have rel: "it_rel it blocks" and fx: "it_fixed it = (l, r, rows, m, b, b, a = Drawn, c)" using inv by (auto simp: it_inv_def)
  have fld: "it_use_label it = b" "it_has_labels it = b" "it_config it = c" "it_minibatch_rows it = m"
    using fx by (simp_all add: it_fixed_def)
  define g where "g = hd (pending it blocks)"
  from get_next_rel[OF rel sem] conf obtain it' blocks' where n: "get_next it = Inr (mb_dataset b g, it')"
    "it_rel it' blocks'" "pending it blocks = g # pending it' blocks'"
    "it_fixed it' = it_fixed it" "it_str_version it' = it_str_version it" "it_current it' = it_current it"
    unfolding fld g_def by blast
  then have "it_inv draw ps c l r rows m b a it' (out @ [mb_dataset b g]) blocks'"
    using inv by (simp add: it_inv_def)
  with n show ?thesis by blast
qed

lemma thread_turn_inv:
  assumes src: "source_ok draw s3 ps l r rows m b a" and inv: "it_inv draw ps c l r rows m b a it out blocks"
    and v: "it_str_version it < 2 ^ 31 - 1"
  shows "\<exists>it' blocks'. it_turn draw s3 Thread_turn (it, out) = Inr (it', out) \<and> it_inv draw ps c l r rows m b a it' out blocks'
    \<and> it_str_version it' \<le> it_str_version it + 1 \<and> it_semaphore it \<le> it_semaphore it'
    \<and> it_unposted it' + it_semaphore it' \<noteq> 0 \<and> (it_unposted it \<noteq> 0 \<longrightarrow> it_semaphore it' \<noteq> 0)"
proof (cases "it_unposted it = 0")
  case False
  then show ?thesis using inv_post[OF inv]
    by (intro exI[of _ "it_post it"] exI[of _ blocks]) (simp add: thread_step_def unless_blocked_def it_post_def)
next
  case un: True
  show ?thesis
  proof (cases "it_pref_sem it = 0")
    case True
    then show ?thesis using inv un
      by (intro exI[of _ it] exI[of _ blocks])
        (auto simp: thread_step_def it_fetch_def unless_blocked_def it_inv_def it_rel_def counts_ok_def)
  next
    case False
    from inv_fetch[OF src inv un this v] obtain it' blocks' where
      f: "it_fetch draw s3 it = Inr it'" "it_inv draw ps c l r rows m b a it' out blocks'"
      "it_str_version it' = it_str_version it + 1" "it_semaphore it' = it_semaphore it" "0 < it_unposted it'" by blast
    then show ?thesis using un by (auto simp: thread_step_def unless_blocked_def)
  qed
qed

lemma it_turn_inv:
  assumes src: "source_ok draw s3 ps l r rows m b a" and inv: "it_inv draw ps c l r rows m b a it out blocks"
    and v: "it_str_version it < 2 ^ 31 - 1" and conf: "get_minibatch_size c = Inr m"
  shows "\<exists>it' out' blocks'. it_turn draw s3 t (it, out) = Inr (it', out') \<and> it_inv draw ps c l r rows m b a it' out' blocks'
    \<and> it_str_version it' \<le> it_str_version it + 1"
proof (cases t)
  case Thread_turn
  then show ?thesis using thread_turn_inv[OF src inv v] by blast
next
  case Next_call
  show ?thesis
  proof (cases "it_semaphore it = 0")
    case True
    then show ?thesis using inv Next_call
      by (intro exI[of _ it] exI[of _ out] exI[of _ blocks]) (simp add: get_next_def erase_used_def unless_blocked_def)
  next
    case False
    then show ?thesis using inv_next[OF inv _ conf] Next_call by (fastforce simp: unless_blocked_def)
  qed
qed

lemma it_run_inv:
  assumes src: "source_ok draw s3 ps l r rows m b a" and conf: "get_minibatch_size c = Inr m"
    and "it_inv draw ps c l r rows m b a it out blocks" "it_str_version it + int (length acts) < 2 ^ 31"
  shows "\<exists>it' out' blocks'. it_run draw s3 acts (it, out) = Inr (it', out')
    \<and> it_inv draw ps c l r rows m b a it' out' blocks' \<and> it_str_version it' \<le> it_str_version it + int (length acts)"
  using assms(3,4)
proof (induction acts arbitrary: it out blocks)
  case Nil
  then show ?case by (auto simp: it_run_def)
next
  case (Cons t acts)
  have "it_str_version it < 2 ^ 31 - 1" using Cons.prems(2) by simp
  from it_turn_inv[OF src Cons.prems(1) this conf] obtain it1 out1 blocks1 where
    1: "it_turn draw s3 t (it, out) = Inr (it1, out1)" "it_inv draw ps c l r rows m b a it1 out1 blocks1"
      "it_str_version it1 \<le> it_str_version it + 1" by blast
  have "it_str_version it1 + int (length acts) < 2 ^ 31" using 1(3) Cons.prems(2) by simp
  from Cons.IH[OF 1(2) this] 1(1,3) show ?case by (auto simp: it_run_def)
qed

text \<open>An object put together by \<open>build_serialized_s3_obj\<close> is what the iterator expects.\<close>

lemma built_holds_samples:
  assumes "sd_range_ok d (unat l) (unat r) b" "sd_build_s3_obj d l r b = Inr (obj, sz)" "k \<le> unat r - unat l"
  shows "holds_samples b k obj (sd_range d (unat l) (unat r) b)"
proof -
  obtain v where "obj = store_u32 v @ store_u32 (ucast (r - l)) @ store_many (sample_bytes b) (sd_range d (unat l) (unat r) b)"
    using sd_build_ok[OF assms(1)] assms(2) by auto
  then show ?thesis using sd_range_props(1,4)[OF assms(1)] assms(3)
    by (auto simp: holds_samples_def samples_ok_def)
qed

section \<open>What a worker gets\<close>

text \<open>A bucket of two objects with the same two samples, for the instances of the properties.\<close>

definition ex_samples :: "(sample \<times> f32) list" where
  "ex_samples = [([(1, 0x3F800000)], 0x3F800000), ([], 0)]"

definition ex_bucket :: "u64 \<Rightarrow> byte list" where
  "ex_bucket oid = replicate 8 0 @ store_many (sample_bytes True) ex_samples"

definition ex_iter_config :: configuration where
  "ex_iter_config = conf_new\<lparr>cf_minibatch_size := 1\<rparr>"

lemma ex_source: "source_ok (\<lambda>k l r. l) ex_bucket (\<lambda>_. ex_samples) 0 2 2 1 True In_order"
  by (simp add: source_ok_def fetched_def holds_samples_def ex_bucket_def samples_ok_def)
    (simp add: ex_samples_def label_bit_def)

lemma ex_iter: "get_minibatch_size ex_iter_config = Inr 1"
  "\<exists>it0. it_new (\<lambda>k l r. l) ex_bucket 0 0 2 ex_iter_config 2 1 True False True = Inr it0"
  by (simp_all add: get_minibatch_size_def ex_iter_config_def it_new_def it_start_def cb_new_def)

text \<open>
  C13: However the background thread, the constructor and the calls of \<open>getNext\<close> interleave, none fails
  (in particular no freed object is read), and the datasets handed out are, in order and without a gap,
  the minibatches of the objects \<open>object_id 0, 1, ...\<close>: those drawn with random access, otherwise those of the
  range round-robin from \<open>left_id\<close>, but with object 0 before them when the thread was ahead of the
  constructor, which sets \<open>current\<close> after starting it. Every object that is fetched must be in the bucket.
\<close>

theorem s3_iter_minibatches:
  assumes src: "source_ok draw s3 ps l r rows m b (access_of random_access early)" and conf: "get_minibatch_size c = Inr m"
    and start: "it_new draw s3 early l r c rows m b random_access b = Inr it0" and len: "min early 1 + length acts < 2 ^ 31"
  shows "\<exists>it out. it_run draw s3 acts (it0, []) = Inr (it, out)
    \<and> out = map (mb_dataset b) (take (length out)
        (concat (map (\<lambda>k. minibatches ps rows m (object_id draw l r (access_of random_access early) k)) [0..<nat (it_str_version it)])))"
proof -
  obtain blocks0 where start_inv: "it_inv draw ps c l r rows m b (access_of random_access early) it0 [] blocks0"
    using inv_start(1)[OF src start] by blast
  have "it_str_version it0 + int (length acts) < 2 ^ 31" using inv_start(2)[OF src start] len by simp
  from it_run_inv[OF src conf start_inv this] obtain it out blocks where
    "it_run draw s3 acts (it0, []) = Inr (it, out)" "it_inv draw ps c l r rows m b (access_of random_access early) it out blocks" by blast
  then show ?thesis by (auto simp: it_inv_def take_map[symmetric])
qed

theorem s3_iter_minibatches_witness:
  "\<exists>it0. it_new (\<lambda>k l r. l) ex_bucket 0 0 2 ex_iter_config 2 1 True False True = Inr it0 \<and> (\<exists>it out. it_run (\<lambda>k l r. l) ex_bucket [Thread_turn, Thread_turn, Next_call] (it0, []) = Inr (it, out)
    \<and> out = map (mb_dataset True) (take (length out)
        (concat (map (\<lambda>k. minibatches (\<lambda>_. ex_samples) 2 1 (object_id (\<lambda>k l r. l) 0 2 In_order k)) [0..<nat (it_str_version it)]))))"
proof -
  obtain it0 where it0: "it_new (\<lambda>k l r. l) ex_bucket 0 0 2 ex_iter_config 2 1 True False True = Inr it0" using ex_iter(2) by blast
  show ?thesis using s3_iter_minibatches[where random_access = False and early = 0 and acts = "[Thread_turn, Thread_turn, Next_call]", unfolded access_of_simps, OF ex_source ex_iter(1) it0] it0 by auto
qed

text \<open>
  C14: The two threads never wait for each other: after any run, two turns of the background thread
  are enough for \<open>getNext\<close> to return a dataset.
\<close>

theorem s3_iter_progress:
  assumes src: "source_ok draw s3 ps l r rows m b (access_of random_access early)" and conf: "get_minibatch_size c = Inr m"
    and start: "it_new draw s3 early l r c rows m b random_access b = Inr it0" and len: "min early 1 + length acts < 2 ^ 31 - 2"
  shows "\<exists>it out it' ds. it_run draw s3 acts (it0, []) = Inr (it, out)
    \<and> it_run draw s3 [Thread_turn, Thread_turn, Next_call] (it, out) = Inr (it', out @ [ds])"
proof -
  obtain blocks0 where start_inv: "it_inv draw ps c l r rows m b (access_of random_access early) it0 [] blocks0"
    using inv_start(1)[OF src start] by blast
  have "it_str_version it0 + int (length acts) < 2 ^ 31" using inv_start(2)[OF src start] len by simp
  from it_run_inv[OF src conf start_inv this] inv_start(2)[OF src start]
  obtain it out blocks where 0: "it_run draw s3 acts (it0, []) = Inr (it, out)"
    "it_inv draw ps c l r rows m b (access_of random_access early) it out blocks" "it_str_version it \<le> int (min early 1 + length acts)" by auto
  have v: "it_str_version it < 2 ^ 31 - 1" using 0(3) len by simp
  from thread_turn_inv[OF src 0(2) v] obtain it1 b1 where 1: "it_turn draw s3 Thread_turn (it, out) = Inr (it1, out)"
    "it_inv draw ps c l r rows m b (access_of random_access early) it1 out b1" "it_str_version it1 \<le> it_str_version it + 1"
    "it_unposted it1 + it_semaphore it1 \<noteq> 0" by blast
  have v1: "it_str_version it1 < 2 ^ 31 - 1" using 0(3) 1(3) len by simp
  from thread_turn_inv[OF src 1(2) v1] obtain it2 b2 where 2: "it_turn draw s3 Thread_turn (it1, out) = Inr (it2, out)"
    "it_inv draw ps c l r rows m b (access_of random_access early) it2 out b2" "it_semaphore it1 \<le> it_semaphore it2"
    "it_unposted it1 \<noteq> 0 \<longrightarrow> it_semaphore it2 \<noteq> 0" by blast
  have "0 < it_semaphore it2" using 1(4) 2(3,4) by auto
  from inv_next[OF 2(2) this conf] obtain ds it3 where "get_next it2 = Inr (ds, it3)" by blast
  then have "it_turn draw s3 Next_call (it2, out) = Inr (it3, out @ [ds])" by (simp add: unless_blocked_def)
  with 0(1) 1(1) 2(1) have "it_run draw s3 acts (it0, []) = Inr (it, out)
      \<and> it_run draw s3 [Thread_turn, Thread_turn, Next_call] (it, out) = Inr (it3, out @ [ds])"
    by (simp add: it_run_def del: it_turn.simps)
  then show ?thesis by blast
qed

theorem s3_iter_progress_witness:
  "\<exists>it0. it_new (\<lambda>k l r. l) ex_bucket 0 0 2 ex_iter_config 2 1 True False True = Inr it0 \<and> (\<exists>it out it' ds. it_run (\<lambda>k l r. l) ex_bucket [Next_call] (it0, []) = Inr (it, out)
    \<and> it_run (\<lambda>k l r. l) ex_bucket [Thread_turn, Thread_turn, Next_call] (it, out) = Inr (it', out @ [ds]))"
proof -
  obtain it0 where it0: "it_new (\<lambda>k l r. l) ex_bucket 0 0 2 ex_iter_config 2 1 True False True = Inr it0" using ex_iter(2) by blast
  show ?thesis using s3_iter_progress[where random_access = False and early = 0 and acts = "[Next_call]", unfolded access_of_simps, OF ex_source ex_iter(1) it0] it0 by auto
qed

text \<open>
  C15: Objects are freed: however long a run is, at most 203 of the fetched objects are in memory.
\<close>

theorem s3_iter_memory:
  assumes src: "source_ok draw s3 ps l r rows m b (access_of random_access early)" and conf: "get_minibatch_size c = Inr m"
    and start: "it_new draw s3 early l r c rows m b random_access b = Inr it0" and len: "min early 1 + length acts < 2 ^ 31"
  shows "\<exists>it out. it_run draw s3 acts (it0, []) = Inr (it, out)
    \<and> finite (dom (it_strings it)) \<and> card (dom (it_strings it)) \<le> 203"
proof -
  obtain blocks0 where start_inv: "it_inv draw ps c l r rows m b (access_of random_access early) it0 [] blocks0"
    using inv_start(1)[OF src start] by blast
  have "it_str_version it0 + int (length acts) < 2 ^ 31" using inv_start(2)[OF src start] len by simp
  from it_run_inv[OF src conf start_inv this] obtain it out blocks where
    run: "it_run draw s3 acts (it0, []) = Inr (it, out)" and rel: "it_rel it blocks" by (auto simp: it_inv_def)
  have sub: "dom (it_strings it) \<subseteq> insert (it_to_delete it) (fst ` set blocks)"
    using rel by (force simp: it_rel_def blocks_ok_def live_def)
  have "card (insert (it_to_delete it) (fst ` set blocks)) \<le> Suc (card (fst ` set blocks))" by (rule card_insert_le_m1) simp_all
  also have "\<dots> \<le> Suc (length blocks)" by (metis card_image_le card_length finite_set le_trans Suc_le_mono)
  also have "\<dots> \<le> 203" using few_blocks[OF rel] by simp
  finally have "card (insert (it_to_delete it) (fst ` set blocks)) \<le> 203" .
  moreover have fin: "finite (insert (it_to_delete it) (fst ` set blocks))" by simp
  ultimately show ?thesis using run card_mono[OF fin sub] finite_subset[OF sub fin] by force
qed

theorem s3_iter_memory_witness:
  "\<exists>it0. it_new (\<lambda>k l r. l) ex_bucket 0 0 2 ex_iter_config 2 1 True False True = Inr it0 \<and> (\<exists>it out. it_run (\<lambda>k l r. l) ex_bucket [Thread_turn, Next_call, Thread_turn] (it0, []) = Inr (it, out)
    \<and> finite (dom (it_strings it)) \<and> card (dom (it_strings it)) \<le> 203)"
proof -
  obtain it0 where it0: "it_new (\<lambda>k l r. l) ex_bucket 0 0 2 ex_iter_config 2 1 True False True = Inr it0" using ex_iter(2) by blast
  show ?thesis using s3_iter_memory[where random_access = False and early = 0 and acts = "[Thread_turn, Next_call, Thread_turn]", unfolded access_of_simps, OF ex_source ex_iter(1) it0] it0 by auto
qed

end
