(* ===== verification/Socket.thy ===== *)
theory Socket
  imports Bytes
begin

text \<open>
  \<open>read_all\<close> and \<open>send_all\<close> of \<open>Utils.cpp\<close> over a stream socket. A connection, seen from one
  end, is the bytes that still arrive, what happens after them, the bytes sent so far and how
  many more the network takes. The kernel may return any positive number of the bytes asked
  for from each call, so the loops take its choices as an argument; the first result is that
  they do not matter, and the rest of the development uses the loops' values \<open>read_n\<close> and
  \<open>send_n\<close>. A write to a connection that takes nothing more fails with \<open>-1\<close>; that the process
  would receive \<open>SIGPIPE\<close> for it is left out.
\<close>

section \<open>Connections\<close>

datatype stream_end = Idle | Eof | Reset

record conn =
  cn_in :: "byte list"
  cn_end :: stream_end
  cn_out :: "byte list"
  cn_room :: "nat option"
  cn_fd :: bool

text \<open>\<open>read(sock, buf, n)\<close> and \<open>send(sock, buf, n, 0)\<close> for a positive \<open>n\<close>; \<open>None\<close> is \<open>-1\<close>.\<close>

definition sys_read :: "nat \<Rightarrow> nat \<Rightarrow> conn \<Rightarrow> (byte list option \<times> conn) res" where
  "sys_read k n c =
     (if cn_in c = [] then (case cn_end c of Idle \<Rightarrow> Inl Blocked | Eof \<Rightarrow> Inr (Some [], c) | Reset \<Rightarrow> Inr (None, c))
      else let m = max 1 (min k (min n (length (cn_in c))))
           in Inr (Some (take m (cn_in c)), c\<lparr>cn_in := drop m (cn_in c)\<rparr>))"

definition sys_send :: "nat \<Rightarrow> byte list \<Rightarrow> conn \<Rightarrow> nat option \<times> conn" where
  "sys_send k data c =
     (case cn_room c of
        None \<Rightarrow> let m = max 1 (min k (length data)) in (Some m, c\<lparr>cn_out := cn_out c @ take m data\<rparr>)
      | Some room \<Rightarrow>
          if room = 0 then (None, c)
          else let m = max 1 (min k (min room (length data)))
               in (Some m, c\<lparr>cn_out := cn_out c @ take m data, cn_room := Some (room - m)\<rparr>))"

section \<open>The loops\<close>

text \<open>The value returned, the bytes stored at \<open>data\<close> and the connection.\<close>

function read_loop :: "(nat \<Rightarrow> nat) \<Rightarrow> nat \<Rightarrow> nat \<Rightarrow> byte list \<Rightarrow> conn \<Rightarrow> (nat \<times> byte list \<times> conn) res" where
  "read_loop ks i len data c =
     (if length data < len
      then rbind (sys_read (ks i) (len - length data) c) (\<lambda>(retval, c).
           case retval of None \<Rightarrow> Inl (Runtime_error ''Error reading from client. errno: '')
           | Some bs \<Rightarrow> if bs = [] then Inr (0, data, c) else read_loop ks (Suc i) len (data @ bs) c)
      else Inr (length data, data, c))"
  by pat_completeness auto
termination
  by (relation "measure (\<lambda>(ks, i, len, data, c). len - length data)") (auto simp: diff_less_mono2)

definition read_all :: "(nat \<Rightarrow> nat) \<Rightarrow> nat \<Rightarrow> conn \<Rightarrow> (nat \<times> byte list \<times> conn) res" where
  "read_all ks len c = read_loop ks 0 len [] c"

text \<open>The value returned and the connection.\<close>

function send_loop :: "(nat \<Rightarrow> nat) \<Rightarrow> nat \<Rightarrow> nat \<Rightarrow> byte list \<Rightarrow> conn \<Rightarrow> int \<times> conn" where
  "send_loop ks i sent data c =
     (if sent < length data
      then (case sys_send (ks i) (drop sent data) c of
              (None, c) \<Rightarrow> (- 1, c)
            | (Some retval, c) \<Rightarrow> if retval = 0 then (- 1, c) else send_loop ks (Suc i) (sent + retval) data c)
      else (int sent, c))"
  by pat_completeness auto
termination
  by (relation "measure (\<lambda>(ks, i, sent, data, c). length data - sent)") auto

declare read_loop.simps [simp del] send_loop.simps [simp del]

definition send_all :: "(nat \<Rightarrow> nat) \<Rightarrow> byte list \<Rightarrow> conn \<Rightarrow> int \<times> conn" where
  "send_all ks data c = send_loop ks 0 0 data c"

section \<open>Their values\<close>

definition read_n :: "nat \<Rightarrow> conn \<Rightarrow> (nat \<times> byte list \<times> conn) res" where
  "read_n len c =
     (if len \<le> length (cn_in c) then Inr (len, take len (cn_in c), c\<lparr>cn_in := drop len (cn_in c)\<rparr>)
      else case cn_end c of
        Idle \<Rightarrow> Inl Blocked
      | Eof \<Rightarrow> Inr (0, cn_in c, c\<lparr>cn_in := []\<rparr>)
      | Reset \<Rightarrow> Inl (Runtime_error ''Error reading from client. errno: ''))"

definition send_n :: "byte list \<Rightarrow> conn \<Rightarrow> int \<times> conn" where
  "send_n data c =
     (case cn_room c of
        None \<Rightarrow> (int (length data), c\<lparr>cn_out := cn_out c @ data\<rparr>)
      | Some room \<Rightarrow>
          if length data \<le> room
          then (int (length data), c\<lparr>cn_out := cn_out c @ data, cn_room := Some (room - length data)\<rparr>)
          else (- 1, c\<lparr>cn_out := cn_out c @ take room data, cn_room := Some 0\<rparr>))"

lemma read_loop_value:
  assumes "length data \<le> len"
  shows "read_loop ks i len data c =
    (if len - length data \<le> length (cn_in c)
     then Inr (len, data @ take (len - length data) (cn_in c), c\<lparr>cn_in := drop (len - length data) (cn_in c)\<rparr>)
     else case cn_end c of
        Idle \<Rightarrow> Inl Blocked
      | Eof \<Rightarrow> Inr (0, data @ cn_in c, c\<lparr>cn_in := []\<rparr>)
      | Reset \<Rightarrow> Inl (Runtime_error ''Error reading from client. errno: ''))"
  using assms
proof (induction ks i len data c rule: read_loop.induct)
  case (1 ks i len data c)
  show ?case
  proof (cases "length data < len")
    case False
    with 1 show ?thesis by (subst read_loop.simps) simp
  next
    case less: True
    show ?thesis
    proof (cases "cn_in c = []")
      case True
      with less show ?thesis by (subst read_loop.simps) (auto simp: sys_read_def split: stream_end.splits)
    next
      case False
      define m where "m = max 1 (min (ks i) (min (len - length data) (length (cn_in c))))"
      have m: "0 < m" "m \<le> len - length data" "m \<le> length (cn_in c)" using False less by (auto simp: m_def Suc_leI)
      have rd: "sys_read (ks i) (len - length data) c = Inr (Some (take m (cn_in c)), c\<lparr>cn_in := drop m (cn_in c)\<rparr>)"
        using False by (simp add: sys_read_def m_def Let_def)
      have ne: "take m (cn_in c) \<noteq> []" using m False by simp
      have "read_loop ks i len data c = read_loop ks (Suc i) len (data @ take m (cn_in c)) (c\<lparr>cn_in := drop m (cn_in c)\<rparr>)"
        using less ne by (subst read_loop.simps) (simp add: rd)
      also have "\<dots> = (if len - length data \<le> length (cn_in c)
         then Inr (len, data @ take (len - length data) (cn_in c), c\<lparr>cn_in := drop (len - length data) (cn_in c)\<rparr>)
         else case cn_end c of
            Idle \<Rightarrow> Inl Blocked
          | Eof \<Rightarrow> Inr (0, data @ cn_in c, c\<lparr>cn_in := []\<rparr>)
          | Reset \<Rightarrow> Inl (Runtime_error ''Error reading from client. errno: ''))"
        using m ne by (subst "1.IH"[OF less rd refl refl]) (auto simp: min_def take_add[symmetric] split: stream_end.splits)
      finally show ?thesis .
    qed
  qed
qed

text \<open>
  C37: Whatever pieces the kernel hands out, \<open>read_all\<close> returns the bytes asked for in order and
  leaves the rest of the stream, or \<open>0\<close> at its end with the partial data stored; a request for
  zero bytes returns \<open>0\<close> as well.
\<close>

theorem read_all_value: "read_all ks len c = read_n len c"
  by (simp add: read_all_def read_loop_value read_n_def split: stream_end.splits)

lemma send_loop_value:
  assumes "sent \<le> length data"
  shows "send_loop ks i sent data c =
    (case cn_room c of
        None \<Rightarrow> (int (length data), c\<lparr>cn_out := cn_out c @ drop sent data\<rparr>)
      | Some room \<Rightarrow>
          if length data - sent \<le> room
          then (int (length data), c\<lparr>cn_out := cn_out c @ drop sent data, cn_room := Some (room - (length data - sent))\<rparr>)
          else (- 1, c\<lparr>cn_out := cn_out c @ take room (drop sent data), cn_room := Some 0\<rparr>))"
  using assms
proof (induction ks i sent data c rule: send_loop.induct)
  case (1 ks i sent data c)
  show ?case
  proof (cases "sent < length data")
    case False
    with 1 show ?thesis by (subst send_loop.simps) (simp split: option.splits)
  next
    case less: True
    show ?thesis
    proof (cases "cn_room c")
      case None
      define m where "m = max 1 (min (ks i) (length data - sent))"
      define c' where "c' = c\<lparr>cn_out := cn_out c @ take m (drop sent data)\<rparr>"
      have m: "0 < m" "sent + m \<le> length data" using less by (auto simp: m_def)
      have snd: "sys_send (ks i) (drop sent data) c = (Some m, c')"
        using None by (simp add: sys_send_def m_def c'_def Let_def)
      have "send_loop ks i sent data c = send_loop ks (Suc i) (sent + m) data c'"
        using less m by (subst send_loop.simps) (simp add: snd)
      also have "\<dots> = (int (length data), c'\<lparr>cn_out := cn_out c' @ drop (sent + m) data\<rparr>)"
        using m None by (subst "1.IH"[OF less snd[symmetric] refl]) (auto simp: c'_def)
      finally show ?thesis using None m by (simp add: c'_def add.commute flip: drop_drop)
    next
      case (Some room)
      show ?thesis
      proof (cases "room = 0")
        case True
        with Some less show ?thesis by (subst send_loop.simps) (simp add: sys_send_def)
      next
        case False
        define m where "m = max 1 (min (ks i) (min room (length data - sent)))"
        define c' where "c' = c\<lparr>cn_out := cn_out c @ take m (drop sent data), cn_room := Some (room - m)\<rparr>"
        have m: "0 < m" "sent + m \<le> length data" "m \<le> room" using less False by (auto simp: m_def)
        have snd: "sys_send (ks i) (drop sent data) c = (Some m, c')"
          using Some False by (simp add: sys_send_def m_def c'_def Let_def)
        have step: "send_loop ks i sent data c = send_loop ks (Suc i) (sent + m) data c'"
          using less m by (subst send_loop.simps) (simp add: snd)
        have ih: "send_loop ks (Suc i) (sent + m) data c' =
          (if length data - (sent + m) \<le> room - m
           then (int (length data), c'\<lparr>cn_out := cn_out c' @ drop (sent + m) data, cn_room := Some (room - m - (length data - (sent + m)))\<rparr>)
           else (- 1, c'\<lparr>cn_out := cn_out c' @ take (room - m) (drop (sent + m) data), cn_room := Some 0\<rparr>))"
          using m Some by (subst "1.IH"[OF less snd[symmetric] refl]) (auto simp: c'_def)
        have split: "take m (drop sent data) @ drop (sent + m) data = drop sent data"
          by (metis append_take_drop_id add.commute drop_drop)
        have split2: "take m (drop sent data) @ take (room - m) (drop (sent + m) data) = take room (drop sent data)"
          using m by (metis add.commute drop_drop le_add_diff_inverse take_add)
        show ?thesis
          unfolding step ih using m Some split split2 by (auto simp: c'_def)
      qed
    qed
  qed
qed

text \<open>\<open>send_all\<close> sends everything, in order, or reports \<open>-1\<close> once the connection takes no more.\<close>

lemma send_all_value: "send_all ks data c = send_n data c"
  by (simp add: send_all_def send_loop_value send_n_def split: option.splits)

section \<open>Values on the wire\<close>

text \<open>The value of a variable of type \<open>uint32_t\<close>, zero before, after bytes were read into it.\<close>

definition u32_of :: "byte list \<Rightarrow> u32" where
  "u32_of bs = word_of_nat (le_to_nat bs)"

lemma u32_of_store [simp]: "u32_of (store_u32 x) = x"
  using u32.load_store[of x "[]"] by (simp add: u32_of_def load_u32_def load_bytes_def)

lemma read_n_prefix:
  "cn_in c = bs @ r \<Longrightarrow> read_n (length bs) c = Inr (length bs, bs, c\<lparr>cn_in := r\<rparr>)"
  by (simp add: read_n_def)

lemma read_n_u32 [simp]:
  "cn_in c = store_u32 x @ r \<Longrightarrow> read_n 4 c = Inr (4, store_u32 x, c\<lparr>cn_in := r\<rparr>)"
  using read_n_prefix[of c "store_u32 x" r] by simp

text \<open>A connection that accepts everything.\<close>

definition writable :: "conn \<Rightarrow> bool" where
  "writable c \<longleftrightarrow> cn_room c = None"

lemma send_n_ok: "writable c \<Longrightarrow> send_n data c = (int (length data), c\<lparr>cn_out := cn_out c @ data\<rparr>)"
  by (simp add: send_n_def writable_def)

end
