(* ===== verification/Gradient.thy ===== *)
theory Gradient
  imports Bytes CFloat
begin

text \<open>
  \<open>ModelGradient.h\<close> and \<open>ModelGradient.cpp\<close>: the gradients that workers send to the parameter
  server, their serialised forms and their sanity checks. \<open>serialize\<close> returns the bytes it
  writes at \<open>mem\<close>; \<open>loadSerialized\<close> reads the buffer at \<open>mem\<close>, given with everything that
  follows it, into an existing object. Printing is left out.

  An \<open>unordered_map\<close> is a list of its entries in iteration order, with distinct keys.
\<close>

section \<open>Values that are checked\<close>

definition f32_bad :: "f32 \<Rightarrow> bool" where
  "f32_bad x \<longleftrightarrow> f32_isnan x \<or> f32_isinf x"

text \<open>\<open>std::vector::resize\<close> with an \<open>int\<close>: a negative one is a size no vector can have.\<close>

definition vec_new :: "'a \<Rightarrow> i32 \<Rightarrow> 'a list res" where
  "vec_new z d = (if sint d < 0 then Inl (Length_error ''vector::_M_default_append'')
                  else Inr (replicate (nat (sint d)) z))"

section \<open>LRGradient\<close>

record lr_gradient =
  lrg_weights :: "f32 list"
  lrg_version :: u64

definition lrg_new :: "i32 \<Rightarrow> lr_gradient res" where
  "lrg_new d = rbind (vec_new 0 d) (\<lambda>w. Inr \<lparr>lrg_weights = w, lrg_version = 0\<rparr>)"

definition lrg_of_vector :: "f32 list \<Rightarrow> lr_gradient" where
  "lrg_of_vector data = \<lparr>lrg_weights = data, lrg_version = 0\<rparr>"

definition lrg_load :: "byte list \<Rightarrow> lr_gradient \<Rightarrow> lr_gradient res" where
  "lrg_load mem g =
     load_then load_u32 mem (\<lambda>version mem.
     load_then (load_many load_float (length (lrg_weights g))) mem (\<lambda>weights _.
     Inr (g\<lparr>lrg_version := ucast version, lrg_weights := weights\<rparr>)))"

definition lrg_serialize :: "lr_gradient \<Rightarrow> byte list" where
  "lrg_serialize g = store_u32 (ucast (lrg_version g)) @ store_many store_float (lrg_weights g)"

definition lrg_size :: "lr_gradient \<Rightarrow> u64" where
  "lrg_size g = word_of_nat (length (lrg_weights g)) * 4 + 4"

definition lrg_check_values :: "lr_gradient \<Rightarrow> unit res" where
  "lrg_check_values g =
     rcheck (\<lambda>w. guard_rt (\<not> f32_bad w) ''LRGradient::check_values error'') (lrg_weights g)"

section \<open>LRSparseGradient\<close>

record lr_sparse_gradient =
  lrs_weights :: "(i32 \<times> f32) list"
  lrs_version :: u64

definition lrs_new :: "i32 \<Rightarrow> lr_sparse_gradient res" where
  "lrs_new d = rbind (vec_new (0, 0) d) (\<lambda>w. Inr \<lparr>lrs_weights = w, lrs_version = 0\<rparr>)"

definition lrs_of_vector :: "(i32 \<times> f32) list \<Rightarrow> lr_sparse_gradient" where
  "lrs_of_vector data = \<lparr>lrs_weights = data, lrs_version = 0\<rparr>"

text \<open>One turn of the loop: check that the header's size is not exceeded, read an entry, push it.\<close>

definition lrs_body :: "byte list \<Rightarrow> int \<Rightarrow> nat \<Rightarrow> (i32 \<times> f32) list \<times> byte list \<Rightarrow>
    ((i32 \<times> f32) list \<times> byte list) res" where
  "lrs_body data_begin sz i = (\<lambda>(weights, mem).
     rbind (cassert (int (length data_begin - length mem) < sz)) (\<lambda>_.
     load_then load_int mem (\<lambda>index mem.
     load_then load_float mem (\<lambda>w mem.
     Inr (weights @ [(index, w)], mem)))))"

definition lrs_load :: "byte list \<Rightarrow> lr_sparse_gradient \<Rightarrow> lr_sparse_gradient res" where
  "lrs_load mem g =
     load_then load_int mem (\<lambda>version mem.
     load_then load_int mem (\<lambda>num_weights mem.
     rbind (cassert (0 < sint num_weights \<and> sint num_weights < 10000000)) (\<lambda>_.
       let sz = sint num_weights * 8 + 8
       in rbind (rfold (lrs_body mem sz) [0..<nat (sint num_weights)] ([], mem)) (\<lambda>(weights, _).
          Inr (g\<lparr>lrs_version := scast version, lrs_weights := weights\<rparr>)))))"

definition lrs_serialize :: "lr_sparse_gradient \<Rightarrow> byte list" where
  "lrs_serialize g =
     store_int (ucast (lrs_version g)) @ store_int (word_of_nat (length (lrs_weights g))) @
     store_many (\<lambda>(index, v). store_int index @ store_float v) (lrs_weights g)"

definition lrs_size :: "lr_sparse_gradient \<Rightarrow> u64" where
  "lrs_size g = word_of_nat (length (lrs_weights g)) * (4 + 4) + 4 * 2"

definition lrs_check_values :: "lr_sparse_gradient \<Rightarrow> unit res" where
  "lrs_check_values g =
     rcheck (\<lambda>w. guard_rt (\<not> f32_bad (snd w)) ''LRSparseGradient::check_values error'') (lrs_weights g)"

section \<open>SoftmaxGradient and MFGradient\<close>

record softmax_gradient =
  smg_weights :: "f32 list list"
  smg_version :: u64

definition smg_new :: "u64 \<Rightarrow> u64 \<Rightarrow> softmax_gradient" where
  "smg_new nclasses d =
     \<lparr>smg_weights = replicate (unat d) (replicate (unat nclasses) 0), smg_version = 0\<rparr>"

definition smg_of_vector :: "f32 list list \<Rightarrow> softmax_gradient" where
  "smg_of_vector w = \<lparr>smg_weights = w, smg_version = 0\<rparr>"

definition smg_serialize :: "softmax_gradient \<Rightarrow> byte list" where
  "smg_serialize g = store_u32 (ucast (smg_version g)) @ store_many (store_many store_float) (smg_weights g)"

definition smg_size :: "softmax_gradient \<Rightarrow> u64 res" where
  "smg_size g = rbind (vec_get (smg_weights g) 0) (\<lambda>w0.
     Inr (word_of_nat (length (smg_weights g)) * word_of_nat (length w0) * 4 + 4))"

text \<open>The rows are filled in place, each to its current length.\<close>

fun load_rows :: "nat list \<Rightarrow> byte list \<Rightarrow> (f32 list list \<times> byte list) option" where
  "load_rows [] mem = Some ([], mem)"
| "load_rows (n # ns) mem =
     (case load_many load_float n mem of None \<Rightarrow> None
      | Some (v, mem) \<Rightarrow> (case load_rows ns mem of None \<Rightarrow> None
                         | Some (vs, mem) \<Rightarrow> Some (v # vs, mem)))"

definition smg_load :: "byte list \<Rightarrow> softmax_gradient \<Rightarrow> softmax_gradient res" where
  "smg_load mem g =
     load_then load_u32 mem (\<lambda>version mem.
     load_then (load_rows (map length (smg_weights g))) mem (\<lambda>weights _.
     Inr (g\<lparr>smg_version := ucast version, smg_weights := weights\<rparr>)))"

definition smg_check_values :: "softmax_gradient \<Rightarrow> unit res" where
  "smg_check_values g =
     rcheck (rcheck (\<lambda>vv. guard_rt (\<not> f32_bad vv) ''SoftmaxGradient::check_values error'')) (smg_weights g)"

record mf_gradient =
  mfg_weights :: "f32 list list"
  mfg_version :: u64

definition mfg_new :: "u64 \<Rightarrow> u64 \<Rightarrow> mf_gradient" where
  "mfg_new nclasses d =
     \<lparr>mfg_weights = replicate (unat d) (replicate (unat nclasses) 0), mfg_version = 0\<rparr>"

definition mfg_of_vector :: "f32 list list \<Rightarrow> mf_gradient" where
  "mfg_of_vector w = \<lparr>mfg_weights = w, mfg_version = 0\<rparr>"

definition mfg_serialize :: "mf_gradient \<Rightarrow> byte list" where
  "mfg_serialize g = store_u32 (ucast (mfg_version g)) @ store_many (store_many store_float) (mfg_weights g)"

definition mfg_size :: "mf_gradient \<Rightarrow> u64 res" where
  "mfg_size g = rbind (vec_get (mfg_weights g) 0) (\<lambda>w0.
     Inr (word_of_nat (length (mfg_weights g)) * word_of_nat (length w0) * 4 + 4))"

definition mfg_load :: "byte list \<Rightarrow> mf_gradient \<Rightarrow> mf_gradient res" where
  "mfg_load mem g =
     load_then load_u32 mem (\<lambda>version mem.
     load_then (load_rows (map length (mfg_weights g))) mem (\<lambda>weights _.
     Inr (g\<lparr>mfg_version := ucast version, mfg_weights := weights\<rparr>)))"

definition mfg_check_values :: "mf_gradient \<Rightarrow> unit res" where
  "mfg_check_values g =
     rcheck (rcheck (\<lambda>vv. guard_rt (\<not> f32_bad vv) ''MFGradient::check_values error'')) (mfg_weights g)"

section \<open>MFSparseGradient\<close>

definition NUM_FACTORS :: nat where "NUM_FACTORS = 10"
definition MAGIC_NUMBER :: u32 where "MAGIC_NUMBER = 0x1337"

record mf_sparse_gradient =
  users_bias_grad :: "(i32 \<times> f32) list"
  items_bias_grad :: "(i32 \<times> f32) list"
  users_weights_grad :: "(i32 \<times> f32 list) list"
  items_weights_grad :: "(i32 \<times> f32 list) list"

definition msg_new :: mf_sparse_gradient where
  "msg_new = \<lparr>users_bias_grad = [], items_bias_grad = [], users_weights_grad = [],
              items_weights_grad = []\<rparr>"

definition msg_size :: "mf_sparse_gradient \<Rightarrow> u64" where
  "msg_size g = 4 * (2 + 2)
     + word_of_nat (length (users_bias_grad g)) * (4 + 4)
     + word_of_nat (length (items_bias_grad g)) * (4 + 4)
     + word_of_nat (length (users_weights_grad g)) * (4 + word_of_nat NUM_FACTORS * 4)
     + word_of_nat (length (items_weights_grad g)) * (4 + word_of_nat NUM_FACTORS * 4)"

definition store_row :: "i32 \<times> f32 list \<Rightarrow> byte list" where
  "store_row row = store_int (fst row) @ store_many store_float (snd row)"

definition load_row :: "byte list \<Rightarrow> ((i32 \<times> f32 list) \<times> byte list) option" where
  "load_row = load_pair load_int (load_many load_float NUM_FACTORS)"

definition store_weights_grad :: "(i32 \<times> f32 list) list \<Rightarrow> byte list res" where
  "store_weights_grad rows =
     rfold (\<lambda>row mem. rbind (cassert (length (snd row) = NUM_FACTORS)) (\<lambda>_. Inr (mem @ store_row row)))
       rows []"

definition msg_serialize :: "mf_sparse_gradient \<Rightarrow> byte list res" where
  "msg_serialize g =
     (let mem = store_u32 MAGIC_NUMBER @ store_u32 (word_of_nat (length (users_bias_grad g))) @
            store_u32 (word_of_nat (length (items_bias_grad g))) @
            store_many store_entry (users_bias_grad g) @ store_many store_entry (items_bias_grad g)
      in rbind (cassert (length (users_weights_grad g) = length (users_bias_grad g))) (\<lambda>_.
         rbind (store_weights_grad (users_weights_grad g)) (\<lambda>users.
         rbind (cassert (length (items_weights_grad g) = length (items_bias_grad g))) (\<lambda>_.
         rbind (store_weights_grad (items_weights_grad g)) (\<lambda>items.
         Inr (mem @ users @ items @ store_u32 0x1338))))))"

text \<open>\<open>m[k] = v\<close> for every loaded pair, in order.\<close>

definition map_insert_all :: "('k \<times> 'v) list \<Rightarrow> ('k \<times> 'v) list \<Rightarrow> ('k \<times> 'v) list" where
  "map_insert_all kvs m = fold (\<lambda>(k, v). AList.update k v) kvs m"

definition msg_load :: "byte list \<Rightarrow> mf_sparse_gradient \<Rightarrow> mf_sparse_gradient res" where
  "msg_load mem g =
     load_then load_u32 mem (\<lambda>magic_value mem.
     rbind (cassert (magic_value = MAGIC_NUMBER)) (\<lambda>_.
     load_then load_u32 mem (\<lambda>users_size mem.
     load_then load_u32 mem (\<lambda>items_size mem.
     load_then (load_many load_entry (unat users_size)) mem (\<lambda>ub mem.
     load_then (load_many load_entry (unat items_size)) mem (\<lambda>ib mem.
     load_then (load_many load_row (unat users_size)) mem (\<lambda>uw mem.
     load_then (load_many load_row (unat items_size)) mem (\<lambda>iw mem.
     load_then load_u32 mem (\<lambda>magic_value mem.
     rbind (cassert (magic_value = 0x1338)) (\<lambda>_.
     Inr \<lparr>users_bias_grad = map_insert_all ub (users_bias_grad g),
          items_bias_grad = map_insert_all ib (items_bias_grad g),
          users_weights_grad = users_weights_grad g @ uw,
          items_weights_grad = items_weights_grad g @ iw\<rparr>))))))))))"

definition msg_check_values :: "mf_sparse_gradient \<Rightarrow> unit res" where
  "msg_check_values g =
     rbind (rcheck (\<lambda>user. guard_rt (\<not> sint (fst user) < 0) ''Wrong id'') (users_weights_grad g)) (\<lambda>_.
     rcheck (\<lambda>item. guard_rt (\<not> sint (fst item) < 0) ''Wrong id'') (items_weights_grad g))"

definition msg_check :: "mf_sparse_gradient \<Rightarrow> unit res" where
  "msg_check g =
     rbind (cassert (length (users_bias_grad g) = length (users_weights_grad g))) (\<lambda>_.
     cassert (length (items_bias_grad g) = length (items_weights_grad g)))"

text \<open>What a \<open>ModelGradient*\<close> points to.\<close>

datatype model_gradient =
    LRGradient lr_gradient
  | LRSparseGradient lr_sparse_gradient
  | SoftmaxGradient softmax_gradient
  | MFGradient mf_gradient
  | MFSparseGradient mf_sparse_gradient

lemmas gradient_evals [eval_defs] =
  f32_bad_def vec_new_def lrg_new_def lrg_of_vector_def lrg_load_def lrg_serialize_def lrg_size_def
  lrg_check_values_def lrs_new_def lrs_of_vector_def lrs_body_def lrs_load_def lrs_serialize_def lrs_size_def
  lrs_check_values_def smg_new_def smg_of_vector_def smg_serialize_def smg_size_def load_rows.simps
  smg_load_def smg_check_values_def NUM_FACTORS_def MAGIC_NUMBER_def msg_new_def msg_size_def
  store_row_def load_row_def store_weights_grad_def msg_serialize_def map_insert_all_def msg_load_def
  msg_check_values_def msg_check_def

section \<open>Round trips\<close>

lemma load_rows_store:
  "load_rows (map length rows) (store_many (store_many store_u32) rows @ r) = Some (rows, r)"
  by (induction rows) auto

text \<open>A dense LR gradient read into an object of the same size is the one that was written, with the low 32 bits of its version.\<close>

lemma lrg_roundtrip:
  assumes "length (lrg_weights h) = length (lrg_weights g)"
  shows "lrg_load (lrg_serialize g @ r) h =
    Inr \<lparr>lrg_weights = lrg_weights g, lrg_version = ucast (ucast (lrg_version g) :: u32)\<rparr>"
  using assms by (simp add: lrg_load_def lrg_serialize_def)

lemma lrg_roundtrip_example:
  "lrg_load (lrg_serialize \<lparr>lrg_weights = [0x3F800000, 0x40000000], lrg_version = 5\<rparr> @ [7])
     \<lparr>lrg_weights = [0, 0], lrg_version = 0\<rparr>
   = Inr \<lparr>lrg_weights = [0x3F800000, 0x40000000], lrg_version = 5\<rparr>"
  by (subst lrg_roundtrip) simp_all

text \<open>The loop of the sparse loader reads exactly the entries.\<close>

lemma lrs_loop:
  assumes "length data_begin = p + 8 * length ws + length r" "int p + 8 * int (length ws) \<le> sz"
    and "length xs = length ws"
  shows "rfold (lrs_body data_begin sz) xs
    (acc, store_many (\<lambda>(index, v). store_u32 index @ store_u32 v) ws @ r) = Inr (acc @ ws, r)"
  using assms
proof (induction ws arbitrary: xs p acc)
  case (Cons w ws)
  obtain i v where w: "w = (i, v)" by fastforce
  obtain x xs' where xs: "xs = x # xs'" "length xs' = length ws" using Cons.prems(3) by (cases xs) auto
  have len: "length (store_many (\<lambda>(index, v). store_u32 index @ store_u32 v) ws) = 8 * length ws"
    by (rule length_store_many_items) auto
  have "rfold (lrs_body data_begin sz) xs' (acc @ [w], store_many (\<lambda>(index, v). store_u32 index @ store_u32 v) ws @ r)
      = Inr ((acc @ [w]) @ ws, r)"
    using Cons.prems xs by (intro Cons.IH[of "p + 8"]) auto
  moreover have "lrs_body data_begin sz x (acc, store_many (\<lambda>(index, v). store_u32 index @ store_u32 v) (w # ws) @ r)
      = Inr (acc @ [w], store_many (\<lambda>(index, v). store_u32 index @ store_u32 v) ws @ r)"
    using Cons.prems by (simp add: lrs_body_def w len)
  ultimately show ?case by (simp add: xs)
qed simp

text \<open>
  A sparse LR gradient with at least one and fewer than ten million weights is read back
  exactly, whatever bytes follow it and whatever the object held before.
\<close>

lemma lrs_roundtrip:
  assumes "lrs_weights g \<noteq> []" "length (lrs_weights g) < 10000000"
  shows "lrs_load (lrs_serialize g @ r) h =
    Inr (h\<lparr>lrs_version := scast (ucast (lrs_version g) :: i32), lrs_weights := lrs_weights g\<rparr>)"
proof -
  define n where "n = length (lrs_weights g)"
  define body where "body = store_many (\<lambda>(index, v). store_u32 index @ store_u32 v) (lrs_weights g) @ r"
  have n: "sint (word_of_nat n :: i32) = int n" "0 < n" using assms by (auto simp: n_def sint_small)
  have "length (store_many (\<lambda>(index, v). store_u32 index @ store_u32 v) (lrs_weights g)) = 8 * n"
    unfolding n_def by (rule length_store_many_items) auto
  then have "rfold (lrs_body body (int n * 8 + 8)) [0..<n] ([], body) = Inr ([] @ lrs_weights g, r)"
    unfolding body_def by (intro lrs_loop[where p = 0]) (auto simp: n_def)
  then show ?thesis using n assms
    by (simp add: lrs_load_def lrs_serialize_def n_def[symmetric] body_def[symmetric] Let_def)
qed

lemma lrs_roundtrip_example:
  "lrs_load (lrs_serialize \<lparr>lrs_weights = [(3, 0x3F800000), (9, 0x40000000)], lrs_version = 5\<rparr> @ [1])
     \<lparr>lrs_weights = [], lrs_version = 0\<rparr>
   = Inr \<lparr>lrs_weights = [(3, 0x3F800000), (9, 0x40000000)], lrs_version = 5\<rparr>"
  by (subst lrs_roundtrip) simp_all

text \<open>An empty gradient is refused by the reader: its weight count fails the assertion.\<close>

lemma lrs_empty_refused:
  "lrs_weights g = [] \<Longrightarrow> lrs_load (lrs_serialize g @ r) h = Inl Assertion_failed"
  by (simp add: lrs_load_def lrs_serialize_def)

lemma lrs_size_exact:
  assumes "length (lrs_weights g) < 2 ^ 60"
  shows "unat (lrs_size g) = length (lrs_serialize g)"
proof -
  have l: "length (store_many (\<lambda>(index, v). store_u32 index @ store_u32 v) (lrs_weights g)) = 8 * length (lrs_weights g)"
    by (rule length_store_many_items) auto
  have "lrs_size g = word_of_nat (8 * length (lrs_weights g) + 8)" by (simp add: lrs_size_def)
  then show ?thesis using assms l by (simp only: unat_of_nat) (simp add: lrs_serialize_def take_bit_nat_eq_self)
qed

lemma smg_roundtrip:
  "map length (smg_weights h) = map length (smg_weights g) \<Longrightarrow>
   smg_load (smg_serialize g @ r) h =
     Inr \<lparr>smg_weights = smg_weights g, smg_version = ucast (ucast (smg_version g) :: u32)\<rparr>"
  by (simp add: smg_load_def smg_serialize_def load_then_def load_rows_store)

lemma mfg_roundtrip:
  "map length (mfg_weights h) = map length (mfg_weights g) \<Longrightarrow>
   mfg_load (mfg_serialize g @ r) h =
     Inr \<lparr>mfg_weights = mfg_weights g, mfg_version = ucast (ucast (mfg_version g) :: u32)\<rparr>"
  by (simp add: mfg_load_def mfg_serialize_def load_then_def load_rows_store)

text \<open>The matrix factorisation gradient.\<close>

definition msg_wf :: "mf_sparse_gradient \<Rightarrow> bool" where
  "msg_wf g \<longleftrightarrow> distinct (map fst (users_bias_grad g)) \<and> distinct (map fst (items_bias_grad g))
     \<and> length (users_weights_grad g) = length (users_bias_grad g)
     \<and> length (items_weights_grad g) = length (items_bias_grad g)
     \<and> (\<forall>row\<in>set (users_weights_grad g) \<union> set (items_weights_grad g). length (snd row) = NUM_FACTORS)
     \<and> length (users_bias_grad g) < 2 ^ 32 \<and> length (items_bias_grad g) < 2 ^ 32"

lemma load_row_store: "length (snd row) = NUM_FACTORS \<Longrightarrow> load_row (store_row row @ r) = Some (row, r)"
  by (cases row) (simp add: load_row_def store_row_def load_pair_def)

lemma store_weights_grad_ok:
  "\<forall>row\<in>set rows. length (snd row) = NUM_FACTORS \<Longrightarrow>
   store_weights_grad rows = Inr (store_many store_row rows)"
proof -
  have "\<forall>row\<in>set rows. length (snd row) = NUM_FACTORS \<Longrightarrow>
    rfold (\<lambda>row mem. rbind (cassert (length (snd row) = NUM_FACTORS)) (\<lambda>_. Inr (mem @ store_row row))) rows acc
      = Inr (acc @ store_many store_row rows)" for acc
    by (induction rows arbitrary: acc) auto
  then show "\<forall>row\<in>set rows. length (snd row) = NUM_FACTORS \<Longrightarrow> ?thesis"
    by (simp add: store_weights_grad_def)
qed

lemma load_rows_many:
  "\<forall>row\<in>set rows. length (snd row) = NUM_FACTORS \<Longrightarrow> length rows = n \<Longrightarrow>
   load_many load_row n (store_many store_row rows @ r) = Some (rows, r)"
  using load_many_store_items[of rows load_row store_row r] load_row_store by blast

lemma map_insert_all_new:
  "distinct (map fst kvs) \<Longrightarrow> fst ` set kvs \<inter> fst ` set m = {} \<Longrightarrow> map_insert_all kvs m = m @ kvs"
proof (induction kvs arbitrary: m)
  case (Cons p kvs)
  obtain k v where p: "p = (k, v)" by fastforce
  have "k \<notin> fst ` set m" using Cons.prems p by auto
  then have "AList.update k v m = m @ [(k, v)]" by (induction m) auto
  moreover have "map_insert_all kvs (m @ [(k, v)]) = (m @ [(k, v)]) @ kvs"
    using Cons.prems p by (intro Cons.IH) force+
  ultimately show ?case by (simp add: map_insert_all_def p)
qed (simp add: map_insert_all_def)

text \<open>
  A well-formed matrix-factorisation gradient (as many bias entries as weight rows, ten
  factors per row) is serialised without an assertion failing into \<open>getSerializedSize()\<close> bytes,
  and a fresh object reads it back.
\<close>

lemma msg_roundtrip:
  assumes "msg_wf g"
  shows "\<exists>bs. msg_serialize g = Inr bs \<and> unat (msg_size g) = length bs \<and> msg_load (bs @ r) msg_new = Inr g"
proof -
  define nu ni where "nu = length (users_bias_grad g)" and "ni = length (items_bias_grad g)"
  have wf: "distinct (map fst (users_bias_grad g))" "distinct (map fst (items_bias_grad g))"
    "length (users_weights_grad g) = nu" "length (items_weights_grad g) = ni" "nu < 2 ^ 32" "ni < 2 ^ 32"
    and rows: "\<forall>row\<in>set (users_weights_grad g). length (snd row) = NUM_FACTORS"
      "\<forall>row\<in>set (items_weights_grad g). length (snd row) = NUM_FACTORS"
    using assms by (auto simp: msg_wf_def nu_def ni_def)
  define bs where "bs = store_u32 MAGIC_NUMBER @ store_u32 (word_of_nat nu) @ store_u32 (word_of_nat ni) @
     store_many store_entry (users_bias_grad g) @ store_many store_entry (items_bias_grad g) @
     store_many store_row (users_weights_grad g) @ store_many store_row (items_weights_grad g) @ store_u32 0x1338"
  have ser: "msg_serialize g = Inr bs"
    using wf by (simp add: msg_serialize_def bs_def store_weights_grad_ok[OF rows(1)]
        store_weights_grad_ok[OF rows(2)] nu_def[symmetric] ni_def[symmetric])
  have lr: "length (store_many store_row rs) = 44 * length rs"
    if "\<forall>row\<in>set rs. length (snd row) = NUM_FACTORS" for rs
    using that by (intro length_store_many_items) (auto simp: store_row_def NUM_FACTORS_def)
  have len: "length bs = 16 + 8 * nu + 8 * ni + 44 * nu + 44 * ni"
    using wf by (simp add: bs_def lr rows nu_def[symmetric] ni_def[symmetric])
  have "msg_size g = word_of_nat (16 + 8 * nu + 8 * ni + 44 * nu + 44 * ni)"
    using wf by (simp add: msg_size_def NUM_FACTORS_def nu_def[symmetric] ni_def[symmetric])
  then have "unat (msg_size g) = length bs"
    unfolding len using wf by (simp only: unat_of_nat) (simp add: take_bit_nat_eq_self)
  moreover have "unat (word_of_nat nu :: u32) = nu" "unat (word_of_nat ni :: u32) = ni"
    using wf by (auto simp: unat_of_nat take_bit_nat_eq_self)
  then have "msg_load (bs @ r) msg_new = Inr g"
    using wf by (simp add: msg_load_def bs_def load_then_def nu_def[symmetric] ni_def[symmetric]
        load_rows_many[OF rows(1)] load_rows_many[OF rows(2)] map_insert_all_new msg_new_def)
  ultimately show ?thesis using ser by blast
qed

lemma msg_roundtrip_example:
  "let g = \<lparr>users_bias_grad = [(4, 0x3F800000)], items_bias_grad = [],
            users_weights_grad = [(4, replicate 10 0x3F800000)], items_weights_grad = []\<rparr>
   in \<exists>bs. msg_serialize g = Inr bs \<and> unat (msg_size g) = length bs \<and> msg_load (bs @ [0, 1]) msg_new = Inr g"
  unfolding Let_def by (rule msg_roundtrip) (simp add: msg_wf_def NUM_FACTORS_def)

end
