(* ===== verification/Checksum.thy ===== *)
theory Checksum
  imports Bytes CFloat
begin

unbundle bit_operations_syntax

text \<open>
  \<open>Checksum.cpp\<close>: the table-driven CRC-32 that the models, datasets and the parameter server
  print over their buffers, against the bit-by-bit definition of the same code (polynomial
  \<open>0xEDB88320\<close>, reflected). A table lookup per byte is eight bit steps, and the checksum tells
  apart two buffers of the same length that differ in one byte.
\<close>

definition crc32_tab :: "u32 list" where
  "crc32_tab = [
     0x00000000, 0x77073096, 0xee0e612c, 0x990951ba, 0x076dc419, 0x706af48f, 0xe963a535, 0x9e6495a3,
     0x0edb8832, 0x79dcb8a4, 0xe0d5e91e, 0x97d2d988, 0x09b64c2b, 0x7eb17cbd, 0xe7b82d07, 0x90bf1d91,
     0x1db71064, 0x6ab020f2, 0xf3b97148, 0x84be41de, 0x1adad47d, 0x6ddde4eb, 0xf4d4b551, 0x83d385c7,
     0x136c9856, 0x646ba8c0, 0xfd62f97a, 0x8a65c9ec, 0x14015c4f, 0x63066cd9, 0xfa0f3d63, 0x8d080df5,
     0x3b6e20c8, 0x4c69105e, 0xd56041e4, 0xa2677172, 0x3c03e4d1, 0x4b04d447, 0xd20d85fd, 0xa50ab56b,
     0x35b5a8fa, 0x42b2986c, 0xdbbbc9d6, 0xacbcf940, 0x32d86ce3, 0x45df5c75, 0xdcd60dcf, 0xabd13d59,
     0x26d930ac, 0x51de003a, 0xc8d75180, 0xbfd06116, 0x21b4f4b5, 0x56b3c423, 0xcfba9599, 0xb8bda50f,
     0x2802b89e, 0x5f058808, 0xc60cd9b2, 0xb10be924, 0x2f6f7c87, 0x58684c11, 0xc1611dab, 0xb6662d3d,
     0x76dc4190, 0x01db7106, 0x98d220bc, 0xefd5102a, 0x71b18589, 0x06b6b51f, 0x9fbfe4a5, 0xe8b8d433,
     0x7807c9a2, 0x0f00f934, 0x9609a88e, 0xe10e9818, 0x7f6a0dbb, 0x086d3d2d, 0x91646c97, 0xe6635c01,
     0x6b6b51f4, 0x1c6c6162, 0x856530d8, 0xf262004e, 0x6c0695ed, 0x1b01a57b, 0x8208f4c1, 0xf50fc457,
     0x65b0d9c6, 0x12b7e950, 0x8bbeb8ea, 0xfcb9887c, 0x62dd1ddf, 0x15da2d49, 0x8cd37cf3, 0xfbd44c65,
     0x4db26158, 0x3ab551ce, 0xa3bc0074, 0xd4bb30e2, 0x4adfa541, 0x3dd895d7, 0xa4d1c46d, 0xd3d6f4fb,
     0x4369e96a, 0x346ed9fc, 0xad678846, 0xda60b8d0, 0x44042d73, 0x33031de5, 0xaa0a4c5f, 0xdd0d7cc9,
     0x5005713c, 0x270241aa, 0xbe0b1010, 0xc90c2086, 0x5768b525, 0x206f85b3, 0xb966d409, 0xce61e49f,
     0x5edef90e, 0x29d9c998, 0xb0d09822, 0xc7d7a8b4, 0x59b33d17, 0x2eb40d81, 0xb7bd5c3b, 0xc0ba6cad,
     0xedb88320, 0x9abfb3b6, 0x03b6e20c, 0x74b1d29a, 0xead54739, 0x9dd277af, 0x04db2615, 0x73dc1683,
     0xe3630b12, 0x94643b84, 0x0d6d6a3e, 0x7a6a5aa8, 0xe40ecf0b, 0x9309ff9d, 0x0a00ae27, 0x7d079eb1,
     0xf00f9344, 0x8708a3d2, 0x1e01f268, 0x6906c2fe, 0xf762575d, 0x806567cb, 0x196c3671, 0x6e6b06e7,
     0xfed41b76, 0x89d32be0, 0x10da7a5a, 0x67dd4acc, 0xf9b9df6f, 0x8ebeeff9, 0x17b7be43, 0x60b08ed5,
     0xd6d6a3e8, 0xa1d1937e, 0x38d8c2c4, 0x4fdff252, 0xd1bb67f1, 0xa6bc5767, 0x3fb506dd, 0x48b2364b,
     0xd80d2bda, 0xaf0a1b4c, 0x36034af6, 0x41047a60, 0xdf60efc3, 0xa867df55, 0x316e8eef, 0x4669be79,
     0xcb61b38c, 0xbc66831a, 0x256fd2a0, 0x5268e236, 0xcc0c7795, 0xbb0b4703, 0x220216b9, 0x5505262f,
     0xc5ba3bbe, 0xb2bd0b28, 0x2bb45a92, 0x5cb36a04, 0xc2d7ffa7, 0xb5d0cf31, 0x2cd99e8b, 0x5bdeae1d,
     0x9b64c2b0, 0xec63f226, 0x756aa39c, 0x026d930a, 0x9c0906a9, 0xeb0e363f, 0x72076785, 0x05005713,
     0x95bf4a82, 0xe2b87a14, 0x7bb12bae, 0x0cb61b38, 0x92d28e9b, 0xe5d5be0d, 0x7cdcefb7, 0x0bdbdf21,
     0x86d3d2d4, 0xf1d4e242, 0x68ddb3f8, 0x1fda836e, 0x81be16cd, 0xf6b9265b, 0x6fb077e1, 0x18b74777,
     0x88085ae6, 0xff0f6a70, 0x66063bca, 0x11010b5c, 0x8f659eff, 0xf862ae69, 0x616bffd3, 0x166ccf45,
     0xa00ae278, 0xd70dd2ee, 0x4e048354, 0x3903b3c2, 0xa7672661, 0xd06016f7, 0x4969474d, 0x3e6e77db,
     0xaed16a4a, 0xd9d65adc, 0x40df0b66, 0x37d83bf0, 0xa9bcae53, 0xdebb9ec5, 0x47b2cf7f, 0x30b5ffe9,
     0xbdbdf21c, 0xcabac28a, 0x53b39330, 0x24b4a3a6, 0xbad03605, 0xcdd70693, 0x54de5729, 0x23d967bf,
     0xb3667a2e, 0xc4614ab8, 0x5d681b02, 0x2a6f2b94, 0xb40bbe37, 0xc30c8ea1, 0x5a05df1b, 0x2d02ef8d]"

definition crc32_step :: "byte \<Rightarrow> u32 \<Rightarrow> u32" where
  "crc32_step p crc = crc32_tab ! unat ((crc XOR ucast p) AND 0xFF) XOR drop_bit 8 crc"

definition crc32 :: "byte list \<Rightarrow> u32" where
  "crc32 buf = fold crc32_step buf (0 XOR NOT 0) XOR NOT 0"

text \<open>\<open>checksum\<close> converts the 32-bit value to \<open>double\<close>, which holds it exactly.\<close>

definition checksum :: "f32 list \<Rightarrow> f64" where
  "checksum p = f64_of_int (uint (crc32 (store_many store_float p)))"

section \<open>The bit-serial definition\<close>

definition crc_bit :: "u32 \<Rightarrow> u32" where
  "crc_bit x = (if bit x 0 then drop_bit 1 x XOR 0xEDB88320 else drop_bit 1 x)"

definition crc_byte :: "byte \<Rightarrow> u32 \<Rightarrow> u32" where
  "crc_byte p crc = (crc_bit ^^ 8) (crc XOR ucast p)"

definition crc32_bitwise :: "byte list \<Rightarrow> u32" where
  "crc32_bitwise buf = NOT (fold crc_byte buf (NOT 0))"

lemma crc_bit_xor: "crc_bit (x XOR y) = crc_bit x XOR crc_bit y"
  by (auto simp: crc_bit_def bit_xor_iff xor.assoc xor.left_commute xor.commute intro!: bit_word_eqI)

lemma crc_bits_xor: "(crc_bit ^^ n) (x XOR y) = (crc_bit ^^ n) x XOR (crc_bit ^^ n) y"
  by (induction n) (auto simp: crc_bit_xor)

text \<open>Bits above the lowest \<open>n\<close> only move down during \<open>n\<close> steps.\<close>

lemma crc_bits_high: "take_bit n x = 0 \<Longrightarrow> (crc_bit ^^ n) x = drop_bit n x"
proof (induction n arbitrary: x)
  case (Suc n)
  have b: "\<not> bit x 0" using Suc.prems by (metis bit_0_eq bit_take_bit_iff bit_eq_iff zero_less_Suc bot_apply bot_bool_def)
  have "take_bit n (drop_bit 1 x) = drop_bit 1 (take_bit (Suc n) x)"
    by (simp add: drop_bit_take_bit)
  then have "take_bit n (drop_bit 1 x) = 0" using Suc.prems by simp
  then have "(crc_bit ^^ n) (drop_bit 1 x) = drop_bit n (drop_bit 1 x)" by (rule Suc.IH)
  moreover have "crc_bit x = drop_bit 1 x" using b by (simp add: crc_bit_def)
  ultimately show ?case by (simp add: funpow_swap1[symmetric] funpow_Suc_right del: funpow.simps)
qed simp

lemma crc8: "(crc_bit ^^ 8) x = crc_bit (crc_bit (crc_bit (crc_bit (crc_bit (crc_bit (crc_bit (crc_bit x)))))))"
  by (simp add: eval_nat_numeral)

fun crc_tab_from :: "u32 \<Rightarrow> u32 list \<Rightarrow> bool" where
  "crc_tab_from i [] = True"
| "crc_tab_from i (t # ts) = ((crc_bit ^^ 8) i = t \<and> crc_tab_from (i + 1) ts)"

lemma crc_tab_from_nth:
  "crc_tab_from i ts \<Longrightarrow> n < length ts \<Longrightarrow> ts ! n = (crc_bit ^^ 8) (i + word_of_nat n)"
  by (induction ts arbitrary: i n) (auto simp: nth_Cons algebra_simps split: nat.splits)

lemma crc_bit_literals:
  "crc_bit 0 = 0" "crc_bit 1 = 0xEDB88320"
  "crc_bit (numeral k) = (if bit (numeral k :: u32) 0 then drop_bit 1 (numeral k) XOR 0xEDB88320
                          else drop_bit 1 (numeral k))"
  by (simp_all add: crc_bit_def)

lemma crc32_tab_from: "crc_tab_from 0 crc32_tab"
  by (simp add: crc32_tab_def crc8 crc_bit_literals)

lemma length_crc32_tab: "length crc32_tab = 256"
  by (simp add: crc32_tab_def)

lemma crc32_tab_nth: "n < 256 \<Longrightarrow> crc32_tab ! n = (crc_bit ^^ 8) (word_of_nat n)"
  using crc_tab_from_nth[OF crc32_tab_from, of n] by (simp add: length_crc32_tab)

text \<open>The words a step splits into: the low byte, and the rest.\<close>

lemma u32_255: "(0xFF :: u32) = mask 8"
  by (simp add: mask_eq_exp_minus_1)

lemma drop_byte_high: "drop_bit 8 ((crc XOR ucast (p :: byte)) AND NOT 0xFF) = drop_bit 8 (crc :: u32)"
  unfolding u32_255 by (rule bit_word_eqI) (auto simp: bit_simps dest: bit_imp_le_length)

lemma take_byte_high: "take_bit 8 (x AND NOT (0xFF :: u32)) = 0"
  unfolding u32_255 by (rule bit_word_eqI) (auto simp: bit_simps)

lemma byte_split: "(x :: u32) = (x AND 0xFF) XOR (x AND NOT 0xFF)"
  by (rule bit_word_eqI) (auto simp: bit_simps)

lemma crc32_step_eq: "crc32_step p crc = crc_byte p crc"
proof -
  define x where "x = crc XOR (ucast p :: u32)"
  have "x AND 0xFF = take_bit 8 x" by (simp add: u32_255 take_bit_eq_mask)
  then have "unat (x AND 0xFF) < 256"
    using take_bit_nat_less_exp[of 8 "unat x"] by (simp add: unsigned_take_bit_eq)
  then have "crc32_tab ! unat (x AND 0xFF) = (crc_bit ^^ 8) (x AND 0xFF)" by (simp add: crc32_tab_nth)
  moreover have "(crc_bit ^^ 8) (x AND NOT 0xFF) = drop_bit 8 crc"
    using crc_bits_high[OF take_byte_high] drop_byte_high by (simp add: x_def)
  ultimately show ?thesis
    unfolding crc32_step_def crc_byte_def x_def[symmetric]
    by (subst (2) byte_split) (simp only: crc_bits_xor)
qed

text \<open>C40: The table-driven \<open>crc32\<close> is the bit-serial CRC-32 on every buffer.\<close>

theorem crc32_is_crc: "crc32 buf = crc32_bitwise buf"
  by (simp add: crc32_def crc32_bitwise_def crc32_step_eq[abs_def])

section \<open>Error detection\<close>

definition crc_unbit :: "u32 \<Rightarrow> u32" where
  "crc_unbit y = (if bit y 31 then push_bit 1 (y XOR 0xEDB88320) OR 1 else push_bit 1 y)"

lemma bit_poly_31: "bit (0xEDB88320 :: u32) 31"
  by simp

lemma push_drop_1: "push_bit 1 (drop_bit 1 x) = (if bit x 0 then x XOR 1 else (x :: u32))"
proof (rule bit_word_eqI)
  fix n assume n: "n < LENGTH(32)"
  have "bit (push_bit 1 (drop_bit 1 x)) n \<longleftrightarrow> 0 < n \<and> bit x n"
    using n by (cases n) (simp_all only: bit_push_bit_iff bit_drop_bit_eq, auto)
  moreover have "bit (x XOR 1) n \<longleftrightarrow> bit x n \<noteq> (n = 0)"
    by (simp only: bit_xor_iff bit_1_iff)
  ultimately show "bit (push_bit 1 (drop_bit 1 x)) n = bit (if bit x 0 then x XOR 1 else x) n"
    by (cases n) (simp_all only: split: if_split, auto)
qed

lemma crc_unbit_bit: "crc_unbit (crc_bit x) = x"
proof (cases "bit x 0")
  case True
  have "\<not> bit (drop_bit 1 x) 31" by (auto simp: bit_drop_bit_eq dest: bit_imp_le_length)
  then have "crc_unbit (crc_bit x) = push_bit 1 (drop_bit 1 x) OR 1"
    using True bit_poly_31 unfolding crc_unbit_def crc_bit_def bit_xor_iff
    by (simp only: bit_xor_iff xor.assoc xor_self_eq xor.right_neutral if_True not_False_eq_True simp_thms)
  also have "\<dots> = x" using True
    unfolding push_drop_1 by (auto simp: bit_simps bit_1_iff intro!: bit_word_eqI)
  finally show ?thesis .
next
  case False
  have "\<not> bit (drop_bit 1 x) 31" by (auto simp: bit_drop_bit_eq dest: bit_imp_le_length)
  then show ?thesis using False push_drop_1[of x] by (simp add: crc_unbit_def crc_bit_def)
qed

lemma crc_bits_inj: "(crc_bit ^^ n) x = (crc_bit ^^ n) y \<Longrightarrow> x = y"
  by (induction n) (auto dest: arg_cong[of _ _ crc_unbit] simp: crc_unbit_bit)

lemma xor_left_cancel: "x XOR y = x XOR z \<Longrightarrow> y = (z :: u32)"
  by (metis xor.left_neutral xor_self_eq xor.assoc)

lemma xor_right_cancel: "y XOR x = z XOR x \<Longrightarrow> y = (z :: u32)"
  by (metis xor_left_cancel xor.commute)

lemma len8_less_32: "LENGTH(8) < LENGTH(32)"
  by simp

lemma ucast_u32_inj: "(ucast (p :: byte) :: u32) = ucast q \<Longrightarrow> p = q"
  by (rule bit_word_eqI) (metis bit_ucast_iff bit_imp_le_length len8_less_32 order.strict_trans)

lemma crc_byte_inj:
  "crc_byte p x = crc_byte p y \<Longrightarrow> x = y"
  "crc_byte p x = crc_byte q x \<Longrightarrow> p = q"
  by (auto simp: crc_byte_def dest!: crc_bits_inj dest: xor_left_cancel xor_right_cancel intro: ucast_u32_inj)

lemma crc_fold_inj: "fold crc_byte bs x = fold crc_byte bs y \<Longrightarrow> x = y"
  by (induction bs arbitrary: x y) (auto dest: crc_byte_inj)

text \<open>Two buffers of the same length that differ in exactly one byte have different checksums.\<close>

lemma crc32_detects_byte_change:
  assumes "b \<noteq> c"
  shows "crc32 (xs @ b # ys) \<noteq> crc32 (xs @ c # ys)"
  using assms
  by (auto simp: crc32_def crc32_step_eq[abs_def] dest!: crc_fold_inj crc_byte_inj)

lemma crc32_detects_byte_change_example: "crc32 ([7] @ 1 # [9]) \<noteq> crc32 ([7] @ 2 # [9])"
  by (rule crc32_detects_byte_change) simp

end
