(* ===== verification/LrModel.thy ===== *)
theory LrModel
  imports Config Gradient SparseData Checksum
begin

text \<open>
  Logistic regression: \<open>SparseLRModel\<close> with its serialised form, its two minibatch gradients
  and its loss (\<open>SparseLRModel.h\<close>, \<open>SparseLRModel.cpp\<close>), and the numeric helpers of
  \<open>MlUtils.h\<close> and \<open>MlUtils.cpp\<close>. \<open>exp\<close> and \<open>log\<close> of the C library, whose results the
  language does not fix, are the fields of a parameter of type \<open>libm\<close>.
\<close>

section \<open>MlUtils\<close>

record libm =
  lm_exp :: "f64 \<Rightarrow> f64"
  lm_log :: "f64 \<Rightarrow> f64"

definition s_1 :: "libm \<Rightarrow> f64 \<Rightarrow> f64 res" where
  "s_1 lm x =
     (let r = f64_div f64_one (f64_add f64_one (lm_exp lm (f64_neg x)))
      in rbind (guard_rt (\<not> (f64_isnan r \<or> f64_isinf r)) ''s_1 generated nan/inf x: '') (\<lambda>_. Inr r))"

definition s_1_float :: "libm \<Rightarrow> f32 \<Rightarrow> f32 res" where
  "s_1_float lm x =
     (let r = f32_of_f64 (f64_div f64_one (f64_add f64_one (lm_exp lm (f64_of_f32 (f32_neg x)))))
      in rbind (guard_rt (\<not> (f32_isnan r \<or> f32_isinf r)) ''s_1_float generated nan/inf x: '') (\<lambda>_. Inr r))"

definition log_aux :: "libm \<Rightarrow> f64 \<Rightarrow> f64 res" where
  "log_aux lm v =
     (if f64_eq v 0 then Inr (f64_neg (f64_lit 1 (10 ^ 49)))
      else let r = lm_log lm v
           in rbind (guard_rt (\<not> (f64_isnan r \<or> f64_isinf r)) ''log_aux generated nan/inf v: '') (\<lambda>_. Inr r))"

section \<open>The model\<close>

text \<open>
  \<open>weights_sparse_\<close> is a vector of which only \<open>reserve\<close> is ever called, while its elements are
  read and written by index: the model keeps the reserved storage, a cell of which holds
  nothing until it is written. \<open>part2\<close>, \<open>part3\<close> and \<open>unique_indices\<close> are the preallocated
  buffers of the sparse gradient.
\<close>

record sparse_lr_model =
  lrm_weights :: "f32 list"
  lrm_hist :: "f32 list"
  lrm_is_sparse :: bool
  lrm_sparse :: "f32 option list"
  lrm_momentum :: f32
  lrm_part2 :: "f32 list"
  lrm_part3 :: "f32 list"
  lrm_unique :: "i32 list"

definition lrm_new :: "u64 \<Rightarrow> sparse_lr_model" where
  "lrm_new d = \<lparr>lrm_weights = replicate (unat d) 0, lrm_hist = replicate (unat d) 0,
     lrm_is_sparse = False, lrm_sparse = [], lrm_momentum = 0, lrm_part2 = [], lrm_part3 = [],
     lrm_unique = []\<rparr>"

definition lrm_of_weights :: "f32 list \<Rightarrow> u64 \<Rightarrow> sparse_lr_model res" where
  "lrm_of_weights w d =
     (if length w < unat d then Inl Undefined_behaviour
      else Inr ((lrm_new d)\<lparr>lrm_weights := take (unat d) w\<rparr>))"

definition lrm_size :: "sparse_lr_model \<Rightarrow> u64" where
  "lrm_size m = word_of_nat (length (lrm_weights m))"

definition lrm_serialize_to :: "sparse_lr_model \<Rightarrow> byte list" where
  "lrm_serialize_to m = store_int (word_of_nat (length (lrm_weights m))) @ store_many store_float (lrm_weights m)"

definition lrm_serialized_size :: "sparse_lr_model \<Rightarrow> u64" where
  "lrm_serialized_size m = lrm_size m * 4 + 4"

definition lrm_load :: "byte list \<Rightarrow> sparse_lr_model \<Rightarrow> sparse_lr_model res" where
  "lrm_load data m =
     load_then load_int data (\<lambda>num_weights data.
     rbind (cassert (0 < sint num_weights \<and> sint num_weights < 10000000)) (\<lambda>_.
     load_then (load_many load_float (nat (sint num_weights))) data (\<lambda>ws _.
     Inr (m\<lparr>lrm_weights := ws\<rparr>))))"

definition lrm_serialize :: "sparse_lr_model \<Rightarrow> byte list res" where
  "lrm_serialize m = Inl (Runtime_error ''Fix. Not implemented1'')"

definition lrm_deserialize :: "byte list \<Rightarrow> u64 \<Rightarrow> sparse_lr_model res" where
  "lrm_deserialize data n = Inl (Runtime_error ''not supported'')"

definition lrm_load_gradient :: "byte list \<Rightarrow> model_gradient res" where
  "lrm_load_gradient mem = Inl (Runtime_error ''Not supported'')"

definition lrm_gradient_size :: "sparse_lr_model \<Rightarrow> u64" where
  "lrm_gradient_size m = lrm_size m * 4"

definition lrm_randomize :: "sparse_lr_model \<Rightarrow> sparse_lr_model" where
  "lrm_randomize m = m\<lparr>lrm_weights := map (\<lambda>w. 0) (lrm_weights m)\<rparr>"

definition lrm_copy :: "sparse_lr_model \<Rightarrow> sparse_lr_model res" where
  "lrm_copy m = lrm_of_weights (lrm_weights m) (lrm_size m)"

definition lrm_checksum :: "sparse_lr_model \<Rightarrow> f64" where
  "lrm_checksum m = checksum (lrm_weights m)"

definition lrm_check :: "sparse_lr_model \<Rightarrow> unit res" where
  "lrm_check m = rcheck (\<lambda>w. if f32_bad w then Inl (Exit_status (- 1)) else Inr ()) (lrm_weights m)"

definition lrm_get_nth_weight :: "sparse_lr_model \<Rightarrow> u64 \<Rightarrow> f32 res" where
  "lrm_get_nth_weight m n = vec_get (lrm_weights m) (unat n)"

definition lrm_get_nth_weight_nesterov :: "sparse_lr_model \<Rightarrow> u64 \<Rightarrow> f64 \<Rightarrow> f32 res" where
  "lrm_get_nth_weight_nesterov m n beta =
     rbind (vec_get (lrm_weights m) (unat n)) (\<lambda>w.
     Inr (f32_of_f64 (f64_add (f64_of_f32 w) (f64_mul beta (f64_of_f32 (lrm_momentum m))))))"

section \<open>Updates\<close>

text \<open>\<open>v[index] += d\<close> for a \<open>float\<close> element and a \<open>double\<close>.\<close>

definition vec_add_f64 :: "f32 list \<Rightarrow> nat \<Rightarrow> f64 \<Rightarrow> f32 list res" where
  "vec_add_f64 ws i d = rbind (vec_get ws i) (\<lambda>w. Inr (ws[i := f32_of_f64 (f64_add (f64_of_f32 w) d)]))"

definition as_sparse_gradient :: "model_gradient \<Rightarrow> lr_sparse_gradient res" where
  "as_sparse_gradient g = (case g of LRSparseGradient s \<Rightarrow> Inr s
     | _ \<Rightarrow> Inl (Runtime_error ''Error in dynamic cast''))"

definition lrm_sgd_step :: "f64 \<Rightarrow> i32 \<times> f32 \<Rightarrow> sparse_lr_model \<Rightarrow> sparse_lr_model res" where
  "lrm_sgd_step learning_rate = (\<lambda>(index, v) m.
     rbind (vec_add_f64 (lrm_weights m) (idx index) (f64_mul learning_rate (f64_of_f32 v))) (\<lambda>ws.
     Inr (m\<lparr>lrm_weights := ws\<rparr>)))"

definition lrm_sgd_update :: "f64 \<Rightarrow> model_gradient \<Rightarrow> sparse_lr_model \<Rightarrow> sparse_lr_model res" where
  "lrm_sgd_update learning_rate gradient m =
     rbind (as_sparse_gradient gradient) (\<lambda>grad. rfold (lrm_sgd_step learning_rate) (lrs_weights grad) m)"

definition adagrad_step :: "f64 \<Rightarrow> f64 \<Rightarrow> i32 \<times> f32 \<Rightarrow> sparse_lr_model \<Rightarrow> sparse_lr_model res" where
  "adagrad_step learning_rate adagrad_epsilon = (\<lambda>(index, v) m.
     rbind (vec_get (lrm_hist m) (idx index)) (\<lambda>h.
       let h = f32_add h (f32_mul v v)
       in rbind (vec_add_f64 (lrm_weights m) (idx index)
                   (f64_div (f64_mul learning_rate (f64_of_f32 v))
                            (f64_add adagrad_epsilon (f64_of_f32 (f32_sqrt h))))) (\<lambda>ws.
          Inr (m\<lparr>lrm_hist := (lrm_hist m)[idx index := h], lrm_weights := ws\<rparr>))))"

definition lrm_sgd_update_adagrad :: "f64 \<Rightarrow> model_gradient \<Rightarrow> sparse_lr_model \<Rightarrow> sparse_lr_model res" where
  "lrm_sgd_update_adagrad learning_rate gradient m =
     rbind (as_sparse_gradient gradient) (\<lambda>grad.
     rfold (adagrad_step learning_rate (f64_lit 10 (10 ^ 8))) (lrs_weights grad) m)"

definition lrm_momentum_step :: "f64 \<Rightarrow> f64 \<Rightarrow> i32 \<times> f32 \<Rightarrow> sparse_lr_model \<Rightarrow> sparse_lr_model res" where
  "lrm_momentum_step learning_rate momentum_beta = (\<lambda>(index, v) m.
     let avg = (if f64_eq (f64_of_f32 (lrm_momentum m)) 0 then v
                else f32_of_f64 (f64_add (f64_mul momentum_beta (f64_of_f32 (lrm_momentum m)))
                       (f64_mul (f64_mul (f64_sub f64_one momentum_beta) learning_rate) (f64_of_f32 v))))
     in rbind (vec_get (lrm_weights m) (idx index)) (\<lambda>w.
        Inr (m\<lparr>lrm_momentum := avg, lrm_weights := (lrm_weights m)[idx index := f32_add w avg]\<rparr>)))"

definition lrm_sgd_update_momentum ::
    "f64 \<Rightarrow> f64 \<Rightarrow> model_gradient \<Rightarrow> sparse_lr_model \<Rightarrow> sparse_lr_model res" where
  "lrm_sgd_update_momentum learning_rate momentum_beta gradient m =
     rbind (as_sparse_gradient gradient) (\<lambda>grad.
     rfold (lrm_momentum_step learning_rate momentum_beta) (lrs_weights grad) m)"

section \<open>Gradient of a minibatch\<close>

definition lrm_dot_product :: "sample \<Rightarrow> f32 list \<Rightarrow> f64 res" where
  "lrm_dot_product v1 ws =
     rfold (\<lambda>(index, v) r.
       rbind (guard_rt (\<not> idx index \<ge> length ws) ''Index too high'') (\<lambda>_.
       rbind (cassert (0 \<le> sint index \<and> idx index < length ws)) (\<lambda>_.
       rbind (vec_get ws (idx index)) (\<lambda>w.
       Inr (f64_add r (f64_of_f32 (f32_mul v w))))))) v1 0"

text \<open>\<open>label - s_1(x)\<close>, stored as \<open>float\<close>.\<close>

definition residual :: "libm \<Rightarrow> f32 \<Rightarrow> f64 \<Rightarrow> f32 res" where
  "residual lm label x = rbind (s_1 lm x) (\<lambda>s. Inr (f32_of_f64 (f64_sub (f64_of_f32 label) s)))"

text \<open>\<open>part3[index] += x\<close> on the \<open>unordered_map\<close>.\<close>

definition map_add_f32 :: "u64 \<Rightarrow> f32 \<Rightarrow> (u64 \<times> f32) list \<Rightarrow> (u64 \<times> f32) list" where
  "map_add_f32 k x m = AList.update k (f32_add (case map_of m k of None \<Rightarrow> 0 | Some y \<Rightarrow> y) x) m"

text \<open>The sums \<open>part3\<close> of the products of the values with the residual of their sample.\<close>

definition grad_sums :: "sparse_dataset \<Rightarrow> f32 list \<Rightarrow> (u64 \<times> f32) list" where
  "grad_sums dataset part2 =
     fold (\<lambda>(row, p). fold (\<lambda>(index, v). map_add_f32 (scast index) (f32_mul v p)) row)
       (zip (sd_data dataset) part2) []"

text \<open>\<open>value + weight * 2 * epsilon\<close>\<close>

definition regularized :: "f32 \<Rightarrow> f32 \<Rightarrow> f64 \<Rightarrow> f64" where
  "regularized val w eps = f64_add (f64_of_f32 val) (f64_mul (f64_of_f32 (f32_mul w 0x40000000)) eps)"

text \<open>\<open>iter\<close> is the order in which the map is iterated.\<close>

definition lrm_minibatch_grad ::
    "((u64 \<times> f32) list \<Rightarrow> (u64 \<times> f32) list) \<Rightarrow> libm \<Rightarrow> sparse_dataset \<Rightarrow> configuration \<Rightarrow> sparse_lr_model \<Rightarrow>
     lr_sparse_gradient res" where
  "lrm_minibatch_grad iter lm dataset config m =
     rbind (guard_rt (\<not> lrm_is_sparse m) ''This model is sparse'') (\<lambda>_.
     rbind (rmap (\<lambda>i. rbind (lrm_dot_product (sd_data dataset ! i) (lrm_weights m)) (\<lambda>part1_i.
              rbind (vec_get (sd_labels dataset) i) (\<lambda>label. residual lm label part1_i)))
            [0..<length (sd_data dataset)]) (\<lambda>part2.
       rbind (rmap (\<lambda>(index, v).
              rbind (vec_get (lrm_weights m) (unat index)) (\<lambda>w.
              rbind (get_epsilon config) (\<lambda>eps.
              Inr ((ucast index :: i32), f32_of_f64 (regularized v w eps))))) (iter (grad_sums dataset part2))) (\<lambda>r.
       Inr (lrs_of_vector r))))"

section \<open>The sparse gradient of the workers\<close>

text \<open>\<open>1 << bits\<close> in \<open>int\<close>.\<close>

definition int_shl_one :: "u64 \<Rightarrow> i32 res" where
  "int_shl_one bits = (if 32 \<le> unat bits then Inl Undefined_behaviour else Inr (push_bit (unat bits) 1))"

text \<open>\<open>weights_sparse_.reserve(n)\<close>: a larger store is a new one, since no element was ever added.\<close>

definition reserve_cells :: "i32 \<Rightarrow> f32 option list \<Rightarrow> f32 option list res" where
  "reserve_cells n cells =
     (if sint n < 0 then Inl (Length_error ''vector::reserve'')
      else if length cells < nat (sint n) then Inr (replicate (nat (sint n)) None) else Inr cells)"

definition cell_get :: "f32 option list \<Rightarrow> nat \<Rightarrow> f32 res" where
  "cell_get cells i = rbind (vec_get cells i) or_ub"

definition lrm_load_sparse ::
    "byte list \<Rightarrow> byte list \<Rightarrow> u64 \<Rightarrow> configuration \<Rightarrow> sparse_lr_model \<Rightarrow> sparse_lr_model res" where
  "lrm_load_sparse weights weight_indices num_weights config m =
     rbind (cassert (0 < unat num_weights \<and> unat num_weights < 10000000)) (\<lambda>_.
     rbind (int_shl_one (cf_model_bits config)) (\<lambda>n.
     rbind (reserve_cells n (lrm_sparse m)) (\<lambda>cells.
     rbind (rfold (\<lambda>_ (cells, weight_indices, weights).
         load_then load_u32 weight_indices (\<lambda>index weight_indices.
         load_then load_float weights (\<lambda>v weights.
         rbind (vec_set cells (unat index) (Some v)) (\<lambda>cells.
         Inr (cells, weight_indices, weights)))))
       [0..<unat num_weights] (cells, weight_indices, weights)) (\<lambda>(cells, _).
     Inr (m\<lparr>lrm_is_sparse := True, lrm_sparse := cells\<rparr>)))))"

definition lrm_ensure_preallocated :: "configuration \<Rightarrow> sparse_lr_model \<Rightarrow> sparse_lr_model res" where
  "lrm_ensure_preallocated config m =
     rbind (if lrm_part3 m = [] then rbind (int_shl_one (cf_model_bits config)) (vec_new 0)
            else Inr (lrm_part3 m)) (\<lambda>part3.
     rbind (if lrm_part2 m = [] then rbind (get_minibatch_size config) (\<lambda>n. Inr (replicate (unat n) 0))
            else Inr (lrm_part2 m)) (\<lambda>part2.
     Inr (m\<lparr>lrm_unique := [], lrm_part3 := part3, lrm_part2 := part2\<rparr>)))"

definition sparse_dot :: "f32 option list \<Rightarrow> sample \<Rightarrow> f64 res" where
  "sparse_dot cells row =
     rfold (\<lambda>(index, v) r. rbind (cell_get cells (idx index)) (\<lambda>w.
       Inr (f64_add r (f64_of_f32 (f32_mul v w))))) row 0"

definition sparse_residuals :: "libm \<Rightarrow> sparse_dataset \<Rightarrow> f32 option list \<Rightarrow> f32 list \<Rightarrow> f32 list res" where
  "sparse_residuals lm dataset cells part2 =
     rfold (\<lambda>i part2. rbind (sparse_dot cells (sd_data dataset ! i)) (\<lambda>part1_i.
              rbind (vec_get (sd_labels dataset) i) (\<lambda>label.
              rbind (residual lm label part1_i) (\<lambda>p. vec_set part2 i p))))
       [0..<length (sd_data dataset)] part2"

definition sparse_scatter :: "f32 \<Rightarrow> i32 \<times> f32 \<Rightarrow> i32 list \<times> f32 list \<Rightarrow> (i32 list \<times> f32 list) res" where
  "sparse_scatter p = (\<lambda>(index, v) (unique, part3).
     rbind (vec_get part3 (idx index)) (\<lambda>x.
     Inr (unique @ [index], part3[idx index := f32_add x (f32_mul v p)])))"

definition sparse_gather :: "configuration \<Rightarrow> f32 option list \<Rightarrow> i32 \<Rightarrow> (i32 \<times> f32) list \<times> f32 list \<Rightarrow>
    ((i32 \<times> f32) list \<times> f32 list) res" where
  "sparse_gather config cells v = (\<lambda>(r, part3).
     rbind (vec_get part3 (idx v)) (\<lambda>val.
       if f32_eq val 0 then Inr (r, part3)
       else rbind (cell_get cells (idx v)) (\<lambda>w.
            rbind (get_epsilon config) (\<lambda>eps.
              let final_grad = regularized val w eps
              in Inr (if \<not> cf_use_grad_threshold config \<or> f64_less (cf_grad_threshold config) (f64_abs final_grad)
                      then r @ [(v, f32_of_f64 final_grad)] else r,
                      part3[idx v := 0])))))"

definition lrm_minibatch_grad_sparse ::
    "libm \<Rightarrow> sparse_dataset \<Rightarrow> configuration \<Rightarrow> sparse_lr_model \<Rightarrow> (lr_sparse_gradient \<times> sparse_lr_model) res" where
  "lrm_minibatch_grad_sparse lm dataset config m =
     rbind (lrm_ensure_preallocated config m) (\<lambda>m.
     rbind (sparse_residuals lm dataset (lrm_sparse m) (lrm_part2 m)) (\<lambda>part2.
     rbind (rfold (\<lambda>i s. rbind (vec_get part2 i) (\<lambda>p. rfold (sparse_scatter p) (sd_data dataset ! i) s))
              [0..<length (sd_data dataset)] (lrm_unique m, lrm_part3 m)) (\<lambda>(unique, part3).
     rbind (rfold (sparse_gather config (lrm_sparse m)) unique ([], part3)) (\<lambda>(r, part3).
     Inr (lrs_of_vector r, m\<lparr>lrm_part2 := part2, lrm_part3 := part3, lrm_unique := unique\<rparr>)))))"

section \<open>Loss\<close>

definition f64_half :: f64 where "f64_half = 0x3FE0000000000000"
definition f32_one :: f32 where "f32_one = 0x3F800000"

definition loss_dot :: "f32 list \<Rightarrow> sample \<Rightarrow> f64 res" where
  "loss_dot ws row = rfold (\<lambda>(index, v) r. rbind (vec_get ws (idx index)) (\<lambda>w.
     Inr (f64_add r (f64_of_f32 (f32_mul w v))))) row 0"

definition loss_step :: "libm \<Rightarrow> f32 list \<Rightarrow> sparse_dataset \<Rightarrow> nat \<Rightarrow> f64 \<times> u64 \<Rightarrow> (f64 \<times> u64) res" where
  "loss_step lm ws dataset i = (\<lambda>(total_loss, wrong_count).
     rbind (vec_get (sd_labels dataset) i) (\<lambda>class_i.
     rbind (loss_dot ws (sd_data dataset ! i)) (\<lambda>r1.
     rbind (s_1 lm r1) (\<lambda>s1.
       let predicted_class = (if f64_less f64_half s1 then f32_one else 0);
           wrong_count = (if \<not> f32_eq predicted_class class_i then wrong_count + 1 else wrong_count)
       in rbind (log_aux lm s1) (\<lambda>l1.
          rbind (log_aux lm (f64_sub f64_one s1)) (\<lambda>l2.
            let v = f64_add (f64_mul (f64_of_f32 class_i) l1)
                      (f64_mul (f64_of_f32 (f32_sub f32_one class_i)) l2)
            in rbind (guard_rt (\<not> f64_less 0 v) ''Error: logistic loss is > 0'') (\<lambda>_.
               Inr (f64_sub total_loss v, wrong_count))))))))"

definition lrm_calc_loss :: "libm \<Rightarrow> sparse_dataset \<Rightarrow> sparse_lr_model \<Rightarrow> (f64 \<times> f64) res" where
  "lrm_calc_loss lm dataset m =
     rbind (rfold (loss_step lm (lrm_weights m) dataset) [0..<length (sd_data dataset)] (0, 0))
       (\<lambda>(total_loss, wrong_count).
     rbind (guard_rt (\<not> f64_less total_loss 0) ''total_loss < 0'') (\<lambda>_.
       let accuracy = f32_of_f64 (f64_sub f64_one
             (f64_div (f64_mul f64_one (f64_of_int (uint wrong_count)))
                      (f64_of_int (uint (sd_num_samples dataset)))))
       in rbind (guard_rt (\<not> (f64_isnan total_loss \<or> f64_isinf total_loss)) ''calc_log_loss generated nan/inf'') (\<lambda>_.
          Inr (total_loss, f64_of_f32 accuracy))))"

section \<open>The serialised model\<close>

text \<open>A model with at least one and fewer than ten million weights is loaded exactly from its serialised form, which has the size \<open>getSerializedSize\<close> promises.\<close>

lemma lrm_roundtrip:
  assumes "lrm_weights m \<noteq> []" "length (lrm_weights m) < 10000000"
  shows "lrm_load (lrm_serialize_to m @ r) m' = Inr (m'\<lparr>lrm_weights := lrm_weights m\<rparr>)
    \<and> unat (lrm_serialized_size m) = length (lrm_serialize_to m)"
proof -
  define n where "n = length (lrm_weights m)"
  have n: "sint (word_of_nat n :: i32) = int n" "0 < n" "n < 10000000" using assms by (auto simp: n_def sint_small)
  have "lrm_serialized_size m = word_of_nat (4 * n + 4)"
    by (simp add: lrm_serialized_size_def lrm_size_def n_def)
  then have "unat (lrm_serialized_size m) = length (lrm_serialize_to m)"
    using n(3) by (simp only: unat_of_nat) (simp add: lrm_serialize_to_def take_bit_nat_eq_self n_def)
  then show ?thesis using n by (simp add: lrm_load_def lrm_serialize_to_def n_def[symmetric])
qed

lemma lrm_roundtrip_example:
  "lrm_load (lrm_serialize_to ((lrm_new 2)\<lparr>lrm_weights := [0x3F800000, 0]\<rparr>) @ [9]) (lrm_new 1)
    = Inr ((lrm_new 1)\<lparr>lrm_weights := [0x3F800000, 0]\<rparr>)"
  using lrm_roundtrip[of "(lrm_new 2)\<lparr>lrm_weights := [0x3F800000, 0]\<rparr>" "[9]" "lrm_new 1"] by simp

section \<open>Sums in a map and sums in an array\<close>

text \<open>The distinct elements of a list in the order of their first occurrence.\<close>

fun firsts :: "'a list \<Rightarrow> 'a list" where
  "firsts [] = []"
| "firsts (x # xs) = x # filter (\<lambda>y. y \<noteq> x) (firsts xs)"

lemma set_firsts [simp]: "set (firsts xs) = set xs"
  by (induction xs) auto

lemma firsts_snoc: "firsts (xs @ [x]) = (if x \<in> set xs then firsts xs else firsts xs @ [x])"
  by (induction xs) auto

text \<open>Every product that is added to \<open>part3\<close>, in order.\<close>

definition contribs :: "sample list \<Rightarrow> f32 list \<Rightarrow> (i32 \<times> f32) list" where
  "contribs rows ps = concat (map (\<lambda>(row, p). map (\<lambda>(index, v). (index, f32_mul v p)) row) (zip rows ps))"

lemma grad_sums_contribs:
  "grad_sums d ps = fold (\<lambda>(index, x). map_add_f32 (scast index) x) (contribs (sd_data d) ps) []"
proof -
  have r: "fold (\<lambda>(index, v). map_add_f32 (scast index) (f32_mul v p)) row acc =
      fold (\<lambda>(index, x). map_add_f32 (scast index) x) (map (\<lambda>(index, v). (index, f32_mul v p)) row) acc"
    for row :: sample and p acc
    by (induction row arbitrary: acc) auto
  have "fold (\<lambda>(row, p). fold (\<lambda>(index, v). map_add_f32 (scast index) (f32_mul v p)) row) xs acc =
      fold (\<lambda>(index, x). map_add_f32 (scast index) x)
        (concat (map (\<lambda>(row, p). map (\<lambda>(index, v). (index, f32_mul v p)) row) xs)) acc"
    for xs :: "(sample \<times> f32) list" and acc
    by (induction xs arbitrary: acc) (auto simp: r)
  then show ?thesis by (simp add: grad_sums_def contribs_def)
qed

text \<open>The array \<open>part3\<close> holds the sums of the map, at the indices seen so far.\<close>

definition sums_agree :: "i32 list \<Rightarrow> f32 list \<Rightarrow> (u64 \<times> f32) list \<Rightarrow> bool" where
  "sums_agree u arr al \<longleftrightarrow> map fst al = map scast (firsts u) \<and>
     (\<forall>i. idx i < length arr \<longrightarrow> arr ! idx i = (case map_of al (scast i) of None \<Rightarrow> 0 | Some y \<Rightarrow> y))"

lemma unat_scast_idx: "unat (scast (i :: i32) :: u64) = idx i"
proof -
  have "uint (word_of_int (sint i) :: u64) = take_bit LENGTH(64) (sint i)" by (rule uint_word_of_int_eq)
  then have "uint (scast i :: u64) = sint i mod 2 ^ 64" by (simp only: of_int_sint take_bit_eq_mod) simp
  then show ?thesis by (simp only: idx_def unat_eq_nat_uint)
qed

lemma scast_inj: "(scast (i :: i32) :: u64) = scast j \<longleftrightarrow> i = j"
proof
  assume eq: "(scast i :: u64) = scast j"
  show "i = j"
  proof (rule bit_word_eqI)
    fix n assume n: "n < LENGTH(32)"
    have "bit (scast k :: u64) n = bit (k :: i32) n" for k
      using n by (cases "n = 31") (auto simp: bit_signed_iff min_def)
    with eq show "bit i n = bit j n" by metis
  qed
qed simp

lemma ucast_scast: "ucast (scast (i :: i32) :: u64) = i"
proof (rule bit_word_eqI)
  fix n assume n: "n < LENGTH(32)"
  then show "bit (ucast (scast i :: u64) :: i32) n = bit i n"
    by (cases "n = 31") (auto simp: bit_ucast_iff bit_signed_iff min_def)
qed

lemma idx_inj: "idx i = idx j \<longleftrightarrow> i = j"
  by (metis unat_scast_idx scast_inj unsigned_word_eqI)

lemma sums_agree_add:
  assumes "sums_agree u arr al" "idx i < length arr"
  shows "sums_agree (u @ [i]) (arr[idx i := f32_add (arr ! idx i) x]) (map_add_f32 (scast i) x al)"
proof -
  have keys: "map fst al = map scast (firsts u)" using assms(1) by (simp add: sums_agree_def)
  have mem: "(scast i :: u64) \<in> set (map fst al) \<longleftrightarrow> i \<in> set u" unfolding keys by (auto simp: scast_inj)
  then have "map fst (map_add_f32 (scast i) x al) = map scast (firsts (u @ [i]))"
    unfolding map_add_f32_def AList.update_keys firsts_snoc using keys by auto
  moreover have "arr[idx i := f32_add (arr ! idx i) x] ! idx j =
      (case map_of (map_add_f32 (scast i) x al) (scast j) of None \<Rightarrow> 0 | Some y \<Rightarrow> y)"
    if "idx j < length arr" for j
    using assms that by (auto simp: sums_agree_def map_add_f32_def AList.update_conv nth_list_update idx_inj scast_inj)
  ultimately show ?thesis by (simp add: sums_agree_def)
qed

lemma scatter_agree:
  assumes "sums_agree u arr al" "\<forall>(i, x)\<in>set cs. idx i < length arr"
  shows "\<exists>arr'. rfold (\<lambda>(i, x) (u, arr). rbind (vec_get arr (idx i)) (\<lambda>y. Inr (u @ [i], arr[idx i := f32_add y x])))
      cs (u, arr) = Inr (u @ map fst cs, arr') \<and> length arr' = length arr
    \<and> sums_agree (u @ map fst cs) arr' (fold (\<lambda>(i, x). map_add_f32 (scast i) x) cs al)
    \<and> (\<forall>k. k \<notin> idx ` fst ` set cs \<longrightarrow> arr' ! k = arr ! k)"
  using assms
proof (induction cs arbitrary: u arr al)
  case (Cons c cs)
  obtain i x where c: "c = (i, x)" by fastforce
  have i: "idx i < length arr" using Cons.prems(2) c by simp
  from Cons.IH[OF sums_agree_add[OF Cons.prems(1) i, of x]] Cons.prems(2) c i show ?case
    by (auto simp: vec_get_def)
qed auto

lemma rfold_map: "rfold f (map g xs) s = rfold (\<lambda>x. f (g x)) xs s"
  by (induction xs arbitrary: s) (auto simp: rbind_def split: sum.splits)

lemma rfold_concat: "rfold (\<lambda>xs. rfold f xs) xss s = rfold f (concat xss) s"
  by (induction xss arbitrary: s) (auto simp: rfold_append rbind_def split: sum.splits)

text \<open>The scatter loops go through the same products.\<close>

lemma scatter_contribs:
  assumes "length rows \<le> length part2"
  shows "rfold (\<lambda>i s. rbind (vec_get part2 i) (\<lambda>p. rfold (sparse_scatter p) (rows ! i) s)) [0..<length rows] s =
    rfold (\<lambda>(i, x) (u, arr). rbind (vec_get arr (idx i)) (\<lambda>y. Inr (u @ [i], arr[idx i := f32_add y x])))
      (contribs rows part2) s"
proof -
  let ?f = "\<lambda>(i, x) (u, arr). rbind (vec_get arr (idx i)) (\<lambda>y. Inr (u @ [i], arr[idx i := f32_add y x]))"
  have row: "rfold (sparse_scatter p) row s = rfold ?f (map (\<lambda>(index, v). (index, f32_mul v p)) row) s" for p row s
    by (induction row arbitrary: s) (auto simp: sparse_scatter_def rbind_def split: prod.splits sum.splits)
  have "rfold (\<lambda>i s. rbind (vec_get part2 i) (\<lambda>p. rfold (sparse_scatter p) (rows ! i) s)) [0..<length rows] s =
      rfold (\<lambda>i. rfold ?f (map (\<lambda>(index, v). (index, f32_mul v (part2 ! i))) (rows ! i))) [0..<length rows] s"
    using assms by (intro rfold_cong) (auto simp: vec_get_def row)
  also have "\<dots> = rfold ?f (concat (map (\<lambda>i. map (\<lambda>(index, v). (index, f32_mul v (part2 ! i))) (rows ! i)) [0..<length rows])) s"
    by (simp only: rfold_concat[symmetric] rfold_map)
  also have "map (\<lambda>i. map (\<lambda>(index, v). (index, f32_mul v (part2 ! i))) (rows ! i)) [0..<length rows] =
      map (\<lambda>(row, p). map (\<lambda>(index, v). (index, f32_mul v p)) row) (zip rows part2)"
    using assms by (intro nth_equalityI) auto
  finally show ?thesis by (simp only: contribs_def)
qed

text \<open>The gather loop emits one entry per non-zero sum and leaves zeros behind.\<close>

lemma f32_eq_0: "f32_eq 0 0"
  by (simp add: fp_evals)

text \<open>The entries the configured threshold lets through.\<close>

definition grad_kept :: "configuration \<Rightarrow> f64 \<Rightarrow> bool" where
  "grad_kept c g \<longleftrightarrow> \<not> cf_use_grad_threshold c \<or> f64_less (cf_grad_threshold c) (f64_abs g)"

lemma gather_firsts:
  assumes eps: "get_epsilon config = Inr eps"
    and ok: "\<forall>i\<in>set u. idx i < length arr \<and> cell_get cells (idx i) = Inr (w i)"
  shows "\<exists>arr'. rfold (sparse_gather config cells) u (r, arr) =
      Inr (r @ map (\<lambda>i. (i, f32_of_f64 (regularized (arr ! idx i) (w i) eps)))
             (filter (\<lambda>i. \<not> f32_eq (arr ! idx i) 0 \<and> grad_kept config (regularized (arr ! idx i) (w i) eps)) (firsts u)), arr')
    \<and> length arr' = length arr \<and> (\<forall>i\<in>set u. f32_eq (arr' ! idx i) 0)
    \<and> (\<forall>k < length arr. k \<notin> idx ` set u \<longrightarrow> arr' ! k = arr ! k)"
  using ok
proof (induction u arbitrary: r arr)
  case (Cons i u)
  have i: "idx i < length arr" "cell_get cells (idx i) = Inr (w i)" using Cons.prems by auto
  show ?case
  proof (cases "f32_eq (arr ! idx i) 0")
    case True
    obtain arr' where arr': "rfold (sparse_gather config cells) u (r, arr) =
        Inr (r @ map (\<lambda>i. (i, f32_of_f64 (regularized (arr ! idx i) (w i) eps)))
             (filter (\<lambda>i. \<not> f32_eq (arr ! idx i) 0 \<and> grad_kept config (regularized (arr ! idx i) (w i) eps)) (firsts u)), arr')"
      "length arr' = length arr" "\<forall>i\<in>set u. f32_eq (arr' ! idx i) 0"
      "\<forall>k < length arr. k \<notin> idx ` set u \<longrightarrow> arr' ! k = arr ! k"
      using Cons.IH[of arr r] Cons.prems by auto
    have f: "filter (\<lambda>i. \<not> f32_eq (arr ! idx i) 0 \<and> grad_kept config (regularized (arr ! idx i) (w i) eps)) (firsts (i # u)) =
        filter (\<lambda>i. \<not> f32_eq (arr ! idx i) 0 \<and> grad_kept config (regularized (arr ! idx i) (w i) eps)) (firsts u)"
      using True by (auto intro!: filter_cong)
    have z: "f32_eq (arr' ! idx i) 0"
      using arr'(3,4) i(1) True by (cases "idx i \<in> idx ` set u") (auto simp: idx_inj)
    have step: "sparse_gather config cells i (r, arr) = Inr (r, arr)"
      using i True by (simp add: sparse_gather_def vec_get_def)
    show ?thesis unfolding f using arr' z step by (intro exI[of _ arr']) auto
  next
    case False
    define arr1 where "arr1 = arr[idx i := 0]"
    define new where "new = (if grad_kept config (regularized (arr ! idx i) (w i) eps)
      then [(i, f32_of_f64 (regularized (arr ! idx i) (w i) eps))] else [])"
    define r1 where "r1 = r @ new"
    have step: "sparse_gather config cells i (r, arr) = Inr (r1, arr1)"
      using i False eps by (simp add: sparse_gather_def vec_get_def arr1_def r1_def new_def grad_kept_def Let_def)
    obtain arr' where arr': "rfold (sparse_gather config cells) u (r1, arr1) =
        Inr (r1 @ map (\<lambda>i. (i, f32_of_f64 (regularized (arr1 ! idx i) (w i) eps)))
             (filter (\<lambda>i. \<not> f32_eq (arr1 ! idx i) 0 \<and> grad_kept config (regularized (arr1 ! idx i) (w i) eps)) (firsts u)), arr')"
      "length arr' = length arr1" "\<forall>i\<in>set u. f32_eq (arr' ! idx i) 0"
      "\<forall>k < length arr1. k \<notin> idx ` set u \<longrightarrow> arr' ! k = arr1 ! k"
      using Cons.IH[of arr1 r1] Cons.prems by (auto simp: arr1_def)
    have a1: "arr1 ! idx j = (if j = i then 0 else arr ! idx j)" for j
      using i by (simp add: arr1_def nth_list_update idx_inj)
    let ?kept = "\<lambda>a j. \<not> f32_eq (a ! idx j) 0 \<and> grad_kept config (regularized (a ! idx j) (w j) eps)"
    let ?out = "\<lambda>a js. map (\<lambda>j. (j, f32_of_f64 (regularized (a ! idx j) (w j) eps))) (filter (?kept a) js)"
    have "filter (?kept arr) (filter (\<lambda>j. j \<noteq> i) (firsts u)) = filter (?kept arr1) (firsts u)"
      using f32_eq_0 by (auto simp: a1 intro!: filter_cong)
    moreover have "?out arr1 (firsts u) = map (\<lambda>j. (j, f32_of_f64 (regularized (arr ! idx j) (w j) eps))) (filter (?kept arr1) (firsts u))"
      using f32_eq_0 by (intro map_cong refl) (auto simp: a1 split: if_splits)
    ultimately have f: "?out arr (firsts (i # u)) = new @ ?out arr1 (firsts u)"
      using False by (simp add: new_def)
    moreover have z: "f32_eq (arr' ! idx i) 0"
      using arr'(3,4) i(1) f32_eq_0 a1[of i] by (cases "idx i \<in> idx ` set u") (auto simp: idx_inj arr1_def)
    moreover have "\<forall>k < length arr. k \<notin> idx ` set (i # u) \<longrightarrow> arr' ! k = arr ! k"
      using arr'(4) by (auto simp: arr1_def)
    ultimately show ?thesis unfolding f using arr' step
      by (intro exI[of _ arr']) (auto simp: r1_def arr1_def)
  qed
qed auto

lemma sparse_dot_dense:
  assumes "\<forall>(i, v)\<in>set row. cell_get cells (idx i) = Inr (ws ! idx i)"
    and "lrm_dot_product row ws = Inr x"
  shows "sparse_dot cells row = Inr x"
proof -
  have "rfold (\<lambda>(index, v) r.
       rbind (guard_rt (\<not> idx index \<ge> length ws) ''Index too high'') (\<lambda>_.
       rbind (cassert (0 \<le> sint index \<and> idx index < length ws)) (\<lambda>_.
       rbind (vec_get ws (idx index)) (\<lambda>w.
       Inr (f64_add r (f64_of_f32 (f32_mul v w))))))) row a = Inr x \<Longrightarrow>
    rfold (\<lambda>(index, v) r. rbind (cell_get cells (idx index)) (\<lambda>w.
       Inr (f64_add r (f64_of_f32 (f32_mul v w))))) row a = Inr x" for a
    using assms(1) by (induction row arbitrary: a) auto
  then show ?thesis using assms(2) by (simp add: lrm_dot_product_def sparse_dot_def)
qed

lemma rmap_snoc: "rmap f (xs @ [x]) = rbind (rmap f xs) (\<lambda>ys. rbind (f x) (\<lambda>y. Inr (ys @ [y])))"
  by (induction xs) (auto simp: rbind_def split: sum.splits)

lemma rmap_length: "rmap f xs = Inr ys \<Longrightarrow> length ys = length xs"
  by (induction xs arbitrary: ys) auto

lemma rmap_elem: "rmap f xs = Inr ys \<Longrightarrow> x \<in> set xs \<Longrightarrow> \<exists>y. f x = Inr y"
  by (induction xs arbitrary: ys) auto

lemma rmap_cong: "(\<And>x. x \<in> set xs \<Longrightarrow> f x = g x) \<Longrightarrow> rmap f xs = rmap g xs"
  by (induction xs) auto

lemma rmap_fill:
  assumes "rmap f [0..<n] = Inr p" "n \<le> length q"
  shows "rfold (\<lambda>i q. rbind (f i) (vec_set q i)) [0..<n] q = Inr (p @ drop n q)"
  using assms
proof (induction n arbitrary: p)
  case (Suc n)
  then obtain p' x where p: "rmap f [0..<n] = Inr p'" "f n = Inr x" "p = p' @ [x]"
    by (auto simp: rmap_snoc)
  have l: "length p' = n" using rmap_length[OF p(1)] by simp
  have "(p' @ drop n q)[n := x] = p @ drop (Suc n) q"
  proof -
    have "drop n q = q ! n # drop (Suc n) q" using Suc.prems(2) by (simp add: Cons_nth_drop_Suc)
    then show ?thesis using l p(3) by (simp add: list_update_append)
  qed
  then show ?case using Suc.IH[OF p(1)] Suc.prems(2) p(2) l by (simp add: rfold_append vec_set_def)
qed auto

text \<open>The entry that the sum \<open>v\<close> at index \<open>k\<close> gives, with the regularisation term.\<close>

definition reg_entry :: "f32 list \<Rightarrow> f64 \<Rightarrow> u64 \<times> f32 \<Rightarrow> i32 \<times> f32" where
  "reg_entry ws eps = (\<lambda>(k, v). (ucast k, f32_of_f64 (regularized v (ws ! unat k) eps)))"

lemma rmap_Inr: "(\<And>x. x \<in> set xs \<Longrightarrow> f x = Inr (g x)) \<Longrightarrow> rmap f xs = Inr (map g xs)"
  by (induction xs) auto

lemma contribs_indices:
  "(i, x) \<in> set (contribs rows ps) \<Longrightarrow> \<exists>row\<in>set rows. \<exists>v. (i, v) \<in> set row"
  by (auto simp: contribs_def dest!: set_zip_leftD)

lemma distinct_firsts: "distinct (firsts xs)"
  by (induction xs) auto

text \<open>The map as a list, read off the array.\<close>

lemma sums_agree_list:
  assumes "sums_agree u arr al" "\<forall>i\<in>set u. idx i < length arr"
  shows "al = map (\<lambda>i. (scast i, arr ! idx i)) (firsts u)"
proof (rule nth_equalityI)
  have keys: "map fst al = map scast (firsts u)" using assms(1) by (simp add: sums_agree_def)
  then have "length (map fst al) = length (map scast (firsts u) :: u64 list)" by (rule arg_cong)
  then show len: "length al = length (map (\<lambda>i. (scast i, arr ! idx i)) (firsts u))" by simp
  fix n assume n: "n < length al"
  define i where "i = firsts u ! n"
  have k: "fst (al ! n) = scast i" 
    using arg_cong[OF keys, of "\<lambda>xs. xs ! n"] n len by (simp add: i_def)
  have "distinct (map fst al)" unfolding keys using distinct_firsts[of u]
    by (simp add: distinct_map inj_on_def scast_inj)
  moreover have "(scast i, snd (al ! n)) \<in> set al" using nth_mem[OF n] unfolding k[symmetric] by simp
  ultimately have "map_of al (scast i) = Some (snd (al ! n))" by (rule map_of_is_SomeI)
  moreover have "i \<in> set u" using n len by (metis i_def length_map nth_mem set_firsts)
  ultimately have "arr ! idx i = snd (al ! n)" using assms by (simp add: sums_agree_def)
  then show "al ! n = map (\<lambda>i. (scast i, arr ! idx i)) (firsts u) ! n"
    using n len k by (simp add: i_def[symmetric] prod_eq_iff)
qed

text \<open>A run: one sample with one feature, an \<open>exp\<close> that is constantly one.\<close>

lemma dec_examples:
  "dec64 f64_one = FFin False (2 ^ 52) (- 52)" "dec64 f64_half = FFin False (2 ^ 52) (- 53)"
  "dec32 0x3F000000 = FFin False (2 ^ 23) (- 24)" "dec32 0x3F800000 = FFin False (2 ^ 23) (- 23)"
  by (simp_all add: fp_evals f64_one_def f64_half_def)

lemma ex_mul: "f32_mul 0x3F800000 0 = 0" "f32_mul 0 0x40000000 = 0" "f64_mul 0 0 = 0"
  "f32_mul 0x3F800000 0x3F000000 = 0x3F000000"
  by (simp_all add: fp_evals)

lemma ex_conv: "f64_of_f32 0 = 0" "f64_of_f32 0x3F800000 = f64_one" "f32_of_f64 f64_half = 0x3F000000"
  "f64_of_f32 0x3F000000 = f64_half"
  by (simp_all add: fp_evals f64_one_def f64_half_def)

lemma ex_add: "f64_add 0 0 = 0"
  by (simp add: f64_add_def dec_zero fp_add_def fp_signed_def fp_pack_def)

lemma ex_two: "f64_add f64_one f64_one = 0x4000000000000000"
  by (simp add: fp_evals f64_one_def)

lemma ex_sub: "f64_sub f64_one f64_half = f64_half"
proof -
  have "f64_sub f64_one f64_half = 0x3FE0000000000000"
    unfolding f64_one_def f64_half_def by (simp add: fp_evals)
  then show ?thesis by (rule trans) (simp only: f64_half_def)
qed

lemmas ex_add_zero = f64_add_zero[OF dec_examples(2), simplified] f32_add_zero[OF dec_examples(3), simplified]

lemma ex_div: "f64_div f64_one 0x4000000000000000 = f64_half"
  by (simp add: fp_evals f64_one_def f64_half_def)

lemma ex_test: "\<not> f64_isnan f64_half" "\<not> f64_isinf f64_half" "\<not> f32_eq 0x3F000000 0"
  by (simp_all add: f64_isnan_def f64_isinf_def dec_examples f32_eq_def dec_zero fp_eq_def fp_signed_def)

lemma ex_eps: "\<not> f64_eq 0 f64_minus_one"
  by (simp add: f64_eq_def f64_minus_one_def dec64_def fp_decode_def fp_eq_def fp_signed_def fp_emin_def)

lemmas ex_floats = ex_mul ex_conv ex_add ex_two ex_sub ex_add_zero ex_div ex_test ex_eps

lemma replicate_2: "replicate 2 x = [x, x]"
  by (simp add: numeral_2_eq_2)

text \<open>A minibatch of one sample for concrete instances.\<close>

definition ex_libm :: libm where "ex_libm = \<lparr>lm_exp = \<lambda>_. f64_one, lm_log = \<lambda>_. 0\<rparr>"

definition ex_config :: configuration where
  "ex_config = conf_new\<lparr>cf_epsilon := 0, cf_model_bits := 1, cf_minibatch_size := 1\<rparr>"

definition ex_data :: sparse_dataset where "ex_data = sd_make [[(1, 0x3F800000)]] [0x3F800000]"

lemma ex_eps_conf: "get_epsilon ex_config = Inr 0"
  by (simp add: get_epsilon_def ex_config_def ex_floats)

lemma ex_dense: "lrm_minibatch_grad id ex_libm ex_data ex_config (lrm_new 2) = Inr (lrs_of_vector [(1, 0x3F000000)])"
proof -
  have i1: "idx 1 = 1" by (simp add: idx_def)
  show ?thesis
    by (simp add: lrm_minibatch_grad_def lrm_new_def ex_data_def sd_make_def lrm_dot_product_def i1
        residual_def s_1_def ex_libm_def Let_def grad_sums_def map_add_f32_def regularized_def ex_eps_conf ex_floats
        vec_get_def replicate_2)
qed

end
