(* ===== verification/Optim.thy ===== *)
theory Optim
  imports LrModel
begin

text \<open>
  The update rules of the parameter server: \<open>OptimizationMethod\<close> and its subclasses \<open>SGD\<close>,
  \<open>AdaGrad\<close>, \<open>Momentum\<close> and \<open>Nesterov\<close>. An optimizer is its hyperparameters and state; one
  turn of the loop of \<open>sgd_update\<close> applies one (index, value) pair of a gradient. The locale
  \<open>optimizer\<close> is what the server relies on: a step changes the weight it names and no other,
  never the size of the model, and fails on an index outside of it.
\<close>

section \<open>The contract\<close>

type_synonym grad_entry = "i32 \<times> f32"

definition model_wf :: "sparse_lr_model \<Rightarrow> bool" where
  "model_wf m \<longleftrightarrow> length (lrm_hist m) = length (lrm_weights m)"

locale optimizer =
  fixes step :: "grad_entry \<Rightarrow> 'o \<times> sparse_lr_model \<Rightarrow> ('o \<times> sparse_lr_model) res"
  assumes step_ok: "model_wf m \<Longrightarrow> idx (fst e) < length (lrm_weights m) \<Longrightarrow>
      \<exists>o' m'. step e (o1, m) = Inr (o', m') \<and> model_wf m' \<and>
        length (lrm_weights m') = length (lrm_weights m) \<and>
        (\<forall>k. k \<noteq> idx (fst e) \<longrightarrow> lrm_weights m' ! k = lrm_weights m ! k)"
    and step_bad: "model_wf m \<Longrightarrow> \<not> idx (fst e) < length (lrm_weights m) \<Longrightarrow>
      step e (o1, m) = Inl Undefined_behaviour"
begin

definition update :: "grad_entry list \<Rightarrow> 'o \<times> sparse_lr_model \<Rightarrow> ('o \<times> sparse_lr_model) res" where
  "update g = rfold step g"

lemma update_append: "update (g @ h) s = rbind (update g s) (update h)"
  by (simp add: update_def rfold_append)

text \<open>An update with valid indices succeeds and only touches the indices of the gradient.\<close>

lemma update_ok:
  assumes "model_wf m" "\<forall>e\<in>set g. idx (fst e) < length (lrm_weights m)"
  shows "\<exists>o' m'. update g (o1, m) = Inr (o', m') \<and> model_wf m' \<and>
    length (lrm_weights m') = length (lrm_weights m) \<and>
    (\<forall>k. k \<notin> (\<lambda>e. idx (fst e)) ` set g \<longrightarrow> lrm_weights m' ! k = lrm_weights m ! k)"
  using assms
proof (induction g arbitrary: o1 m)
  case (Cons e g)
  then obtain o2 m2 where s: "step e (o1, m) = Inr (o2, m2)" "model_wf m2"
    "length (lrm_weights m2) = length (lrm_weights m)"
    "\<forall>k. k \<noteq> idx (fst e) \<longrightarrow> lrm_weights m2 ! k = lrm_weights m ! k"
    using step_ok[of m e o1] by auto
  then obtain o3 m3 where "update g (o2, m2) = Inr (o3, m3)" "model_wf m3"
    "length (lrm_weights m3) = length (lrm_weights m2)"
    "\<forall>k. k \<notin> (\<lambda>e. idx (fst e)) ` set g \<longrightarrow> lrm_weights m3 ! k = lrm_weights m2 ! k"
    using Cons.IH[of m2 o2] Cons.prems by auto
  with s show ?case by (auto simp: update_def)
qed (simp add: update_def)

text \<open>An update that names an index outside of the model does not succeed.\<close>

lemma update_bad:
  assumes "model_wf m" "\<exists>e\<in>set g. \<not> idx (fst e) < length (lrm_weights m)"
  shows "update g (o1, m) = Inl Undefined_behaviour"
  using assms
proof (induction g arbitrary: o1 m)
  case (Cons e g)
  show ?case
  proof (cases "idx (fst e) < length (lrm_weights m)")
    case True
    then obtain o2 m2 where "step e (o1, m) = Inr (o2, m2)" "model_wf m2"
      "length (lrm_weights m2) = length (lrm_weights m)"
      using step_ok[OF Cons.prems(1)] by blast
    with True Cons.IH[of m2 o2] Cons.prems(2) show ?thesis by (auto simp: update_def)
  next
    case False
    with step_bad[OF Cons.prems(1)] show ?thesis by (simp add: update_def)
  qed
qed simp

text \<open>Whatever the indices, an update that returns has kept the shape of the model.\<close>

lemma update_shape:
  assumes "model_wf m" "update g (o1, m) = Inr (o', m')"
  shows "model_wf m' \<and> length (lrm_weights m') = length (lrm_weights m)"
proof (cases "\<forall>e\<in>set g. idx (fst e) < length (lrm_weights m)")
  case True
  with update_ok[OF assms(1) True, of o1] assms(2) show ?thesis by auto
next
  case False
  with update_bad[OF assms(1), of g o1] assms(2) show ?thesis by auto
qed

end

section \<open>The update rules\<close>

definition sgd_step :: "grad_entry \<Rightarrow> f64 \<times> sparse_lr_model \<Rightarrow> (f64 \<times> sparse_lr_model) res" where
  "sgd_step = (\<lambda>(index, v) (learning_rate, m).
     rbind (vec_add_f64 (lrm_weights m) (idx index) (f64_mul learning_rate (f64_of_f32 v))) (\<lambda>ws.
     Inr (learning_rate, m\<lparr>lrm_weights := ws\<rparr>)))"

text \<open>The state of AdaGrad is the model's \<open>weights_hist_\<close>; its own fields are constants.\<close>

definition adagrad_opt_step ::
    "grad_entry \<Rightarrow> (f64 \<times> f64) \<times> sparse_lr_model \<Rightarrow> ((f64 \<times> f64) \<times> sparse_lr_model) res" where
  "adagrad_opt_step = (\<lambda>(index, v) ((learning_rate, adagrad_epsilon), m).
     rbind (vec_get (lrm_hist m) (idx index)) (\<lambda>h.
       let h = f32_add h (f32_mul v v)
       in rbind (vec_add_f64 (lrm_weights m) (idx index)
                   (f64_div (f64_mul learning_rate (f64_of_f32 v))
                            (f64_add adagrad_epsilon (f64_of_f32 (f32_sqrt h))))) (\<lambda>ws.
          Inr ((learning_rate, adagrad_epsilon),
               m\<lparr>lrm_hist := (lrm_hist m)[idx index := h], lrm_weights := ws\<rparr>))))"

record momentum =
  mo_learning_rate :: f64
  mo_momentum_beta :: f64
  mo_momentum_avg :: f64

definition momentum_new :: "f64 \<Rightarrow> f64 \<Rightarrow> momentum" where
  "momentum_new lr mb = \<lparr>mo_learning_rate = lr, mo_momentum_beta = mb, mo_momentum_avg = 0\<rparr>"

definition momentum_step :: "grad_entry \<Rightarrow> momentum \<times> sparse_lr_model \<Rightarrow> (momentum \<times> sparse_lr_model) res" where
  "momentum_step = (\<lambda>(index, v) (mo, m).
     let avg = (if f64_eq (mo_momentum_avg mo) 0 then f64_of_f32 v
                else f64_add (f64_mul (mo_momentum_beta mo) (mo_momentum_avg mo))
                       (f64_mul (f64_mul (f64_sub f64_one (mo_momentum_beta mo)) (mo_learning_rate mo)) (f64_of_f32 v)))
     in rbind (vec_add_f64 (lrm_weights m) (idx index) avg) (\<lambda>ws.
        Inr (mo\<lparr>mo_momentum_avg := avg\<rparr>, m\<lparr>lrm_weights := ws\<rparr>)))"

text \<open>\<open>Nesterov::sgd_update\<close> is the same loop; what differs is \<open>edit_weight\<close>.\<close>

definition nesterov_step :: "grad_entry \<Rightarrow> momentum \<times> sparse_lr_model \<Rightarrow> (momentum \<times> sparse_lr_model) res" where
  "nesterov_step = (\<lambda>(index, v) (mo, m).
     let avg = (if f64_eq (mo_momentum_avg mo) 0 then f64_of_f32 v
                else f64_add (f64_mul (mo_momentum_beta mo) (mo_momentum_avg mo))
                       (f64_mul (f64_mul (f64_sub f64_one (mo_momentum_beta mo)) (mo_learning_rate mo)) (f64_of_f32 v)))
     in rbind (vec_add_f64 (lrm_weights m) (idx index) avg) (\<lambda>ws.
        Inr (mo\<lparr>mo_momentum_avg := avg\<rparr>, m\<lparr>lrm_weights := ws\<rparr>)))"

definition nesterov_edit_weight :: "momentum \<Rightarrow> f64 \<Rightarrow> f64" where
  "nesterov_edit_weight mo weight = f64_add weight (f64_mul (mo_momentum_beta mo) (mo_momentum_avg mo))"

text \<open>\<open>OptimizationMethod::edit_weight\<close>, inherited by the other three.\<close>

definition default_edit_weight :: "f64 \<Rightarrow> f64" where
  "default_edit_weight weight = weight"

lemmas optim_evals [eval_defs] =
  sgd_step_def adagrad_opt_step_def momentum_new_def momentum_step_def nesterov_step_def
  nesterov_edit_weight_def default_edit_weight_def

lemma vec_add_ok: "i < length ws \<Longrightarrow> vec_add_f64 ws i d = Inr (ws[i := f32_of_f64 (f64_add (f64_of_f32 (ws ! i)) d)])"
  by (simp add: vec_add_f64_def vec_get_def)

lemma vec_add_bad: "\<not> i < length ws \<Longrightarrow> vec_add_f64 ws i d = Inl Undefined_behaviour"
  by (simp add: vec_add_f64_def vec_get_def)

lemmas vec_add = vec_add_ok vec_add_bad

interpretation sgd: optimizer sgd_step
  by unfold_locales (auto simp: sgd_step_def model_wf_def vec_add split: prod.splits)

interpretation adagrad: optimizer adagrad_opt_step
  by unfold_locales (auto simp: adagrad_opt_step_def model_wf_def vec_add vec_get_def Let_def split: prod.splits)

interpretation momentum: optimizer momentum_step
  by unfold_locales (auto simp: momentum_step_def model_wf_def vec_add Let_def split: prod.splits)

interpretation nesterov: optimizer nesterov_step
  by unfold_locales (auto simp: nesterov_step_def model_wf_def vec_add Let_def split: prod.splits)

section \<open>An optimizer of any class\<close>

datatype opt_method =
    SGD f64
  | AdaGrad f64 f64
  | Momentum momentum
  | Nesterov momentum

definition opt_step :: "grad_entry \<Rightarrow> opt_method \<times> sparse_lr_model \<Rightarrow> (opt_method \<times> sparse_lr_model) res" where
  "opt_step e = (\<lambda>(opt, m). case opt of
       SGD lr \<Rightarrow> rbind (sgd_step e (lr, m)) (\<lambda>(lr, m). Inr (SGD lr, m))
     | AdaGrad lr ae \<Rightarrow> rbind (adagrad_opt_step e ((lr, ae), m)) (\<lambda>((lr, ae), m). Inr (AdaGrad lr ae, m))
     | Momentum mo \<Rightarrow> rbind (momentum_step e (mo, m)) (\<lambda>(mo, m). Inr (Momentum mo, m))
     | Nesterov mo \<Rightarrow> rbind (nesterov_step e (mo, m)) (\<lambda>(mo, m). Inr (Nesterov mo, m)))"

definition opt_sgd_update ::
    "model_gradient \<Rightarrow> opt_method \<times> sparse_lr_model \<Rightarrow> (opt_method \<times> sparse_lr_model) res" where
  "opt_sgd_update gradient s = rbind (as_sparse_gradient gradient) (\<lambda>grad. rfold opt_step (lrs_weights grad) s)"

definition opt_edit_weight :: "opt_method \<Rightarrow> f64 \<Rightarrow> f64" where
  "opt_edit_weight opt weight = (case opt of Nesterov mo \<Rightarrow> nesterov_edit_weight mo weight
     | _ \<Rightarrow> default_edit_weight weight)"

lemmas opt_evals [eval_defs] = opt_step_def opt_sgd_update_def opt_edit_weight_def

interpretation opt: optimizer opt_step
proof
  fix m and e :: grad_entry and o1 :: opt_method
  assume m: "model_wf m" and i: "idx (fst e) < length (lrm_weights m)"
  show "\<exists>o' m'. opt_step e (o1, m) = Inr (o', m') \<and> model_wf m' \<and>
        length (lrm_weights m') = length (lrm_weights m) \<and>
        (\<forall>k. k \<noteq> idx (fst e) \<longrightarrow> lrm_weights m' ! k = lrm_weights m ! k)"
  proof (cases o1)
    case (SGD lr)
    then show ?thesis using sgd.step_ok[OF m i, of lr] by (auto simp: opt_step_def)
  next
    case (AdaGrad lr ae)
    then show ?thesis using adagrad.step_ok[OF m i, of "(lr, ae)"] by (auto simp: opt_step_def)
  next
    case (Momentum mo)
    then show ?thesis using momentum.step_ok[OF m i, of mo] by (auto simp: opt_step_def)
  next
    case (Nesterov mo)
    then show ?thesis using nesterov.step_ok[OF m i, of mo] by (auto simp: opt_step_def)
  qed
next
  fix m and e :: grad_entry and o1 :: opt_method
  assume "model_wf m" "\<not> idx (fst e) < length (lrm_weights m)"
  then show "opt_step e (o1, m) = Inl Undefined_behaviour"
    by (cases o1) (simp_all add: opt_step_def sgd.step_bad adagrad.step_bad momentum.step_bad nesterov.step_bad)
qed

lemma opt_sgd_update_shape:
  "model_wf m \<Longrightarrow> opt_sgd_update g (o1, m) = Inr (o', m') \<Longrightarrow>
   model_wf m' \<and> length (lrm_weights m') = length (lrm_weights m)"
  using opt.update_shape by (auto simp: opt_sgd_update_def opt.update_def)

text \<open>
  Applying a sparse gradient whose indices lie inside the model succeeds under every update
  rule, keeps the number of weights, and changes no weight the gradient does not name.
\<close>

lemma opt_update_local:
  assumes "model_wf m" "\<forall>e\<in>set (lrs_weights g). idx (fst e) < length (lrm_weights m)"
  shows "\<exists>o' m'. opt_sgd_update (LRSparseGradient g) (o1, m) = Inr (o', m') \<and> model_wf m' \<and>
    length (lrm_weights m') = length (lrm_weights m) \<and>
    (\<forall>k. k \<notin> (\<lambda>e. idx (fst e)) ` set (lrs_weights g) \<longrightarrow> lrm_weights m' ! k = lrm_weights m ! k)"
  using opt.update_ok[OF assms, of o1] by (simp add: opt_sgd_update_def as_sparse_gradient_def opt.update_def)

lemma opt_update_local_example:
  "\<exists>o' m'. opt_sgd_update (LRSparseGradient (lrs_of_vector [(1, 0x3F800000)]))
      (AdaGrad 0x3FE0000000000000 0, (lrm_new 3)\<lparr>lrm_weights := [5, 6, 7]\<rparr>) = Inr (o', m')
    \<and> lrm_weights m' ! 0 = 5 \<and> lrm_weights m' ! 2 = 7"
proof -
  have i1: "idx 1 = 1" by (simp add: idx_def)
  show ?thesis
    using opt_update_local[of "(lrm_new 3)\<lparr>lrm_weights := [5, 6, 7]\<rparr>" "lrs_of_vector [(1, 0x3F800000)]"
        "AdaGrad 0x3FE0000000000000 0"]
    by (force simp: model_wf_def lrm_new_def lrs_of_vector_def i1)
qed

text \<open>
  A gradient with an index outside of the model (a negative one among them) is not applied
  in part: the access is outside of the vector of weights and nothing is guaranteed after it.
\<close>

lemma opt_update_out_of_range:
  assumes "model_wf m" "\<exists>e\<in>set (lrs_weights g). \<not> idx (fst e) < length (lrm_weights m)"
  shows "opt_sgd_update (LRSparseGradient g) (o1, m) = Inl Undefined_behaviour"
  using opt.update_bad[OF assms] by (simp add: opt_sgd_update_def as_sparse_gradient_def opt.update_def)

lemma opt_update_out_of_range_example:
  "opt_sgd_update (LRSparseGradient (lrs_of_vector [(0, 0x3F800000), (- 1, 0x3F800000)])) (SGD 0, lrm_new 3)
     = Inl Undefined_behaviour"
  by (rule opt_update_out_of_range) (auto simp: model_wf_def lrm_new_def lrs_of_vector_def idx_def)

text \<open>
  \<open>SparseLRModel::sgd_update_adagrad\<close> and the class \<open>AdaGrad\<close> with
  \<open>adagrad_epsilon = 10e-8\<close> compute the same model, and \<open>SparseLRModel::sgd_update\<close> is the
  class \<open>SGD\<close>; both refuse every other kind of gradient.
\<close>

lemma model_updates_are_optimizers:
  "opt_sgd_update g (AdaGrad lr (f64_lit 10 (10 ^ 8)), m) =
     rbind (lrm_sgd_update_adagrad lr g m) (\<lambda>m'. Inr (AdaGrad lr (f64_lit 10 (10 ^ 8)), m'))
   \<and> opt_sgd_update g (SGD lr, m) = rbind (lrm_sgd_update lr g m) (\<lambda>m'. Inr (SGD lr, m'))"
proof -
  have a: "opt_step e (AdaGrad lr ae, m) = rbind (adagrad_step lr ae e m) (\<lambda>m'. Inr (AdaGrad lr ae, m'))" for e ae m
    by (cases e) (simp add: opt_step_def adagrad_opt_step_def adagrad_step_def rbind_assoc Let_def)
  have "rfold opt_step es (AdaGrad lr ae, m) =
      rbind (rfold (adagrad_step lr ae) es m) (\<lambda>m'. Inr (AdaGrad lr ae, m'))" for es ae
  proof (induction es arbitrary: m)
    case (Cons e es)
    then show ?case by (cases "adagrad_step lr ae e m") (simp_all add: a)
  qed simp
  then have ada: "opt_sgd_update g (AdaGrad lr (f64_lit 10 (10 ^ 8)), m) =
     rbind (lrm_sgd_update_adagrad lr g m) (\<lambda>m'. Inr (AdaGrad lr (f64_lit 10 (10 ^ 8)), m'))"
    by (simp add: opt_sgd_update_def lrm_sgd_update_adagrad_def rbind_assoc)
  have b: "opt_step e (SGD lr, m) = rbind (lrm_sgd_step lr e m) (\<lambda>m'. Inr (SGD lr, m'))" for e m
    by (cases e) (simp add: opt_step_def sgd_step_def lrm_sgd_step_def rbind_assoc)
  have "rfold opt_step es (SGD lr, m) = rbind (rfold (lrm_sgd_step lr) es m) (\<lambda>m'. Inr (SGD lr, m'))" for es
  proof (induction es arbitrary: m)
    case (Cons e es)
    then show ?case by (cases "lrm_sgd_step lr e m") (simp_all add: b)
  qed simp
  then have "opt_sgd_update g (SGD lr, m) = rbind (lrm_sgd_update lr g m) (\<lambda>m'. Inr (SGD lr, m'))"
    by (simp add: opt_sgd_update_def lrm_sgd_update_def rbind_assoc)
  with ada show ?thesis ..
qed

end
