(* ===== verification/MfModel.thy ===== *)
theory MfModel
  imports LrModel
begin

text \<open>
  Matrix factorisation: \<open>MFModel\<close> with its biases and latent factors, its serialised form, its
  predictions, its two updates and its loss (\<open>MFModel.h\<close>, \<open>MFModel.cpp\<close>). The draws of the
  normal distribution in \<open>randomize\<close> are an argument, the sequence of its results; \<open>pow\<close> of
  the C library is one too. \<open>DEBUG\<close> is not defined.
\<close>

section \<open>State\<close>

record mf_model =
  mf_nusers :: u64
  mf_nitems :: u64
  mf_nfactors :: u64
  mf_user_weights :: "f32 list"
  mf_item_weights :: "f32 list"
  mf_user_bias :: "f32 list"
  mf_item_bias :: "f32 list"
  mf_user_bias_reg :: f32
  mf_item_bias_reg :: f32
  mf_item_fact_reg :: f32
  mf_user_fact_reg :: f32
  mf_global_bias :: f32

definition mf_reg_param :: f32 where "mf_reg_param = f32_of_f64 (f64_lit 1 100)"
definition mf_mean_rating :: f32 where "mf_mean_rating = f32_of_f64 (f64_lit 3604 1000)"

definition mf_initialize_reg_params :: "mf_model \<Rightarrow> mf_model" where
  "mf_initialize_reg_params m = m\<lparr>mf_item_fact_reg := mf_reg_param, mf_user_fact_reg := mf_reg_param,
     mf_user_bias_reg := mf_reg_param, mf_item_bias_reg := mf_reg_param\<rparr>"

section \<open>Accessors\<close>

text \<open>The position of a factor, in 64-bit arithmetic.\<close>

definition mf_pos :: "u64 \<Rightarrow> u64 \<Rightarrow> mf_model \<Rightarrow> nat" where
  "mf_pos row factor m = unat (row * mf_nfactors m + factor)"

definition mf_get_user_weights :: "u64 \<Rightarrow> u64 \<Rightarrow> mf_model \<Rightarrow> f32 res" where
  "mf_get_user_weights userId factor m = vec_at (mf_user_weights m) (mf_pos userId factor m)"

definition mf_get_item_weights :: "u64 \<Rightarrow> u64 \<Rightarrow> mf_model \<Rightarrow> f32 res" where
  "mf_get_item_weights itemId factor m = vec_at (mf_item_weights m) (mf_pos itemId factor m)"

text \<open>Assignment through the references that the same functions return.\<close>

definition mf_set_user_weights :: "u64 \<Rightarrow> u64 \<Rightarrow> f32 \<Rightarrow> mf_model \<Rightarrow> mf_model res" where
  "mf_set_user_weights userId factor v m =
     rbind (vec_set_at (mf_user_weights m) (mf_pos userId factor m) v) (\<lambda>ws. Inr (m\<lparr>mf_user_weights := ws\<rparr>))"

definition mf_set_item_weights :: "u64 \<Rightarrow> u64 \<Rightarrow> f32 \<Rightarrow> mf_model \<Rightarrow> mf_model res" where
  "mf_set_item_weights itemId factor v m =
     rbind (vec_set_at (mf_item_weights m) (mf_pos itemId factor m) v) (\<lambda>ws. Inr (m\<lparr>mf_item_weights := ws\<rparr>))"

definition mf_get_user_bias :: "u64 \<Rightarrow> mf_model \<Rightarrow> f32 res" where
  "mf_get_user_bias userId m =
     rbind (guard_rt (\<not> unat userId \<ge> length (mf_user_bias m)) ''User bias index too large'') (\<lambda>_.
     vec_at (mf_user_bias m) (unat userId))"

definition mf_get_item_bias :: "u64 \<Rightarrow> mf_model \<Rightarrow> f32 res" where
  "mf_get_item_bias itemId m =
     rbind (guard_rt (\<not> unat itemId \<ge> length (mf_item_bias m)) ''Item bias index too large'') (\<lambda>_.
     vec_at (mf_item_bias m) (unat itemId))"

section \<open>Construction\<close>

text \<open>The weights of the users, then of the items, take the results of the generator in order.\<close>

definition mf_randomize :: "(nat \<Rightarrow> f32) \<Rightarrow> mf_model \<Rightarrow> mf_model res" where
  "mf_randomize draw m =
     rbind (rfold (\<lambda>i. rfold (\<lambda>j (k, m).
         rbind (mf_set_user_weights (word_of_nat i) (word_of_nat j) (draw k) m) (\<lambda>m. Inr (k + 1, m)))
           [0..<unat (mf_nfactors m)]) [0..<unat (mf_nusers m)] (0, m)) (\<lambda>s.
     rbind (rfold (\<lambda>i. rfold (\<lambda>j (k, m).
         rbind (mf_set_item_weights (word_of_nat i) (word_of_nat j) (draw k) m) (\<lambda>m. Inr (k + 1, m)))
           [0..<unat (mf_nfactors m)]) [0..<unat (mf_nitems m)] s) (\<lambda>(_, m). Inr m))"

definition mf_initialize_data :: "(nat \<Rightarrow> f32) \<Rightarrow> u64 \<Rightarrow> u64 \<Rightarrow> u64 \<Rightarrow> mf_model \<Rightarrow> mf_model res" where
  "mf_initialize_data draw users items nfactors m =
     (let m = m\<lparr>mf_user_weights := vec_resize 0 (unat (users * nfactors)) (mf_user_weights m),
                mf_item_weights := vec_resize 0 (unat (items * nfactors)) (mf_item_weights m),
                mf_global_bias := mf_mean_rating,
                mf_user_bias := vec_resize 0 (unat users) (mf_user_bias m),
                mf_item_bias := vec_resize 0 (unat items) (mf_item_bias m)\<rparr>;
          m = mf_initialize_reg_params m
      in mf_randomize draw (m\<lparr>mf_nusers := users, mf_nitems := items, mf_nfactors := nfactors\<rparr>))"

text \<open>
  The object before a constructor's body runs: empty vectors and \<open>global_bias_\<close> zero, while the
  counts and regularisation parameters hold whatever \<open>garbage\<close> is in memory.
\<close>

definition mf_raw :: "mf_model \<Rightarrow> mf_model" where
  "mf_raw garbage = garbage\<lparr>mf_user_weights := [], mf_item_weights := [], mf_user_bias := [],
     mf_item_bias := [], mf_global_bias := 0\<rparr>"

definition mf_new :: "(nat \<Rightarrow> f32) \<Rightarrow> mf_model \<Rightarrow> u64 \<Rightarrow> u64 \<Rightarrow> u64 \<Rightarrow> mf_model res" where
  "mf_new draw garbage users items nfactors = mf_initialize_data draw users items nfactors (mf_raw garbage)"

text \<open>\<open>copy\<close> makes a new random model of the same dimensions.\<close>

definition mf_copy :: "(nat \<Rightarrow> f32) \<Rightarrow> mf_model \<Rightarrow> mf_model \<Rightarrow> mf_model res" where
  "mf_copy draw garbage m = mf_new draw garbage (mf_nusers m) (mf_nitems m) (mf_nfactors m)"

definition mf_size :: "mf_model \<Rightarrow> u64 res" where
  "mf_size m = Inl (Runtime_error ''Not implemented'')"

section \<open>Serialised form\<close>

definition mf_serialized_size :: "mf_model \<Rightarrow> u64" where
  "mf_serialized_size m = 8 * 3 +
     word_of_nat (length (mf_user_bias m)) * 4 + word_of_nat (length (mf_item_bias m)) * 4 +
     word_of_nat (length (mf_user_weights m)) * 4 + word_of_nat (length (mf_item_weights m)) * 4"

definition mf_serialize_to :: "mf_model \<Rightarrow> byte list" where
  "mf_serialize_to m =
     store_u64 (mf_nusers m) @ store_u64 (mf_nitems m) @ store_u64 (mf_nfactors m) @
     store_many store_float (mf_user_bias m) @ store_many store_float (mf_item_bias m) @
     store_many store_float (mf_user_weights m) @ store_many store_float (mf_item_weights m)"

text \<open>\<open>serialize()\<close> allocates as many bytes as the size says and writes all of the model into them.\<close>

definition mf_serialize :: "mf_model \<Rightarrow> (byte list \<times> u64) res" where
  "mf_serialize m = (if length (mf_serialize_to m) > unat (mf_serialized_size m) then Inl Undefined_behaviour
     else Inr (mf_serialize_to m @ replicate (unat (mf_serialized_size m) - length (mf_serialize_to m)) 0,
               mf_serialized_size m))"

text \<open>
  \<open>for (uint32_t i = 0; i < n; ++i)\<close> with a 64-bit \<open>n\<close>: from \<open>2\<^sup>3\<^sup>2\<close> on the counter wraps around
  below \<open>n\<close> and the loop runs on, past the end of the buffer it reads.
\<close>

definition upto32 :: "u64 \<Rightarrow> nat list res" where
  "upto32 n = (if unat n < 2 ^ 32 then Inr [0..<unat n] else Inl Undefined_behaviour)"

text \<open>A load into an element of a vector.\<close>

definition load_cell :: "(f32 list \<Rightarrow> nat \<Rightarrow> f32 \<Rightarrow> f32 list res) \<Rightarrow> nat \<Rightarrow> byte list \<times> f32 list \<Rightarrow>
    (byte list \<times> f32 list) res" where
  "load_cell upd i = (\<lambda>(data, v).
     load_then load_float data (\<lambda>x data. rbind (upd v i x) (\<lambda>v. Inr (data, v))))"

definition load_matrix :: "u64 \<Rightarrow> u64 \<Rightarrow> byte list \<times> f32 list \<Rightarrow> (byte list \<times> f32 list) res" where
  "load_matrix rows factors s =
     rbind (upto32 rows) (\<lambda>is. rfold (\<lambda>i s. rbind (upto32 factors) (\<lambda>js.
       rfold (\<lambda>j. load_cell vec_set_at (unat (word_of_nat i * factors + word_of_nat j))) js s)) is s)"

definition mf_load :: "byte list \<Rightarrow> mf_model \<Rightarrow> mf_model res" where
  "mf_load data m =
     load_then load_u64 data (\<lambda>nusers data.
     load_then load_u64 data (\<lambda>nitems data.
     load_then load_u64 data (\<lambda>nfactors data.
     rbind (upto32 nusers) (\<lambda>us. rbind (rfold (load_cell vec_set) us
       (data, vec_resize 0 (unat nusers) (mf_user_bias m))) (\<lambda>(data, ub).
     rbind (upto32 nitems) (\<lambda>is. rbind (rfold (load_cell vec_set) is
       (data, vec_resize 0 (unat nitems) (mf_item_bias m))) (\<lambda>(data, ib).
     rbind (load_matrix nusers nfactors
       (data, vec_resize 0 (unat (nusers * nfactors)) (mf_user_weights m))) (\<lambda>(data, uw).
     rbind (load_matrix nitems nfactors
       (data, vec_resize 0 (unat (nitems * nfactors)) (mf_item_weights m))) (\<lambda>(data, iw).
     Inr (m\<lparr>mf_nusers := nusers, mf_nitems := nitems, mf_nfactors := nfactors,
            mf_global_bias := mf_mean_rating, mf_user_bias := ub, mf_item_bias := ib,
            mf_user_weights := uw, mf_item_weights := iw\<rparr>))))))))))"

definition mf_of_data :: "mf_model \<Rightarrow> byte list \<Rightarrow> mf_model res" where
  "mf_of_data garbage data = mf_load data (mf_raw garbage)"

section \<open>Prediction and updates\<close>

definition mf_predict :: "u32 \<Rightarrow> u32 \<Rightarrow> mf_model \<Rightarrow> f32 res" where
  "mf_predict userId itemId m =
     rbind (vec_get (mf_user_bias m) (unat userId)) (\<lambda>ub.
     rbind (vec_get (mf_item_bias m) (unat itemId)) (\<lambda>ib.
     rbind (upto32 (mf_nfactors m)) (\<lambda>is.
     rfold (\<lambda>i res.
       rbind (mf_get_user_weights (ucast userId) (word_of_nat i) m) (\<lambda>uw.
       rbind (mf_get_item_weights (ucast itemId) (word_of_nat i) m) (\<lambda>iw.
       Inr (f32_add res (f32_mul uw iw))))) is (f32_add (f32_add (mf_global_bias m) ub) ib))))"

definition as_mf_sparse_gradient :: "model_gradient \<Rightarrow> mf_sparse_gradient res" where
  "as_mf_sparse_gradient g = (case g of MFSparseGradient s \<Rightarrow> Inr s | _ \<Rightarrow> Inl Assertion_failed)"

definition mf_add_user_bias :: "i32 \<times> f32 \<Rightarrow> mf_model \<Rightarrow> mf_model res" where
  "mf_add_user_bias = (\<lambda>(index, v) m.
     rbind (vec_get (mf_user_bias m) (idx index)) (\<lambda>b.
     Inr (m\<lparr>mf_user_bias := (mf_user_bias m)[idx index := f32_add b v]\<rparr>)))"

definition mf_add_item_bias :: "i32 \<times> f32 \<Rightarrow> mf_model \<Rightarrow> mf_model res" where
  "mf_add_item_bias = (\<lambda>(index, v) m.
     rbind (vec_get (mf_item_bias m) (idx index)) (\<lambda>b.
     Inr (m\<lparr>mf_item_bias := (mf_item_bias m)[idx index := f32_add b v]\<rparr>)))"

definition mf_add_user_row :: "i32 \<times> f32 list \<Rightarrow> mf_model \<Rightarrow> mf_model res" where
  "mf_add_user_row = (\<lambda>(user_id, v) m.
     rbind (cassert (length v = NUM_FACTORS)) (\<lambda>_.
     rfold (\<lambda>i m. rbind (mf_get_user_weights (scast user_id) (word_of_nat i) m) (\<lambda>w.
       mf_set_user_weights (scast user_id) (word_of_nat i) (f32_add w (v ! i)) m)) [0..<length v] m))"

definition mf_add_item_row :: "i32 \<times> f32 list \<Rightarrow> mf_model \<Rightarrow> mf_model res" where
  "mf_add_item_row = (\<lambda>(item_id, v) m.
     rbind (cassert (length v = NUM_FACTORS)) (\<lambda>_.
     rfold (\<lambda>i m. rbind (mf_get_item_weights (scast item_id) (word_of_nat i) m) (\<lambda>w.
       mf_set_item_weights (scast item_id) (word_of_nat i) (f32_add w (v ! i)) m)) [0..<length v] m))"

definition mf_sgd_update :: "f64 \<Rightarrow> model_gradient \<Rightarrow> mf_model \<Rightarrow> mf_model res" where
  "mf_sgd_update learning_rate gradient m =
     rbind (as_mf_sparse_gradient gradient) (\<lambda>g.
     rbind (rfold mf_add_user_bias (users_bias_grad g) m) (\<lambda>m.
     rbind (rfold mf_add_item_bias (items_bias_grad g) m) (\<lambda>m.
     rbind (rfold mf_add_user_row (users_weights_grad g) m)
       (rfold mf_add_item_row (items_weights_grad g)))))"

text \<open>\<open>learning_rate * (error - reg * x)\<close> in \<open>double\<close>, the parenthesis in \<open>float\<close>.\<close>

definition mf_delta_bias :: "f64 \<Rightarrow> f32 \<Rightarrow> f32 \<Rightarrow> f32 \<Rightarrow> f64" where
  "mf_delta_bias learning_rate err reg b =
     f64_mul learning_rate (f64_of_f32 (f32_sub err (f32_mul reg b)))"

definition mf_delta_weight :: "f64 \<Rightarrow> f32 \<Rightarrow> f32 \<Rightarrow> f32 \<Rightarrow> f32 \<Rightarrow> f32" where
  "mf_delta_weight learning_rate err other reg own =
     f32_of_f64 (f64_mul learning_rate (f64_of_f32 (f32_sub (f32_mul err other) (f32_mul reg own))))"

definition mf_update_rating :: "f64 \<Rightarrow> u64 \<Rightarrow> i32 \<times> f32 \<Rightarrow> mf_model \<Rightarrow> mf_model res" where
  "mf_update_rating learning_rate user = (\<lambda>(item, rating) m.
     let itemId = (scast item :: u64) in
     rbind (mf_predict (ucast user) (ucast itemId) m) (\<lambda>pred.
     let err = f32_sub rating pred in
     rbind (guard_rt (\<not> (itemId \<ge> mf_nitems m \<or> user \<ge> mf_nusers m)) ''Wrong value here'') (\<lambda>_.
     rbind (vec_get (mf_user_bias m) (unat user)) (\<lambda>ub.
     rbind (vec_add_f64 (mf_user_bias m) (unat user)
              (mf_delta_bias learning_rate err (mf_user_bias_reg m) ub)) (\<lambda>ubs.
     rbind (vec_get (mf_item_bias m) (unat itemId)) (\<lambda>ib.
     rbind (vec_add_f64 (mf_item_bias m) (unat itemId)
              (mf_delta_bias learning_rate err (mf_item_bias_reg m) ib)) (\<lambda>ibs.
     let m = m\<lparr>mf_user_bias := ubs, mf_item_bias := ibs\<rparr> in
     rbind (rfold (\<lambda>k m.
         rbind (mf_get_item_weights itemId (word_of_nat k) m) (\<lambda>iw.
         rbind (mf_get_user_weights user (word_of_nat k) m) (\<lambda>uw.
         mf_set_user_weights user (word_of_nat k)
           (f32_add uw (mf_delta_weight learning_rate err iw (mf_user_fact_reg m) uw)) m)))
       [0..<unat (mf_nfactors m)] m)
     (rfold (\<lambda>k m.
         rbind (mf_get_user_weights user (word_of_nat k) m) (\<lambda>uw.
         rbind (mf_get_item_weights itemId (word_of_nat k) m) (\<lambda>iw.
         mf_set_item_weights itemId (word_of_nat k)
           (f32_add iw (mf_delta_weight learning_rate err uw (mf_item_fact_reg m) iw)) m)))
       [0..<unat (mf_nfactors m)]))))))))"

definition mf_sgd_update_data :: "f64 \<Rightarrow> u64 \<Rightarrow> sparse_dataset \<Rightarrow> mf_model \<Rightarrow> mf_model res" where
  "mf_sgd_update_data learning_rate base_user dataset =
     rfold (\<lambda>i. rfold (mf_update_rating learning_rate (base_user + word_of_nat i)) (sd_data dataset ! i))
       [0..<length (sd_data dataset)]"

section \<open>Loss, checksum and gradients\<close>

definition mf_loss_step :: "(f64 \<Rightarrow> f64 \<Rightarrow> f64) \<Rightarrow> mf_model \<Rightarrow> u64 \<Rightarrow> i32 \<times> f32 \<Rightarrow> f64 \<times> u64 \<Rightarrow>
    (f64 \<times> u64) res" where
  "mf_loss_step pow m off_userId = (\<lambda>(item, rating) (err, count).
     let movieId = (scast item :: u64) in
     rbind (mf_predict (ucast off_userId) (ucast movieId) m) (\<lambda>prediction.
     let e = f32_sub rating prediction;
         e_pow_2 = f32_of_f64 (pow (f64_of_f32 e) (f64_of_int 2));
         err = f64_add err (f64_of_f32 e_pow_2)
     in rbind (guard_rt (\<not> (f32_isnan e \<or> f64_isnan err)) ''nan in calc_loss rating: '') (\<lambda>_.
        Inr (err, count + 1))))"

definition mf_calc_loss :: "(f64 \<Rightarrow> f64 \<Rightarrow> f64) \<Rightarrow> sparse_dataset \<Rightarrow> u32 \<Rightarrow> mf_model \<Rightarrow> (f64 \<times> f64) res" where
  "mf_calc_loss pow dataset start_index m =
     rbind (rfold (\<lambda>userId. rfold (mf_loss_step pow m (word_of_nat userId + ucast start_index))
              (sd_data dataset ! userId)) [0..<length (sd_data dataset)] (0, 0)) (\<lambda>(err, count).
     rbind (guard_rt (\<not> f64_isnan err) ''error isnan'') (\<lambda>_.
     Inr (err, f64_of_int (uint count))))"

definition mf_gradient_size :: "mf_model \<Rightarrow> u64 res" where
  "mf_gradient_size m = rbind (mf_size m) (\<lambda>n. Inr (n * 4))"

definition mf_load_gradient :: "byte list \<Rightarrow> model_gradient res" where
  "mf_load_gradient mem = rbind (mfg_load mem (mfg_new 10 10)) (\<lambda>g. Inr (MFGradient g))"

definition mf_checksum :: "mf_model \<Rightarrow> f64" where
  "mf_checksum m = f64_of_int (uint (crc32 (store_many store_float (mf_user_weights m))))"

definition mf_minibatch_grad :: "mf_model \<Rightarrow> model_gradient res" where
  "mf_minibatch_grad m = Inl (Runtime_error ''Not implemented'')"

definition mf_calc_loss_dense :: "mf_model \<Rightarrow> (f64 \<times> f64) res" where
  "mf_calc_loss_dense m = Inl (Runtime_error ''Not implemented'')"

definition mf_deserialize :: "byte list \<Rightarrow> u64 \<Rightarrow> mf_model res" where
  "mf_deserialize data n = Inl (Runtime_error ''Not implemented'')"

lemmas mf_evals [eval_defs] =
  mf_initialize_reg_params_def mf_pos_def mf_get_user_weights_def mf_get_item_weights_def
  mf_set_user_weights_def mf_set_item_weights_def mf_get_user_bias_def mf_get_item_bias_def
  mf_randomize_def mf_initialize_data_def mf_raw_def mf_new_def mf_copy_def mf_size_def
  mf_serialized_size_def mf_serialize_to_def upto32_def load_cell_def load_matrix_def mf_load_def
  mf_of_data_def mf_predict_def as_mf_sparse_gradient_def mf_add_user_bias_def mf_add_item_bias_def
  mf_add_user_row_def mf_add_item_row_def mf_sgd_update_def

section \<open>Shape of the model\<close>

text \<open>Vectors as long as the counts say, and counts that the 32-bit loop counters reach.\<close>

definition mf_wf :: "mf_model \<Rightarrow> bool" where
  "mf_wf m \<longleftrightarrow> length (mf_user_bias m) = unat (mf_nusers m) \<and> length (mf_item_bias m) = unat (mf_nitems m)
     \<and> length (mf_user_weights m) = unat (mf_nusers m) * unat (mf_nfactors m)
     \<and> length (mf_item_weights m) = unat (mf_nitems m) * unat (mf_nfactors m)
     \<and> unat (mf_nusers m) < 2 ^ 32 \<and> unat (mf_nitems m) < 2 ^ 32 \<and> unat (mf_nfactors m) < 2 ^ 30"

lemma pos_bound: "i < n \<Longrightarrow> j < f \<Longrightarrow> i * f + j < n * (f :: nat)"
  using mult_le_mono1[of "Suc i" n f] by simp

lemma unat_pos:
  assumes "i < unat rows" "j < unat factors" "unat rows < 2 ^ 32" "unat factors < 2 ^ 32"
  shows "unat (word_of_nat i * factors + word_of_nat j :: u64) = i * unat factors + j"
proof -
  have "i * unat factors + j < unat rows * unat factors" using assms(1,2) by (rule pos_bound)
  also have "\<dots> \<le> 2 ^ 32 * 2 ^ 32" using assms(3,4) by (intro mult_le_mono) auto
  finally have "i * unat factors + j < 2 ^ 64" by simp
  moreover have "word_of_nat i * factors + word_of_nat j = (word_of_nat (i * unat factors + j) :: u64)"
    by simp
  ultimately show ?thesis by (simp only: unat_of_nat) (simp add: take_bit_nat_eq_self)
qed

section \<open>The serialised model\<close>

lemma load_cells:
  assumes "\<And>v i x. i < length v \<Longrightarrow> upd v i x = Inr (v[i := x])" "k + length ws \<le> length v"
  shows "rfold (load_cell upd) [k..<k + length ws] (store_many store_u32 ws @ r, v)
    = Inr (r, take k v @ ws @ drop (k + length ws) v)"
  using assms(2)
proof (induction ws arbitrary: k v)
  case (Cons w ws)
  have "rfold (load_cell upd) [Suc k..<Suc k + length ws] (store_many store_u32 ws @ r, v[k := w])
      = Inr (r, take (Suc k) (v[k := w]) @ ws @ drop (Suc k + length ws) (v[k := w]))"
    using Cons.prems by (intro Cons.IH) simp
  moreover have "take (Suc k) (v[k := w]) = take k v @ [w]"
    using Cons.prems by (simp add: take_Suc_conv_app_nth)
  moreover have "[k..<k + length (w # ws)] = k # [Suc k..<Suc k + length ws]"
    by (subst upt_rec) (simp del: upt_Suc)
  moreover have "load_cell upd k (store_many store_u32 (w # ws) @ r, v)
      = Inr (store_many store_u32 ws @ r, v[k := w])"
    using Cons.prems by (simp add: load_cell_def assms(1))
  ultimately show ?case using Cons.prems by (simp del: upt_Suc)
qed simp

lemma load_all_cells:
  assumes "\<And>v i x. i < length v \<Longrightarrow> upd v i x = Inr (v[i := x])" "length v = n" "length ws = n"
  shows "rfold (load_cell upd) [0..<n] (store_many store_u32 ws @ r, v) = Inr (r, ws)"
  using load_cells[of upd 0 ws v r] assms by simp

lemma concat_ranges: "concat (map (\<lambda>i. [i * f..<i * f + f]) [0..<n]) = [0..<n * (f :: nat)]"
proof (induction n)
  case (Suc n)
  have "[0..<n * f + f] = [0..<n * f] @ [n * f..<n * f + f]" by (rule upt_add_eq_append) simp
  with Suc show ?case by (simp add: add.commute)
qed simp

lemma load_matrix_ranges:
  assumes "unat rows < 2 ^ 32" "unat factors < 2 ^ 32"
  shows "load_matrix rows factors s = rfold (load_cell vec_set_at) [0..<unat rows * unat factors] s"
proof -
  have "load_matrix rows factors s = rfold (\<lambda>i. rfold (\<lambda>j.
      load_cell vec_set_at (unat (word_of_nat i * factors + word_of_nat j))) [0..<unat factors]) [0..<unat rows] s"
    using assms by (simp add: load_matrix_def upto32_def)
  also have "\<dots> = rfold (\<lambda>i. rfold (load_cell vec_set_at) [i * unat factors..<i * unat factors + unat factors])
      [0..<unat rows] s"
  proof (rule rfold_cong[OF refl refl])
    fix i u assume "i \<in> set [0..<unat rows]"
    then have "rfold (\<lambda>j. load_cell vec_set_at (unat (word_of_nat i * factors + word_of_nat j))) [0..<unat factors] u
      = rfold (\<lambda>j. load_cell vec_set_at (i * unat factors + j)) [0..<unat factors] u"
      using assms by (intro rfold_cong refl) (simp add: unat_pos)
    also have "\<dots> = rfold (load_cell vec_set_at) (map (\<lambda>j. i * unat factors + j) [0..<unat factors]) u"
      by (simp only: rfold_map)
    also have "map (\<lambda>j. i * unat factors + j) [0..<unat factors] = [i * unat factors..<i * unat factors + unat factors]"
      using map_add_upt[of "i * unat factors" "unat factors"] by (simp add: add.commute)
    finally show "rfold (\<lambda>j. load_cell vec_set_at (unat (word_of_nat i * factors + word_of_nat j))) [0..<unat factors] u
      = rfold (load_cell vec_set_at) [i * unat factors..<i * unat factors + unat factors] u" .
  qed
  also have "\<dots> = rfold (load_cell vec_set_at)
      (concat (map (\<lambda>i. [i * unat factors..<i * unat factors + unat factors]) [0..<unat rows])) s"
    by (simp only: rfold_map rfold_concat[symmetric])
  finally show ?thesis by (simp only: concat_ranges)
qed

lemma load_matrix_store:
  assumes "unat rows < 2 ^ 32" "unat factors < 2 ^ 32" "length ws = unat rows * unat factors"
    and "length v = unat (rows * factors)"
  shows "load_matrix rows factors (store_many store_u32 ws @ r, v) = Inr (r, ws)"
proof -
  have "unat rows * unat factors \<le> (2 ^ 32 - 1) * (2 ^ 32 - 1)" using assms(1,2) by (intro mult_le_mono) auto
  then have "unat rows * unat factors < 2 ^ 64" by simp
  moreover have "rows * factors = word_of_nat (unat rows * unat factors)" by simp
  ultimately have "unat (rows * factors) = unat rows * unat factors"
    by (simp only: unat_of_nat) (simp add: take_bit_nat_eq_self)
  then show ?thesis using assms
    by (simp only: load_matrix_ranges) (rule load_all_cells, auto)
qed

lemma mf_serialized_length:
  "length (mf_serialize_to m) = 24 + 4 * length (mf_user_bias m) + 4 * length (mf_item_bias m)
     + 4 * length (mf_user_weights m) + 4 * length (mf_item_weights m)"
  by (simp add: mf_serialize_to_def)

text \<open>
  A model of consistent shape is loaded from its serialised form into any other one: the
  dimensions, biases and weights are the ones written, the global bias is the constant, the
  regularisation parameters are the receiver's.
\<close>

lemma mf_roundtrip:
  assumes "mf_wf m"
  shows "mf_load (mf_serialize_to m @ r) m' = Inr (m'\<lparr>mf_nusers := mf_nusers m, mf_nitems := mf_nitems m,
     mf_nfactors := mf_nfactors m, mf_global_bias := mf_mean_rating, mf_user_bias := mf_user_bias m,
     mf_item_bias := mf_item_bias m, mf_user_weights := mf_user_weights m, mf_item_weights := mf_item_weights m\<rparr>)"
proof -
  have [simp]: "upto32 (mf_nusers m) = Inr [0..<unat (mf_nusers m)]"
      "upto32 (mf_nitems m) = Inr [0..<unat (mf_nitems m)]"
    using assms by (auto simp: mf_wf_def upto32_def)
  have [simp]: "length v = unat (mf_nusers m) \<Longrightarrow> rfold (load_cell vec_set) [0..<unat (mf_nusers m)]
      (store_many store_u32 (mf_user_bias m) @ r, v) = Inr (r, mf_user_bias m)" for r v
    using assms by (intro load_all_cells) (auto simp: mf_wf_def)
  have [simp]: "length v = unat (mf_nitems m) \<Longrightarrow> rfold (load_cell vec_set) [0..<unat (mf_nitems m)]
      (store_many store_u32 (mf_item_bias m) @ r, v) = Inr (r, mf_item_bias m)" for r v
    using assms by (intro load_all_cells) (auto simp: mf_wf_def)
  have [simp]: "length v = unat (mf_nusers m * mf_nfactors m) \<Longrightarrow> load_matrix (mf_nusers m) (mf_nfactors m)
      (store_many store_u32 (mf_user_weights m) @ r, v) = Inr (r, mf_user_weights m)" for r v
    using assms by (intro load_matrix_store) (auto simp: mf_wf_def)
  have [simp]: "length v = unat (mf_nitems m * mf_nfactors m) \<Longrightarrow> load_matrix (mf_nitems m) (mf_nfactors m)
      (store_many store_u32 (mf_item_weights m) @ r, v) = Inr (r, mf_item_weights m)" for r v
    using assms by (intro load_matrix_store) (auto simp: mf_wf_def)
  show ?thesis by (simp add: mf_load_def mf_serialize_to_def)
qed

definition mf_small :: mf_model where
  "mf_small = \<lparr>mf_nusers = 2, mf_nitems = 1, mf_nfactors = 2, mf_user_weights = [1, 2, 3, 4],
     mf_item_weights = [5, 6], mf_user_bias = [7, 8], mf_item_bias = [9], mf_user_bias_reg = 0,
     mf_item_bias_reg = 0, mf_item_fact_reg = 0, mf_user_fact_reg = 0, mf_global_bias = 0\<rparr>"

lemma mf_roundtrip_example:
  "mf_load (mf_serialize_to mf_small @ [1]) mf_small = Inr (mf_small\<lparr>mf_global_bias := mf_mean_rating\<rparr>)"
  by (subst mf_roundtrip) (simp_all add: mf_wf_def mf_small_def)

section \<open>Applying a gradient\<close>

text \<open>
  The specification: a gradient is a list of additions to cells; every cell receives the ones
  addressed to it, in order, whatever the updates of the other cells.
\<close>

definition cell_sum :: "(nat \<times> f32) list \<Rightarrow> nat \<Rightarrow> f32 \<Rightarrow> f32" where
  "cell_sum ops k b = fold (\<lambda>(i, x) acc. if i = k then f32_add acc x else acc) ops b"

definition add_cells :: "(nat \<times> f32) list \<Rightarrow> f32 list \<Rightarrow> f32 list" where
  "add_cells ops v = map (\<lambda>k. cell_sum ops k (v ! k)) [0..<length v]"

definition bias_ops :: "(i32 \<times> f32) list \<Rightarrow> (nat \<times> f32) list" where
  "bias_ops = map (\<lambda>(i, x). (idx i, x))"

definition row_ops :: "i32 \<times> f32 list \<Rightarrow> (nat \<times> f32) list" where
  "row_ops row = map (\<lambda>j. (idx (fst row) * NUM_FACTORS + j, snd row ! j)) [0..<NUM_FACTORS]"

definition weight_ops :: "(i32 \<times> f32 list) list \<Rightarrow> (nat \<times> f32) list" where
  "weight_ops rows = concat (map row_ops rows)"

lemma length_add_cells [simp]: "length (add_cells ops v) = length v"
  by (simp add: add_cells_def)

lemma add_cells_nil [simp]: "add_cells [] v = v"
  by (simp add: add_cells_def cell_sum_def map_nth)

lemma add_cells_cons:
  "i < length v \<Longrightarrow> add_cells ((i, x) # ops) v = add_cells ops (v[i := f32_add (v ! i) x])"
  by (rule nth_equalityI) (auto simp: add_cells_def cell_sum_def nth_list_update)

lemma add_cells_append:
  "add_cells (xs @ ys) v = add_cells ys (add_cells xs v)"
  by (rule nth_equalityI) (auto simp: add_cells_def cell_sum_def)

lemma cell_sum_other: "k \<notin> fst ` set ops \<Longrightarrow> cell_sum ops k b = b"
  by (induction ops arbitrary: b) (auto simp: cell_sum_def)

text \<open>The ids of a gradient are those of the model, and every row has ten factors.\<close>

definition ids_below :: "nat \<Rightarrow> (i32 \<times> 'a) list \<Rightarrow> bool" where
  "ids_below n xs \<longleftrightarrow> (\<forall>x\<in>set xs. idx (fst x) < n)"

definition msg_fits :: "mf_sparse_gradient \<Rightarrow> mf_model \<Rightarrow> bool" where
  "msg_fits g m \<longleftrightarrow> mf_nfactors m = word_of_nat NUM_FACTORS
     \<and> ids_below (unat (mf_nusers m)) (users_bias_grad g) \<and> ids_below (unat (mf_nitems m)) (items_bias_grad g)
     \<and> ids_below (unat (mf_nusers m)) (users_weights_grad g)
     \<and> ids_below (unat (mf_nitems m)) (items_weights_grad g)
     \<and> (\<forall>row\<in>set (users_weights_grad g) \<union> set (items_weights_grad g). length (snd row) = NUM_FACTORS)"

lemma rfold_user_bias:
  "ids_below (length (mf_user_bias m)) xs \<Longrightarrow>
   rfold mf_add_user_bias xs m = Inr (m\<lparr>mf_user_bias := add_cells (bias_ops xs) (mf_user_bias m)\<rparr>)"
proof (induction xs arbitrary: m)
  case (Cons x xs)
  obtain i v where x: "x = (i, v)" by fastforce
  have i: "idx i < length (mf_user_bias m)" and xs: "ids_below (length (mf_user_bias m)) xs"
    using Cons.prems by (auto simp: ids_below_def x)
  then have "mf_add_user_bias x m = Inr (m\<lparr>mf_user_bias := (mf_user_bias m)[idx i := f32_add (mf_user_bias m ! idx i) v]\<rparr>)"
    by (simp add: mf_add_user_bias_def x vec_get_def)
  with i xs show ?case by (simp add: Cons.IH) (simp add: bias_ops_def x add_cells_cons)
qed (simp add: bias_ops_def)

lemma rfold_item_bias:
  "ids_below (length (mf_item_bias m)) xs \<Longrightarrow>
   rfold mf_add_item_bias xs m = Inr (m\<lparr>mf_item_bias := add_cells (bias_ops xs) (mf_item_bias m)\<rparr>)"
proof (induction xs arbitrary: m)
  case (Cons x xs)
  obtain i v where x: "x = (i, v)" by fastforce
  have i: "idx i < length (mf_item_bias m)" and xs: "ids_below (length (mf_item_bias m)) xs"
    using Cons.prems by (auto simp: ids_below_def x)
  then have "mf_add_item_bias x m = Inr (m\<lparr>mf_item_bias := (mf_item_bias m)[idx i := f32_add (mf_item_bias m ! idx i) v]\<rparr>)"
    by (simp add: mf_add_item_bias_def x vec_get_def)
  with i xs show ?case by (simp add: Cons.IH) (simp add: bias_ops_def x add_cells_cons)
qed (simp add: bias_ops_def)

lemma mf_pos_id:
  assumes "idx i < n" "n < 2 ^ 32" "mf_nfactors m = word_of_nat NUM_FACTORS" "j < NUM_FACTORS"
  shows "mf_pos (scast i) (word_of_nat j) m = idx i * NUM_FACTORS + j"
proof -
  have "scast i = (word_of_nat (idx i) :: u64)" 
    by (simp flip: unat_scast_idx)
  moreover have "unat (word_of_nat (idx i) * (word_of_nat NUM_FACTORS :: u64) + word_of_nat j)
     = idx i * unat (word_of_nat NUM_FACTORS :: u64) + j"
    using assms by (intro unat_pos[of _ "word_of_nat n :: u64"])
      (auto simp: NUM_FACTORS_def unat_of_nat take_bit_nat_eq_self)
  ultimately show ?thesis using assms by (simp add: mf_pos_def NUM_FACTORS_def)
qed

lemma row_end:
  assumes "idx i < n" "j < NUM_FACTORS"
  shows "idx i * NUM_FACTORS + j < n * NUM_FACTORS"
  using pos_bound[OF assms] by simp

text \<open>One row, one factor after the other.\<close>

lemma rfold_row:
  assumes "\<And>j ws. j \<in> set js \<Longrightarrow> length ws = n \<Longrightarrow> f j (put ws) = Inr (put (ws[p j := f32_add (ws ! p j) (x j)]))"
    and "length ws = n" "\<And>j. j \<in> set js \<Longrightarrow> p j < n"
  shows "rfold f js (put ws) = Inr (put (add_cells (map (\<lambda>j. (p j, x j)) js) ws))"
  using assms
proof (induction js arbitrary: ws)
  case (Cons j js)
  then have "rfold f js (put (ws[p j := f32_add (ws ! p j) (x j)]))
      = Inr (put (add_cells (map (\<lambda>j. (p j, x j)) js) (ws[p j := f32_add (ws ! p j) (x j)])))"
    by (intro Cons.IH) auto
  with Cons.prems show ?case by (simp add: add_cells_cons)
qed simp

lemma add_user_row:
  assumes "mf_wf m" "mf_nfactors m = word_of_nat NUM_FACTORS" "idx (fst row) < unat (mf_nusers m)"
    and "length (snd row) = NUM_FACTORS"
  shows "mf_add_user_row row m = Inr (m\<lparr>mf_user_weights := add_cells (row_ops row) (mf_user_weights m)\<rparr>)"
proof -
  let ?n = "unat (mf_nusers m)" and ?i = "fst row"
  have nf: "unat (mf_nfactors m) = NUM_FACTORS" using assms(2) by (simp add: NUM_FACTORS_def)
  have len: "length (mf_user_weights m) = ?n * NUM_FACTORS" "?n < 2 ^ 32"
    using assms(1) nf by (auto simp: mf_wf_def)
  have pos: "mf_pos (scast ?i) (word_of_nat j) (m\<lparr>mf_user_weights := ws\<rparr>) = idx ?i * NUM_FACTORS + j"
    if "j < NUM_FACTORS" for j ws
    using mf_pos_id[OF assms(3) len(2)] assms(2) that by (simp add: mf_pos_def)
  have "rfold (\<lambda>j m. rbind (mf_get_user_weights (scast ?i) (word_of_nat j) m) (\<lambda>w.
       mf_set_user_weights (scast ?i) (word_of_nat j) (f32_add w (snd row ! j)) m)) [0..<NUM_FACTORS]
       (m\<lparr>mf_user_weights := mf_user_weights m\<rparr>)
     = Inr (m\<lparr>mf_user_weights := add_cells (map (\<lambda>j. (idx ?i * NUM_FACTORS + j, snd row ! j)) [0..<NUM_FACTORS])
         (mf_user_weights m)\<rparr>)"
    by (rule rfold_row[where n = "?n * NUM_FACTORS"])
      (use len row_end[OF assms(3)] pos in \<open>auto simp: mf_get_user_weights_def mf_set_user_weights_def vec_at_def vec_set_at_def\<close>)
  then show ?thesis using assms(4) by (cases row) (simp add: mf_add_user_row_def row_ops_def)
qed

lemma add_item_row:
  assumes "mf_wf m" "mf_nfactors m = word_of_nat NUM_FACTORS" "idx (fst row) < unat (mf_nitems m)"
    and "length (snd row) = NUM_FACTORS"
  shows "mf_add_item_row row m = Inr (m\<lparr>mf_item_weights := add_cells (row_ops row) (mf_item_weights m)\<rparr>)"
proof -
  let ?n = "unat (mf_nitems m)" and ?i = "fst row"
  have nf: "unat (mf_nfactors m) = NUM_FACTORS" using assms(2) by (simp add: NUM_FACTORS_def)
  have len: "length (mf_item_weights m) = ?n * NUM_FACTORS" "?n < 2 ^ 32"
    using assms(1) nf by (auto simp: mf_wf_def)
  have pos: "mf_pos (scast ?i) (word_of_nat j) (m\<lparr>mf_item_weights := ws\<rparr>) = idx ?i * NUM_FACTORS + j"
    if "j < NUM_FACTORS" for j ws
    using mf_pos_id[OF assms(3) len(2)] assms(2) that by (simp add: mf_pos_def)
  have "rfold (\<lambda>j m. rbind (mf_get_item_weights (scast ?i) (word_of_nat j) m) (\<lambda>w.
       mf_set_item_weights (scast ?i) (word_of_nat j) (f32_add w (snd row ! j)) m)) [0..<NUM_FACTORS]
       (m\<lparr>mf_item_weights := mf_item_weights m\<rparr>)
     = Inr (m\<lparr>mf_item_weights := add_cells (map (\<lambda>j. (idx ?i * NUM_FACTORS + j, snd row ! j)) [0..<NUM_FACTORS])
         (mf_item_weights m)\<rparr>)"
    by (rule rfold_row[where n = "?n * NUM_FACTORS"])
      (use len row_end[OF assms(3)] pos in \<open>auto simp: mf_get_item_weights_def mf_set_item_weights_def vec_at_def vec_set_at_def\<close>)
  then show ?thesis using assms(4) by (cases row) (simp add: mf_add_item_row_def row_ops_def)
qed

lemma mf_wf_weights [wf_intros]:
  "mf_wf m \<Longrightarrow> mf_wf (m\<lparr>mf_user_weights := add_cells ops (mf_user_weights m)\<rparr>)"
  "mf_wf m \<Longrightarrow> mf_wf (m\<lparr>mf_item_weights := add_cells ops (mf_item_weights m)\<rparr>)"
  "mf_wf m \<Longrightarrow> mf_wf (m\<lparr>mf_user_bias := add_cells ops (mf_user_bias m)\<rparr>)"
  "mf_wf m \<Longrightarrow> mf_wf (m\<lparr>mf_item_bias := add_cells ops (mf_item_bias m)\<rparr>)"
  by (simp_all add: mf_wf_def)

lemma rfold_user_rows:
  assumes "mf_wf m" "mf_nfactors m = word_of_nat NUM_FACTORS" "ids_below (unat (mf_nusers m)) rows"
    and "\<forall>row\<in>set rows. length (snd row) = NUM_FACTORS"
  shows "rfold mf_add_user_row rows m = Inr (m\<lparr>mf_user_weights := add_cells (weight_ops rows) (mf_user_weights m)\<rparr>)"
  using assms
proof (induction rows arbitrary: m)
  case (Cons row rows)
  then show ?case
    by (simp add: ids_below_def add_user_row mf_wf_weights Cons.IH weight_ops_def add_cells_append)
qed (simp add: weight_ops_def)

lemma rfold_item_rows:
  assumes "mf_wf m" "mf_nfactors m = word_of_nat NUM_FACTORS" "ids_below (unat (mf_nitems m)) rows"
    and "\<forall>row\<in>set rows. length (snd row) = NUM_FACTORS"
  shows "rfold mf_add_item_row rows m = Inr (m\<lparr>mf_item_weights := add_cells (weight_ops rows) (mf_item_weights m)\<rparr>)"
  using assms
proof (induction rows arbitrary: m)
  case (Cons row rows)
  then show ?case
    by (simp add: ids_below_def add_item_row mf_wf_weights Cons.IH weight_ops_def add_cells_append)
qed (simp add: weight_ops_def)

lemma mf_update_eq:
  assumes "mf_wf m" "msg_fits g m"
  shows "mf_sgd_update lr (MFSparseGradient g) m = Inr (m\<lparr>
     mf_user_bias := add_cells (bias_ops (users_bias_grad g)) (mf_user_bias m),
     mf_item_bias := add_cells (bias_ops (items_bias_grad g)) (mf_item_bias m),
     mf_user_weights := add_cells (weight_ops (users_weights_grad g)) (mf_user_weights m),
     mf_item_weights := add_cells (weight_ops (items_weights_grad g)) (mf_item_weights m)\<rparr>)"
proof -
  define m1 where "m1 = m\<lparr>mf_user_bias := add_cells (bias_ops (users_bias_grad g)) (mf_user_bias m)\<rparr>"
  define m2 where "m2 = m1\<lparr>mf_item_bias := add_cells (bias_ops (items_bias_grad g)) (mf_item_bias m1)\<rparr>"
  define m3 where "m3 = m2\<lparr>mf_user_weights := add_cells (weight_ops (users_weights_grad g)) (mf_user_weights m2)\<rparr>"
  have wf: "mf_wf m1" "mf_wf m2" "mf_wf m3"
    unfolding m3_def m2_def m1_def by (intro wf_intros assms(1))+
  have dims: "mf_nusers m1 = mf_nusers m" "mf_nitems m1 = mf_nitems m" "mf_nfactors m2 = mf_nfactors m"
    "mf_nusers m2 = mf_nusers m" "mf_nfactors m3 = mf_nfactors m" "mf_nitems m3 = mf_nitems m"
    by (simp_all add: m3_def m2_def m1_def)
  have "rfold mf_add_user_bias (users_bias_grad g) m = Inr m1"
    using assms by (simp add: m1_def rfold_user_bias msg_fits_def mf_wf_def)
  moreover have "rfold mf_add_item_bias (items_bias_grad g) m1 = Inr m2"
    using assms wf(1) dims by (simp add: m2_def rfold_item_bias msg_fits_def mf_wf_def)
  moreover have "rfold mf_add_user_row (users_weights_grad g) m2 = Inr m3"
    using assms(2) wf(2) dims by (simp add: m3_def rfold_user_rows msg_fits_def)
  moreover have "rfold mf_add_item_row (items_weights_grad g) m3
      = Inr (m3\<lparr>mf_item_weights := add_cells (weight_ops (items_weights_grad g)) (mf_item_weights m3)\<rparr>)"
    using assms(2) wf(3) dims by (simp add: rfold_item_rows msg_fits_def)
  ultimately show ?thesis
    by (simp add: mf_sgd_update_def as_mf_sparse_gradient_def) (simp add: m3_def m2_def m1_def)
qed

text \<open>
  A gradient whose ids lie in the model is applied without error, and every bias and factor
  is what it was plus, one after the other, the entries of the gradient that address it; the
  learning rate has no part in it.
\<close>

lemma mf_update_refines:
  assumes "mf_wf m" "msg_fits g m"
  shows "mf_sgd_update lr (MFSparseGradient g) m = Inr (m\<lparr>
     mf_user_bias := add_cells (bias_ops (users_bias_grad g)) (mf_user_bias m),
     mf_item_bias := add_cells (bias_ops (items_bias_grad g)) (mf_item_bias m),
     mf_user_weights := add_cells (weight_ops (users_weights_grad g)) (mf_user_weights m),
     mf_item_weights := add_cells (weight_ops (items_weights_grad g)) (mf_item_weights m)\<rparr>)"
  by (rule mf_update_eq[OF assms])

definition mf_flat :: mf_model where
  "mf_flat = \<lparr>mf_nusers = 2, mf_nitems = 1, mf_nfactors = 10,
     mf_user_weights = replicate 20 0, mf_item_weights = replicate 10 0,
     mf_user_bias = [0, 0], mf_item_bias = [0], mf_user_bias_reg = 0,
     mf_item_bias_reg = 0, mf_item_fact_reg = 0, mf_user_fact_reg = 0, mf_global_bias = 0\<rparr>"

lemma mf_update_refines_example:
  "let g = \<lparr>users_bias_grad = [(1, f32_one)], items_bias_grad = [], users_weights_grad = [],
            items_weights_grad = []\<rparr>
   in mf_sgd_update 0 (MFSparseGradient g) mf_flat
        = Inr (mf_flat\<lparr>mf_user_bias := [0, f32_add 0 f32_one]\<rparr>)"
  unfolding Let_def
  by (subst mf_update_refines)
    (simp_all add: mf_wf_def mf_flat_def msg_fits_def ids_below_def idx_def NUM_FACTORS_def bias_ops_def
      weight_ops_def add_cells_cons)

section \<open>Construction and the checks of the online update\<close>

text \<open>Same shape: dimensions and vector lengths.\<close>

definition mf_shape :: "mf_model \<Rightarrow> u64 \<times> u64 \<times> u64 \<times> nat \<times> nat \<times> nat \<times> nat" where
  "mf_shape m = (mf_nusers m, mf_nitems m, mf_nfactors m, length (mf_user_bias m), length (mf_item_bias m),
     length (mf_user_weights m), length (mf_item_weights m))"

lemma mf_wf_shape: "mf_shape m = mf_shape m' \<Longrightarrow> mf_wf m = mf_wf m'"
  by (simp add: mf_shape_def mf_wf_def)

lemma mf_set_shape:
  "mf_set_user_weights i j v m = Inr m' \<Longrightarrow> mf_shape m' = mf_shape m"
  "mf_set_item_weights i j v m = Inr m' \<Longrightarrow> mf_shape m' = mf_shape m"
  by (auto simp: mf_set_user_weights_def mf_set_item_weights_def mf_shape_def)

lemma mf_add_row_shape:
  "mf_add_user_row row m = Inr m' \<Longrightarrow> mf_shape m' = mf_shape m"
  "mf_add_item_row row m = Inr m' \<Longrightarrow> mf_shape m' = mf_shape m"
proof -
  obtain i v where r: "row = (i, v)" by (cases row)
  show "mf_add_user_row row m = Inr m' \<Longrightarrow> mf_shape m' = mf_shape m"
    unfolding r mf_add_user_row_def prod.case rbind_eq_Inr
    by (elim exE conjE, erule rfold_inv[where P = "\<lambda>x. mf_shape x = mf_shape m"]) (auto dest: mf_set_shape)
  show "mf_add_item_row row m = Inr m' \<Longrightarrow> mf_shape m' = mf_shape m"
    unfolding r mf_add_item_row_def prod.case rbind_eq_Inr
    by (elim exE conjE, erule rfold_inv[where P = "\<lambda>x. mf_shape x = mf_shape m"]) (auto dest: mf_set_shape)
qed

lemma mf_sgd_update_shape: "mf_sgd_update lr g m = Inr m' \<Longrightarrow> mf_shape m' = mf_shape m"
proof -
  assume "mf_sgd_update lr g m = Inr m'"
  then obtain s :: mf_sparse_gradient and m1 m2 m3 where
    u: "rfold mf_add_user_bias (users_bias_grad s) m = Inr m1"
       "rfold mf_add_item_bias (items_bias_grad s) m1 = Inr m2"
       "rfold mf_add_user_row (users_weights_grad s) m2 = Inr m3"
       "rfold mf_add_item_row (items_weights_grad s) m3 = Inr m'"
    unfolding mf_sgd_update_def rbind_eq_Inr by blast
  have "mf_shape m1 = mf_shape m"
    by (rule rfold_inv[OF u(1)]) (auto simp: mf_add_user_bias_def mf_shape_def)
  moreover have "mf_shape m2 = mf_shape m1"
    by (rule rfold_inv[OF u(2)]) (auto simp: mf_add_item_bias_def mf_shape_def)
  moreover have "mf_shape m3 = mf_shape m2" by (rule rfold_inv[OF u(3)]) (auto simp: mf_add_row_shape)
  moreover have "mf_shape m' = mf_shape m3" by (rule rfold_inv[OF u(4)]) (auto simp: mf_add_row_shape)
  ultimately show ?thesis by simp
qed

lemma mf_set_user_ok:
  assumes "mf_wf m" "mf_shape s = mf_shape m" "i < unat (mf_nusers m)" "j < unat (mf_nfactors m)"
  shows "\<exists>m'. mf_set_user_weights (word_of_nat i) (word_of_nat j) v s = Inr m' \<and> mf_shape m' = mf_shape m"
proof -
  have "mf_pos (word_of_nat i) (word_of_nat j) s = i * unat (mf_nfactors m) + j"
    using assms by (simp add: mf_pos_def mf_shape_def mf_wf_def unat_pos)
  then show ?thesis using assms pos_bound[OF assms(3,4)]
    by (auto simp: mf_set_user_weights_def vec_set_at_def mf_shape_def mf_wf_def)
qed

lemma mf_set_item_ok:
  assumes "mf_wf m" "mf_shape s = mf_shape m" "i < unat (mf_nitems m)" "j < unat (mf_nfactors m)"
  shows "\<exists>m'. mf_set_item_weights (word_of_nat i) (word_of_nat j) v s = Inr m' \<and> mf_shape m' = mf_shape m"
proof -
  have "mf_pos (word_of_nat i) (word_of_nat j) s = i * unat (mf_nfactors m) + j"
    using assms by (simp add: mf_pos_def mf_shape_def mf_wf_def unat_pos)
  then show ?thesis using assms pos_bound[OF assms(3,4)]
    by (auto simp: mf_set_item_weights_def vec_set_at_def mf_shape_def mf_wf_def)
qed

lemma mf_randomize_ok:
  assumes "mf_wf m"
  shows "\<exists>m'. mf_randomize draw m = Inr m' \<and> mf_shape m' = mf_shape m"
proof -
  let ?P = "\<lambda>s :: nat \<times> mf_model. mf_shape (snd s) = mf_shape m"
  have users: "\<exists>s'. rfold (\<lambda>i. rfold (\<lambda>j (k, m).
         rbind (mf_set_user_weights (word_of_nat i) (word_of_nat j) (draw k) m) (\<lambda>m. Inr (k + 1, m)))
           [0..<unat (mf_nfactors m)]) [0..<unat (mf_nusers m)] (0, m) = Inr s' \<and> ?P s'"
  proof (rule rfold_total[where P = ?P], simp, rule rfold_total[where P = ?P], simp)
    fix i j and s :: "nat \<times> mf_model"
    assume "i \<in> set [0..<unat (mf_nusers m)]" "j \<in> set [0..<unat (mf_nfactors m)]" "?P s"
    with mf_set_user_ok[OF assms, of "snd s" i j "draw (fst s)"] show "\<exists>t'. (case s of (k, m) \<Rightarrow>
        rbind (mf_set_user_weights (word_of_nat i) (word_of_nat j) (draw k) m) (\<lambda>m. Inr (k + 1, m))) = Inr t' \<and> ?P t'"
      by (cases s) auto
  qed
  have items: "\<exists>s'. rfold (\<lambda>i. rfold (\<lambda>j (k, m).
         rbind (mf_set_item_weights (word_of_nat i) (word_of_nat j) (draw k) m) (\<lambda>m. Inr (k + 1, m)))
           [0..<unat (mf_nfactors m)]) [0..<unat (mf_nitems m)] s = Inr s' \<and> ?P s'" if "?P s" for s
  proof (rule rfold_total[where P = ?P], rule that, rule rfold_total[where P = ?P], simp)
    fix i j and s :: "nat \<times> mf_model"
    assume "i \<in> set [0..<unat (mf_nitems m)]" "j \<in> set [0..<unat (mf_nfactors m)]" "?P s"
    with mf_set_item_ok[OF assms, of "snd s" i j "draw (fst s)"] show "\<exists>t'. (case s of (k, m) \<Rightarrow>
        rbind (mf_set_item_weights (word_of_nat i) (word_of_nat j) (draw k) m) (\<lambda>m. Inr (k + 1, m))) = Inr t' \<and> ?P t'"
      by (cases s) auto
  qed
  from users items show ?thesis by (fastforce simp: mf_randomize_def)
qed

text \<open>A new model of representable dimensions is constructed without error, whatever the random draws, and has consistent shape.\<close>

lemma mf_new_wf:
  assumes "unat users < 2 ^ 32" "unat items < 2 ^ 32" "unat nfactors < 2 ^ 30"
  shows "\<exists>m. mf_new draw garbage users items nfactors = Inr m \<and> mf_wf m \<and>
     mf_nusers m = users \<and> mf_nitems m = items \<and> mf_nfactors m = nfactors"
proof -
  have prod: "unat (n * nfactors) = unat n * unat nfactors" if "unat n < 2 ^ 32" for n :: u64
  proof -
    have "unat n * unat nfactors \<le> (2 ^ 32 - 1) * (2 ^ 30)" using that assms(3) by (intro mult_le_mono) auto
    then have "unat n * unat nfactors < 2 ^ 64" by simp
    moreover have "n * nfactors = word_of_nat (unat n * unat nfactors)" by simp
    ultimately show ?thesis by (simp only: unat_of_nat) (simp add: take_bit_nat_eq_self)
  qed
  show ?thesis
    unfolding mf_new_def mf_initialize_data_def Let_def
    by (rule exE[OF mf_randomize_ok])
      (use assms prod in \<open>auto simp: mf_wf_def mf_initialize_reg_params_def mf_shape_def\<close>)
qed

lemma mf_new_wf_example:
  "\<exists>m. mf_new (\<lambda>n. word_of_nat n) mf_flat 3 4 10 = Inr m \<and> mf_wf m \<and>
     mf_nusers m = 3 \<and> mf_nitems m = 4 \<and> mf_nfactors m = 10"
  by (rule mf_new_wf) simp_all

text \<open>
  The online update predicts before it checks the user and item against the model's counts: for
  a user outside the model the read of the bias comes first, and the check is never reached.
\<close>

lemma mf_update_unchecked:
  assumes "mf_wf m" "unat (mf_nusers m) \<le> unat user" "unat user < 2 ^ 32"
  shows "mf_update_rating learning_rate user rating m = Inl Undefined_behaviour"
proof -
  have "unat (ucast user :: u32) = unat user"
    using assms(3) by (simp add: unsigned_ucast_eq take_bit_nat_eq_self)
  then show ?thesis using assms
    by (cases rating) (simp add: mf_update_rating_def mf_predict_def vec_get_def mf_wf_def)
qed

end
