(* ===== verification/SparseMf.thy ===== *)
theory SparseMf
  imports MfModel
begin

text \<open>
  \<open>SparseMFModel\<close>: the part of a matrix-factorisation model that a worker fetches for one
  minibatch, the gradient it computes from it, and the routine with which the server cuts it
  out of the dense model (\<open>SparseMFModel.h\<close>, \<open>SparseMFModel.cpp\<close>).
\<close>

section \<open>State\<close>

text \<open>
  \<open>item_models\<close> is an array of \<open>17770\<close> pairs, all of them zero and empty at first; it is kept as
  a function of the index, and every access checks the index against the array's length.
\<close>

type_synonym user_model = "i32 \<times> f32 \<times> f32 list"
type_synonym item_model = "f32 \<times> f32 list"

record sparse_mf_model =
  sm_user_models :: "user_model list"
  sm_item_models :: "nat \<Rightarrow> item_model"
  sm_user_bias_reg :: f32
  sm_item_bias_reg :: f32
  sm_item_fact_reg :: f32
  sm_user_fact_reg :: f32
  sm_nusers :: u64
  sm_nitems :: u64
  sm_nfactors :: u64
  sm_global_bias :: f32

definition NUM_ITEM_MODELS :: nat where "NUM_ITEM_MODELS = 17770"

definition arr_get :: "(nat \<Rightarrow> 'a) \<Rightarrow> nat \<Rightarrow> 'a res" where
  "arr_get a n = (if n < NUM_ITEM_MODELS then Inr (a n) else Inl Undefined_behaviour)"

definition arr_set :: "(nat \<Rightarrow> 'a) \<Rightarrow> nat \<Rightarrow> 'a \<Rightarrow> (nat \<Rightarrow> 'a) res" where
  "arr_set a n v = (if n < NUM_ITEM_MODELS then Inr (a(n := v)) else Inl Undefined_behaviour)"

lemma arr_access [simp]:
  "arr_get a n = Inr x \<longleftrightarrow> n < NUM_ITEM_MODELS \<and> x = a n"
  "arr_set a n v = Inr b \<longleftrightarrow> n < NUM_ITEM_MODELS \<and> b = a(n := v)"
  by (auto simp: arr_get_def arr_set_def)

definition sm_reg_param :: f32 where "sm_reg_param = f32_of_f64 (f64_lit 5 100)"

definition sm_initialize_weights :: "u64 \<Rightarrow> u64 \<Rightarrow> u64 \<Rightarrow> sparse_mf_model \<Rightarrow> sparse_mf_model" where
  "sm_initialize_weights users items nfactors m = m\<lparr>sm_item_fact_reg := sm_reg_param,
     sm_user_fact_reg := sm_reg_param, sm_user_bias_reg := sm_reg_param, sm_item_bias_reg := sm_reg_param,
     sm_global_bias := mf_mean_rating, sm_nusers := users, sm_nitems := items, sm_nfactors := nfactors\<rparr>"

text \<open>Before the constructors' bodies run; the numbers they all set are given as zero.\<close>

definition sm_raw :: sparse_mf_model where
  "sm_raw = \<lparr>sm_user_models = [], sm_item_models = (\<lambda>_. (0, [])), sm_user_bias_reg = 0,
     sm_item_bias_reg = 0, sm_item_fact_reg = 0, sm_user_fact_reg = 0, sm_nusers = 0, sm_nitems = 0,
     sm_nfactors = 0, sm_global_bias = 0\<rparr>"

definition sm_new :: "u64 \<Rightarrow> u64 \<Rightarrow> u64 \<Rightarrow> sparse_mf_model" where
  "sm_new users items nfactors = sm_initialize_weights users items nfactors sm_raw"

definition sm_copy :: "sparse_mf_model \<Rightarrow> sparse_mf_model" where
  "sm_copy m = sm_new (sm_nusers m) (sm_nitems m) (sm_nfactors m)"

section \<open>Accessors\<close>

definition sm_get_user_weights :: "u64 \<Rightarrow> u64 \<Rightarrow> sparse_mf_model \<Rightarrow> f32 res" where
  "sm_get_user_weights userId factor m =
     rbind (vec_get (sm_user_models m) (unat userId)) (\<lambda>(_, _, ws). vec_get ws (unat factor))"

definition sm_get_item_weights :: "u64 \<Rightarrow> u64 \<Rightarrow> sparse_mf_model \<Rightarrow> f32 res" where
  "sm_get_item_weights itemId factor m =
     rbind (arr_get (sm_item_models m) (unat itemId)) (\<lambda>(_, ws). vec_get ws (unat factor))"

definition sm_set_user_weights :: "u64 \<Rightarrow> u64 \<Rightarrow> f32 \<Rightarrow> sparse_mf_model \<Rightarrow> sparse_mf_model res" where
  "sm_set_user_weights userId factor x m =
     rbind (vec_get (sm_user_models m) (unat userId)) (\<lambda>(uid, b, ws).
     rbind (vec_set ws (unat factor) x) (\<lambda>ws.
     Inr (m\<lparr>sm_user_models := (sm_user_models m)[unat userId := (uid, b, ws)]\<rparr>)))"

definition sm_set_item_weights :: "u64 \<Rightarrow> u64 \<Rightarrow> f32 \<Rightarrow> sparse_mf_model \<Rightarrow> sparse_mf_model res" where
  "sm_set_item_weights itemId factor x m =
     rbind (arr_get (sm_item_models m) (unat itemId)) (\<lambda>(b, ws).
     rbind (vec_set ws (unat factor) x) (\<lambda>ws.
     rbind (arr_set (sm_item_models m) (unat itemId) (b, ws)) (\<lambda>items.
     Inr (m\<lparr>sm_item_models := items\<rparr>))))"

definition sm_randomize :: "(nat \<Rightarrow> f32) \<Rightarrow> sparse_mf_model \<Rightarrow> sparse_mf_model res" where
  "sm_randomize draw m =
     rbind (rfold (\<lambda>i. rfold (\<lambda>j (k, m).
         rbind (sm_set_user_weights (word_of_nat i) (word_of_nat j) (draw k) m) (\<lambda>m. Inr (k + 1, m)))
           [0..<unat (sm_nfactors m)]) [0..<unat (sm_nusers m)] (0, m)) (\<lambda>s.
     rbind (rfold (\<lambda>i. rfold (\<lambda>j (k, m).
         rbind (sm_set_item_weights (word_of_nat i) (word_of_nat j) (draw k) m) (\<lambda>m. Inr (k + 1, m)))
           [0..<unat (sm_nfactors m)]) [0..<unat (sm_nitems m)] s) (\<lambda>(_, m). Inr m))"

section \<open>Serialised form\<close>

definition sm_load_user :: "nat \<Rightarrow> byte list \<times> sparse_mf_model \<Rightarrow> (byte list \<times> sparse_mf_model) res" where
  "sm_load_user i = (\<lambda>(data, m).
     load_then load_u32 data (\<lambda>user_id data.
     load_then load_float data (\<lambda>user_bias data.
     load_then (load_many load_float NUM_FACTORS) data (\<lambda>ws data.
     Inr (data, m\<lparr>sm_user_models := sm_user_models m @ [(user_id, user_bias, ws)]\<rparr>)))))"

definition sm_load_item :: "nat \<Rightarrow> byte list \<times> sparse_mf_model \<Rightarrow> (byte list \<times> sparse_mf_model) res" where
  "sm_load_item i = (\<lambda>(data, m).
     load_then load_u32 data (\<lambda>item_id data.
     load_then load_float data (\<lambda>item_bias data.
     load_then (load_many load_float NUM_FACTORS) data (\<lambda>ws data.
     rbind (arr_set (sm_item_models m) (unat item_id) (item_bias, ws)) (\<lambda>items.
     Inr (data, m\<lparr>sm_item_models := items\<rparr>))))))"

definition sm_load :: "byte list \<Rightarrow> u64 \<Rightarrow> u64 \<Rightarrow> sparse_mf_model \<Rightarrow> sparse_mf_model res" where
  "sm_load data minibatch_size num_item_ids m =
     rbind (rfold sm_load_user [0..<unat minibatch_size] (data, m\<lparr>sm_nfactors := word_of_nat NUM_FACTORS\<rparr>))
       (\<lambda>(data, m).
     rbind (rfold sm_load_item [0..<unat num_item_ids] (data, m\<lparr>sm_global_bias := mf_mean_rating\<rparr>))
       (\<lambda>(_, m). Inr m))"

definition sm_of_data :: "byte list \<Rightarrow> u64 \<Rightarrow> u64 \<Rightarrow> sparse_mf_model res" where
  "sm_of_data data minibatch_size num_items = sm_load data minibatch_size num_items (sm_new 0 0 0)"

text \<open>\<open>serializeFromDense\<close>: the bytes stored at \<open>holder\<close>.\<close>

definition sm_store_user :: "mf_model \<Rightarrow> u32 \<Rightarrow> byte list \<Rightarrow> byte list res" where
  "sm_store_user mf i holder =
     rbind (mf_get_user_bias (ucast i) mf) (\<lambda>b.
     rbind (rmap (\<lambda>j. mf_get_user_weights (ucast i) (word_of_nat j) mf) [0..<NUM_FACTORS]) (\<lambda>ws.
     Inr (holder @ store_u32 i @ store_float b @ store_many store_float ws)))"

definition sm_store_item :: "mf_model \<Rightarrow> nat \<Rightarrow> byte list \<times> byte list \<Rightarrow> (byte list \<times> byte list) res" where
  "sm_store_item mf _ = (\<lambda>(item_data, holder).
     load_then load_u32 item_data (\<lambda>item_id item_data.
     rbind (mf_get_item_bias (ucast item_id) mf) (\<lambda>b.
     rbind (rmap (\<lambda>j. mf_get_item_weights (ucast item_id) (word_of_nat j) mf) [0..<NUM_FACTORS]) (\<lambda>ws.
     Inr (item_data, holder @ store_u32 item_id @ store_float b @ store_many store_float ws)))))"

text \<open>
  The user loop runs from \<open>base_user_id\<close> below \<open>base_user_id + minibatch_size\<close>, in 32 bits; when
  the sum wraps around it does not run at all.
\<close>

definition sm_serialize_from_dense ::
    "mf_model \<Rightarrow> u32 \<Rightarrow> u32 \<Rightarrow> u32 \<Rightarrow> byte list \<Rightarrow> byte list res" where
  "sm_serialize_from_dense mf base_user_id minibatch_size k_items item_data =
     rbind (rfold (\<lambda>i. sm_store_user mf (word_of_nat i))
              [unat base_user_id..<unat (base_user_id + minibatch_size)] []) (\<lambda>holder.
     rbind (rfold (sm_store_item mf) [0..<unat k_items] (item_data, holder)) (\<lambda>(_, holder).
     Inr holder))"

section \<open>Prediction\<close>

definition sm_predict :: "u32 \<Rightarrow> u32 \<Rightarrow> sparse_mf_model \<Rightarrow> f32 res" where
  "sm_predict userId itemId m =
     rbind (vec_get (sm_user_models m) (unat userId)) (\<lambda>(_, user_bias, _).
     rbind (arr_get (sm_item_models m) (unat itemId)) (\<lambda>(item_bias, _).
     rbind (upto32 (sm_nfactors m)) (\<lambda>is.
     rfold (\<lambda>i res.
       rbind (sm_get_user_weights (ucast userId) (word_of_nat i) m) (\<lambda>uw.
       rbind (sm_get_item_weights (ucast itemId) (word_of_nat i) m) (\<lambda>iw.
       Inr (f32_add res (f32_mul uw iw))))) is (f32_add (f32_add (sm_global_bias m) user_bias) item_bias))))"

section \<open>Gradient of a minibatch\<close>

text \<open>The local variables of \<open>minibatch_grad\<close>, beside the model, which it updates as it goes.\<close>

record mf_grad_state =
  gs_model :: sparse_mf_model
  gs_users_bias :: "(i32 \<times> f32) list"
  gs_items_bias :: "(i32 \<times> f32) list"
  gs_users_weights :: "(i32 \<times> f32 list) list"
  gs_item_map :: "nat \<Rightarrow> f32 list"
  gs_item_lst :: "i32 list"
  gs_user_row :: "f32 list"

text \<open>\<open>m[k] += x\<close> on an \<open>unordered_map<int, FEATURE_TYPE>\<close>.\<close>

definition bias_add :: "i32 \<Rightarrow> f32 \<Rightarrow> (i32 \<times> f32) list \<Rightarrow> (i32 \<times> f32) list" where
  "bias_add k x m = AList.update k (f32_add (case map_of m k of None \<Rightarrow> 0 | Some y \<Rightarrow> y) x) m"

definition sm_delta_bias :: "f32 \<Rightarrow> f32 \<Rightarrow> f32 \<Rightarrow> f32 \<Rightarrow> f32" where
  "sm_delta_bias learning_rate err reg b = f32_mul learning_rate (f32_sub err (f32_mul reg b))"

definition sm_delta_weight :: "f32 \<Rightarrow> f32 \<Rightarrow> f32 \<Rightarrow> f32 \<Rightarrow> f32 \<Rightarrow> f32" where
  "sm_delta_weight learning_rate err other reg own =
     f32_mul learning_rate (f32_sub (f32_mul err other) (f32_mul reg own))"

definition sm_user_bias_step :: "f32 \<Rightarrow> f32 \<Rightarrow> nat \<Rightarrow> i32 \<Rightarrow> mf_grad_state \<Rightarrow> mf_grad_state res" where
  "sm_user_bias_step learning_rate err user real_user s =
     (let m = gs_model s in
      rbind (vec_get (sm_user_models m) user) (\<lambda>(uid, b, ws).
        let delta = sm_delta_bias learning_rate err (sm_user_bias_reg m) b
        in Inr (s\<lparr>gs_users_bias := bias_add real_user delta (gs_users_bias s),
                gs_model := m\<lparr>sm_user_models := (sm_user_models m)[user := (uid, f32_add b delta, ws)]\<rparr>\<rparr>)))"

definition sm_item_bias_step :: "f32 \<Rightarrow> f32 \<Rightarrow> u64 \<Rightarrow> mf_grad_state \<Rightarrow> mf_grad_state res" where
  "sm_item_bias_step learning_rate err itemId s =
     (let m = gs_model s in
      rbind (arr_get (sm_item_models m) (unat itemId)) (\<lambda>(b, ws).
        let delta = sm_delta_bias learning_rate err (sm_item_bias_reg m) b
        in rbind (arr_set (sm_item_models m) (unat itemId) (f32_add b delta, ws)) (\<lambda>items.
           Inr (s\<lparr>gs_items_bias := bias_add (ucast itemId) delta (gs_items_bias s),
                gs_model := m\<lparr>sm_item_models := items\<rparr>\<rparr>))))"

definition sm_user_factor_step :: "f32 \<Rightarrow> f32 \<Rightarrow> nat \<Rightarrow> u64 \<Rightarrow> nat \<Rightarrow> mf_grad_state \<Rightarrow> mf_grad_state res" where
  "sm_user_factor_step learning_rate err user itemId k s =
     (let m = gs_model s in
      rbind (sm_get_item_weights itemId (word_of_nat k) m) (\<lambda>iw.
      rbind (sm_get_user_weights (word_of_nat user) (word_of_nat k) m) (\<lambda>uw.
        let delta = sm_delta_weight learning_rate err iw (sm_user_fact_reg m) uw
        in rbind (vec_get (gs_user_row s) k) (\<lambda>g.
           rbind (sm_set_user_weights (word_of_nat user) (word_of_nat k) (f32_add uw delta) m) (\<lambda>m.
           Inr (s\<lparr>gs_user_row := (gs_user_row s)[k := f32_add g delta], gs_model := m\<rparr>))))))"

definition sm_item_factor_step :: "f32 \<Rightarrow> f32 \<Rightarrow> nat \<Rightarrow> u64 \<Rightarrow> nat \<Rightarrow> mf_grad_state \<Rightarrow> mf_grad_state res" where
  "sm_item_factor_step learning_rate err user itemId k s =
     (let m = gs_model s in
      rbind (sm_get_user_weights (word_of_nat user) (word_of_nat k) m) (\<lambda>uw.
      rbind (sm_get_item_weights itemId (word_of_nat k) m) (\<lambda>iw.
        let delta = sm_delta_weight learning_rate err uw (sm_item_fact_reg m) iw
        in rbind (sm_set_item_weights itemId (word_of_nat k) (f32_add iw delta) m) (\<lambda>m.
           rbind (arr_get (gs_item_map s) (unat itemId)) (\<lambda>row0.
             let (row, lst) = (if row0 = [] then (replicate NUM_FACTORS 0, gs_item_lst s @ [ucast itemId])
                               else (row0, gs_item_lst s))
             in rbind (vec_get row k) (\<lambda>g.
                rbind (arr_set (gs_item_map s) (unat itemId) (row[k := f32_add g delta])) (\<lambda>items.
                Inr (s\<lparr>gs_model := m, gs_item_map := items, gs_item_lst := lst\<rparr>))))))))"

definition sm_rating_step :: "f32 \<Rightarrow> nat \<Rightarrow> i32 \<Rightarrow> i32 \<times> f32 \<Rightarrow> mf_grad_state \<Rightarrow> mf_grad_state res" where
  "sm_rating_step learning_rate user real_user = (\<lambda>(item, rating) s.
     let itemId = (scast item :: u64) in
     rbind (sm_predict (word_of_nat user) (ucast itemId) (gs_model s)) (\<lambda>pred.
     let err = f32_sub rating pred in
     rbind (sm_user_bias_step learning_rate err user real_user s) (\<lambda>s.
     rbind (sm_item_bias_step learning_rate err itemId s) (\<lambda>s.
     rbind (rfold (sm_user_factor_step learning_rate err user itemId)
              [0..<unat (sm_nfactors (gs_model s))] s) (\<lambda>s.
     rfold (sm_item_factor_step learning_rate err user itemId)
       [0..<unat (sm_nfactors (gs_model s))] s)))))"

definition sm_user_step :: "f32 \<Rightarrow> u64 \<Rightarrow> sparse_dataset \<Rightarrow> nat \<Rightarrow> mf_grad_state \<Rightarrow> mf_grad_state res" where
  "sm_user_step learning_rate base_user dataset user s =
     (let real_user = (ucast (base_user + word_of_nat user) :: i32) in
      rbind (rfold (sm_rating_step learning_rate user real_user) (sd_data dataset ! user)
               (s\<lparr>gs_user_row := replicate NUM_FACTORS 0,
                  gs_users_bias := AList.update real_user 0 (gs_users_bias s)\<rparr>)) (\<lambda>s.
      Inr (s\<lparr>gs_users_weights := gs_users_weights s @ [(real_user, gs_user_row s)]\<rparr>)))"

definition sm_collect_items :: "i32 \<Rightarrow> mf_grad_state \<times> (i32 \<times> f32 list) list \<Rightarrow>
    (mf_grad_state \<times> (i32 \<times> f32 list) list) res" where
  "sm_collect_items item_id = (\<lambda>(s, rows).
     rbind (arr_get (gs_item_map s) (idx item_id)) (\<lambda>row.
     rbind (arr_set (gs_item_map s) (idx item_id) []) (\<lambda>items.
     Inr (s\<lparr>gs_item_map := items\<rparr>, rows @ [(item_id, row)]))))"

definition sm_minibatch_grad ::
    "sparse_dataset \<Rightarrow> configuration \<Rightarrow> u64 \<Rightarrow> sparse_mf_model \<Rightarrow> (mf_sparse_gradient \<times> sparse_mf_model) res" where
  "sm_minibatch_grad dataset config base_user m =
     rbind (get_learning_rate config) (\<lambda>lr.
     rbind (rfold (sm_user_step (f32_of_f64 lr) base_user dataset) [0..<length (sd_data dataset)]
       \<lparr>gs_model = m, gs_users_bias = [], gs_items_bias = [], gs_users_weights = [],
        gs_item_map = (\<lambda>_. []), gs_item_lst = [], gs_user_row = replicate NUM_FACTORS 0\<rparr>) (\<lambda>s.
     rbind (rfold sm_collect_items (gs_item_lst s) (s, [])) (\<lambda>(s, rows).
     Inr (\<lparr>users_bias_grad = gs_users_bias s, items_bias_grad = gs_items_bias s,
           users_weights_grad = gs_users_weights s, items_weights_grad = rows\<rparr>, gs_model s))))"

definition sm_load_gradient :: "byte list \<Rightarrow> model_gradient res" where
  "sm_load_gradient mem = rbind (mfg_load mem (mfg_new 10 10)) (\<lambda>g. Inr (MFGradient g))"

definition sm_checksum :: "sparse_mf_model \<Rightarrow> f64" where
  "sm_checksum m = 0"

text \<open>The operations that are refused.\<close>

definition sm_deserialize :: "byte list \<Rightarrow> u64 \<Rightarrow> sparse_mf_model res" where
  "sm_deserialize data n = Inl (Runtime_error ''Not implemented'')"

definition sm_serialize :: "sparse_mf_model \<Rightarrow> byte list res" where
  "sm_serialize m = Inl (Runtime_error ''not implemented'')"

definition sm_serialize_to :: "sparse_mf_model \<Rightarrow> byte list res" where
  "sm_serialize_to m = Inl (Runtime_error ''Not implemented'')"

definition sm_serialized_size :: "sparse_mf_model \<Rightarrow> u64 res" where
  "sm_serialized_size m = Inl (Runtime_error ''Not implemented'')"

definition sm_sgd_update :: "f64 \<Rightarrow> model_gradient \<Rightarrow> sparse_mf_model \<Rightarrow> sparse_mf_model res" where
  "sm_sgd_update learning_rate gradient m = Inl (Runtime_error ''Not implemented'')"

definition sm_gradient_size :: "sparse_mf_model \<Rightarrow> u64 res" where
  "sm_gradient_size m = Inl (Runtime_error ''Not implemented'')"

section \<open>The model that is served\<close>

text \<open>Cutting users \<open>[base, base + n)\<close> and the items \<open>ids\<close> out of a dense model.\<close>

definition user_row :: "mf_model \<Rightarrow> nat \<Rightarrow> f32 list" where
  "user_row mf i = map (\<lambda>j. mf_user_weights mf ! (i * NUM_FACTORS + j)) [0..<NUM_FACTORS]"

definition item_row :: "mf_model \<Rightarrow> nat \<Rightarrow> f32 list" where
  "item_row mf i = map (\<lambda>j. mf_item_weights mf ! (i * NUM_FACTORS + j)) [0..<NUM_FACTORS]"

definition served_user :: "mf_model \<Rightarrow> nat \<Rightarrow> user_model" where
  "served_user mf i = (word_of_nat i, mf_user_bias mf ! i, user_row mf i)"

definition served_item :: "mf_model \<Rightarrow> nat \<Rightarrow> item_model" where
  "served_item mf i = (mf_item_bias mf ! i, item_row mf i)"

definition served :: "mf_model \<Rightarrow> nat \<Rightarrow> nat \<Rightarrow> u32 list \<Rightarrow> sparse_mf_model" where
  "served mf base n ids = (sm_new 0 0 0)\<lparr>sm_nfactors := word_of_nat NUM_FACTORS,
     sm_user_models := map (served_user mf) [base..<base + n],
     sm_item_models := (\<lambda>j. if j \<in> unat ` set ids then served_item mf j else (0, []))\<rparr>"

definition serves :: "mf_model \<Rightarrow> nat \<Rightarrow> nat \<Rightarrow> u32 list \<Rightarrow> bool" where
  "serves mf base n ids \<longleftrightarrow> mf_wf mf \<and> mf_nfactors mf = word_of_nat NUM_FACTORS
     \<and> base + n \<le> unat (mf_nusers mf) \<and> length ids < 2 ^ 32
     \<and> (\<forall>x\<in>set ids. unat x < unat (mf_nitems mf) \<and> unat x < NUM_ITEM_MODELS)"

definition store_vector :: "u32 \<Rightarrow> f32 \<Rightarrow> f32 list \<Rightarrow> byte list" where
  "store_vector i b ws = store_u32 i @ store_u32 b @ store_many store_u32 ws"

lemma length_rows [simp]: "length (user_row mf i) = NUM_FACTORS" "length (item_row mf i) = NUM_FACTORS"
  by (simp_all add: user_row_def item_row_def)

lemma mf_wf_ten:
  assumes "mf_wf mf" "mf_nfactors mf = word_of_nat NUM_FACTORS"
  shows "length (mf_user_weights mf) = unat (mf_nusers mf) * NUM_FACTORS"
    "length (mf_item_weights mf) = unat (mf_nitems mf) * NUM_FACTORS"
    "length (mf_user_bias mf) = unat (mf_nusers mf)" "length (mf_item_bias mf) = unat (mf_nitems mf)"
    "unat (mf_nusers mf) < 2 ^ 32" "unat (mf_nitems mf) < 2 ^ 32"
  using assms by (auto simp: mf_wf_def NUM_FACTORS_def)

lemma mf_pos_ten:
  assumes "i < 2 ^ 32" "mf_nfactors mf = word_of_nat NUM_FACTORS" "j < NUM_FACTORS"
  shows "mf_pos (word_of_nat i) (word_of_nat j) mf = i * NUM_FACTORS + j"
proof -
  have "word_of_nat i * (word_of_nat NUM_FACTORS :: u64) + word_of_nat j = word_of_nat (i * NUM_FACTORS + j)"
    by simp
  moreover have "i * NUM_FACTORS + j < 2 ^ 64" using assms by (simp add: NUM_FACTORS_def)
  ultimately have "unat (word_of_nat i * (word_of_nat NUM_FACTORS :: u64) + word_of_nat j) = i * NUM_FACTORS + j"
    by (simp only: unat_of_nat) (simp add: take_bit_nat_eq_self)
  then show ?thesis using assms(2) by (simp add: mf_pos_def)
qed

lemma ucast_small: "i < 2 ^ 32 \<Longrightarrow> ucast (word_of_nat i :: u32) = (word_of_nat i :: u64)"
  by (rule word_unat_eq_iff[THEN iffD2]) (simp add: unsigned_ucast_eq unat_of_nat take_bit_nat_eq_self)

lemma unat_u32_u64: "unat (ucast (x :: u32) :: u64) = unat x"
  using unat_u32[of x] by (simp add: unsigned_ucast_eq take_bit_nat_eq_self)

lemma mf_get_row:
  assumes "mf_wf mf" "mf_nfactors mf = word_of_nat NUM_FACTORS" "j < NUM_FACTORS"
  shows "i < unat (mf_nusers mf) \<Longrightarrow> mf_get_user_weights (word_of_nat i) (word_of_nat j) mf = Inr (user_row mf i ! j)"
    "i < unat (mf_nitems mf) \<Longrightarrow> mf_get_item_weights (word_of_nat i) (word_of_nat j) mf = Inr (item_row mf i ! j)"
  using mf_wf_ten[OF assms(1,2)] mf_pos_ten[OF _ assms(2,3), of i] row_end[of _ _ j] pos_bound[of i _ j NUM_FACTORS] assms(3)
  by (auto simp: mf_get_user_weights_def mf_get_item_weights_def vec_at_def user_row_def item_row_def)

lemma mf_get_all:
  assumes "mf_wf mf" "mf_nfactors mf = word_of_nat NUM_FACTORS"
  shows "i < unat (mf_nusers mf) \<Longrightarrow>
      rmap (\<lambda>j. mf_get_user_weights (word_of_nat i) (word_of_nat j) mf) [0..<NUM_FACTORS] = Inr (user_row mf i)"
    "i < unat (mf_nitems mf) \<Longrightarrow>
      rmap (\<lambda>j. mf_get_item_weights (word_of_nat i) (word_of_nat j) mf) [0..<NUM_FACTORS] = Inr (item_row mf i)"
proof -
  assume "i < unat (mf_nusers mf)"
  then show "rmap (\<lambda>j. mf_get_user_weights (word_of_nat i) (word_of_nat j) mf) [0..<NUM_FACTORS] = Inr (user_row mf i)"
    using rmap_Inr[of "[0..<NUM_FACTORS]" _ "\<lambda>j. user_row mf i ! j"] mf_get_row(1)[OF assms]
    by (simp add: map_nth[of "user_row mf i", simplified])
next
  assume "i < unat (mf_nitems mf)"
  then show "rmap (\<lambda>j. mf_get_item_weights (word_of_nat i) (word_of_nat j) mf) [0..<NUM_FACTORS] = Inr (item_row mf i)"
    using rmap_Inr[of "[0..<NUM_FACTORS]" _ "\<lambda>j. item_row mf i ! j"] mf_get_row(2)[OF assms]
    by (simp add: map_nth[of "item_row mf i", simplified])
qed

lemma store_users:
  assumes "mf_wf mf" "mf_nfactors mf = word_of_nat NUM_FACTORS" "\<forall>i\<in>set is. i < unat (mf_nusers mf)"
  shows "rfold (\<lambda>i. sm_store_user mf (word_of_nat i)) is h
    = Inr (h @ concat (map (\<lambda>i. store_vector (word_of_nat i) (mf_user_bias mf ! i) (user_row mf i)) is))"
  using assms(3)
proof (induction "is" arbitrary: h)
  case (Cons i "is")
  then have i: "i < unat (mf_nusers mf)" by simp
  with mf_wf_ten[OF assms(1,2)] have b: "mf_get_user_bias (word_of_nat i) mf = Inr (mf_user_bias mf ! i)"
    by (simp add: mf_get_user_bias_def unat_of_nat take_bit_nat_eq_self vec_at_def)
  from i mf_wf_ten[OF assms(1,2)]
  have "sm_store_user mf (word_of_nat i) h = Inr (h @ store_vector (word_of_nat i) (mf_user_bias mf ! i) (user_row mf i))"
    by (simp add: sm_store_user_def ucast_small b mf_get_all(1)[OF assms(1,2)] store_vector_def)
  with Cons show ?case by simp
qed simp

lemma store_items:
  assumes "mf_wf mf" "mf_nfactors mf = word_of_nat NUM_FACTORS" "\<forall>x\<in>set ids. unat x < unat (mf_nitems mf)"
    and "length ks = length ids"
  shows "rfold (sm_store_item mf) ks (store_many store_u32 ids @ r, h)
    = Inr (r, h @ concat (map (\<lambda>x. store_vector x (mf_item_bias mf ! unat x) (item_row mf (unat x))) ids))"
  using assms(3,4)
proof (induction ids arbitrary: h ks)
  case (Cons x ids)
  then obtain k ks' where ks: "ks = k # ks'" "length ks' = length ids" by (cases ks) auto
  have i: "unat x < unat (mf_nitems mf)" using Cons.prems by simp
  have x: "(ucast x :: u64) = word_of_nat (unat x)" by simp
  from i mf_wf_ten[OF assms(1,2)] have b: "mf_get_item_bias (ucast x) mf = Inr (mf_item_bias mf ! unat x)"
    by (simp add: mf_get_item_bias_def unsigned_ucast_eq take_bit_nat_eq_self vec_at_def)
  have "sm_store_item mf k (store_many store_u32 (x # ids) @ r, h)
      = Inr (store_many store_u32 ids @ r, h @ store_vector x (mf_item_bias mf ! unat x) (item_row mf (unat x)))"
    using mf_get_all(2)[OF assms(1,2) i] by (simp add: sm_store_item_def b store_vector_def)
  with Cons ks show ?case by simp
qed simp

lemma load_vector:
  "length ws = NUM_FACTORS \<Longrightarrow> sm_load_user k (store_vector i b ws @ r, m)
     = Inr (r, m\<lparr>sm_user_models := sm_user_models m @ [(i, b, ws)]\<rparr>)"
  "length ws = NUM_FACTORS \<Longrightarrow> unat i < NUM_ITEM_MODELS \<Longrightarrow> sm_load_item k (store_vector i b ws @ r, m)
     = Inr (r, m\<lparr>sm_item_models := (sm_item_models m)(unat i := (b, ws))\<rparr>)"
  by (simp_all add: sm_load_user_def sm_load_item_def store_vector_def load_then_def)

lemma load_users:
  "length ks = length is \<Longrightarrow> rfold sm_load_user ks
     (concat (map (\<lambda>i. store_vector (word_of_nat i) (mf_user_bias mf ! i) (user_row mf i)) is) @ r, m)
   = Inr (r, m\<lparr>sm_user_models := sm_user_models m @ map (served_user mf) is\<rparr>)"
proof (induction "is" arbitrary: ks m)
  case (Cons i "is")
  then obtain k ks' where "ks = k # ks'" "length ks' = length is" by (cases ks) auto
  with Cons.IH show ?case by (simp add: load_vector served_user_def)
qed simp

lemma load_items:
  "length ks = length ids \<Longrightarrow> \<forall>x\<in>set ids. unat x < NUM_ITEM_MODELS \<Longrightarrow> rfold sm_load_item ks
     (concat (map (\<lambda>x. store_vector x (mf_item_bias mf ! unat x) (item_row mf (unat x))) ids) @ r, m)
   = Inr (r, m\<lparr>sm_item_models := (\<lambda>j. if j \<in> unat ` set ids then served_item mf j else sm_item_models m j)\<rparr>)"
proof (induction ids arbitrary: ks m)
  case (Cons x ids)
  then obtain k ks' where "ks = k # ks'" "length ks' = length ids" by (cases ks) auto
  moreover have "(\<lambda>j. if j \<in> unat ` set ids then served_item mf j
        else ((sm_item_models m)(unat x := served_item mf (unat x))) j)
      = (\<lambda>j. if j \<in> unat ` set (x # ids) then served_item mf j else sm_item_models m j)"
    by (rule ext) auto
  moreover have "(mf_item_bias mf ! unat x, item_row mf (unat x)) = served_item mf (unat x)"
    by (simp add: served_item_def)
  ultimately show ?case using Cons by (simp add: load_vector cong: if_cong)
qed simp

lemma served_bytes:
  assumes "serves mf (unat base) (unat n) ids"
  defines "bs \<equiv> concat (map (\<lambda>i. store_vector (word_of_nat i) (mf_user_bias mf ! i) (user_row mf i))
        [unat base..<unat base + unat n])
      @ concat (map (\<lambda>x. store_vector x (mf_item_bias mf ! unat x) (item_row mf (unat x))) ids)"
  shows "sm_serialize_from_dense mf base n (word_of_nat (length ids)) (store_many store_u32 ids @ r) = Inr bs"
    "length bs = (unat n + length ids) * 48"
    "sm_of_data (bs @ r') (ucast n) (word_of_nat (length ids)) = Inr (served mf (unat base) (unat n) ids)"
proof -
  have wf: "mf_wf mf" "mf_nfactors mf = word_of_nat NUM_FACTORS" and ids: "length ids < 2 ^ 32"
    "\<forall>x\<in>set ids. unat x < unat (mf_nitems mf)" "\<forall>x\<in>set ids. unat x < NUM_ITEM_MODELS"
    and sum: "unat base + unat n \<le> unat (mf_nusers mf)"
    using assms(1) by (auto simp: serves_def)
  have small: "unat base + unat n < 2 ^ 32" using sum mf_wf_ten(5)[OF wf] by linarith
  have end_: "unat (base + n) = unat base + unat n"
    using small by (simp add: unat_word_ariths)
  have k: "unat (word_of_nat (length ids) :: u32) = length ids" "unat (word_of_nat (length ids) :: u64) = length ids"
    "unat (ucast n :: u64) = unat n"
    using ids unat_u32[of n] by (simp_all add: unat_of_nat unsigned_ucast_eq take_bit_nat_eq_self)
  show "sm_serialize_from_dense mf base n (word_of_nat (length ids)) (store_many store_u32 ids @ r) = Inr bs"
    using store_users[OF wf, of "[unat base..<unat base + unat n]"] sum store_items[OF wf ids(2)]
    by (simp add: sm_serialize_from_dense_def end_ k bs_def)
  have "length (concat (map (\<lambda>i. store_vector (f i) (g i) (h i)) xs)) = 48 * length xs"
    if "\<And>i. length (h i) = NUM_FACTORS" for f g h and xs :: "'a list"
    using that by (induction xs) (auto simp: store_vector_def NUM_FACTORS_def)
  note len = this
  show "length bs = (unat n + length ids) * 48"
    by (simp add: bs_def length_append len del: length_concat)
  show "sm_of_data (bs @ r') (ucast n) (word_of_nat (length ids)) = Inr (served mf (unat base) (unat n) ids)"
    using ids(3) by (simp add: sm_of_data_def sm_load_def k bs_def load_users load_items)
      (simp add: served_def sm_new_def sm_initialize_weights_def sm_raw_def cong: if_cong)
qed

text \<open>
  What the server cuts out of a dense model for a range of users and a list of items, the
  worker reads back as exactly the biases and factors of these users and items, 48 bytes for
  each of them.
\<close>

lemma served_roundtrip:
  assumes "serves mf (unat base) (unat n) ids"
  shows "\<exists>bs. sm_serialize_from_dense mf base n (word_of_nat (length ids)) (store_many store_u32 ids @ r) = Inr bs
    \<and> length bs = (unat n + length ids) * 48
    \<and> sm_of_data (bs @ r') (ucast n) (word_of_nat (length ids)) = Inr (served mf (unat base) (unat n) ids)"
  using served_bytes[OF assms] by blast

lemma serves_flat: "serves mf_flat 1 1 [0]"
  by (simp add: serves_def mf_wf_def mf_flat_def NUM_FACTORS_def NUM_ITEM_MODELS_def)

lemma served_roundtrip_example:
  "\<exists>bs. sm_serialize_from_dense mf_flat 1 1 (word_of_nat (length [0 :: u32])) (store_many store_u32 [0] @ [7]) = Inr bs
    \<and> length bs = (unat (1 :: u32) + length [0 :: u32]) * 48
    \<and> sm_of_data (bs @ []) (ucast (1 :: u32)) (word_of_nat (length [0 :: u32])) = Inr (served mf_flat 1 1 [0])"
  using served_roundtrip[of mf_flat 1 1 "[0]" "[7]" "[]"] serves_flat by simp

lemma upto_ten: "upto32 (word_of_nat NUM_FACTORS) = Inr [0..<NUM_FACTORS]"
  by (simp add: upto32_def NUM_FACTORS_def)

lemma served_predict_lemma:
  assumes "serves mf base n ids" "mf_global_bias mf = mf_mean_rating" "u < n" "x \<in> set ids"
  shows "sm_predict (word_of_nat u) x (served mf base n ids) = mf_predict (word_of_nat (base + u)) x mf"
proof -
  have wf: "mf_wf mf" "mf_nfactors mf = word_of_nat NUM_FACTORS"
    and x: "unat x < unat (mf_nitems mf)" "unat x < NUM_ITEM_MODELS" and sum: "base + n \<le> unat (mf_nusers mf)"
    using assms by (auto simp: serves_def)
  note ten = mf_wf_ten[OF wf]
  have u: "unat (word_of_nat u :: u32) = u" "unat (word_of_nat (base + u) :: u32) = base + u"
    "unat (ucast (word_of_nat u :: u32) :: u64) = u"
    using sum assms(3) ten(5) by (auto simp: unat_of_nat unsigned_ucast_eq take_bit_nat_eq_self simp del: of_nat_add)
  have bu: "base + u < unat (mf_nusers mf)" using sum assms(3) by simp
  define s where "s = served mf base n ids"
  have s: "sm_user_models s ! u = served_user mf (base + u)" "u < length (sm_user_models s)"
    "sm_item_models s (unat x) = served_item mf (unat x)" "sm_nfactors s = word_of_nat NUM_FACTORS"
    "sm_global_bias s = mf_mean_rating"
    using assms(3,4) by (auto simp: s_def served_def sm_new_def sm_initialize_weights_def)
  have fold: "rfold (\<lambda>i res. rbind (sm_get_user_weights (ucast (word_of_nat u :: u32)) (word_of_nat i) s) (\<lambda>uw.
        rbind (sm_get_item_weights (ucast x) (word_of_nat i) s) (\<lambda>iw. Inr (f32_add res (f32_mul uw iw)))))
        [0..<NUM_FACTORS] b
    = rfold (\<lambda>i res. rbind (mf_get_user_weights (ucast (word_of_nat (base + u) :: u32)) (word_of_nat i) mf) (\<lambda>uw.
        rbind (mf_get_item_weights (ucast x) (word_of_nat i) mf) (\<lambda>iw. Inr (f32_add res (f32_mul uw iw)))))
        [0..<NUM_FACTORS] b" for b
  proof (rule rfold_cong[OF refl refl])
    fix i :: nat and res :: f32
    assume "i \<in> set [0..<NUM_FACTORS]"
    then have i: "i < NUM_FACTORS" by simp
    then have "unat (word_of_nat i :: u64) = i" by (simp add: NUM_FACTORS_def unat_of_nat take_bit_nat_eq_self)
    with i s u x have "sm_get_user_weights (ucast (word_of_nat u :: u32)) (word_of_nat i) s = Inr (user_row mf (base + u) ! i)"
      "sm_get_item_weights (ucast x) (word_of_nat i) s = Inr (item_row mf (unat x) ! i)"
      by (simp_all add: sm_get_user_weights_def sm_get_item_weights_def vec_get_def arr_get_def served_user_def
          served_item_def unat_u32_u64 del: of_nat_add)
    moreover have "mf_get_user_weights (ucast (word_of_nat (base + u) :: u32)) (word_of_nat i) mf = Inr (user_row mf (base + u) ! i)"
      using mf_get_row(1)[OF wf i bu] bu ten(5) ucast_small[of "base + u"] by (simp del: of_nat_add)
    moreover have "mf_get_item_weights (ucast x) (word_of_nat i) mf = Inr (item_row mf (unat x) ! i)"
      using mf_get_row(2)[OF wf i x(1)] by simp
    ultimately show "rbind (sm_get_user_weights (ucast (word_of_nat u :: u32)) (word_of_nat i) s) (\<lambda>uw.
        rbind (sm_get_item_weights (ucast x) (word_of_nat i) s) (\<lambda>iw. Inr (f32_add res (f32_mul uw iw))))
      = rbind (mf_get_user_weights (ucast (word_of_nat (base + u) :: u32)) (word_of_nat i) mf) (\<lambda>uw.
        rbind (mf_get_item_weights (ucast x) (word_of_nat i) mf) (\<lambda>iw. Inr (f32_add res (f32_mul uw iw))))"
      by simp
  qed
  have "sm_predict (word_of_nat u) x s = mf_predict (word_of_nat (base + u)) x mf"
    unfolding sm_predict_def mf_predict_def u wf(2) s(4,5) assms(2) upto_ten
    using s(1-3) bu x ten(3,4)
    by (simp add: vec_get_def arr_get_def served_user_def served_item_def fold del: of_nat_add)
  then show ?thesis by (simp add: s_def)
qed

text \<open>
  C38: The ratings a worker predicts from the part of the model it was sent are, bit for bit,
  the ones the dense model on the server predicts, for every user of the range and every item
  of the list.
\<close>

theorem served_predict:
  assumes "serves mf (unat base) (unat n) ids" "mf_global_bias mf = mf_mean_rating"
  shows "\<exists>bs sm. sm_serialize_from_dense mf base n (word_of_nat (length ids)) (store_many store_u32 ids) = Inr bs
    \<and> sm_of_data bs (ucast n) (word_of_nat (length ids)) = Inr sm
    \<and> (\<forall>u<unat n. \<forall>x\<in>set ids. sm_predict (word_of_nat u) x sm = mf_predict (base + word_of_nat u) x mf)"
  using served_bytes(1)[OF assms(1), of "[]"] served_bytes(3)[OF assms(1), of "[]"]
    served_predict_lemma[OF assms] by (auto simp: add.commute)

theorem served_predict_witness:
  "\<exists>bs sm. sm_serialize_from_dense (mf_flat\<lparr>mf_global_bias := mf_mean_rating\<rparr>) 1 1 (word_of_nat (length [0 :: u32]))
       (store_many store_u32 [0]) = Inr bs
    \<and> sm_of_data bs (ucast (1 :: u32)) (word_of_nat (length [0 :: u32])) = Inr sm
    \<and> (\<forall>u<unat (1 :: u32). \<forall>x\<in>set [0].
         sm_predict (word_of_nat u) x sm = mf_predict (1 + word_of_nat u) x (mf_flat\<lparr>mf_global_bias := mf_mean_rating\<rparr>))"
  by (rule served_predict)
    (simp_all add: serves_def mf_wf_def mf_flat_def NUM_FACTORS_def NUM_ITEM_MODELS_def)

section \<open>The gradient of a minibatch is well formed\<close>

text \<open>What stays of the loaded model, and what is known of the gradient under construction.\<close>

definition gs_shape :: "sparse_mf_model \<Rightarrow> mf_grad_state \<Rightarrow> bool" where
  "gs_shape m s \<longleftrightarrow> sm_nfactors (gs_model s) = word_of_nat NUM_FACTORS
     \<and> map (\<lambda>u. length (snd (snd u))) (sm_user_models (gs_model s)) = map (\<lambda>u. length (snd (snd u))) (sm_user_models m)
     \<and> (\<forall>j. length (snd (sm_item_models (gs_model s) j)) = length (snd (sm_item_models m j)))
     \<and> length (gs_user_row s) = NUM_FACTORS
     \<and> distinct (gs_item_lst s) \<and> (\<forall>i\<in>set (gs_item_lst s). idx i < NUM_ITEM_MODELS)
     \<and> (\<forall>j. j \<in> idx ` set (gs_item_lst s) \<longrightarrow> length (gs_item_map s j) = NUM_FACTORS)
     \<and> (\<forall>j. j \<notin> idx ` set (gs_item_lst s) \<longrightarrow> gs_item_map s j = [])"

definition gs_view :: "mf_grad_state \<Rightarrow> i32 list \<times> i32 list \<times> i32 list \<times> (i32 \<times> f32 list) list" where
  "gs_view s = (map fst (gs_users_bias s), map fst (gs_items_bias s), gs_item_lst s, gs_users_weights s)"

definition add_key :: "'k \<Rightarrow> 'k list \<Rightarrow> 'k list" where
  "add_key k ks = (if k \<in> set ks then ks else ks @ [k])"

text \<open>A user and an item of the loaded model.\<close>

definition loaded :: "sparse_mf_model \<Rightarrow> nat \<Rightarrow> i32 \<Rightarrow> bool" where
  "loaded m u i \<longleftrightarrow> u < length (sm_user_models m) \<and> u < 2 ^ 31
     \<and> length (snd (snd (sm_user_models m ! u))) = NUM_FACTORS
     \<and> idx i < NUM_ITEM_MODELS \<and> length (snd (sm_item_models m (idx i))) = NUM_FACTORS"

lemma keys_update: "map fst (AList.update k v al) = add_key k (map fst al)"
  by (induction al) (auto simp: add_key_def)

lemma keys_bias_add: "map fst (bias_add k x al) = add_key k (map fst al)"
  by (simp add: bias_add_def keys_update)

lemma add_key_idem [simp]: "add_key k (add_key k ks) = add_key k ks"
  by (simp add: add_key_def)

lemma unat_idx: "idx i < 2 ^ 32 \<Longrightarrow> unat i = idx i"
proof -
  assume "idx i < 2 ^ 32"
  then have "unat (ucast (scast i :: u64) :: i32) = idx i"
    by (simp only: unsigned_ucast_eq unat_scast_idx) (simp add: take_bit_nat_eq_self)
  then show ?thesis by (simp only: ucast_scast)
qed

lemma loaded_now:
  assumes "gs_shape m s" "loaded m u i"
  obtains uid b ws b' ws' where "sm_user_models (gs_model s) ! u = (uid, b, ws)" "length ws = NUM_FACTORS"
    "u < length (sm_user_models (gs_model s))" "unat (word_of_nat u :: u64) = u" "unat (word_of_nat u :: u32) = u"
    "sm_item_models (gs_model s) (idx i) = (b', ws')" "length ws' = NUM_FACTORS" "idx i < NUM_ITEM_MODELS"
    "unat (ucast (scast i :: u64) :: u32) = idx i"
proof -
  have len: "map (\<lambda>u. length (snd (snd u))) (sm_user_models (gs_model s)) = map (\<lambda>u. length (snd (snd u))) (sm_user_models m)"
    using assms(1) by (simp add: gs_shape_def)
  then have l: "length (sm_user_models (gs_model s)) = length (sm_user_models m)" by (metis length_map)
  with assms(2) have u: "u < length (sm_user_models (gs_model s))" by (simp add: loaded_def)
  have "length (snd (snd (sm_user_models (gs_model s) ! u))) = length (snd (snd (sm_user_models m ! u)))"
    using arg_cong[OF len, of "\<lambda>xs. xs ! u"] u l by simp
  moreover have "unat (ucast (scast i :: u64) :: u32) = idx i"
    unfolding ucast_scast using assms(2) by (intro unat_idx) (simp add: loaded_def NUM_ITEM_MODELS_def)
  moreover obtain uid b ws where "sm_user_models (gs_model s) ! u = (uid, b, ws)" by (metis prod.exhaust)
  moreover obtain b' ws' where "sm_item_models (gs_model s) (idx i) = (b', ws')" by (metis prod.exhaust)
  moreover have "unat (word_of_nat u :: u64) = u" "unat (word_of_nat u :: u32) = u"
    using assms(2) by (auto simp: loaded_def unat_of_nat take_bit_nat_eq_self)
  moreover have "length (snd (sm_item_models (gs_model s) (idx i))) = NUM_FACTORS"
    using assms by (simp add: gs_shape_def loaded_def)
  ultimately show ?thesis using that assms(2) u by (simp add: loaded_def)
qed

lemma small_factor: "k < NUM_FACTORS \<Longrightarrow> unat (word_of_nat k :: u64) = k"
  by (simp add: NUM_FACTORS_def unat_of_nat take_bit_nat_eq_self)

lemma sm_weights_ok:
  assumes "gs_shape m s" "loaded m u i" "k < NUM_FACTORS"
  shows "\<exists>x. sm_get_user_weights (word_of_nat u) (word_of_nat k) (gs_model s) = Inr x"
    "\<exists>x. sm_get_item_weights (scast i) (word_of_nat k) (gs_model s) = Inr x"
  by (rule loaded_now[OF assms(1,2)]; use assms(3) small_factor[OF assms(3)] in
      \<open>simp add: sm_get_user_weights_def sm_get_item_weights_def vec_get_def arr_get_def unat_scast_idx\<close>)+

lemma nfactors_now: "gs_shape m s \<Longrightarrow> unat (sm_nfactors (gs_model s)) = NUM_FACTORS"
  by (simp add: gs_shape_def NUM_FACTORS_def)

lemma sm_predict_ok:
  assumes "gs_shape m s" "loaded m u i"
  shows "\<exists>x. sm_predict (word_of_nat u) (ucast (scast i :: u64)) (gs_model s) = Inr x"
proof -
  have u: "ucast (word_of_nat u :: u32) = (word_of_nat u :: u64)"
    using assms(2) by (intro ucast_small) (simp add: loaded_def)
  have i: "ucast (ucast (scast i :: u64) :: u32) = (scast i :: u64)"
    by (rule loaded_now[OF assms]) (rule word_unat_eq_iff[THEN iffD2], simp add: unat_u32_u64 unat_scast_idx)
  have "\<exists>x. rfold (\<lambda>j res. rbind (sm_get_user_weights (ucast (word_of_nat u :: u32)) (word_of_nat j) (gs_model s)) (\<lambda>uw.
       rbind (sm_get_item_weights (ucast (ucast (scast i :: u64) :: u32)) (word_of_nat j) (gs_model s)) (\<lambda>iw.
       Inr (f32_add res (f32_mul uw iw))))) [0..<NUM_FACTORS] b = Inr x \<and> True" for b
  proof (rule rfold_total, rule TrueI)
    fix j t assume "j \<in> set [0..<NUM_FACTORS]"
    then have "j < NUM_FACTORS" by simp
    from sm_weights_ok[OF assms this] show "\<exists>t'. rbind (sm_get_user_weights (ucast (word_of_nat u :: u32)) (word_of_nat j) (gs_model s)) (\<lambda>uw.
       rbind (sm_get_item_weights (ucast (ucast (scast i :: u64) :: u32)) (word_of_nat j) (gs_model s)) (\<lambda>iw.
       Inr (f32_add t (f32_mul uw iw)))) = Inr t' \<and> True"
      unfolding u i by auto
  qed
  moreover have "upto32 (sm_nfactors (gs_model s)) = Inr [0..<NUM_FACTORS]"
    using assms(1) upto_ten by (simp add: gs_shape_def)
  ultimately show ?thesis
    by - (rule loaded_now[OF assms], simp add: sm_predict_def vec_get_def arr_get_def)
qed

text \<open>The four steps of a rating.\<close>

lemma gs_shape_user:
  assumes "gs_shape m s" "u < length (sm_user_models (gs_model s))" "length (snd (snd (sm_user_models (gs_model s) ! u))) = length ws"
  shows "map (\<lambda>u. length (snd (snd u))) ((sm_user_models (gs_model s))[u := (uid, b, ws)])
    = map (\<lambda>u. length (snd (snd u))) (sm_user_models m)"
proof -
  have len: "map (\<lambda>u. length (snd (snd u))) (sm_user_models (gs_model s)) = map (\<lambda>u. length (snd (snd u))) (sm_user_models m)"
    using assms(1) by (simp add: gs_shape_def)
  have "map (\<lambda>u. length (snd (snd u))) ((sm_user_models (gs_model s))[u := (uid, b, ws)])
      = (map (\<lambda>u. length (snd (snd u))) (sm_user_models (gs_model s)))[u := length ws]"
    by (simp add: map_update)
  also have "\<dots> = map (\<lambda>u. length (snd (snd u))) (sm_user_models (gs_model s))"
    using assms(2,3) by (intro list_update_same_conv[THEN iffD2]) simp_all
  finally show ?thesis using len by simp
qed

lemma inr_exI: "m = Inr t \<Longrightarrow> P t \<Longrightarrow> Q t \<Longrightarrow> \<exists>s'. m = Inr s' \<and> P s' \<and> Q s'"
  by blast

lemma sm_user_bias_step_ok:
  assumes "gs_shape m s" "loaded m u i" "gs_view s = (ub, ib, lst, uw)"
  shows "\<exists>s'. sm_user_bias_step lr err u real s = Inr s' \<and> gs_shape m s' \<and> gs_view s' = (add_key real ub, ib, lst, uw)"
proof (rule loaded_now[OF assms(1,2)])
  fix uid b ws
  assume *: "sm_user_models (gs_model s) ! u = (uid, b, ws)" "u < length (sm_user_models (gs_model s))"
  then have "map (\<lambda>u. length (snd (snd u))) ((sm_user_models (gs_model s))[u := (uid, b', ws)])
    = map (\<lambda>u. length (snd (snd u))) (sm_user_models m)" for b'
    using gs_shape_user[OF assms(1)] by simp
  note shape = this
  have "sm_user_bias_step lr err u real s = Inr (s\<lparr>gs_users_bias :=
      bias_add real (sm_delta_bias lr err (sm_user_bias_reg (gs_model s)) b) (gs_users_bias s),
      gs_model := (gs_model s)\<lparr>sm_user_models := (sm_user_models (gs_model s))
        [u := (uid, f32_add b (sm_delta_bias lr err (sm_user_bias_reg (gs_model s)) b), ws)]\<rparr>\<rparr>)"
    using * by (simp add: sm_user_bias_step_def vec_get_def Let_def)
  then show ?thesis
    by (rule inr_exI)
      (use shape assms(1,3) in \<open>simp_all add: gs_shape_def gs_view_def keys_bias_add\<close>)
qed

lemma sm_item_bias_step_ok:
  assumes "gs_shape m s" "loaded m u i" "gs_view s = (ub, ib, lst, uw)"
  shows "\<exists>s'. sm_item_bias_step lr err (scast i) s = Inr s' \<and> gs_shape m s' \<and> gs_view s' = (ub, add_key i ib, lst, uw)"
proof (rule loaded_now[OF assms(1,2)])
  fix b ws
  assume *: "sm_item_models (gs_model s) (idx i) = (b, ws)" "idx i < NUM_ITEM_MODELS"
  then have "length (snd (sm_item_models (gs_model s) (idx i))) = length ws" by simp
  note snd = this
  define d where "d = sm_delta_bias lr err (sm_item_bias_reg (gs_model s)) b"
  have "sm_item_bias_step lr err (scast i) s = Inr (s\<lparr>gs_items_bias := bias_add i d (gs_items_bias s),
      gs_model := (gs_model s)\<lparr>sm_item_models := (sm_item_models (gs_model s))(idx i := (f32_add b d, ws))\<rparr>\<rparr>)"
    using * by (simp add: sm_item_bias_step_def arr_get_def arr_set_def Let_def unat_scast_idx ucast_scast d_def)
  then show ?thesis
    by (rule inr_exI) (use snd assms(1,3) in \<open>auto simp: gs_shape_def gs_view_def keys_bias_add\<close>)
qed

lemma sm_user_factor_step_ok:
  assumes "gs_shape m s" "loaded m u i" "k < NUM_FACTORS"
  shows "\<exists>s'. sm_user_factor_step lr err u (scast i) k s = Inr s' \<and> gs_shape m s' \<and> gs_view s' = gs_view s"
proof (rule loaded_now[OF assms(1,2)])
  fix uid b ws
  assume *: "sm_user_models (gs_model s) ! u = (uid, b, ws)" "length ws = NUM_FACTORS"
    "u < length (sm_user_models (gs_model s))" "unat (word_of_nat u :: u64) = u"
  obtain x y where xy: "sm_get_user_weights (word_of_nat u) (word_of_nat k) (gs_model s) = Inr x"
    "sm_get_item_weights (scast i) (word_of_nat k) (gs_model s) = Inr y"
    using sm_weights_ok[OF assms] by blast
  have "map (\<lambda>u. length (snd (snd u))) ((sm_user_models (gs_model s))[u := (uid, b, ws[k := w])])
    = map (\<lambda>u. length (snd (snd u))) (sm_user_models m)" for w
    using gs_shape_user[OF assms(1)] * by simp
  note shape = this
  define d where "d = sm_delta_weight lr err y (sm_user_fact_reg (gs_model s)) x"
  have "length (gs_user_row s) = NUM_FACTORS" using assms(1) by (simp add: gs_shape_def)
  with * xy assms(3) small_factor[OF assms(3)]
  have "sm_user_factor_step lr err u (scast i) k s = Inr (s\<lparr>
      gs_user_row := (gs_user_row s)[k := f32_add (gs_user_row s ! k) d],
      gs_model := (gs_model s)\<lparr>sm_user_models := (sm_user_models (gs_model s))[u := (uid, b, ws[k := f32_add x d])]\<rparr>\<rparr>)"
    by (simp add: sm_user_factor_step_def sm_set_user_weights_def vec_get_def vec_set_def Let_def d_def)
  then show ?thesis
    by (rule inr_exI) (use shape assms(1) in \<open>simp_all add: gs_shape_def gs_view_def\<close>)
qed

lemma sm_item_factor_step_ok:
  assumes "gs_shape m s" "loaded m u i" "k < NUM_FACTORS" "gs_view s = (ub, ib, lst, uw)"
  shows "\<exists>s'. sm_item_factor_step lr err u (scast i) k s = Inr s' \<and> gs_shape m s' \<and> gs_view s' = (ub, ib, add_key i lst, uw)"
proof (rule loaded_now[OF assms(1,2)])
  fix b ws
  assume *: "sm_item_models (gs_model s) (idx i) = (b, ws)" "length ws = NUM_FACTORS" "idx i < NUM_ITEM_MODELS"
  then have snd: "length (snd (sm_item_models (gs_model s) (idx i))) = length ws" by simp
  obtain x y where xy: "sm_get_user_weights (word_of_nat u) (word_of_nat k) (gs_model s) = Inr x"
    "sm_get_item_weights (scast i) (word_of_nat k) (gs_model s) = Inr y"
    using sm_weights_ok[OF assms(1-3)] by blast
  have lst: "gs_item_lst s = lst" using assms(4) by (simp add: gs_view_def)
  have mem: "idx i \<in> idx ` set lst \<longleftrightarrow> i \<in> set lst" by (auto simp: idx_inj)
  have row: "i \<in> set lst \<Longrightarrow> length (gs_item_map s (idx i)) = NUM_FACTORS"
    "i \<notin> set lst \<Longrightarrow> gs_item_map s (idx i) = []"
    using assms(1) mem by (simp_all add: gs_shape_def lst)
  define d where "d = sm_delta_weight lr err x (sm_item_fact_reg (gs_model s)) y"
  define r where "r = (if i \<in> set lst then gs_item_map s (idx i) else replicate NUM_FACTORS 0)"
  have r: "length r = NUM_FACTORS" using row by (simp add: r_def)
  have new: "gs_item_map s (idx i) = [] \<Longrightarrow> r = replicate NUM_FACTORS 0 \<and> add_key i lst = lst @ [i]"
    "gs_item_map s (idx i) \<noteq> [] \<Longrightarrow> r = gs_item_map s (idx i) \<and> add_key i lst = lst"
    using row by (auto simp: r_def add_key_def NUM_FACTORS_def split: if_splits)
  have "sm_item_factor_step lr err u (scast i) k s = Inr (s\<lparr>
      gs_model := (gs_model s)\<lparr>sm_item_models := (sm_item_models (gs_model s))(idx i := (b, ws[k := f32_add y d]))\<rparr>,
      gs_item_map := (gs_item_map s)(idx i := r[k := f32_add (r ! k) d]), gs_item_lst := add_key i lst\<rparr>)"
    using * xy assms(3) small_factor[OF assms(3)] new r lst
    by (cases "gs_item_map s (idx i) = []") (simp_all add: sm_item_factor_step_def sm_set_item_weights_def vec_get_def vec_set_def arr_get_def arr_set_def
        Let_def unat_scast_idx ucast_scast d_def)
  then show ?thesis
    by (rule inr_exI)
      (use snd assms(1,4) r lst *(3) in \<open>auto simp: gs_shape_def gs_view_def add_key_def\<close>)
qed

lemma sm_rating_step_ok:
  assumes "gs_shape m s" "loaded m u i" "gs_view s = (ub, lst, lst, uw)" "real \<in> set ub"
  shows "\<exists>s'. sm_rating_step lr u real (i, rating) s = Inr s' \<and> gs_shape m s'
    \<and> gs_view s' = (ub, add_key i lst, add_key i lst, uw)"
proof -
  obtain pred where pred: "sm_predict (word_of_nat u) (ucast (scast i :: u64)) (gs_model s) = Inr pred"
    using sm_predict_ok[OF assms(1,2)] by blast
  define err where "err = f32_sub rating pred"
  have ub: "add_key real ub = ub" using assms(4) by (simp add: add_key_def)
  obtain s1 where s1: "sm_user_bias_step lr err u real s = Inr s1" "gs_shape m s1" "gs_view s1 = (ub, lst, lst, uw)"
    using sm_user_bias_step_ok[OF assms(1-3), of lr err real] ub by auto
  obtain s2 where s2: "sm_item_bias_step lr err (scast i) s1 = Inr s2" "gs_shape m s2"
    "gs_view s2 = (ub, add_key i lst, lst, uw)"
    using sm_item_bias_step_ok[OF s1(2) assms(2) s1(3), of lr err] by auto
  have "\<exists>s3. rfold (sm_user_factor_step lr err u (scast i)) [0..<NUM_FACTORS] s2 = Inr s3
      \<and> (gs_shape m s3 \<and> gs_view s3 = gs_view s2)"
  proof (rule rfold_total, simp add: s2(2))
    fix k t assume "k \<in> set [0..<NUM_FACTORS]" "gs_shape m t \<and> gs_view t = gs_view s2"
    then show "\<exists>t'. sm_user_factor_step lr err u (scast i) k t = Inr t' \<and> gs_shape m t' \<and> gs_view t' = gs_view s2"
      using sm_user_factor_step_ok[of m t u i k lr err] assms(2) by auto
  qed
  then obtain s3 where s3: "rfold (sm_user_factor_step lr err u (scast i)) [0..<NUM_FACTORS] s2 = Inr s3" "gs_shape m s3"
    "gs_view s3 = (ub, add_key i lst, lst, uw)" using s2(3) by auto
  obtain t where t: "sm_item_factor_step lr err u (scast i) 0 s3 = Inr t" "gs_shape m t"
    "gs_view t = (ub, add_key i lst, add_key i lst, uw)"
    using sm_item_factor_step_ok[OF s3(2) assms(2) _ s3(3), of 0 lr err] by (auto simp: NUM_FACTORS_def)
  have "\<exists>s4. rfold (sm_item_factor_step lr err u (scast i)) [1..<NUM_FACTORS] t = Inr s4
      \<and> (gs_shape m s4 \<and> gs_view s4 = (ub, add_key i lst, add_key i lst, uw))"
  proof (rule rfold_total, simp add: t(2,3))
    fix k x assume "k \<in> set [1..<NUM_FACTORS]" "gs_shape m x \<and> gs_view x = (ub, add_key i lst, add_key i lst, uw)"
    then show "\<exists>t'. sm_item_factor_step lr err u (scast i) k x = Inr t' \<and> gs_shape m t'
        \<and> gs_view t' = (ub, add_key i lst, add_key i lst, uw)"
      using sm_item_factor_step_ok[of m x u i k ub "add_key i lst" "add_key i lst" uw lr err] assms(2) by auto
  qed
  moreover have "[0..<NUM_FACTORS] = 0 # [1..<NUM_FACTORS]" by (simp add: NUM_FACTORS_def upt_rec)
  ultimately obtain s4 where "rfold (sm_item_factor_step lr err u (scast i)) [0..<NUM_FACTORS] s3 = Inr s4" "gs_shape m s4"
    "gs_view s4 = (ub, add_key i lst, add_key i lst, uw)" using t(1) by auto
  then show ?thesis
    using s1(1) s2(1) s3(1) pred nfactors_now[OF s2(2)] nfactors_now[OF s3(2)]
    by (simp add: sm_rating_step_def Let_def err_def)
qed

lemma sm_ratings_ok:
  assumes "gs_shape m s" "\<forall>x\<in>set row. loaded m u (fst x)" "gs_view s = (ub, lst, lst, uw)" "real \<in> set ub"
  shows "\<exists>s'. rfold (sm_rating_step lr u real) row s = Inr s' \<and> gs_shape m s'
    \<and> gs_view s' = (ub, fold add_key (map fst row) lst, fold add_key (map fst row) lst, uw)"
  using assms
proof (induction row arbitrary: s lst)
  case (Cons x row)
  obtain i r where x: "x = (i, r)" by fastforce
  obtain t where t: "sm_rating_step lr u real x s = Inr t" "gs_shape m t"
    "gs_view t = (ub, add_key i lst, add_key i lst, uw)"
    using sm_rating_step_ok[OF Cons.prems(1) _ Cons.prems(3,4), of u i lr r] Cons.prems(2) x by auto
  with Cons.IH[OF t(2) _ t(3)] Cons.prems x show ?case by auto
qed simp

lemma sm_user_step_ok:
  assumes "gs_shape m s" "\<forall>x\<in>set (sd_data d ! u). loaded m u (fst x)" "gs_view s = (ub, lst, lst, uw)"
    and "real = ucast (base_user + word_of_nat u)" "real \<notin> set ub"
  shows "\<exists>s' row. sm_user_step lr base_user d u s = Inr s' \<and> gs_shape m s' \<and> length row = NUM_FACTORS
    \<and> gs_view s' = (ub @ [real], fold add_key (map fst (sd_data d ! u)) lst,
         fold add_key (map fst (sd_data d ! u)) lst, uw @ [(real, row)])"
proof -
  define s0 where "s0 = s\<lparr>gs_user_row := replicate NUM_FACTORS 0, gs_users_bias := AList.update real 0 (gs_users_bias s)\<rparr>"
  have s0: "gs_shape m s0" "gs_view s0 = (ub @ [real], lst, lst, uw)"
    using assms(1,3,5) by (auto simp: s0_def gs_shape_def gs_view_def keys_update add_key_def)
  obtain t where t: "rfold (sm_rating_step lr u real) (sd_data d ! u) s0 = Inr t" "gs_shape m t"
    "gs_view t = (ub @ [real], fold add_key (map fst (sd_data d ! u)) lst, fold add_key (map fst (sd_data d ! u)) lst, uw)"
    using sm_ratings_ok[OF s0(1) assms(2) s0(2), of real lr] by auto
  have "sm_user_step lr base_user d u s = Inr (t\<lparr>gs_users_weights := gs_users_weights t @ [(real, gs_user_row t)]\<rparr>)"
    using t(1) by (simp add: sm_user_step_def Let_def s0_def assms(4))
  moreover have "length (gs_user_row t) = NUM_FACTORS" using t(2) by (simp add: gs_shape_def)
  ultimately show ?thesis using t(2,3)
    by (intro exI[of _ "t\<lparr>gs_users_weights := gs_users_weights t @ [(real, gs_user_row t)]\<rparr>"] exI[of _ "gs_user_row t"])
      (auto simp: gs_shape_def gs_view_def)
qed

definition user_ids :: "u64 \<Rightarrow> nat \<Rightarrow> i32 list" where
  "user_ids base_user n = map (\<lambda>u. ucast (base_user + word_of_nat u)) [0..<n]"

definition rated_items :: "sample list \<Rightarrow> i32 list" where
  "rated_items rows = fold add_key (map fst (concat rows)) []"

lemma unat_user_id:
  fixes base_user :: u64
  assumes "unat base_user + u < 2 ^ 31"
  shows "unat (ucast (base_user + word_of_nat u) :: i32) = unat base_user + u"
proof -
  have "base_user + word_of_nat u = (word_of_nat (unat base_user + u) :: u64)" by simp
  then have "unat (base_user + word_of_nat u) = unat base_user + u"
    using assms by (simp only: unat_of_nat) (simp add: take_bit_nat_eq_self)
  then show ?thesis using assms by (simp add: unsigned_ucast_eq take_bit_nat_eq_self)
qed

lemma distinct_user_ids: "unat base_user + n \<le> 2 ^ 31 \<Longrightarrow> distinct (user_ids base_user n)"
proof -
  assume n: "unat base_user + n \<le> 2 ^ 31"
  have "inj_on (\<lambda>u. ucast (base_user + word_of_nat u) :: i32) {0..<n}"
  proof (rule inj_onI)
    fix u v assume *: "u \<in> {0..<n}" "v \<in> {0..<n}"
      "(ucast (base_user + word_of_nat u) :: i32) = ucast (base_user + word_of_nat v)"
    then have "unat base_user + u < 2 ^ 31" "unat base_user + v < 2 ^ 31" using n by auto
    then have "unat base_user + u = unat base_user + v" using *(3) by (metis unat_user_id)
    then show "u = v" by simp
  qed
  then show ?thesis by (simp add: user_ids_def distinct_map)
qed

lemma sm_users_ok:
  assumes "gs_shape m s" "gs_view s = ([], [], [], [])" "unat base_user + n \<le> 2 ^ 31" "n \<le> length (sd_data d)"
    and "\<forall>u<n. \<forall>x\<in>set (sd_data d ! u). loaded m u (fst x)"
  shows "\<exists>s' uw. rfold (sm_user_step lr base_user d) [0..<n] s = Inr s' \<and> gs_shape m s'
    \<and> gs_view s' = (user_ids base_user n, rated_items (take n (sd_data d)), rated_items (take n (sd_data d)), uw)
    \<and> map fst uw = user_ids base_user n \<and> (\<forall>row\<in>set uw. length (snd row) = NUM_FACTORS)"
  using assms(3-5)
proof (induction n)
  case 0
  then show ?case using assms(1,2) by (simp add: user_ids_def rated_items_def)
next
  case (Suc n)
  have "unat base_user + n \<le> 2 ^ 31" "n \<le> length (sd_data d)"
    "\<forall>u<n. \<forall>x\<in>set (sd_data d ! u). loaded m u (fst x)"
    using Suc.prems by auto
  from Suc.IH[OF this] obtain t uw where t: "rfold (sm_user_step lr base_user d) [0..<n] s = Inr t" "gs_shape m t"
    "gs_view t = (user_ids base_user n, rated_items (take n (sd_data d)), rated_items (take n (sd_data d)), uw)"
    "map fst uw = user_ids base_user n" "\<forall>row\<in>set uw. length (snd row) = NUM_FACTORS"
    by blast
  let ?real = "ucast (base_user + word_of_nat n) :: i32"
  have "user_ids base_user (Suc n) = user_ids base_user n @ [?real]" by (simp add: user_ids_def)
  with distinct_user_ids[OF Suc.prems(1)] have "?real \<notin> set (user_ids base_user n)" by simp
  with sm_user_step_ok[OF t(2) _ t(3) refl] Suc.prems obtain t' row where t':
    "sm_user_step lr base_user d n t = Inr t'" "gs_shape m t'" "length row = NUM_FACTORS"
    "gs_view t' = (user_ids base_user n @ [?real], fold add_key (map fst (sd_data d ! n)) (rated_items (take n (sd_data d))),
       fold add_key (map fst (sd_data d ! n)) (rated_items (take n (sd_data d))), uw @ [(?real, row)])"
    by blast
  have "fold add_key (map fst (sd_data d ! n)) (rated_items (take n (sd_data d))) = rated_items (take (Suc n) (sd_data d))"
    using Suc.prems(2) by (simp add: rated_items_def take_Suc_conv_app_nth)
  then show ?case using t t'
    by (intro exI[of _ t'] exI[of _ "uw @ [(?real, row)]"]) (auto simp: rfold_append user_ids_def)
qed

lemma collect_items:
  assumes "distinct lst" "\<forall>i\<in>set lst. idx i < NUM_ITEM_MODELS"
  shows "\<exists>s'. rfold sm_collect_items lst (s, rows)
    = Inr (s', rows @ map (\<lambda>i. (i, gs_item_map s (idx i))) lst) \<and> gs_view s' = gs_view s \<and> gs_model s' = gs_model s"
  using assms
proof (induction lst arbitrary: s rows)
  case (Cons i lst)
  define t where "t = s\<lparr>gs_item_map := (gs_item_map s)(idx i := [])\<rparr>"
  have step: "sm_collect_items i (s, rows) = Inr (t, rows @ [(i, gs_item_map s (idx i))])"
    using Cons.prems by (simp add: sm_collect_items_def arr_get_def arr_set_def t_def)
  have "map (\<lambda>i. (i, gs_item_map t (idx i))) lst = map (\<lambda>i. (i, gs_item_map s (idx i))) lst"
    using Cons.prems by (auto simp: t_def idx_inj)
  moreover have "gs_view t = gs_view s" "gs_model t = gs_model s" by (simp_all add: t_def gs_view_def)
  ultimately show ?case using Cons.IH[of t "rows @ [(i, gs_item_map s (idx i))]"] Cons.prems step by auto
qed simp

lemma sm_gradient_ok:
  assumes "get_learning_rate config = Inr lr" "sm_nfactors m = word_of_nat NUM_FACTORS"
    and "unat base_user + length (sd_data d) \<le> 2 ^ 31"
    and "\<forall>u<length (sd_data d). \<forall>x\<in>set (sd_data d ! u). loaded m u (fst x)"
  shows "\<exists>g m'. sm_minibatch_grad d config base_user m = Inr (g, m') \<and> msg_wf g
    \<and> map fst (users_bias_grad g) = user_ids base_user (length (sd_data d)) \<and> map fst (items_bias_grad g) = rated_items (sd_data d)
    \<and> map fst (users_weights_grad g) = user_ids base_user (length (sd_data d))
    \<and> map fst (items_weights_grad g) = rated_items (sd_data d)"
proof -
  define s0 where "s0 = \<lparr>gs_model = m, gs_users_bias = [], gs_items_bias = [], gs_users_weights = [],
        gs_item_map = (\<lambda>_. []), gs_item_lst = [], gs_user_row = replicate NUM_FACTORS 0\<rparr>"
  let ?n = "length (sd_data d)"
  have "gs_shape m s0" "gs_view s0 = ([], [], [], [])" using assms(2) by (auto simp: s0_def gs_shape_def gs_view_def)
  from sm_users_ok[OF this assms(3) order.refl assms(4), of "f32_of_f64 lr"] obtain s uw where
    s: "rfold (sm_user_step (f32_of_f64 lr) base_user d) [0..<?n] s0 = Inr s" "gs_shape m s"
    "gs_view s = (user_ids base_user ?n, rated_items (sd_data d), rated_items (sd_data d), uw)"
    "map fst uw = user_ids base_user ?n" "\<forall>row\<in>set uw. length (snd row) = NUM_FACTORS"
    by auto
  have lst: "gs_item_lst s = rated_items (sd_data d)" "distinct (rated_items (sd_data d))"
    "\<forall>i\<in>set (rated_items (sd_data d)). idx i < NUM_ITEM_MODELS"
    "\<forall>i\<in>set (rated_items (sd_data d)). length (gs_item_map s (idx i)) = NUM_FACTORS"
    using s(2,3) by (auto simp: gs_shape_def gs_view_def)
  define rows where "rows = map (\<lambda>i. (i, gs_item_map s (idx i))) (rated_items (sd_data d))"
  obtain s' where s': "rfold sm_collect_items (gs_item_lst s) (s, []) = Inr (s', rows)" "gs_view s' = gs_view s"
    using collect_items[OF lst(2,3), of s "[]"] by (auto simp: rows_def lst(1))
  define g where "g = \<lparr>users_bias_grad = gs_users_bias s', items_bias_grad = gs_items_bias s',
           users_weights_grad = gs_users_weights s', items_weights_grad = rows\<rparr>"
  have keys: "map fst (users_bias_grad g) = user_ids base_user ?n" "map fst (items_bias_grad g) = rated_items (sd_data d)"
    "users_weights_grad g = uw" "map fst (items_weights_grad g) = rated_items (sd_data d)"
    using s(3) s'(2) by (auto simp: g_def gs_view_def rows_def comp_def)
  have dist: "distinct (user_ids base_user ?n)"
    using assms(3) by (rule distinct_user_ids)
  have "length (user_ids base_user ?n) < 2 ^ 32" using assms(3) by (simp add: user_ids_def)
  moreover have "length (rated_items (sd_data d)) < 2 ^ 32"
  proof -
    have "idx ` set (rated_items (sd_data d)) \<subseteq> {..<NUM_ITEM_MODELS}" using lst(3) by auto
    then have "card (idx ` set (rated_items (sd_data d))) \<le> NUM_ITEM_MODELS"
      by (metis card_lessThan card_mono finite_lessThan)
    moreover have "card (idx ` set (rated_items (sd_data d))) = length (rated_items (sd_data d))"
      using lst(2) by (simp add: card_image distinct_card inj_on_def idx_inj)
    ultimately show ?thesis by (simp add: NUM_ITEM_MODELS_def)
  qed
  moreover have lens: "length (users_bias_grad g) = length (user_ids base_user ?n)"
    "length (items_bias_grad g) = length (rated_items (sd_data d))"
    "length (users_weights_grad g) = length (user_ids base_user ?n)"
    "length (items_weights_grad g) = length (rated_items (sd_data d))"
    using keys(1,2,4) s(4) by (metis length_map keys(3))+
  moreover have "\<forall>row\<in>set (users_weights_grad g) \<union> set (items_weights_grad g). length (snd row) = NUM_FACTORS"
    using s(5) lst(4) keys(3) by (auto simp: g_def rows_def)
  ultimately have "msg_wf g" using keys lst(2) dist by (simp add: msg_wf_def)
  moreover have "sm_minibatch_grad d config base_user m = Inr (g, gs_model s')"
    using assms(1) s(1) s'(1) by (simp add: sm_minibatch_grad_def s0_def g_def)
  ultimately show ?thesis using keys s(4) by blast
qed

text \<open>
  For ratings of users and items that were loaded, the minibatch gradient is computed
  without an access out of bounds, and it is well formed: one bias and one row of ten factors
  for each user of the minibatch, in order, and for each item rated, in the order of its first
  rating. So it can be serialised (see the round trip of these gradients).
\<close>

lemma sm_gradient_wf:
  assumes "get_learning_rate config = Inr lr" "sm_nfactors m = word_of_nat NUM_FACTORS"
    and "unat base_user + length (sd_data d) \<le> 2 ^ 31"
    and "\<forall>u<length (sd_data d). \<forall>x\<in>set (sd_data d ! u). loaded m u (fst x)"
  shows "\<exists>g m'. sm_minibatch_grad d config base_user m = Inr (g, m') \<and> msg_wf g
    \<and> map fst (users_weights_grad g) = user_ids base_user (length (sd_data d))
    \<and> map fst (items_weights_grad g) = rated_items (sd_data d)"
  using sm_gradient_ok[OF assms] by blast

lemma sm_gradient_wf_example:
  "let m = (sm_new 0 0 0)\<lparr>sm_nfactors := word_of_nat NUM_FACTORS,
             sm_user_models := [(7, 0, replicate NUM_FACTORS 0)],
             sm_item_models := (\<lambda>j. if j = 5 then (0, replicate NUM_FACTORS 0) else (0, []))\<rparr>;
       d = sd_of_samples [[(5, f32_one)]];
       config = conf_new\<lparr>cf_learning_rate := 0x3FE0000000000000\<rparr>
   in \<exists>g m'. sm_minibatch_grad d config 7 m = Inr (g, m') \<and> msg_wf g
    \<and> map fst (users_weights_grad g) = user_ids 7 (length (sd_data d))
    \<and> map fst (items_weights_grad g) = rated_items (sd_data d)"
  unfolding Let_def
  by (rule sm_gradient_wf[where lr = "0x3FE0000000000000"])
    (simp_all add: get_learning_rate_def conf_new_def dec_half sd_of_samples_def loaded_def idx_def NUM_ITEM_MODELS_def)

end
