(* ===== verification/Server.thy ===== *)
theory Server
  imports Socket Optim SparseMf
begin

text \<open>
  The parameter server, \<open>PSSparseServerTask\<close> (\<open>Tasks.h\<close>, \<open>PSSparseServerTask.cpp\<close>,
  \<open>Constants.h\<close>): its state, one handler per kind of request, the dispatch of a worker thread
  and the periodic work of \<open>run\<close>. A handler takes a connection, the thread's buffers and the
  state, and gives the handler's result with all three. An exception in a worker thread ends
  the process, so \<open>Inl\<close> is the end of the server. Requests are served one at a time here: the
  handlers of different threads are not interleaved inside.
\<close>

section \<open>Requests\<close>

datatype ps_op =
    SEND_LR_GRADIENT
  | SEND_MF_GRADIENT
  | GET_LR_FULL_MODEL
  | GET_MF_FULL_MODEL
  | GET_LR_SPARSE_MODEL
  | GET_MF_SPARSE_MODEL
  | SET_TASK_STATUS
  | GET_TASK_STATUS
  | REGISTER_TASK
  | GET_NUM_CONNS
  | GET_NUM_UPDATES
  | GET_LAST_TIME_ERROR
  | KILL_SIGNAL
  | GET_VALUE
  | SET_VALUE
  | DEREGISTER_TASK

fun op_code :: "ps_op \<Rightarrow> u32" where
  "op_code SEND_LR_GRADIENT = 0"
| "op_code SEND_MF_GRADIENT = 1"
| "op_code GET_LR_FULL_MODEL = 2"
| "op_code GET_MF_FULL_MODEL = 3"
| "op_code GET_LR_SPARSE_MODEL = 4"
| "op_code GET_MF_SPARSE_MODEL = 5"
| "op_code SET_TASK_STATUS = 6"
| "op_code GET_TASK_STATUS = 7"
| "op_code REGISTER_TASK = 8"
| "op_code GET_NUM_CONNS = 9"
| "op_code GET_NUM_UPDATES = 10"
| "op_code GET_LAST_TIME_ERROR = 11"
| "op_code KILL_SIGNAL = 12"
| "op_code GET_VALUE = 13"
| "op_code SET_VALUE = 14"
| "op_code DEREGISTER_TASK = 15"

lemma op_code_inj [simp]: "op_code a = op_code b \<longleftrightarrow> a = b"
  by (cases a; cases b; simp)

text \<open>The enumerators are ordered by their values.\<close>

instantiation ps_op :: linorder
begin

definition less_eq_ps_op :: "ps_op \<Rightarrow> ps_op \<Rightarrow> bool" where
  "less_eq_ps_op a b \<longleftrightarrow> op_code a \<le> op_code b"

definition less_ps_op :: "ps_op \<Rightarrow> ps_op \<Rightarrow> bool" where
  "less_ps_op a b \<longleftrightarrow> op_code a < op_code b"

instance
  by standard (auto simp: less_eq_ps_op_def less_ps_op_def less_le)

end

section \<open>State\<close>

definition THREAD_BUFFER_SIZE :: nat where "THREAD_BUFFER_SIZE = 120 * 1024 * 1024"
definition THREAD_MSG_BUFFER_SIZE :: nat where "THREAD_MSG_BUFFER_SIZE = 1000000"
definition TIMEOUT_THRESHOLD_SEC :: int where "TIMEOUT_THRESHOLD_SEC = 3"
definition KEY_SIZE :: nat where "KEY_SIZE = 10"

text \<open>The buffers of a worker thread.\<close>

record worker =
  wk_buffer :: "byte list"
  wk_msg :: "byte list"

text \<open>
  A \<open>std::map\<close> that is only looked up is a partial function; \<open>task_to_starttime\<close>, which is
  iterated, is an association list. Points of the steady clock are in nanoseconds. The keys
  and values of \<open>key_value_map\<close> are byte strings.
\<close>

record server =
  sv_opt :: opt_method
  sv_lr :: sparse_lr_model
  sv_mf :: mf_model
  sv_config :: configuration
  sv_registered :: "u64 set"
  sv_remaining :: "u64 \<rightharpoonup> int"
  sv_starttime :: "(u64 \<times> int) list"
  sv_status :: "i32 \<rightharpoonup> bool"
  sv_num_tasks :: u32
  sv_num_connections :: u32
  sv_num_updates :: u32
  sv_updates :: u64
  sv_kv :: "byte list \<rightharpoonup> (u32 \<times> byte list)"
  sv_kill :: bool

type_synonym reply = "bool \<times> conn \<times> worker \<times> server"
type_synonym handler = "conn \<Rightarrow> worker \<Rightarrow> server \<Rightarrow> reply res"

section \<open>Reading a request\<close>

definition handle_failed_read :: "conn \<Rightarrow> server \<Rightarrow> conn \<times> server" where
  "handle_failed_read c s = (c\<lparr>cn_fd := False\<rparr>, s\<lparr>sv_num_connections := sv_num_connections s - 1\<rparr>)"

text \<open>\<open>if (read_all(sock, p, n) == 0) { handle_failed_read(&req.poll_fd); return false; }\<close>\<close>

definition read_or_close :: "nat \<Rightarrow> conn \<Rightarrow> worker \<Rightarrow> server \<Rightarrow> (byte list \<Rightarrow> conn \<Rightarrow> reply res) \<Rightarrow> reply res" where
  "read_or_close n c w s k =
     rbind (read_n n c) (\<lambda>(r, bs, c).
       if r = 0 then (case handle_failed_read c s of (c, s) \<Rightarrow> Inr (False, c, w, s)) else k bs c)"

text \<open>
  \<open>if (read_all(req.sock, thread_buffer.data(), n) == 0) return false;\<close> where the caller has
  checked that the buffer holds \<open>n\<close> bytes. What is read stays in the buffer.
\<close>

definition overwrite :: "byte list \<Rightarrow> byte list \<Rightarrow> byte list" where
  "overwrite bs buf = bs @ drop (length bs) buf"

definition read_buffer :: "nat \<Rightarrow> conn \<Rightarrow> worker \<Rightarrow> server \<Rightarrow> (conn \<Rightarrow> worker \<Rightarrow> reply res) \<Rightarrow> reply res" where
  "read_buffer n c w s k =
     rbind (read_n n c) (\<lambda>(r, bs, c).
       let w = w\<lparr>wk_buffer := overwrite bs (wk_buffer w)\<rparr>
       in if r = 0 then Inr (False, c, w, s) else k c w)"

text \<open>The size of the message, its check against the buffer and the message itself.\<close>

definition read_message :: "conn \<Rightarrow> worker \<Rightarrow> server \<Rightarrow> (conn \<Rightarrow> worker \<Rightarrow> reply res) \<Rightarrow> reply res" where
  "read_message c w s k =
     read_or_close 4 c w s (\<lambda>bs c.
       let incoming_size = u32_of bs
       in rbind (guard_rt (\<not> unat incoming_size > length (wk_buffer w)) ''Not enough buffer'') (\<lambda>_.
          read_buffer (unat incoming_size) c w s k))"

text \<open>\<open>try { ... } catch (...) { throw std::runtime_error(msg); }\<close> around code that may throw.\<close>

definition rethrow :: "string \<Rightarrow> 'a res \<Rightarrow> 'a res" where
  "rethrow msg m = (case m of Inl (Runtime_error _) \<Rightarrow> Inl (Runtime_error msg)
     | Inl (Length_error _) \<Rightarrow> Inl (Runtime_error msg) | Inl Out_of_range \<Rightarrow> Inl (Runtime_error msg) | _ \<Rightarrow> m)"

definition read_message_try :: "conn \<Rightarrow> worker \<Rightarrow> server \<Rightarrow> (conn \<Rightarrow> worker \<Rightarrow> reply res) \<Rightarrow> reply res" where
  "read_message_try c w s k =
     read_or_close 4 c w s (\<lambda>bs c.
       let incoming_size = u32_of bs
       in rbind (guard_rt (\<not> unat incoming_size > length (wk_buffer w)) ''Not enough buffer'') (\<lambda>_.
          rbind (rethrow ''Uhandled error'' (read_n (unat incoming_size) c)) (\<lambda>(r, bs, c).
            let w = w\<lparr>wk_buffer := overwrite bs (wk_buffer w)\<rparr>
            in if r = 0 then Inr (False, c, w, s) else k c w)))"

lemma ensures_read_or_close [ensures_rules]:
  assumes "\<And>c'. Q (False, c', w, s\<lparr>sv_num_connections := sv_num_connections s - 1\<rparr>)"
    and "\<And>bs c'. ensures (k bs c') Q"
  shows "ensures (read_or_close n c w s k) Q"
  unfolding read_or_close_def handle_failed_read_def prod.case
  by (intro ensures_rules assms)

lemma ensures_read_buffer [ensures_rules]:
  assumes "\<And>c' w'. Q (False, c', w', s)" and "\<And>c' w'. ensures (k c' w') Q"
  shows "ensures (read_buffer n c w s k) Q"
  unfolding read_buffer_def by (intro ensures_rules assms)

lemma ensures_read_message [ensures_rules]:
  assumes "\<And>c'. Q (False, c', w, s\<lparr>sv_num_connections := sv_num_connections s - 1\<rparr>)"
    and "\<And>c' w'. Q (False, c', w', s)" and "\<And>c' w'. ensures (k c' w') Q"
  shows "ensures (read_message c w s k) Q"
  unfolding read_message_def by (intro ensures_rules assms)

lemma ensures_read_message_try [ensures_rules]:
  assumes "\<And>c'. Q (False, c', w, s\<lparr>sv_num_connections := sv_num_connections s - 1\<rparr>)"
    and "\<And>c' w'. Q (False, c', w', s)" and "\<And>c' w'. ensures (k c' w') Q"
  shows "ensures (read_message_try c w s k) Q"
  unfolding read_message_try_def by (intro ensures_rules assms)

section \<open>Gradients\<close>

definition process_send_mf_gradient :: handler where
  "process_send_mf_gradient c w s =
     read_message c w s (\<lambda>c w.
     rbind (msg_load (wk_buffer w) msg_new) (\<lambda>gradient.
     rbind (get_learning_rate (sv_config s)) (\<lambda>lr.
     rbind (mf_sgd_update lr (MFSparseGradient gradient) (sv_mf s)) (\<lambda>m.
     Inr (True, c, w, s\<lparr>sv_mf := m, sv_updates := sv_updates s + 1\<rparr>)))))"

definition process_send_lr_gradient :: handler where
  "process_send_lr_gradient c w s =
     read_message_try c w s (\<lambda>c w.
     rbind (lrs_new 0) (\<lambda>gradient.
     rbind (lrs_load (wk_buffer w) gradient) (\<lambda>gradient.
     rbind (opt_sgd_update (LRSparseGradient gradient) (sv_opt s, sv_lr s)) (\<lambda>(opt, m).
     Inr (True, c, w, s\<lparr>sv_opt := opt, sv_lr := m, sv_updates := sv_updates s + 1\<rparr>)))))"

section \<open>Models\<close>

text \<open>
  The results of the reads of the header are not looked at: a variable keeps its zero, or the
  part of it that arrived. Neither the items read nor the reply are checked against the size
  of their buffers, so a message that does not fit is an access outside of them.
\<close>

definition process_get_mf_sparse_model :: handler where
  "process_get_mf_sparse_model c w s =
     read_or_close 4 c w s (\<lambda>_ c.
     rbind (read_n 4 c) (\<lambda>(_, k_items_bs, c).
     rbind (read_n 4 c) (\<lambda>(_, base_user_bs, c).
     rbind (read_n 4 c) (\<lambda>(_, minibatch_bs, c).
     rbind (read_n 4 c) (\<lambda>(_, magic_bs, c).
       let k_items = u32_of k_items_bs; base_user_id = u32_of base_user_bs;
           minibatch_size = u32_of minibatch_bs; magic_value = u32_of magic_bs
       in rbind (cassert (0 < unat k_items)) (\<lambda>_.
          rbind (cassert (0 < unat minibatch_size)) (\<lambda>_.
          rbind (guard_rt (\<not> magic_value \<noteq> MAGIC_NUMBER) ''Wrong message'') (\<lambda>_.
          rbind (read_n (unat k_items * 4) c) (\<lambda>(_, item_bs, c).
          if length item_bs > length (wk_buffer w) then Inl Undefined_behaviour else
          let w = w\<lparr>wk_buffer := overwrite item_bs (wk_buffer w)\<rparr>;
              to_send_size = (ucast ((ucast minibatch_size :: u64) * (4 + (word_of_nat NUM_FACTORS + 1) * 4)
                 + ucast k_items * (4 + (word_of_nat NUM_FACTORS + 1) * 4)) :: u32)
          in rbind (sm_serialize_from_dense (sv_mf s) base_user_id minibatch_size k_items (wk_buffer w)) (\<lambda>holder.
             if length holder > length (wk_msg w) then Inl Undefined_behaviour else
             let w = w\<lparr>wk_msg := overwrite holder (wk_msg w)\<rparr>;
                 (ret, c) = send_n (store_u32 to_send_size) c
             in if ret = - 1 then Inr (False, c, w, s)
                else if unat to_send_size > length (wk_msg w) then Inl Undefined_behaviour
                else let (ret, c) = send_n (take (unat to_send_size) (wk_msg w)) c
                     in Inr (ret \<noteq> - 1, c, w, s)))))))))))"

text \<open>One weight of the reply, whose buffer holds one megabyte.\<close>

definition lr_sparse_entry :: "server \<Rightarrow> nat \<Rightarrow> byte list \<times> byte list \<Rightarrow> (byte list \<times> byte list) res" where
  "lr_sparse_entry s _ = (\<lambda>(data, out).
     load_then load_u32 data (\<lambda>entry_index data.
     rbind (lrm_get_nth_weight (sv_lr s) (ucast entry_index)) (\<lambda>weight.
       let weight = opt_edit_weight (sv_opt s) (f64_of_f32 weight)
       in if length out + 4 > 1024 * 1024 then Inl Undefined_behaviour
          else Inr (data, out @ store_float (f32_of_f64 weight)))))"

definition process_get_lr_sparse_model :: handler where
  "process_get_lr_sparse_model c w s =
     read_message_try c w s (\<lambda>c w.
     load_then load_u32 (wk_buffer w) (\<lambda>num data.
       let num_entries = (ucast num :: u64);
           to_send_size = (ucast (num_entries * 4) :: u32)
       in rbind (cassert (unat to_send_size < 1024 * 1024)) (\<lambda>_.
          rbind (rfold (lr_sparse_entry s) [0..<unat num_entries] (data, [])) (\<lambda>(_, data_to_send).
            let (ret, c) = send_n (take (unat to_send_size) data_to_send) c
            in Inr (ret \<noteq> - 1, c, w, s)))))"

definition process_get_mf_full_model :: handler where
  "process_get_mf_full_model c w s =
     (let model_size = (ucast (mf_serialized_size (sv_mf s)) :: u32)
      in rbind (guard_rt (\<not> length (wk_buffer w) < unat model_size) ''Thread buffer too small'') (\<lambda>_.
         let data = mf_serialize_to (sv_mf s)
         in if length data > length (wk_buffer w) then Inl Undefined_behaviour else
            let w = w\<lparr>wk_buffer := overwrite data (wk_buffer w)\<rparr>;
                (ret, c) = send_n (store_u32 model_size) c
            in if ret = - 1 then Inr (False, c, w, s)
               else let (ret, c) = send_n (take (unat model_size) (wk_buffer w)) c
                    in Inr (ret \<noteq> - 1, c, w, s)))"

definition process_get_lr_full_model :: handler where
  "process_get_lr_full_model c w s =
     (let model_size = (ucast (lrm_serialized_size (sv_lr s)) :: u32)
      in rbind (guard_rt (\<not> length (wk_buffer w) < unat model_size) ''buffer with size '') (\<lambda>_.
         let data = lrm_serialize_to (sv_lr s)
         in if length data > length (wk_buffer w) then Inl Undefined_behaviour else
            let w = w\<lparr>wk_buffer := overwrite data (wk_buffer w)\<rparr>;
                (ret, c) = send_n (take (unat model_size) (wk_buffer w)) c
            in Inr (ret \<noteq> - 1, c, w, s)))"

section \<open>Task status\<close>

definition process_set_task_status :: handler where
  "process_set_task_status c w s =
     read_or_close 8 c w s (\<lambda>data c.
       Inr (True, c, w, s\<lparr>sv_status := (sv_status s)(u32_of (take 4 data) \<mapsto> (u32_of (drop 4 data) \<noteq> 0))\<rparr>))"

text \<open>A failed read closes nothing here, and the id must be below ten thousand.\<close>

definition process_get_task_status :: handler where
  "process_get_task_status c w s =
     rbind (read_n 4 c) (\<lambda>(r, bs, c).
       if r = 0 then Inr (False, c, w, s)
       else let task_id = u32_of bs
            in rbind (cassert (unat task_id < 10000)) (\<lambda>_.
                 let status = (if sv_status s task_id = None \<or> sv_status s task_id = Some False then 0 else 1 :: u32);
                     (ret, c) = send_n (store_u32 status) c
                 in Inr (ret = 4, c, w, s)))"

section \<open>Registration of tasks\<close>

definition process_register_task :: "int \<Rightarrow> handler" where
  "process_register_task now c w s =
     read_or_close 8 c w s (\<lambda>data c.
       let task_id = u32_of (take 4 data); remaining_time = u32_of (drop 4 data);
           task_reg = (if ucast task_id \<in> sv_registered s then 1 else 0 :: u32);
           s = (if task_reg = 0
                then s\<lparr>sv_registered := insert (ucast task_id) (sv_registered s),
                       sv_remaining := (sv_remaining s)(ucast task_id \<mapsto> int (unat remaining_time)),
                       sv_starttime := AList.update (ucast task_id) now (sv_starttime s)\<rparr>
                else s);
           (ret, c) = send_n (store_u32 task_reg) c
       in if ret \<noteq> 4 then Inr (False, c, w, s)
          else Inr (True, c, w, s\<lparr>sv_num_tasks := sv_num_tasks s + 1\<rparr>))"

definition declare_task_dead :: "u32 \<Rightarrow> server \<Rightarrow> u32 \<times> server" where
  "declare_task_dead task_id s =
     (if map_of (sv_starttime s) (ucast task_id) = None then (1, s)
      else (0, s\<lparr>sv_remaining := (sv_remaining s)(ucast task_id \<mapsto> - 1),
                 sv_starttime := AList.delete (ucast task_id) (sv_starttime s),
                 sv_num_tasks := sv_num_tasks s - 1\<rparr>))"

definition process_deregister_task :: handler where
  "process_deregister_task c w s =
     read_or_close 4 c w s (\<lambda>data c.
       let task_id = u32_of data;
           (ret, s) = (if ucast task_id \<in> sv_registered s then declare_task_dead task_id s else (2, s));
           (sent, c) = send_n (store_u32 ret) c
       in Inr (sent = 4, c, w, s))"

text \<open>
  \<open>check_tasks_lifetime\<close> erases an expired task from the map whose iteration goes on from it:
  the increment of the invalidated iterator is undefined. \<open>operator[]\<close> enters a zero for a
  task without a remaining time.
\<close>

definition lifetime_step :: "int \<Rightarrow> u64 \<times> int \<Rightarrow> server \<Rightarrow> server res" where
  "lifetime_step now = (\<lambda>(task, start_time) s.
     let task_id = (ucast task :: u32);
         elapsed_sec = (now - start_time) div 1000000000;
         rem = (case sv_remaining s (ucast task_id) of None \<Rightarrow> 0 | Some t \<Rightarrow> t);
         s = s\<lparr>sv_remaining := (sv_remaining s)(ucast task_id \<mapsto> rem)\<rparr>
     in if elapsed_sec > rem + TIMEOUT_THRESHOLD_SEC
        then (if fst (declare_task_dead task_id s) = 0 then Inl Undefined_behaviour
              else Inr (snd (declare_task_dead task_id s)))
        else Inr s)"

definition check_tasks_lifetime :: "int \<Rightarrow> server \<Rightarrow> server res" where
  "check_tasks_lifetime now s = rfold (lifetime_step now) (sv_starttime s) s"

section \<open>Counters\<close>

definition process_get_num_conns :: handler where
  "process_get_num_conns c w s =
     (case send_n (store_u32 (sv_num_connections s)) c of (ret, c) \<Rightarrow>
        rbind (guard_rt (ret = 4) ''Error sending number of connections'') (\<lambda>_. Inr (True, c, w, s)))"

definition process_get_num_updates :: handler where
  "process_get_num_updates c w s =
     (case send_n (store_u32 (sv_num_updates s)) c of (ret, c) \<Rightarrow>
        rbind (guard_rt (ret = 4) ''Error sending number of connections'') (\<lambda>_. Inr (True, c, w, s)))"

section \<open>The key-value store\<close>

text \<open>\<open>std::string(key)\<close>: the bytes before the first zero, one of which follows the key.\<close>

definition c_string :: "byte list \<Rightarrow> byte list" where
  "c_string bs = takeWhile (\<lambda>b. b \<noteq> 0) bs"

definition kv_put :: "byte list \<Rightarrow> u32 \<times> byte list \<Rightarrow> server \<Rightarrow> server" where
  "kv_put k v s = s\<lparr>sv_kv := (sv_kv s)(k \<mapsto> v)\<rparr>"

definition kv_find :: "byte list \<Rightarrow> server \<Rightarrow> (u32 \<times> byte list) option" where
  "kv_find k s = sv_kv s k"

definition process_get_value :: handler where
  "process_get_value c w s =
     read_or_close KEY_SIZE c w s (\<lambda>key c.
       case kv_find (c_string key) s of
         None \<Rightarrow> (case send_n [0] c of (ret, c) \<Rightarrow> Inr (ret = 1, c, w, s))
       | Some (value_size, val) \<Rightarrow>
           (case send_n (store_u32 value_size) c of (ret, c) \<Rightarrow>
             if ret \<noteq> 4 then Inr (False, c, w, s)
             else case send_n val c of (ret, c) \<Rightarrow> Inr (ret = int (unat value_size), c, w, s)))"

definition process_set_value :: handler where
  "process_set_value c w s =
     read_or_close KEY_SIZE c w s (\<lambda>key c.
     read_or_close 4 c w s (\<lambda>size_bs c.
       let value_size = u32_of size_bs
       in read_or_close (unat value_size) c w s (\<lambda>value_data c.
            Inr (True, c, w, kv_put (c_string key) (value_size, value_data) s))))"

section \<open>Dispatch\<close>

definition operation_to_f :: "int \<Rightarrow> u32 \<Rightarrow> handler option" where
  "operation_to_f now = map_of
     [(op_code SEND_LR_GRADIENT, process_send_lr_gradient),
      (op_code SEND_MF_GRADIENT, process_send_mf_gradient),
      (op_code GET_LR_SPARSE_MODEL, process_get_lr_sparse_model),
      (op_code GET_MF_SPARSE_MODEL, process_get_mf_sparse_model),
      (op_code GET_MF_FULL_MODEL, process_get_mf_full_model),
      (op_code GET_LR_FULL_MODEL, process_get_lr_full_model),
      (op_code SET_TASK_STATUS, process_set_task_status),
      (op_code GET_TASK_STATUS, process_get_task_status),
      (op_code GET_NUM_CONNS, process_get_num_conns),
      (op_code GET_NUM_UPDATES, process_get_num_updates),
      (op_code REGISTER_TASK, process_register_task now),
      (op_code DEREGISTER_TASK, process_deregister_task),
      (op_code SET_VALUE, process_set_value),
      (op_code GET_VALUE, process_get_value)]"

definition kill_server :: "server \<Rightarrow> server" where
  "kill_server s = s\<lparr>sv_kill := True\<rparr>"

text \<open>One request in \<open>gradient_f\<close>, from the read of its operation to the end of its handler.\<close>

definition serve :: "int \<Rightarrow> conn \<Rightarrow> worker \<Rightarrow> server \<Rightarrow> (conn \<times> worker \<times> server) res" where
  "serve now c w s =
     rbind (read_n 4 c) (\<lambda>(r, bs, c).
       if r = 0 then (case handle_failed_read c s of (c, s) \<Rightarrow> Inr (c, w, s))
       else let operation = u32_of bs
            in case operation_to_f now operation of
                 None \<Rightarrow> Inl (Runtime_error ''Unknown operation'')
               | Some f \<Rightarrow>
                   if operation = op_code KILL_SIGNAL then Inr (c, w, kill_server s)
                   else rbind (f c w s) (\<lambda>(_, c, w, s). Inr (c, w, s)))"

section \<open>Start and periodic work\<close>

text \<open>The choice of the update rule in \<open>run\<close>.\<close>

definition choose_opt :: "configuration \<Rightarrow> opt_method res" where
  "choose_opt config =
     rbind (get_learning_rate config) (\<lambda>learning_rate.
     rbind (get_epsilon config) (\<lambda>epsilon.
       let momentum_beta = cf_momentum_beta config
       in if cf_opt_method config = ''sgd'' then Inr (SGD learning_rate)
          else if cf_opt_method config = ''nesterov'' then Inr (Nesterov (momentum_new learning_rate momentum_beta))
          else if cf_opt_method config = ''momentum'' then Inr (Momentum (momentum_new learning_rate momentum_beta))
          else if cf_opt_method config = ''adagrad'' then Inr (AdaGrad learning_rate epsilon)
          else Inl (Runtime_error ''Unknown opt method'')))"

text \<open>
  \<open>start_server\<close> makes both models; the matrix-factorisation model is randomised by its
  constructor and once more, from a generator in the same initial state.
\<close>

definition start_server :: "(nat \<Rightarrow> f32) \<Rightarrow> mf_model \<Rightarrow> u64 \<Rightarrow> configuration \<Rightarrow> (sparse_lr_model \<times> mf_model) res" where
  "start_server draw garbage model_size config =
     rbind (mf_new draw garbage (scast (cf_nusers config)) (scast (cf_nitems config)) (word_of_nat NUM_FACTORS)) (\<lambda>mf.
     rbind (mf_randomize draw mf) (\<lambda>mf.
     Inr (lrm_randomize (lrm_new model_size), mf)))"

definition run_init :: "(nat \<Rightarrow> f32) \<Rightarrow> mf_model \<Rightarrow> u64 \<Rightarrow> configuration \<Rightarrow> server res" where
  "run_init draw garbage model_size config =
     rbind (choose_opt config) (\<lambda>opt.
     rbind (start_server draw garbage model_size config) (\<lambda>(lr, mf).
     Inr \<lparr>sv_opt = opt, sv_lr = lr, sv_mf = mf, sv_config = config, sv_registered = {},
          sv_remaining = Map.empty, sv_starttime = [], sv_status = Map.empty, sv_num_tasks = 0,
          sv_num_connections = 0, sv_num_updates = 0, sv_updates = 0, sv_kv = Map.empty,
          sv_kill = False\<rparr>))"

text \<open>\<open>static_cast<uint32_t>\<close> of a \<open>double\<close>: undefined outside of the range of the type.\<close>

definition f64_to_u32 :: "f64 \<Rightarrow> u32 res" where
  "f64_to_u32 x =
     (case dec64 x of FNan \<Rightarrow> Inl Undefined_behaviour | FInf _ \<Rightarrow> Inl Undefined_behaviour
      | FFin neg m e \<Rightarrow>
          let n = (if 0 \<le> e then m * 2 ^ nat e else m div 2 ^ nat (- e))
          in if n \<ge> 2 ^ 32 \<or> (neg \<and> n > 0) then Inl Undefined_behaviour else Inr (word_of_nat n))"

definition f64_1000 :: f64 where "f64_1000 = 0x408F400000000000"

definition updates_per_sec :: "u64 \<Rightarrow> u64 \<Rightarrow> f64" where
  "updates_per_sec n elapsed_us =
     f64_mul (f64_mul (f64_div (f64_mul f64_one (f64_of_int (uint n))) (f64_of_int (uint elapsed_us))) f64_1000) f64_1000"

text \<open>One turn of the loop of \<open>run\<close>, \<open>elapsed_us\<close> after the last tick.\<close>

definition run_tick :: "u64 \<Rightarrow> int \<Rightarrow> server \<Rightarrow> server res" where
  "run_tick elapsed_us now s =
     rbind (f64_to_u32 (updates_per_sec (sv_updates s) elapsed_us)) (\<lambda>n.
       let s = s\<lparr>sv_num_updates := n\<rparr>
       in if elapsed_us > 1000000 then check_tasks_lifetime now (s\<lparr>sv_updates := 0\<rparr>) else Inr s)"

text \<open>\<open>checkpoint_model_file\<close>: the bytes written to the file.\<close>

definition serialize_lr_model :: "sparse_lr_model \<Rightarrow> byte list \<times> u64" where
  "serialize_lr_model m = (lrm_serialize_to m, lrm_serialized_size m)"

definition checkpoint_model_file :: "server \<Rightarrow> byte list" where
  "checkpoint_model_file s = (case serialize_lr_model (sv_lr s) of (data, model_size) \<Rightarrow> take (unat model_size) data)"

section \<open>Requests that have arrived\<close>

text \<open>Reads of bytes that have arrived.\<close>

lemma read_or_close_ok:
  "cn_in c = bs @ r \<Longrightarrow> length bs = n \<Longrightarrow> 0 < n \<Longrightarrow> read_or_close n c w s k = k bs (c\<lparr>cn_in := r\<rparr>)"
  using read_n_prefix[of c bs r] by (auto simp: read_or_close_def)

lemma read_or_close_u32 [simp]:
  "cn_in c = store_u32 x @ r \<Longrightarrow> read_or_close 4 c w s k = k (store_u32 x) (c\<lparr>cn_in := r\<rparr>)"
  by (rule read_or_close_ok) auto

lemma read_or_close_two:
  "cn_in c = store_u32 x @ store_u32 y @ r \<Longrightarrow>
   read_or_close 8 c w s k = k (store_u32 x @ store_u32 y) (c\<lparr>cn_in := r\<rparr>)"
  by (rule read_or_close_ok) auto

text \<open>A message of a size that fits the thread's buffer.\<close>

definition msg_in :: "byte list \<Rightarrow> worker \<Rightarrow> bool" where
  "msg_in body w \<longleftrightarrow> body \<noteq> [] \<and> length body \<le> length (wk_buffer w) \<and> length body < 2 ^ 32"

lemma read_message_ok:
  assumes "cn_in c = store_u32 (word_of_nat (length body)) @ body @ r" "msg_in body w"
  shows "read_message c w s k = k (c\<lparr>cn_in := r\<rparr>) (w\<lparr>wk_buffer := overwrite body (wk_buffer w)\<rparr>)"
    and "read_message_try c w s k = k (c\<lparr>cn_in := r\<rparr>) (w\<lparr>wk_buffer := overwrite body (wk_buffer w)\<rparr>)"
proof -
  have n: "unat (word_of_nat (length body) :: u32) = length body"
    using assms(2) by (simp add: msg_in_def unat_of_nat take_bit_nat_eq_self)
  have rd: "read_n (length body) (c\<lparr>cn_in := body @ r\<rparr>) = Inr (length body, body, c\<lparr>cn_in := r\<rparr>)"
    by (simp add: read_n_def)
  show "read_message c w s k = k (c\<lparr>cn_in := r\<rparr>) (w\<lparr>wk_buffer := overwrite body (wk_buffer w)\<rparr>)"
    using assms n rd by (simp add: read_message_def read_buffer_def msg_in_def)
  show "read_message_try c w s k = k (c\<lparr>cn_in := r\<rparr>) (w\<lparr>wk_buffer := overwrite body (wk_buffer w)\<rparr>)"
    using assms n rd by (simp add: read_message_try_def msg_in_def rethrow_def)
qed

text \<open>A server with small models for concrete instances.\<close>

definition server0 :: server where
  "server0 = \<lparr>sv_opt = SGD f64_one, sv_lr = lrm_new 2, sv_mf = mf_flat, sv_config = conf_new, sv_registered = {},
     sv_remaining = Map.empty, sv_starttime = [], sv_status = Map.empty, sv_num_tasks = 0,
     sv_num_connections = 1, sv_num_updates = 0, sv_updates = 0, sv_kv = Map.empty, sv_kill = False\<rparr>"

definition conn_of :: "byte list \<Rightarrow> conn" where
  "conn_of bs = \<lparr>cn_in = bs, cn_end = Idle, cn_out = [], cn_room = None, cn_fd = True\<rparr>"

definition worker0 :: worker where
  "worker0 = \<lparr>wk_buffer = replicate THREAD_BUFFER_SIZE 0, wk_msg = replicate THREAD_MSG_BUFFER_SIZE 0\<rparr>"

section \<open>Requests that arrive whole\<close>

lemma serve_op:
  assumes "cn_in c = store_u32 (op_code x) @ r" "operation_to_f now (op_code x) = Some f" "x \<noteq> KILL_SIGNAL"
  shows "serve now c w s = rbind (f (c\<lparr>cn_in := r\<rparr>) w s) (\<lambda>(_, c, w, s). Inr (c, w, s))"
  using assms by (simp add: serve_def del: op_code.simps)

lemma operation_to_f_simps [simp]:
  "operation_to_f now (op_code SEND_LR_GRADIENT) = Some process_send_lr_gradient"
  "operation_to_f now (op_code SEND_MF_GRADIENT) = Some process_send_mf_gradient"
  "operation_to_f now (op_code GET_LR_SPARSE_MODEL) = Some process_get_lr_sparse_model"
  "operation_to_f now (op_code GET_MF_SPARSE_MODEL) = Some process_get_mf_sparse_model"
  "operation_to_f now (op_code GET_MF_FULL_MODEL) = Some process_get_mf_full_model"
  "operation_to_f now (op_code GET_LR_FULL_MODEL) = Some process_get_lr_full_model"
  "operation_to_f now (op_code SET_TASK_STATUS) = Some process_set_task_status"
  "operation_to_f now (op_code GET_TASK_STATUS) = Some process_get_task_status"
  "operation_to_f now (op_code GET_NUM_CONNS) = Some process_get_num_conns"
  "operation_to_f now (op_code GET_NUM_UPDATES) = Some process_get_num_updates"
  "operation_to_f now (op_code REGISTER_TASK) = Some (process_register_task now)"
  "operation_to_f now (op_code DEREGISTER_TASK) = Some process_deregister_task"
  "operation_to_f now (op_code SET_VALUE) = Some process_set_value"
  "operation_to_f now (op_code GET_VALUE) = Some process_get_value"
  by (simp_all add: operation_to_f_def del: op_code.simps)

text \<open>The codes without a handler: what a worker thread makes of them ends the server.\<close>

lemma operation_to_f_None:
  "operation_to_f now x = None \<longleftrightarrow> x = op_code KILL_SIGNAL \<or> x = op_code GET_LAST_TIME_ERROR \<or> 16 \<le> unat x"
proof (cases "16 \<le> unat x")
  case True
  then have "x \<notin> set [0, 1, 2, 3, 4, 5, 6, 7, 8, 9, 10, 13, 14, 15]" by auto
  then show ?thesis using True by (simp add: operation_to_f_def map_of_eq_None_iff)
next
  case False
  then have "unat x \<in> set [0..<16]" by simp
  then have "x \<in> word_of_nat ` set [0..<16]" by (rule image_eqI[rotated]) simp
  then show ?thesis by (auto simp: upt_rec operation_to_f_def)
qed

text \<open>
  C36: A request whose operation has no handler ends the server with an exception, and
  \<open>KILL_SIGNAL\<close>, which the code means to serve, is such an operation: the dispatch looks it up
  before it compares it, so \<open>kill_server\<close> is never called.
\<close>

theorem serve_unknown:
  assumes "cn_in c = store_u32 x @ r"
    and "x = op_code KILL_SIGNAL \<or> x = op_code GET_LAST_TIME_ERROR \<or> 16 \<le> unat x"
  shows "serve now c w s = Inl (Runtime_error ''Unknown operation'')"
  using assms operation_to_f_None[of now x] by (simp add: serve_def del: op_code.simps)

theorem serve_unknown_witness:
  "serve 0 (conn_of (store_u32 12)) worker0 server0 = Inl (Runtime_error ''Unknown operation'')"
  by (rule serve_unknown[where x = 12 and r = "[]"]) (simp_all add: conn_of_def)

section \<open>The key-value store\<close>

text \<open>What the clients of \<open>key_value_map\<close> rely on.\<close>

locale kv_store =
  fixes put :: "'k \<Rightarrow> 'v \<Rightarrow> 's \<Rightarrow> 's" and find :: "'k \<Rightarrow> 's \<Rightarrow> 'v option"
  assumes find_put: "find k (put j v s) = (if k = j then Some v else find k s)"
begin

lemma find_put_same: "find k (put k v s) = Some v"
  by (simp add: find_put)

text \<open>After any sequence of writes a key has its last value, or the one it had before.\<close>

lemma find_fold:
  "find k (fold (\<lambda>(j, v). put j v) kvs s) = (case map_of (rev kvs) k of Some v \<Rightarrow> Some v | None \<Rightarrow> find k s)"
proof (induction kvs rule: rev_induct)
  case (snoc kv kvs)
  then show ?case by (cases kv) (simp add: find_put)
qed simp

text \<open>Writes to other keys do not disturb a key.\<close>

lemma find_fold_other: "k \<notin> fst ` set kvs \<Longrightarrow> find k (fold (\<lambda>(j, v). put j v) kvs s) = find k s"
  by (simp add: find_fold map_of_eq_None_iff[THEN iffD2])

end

interpretation kv: kv_store kv_put kv_find
  by unfold_locales (simp add: kv_put_def kv_find_def)

lemma c_string_pad: "0 \<notin> set key \<Longrightarrow> c_string (key @ replicate n 0) = key"
  by (induction key) (auto simp: c_string_def)

lemma serve_set_value:
  assumes "cn_in c = store_u32 (op_code SET_VALUE) @ key @ store_u32 (word_of_nat (length val)) @ val @ r"
    and "length key = KEY_SIZE" "val \<noteq> []" "length val < 2 ^ 32"
  shows "serve now c w s = Inr (c\<lparr>cn_in := r\<rparr>, w, kv_put (c_string key) (word_of_nat (length val), val) s)"
proof -
  define n where "n = (word_of_nat (length val) :: u32)"
  have n: "unat n = length val" using assms(4) by (simp add: n_def unat_of_nat take_bit_nat_eq_self)
  have k0: "0 < KEY_SIZE" by (simp add: KEY_SIZE_def)
  have key: "read_or_close KEY_SIZE (c\<lparr>cn_in := key @ store_u32 n @ val @ r\<rparr>) w s k
      = k key (c\<lparr>cn_in := store_u32 n @ val @ r\<rparr>)" for k
    using assms(2) k0 by (simp add: read_or_close_ok)
  have body: "read_or_close (length val) (c\<lparr>cn_in := val @ r\<rparr>) w s k = k val (c\<lparr>cn_in := r\<rparr>)" for k
    using assms(3) by (simp add: read_or_close_ok)
  show ?thesis
    using assms(1) by (simp add: serve_op[where x = SET_VALUE] process_set_value_def key body n n_def[symmetric]
        del: op_code.simps)
qed

lemma serve_get_value:
  assumes "cn_in c = store_u32 (op_code GET_VALUE) @ key @ r" "length key = KEY_SIZE" "writable c"
  shows "serve now c w s = Inr (c\<lparr>cn_in := r, cn_out := cn_out c @
      (case kv_find (c_string key) s of None \<Rightarrow> [0] | Some (n, val) \<Rightarrow> store_u32 n @ val)\<rparr>, w, s)"
proof -
  have key: "read_or_close KEY_SIZE (c\<lparr>cn_in := key @ r\<rparr>) w s k = k key (c\<lparr>cn_in := r\<rparr>)" for k
    using assms(2) by (simp add: read_or_close_ok KEY_SIZE_def)
  show ?thesis
    using assms(1,3)
    by (cases "kv_find (c_string key) s")
      (auto simp: serve_op[where x = GET_VALUE] process_get_value_def key send_n_def writable_def simp del: op_code.simps)
qed

text \<open>
  After any sequence of stores a key is answered with the value stored last under it, its size
  first; a key that was never stored with a single zero byte.
\<close>

lemma get_value_last:
  assumes "cn_in c = store_u32 (op_code GET_VALUE) @ key @ r" "length key = KEY_SIZE" "writable c"
    and "sv_kv s = Map.empty"
  shows "serve now c w (fold (\<lambda>(k, v). kv_put k v) kvs s) = Inr (c\<lparr>cn_in := r, cn_out := cn_out c @
      (case map_of (rev kvs) (c_string key) of None \<Rightarrow> [0] | Some (n, val) \<Rightarrow> store_u32 n @ val)\<rparr>,
      w, fold (\<lambda>(k, v). kv_put k v) kvs s)"
proof -
  have "kv_find k (fold (\<lambda>(k, v). kv_put k v) kvs s) = map_of (rev kvs) k" for k
    using kv.find_fold[of k kvs s] assms(4) by (simp add: kv_find_def split: option.splits)
  then show ?thesis using serve_get_value[OF assms(1-3)] by simp
qed

lemma get_value_last_example:
  "serve 0 (conn_of (store_u32 13 @ replicate 9 7 @ [0])) worker0
     (fold (\<lambda>(k, v). kv_put k v) [(replicate 9 7, 1, [5]), (replicate 9 7, 2, [6, 6])] server0)
   = Inr ((conn_of [])\<lparr>cn_out := store_u32 2 @ [6, 6]\<rparr>, worker0,
     fold (\<lambda>(k, v). kv_put k v) [(replicate 9 7, 1, [5]), (replicate 9 7, 2, [6, 6])] server0)"
proof -
  have k: "c_string (replicate 9 7 @ [0]) = replicate 9 7" using c_string_pad[of "replicate 9 7" 1] by simp
  show ?thesis
    by (subst get_value_last[where key = "replicate 9 7 @ [0]" and r = "[]"])
      (simp_all only: k, simp_all add: conn_of_def KEY_SIZE_def writable_def server0_def)
qed

text \<open>
  A value of size zero is not stored: the read of its no bytes returns \<open>0\<close>, which is taken for
  the end of the connection, and the server closes it.
\<close>

lemma set_value_empty:
  assumes "cn_in c = store_u32 (op_code SET_VALUE) @ key @ store_u32 0 @ r" "length key = KEY_SIZE"
  shows "serve now c w s = Inr (c\<lparr>cn_in := r, cn_fd := False\<rparr>, w,
    s\<lparr>sv_num_connections := sv_num_connections s - 1\<rparr>)"
proof -
  have key: "read_or_close KEY_SIZE (c\<lparr>cn_in := key @ store_u32 0 @ r\<rparr>) w s k
      = k key (c\<lparr>cn_in := store_u32 0 @ r\<rparr>)" for k
    using assms(2) by (simp add: read_or_close_ok KEY_SIZE_def)
  have none: "read_or_close 0 (c\<lparr>cn_in := r\<rparr>) w s k = Inr (False, c\<lparr>cn_in := r, cn_fd := False\<rparr>, w,
      s\<lparr>sv_num_connections := sv_num_connections s - 1\<rparr>)" for k
    by (simp add: read_or_close_def read_n_def handle_failed_read_def)
  show ?thesis
    using assms(1) by (simp add: serve_op[where x = SET_VALUE] process_set_value_def key none del: op_code.simps)
qed

lemma set_value_empty_example:
  "serve 0 (conn_of (store_u32 14 @ replicate 10 7 @ store_u32 0)) worker0 server0
   = Inr ((conn_of [])\<lparr>cn_fd := False\<rparr>, worker0, server0\<lparr>sv_num_connections := 0\<rparr>)"
  by (subst set_value_empty[where key = "replicate 10 7" and r = "[]"])
    (simp_all add: conn_of_def KEY_SIZE_def server0_def)

end
