(* ===== verification/Registry.thy ===== *)
theory Registry
  imports Server
begin

text \<open>
  The parameter server as a state machine: the life of a task in the registry, what every request
  and every tick keeps, and the runs of the server.
\<close>

section \<open>The life of a task\<close>

datatype phase = Unknown | Alive | Dead

fun phase_rank :: "phase \<Rightarrow> nat" where
  "phase_rank Unknown = 0"
| "phase_rank Alive = 1"
| "phase_rank Dead = 2"

instantiation phase :: linorder
begin

definition less_eq_phase :: "phase \<Rightarrow> phase \<Rightarrow> bool" where
  "less_eq_phase a b \<longleftrightarrow> phase_rank a \<le> phase_rank b"

definition less_phase :: "phase \<Rightarrow> phase \<Rightarrow> bool" where
  "less_phase a b \<longleftrightarrow> phase_rank a < phase_rank b"

instance
proof
  fix x y z :: phase
  show "x < y \<longleftrightarrow> x \<le> y \<and> \<not> y \<le> x" "x \<le> x" "x \<le> y \<Longrightarrow> y \<le> z \<Longrightarrow> x \<le> z" "x \<le> y \<or> y \<le> x"
    by (auto simp: less_eq_phase_def less_phase_def)
  show "x \<le> y \<Longrightarrow> y \<le> x \<Longrightarrow> x = y"
    by (cases x; cases y) (auto simp: less_eq_phase_def)
qed

end

lemma Unknown_least [simp]: "Unknown \<le> p"
  by (cases p) (auto simp: less_eq_phase_def)

lemma Dead_greatest [simp]: "Dead \<le> p \<longleftrightarrow> p = Dead"
  by (cases p) (auto simp: less_eq_phase_def)

lemma le_Dead [simp]: "p \<le> Dead"
  by (cases p) (auto simp: less_eq_phase_def)

lemma Alive_le [simp]: "Alive \<le> p \<longleftrightarrow> p \<noteq> Unknown"
  by (cases p) (auto simp: less_eq_phase_def)

text \<open>The registry, and the phase of a task that its three tables stand for.\<close>

type_synonym registry = "u64 set \<times> (u64 \<rightharpoonup> int) \<times> (u64 \<times> int) list"

definition registry :: "server \<Rightarrow> registry" where
  "registry s = (sv_registered s, sv_remaining s, sv_starttime s)"

definition phase_of :: "registry \<Rightarrow> u64 \<Rightarrow> phase" where
  "phase_of = (\<lambda>(registered, _, starttime) tid.
     if tid \<notin> registered then Unknown else if map_of starttime tid = None then Dead else Alive)"

definition phase :: "server \<Rightarrow> u64 \<Rightarrow> phase" where
  "phase s = phase_of (registry s)"

text \<open>What the replies promise, and what becomes of the task.\<close>

fun spec_register :: "phase \<Rightarrow> u32 \<times> phase" where
  "spec_register Unknown = (0, Alive)"
| "spec_register p = (1, p)"

fun spec_deregister :: "phase \<Rightarrow> u32 \<times> phase" where
  "spec_deregister Unknown = (2, Unknown)"
| "spec_deregister Alive = (0, Dead)"
| "spec_deregister Dead = (1, Dead)"

text \<open>The other components of the state.\<close>

definition beyond_registry :: "server \<Rightarrow> server" where
  "beyond_registry s = s\<lparr>sv_registered := {}, sv_remaining := Map.empty, sv_starttime := [], sv_num_tasks := 0\<rparr>"

text \<open>\<open>REGISTER_TASK\<close> answers \<open>0\<close> and brings a task to life the first time, and answers \<open>1\<close> and
  changes no task afterwards, even when the task is dead; nothing outside of the registry changes.\<close>

lemma register_refines:
  assumes "cn_in c = store_u32 (op_code REGISTER_TASK) @ store_u32 tid @ store_u32 t @ r" "writable c"
  shows "\<exists>s'. serve now c w s = Inr (c\<lparr>cn_in := r,
        cn_out := cn_out c @ store_u32 (fst (spec_register (phase s (ucast tid))))\<rparr>, w, s')
    \<and> phase s' = (phase s)(ucast tid := snd (spec_register (phase s (ucast tid))))
    \<and> beyond_registry s' = beyond_registry s"
proof -
  define s' where "s' = (if ucast tid \<in> sv_registered s then s else s\<lparr>sv_registered := insert (ucast tid) (sv_registered s),
      sv_remaining := (sv_remaining s)(ucast tid \<mapsto> int (unat t)),
      sv_starttime := AList.update (ucast tid) now (sv_starttime s)\<rparr>)"
  have out: "fst (spec_register (phase s (ucast tid))) = (if ucast tid \<in> sv_registered s then 1 else 0)"
    by (auto simp: phase_def phase_of_def registry_def)
  have "serve now c w s = Inr (c\<lparr>cn_in := r, cn_out := cn_out c @ store_u32 (fst (spec_register (phase s (ucast tid))))\<rparr>,
      w, s'\<lparr>sv_num_tasks := sv_num_tasks s' + 1\<rparr>)"
    using assms by (simp add: serve_op[where x = REGISTER_TASK] process_register_task_def read_or_close_two out
        s'_def send_n_def writable_def Let_def del: op_code.simps)
  moreover have "phase (s'\<lparr>sv_num_tasks := sv_num_tasks s' + 1\<rparr>)
      = (phase s)(ucast tid := snd (spec_register (phase s (ucast tid))))"
    by (auto simp: fun_eq_iff phase_def phase_of_def registry_def s'_def update_conv')
  moreover have "beyond_registry (s'\<lparr>sv_num_tasks := sv_num_tasks s' + 1\<rparr>) = beyond_registry s"
    by (simp add: beyond_registry_def s'_def)
  ultimately show ?thesis by blast
qed

text \<open>\<open>DEREGISTER_TASK\<close> answers \<open>0\<close> and ends a task that is alive, \<open>1\<close> for one that has ended and
  \<open>2\<close> for one that was never registered; no other task and nothing outside of the registry changes.\<close>

lemma deregister_refines:
  assumes "cn_in c = store_u32 (op_code DEREGISTER_TASK) @ store_u32 tid @ r" "writable c"
  shows "\<exists>s'. serve now c w s = Inr (c\<lparr>cn_in := r,
        cn_out := cn_out c @ store_u32 (fst (spec_deregister (phase s (ucast tid))))\<rparr>, w, s')
    \<and> phase s' = (phase s)(ucast tid := snd (spec_deregister (phase s (ucast tid))))
    \<and> beyond_registry s' = beyond_registry s"
proof -
  define s' where "s' = (if ucast tid \<in> sv_registered s then snd (declare_task_dead tid s) else s)"
  have "serve now c w s = Inr (c\<lparr>cn_in := r,
      cn_out := cn_out c @ store_u32 (fst (spec_deregister (phase s (ucast tid))))\<rparr>, w, s')"
    using assms by (auto simp: serve_op[where x = DEREGISTER_TASK] process_deregister_task_def
        phase_def phase_of_def registry_def declare_task_dead_def s'_def send_n_def writable_def Let_def
        simp del: op_code.simps)
  moreover have "phase s' = (phase s)(ucast tid := snd (spec_deregister (phase s (ucast tid))))"
    by (auto simp: fun_eq_iff phase_def phase_of_def registry_def s'_def declare_task_dead_def delete_conv')
  moreover have "beyond_registry s' = beyond_registry s"
    by (simp add: beyond_registry_def s'_def declare_task_dead_def)
  ultimately show ?thesis by blast
qed

lemma phase_server0 [simp]: "phase server0 tid = Unknown"
  by (simp add: phase_def phase_of_def registry_def server0_def)

section \<open>The invariant of the server\<close>

text \<open>
  Every registered task has a 32-bit id and a remaining time, which is \<open>- 1\<close> once it is dead; the
  tasks with a start time are registered, each once. The logistic-regression model has one
  history value per weight, and no handler has set the kill signal.
\<close>

definition registry_wf :: "registry \<Rightarrow> bool" where
  "registry_wf = (\<lambda>(registered, remaining, starttime).
     distinct (map fst starttime) \<and> fst ` set starttime \<subseteq> registered \<and> dom remaining = registered
     \<and> (\<forall>tid\<in>registered. unat tid < 2 ^ 32)
     \<and> (\<forall>tid\<in>registered. map_of starttime tid = None \<longrightarrow> remaining tid = Some (- 1)))"

definition server_wf :: "server \<Rightarrow> bool" where
  "server_wf s \<longleftrightarrow> model_wf (sv_lr s) \<and> registry_wf (registry s) \<and> \<not> sv_kill s"

text \<open>What may become of a server in one step or many.\<close>

definition evolves :: "server \<Rightarrow> server \<Rightarrow> bool" where
  "evolves s s' \<longleftrightarrow> server_wf s \<longrightarrow> server_wf s'
     \<and> length (lrm_weights (sv_lr s')) = length (lrm_weights (sv_lr s))
     \<and> mf_shape (sv_mf s') = mf_shape (sv_mf s) \<and> sv_config s' = sv_config s
     \<and> (\<forall>tid. phase s tid \<le> phase s' tid)"

lemma evolves_refl [simp]: "evolves s s"
  by (simp add: evolves_def)

lemma evolves_trans: "evolves s t \<Longrightarrow> evolves t u \<Longrightarrow> evolves s u"
  by (auto simp: evolves_def intro: order_trans)

lemma evolves_counters [simp]:
  "evolves s (t\<lparr>sv_num_connections := n\<rparr>) \<longleftrightarrow> evolves s t"
  "evolves s (t\<lparr>sv_num_updates := n\<rparr>) \<longleftrightarrow> evolves s t"
  "evolves s (t\<lparr>sv_updates := k\<rparr>) \<longleftrightarrow> evolves s t"
  "evolves s (t\<lparr>sv_num_tasks := n\<rparr>) \<longleftrightarrow> evolves s t"
  "evolves s (t\<lparr>sv_status := st\<rparr>) \<longleftrightarrow> evolves s t"
  "evolves s (kv_put key v t) \<longleftrightarrow> evolves s t"
  by (simp_all add: evolves_def server_wf_def phase_def registry_def kv_put_def)

lemma evolves_lr:
  "opt_sgd_update g (sv_opt s, sv_lr s) = Inr (o', m') \<Longrightarrow> evolves s (s\<lparr>sv_opt := o', sv_lr := m'\<rparr>)"
  by (auto simp: evolves_def server_wf_def phase_def registry_def dest: opt_sgd_update_shape)

lemma evolves_mf: "mf_sgd_update lr g (sv_mf s) = Inr m' \<Longrightarrow> evolves s (s\<lparr>sv_mf := m'\<rparr>)"
  by (auto simp: evolves_def server_wf_def phase_def registry_def dest: mf_sgd_update_shape)

lemma evolves_register:
  assumes "ucast (tid :: u32) \<notin> sv_registered s"
  shows "evolves s (s\<lparr>sv_registered := insert (ucast tid) (sv_registered s),
     sv_remaining := (sv_remaining s)(ucast tid \<mapsto> t), sv_starttime := AList.update (ucast tid) now (sv_starttime s)\<rparr>)"
proof -
  have "unat (ucast tid :: u64) < 2 ^ 32" using unat_u32[of tid] by (simp add: unat_u32_u64)
  then show ?thesis using assms
    by (auto simp: evolves_def server_wf_def phase_def phase_of_def registry_def registry_wf_def
        distinct_update update_conv' dom_update split: if_splits)
qed

lemma delete_keys_in: "(a, b) \<in> set (AList.delete k al) \<Longrightarrow> fst ` set al \<subseteq> R \<Longrightarrow> a \<in> R"
  by (force simp: AList.delete_eq)

lemma evolves_declare_dead: "evolves s (snd (declare_task_dead tid s))"
proof (cases "map_of (sv_starttime s) (ucast tid) = None")
  case False
  then have "(ucast tid :: u64) \<in> fst ` set (sv_starttime s)" by (simp add: map_of_eq_None_iff)
  with False show ?thesis
    by (auto simp: declare_task_dead_def evolves_def server_wf_def phase_def phase_of_def registry_def registry_wf_def
        distinct_delete delete_conv' intro: delete_keys_in)
qed (simp add: declare_task_dead_def)

section \<open>Start\<close>

lemma run_starts_lemma:
  assumes "get_learning_rate config = Inr lr" "get_epsilon config = Inr eps"
    and "cf_opt_method config \<in> {''sgd'', ''nesterov'', ''momentum'', ''adagrad''}"
    and "0 \<le> sint (cf_nusers config)" "0 \<le> sint (cf_nitems config)"
  shows "\<exists>s. run_init draw garbage model_size config = Inr s \<and> server_wf s \<and> mf_wf (sv_mf s)
    \<and> mf_nusers (sv_mf s) = scast (cf_nusers config) \<and> mf_nitems (sv_mf s) = scast (cf_nitems config)
    \<and> lrm_weights (sv_lr s) = replicate (unat model_size) 0"
proof -
  have small: "unat (scast i :: u64) < 2 ^ 32" if "0 \<le> sint i" for i :: i32
  proof -
    have "sint i < 2 ^ 31" using sint_lt[of i] by simp
    then show ?thesis using that idx_nonneg[of i] by (simp add: unat_scast_idx nat_less_iff)
  qed
  obtain opt where opt: "choose_opt config = Inr opt"
    using assms(1-3) by (auto simp: choose_opt_def Let_def)
  obtain m where m: "mf_new draw garbage (scast (cf_nusers config)) (scast (cf_nitems config)) (word_of_nat NUM_FACTORS) = Inr m"
    "mf_wf m" "mf_nusers m = scast (cf_nusers config)" "mf_nitems m = scast (cf_nitems config)"
    using mf_new_wf[OF small[OF assms(4)] small[OF assms(5)], of "word_of_nat NUM_FACTORS" draw garbage]
    by (auto simp: NUM_FACTORS_def)
  obtain m' where m': "mf_randomize draw m = Inr m'" "mf_shape m' = mf_shape m"
    using mf_randomize_ok[OF m(2)] by blast
  then have dims: "mf_wf m'" "mf_nusers m' = mf_nusers m" "mf_nitems m' = mf_nitems m"
    using m(2) mf_wf_shape[OF m'(2)] m'(2) by (simp_all add: mf_shape_def)
  define s where "s = \<lparr>sv_opt = opt, sv_lr = lrm_randomize (lrm_new model_size), sv_mf = m', sv_config = config,
    sv_registered = {}, sv_remaining = Map.empty, sv_starttime = [], sv_status = Map.empty, sv_num_tasks = 0,
    sv_num_connections = 0, sv_num_updates = 0, sv_updates = 0, sv_kv = Map.empty, sv_kill = False\<rparr>"
  have "run_init draw garbage model_size config = Inr s"
    by (simp add: run_init_def opt start_server_def m(1) m'(1) s_def)
  moreover have "server_wf s" "lrm_weights (sv_lr s) = replicate (unat model_size) 0" "sv_mf s = m'"
    by (simp_all add: s_def server_wf_def registry_wf_def registry_def model_wf_def lrm_randomize_def lrm_new_def
        map_replicate_const)
  ultimately show ?thesis using dims m(3,4) by simp
qed

text \<open>With a learning rate, an epsilon, one of the four update rules and counts of users and items that
  are not negative, the server starts: both models are made, whatever the random draws, the
  weights are zero, and the state is well formed.\<close>

lemma run_starts:
  assumes "get_learning_rate config = Inr lr" "get_epsilon config = Inr eps"
    and "cf_opt_method config \<in> {''sgd'', ''nesterov'', ''momentum'', ''adagrad''}"
    and "0 \<le> sint (cf_nusers config)" "0 \<le> sint (cf_nitems config)"
  shows "\<exists>s. run_init draw garbage model_size config = Inr s \<and> server_wf s \<and> mf_wf (sv_mf s)
    \<and> mf_nusers (sv_mf s) = scast (cf_nusers config) \<and> mf_nitems (sv_mf s) = scast (cf_nitems config)
    \<and> lrm_weights (sv_lr s) = replicate (unat model_size) 0"
  by (rule run_starts_lemma[OF assms])

definition config0 :: configuration where
  "config0 = conf_new\<lparr>cf_opt_method := ''sgd'', cf_learning_rate := f64_half, cf_epsilon := f64_half, cf_nusers := 2, cf_nitems := 1\<rparr>"

lemma config0_ok: "get_learning_rate config0 = Inr f64_half" "get_epsilon config0 = Inr f64_half"
  by (simp_all add: get_learning_rate_def get_epsilon_def config0_def f64_half_def dec_half)

lemma run_starts_example:
  "\<exists>s. run_init (\<lambda>n. 0) mf_flat 3 config0 = Inr s \<and> server_wf s \<and> mf_wf (sv_mf s)
    \<and> mf_nusers (sv_mf s) = 2 \<and> mf_nitems (sv_mf s) = 1 \<and> lrm_weights (sv_lr s) = replicate 3 0"
  using run_starts[OF config0_ok, of "\<lambda>n. 0" mf_flat 3]
  by (simp add: config0_def conf_new_def)

section \<open>Ticks\<close>

definition expired :: "int \<Rightarrow> server \<Rightarrow> u64 \<times> int \<Rightarrow> bool" where
  "expired now s = (\<lambda>(task, start_time).
     (now - start_time) div 1000000000 > the (sv_remaining s task) + TIMEOUT_THRESHOLD_SEC)"

lemma lifetime_step_wf:
  assumes "registry_wf (registry s)" "e \<in> set (sv_starttime s)"
  shows "lifetime_step now e s = (if expired now s e then Inl Undefined_behaviour else Inr s)"
proof -
  obtain task start where e: "e = (task, start)" by (cases e)
  have reg: "task \<in> sv_registered s"
    using assms by (force simp: registry_wf_def registry_def e)
  then obtain t where t: "sv_remaining s task = Some t"
    using assms(1) unfolding registry_wf_def registry_def prod.case by (metis domD)
  have small: "unat task < 2 ^ 32" using assms(1) reg by (auto simp: registry_wf_def registry_def)
  then have conv: "ucast (ucast task :: u32) = task"
    by (simp add: word_unat_eq_iff unsigned_ucast_eq unsigned_take_bit_eq take_bit_nat_eq_self)
  have "s\<lparr>sv_remaining := (sv_remaining s)(task \<mapsto> t)\<rparr> = s" using t by (simp add: fun_upd_idem)
  moreover obtain y where "map_of (sv_starttime s) task = Some y"
    using assms(2) unfolding e by (metis weak_map_of_SomeI)
  ultimately show ?thesis
    by (simp add: lifetime_step_def e conv t expired_def declare_task_dead_def Let_def)
qed

text \<open>In a well-formed state the periodic check of the tasks either finds none expired and changes
  nothing, or finds one and goes on with an invalidated iterator: no defined run of the check
  ever ends a task.\<close>

lemma lifetime_check:
  assumes "server_wf s"
  shows "check_tasks_lifetime now s =
    (if \<exists>e\<in>set (sv_starttime s). expired now s e then Inl Undefined_behaviour else Inr s)"
proof -
  have "rfold (lifetime_step now) es s = (if \<exists>e\<in>set es. expired now s e then Inl Undefined_behaviour else Inr s)"
    if "set es \<subseteq> set (sv_starttime s)" for es
    using that assms by (induction es) (auto simp: server_wf_def lifetime_step_wf)
  then show ?thesis by (simp add: check_tasks_lifetime_def)
qed

definition one_task :: "int \<Rightarrow> server" where
  "one_task start = server0\<lparr>sv_registered := {3}, sv_remaining := [3 \<mapsto> 60], sv_starttime := [(3, start)]\<rparr>"

lemma one_task_wf: "server_wf (one_task start)"
  by (simp add: server_wf_def registry_wf_def registry_def one_task_def server0_def model_wf_def lrm_new_def)

text \<open>
  A tick of \<open>run\<close> publishes the rate of updates; once per second it also resets the count and looks
  for expired tasks, where it either finds none and leaves the registry as it is, or goes on with
  an invalidated iterator. So no task is ever ended by its timeout.
\<close>

lemma tick_ends_no_task:
  assumes "server_wf s"
  shows "run_tick elapsed_us now s =
    rbind (f64_to_u32 (updates_per_sec (sv_updates s) elapsed_us)) (\<lambda>n.
      if elapsed_us > 1000000
      then (if \<exists>e\<in>set (sv_starttime s). expired now s e then Inl Undefined_behaviour
            else Inr (s\<lparr>sv_num_updates := n, sv_updates := 0\<rparr>))
      else Inr (s\<lparr>sv_num_updates := n\<rparr>))"
proof -
  have "server_wf (s\<lparr>sv_num_updates := n, sv_updates := 0\<rparr>)" for n
    using assms by (simp add: server_wf_def registry_def)
  then show ?thesis
    by (simp add: run_tick_def Let_def lifetime_check expired_def cong: if_cong)
qed

lemma tick_ends_no_task_example:
  "run_tick 2000000 70000000000 (one_task 0) =
     rbind (f64_to_u32 (updates_per_sec 0 2000000)) (\<lambda>n. Inl Undefined_behaviour)"
  using tick_ends_no_task[OF one_task_wf, of 2000000 70000000000 0]
  by (simp add: expired_def one_task_def server0_def TIMEOUT_THRESHOLD_SEC_def)

section \<open>Runs\<close>

text \<open>Every handler, and so every request, takes the server to a state it may evolve into.\<close>

lemmas handler_defs =
  process_send_mf_gradient_def process_send_lr_gradient_def process_get_mf_sparse_model_def
  process_get_lr_sparse_model_def process_get_mf_full_model_def process_get_lr_full_model_def
  process_set_task_status_def process_get_task_status_def process_get_num_conns_def process_get_num_updates_def
  process_get_value_def process_set_value_def

lemma evolves_handler:
  "h \<in> {process_send_mf_gradient, process_send_lr_gradient, process_get_mf_sparse_model,
     process_get_lr_sparse_model, process_get_mf_full_model, process_get_lr_full_model,
     process_set_task_status, process_get_task_status, process_get_num_conns, process_get_num_updates,
     process_get_value, process_set_value} \<Longrightarrow> ensures (h c w s) (\<lambda>(_, _, _, s'). evolves s s')"
  by (elim insertE emptyE; simp only: handler_defs load_then_def;
      intro ensures_rules; simp add: evolves_lr evolves_mf)

lemma evolves_register_task: "ensures (process_register_task now c w s) (\<lambda>(_, _, _, s'). evolves s s')"
  unfolding process_register_task_def
  by (intro ensures_rules) (auto simp: evolves_register split: if_splits)

lemma evolves_deregister_task: "ensures (process_deregister_task c w s) (\<lambda>(_, _, _, s'). evolves s s')"
proof -
  have dead: "evolves s t" if "(a, t) = (if b then declare_task_dead tid s else (2, s))" for a b t tid
    using evolves_declare_dead[of s tid] that by (cases b) (auto dest: arg_cong[where f = snd])
  show ?thesis
    unfolding process_deregister_task_def by (intro ensures_rules; simp; erule dead)
qed

lemma evolves_serve:
  assumes "serve now c w s = Inr (c', w', s')"
  shows "evolves s s'"
proof -
  have h: "evolves s t" if "operation_to_f now x = Some f" "f c w s = Inr (b, c1, w1, t)" for f x c w b c1 w1 t
  proof -
    have "ensures (f c w s) (\<lambda>(_, _, _, s'). evolves s s')"
      using map_of_SomeD[OF that(1)[unfolded operation_to_f_def]] evolves_handler evolves_register_task
        evolves_deregister_task
      by (auto simp del: op_code.simps)
    with that(2) show ?thesis by (simp add: ensures_def)
  qed
  have "\<not> (operation_to_f now (op_code KILL_SIGNAL) = Some f)" for f
    by (simp add: operation_to_f_def)
  then have "ensures (serve now c w s) (\<lambda>(_, _, s'). evolves s s')"
    unfolding serve_def handle_failed_read_def prod.case Let_def
    by (intro ensures_rules) (auto dest: h simp: ensures_def)
  with assms show ?thesis by (simp add: ensures_def)
qed

lemma evolves_tick: "run_tick elapsed_us now s = Inr s' \<Longrightarrow> server_wf s \<Longrightarrow> evolves s s'"
proof -
  assume wf: "server_wf s" and t: "run_tick elapsed_us now s = Inr s'"
  have "server_wf (s\<lparr>sv_num_updates := n, sv_updates := 0\<rparr>)" for n
    using wf by (simp add: server_wf_def registry_def)
  with t show ?thesis
    by (auto simp: run_tick_def Let_def lifetime_check split: if_splits)
qed

text \<open>
  A run of the server: a worker thread serves a request from any connection, the main thread does
  its periodic work, or a poll thread counts a connection that came or went.
\<close>

inductive ps_step :: "server \<Rightarrow> server \<Rightarrow> bool" where
  request: "serve now c w s = Inr (c', w', s') \<Longrightarrow> ps_step s s'"
| tick: "run_tick elapsed_us now s = Inr s' \<Longrightarrow> ps_step s s'"
| connections: "ps_step s (s\<lparr>sv_num_connections := n\<rparr>)"

inductive_cases ps_stepE: "ps_step s s'"

lemma step_evolves: "ps_step s s' \<Longrightarrow> server_wf s \<Longrightarrow> evolves s s'"
  by (erule ps_stepE) (auto dest: evolves_serve evolves_tick)

lemma run_evolves: "ps_step\<^sup>*\<^sup>* s s' \<Longrightarrow> server_wf s \<Longrightarrow> evolves s s' \<and> server_wf s'"
proof (induction rule: rtranclp_induct)
  case (step t u)
  then have "evolves s t" "server_wf t" "evolves t u" by (auto dest: step_evolves)
  with step.prems show ?case using evolves_trans[of s t u] by (auto simp: evolves_def)
qed simp

text \<open>C8: Whatever requests, ticks and connections a server started by \<open>run\<close> goes through, the number
  of weights and the shape of the matrix-factorisation model stay what they were, the registry
  stays consistent, no task goes back to an earlier phase of its life, and the kill signal is
  never set.\<close>

theorem server_invariant:
  assumes "run_init draw garbage model_size config = Inr s" "ps_step\<^sup>*\<^sup>* s s1" "ps_step\<^sup>*\<^sup>* s1 s2"
  shows "length (lrm_weights (sv_lr s2)) = unat model_size \<and> mf_shape (sv_mf s2) = mf_shape (sv_mf s)
    \<and> registry_wf (registry s2) \<and> \<not> sv_kill s2 \<and> (\<forall>tid. phase s1 tid \<le> phase s2 tid)"
proof -
  have init: "server_wf s" "length (lrm_weights (sv_lr s)) = unat model_size"
    using assms(1) by (auto simp: run_init_def start_server_def server_wf_def registry_wf_def registry_def model_wf_def
        lrm_randomize_def lrm_new_def)
  then have "evolves s s1" "server_wf s1" using run_evolves[OF assms(2)] by auto
  moreover then have "evolves s1 s2" "server_wf s2" using run_evolves[OF assms(3)] by auto
  ultimately show ?thesis using init by (simp add: evolves_def server_wf_def)
qed

theorem server_invariant_witness:
  "\<exists>s s1. run_init (\<lambda>n. 0) mf_flat 3 config0 = Inr s \<and> ps_step\<^sup>*\<^sup>* s s1 \<and> phase s1 3 = Alive
    \<and> length (lrm_weights (sv_lr s1)) = 3 \<and> registry_wf (registry s1) \<and> \<not> sv_kill s1"
proof -
  obtain s where s: "run_init (\<lambda>n. 0) mf_flat 3 config0 = Inr s"
    using run_starts_lemma[OF config0_ok, of "\<lambda>n. 0" mf_flat 3] by (auto simp: config0_def conf_new_def)
  then have new: "phase s 3 = Unknown"
    by (auto simp: run_init_def phase_def phase_of_def registry_def)
  obtain s1 where s1: "serve 5 (conn_of (store_u32 8 @ store_u32 3 @ store_u32 60)) worker0 s
      = Inr ((conn_of [])\<lparr>cn_out := store_u32 0\<rparr>, worker0, s1)" "phase s1 = (phase s)(3 := Alive)"
    using register_refines[of "conn_of (store_u32 8 @ store_u32 3 @ store_u32 60)" 3 60 "[]" 5 worker0 s] new
    by (auto simp: conn_of_def writable_def)
  then have r: "ps_step\<^sup>*\<^sup>* s s1" by (blast intro: ps_step.request)
  with server_invariant[OF s rtranclp.rtrancl_refl r] s s1(2) show ?thesis by auto
qed

text \<open>C9: A registration is answered \<open>0\<close> exactly if its task was not known, and makes it known: after whatever
  then happens, every later registration of that task is answered \<open>1\<close> and changes no task, also when the task has ended. So a
  task is told at most once that it is the first.\<close>

theorem register_once:
  assumes "server_wf s" and first: "cn_in c = store_u32 (op_code REGISTER_TASK) @ store_u32 tid @ store_u32 t @ r" "writable c"
    and again: "cn_in c' = store_u32 (op_code REGISTER_TASK) @ store_u32 tid @ store_u32 t' @ r'" "writable c'"
  shows "\<exists>s'. serve now c w s = Inr (c\<lparr>cn_in := r, cn_out := cn_out c @ store_u32 (if phase s (ucast tid) = Unknown then 0 else 1)\<rparr>, w, s')
    \<and> phase s' = (phase s)(ucast tid := (if phase s (ucast tid) = Unknown then Alive else phase s (ucast tid)))
    \<and> (\<forall>s1. ps_step\<^sup>*\<^sup>* s' s1 \<longrightarrow> (\<exists>s2. serve later c' w' s1 = Inr (c'\<lparr>cn_in := r', cn_out := cn_out c' @ store_u32 1\<rparr>, w', s2)
        \<and> phase s2 = phase s1))"
proof -
  let ?p = "phase s (ucast tid)"
  have spec: "spec_register p = (if p = Unknown then (0, Alive) else (1, p))" for p by (cases p) auto
  obtain s' where s': "serve now c w s = Inr (c\<lparr>cn_in := r, cn_out := cn_out c @ store_u32 (if ?p = Unknown then 0 else 1)\<rparr>, w, s')"
    "phase s' = (phase s)(ucast tid := (if ?p = Unknown then Alive else ?p))"
    using register_refines[OF first, of now w s] unfolding spec by (auto split: if_splits)
  have step: "ps_step s s'" using s'(1) by (rule ps_step.request)
  have later: "\<exists>s2. serve later c' w' s1 = Inr (c'\<lparr>cn_in := r', cn_out := cn_out c' @ store_u32 1\<rparr>, w', s2) \<and> phase s2 = phase s1"
    if run: "ps_step\<^sup>*\<^sup>* s' s1" for s1
  proof -
    have wf: "server_wf s'" using run_evolves[of s s', OF _ assms(1)] step by (auto simp: evolves_def)
    have "phase s' (ucast tid) \<le> phase s1 (ucast tid)" using run_evolves[OF run wf] wf by (simp add: evolves_def)
    moreover have "phase s' (ucast tid) \<noteq> Unknown" by (simp add: s'(2))
    ultimately have "phase s1 (ucast tid) \<noteq> Unknown"
      by (cases "phase s' (ucast tid)"; cases "phase s1 (ucast tid)") (auto simp: less_eq_phase_def)
    then have "spec_register (phase s1 (ucast tid)) = (1, phase s1 (ucast tid))" by (simp add: spec)
    with register_refines[OF again] show ?thesis by (metis fst_conv fun_upd_triv snd_conv)
  qed
  then show ?thesis using s' by blast
qed

theorem register_once_witness:
  "\<exists>s'. serve 9 (conn_of (store_u32 8 @ store_u32 5 @ store_u32 60)) worker0 (one_task 0)
      = Inr ((conn_of [])\<lparr>cn_out := store_u32 0\<rparr>, worker0, s')
    \<and> (\<exists>s2. serve 12 (conn_of (store_u32 8 @ store_u32 5 @ store_u32 30)) worker0 (s'\<lparr>sv_num_connections := 4\<rparr>)
        = Inr ((conn_of [])\<lparr>cn_out := store_u32 1\<rparr>, worker0, s2))"
proof -
  have new: "phase (one_task 0) (ucast (5 :: u32)) = Unknown"
    by (simp add: phase_def phase_of_def registry_def one_task_def)
  have run: "ps_step\<^sup>*\<^sup>* s' (s'\<lparr>sv_num_connections := 4\<rparr>)" for s' :: server
    by (blast intro: ps_step.connections)
  have cs: "cn_in (conn_of (store_u32 8 @ store_u32 5 @ store_u32 n)) = store_u32 (op_code REGISTER_TASK) @ store_u32 5 @ store_u32 n @ []"
    "writable (conn_of (store_u32 8 @ store_u32 5 @ store_u32 n))" for n
    by (simp_all add: conn_of_def writable_def)
  let ?c1 = "conn_of (store_u32 8 @ store_u32 5 @ store_u32 60)" and ?c2 = "conn_of (store_u32 8 @ store_u32 5 @ store_u32 30)"
  obtain s' where "serve 9 ?c1 worker0 (one_task 0) = Inr (?c1\<lparr>cn_in := [], cn_out := cn_out ?c1 @ store_u32 0\<rparr>, worker0, s')"
    "\<forall>s1. ps_step\<^sup>*\<^sup>* s' s1 \<longrightarrow> (\<exists>s2. serve 12 ?c2 worker0 s1 = Inr (?c2\<lparr>cn_in := [], cn_out := cn_out ?c2 @ store_u32 1\<rparr>, worker0, s2)
      \<and> phase s2 = phase s1)"
    using register_once[where now = 9 and w = worker0 and later = 12 and w' = worker0, OF one_task_wf[of 0] cs[of 60] cs[of 30]]
    unfolding new if_P[OF refl] by blast
  then show ?thesis using run[of s'] by (auto simp: conn_of_def)
qed

end
