(* ===== verification/Client.thy ===== *)
theory Client
  imports Registry
begin

text \<open>
  The client of the parameter server, \<open>PSSparseServerInterface\<close>: what a worker or the error task
  sends for each request and what it makes of the reply. Every function first sends and then
  reads; \<open>peer\<close> is the other end of the connection, which turns the bytes sent into the bytes
  that arrive before the first read. Memory is unbounded, but writes into the fixed buffer of
  \<open>MAX_MSG_SIZE\<close> bytes and into \<open>seen\<close> are checked.
\<close>

definition MAX_MSG_SIZE :: nat where "MAX_MSG_SIZE = 1024 * 1024"

definition await :: "(byte list \<Rightarrow> byte list) \<Rightarrow> conn \<Rightarrow> conn" where
  "await peer c = c\<lparr>cn_in := cn_in c @ peer (cn_out c)\<rparr>"

text \<open>\<open>if (send_all(sock, data, n) == -1) throw std::runtime_error(msg);\<close> and the variant that
  compares with \<open>n\<close>.\<close>

definition send_or_throw :: "string \<Rightarrow> byte list \<Rightarrow> conn \<Rightarrow> conn res" where
  "send_or_throw msg data c =
     (case send_n data c of (ret, c) \<Rightarrow> rbind (guard_rt (\<not> ret = - 1) msg) (\<lambda>_. Inr c))"

definition send_exactly :: "string \<Rightarrow> byte list \<Rightarrow> conn \<Rightarrow> conn res" where
  "send_exactly msg data c =
     (case send_n data c of (ret, c) \<Rightarrow> rbind (guard_rt (\<not> ret \<noteq> int (length data)) msg) (\<lambda>_. Inr c))"

text \<open>\<open>if (send(sock, &x, sizeof(x), 0) == -1) throw\<close>: one call, whose partial success goes unnoticed.\<close>

definition send_once :: "nat \<Rightarrow> string \<Rightarrow> byte list \<Rightarrow> conn \<Rightarrow> conn res" where
  "send_once k msg data c =
     (case sys_send k data c of (ret, c) \<Rightarrow> rbind (guard_rt (\<not> ret = None) msg) (\<lambda>_. Inr c))"

text \<open>\<open>uint32_t status; if (read_all(sock, &status, sizeof(uint32_t)) == 0) throw ...\<close>\<close>

definition read_u32_or_throw :: "string \<Rightarrow> conn \<Rightarrow> (u32 \<times> conn) res" where
  "read_u32_or_throw msg c =
     rbind (read_n 4 c) (\<lambda>(r, bs, c). rbind (guard_rt (\<not> r = 0) msg) (\<lambda>_. Inr (u32_of bs, c)))"

text \<open>The same read with its result ignored: a variable that was not read is indeterminate.\<close>

definition read_u32_unchecked :: "conn \<Rightarrow> (u32 \<times> conn) res" where
  "read_u32_unchecked c =
     rbind (read_n 4 c) (\<lambda>(r, bs, c). if r = 0 then Inl Undefined_behaviour else Inr (u32_of bs, c))"

section \<open>Gradients\<close>

definition send_lr_gradient :: "(nat \<Rightarrow> nat) \<Rightarrow> lr_sparse_gradient \<Rightarrow> conn \<Rightarrow> conn res" where
  "send_lr_gradient ks gradient c =
     rbind (send_once (ks 0) ''Error sending operation'' (store_u32 (op_code SEND_LR_GRADIENT)) c) (\<lambda>c.
       let size = (ucast (lrs_size gradient) :: u32)
       in rbind (send_once (ks 1) ''Error sending grad size'' (store_u32 size) c) (\<lambda>c.
            let data = lrs_serialize gradient
            in if length data > unat size then Inl Undefined_behaviour
               else let (ret, c) = send_n (take (unat size) data) c
                    in rbind (guard_rt (\<not> ret = 0) ''Error sending grad'') (\<lambda>_. Inr c)))"

definition send_mf_gradient :: "(nat \<Rightarrow> nat) \<Rightarrow> mf_sparse_gradient \<Rightarrow> conn \<Rightarrow> conn res" where
  "send_mf_gradient ks gradient c =
     rbind (send_once (ks 0) ''Error sending operation'' (store_u32 (op_code SEND_MF_GRADIENT)) c) (\<lambda>c.
       let size = (ucast (msg_size gradient) :: u32)
       in rbind (send_once (ks 1) ''Error sending grad size'' (store_u32 size) c) (\<lambda>c.
          rbind (msg_serialize gradient) (\<lambda>data.
            if length data > unat size then Inl Undefined_behaviour
            else let (ret, c) = send_n (take (unat size) data) c
                 in rbind (guard_rt (\<not> ret = 0) ''Error sending grad'') (\<lambda>_. Inr c))))"

section \<open>Models\<close>

text \<open>A \<open>store_value\<close> into the message of \<open>MAX_MSG_SIZE\<close> bytes.\<close>

definition msg_store :: "byte list \<Rightarrow> byte list \<Rightarrow> byte list res" where
  "msg_store bs msg = (if length msg + length bs > MAX_MSG_SIZE then Inl Undefined_behaviour else Inr (msg @ bs))"

text \<open>The indices of a dataset in order, after four bytes left for their number.\<close>

definition lr_indices :: "sparse_dataset \<Rightarrow> (byte list \<times> u32) res" where
  "lr_indices ds =
     rbind (msg_store (store_u32 0) []) (\<lambda>msg.
     rfold (rfold (\<lambda>(index, _) (msg, num_weights).
         rbind (msg_store (store_u32 index) msg) (\<lambda>msg. Inr (msg, num_weights + 1)))) (sd_data ds) (msg, 0))"

definition get_lr_sparse_model_inplace ::
    "(byte list \<Rightarrow> byte list) \<Rightarrow> sparse_dataset \<Rightarrow> sparse_lr_model \<Rightarrow> configuration \<Rightarrow> conn \<Rightarrow>
     (sparse_lr_model \<times> conn) res" where
  "get_lr_sparse_model_inplace peer ds lr_model config c =
     rbind (lr_indices ds) (\<lambda>(msg, num_weights).
       let msg = store_u32 num_weights @ drop 4 msg
       in rbind (send_or_throw ''Error getting sparse lr model'' (store_u32 (op_code GET_LR_SPARSE_MODEL)) c) (\<lambda>c.
            let msg_size = 4 + 4 * num_weights;
                (_, c) = send_n (store_u32 msg_size) c
            in rbind (send_or_throw ''Error getting sparse lr model'' (take (unat msg_size) msg) c) (\<lambda>c.
                 let to_receive_size = 4 * num_weights
                 in rbind (read_n (unat to_receive_size) (await peer c)) (\<lambda>(_, buffer, c).
                    rbind (lrm_load_sparse buffer (drop 4 msg) (ucast num_weights) config lr_model) (\<lambda>m.
                    Inr (m, c))))))"

definition get_lr_sparse_model ::
    "(byte list \<Rightarrow> byte list) \<Rightarrow> sparse_dataset \<Rightarrow> configuration \<Rightarrow> conn \<Rightarrow> (sparse_lr_model \<times> conn) res" where
  "get_lr_sparse_model peer ds config c = get_lr_sparse_model_inplace peer ds (lrm_new 0) config c"

text \<open>\<open>get_full_model(true)\<close> and \<open>get_full_model(false)\<close>.\<close>

definition get_full_mf_model :: "(byte list \<Rightarrow> byte list) \<Rightarrow> mf_model \<Rightarrow> conn \<Rightarrow> (mf_model \<times> conn) res" where
  "get_full_mf_model peer garbage c =
     (let (_, c) = send_n (store_u32 (op_code GET_MF_FULL_MODEL)) c
      in rbind (read_u32_unchecked (await peer c)) (\<lambda>(to_receive_size, c).
         rbind (read_n (unat to_receive_size) c) (\<lambda>(_, buffer, c).
         rbind (mf_of_data garbage buffer) (\<lambda>m. Inr (m, c)))))"

text \<open>
  The size of the array for the model is computed in 64 bits: for a size of \<open>-1\<close> it is zero and the
  first store is out of bounds, for any other negative size \<open>new\<close> throws.
\<close>

definition get_full_lr_model :: "(byte list \<Rightarrow> byte list) \<Rightarrow> conn \<Rightarrow> (sparse_lr_model \<times> conn) res" where
  "get_full_lr_model peer c =
     (let (_, c) = send_n (store_u32 (op_code GET_LR_FULL_MODEL)) c
      in rbind (read_u32_or_throw ''Error talking to PS'' (await peer c)) (\<lambda>(model_size, c).
         if sint model_size = - 1 then Inl Undefined_behaviour
         else if sint model_size < 0 then Inl (Length_error ''std::bad_array_new_length'')
         else rbind (read_n (nat (sint model_size) * 4) c) (\<lambda>(r, bs, c).
              rbind (guard_rt (\<not> r = 0) ''Error talking to PS'') (\<lambda>_.
              rbind (lrm_load (store_u32 model_size @ bs) (lrm_new 0)) (\<lambda>m.
              Inr (m, c))))))"

text \<open>The distinct items of a dataset, in the order of their first ratings.\<close>

definition collect_item :: "i32 \<times> f32 \<Rightarrow> byte list \<times> u32 \<times> (nat \<Rightarrow> bool) \<Rightarrow> (byte list \<times> u32 \<times> (nat \<Rightarrow> bool)) res" where
  "collect_item = (\<lambda>(movieId, _) (msg, item_ids_count, seen).
     if unat movieId \<ge> 17770 then Inl Undefined_behaviour
     else if seen (unat movieId) then Inr (msg, item_ids_count, seen)
     else rbind (msg_store (store_u32 movieId) msg) (\<lambda>msg.
          Inr (msg, item_ids_count + 1, seen(unat movieId := True))))"

definition get_sparse_mf_model ::
    "(byte list \<Rightarrow> byte list) \<Rightarrow> sparse_dataset \<Rightarrow> u32 \<Rightarrow> u32 \<Rightarrow> conn \<Rightarrow> (sparse_mf_model \<times> conn) res" where
  "get_sparse_mf_model peer ds user_base minibatch_size c =
     rbind (rfold (rfold collect_item) (sd_data ds)
              (store_u32 0 @ store_u32 user_base @ store_u32 minibatch_size @ store_u32 MAGIC_NUMBER, 0, \<lambda>_. False))
       (\<lambda>(msg, item_ids_count, _).
       let msg = store_u32 item_ids_count @ drop 4 msg;
           (_, c) = send_n (store_u32 (op_code GET_MF_SPARSE_MODEL)) c;
           msg_size = 4 * 4 + 4 * item_ids_count;
           (_, c) = send_n (store_u32 msg_size) c
       in rbind (send_or_throw ''Error getting sparse mf model'' (take (unat msg_size) msg) c) (\<lambda>c.
          rbind (read_u32_unchecked (await peer c)) (\<lambda>(to_receive_size, c).
          rbind (read_n (unat to_receive_size) c) (\<lambda>(r, buffer, c).
          rbind (guard_rt (\<not> r = 0) []) (\<lambda>_.
          rbind (sm_of_data buffer (ucast minibatch_size) (ucast item_ids_count)) (\<lambda>m. Inr (m, c)))))))"

section \<open>Tasks\<close>

definition register_task :: "(byte list \<Rightarrow> byte list) \<Rightarrow> u32 \<Rightarrow> u32 \<Rightarrow> conn \<Rightarrow> (u32 \<times> conn) res" where
  "register_task peer tid remaining_time_sec c =
     rbind (send_or_throw ''Error registering task''
              (store_u32 (op_code REGISTER_TASK) @ store_u32 tid @ store_u32 remaining_time_sec) c) (\<lambda>c.
     read_u32_or_throw ''Error getting task register return'' (await peer c))"

definition deregister_task :: "(byte list \<Rightarrow> byte list) \<Rightarrow> u32 \<Rightarrow> conn \<Rightarrow> (u32 \<times> conn) res" where
  "deregister_task peer tid c =
     rbind (send_or_throw ''Error registering task'' (store_u32 (op_code DEREGISTER_TASK) @ store_u32 tid) c) (\<lambda>c.
     read_u32_or_throw ''Error getting task register return'' (await peer c))"

definition set_status :: "u32 \<Rightarrow> u32 \<Rightarrow> conn \<Rightarrow> conn res" where
  "set_status tid status c =
     send_or_throw ''Error setting task status'' (store_u32 (op_code SET_TASK_STATUS) @ store_u32 tid @ store_u32 status) c"

definition get_status :: "(byte list \<Rightarrow> byte list) \<Rightarrow> u32 \<Rightarrow> conn \<Rightarrow> (u32 \<times> conn) res" where
  "get_status peer tid c =
     rbind (send_or_throw ''Error getting task status'' (store_u32 (op_code GET_TASK_STATUS) @ store_u32 tid) c) (\<lambda>c.
     read_u32_or_throw ''Error getting task status'' (await peer c))"

section \<open>Values\<close>

text \<open>\<open>char key_char[KEY_SIZE] = {0}; std::copy(...)\<close>\<close>

definition key_char :: "byte list \<Rightarrow> byte list" where
  "key_char key = key @ replicate (KEY_SIZE - length key) 0"

definition set_value :: "byte list \<Rightarrow> byte list \<Rightarrow> u32 \<Rightarrow> conn \<Rightarrow> conn res" where
  "set_value key data nbytes c =
     rbind (cassert (length key \<le> KEY_SIZE)) (\<lambda>_.
     rbind (send_exactly ''Error sending operation'' (store_u32 (op_code SET_VALUE)) c) (\<lambda>c.
     rbind (send_exactly ''Error sending key name'' (key_char key) c) (\<lambda>c.
     rbind (send_exactly ''Error sending value size'' (store_u32 nbytes) c) (\<lambda>c.
       if length data < unat nbytes then Inl Undefined_behaviour
       else send_exactly ''Error sending value data'' (take (unat nbytes) data) c))))"

text \<open>\<open>None\<close> stands for the null pointer, which is returned for a size of zero.\<close>

definition get_value :: "(byte list \<Rightarrow> byte list) \<Rightarrow> byte list \<Rightarrow> conn \<Rightarrow> ((byte list option \<times> u32) \<times> conn) res" where
  "get_value peer key c =
     (if length key > KEY_SIZE then Inl Undefined_behaviour
      else rbind (send_exactly ''Error sending operation'' (store_u32 (op_code GET_VALUE)) c) (\<lambda>c.
           rbind (send_exactly ''Error sending key name'' (key_char key) c) (\<lambda>c.
           rbind (read_n 4 (await peer c)) (\<lambda>(r, bs, c).
           rbind (guard_rt (\<not> r \<noteq> 4) ''Error reading key value'') (\<lambda>_.
             let size = u32_of bs
             in if size = 0 then Inr ((None, 0), c)
                else rbind (read_n (unat size) c) (\<lambda>(r, data, c).
                     rbind (guard_rt (\<not> r \<noteq> unat size) ''Error receiving value data'') (\<lambda>_.
                     Inr ((Some data, size), c))))))))"

section \<open>Sends that succeed\<close>

lemma send_or_throw_ok [simp]: "writable c \<Longrightarrow> send_or_throw msg data c = Inr (c\<lparr>cn_out := cn_out c @ data\<rparr>)"
  by (simp add: send_or_throw_def send_n_ok)

lemma send_exactly_ok [simp]: "writable c \<Longrightarrow> send_exactly msg data c = Inr (c\<lparr>cn_out := cn_out c @ data\<rparr>)"
  by (simp add: send_exactly_def send_n_ok)

lemma send_once_ok [simp]:
  "writable c \<Longrightarrow> 0 < length data \<Longrightarrow> length data \<le> k \<Longrightarrow>
   send_once k msg data c = Inr (c\<lparr>cn_out := cn_out c @ data\<rparr>)"
  by (simp add: send_once_def sys_send_def writable_def Let_def min_def max_def)

lemma writable_out [simp]: "writable (c\<lparr>cn_out := out\<rparr>) = writable c" "writable (c\<lparr>cn_in := bs\<rparr>) = writable c"
  by (simp_all add: writable_def)

end
