(* ===== verification/EndToEnd.thy ===== *)
theory EndToEnd
  imports Client
begin

text \<open>
  Client and server together: what a client's call on one end of a connection does to the server
  on the other end, and what the client gets back.
\<close>

text \<open>The reply of the server to the bytes of one request, and its state after it.\<close>

definition answer :: "int \<Rightarrow> worker \<Rightarrow> server \<Rightarrow> byte list \<Rightarrow> byte list" where
  "answer now w s bs = (case serve now (conn_of bs) w s of Inr (c, _, _) \<Rightarrow> cn_out c | Inl _ \<Rightarrow> [])"

definition after :: "int \<Rightarrow> worker \<Rightarrow> server \<Rightarrow> byte list \<Rightarrow> server option" where
  "after now w s bs = (case serve now (conn_of bs) w s of
     Inr (c, _, s') \<Rightarrow> (if cn_in c = [] then Some s' else None) | Inl _ \<Rightarrow> None)"

lemma served_whole:
  "serve now (conn_of bs) w s = Inr ((conn_of [])\<lparr>cn_out := out\<rparr>, w', s') \<Longrightarrow>
   answer now w s bs = out \<and> after now w s bs = Some s'"
  by (simp add: answer_def after_def conn_of_def)

lemma conn_of_simps [simp]:
  "cn_in (conn_of bs) = bs" "cn_out (conn_of bs) = []" "writable (conn_of bs)"
  "(conn_of bs)\<lparr>cn_in := bs'\<rparr> = conn_of bs'"
  "(conn_of bs)\<lparr>cn_out := out, cn_in := bs'\<rparr> = (conn_of bs')\<lparr>cn_out := out\<rparr>" "cn_end (conn_of bs) = Idle"
  by (simp_all add: conn_of_def writable_def)

lemma await_conn: "await peer ((conn_of [])\<lparr>cn_out := bs\<rparr>) = (conn_of (peer bs))\<lparr>cn_out := bs\<rparr>"
  by (simp add: await_def conn_of_def)

lemma read_u32_ok:
  "cn_in c = store_u32 x @ r \<Longrightarrow> read_u32_or_throw msg c = Inr (x, c\<lparr>cn_in := r\<rparr>)"
  "cn_in c = store_u32 x @ r \<Longrightarrow> read_u32_unchecked c = Inr (x, c\<lparr>cn_in := r\<rparr>)"
  by (simp_all add: read_u32_or_throw_def read_u32_unchecked_def)

section \<open>Tasks\<close>

lemma ask_u32:
  assumes "serve now (conn_of bs) w s = Inr ((conn_of [])\<lparr>cn_out := store_u32 x\<rparr>, w', s')"
  shows "read_u32_or_throw msg (await (answer now w s) ((conn_of [])\<lparr>cn_out := bs\<rparr>)) = Inr (x, (conn_of [])\<lparr>cn_out := bs\<rparr>)
    \<and> after now w s bs = Some s'"
  using served_whole[OF assms] by (simp add: await_conn read_u32_ok(1)[where r = "[]"])

text \<open>
  C29: A client that registers a task gets the code for the phase the task is in, and the server moves
  that task, and no other, to the next phase: alive if it was unknown, and otherwise none.
\<close>

theorem register_task_spec:
  "\<exists>s1 c1. register_task (answer now w s) tid t (conn_of []) = Inr (fst (spec_register (phase s (ucast tid))), c1)
     \<and> after now w s (cn_out c1) = Some s1
     \<and> phase s1 = (phase s)(ucast tid := snd (spec_register (phase s (ucast tid))))"
proof -
  let ?bs = "store_u32 (op_code REGISTER_TASK) @ store_u32 tid @ store_u32 t"
  obtain s1 where s1: "serve now (conn_of ?bs) w s
      = Inr ((conn_of [])\<lparr>cn_out := store_u32 (fst (spec_register (phase s (ucast tid))))\<rparr>, w, s1)"
    "phase s1 = (phase s)(ucast tid := snd (spec_register (phase s (ucast tid))))"
    using register_refines[of "conn_of ?bs" tid t "[]" now w s] by auto
  show ?thesis
    using ask_u32[OF s1(1)] s1(2) by (simp add: register_task_def del: op_code.simps)
qed

text \<open>C30: A client that deregisters a task ends it when it is alive; the code tells whether it was (\<open>0\<close>),
  had already ended (\<open>1\<close>) or was never registered (\<open>2\<close>).\<close>

theorem deregister_task_spec:
  "\<exists>s1 c1. deregister_task (answer now w s) tid (conn_of []) = Inr (fst (spec_deregister (phase s (ucast tid))), c1)
     \<and> after now w s (cn_out c1) = Some s1
     \<and> phase s1 = (phase s)(ucast tid := snd (spec_deregister (phase s (ucast tid))))"
proof -
  let ?bs = "store_u32 (op_code DEREGISTER_TASK) @ store_u32 tid"
  obtain s1 where s1: "serve now (conn_of ?bs) w s
      = Inr ((conn_of [])\<lparr>cn_out := store_u32 (fst (spec_deregister (phase s (ucast tid))))\<rparr>, w, s1)"
    "phase s1 = (phase s)(ucast tid := snd (spec_deregister (phase s (ucast tid))))"
    using deregister_refines[of "conn_of ?bs" tid "[]" now w s] by auto
  show ?thesis
    using ask_u32[OF s1(1)] s1(2) by (simp add: deregister_task_def del: op_code.simps)
qed

text \<open>The status a client sets for a task is the one every client gets afterwards, as \<open>0\<close> or \<open>1\<close>;
  tasks whose status was not set have \<open>0\<close>.\<close>

lemma status_roundtrip:
  assumes "unat tid' < 10000"
  shows "\<exists>s1 c1 c2. set_status tid status (conn_of []) = Inr c1 \<and> after now w s (cn_out c1) = Some s1
    \<and> get_status (answer now w s1) tid' (conn_of []) = Inr (
         if tid' = tid then (if status = 0 then 0 else 1)
         else (if sv_status s tid' = Some True then 1 else 0), c2)"
proof -
  let ?bs = "store_u32 (op_code SET_TASK_STATUS) @ store_u32 tid @ store_u32 status"
  let ?get = "store_u32 (op_code GET_TASK_STATUS) @ store_u32 tid'"
  define s1 where "s1 = s\<lparr>sv_status := (sv_status s)(tid \<mapsto> (status \<noteq> 0))\<rparr>"
  define x :: u32 where "x = (if sv_status s1 tid' = None \<or> sv_status s1 tid' = Some False then 0 else 1)"
  have "serve now (conn_of ?bs) w s = Inr (conn_of [], w, s1)"
    by (simp add: serve_op[where x = SET_TASK_STATUS] process_set_task_status_def read_or_close_two[where r = "[]"] s1_def
        del: op_code.simps)
  then have set: "after now w s ?bs = Some s1" by (simp add: after_def)
  have "serve now (conn_of ?get) w s1 = Inr ((conn_of [])\<lparr>cn_out := store_u32 x\<rparr>, w, s1)"
    using assms by (auto simp: serve_op[where x = GET_TASK_STATUS] process_get_task_status_def send_n_ok x_def
        read_n_u32[where r = "[]"] Let_def simp del: op_code.simps)
  from ask_u32[OF this] have "get_status (answer now w s1) tid' (conn_of []) = Inr (x, (conn_of [])\<lparr>cn_out := ?get\<rparr>)"
    by (simp add: get_status_def del: op_code.simps)
  moreover have "x = (if tid' = tid then (if status = 0 then 0 else 1)
         else (if sv_status s tid' = Some True then 1 else 0))"
    by (auto simp: x_def s1_def)
  ultimately show ?thesis using set by (simp add: set_status_def del: op_code.simps)
qed

lemma status_roundtrip_example:
  "\<exists>s1 c1 c2. set_status 7 5 (conn_of []) = Inr c1 \<and> after 0 worker0 server0 (cn_out c1) = Some s1
    \<and> get_status (answer 0 worker0 s1) 7 (conn_of []) = Inr (1, c2)"
  using status_roundtrip[of 7 7 5 0 worker0 server0] by simp

section \<open>Values\<close>

lemma length_key_char: "length key \<le> KEY_SIZE \<Longrightarrow> length (key_char key) = KEY_SIZE"
  by (simp add: key_char_def)

lemma c_string_key_char: "0 \<notin> set key \<Longrightarrow> c_string (key_char key) = key"
  by (simp add: key_char_def c_string_pad)

lemma get_value_answer:
  assumes "length key \<le> KEY_SIZE" "0 \<notin> set key"
  shows "answer now w s (store_u32 (op_code GET_VALUE) @ key_char key)
    = (case kv_find key s of None \<Rightarrow> [0] | Some (n, val) \<Rightarrow> store_u32 n @ val)"
  using serve_get_value[of "conn_of (store_u32 (op_code GET_VALUE) @ key_char key)" "key_char key" "[]" now w s]
    length_key_char[OF assms(1)] c_string_key_char[OF assms(2)]
  by (simp add: answer_def del: op_code.simps)

lemma get_value_sends:
  assumes "length key \<le> KEY_SIZE"
  shows "get_value peer key (conn_of []) =
     (let bs = store_u32 (op_code GET_VALUE) @ key_char key in
      rbind (read_n 4 ((conn_of (peer bs))\<lparr>cn_out := bs\<rparr>)) (\<lambda>(r, bs, c).
      rbind (guard_rt (\<not> r \<noteq> 4) ''Error reading key value'') (\<lambda>_.
        let size = u32_of bs
        in if size = 0 then Inr ((None, 0), c)
           else rbind (read_n (unat size) c) (\<lambda>(r, data, c).
                rbind (guard_rt (\<not> r \<noteq> unat size) ''Error receiving value data'') (\<lambda>_.
                Inr ((Some data, size), c))))))"
  using assms by (simp add: get_value_def await_conn Let_def del: op_code.simps)

text \<open>C32: A value stored under a key of at most ten bytes, none of them zero, is what a client gets back
  for the key; the values of other keys stay as they were.\<close>

theorem value_roundtrip:
  assumes "length key \<le> KEY_SIZE" "0 \<notin> set key" "val \<noteq> []" "length val < 2 ^ 32"
  shows "\<exists>c1 s1 c2. set_value key val (word_of_nat (length val)) (conn_of []) = Inr c1
    \<and> after now w s (cn_out c1) = Some s1
    \<and> get_value (answer now w s1) key (conn_of []) = Inr ((Some val, word_of_nat (length val)), c2)
    \<and> (\<forall>k. k \<noteq> key \<longrightarrow> kv_find k s1 = kv_find k s)"
proof -
  define n where "n = (word_of_nat (length val) :: u32)"
  have n: "unat n = length val" "n \<noteq> 0"
    using assms(3,4) by (auto simp: n_def unat_of_nat take_bit_nat_eq_self unat_eq_0[symmetric])
  let ?bs = "store_u32 (op_code SET_VALUE) @ key_char key @ store_u32 n @ val"
  define s1 where "s1 = kv_put key (n, val) s"
  have "serve now (conn_of ?bs) w s = Inr (conn_of [], w, s1)"
    using serve_set_value[of "conn_of ?bs" "key_char key" val "[]" now w s] assms(3,4)
      length_key_char[OF assms(1)] c_string_key_char[OF assms(2)]
    by (simp add: s1_def n_def del: op_code.simps)
  then have set: "after now w s ?bs = Some s1" by (simp add: after_def)
  have sent: "set_value key val n (conn_of []) = Inr ((conn_of [])\<lparr>cn_out := ?bs\<rparr>)"
    using assms(1) n by (simp add: set_value_def del: op_code.simps)
  have "get_value (answer now w s1) key (conn_of []) = Inr ((Some val, n),
      (conn_of [])\<lparr>cn_out := store_u32 (op_code GET_VALUE) @ key_char key\<rparr>)"
    using n read_n_prefix[of _ val "[]"]
    by (simp add: get_value_sends[OF assms(1)] get_value_answer[OF assms(1,2)] s1_def kv.find_put_same Let_def
        del: op_code.simps)
  then show ?thesis using set sent kv.find_put[of _ key "(n, val)" s] by (auto simp: n_def s1_def)
qed

theorem value_roundtrip_witness:
  "\<exists>c1 s1 c2. set_value [109, 111] [1, 2, 3] (word_of_nat (length [1, 2, 3 :: byte])) (conn_of []) = Inr c1
    \<and> after 0 worker0 server0 (cn_out c1) = Some s1
    \<and> get_value (answer 0 worker0 s1) [109, 111] (conn_of []) = Inr ((Some [1, 2, 3], word_of_nat (length [1, 2, 3 :: byte])), c2)
    \<and> (\<forall>k. k \<noteq> [109, 111] \<longrightarrow> kv_find k s1 = kv_find k server0)"
  by (rule value_roundtrip) (simp_all add: KEY_SIZE_def)

text \<open>C33: A client that asks for a key that was never stored does not get an answer: the server sends one
  byte for "not found", the client waits for four.\<close>

theorem missing_value_blocks:
  assumes "length key \<le> KEY_SIZE" "0 \<notin> set key" "kv_find key s = None"
  shows "get_value (answer now w s) key (conn_of []) = Inl Blocked"
  using assms(3)
  by (simp add: get_value_sends[OF assms(1)] get_value_answer[OF assms(1,2)] read_n_def Let_def del: op_code.simps)

theorem missing_value_blocks_witness:
  "get_value (answer 0 worker0 server0) [109] (conn_of []) = Inl Blocked"
  by (rule missing_value_blocks) (simp_all add: KEY_SIZE_def kv_find_def server0_def)

section \<open>Gradients\<close>

lemma word_size_ok: "unat (x :: u64) = n \<Longrightarrow> (ucast x :: u32) = word_of_nat n"
  by auto

definition worker_wf :: "worker \<Rightarrow> bool" where
  "worker_wf w \<longleftrightarrow> length (wk_buffer w) = THREAD_BUFFER_SIZE \<and> length (wk_msg w) = THREAD_MSG_BUFFER_SIZE"

lemma worker0_wf: "worker_wf worker0"
  by (simp add: worker_wf_def worker0_def)

lemma overwrite_append: "overwrite bs buf = bs @ drop (length bs) buf"
  by (simp add: overwrite_def)

lemma length_lrs_serialize: "length (lrs_serialize g) = 8 * length (lrs_weights g) + 8"
proof -
  have "length (store_many (\<lambda>(index, v). store_u32 index @ store_u32 v) (lrs_weights g)) = 8 * length (lrs_weights g)"
    by (rule length_store_many_items) auto
  then show ?thesis by (simp add: lrs_serialize_def)
qed

lemma opt_update_version:
  "opt_sgd_update (LRSparseGradient (g\<lparr>lrs_version := v\<rparr>)) = opt_sgd_update (LRSparseGradient g)"
  by (rule ext) (simp add: opt_sgd_update_def as_sparse_gradient_def)

lemma send_lr_gradient_sends:
  assumes "length (lrs_weights g) < 10000000" "4 \<le> ks 0" "4 \<le> ks 1"
  shows "send_lr_gradient ks g (conn_of []) = Inr ((conn_of [])\<lparr>cn_out :=
      store_u32 (op_code SEND_LR_GRADIENT) @ store_u32 (word_of_nat (length (lrs_serialize g))) @ lrs_serialize g\<rparr>)"
proof -
  have len: "0 < length (lrs_serialize g)" "length (lrs_serialize g) < 2 ^ 32"
    using assms(1) by (simp_all add: length_lrs_serialize)
  have sz: "(ucast (lrs_size g) :: u32) = word_of_nat (length (lrs_serialize g))"
    using assms(1) by (intro word_size_ok lrs_size_exact) simp
  have n: "unat (word_of_nat (length (lrs_serialize g)) :: u32) = length (lrs_serialize g)"
    using len(2) by (simp add: unat_of_nat take_bit_nat_eq_self)
  show ?thesis
    using assms(2,3) len(1) by (simp add: send_lr_gradient_def sz n send_n_ok Let_def del: op_code.simps)
qed

text \<open>C6: A sparse gradient that a client sends is what the server's update rule is applied to, once: the
  server has the model \<open>opt_sgd_update\<close> makes of it, and counts one update.\<close>

theorem lr_gradient_applied:
  assumes "lrs_weights g \<noteq> []" "length (lrs_weights g) < 10000000" "4 \<le> ks 0" "4 \<le> ks 1" "worker_wf w"
    and "opt_sgd_update (LRSparseGradient g) (sv_opt s, sv_lr s) = Inr (opt, m)"
  shows "\<exists>c. send_lr_gradient ks g (conn_of []) = Inr c
    \<and> after now w s (cn_out c) = Some (s\<lparr>sv_opt := opt, sv_lr := m, sv_updates := sv_updates s + 1\<rparr>)"
proof -
  define body where "body = lrs_serialize g"
  define bs where "bs = store_u32 (op_code SEND_LR_GRADIENT) @ store_u32 (word_of_nat (length body)) @ body"
  have msg: "msg_in body w"
    using assms(2,5) unfolding msg_in_def body_def
    by (auto simp: length_lrs_serialize worker_wf_def THREAD_BUFFER_SIZE_def simp flip: length_greater_0_conv)
  have load: "lrs_load (overwrite body (wk_buffer w)) \<lparr>lrs_weights = [], lrs_version = 0\<rparr>
      = Inr (g\<lparr>lrs_version := scast (ucast (lrs_version g) :: i32)\<rparr>)"
    using lrs_roundtrip[OF assms(1,2)] by (simp add: overwrite_append body_def)
  have new: "lrs_new 0 = Inr \<lparr>lrs_weights = [], lrs_version = 0\<rparr>" by (simp add: lrs_new_def vec_new_def)
  have "\<exists>w'. serve now (conn_of bs) w s = Inr (conn_of [], w', s\<lparr>sv_opt := opt, sv_lr := m, sv_updates := sv_updates s + 1\<rparr>)"
    using assms(6)
    by (simp add: bs_def serve_op[where x = SEND_LR_GRADIENT] process_send_lr_gradient_def
        read_message_ok(2)[where r = "[]", OF _ msg] new load opt_update_version del: op_code.simps)
  then have "after now w s bs = Some (s\<lparr>sv_opt := opt, sv_lr := m, sv_updates := sv_updates s + 1\<rparr>)"
    by (auto simp: after_def)
  then show ?thesis
    using send_lr_gradient_sends[of g ks] assms(2-4) by (simp add: bs_def body_def)
qed

text \<open>The bytes of a matrix-factorisation gradient, and the server on them when more bytes follow.\<close>

definition mf_grad_bytes :: "mf_sparse_gradient \<Rightarrow> byte list" where
  "mf_grad_bytes g = (case msg_serialize g of Inl e \<Rightarrow> []
     | Inr body \<Rightarrow> store_u32 (op_code SEND_MF_GRADIENT) @ store_u32 (word_of_nat (length body)) @ body)"

lemma mf_gradient_bytes:
  assumes "msg_wf g" "unat (msg_size g) \<le> THREAD_BUFFER_SIZE"
  shows "mf_grad_bytes g \<noteq> []"
    "4 \<le> ks 0 \<Longrightarrow> 4 \<le> ks 1 \<Longrightarrow> send_mf_gradient ks g (conn_of []) = Inr ((conn_of [])\<lparr>cn_out := mf_grad_bytes g\<rparr>)"
    "worker_wf w \<Longrightarrow> get_learning_rate (sv_config s) = Inr lr \<Longrightarrow> mf_sgd_update lr (MFSparseGradient g) (sv_mf s) = Inr m \<Longrightarrow>
      \<exists>w'. serve now (conn_of (mf_grad_bytes g @ r)) w s = Inr (conn_of r, w', s\<lparr>sv_mf := m, sv_updates := sv_updates s + 1\<rparr>)"
proof -
  obtain body where body: "msg_serialize g = Inr body" "unat (msg_size g) = length body"
    "\<And>r. msg_load (body @ r) msg_new = Inr g"
    using msg_roundtrip[OF assms(1)] by (metis sum.inject(2))
  have bs: "mf_grad_bytes g = store_u32 (op_code SEND_MF_GRADIENT) @ store_u32 (word_of_nat (length body)) @ body"
    by (simp add: mf_grad_bytes_def body(1))
  have len: "16 \<le> length body" "length body < 2 ^ 32"
    using body(1) assms(2) body(2) by (auto simp: msg_serialize_def THREAD_BUFFER_SIZE_def)
  have sz: "(ucast (msg_size g) :: u32) = word_of_nat (length body)"
    by (rule word_size_ok[OF body(2)])
  have n: "unat (word_of_nat (length body) :: u32) = length body"
    using len(2) by (simp add: unat_of_nat take_bit_nat_eq_self)
  have ne: "body \<noteq> []" using len(1) by auto
  then show "mf_grad_bytes g \<noteq> []" by (simp add: bs)
  show "send_mf_gradient ks g (conn_of []) = Inr ((conn_of [])\<lparr>cn_out := mf_grad_bytes g\<rparr>)" if "4 \<le> ks 0" "4 \<le> ks 1"
    using that ne by (simp add: send_mf_gradient_def sz n body(1) send_n_ok Let_def bs del: op_code.simps)
  assume w: "worker_wf w" and up: "get_learning_rate (sv_config s) = Inr lr" "mf_sgd_update lr (MFSparseGradient g) (sv_mf s) = Inr m"
  have msg: "msg_in body w"
    using len assms(2) w body(2) by (auto simp: msg_in_def worker_wf_def)
  show "\<exists>w'. serve now (conn_of (mf_grad_bytes g @ r)) w s = Inr (conn_of r, w', s\<lparr>sv_mf := m, sv_updates := sv_updates s + 1\<rparr>)"
    using up
    by (simp add: bs serve_op[where x = SEND_MF_GRADIENT] process_send_mf_gradient_def overwrite_append
        read_message_ok(1)[where r = r, OF _ msg] body(3) conn_of_def del: op_code.simps)
qed

lemma mf_gradient_lands:
  assumes "msg_wf g" "unat (msg_size g) \<le> THREAD_BUFFER_SIZE" "4 \<le> ks 0" "4 \<le> ks 1" "worker_wf w"
    and "get_learning_rate (sv_config s) = Inr lr" "mf_sgd_update lr (MFSparseGradient g) (sv_mf s) = Inr m"
  shows "\<exists>c. send_mf_gradient ks g (conn_of []) = Inr c
    \<and> after now w s (cn_out c) = Some (s\<lparr>sv_mf := m, sv_updates := sv_updates s + 1\<rparr>)"
proof -
  have "after now w s (mf_grad_bytes g) = Some (s\<lparr>sv_mf := m, sv_updates := sv_updates s + 1\<rparr>)"
    using mf_gradient_bytes(3)[OF assms(1,2,5-7), of now "[]"] by (auto simp: after_def conn_of_def)
  then show ?thesis using mf_gradient_bytes(2)[OF assms(1-4)] by auto
qed

text \<open>C31: A well-formed matrix-factorisation gradient that a client sends is applied once to the server's
  model, whose learning rate must be configured.\<close>

theorem mf_gradient_applied:
  assumes "msg_wf g" "unat (msg_size g) \<le> THREAD_BUFFER_SIZE" "4 \<le> ks 0" "4 \<le> ks 1" "worker_wf w"
    and "get_learning_rate (sv_config s) = Inr lr" "mf_sgd_update lr (MFSparseGradient g) (sv_mf s) = Inr m"
  shows "\<exists>c. send_mf_gradient ks g (conn_of []) = Inr c
    \<and> after now w s (cn_out c) = Some (s\<lparr>sv_mf := m, sv_updates := sv_updates s + 1\<rparr>)"
  by (rule mf_gradient_lands[OF assms])

theorem lr_gradient_applied_witness:
  "\<exists>c opt m. send_lr_gradient (\<lambda>_. 4) (lrs_of_vector [(1, 0x3F800000)]) (conn_of []) = Inr c
    \<and> after 0 worker0 server0 (cn_out c) = Some (server0\<lparr>sv_opt := opt, sv_lr := m, sv_updates := 1\<rparr>)"
proof -
  have "model_wf (lrm_new 2)" "\<forall>e\<in>set [(1 :: i32, 0x3F800000 :: f32)]. idx (fst e) < length (lrm_weights (lrm_new 2))"
    by (simp_all add: model_wf_def lrm_new_def idx_def)
  from opt.update_ok[OF this] obtain o' m' where
    u: "opt_sgd_update (LRSparseGradient (lrs_of_vector [(1, 0x3F800000)])) (sv_opt server0, sv_lr server0) = Inr (o', m')"
    by (fastforce simp: opt_sgd_update_def as_sparse_gradient_def opt.update_def lrs_of_vector_def server0_def)
  show ?thesis
    using lr_gradient_applied[OF _ _ _ _ worker0_wf u, of "\<lambda>_. 4" 0]
    by (auto simp: lrs_of_vector_def server0_def)
qed

theorem mf_gradient_applied_witness:
  "let g = \<lparr>users_bias_grad = [(1, f32_one)], items_bias_grad = [], users_weights_grad = [(1, replicate 10 0)],
            items_weights_grad = []\<rparr>; s = server0\<lparr>sv_config := config0\<rparr>
   in \<exists>c m. send_mf_gradient (\<lambda>_. 4) g (conn_of []) = Inr c
    \<and> after 0 worker0 s (cn_out c) = Some (s\<lparr>sv_mf := m, sv_updates := 1\<rparr>)"
proof -
  define g :: mf_sparse_gradient where "g = \<lparr>users_bias_grad = [(1, f32_one)], items_bias_grad = [],
    users_weights_grad = [(1, replicate 10 0)], items_weights_grad = []\<rparr>"
  define s where "s = server0\<lparr>sv_config := config0\<rparr>"
  have flat: "mf_wf mf_flat" "mf_nfactors mf_flat = word_of_nat NUM_FACTORS"
    by (simp_all add: mf_wf_def mf_flat_def NUM_FACTORS_def)
  define m1 where "m1 = mf_flat\<lparr>mf_user_bias := add_cells (bias_ops [(1, f32_one)]) (mf_user_bias mf_flat)\<rparr>"
  have m1: "mf_wf m1" "mf_nfactors m1 = word_of_nat NUM_FACTORS" "mf_nusers m1 = 2"
    unfolding m1_def using mf_wf_weights(3)[OF flat(1)] flat(2) by (simp_all add: mf_flat_def)
  have i1: "idx 1 = 1" by (simp add: idx_def)
  have b: "rfold mf_add_user_bias [(1, f32_one)] mf_flat = Inr m1"
    unfolding m1_def by (rule rfold_user_bias) (simp add: ids_below_def i1 mf_flat_def)
  obtain m where r: "rfold mf_add_user_row [(1, replicate 10 0)] m1 = Inr m"
    using rfold_user_rows[OF m1(1,2), of "[(1, replicate 10 0)]"] m1(3)
    by (auto simp: ids_below_def i1 NUM_FACTORS_def simp del: rfold.simps)
  have "sv_mf s = mf_flat" by (simp add: s_def server0_def)
  then have u: "mf_sgd_update f64_half (MFSparseGradient g) (sv_mf s) = Inr m"
    using b r by (simp add: mf_sgd_update_def as_mf_sparse_gradient_def g_def del: rfold.simps(2))
  have "\<exists>c. send_mf_gradient (\<lambda>_. 4) g (conn_of []) = Inr c
    \<and> after 0 worker0 s (cn_out c) = Some (s\<lparr>sv_mf := m, sv_updates := sv_updates s + 1\<rparr>)"
    by (rule mf_gradient_applied[OF _ _ _ _ worker0_wf _ u])
      (simp_all add: g_def msg_wf_def NUM_FACTORS_def msg_size_def THREAD_BUFFER_SIZE_def s_def config0_ok)
  then show ?thesis unfolding Let_def g_def[symmetric] s_def[symmetric] by (auto simp: s_def server0_def)
qed

end
