(* ===== verification/SparseGrad.thy ===== *)
theory SparseGrad
  imports LrModel
begin

text \<open>
  The gradient the workers compute (\<open>SparseLRModel::minibatch_grad_sparse\<close>) against the gradient of the
  full model. \<open>reference_grad\<close> is the latter without the entries whose data term is zero and those the
  configured threshold rejects, and the two
  routines agree with it, failures included. Between calls the array \<open>part3\<close> is left with zeros of
  either sign; that they do not show in the next result is part of the proof.
\<close>

section \<open>Zeros of either sign\<close>

text \<open>The sign of a zero is the only thing that adding to a negative zero instead of zero can change.\<close>

definition f32_same :: "f32 \<Rightarrow> f32 \<Rightarrow> bool" where
  "f32_same a b \<longleftrightarrow> a = b \<or> f32_eq a 0 \<and> f32_eq b 0"

lemma f32_zero_cases:
  assumes "f32_eq a 0"
  shows "\<exists>s. dec32 a = FFin s 0 (- 149)"
proof -
  obtain s m e where d: "dec32 a = FFin s m e"
    using assms by (cases "dec32 a") (auto simp: f32_eq_def dec_zero fp_eq_def)
  have "m = 0"
    using assms by (auto simp: f32_eq_def dec_zero d fp_eq_def fp_signed_def Let_def split: if_splits)
  moreover have "e = - 149"
    using d unfolding \<open>m = 0\<close> by (auto simp: dec32_def fp_decode_def fp_emin_def Let_def split: if_splits)
  ultimately show ?thesis using d by blast
qed

lemma f32_signed_zero: "f32_eq (word_of_nat (fp_pack 8 23 s 0)) 0"
  by (cases s) (simp_all add: fp_evals)

lemma f32_add_same:
  assumes "f32_same a b"
  shows "f32_same (f32_add a x) (f32_add b x)"
proof (cases "a = b")
  case False
  then have "f32_eq a 0" "f32_eq b 0" using assms by (auto simp: f32_same_def)
  then obtain s s' where z: "dec32 a = FFin s 0 (- 149)" "dec32 b = FFin s' 0 (- 149)"
    using f32_zero_cases by blast
  show ?thesis
  proof (cases "dec32 x")
    case (FFin t k f)
    show ?thesis
    proof (cases "k = 0")
      case True
      moreover have "fp_add 8 23 (FFin s 0 e) (FFin t 0 f) = fp_pack 8 23 (s \<and> t) 0" for s e
        by (simp add: fp_add_def fp_signed_def Let_def)
      ultimately show ?thesis using z FFin f32_signed_zero by (simp add: f32_same_def f32_add_def)
    next
      case False
      then show ?thesis using z FFin by (simp add: f32_same_def f32_add_def fp_add_zero)
    qed
  qed (use z in \<open>simp_all add: f32_same_def f32_add_def fp_add_def\<close>)
qed (simp add: f32_same_def)

lemma f32_same_refl [simp]: "f32_same a a"
  by (simp add: f32_same_def)

lemma f32_same_zero: "f32_same a b \<Longrightarrow> f32_eq a 0 = f32_eq b 0"
  by (auto simp: f32_same_def)

lemma f32_same_eq: "f32_same a b \<Longrightarrow> \<not> f32_eq b 0 \<Longrightarrow> a = b"
  by (auto simp: f32_same_def)

text \<open>One turn of the scatter loops.\<close>

definition scatter_add :: "i32 \<times> f32 \<Rightarrow> i32 list \<times> f32 list \<Rightarrow> (i32 list \<times> f32 list) res" where
  "scatter_add = (\<lambda>(i, x) (u, arr). rbind (vec_get arr (idx i)) (\<lambda>y. Inr (u @ [i], arr[idx i := f32_add y x])))"

lemma scatter_same:
  assumes "list_all2 f32_same arr arr0" "rfold scatter_add cs (u, arr0) = Inr (u', arr0')"
  shows "\<exists>arr'. rfold scatter_add cs (u, arr) = Inr (u', arr') \<and> list_all2 f32_same arr' arr0'
    \<and> (\<forall>k. k \<notin> idx ` fst ` set cs \<longrightarrow> arr' ! k = arr ! k)"
  using assms
proof (induction cs arbitrary: u arr arr0)
  case (Cons c cs)
  obtain i x where c: "c = (i, x)" by fastforce
  have len: "length arr = length arr0" using Cons.prems(1) by (rule list_all2_lengthD)
  have i: "idx i < length arr0" using Cons.prems(2) c by (auto simp: scatter_add_def)
  define arr1 where "arr1 = arr[idx i := f32_add (arr ! idx i) x]"
  define arr01 where "arr01 = arr0[idx i := f32_add (arr0 ! idx i) x]"
  have "list_all2 f32_same arr1 arr01"
    unfolding arr1_def arr01_def
    using Cons.prems(1) f32_add_same[OF list_all2_nthD2[OF Cons.prems(1) i]]
    by (intro list_all2_update_cong) simp_all
  moreover have "rfold scatter_add cs (u @ [i], arr01) = Inr (u', arr0')"
    using Cons.prems(2) i by (simp add: c scatter_add_def vec_get_def arr01_def)
  ultimately obtain arr' where "rfold scatter_add cs (u @ [i], arr1) = Inr (u', arr')" "list_all2 f32_same arr' arr0'"
    "\<forall>k. k \<notin> idx ` fst ` set cs \<longrightarrow> arr' ! k = arr1 ! k"
    using Cons.IH by blast
  then show ?case using i len by (auto simp: c scatter_add_def vec_get_def arr1_def)
qed auto

section \<open>The reference\<close>

text \<open>
  The gradient of a model with the weights \<open>ws\<close>, without the entries whose data term is zero and
  those whose value \<open>keep\<close> rejects.
\<close>

definition dense_residual :: "libm \<Rightarrow> sparse_dataset \<Rightarrow> f32 list \<Rightarrow> nat \<Rightarrow> f32 res" where
  "dense_residual lm d ws i =
     rbind (lrm_dot_product (sd_data d ! i) ws) (\<lambda>part1_i.
     rbind (vec_get (sd_labels d) i) (\<lambda>label. residual lm label part1_i))"

definition kept_sum :: "(f64 \<Rightarrow> bool) \<Rightarrow> f64 \<Rightarrow> f32 list \<Rightarrow> u64 \<times> f32 \<Rightarrow> bool" where
  "kept_sum keep eps ws = (\<lambda>(k, v). \<not> f32_eq v 0 \<and> keep (regularized v (ws ! unat k) eps))"

definition nonzero_grad :: "(f64 \<Rightarrow> bool) \<Rightarrow> f64 \<Rightarrow> sparse_dataset \<Rightarrow> f32 list \<Rightarrow> f32 list \<Rightarrow> lr_sparse_gradient" where
  "nonzero_grad keep eps d ws p = lrs_of_vector (map (reg_entry ws eps) (filter (kept_sum keep eps ws) (grad_sums d p)))"

definition reference_grad :: "libm \<Rightarrow> (f64 \<Rightarrow> bool) \<Rightarrow> f64 \<Rightarrow> sparse_dataset \<Rightarrow> f32 list \<Rightarrow> lr_sparse_gradient res" where
  "reference_grad lm keep eps d ws =
     rbind (rmap (dense_residual lm d ws) [0..<length (sd_data d)]) (\<lambda>p. Inr (nonzero_grad keep eps d ws p))"

lemma sparse_dot_eq_dense:
  assumes "\<forall>(i, v)\<in>set row. 0 \<le> sint i \<and> idx i < length ws \<and> cell_get cells (idx i) = Inr (ws ! idx i)"
  shows "sparse_dot cells row = lrm_dot_product row ws"
proof -
  have "rfold (\<lambda>(index, v) r.
       rbind (guard_rt (\<not> idx index \<ge> length ws) ''Index too high'') (\<lambda>_.
       rbind (cassert (0 \<le> sint index \<and> idx index < length ws)) (\<lambda>_.
       rbind (vec_get ws (idx index)) (\<lambda>w.
       Inr (f64_add r (f64_of_f32 (f32_mul v w))))))) row a =
    rfold (\<lambda>(index, v) r. rbind (cell_get cells (idx index)) (\<lambda>w.
       Inr (f64_add r (f64_of_f32 (f32_mul v w))))) row a" for a
    using assms by (induction row arbitrary: a) (auto simp: vec_get_def)
  then show ?thesis by (simp add: lrm_dot_product_def sparse_dot_def)
qed

lemma rmap_fill_error:
  assumes "rmap f [0..<n] = Inl e" "n \<le> length q"
  shows "rfold (\<lambda>i q. rbind (f i) (vec_set q i)) [0..<n] q = Inl e"
  using assms
proof (induction n)
  case (Suc n)
  show ?case
  proof (cases "rmap f [0..<n]")
    case (Inl e')
    then show ?thesis using Suc by (simp add: rmap_snoc rfold_append)
  next
    case (Inr p)
    then show ?thesis using Suc.prems rmap_fill[OF Inr, of q] by (cases "f n") (auto simp: rmap_snoc rfold_append)
  qed
qed simp

text \<open>What the arrays of a worker's model must satisfy before a gradient is computed.\<close>

definition scratch_ok :: "nat \<Rightarrow> nat \<Rightarrow> sparse_lr_model \<Rightarrow> bool" where
  "scratch_ok n k m \<longleftrightarrow> length (lrm_part3 m) = n \<and> (\<forall>x\<in>set (lrm_part3 m). f32_eq x 0) \<and> length (lrm_part2 m) = k"

lemma sparse_grad_is_reference:
  assumes pre: "lrm_ensure_preallocated config ms = Inr m1"
    and ok: "scratch_ok n k m1" "length (sd_data d) \<le> k"
    and eps: "get_epsilon config = Inr eps"
    and feats: "\<forall>row\<in>set (sd_data d). \<forall>(i, v)\<in>set row. 0 \<le> sint i \<and> idx i < length ws \<and> idx i < n
        \<and> cell_get (lrm_sparse m1) (idx i) = Inr (ws ! idx i)"
  shows "case reference_grad lm (grad_kept config) eps d ws of
      Inl e \<Rightarrow> lrm_minibatch_grad_sparse lm d config ms = Inl e
    | Inr g \<Rightarrow> \<exists>m2. lrm_minibatch_grad_sparse lm d config ms = Inr (g, m2) \<and> scratch_ok n k m2
        \<and> lrm_sparse m2 = lrm_sparse m1"
proof -
  let ?rows = "sd_data d" and ?cells = "lrm_sparse m1"
  let ?kept = "\<lambda>a i. \<not> f32_eq (a ! idx i) 0 \<and> grad_kept config (regularized (a ! idx i) (ws ! idx i) eps)"
  let ?res' = "\<lambda>i. rbind (sparse_dot ?cells (?rows ! i)) (\<lambda>part1_i.
              rbind (vec_get (sd_labels d) i) (\<lambda>label. residual lm label part1_i))"
  have res: "rmap ?res' [0..<length ?rows] = rmap (dense_residual lm d ws) [0..<length ?rows]"
  proof (rule rmap_cong)
    fix i assume "i \<in> set [0..<length ?rows]"
    then have "sparse_dot ?cells (?rows ! i) = lrm_dot_product (?rows ! i) ws"
      using feats by (intro sparse_dot_eq_dense) (auto dest: nth_mem)
    then show "?res' i = dense_residual lm d ws i" by (simp add: dense_residual_def)
  qed
  have lp: "length ?rows \<le> length (lrm_part2 m1)" using ok by (simp add: scratch_ok_def)
  show ?thesis
  proof (cases "rmap (dense_residual lm d ws) [0..<length ?rows]")
    case (Inl e)
    then have "sparse_residuals lm d ?cells (lrm_part2 m1) = Inl e"
      using rmap_fill_error[OF _ lp, of ?res' e] res by (simp add: sparse_residuals_def rbind_assoc)
    then show ?thesis using Inl pre by (simp add: reference_grad_def lrm_minibatch_grad_sparse_def)
  next
    case (Inr p)
    have len: "length p = length ?rows" using rmap_length[OF Inr] by simp
    define part2 where "part2 = p @ drop (length ?rows) (lrm_part2 m1)"
    have part2: "sparse_residuals lm d ?cells (lrm_part2 m1) = Inr part2"
      using rmap_fill[OF _ lp, of ?res' p] Inr res by (simp add: sparse_residuals_def part2_def rbind_assoc)
    have cs: "contribs ?rows part2 = contribs ?rows p"
      using len by (simp add: contribs_def part2_def zip_append2)
    define u where "u = map fst (contribs ?rows p)"
    have u0: "lrm_unique m1 = []" using pre by (auto simp: lrm_ensure_preallocated_def)
    have bound: "idx i < n \<and> cell_get ?cells (idx i) = Inr (ws ! idx i)" if "i \<in> set u" for i
      using that feats contribs_indices[of i] by (fastforce simp: u_def)
    define zs where "zs = replicate n (0 :: f32)"
    have "sums_agree [] zs []" by (auto simp: sums_agree_def zs_def)
    moreover have "\<forall>(i, x)\<in>set (contribs ?rows p). idx i < length zs"
      using bound by (force simp: u_def zs_def)
    ultimately obtain arr0 where arr0: "rfold scatter_add (contribs ?rows p) ([], zs) = Inr (u, arr0)"
      "length arr0 = n" "sums_agree u arr0 (grad_sums d p)"
      using scatter_agree[of "[]" zs "[]" "contribs ?rows p"]
      unfolding grad_sums_contribs u_def scatter_add_def by (auto simp: zs_def)
    have "list_all2 f32_same (lrm_part3 m1) zs"
      using ok(1) f32_eq_0 by (auto simp: scratch_ok_def zs_def f32_same_def list_all2_conv_all_nth)
    from scatter_same[OF this arr0(1)] obtain arr where
      arr: "rfold scatter_add (contribs ?rows p) ([], lrm_part3 m1) = Inr (u, arr)" "list_all2 f32_same arr arr0"
        "\<forall>k. k \<notin> idx ` set u \<longrightarrow> arr ! k = lrm_part3 m1 ! k" by (auto simp: u_def)
    have larr: "length arr = n" using list_all2_lengthD[OF arr(2)] arr0(2) by simp
    have al: "grad_sums d p = map (\<lambda>i. (scast i, arr0 ! idx i)) (firsts u)"
      using bound arr0(2) by (intro sums_agree_list[OF arr0(3)]) auto
    have same: "f32_same (arr ! idx i) (arr0 ! idx i)" if "i \<in> set u" for i
      using list_all2_nthD[OF arr(2)] bound[OF that] larr by simp
    have "\<forall>i\<in>set u. idx i < length arr \<and> cell_get ?cells (idx i) = Inr (ws ! idx i)"
      using bound larr by auto
    from gather_firsts[OF eps this, of "[]"]
    obtain arr' where arr': "rfold (sparse_gather config ?cells) u ([], arr) =
        Inr (map (\<lambda>i. (i, f32_of_f64 (regularized (arr ! idx i) (ws ! idx i) eps)))
               (filter (?kept arr) (firsts u)), arr')"
      "length arr' = length arr" "\<forall>i\<in>set u. f32_eq (arr' ! idx i) 0"
      "\<forall>k < length arr. k \<notin> idx ` set u \<longrightarrow> arr' ! k = arr ! k"
      by auto
    have "filter (?kept arr) (firsts u) = filter (?kept arr0) (firsts u)"
      using f32_same_zero[OF same] f32_same_eq[OF same] by (intro filter_cong refl) auto
    moreover have "map (\<lambda>i. (i, f32_of_f64 (regularized (arr ! idx i) (ws ! idx i) eps)))
          (filter (?kept arr0) (firsts u))
        = map (\<lambda>i. (i, f32_of_f64 (regularized (arr0 ! idx i) (ws ! idx i) eps)))
          (filter (?kept arr0) (firsts u))"
      using f32_same_eq[OF same] by (intro map_cong) auto
    moreover have "nonzero_grad (grad_kept config) eps d ws p = lrs_of_vector (map (\<lambda>i. (i, f32_of_f64 (regularized (arr0 ! idx i) (ws ! idx i) eps)))
               (filter (?kept arr0) (firsts u)))"
      unfolding nonzero_grad_def al
      by (simp add: filter_map comp_def reg_entry_def kept_sum_def ucast_scast unat_scast_idx)
    ultimately have gs: "lrs_of_vector (map (\<lambda>i. (i, f32_of_f64 (regularized (arr ! idx i) (ws ! idx i) eps)))
               (filter (?kept arr) (firsts u))) = nonzero_grad (grad_kept config) eps d ws p"
      by (simp only:)
    define m2 where "m2 = m1\<lparr>lrm_part2 := part2, lrm_part3 := arr', lrm_unique := u\<rparr>"
    have lp2: "length ?rows \<le> length part2" using len by (simp add: part2_def)
    have run: "lrm_minibatch_grad_sparse lm d config ms = Inr (nonzero_grad (grad_kept config) eps d ws p, m2)"
      using pre part2 scatter_contribs[OF lp2] arr(1) arr'(1)
      by (simp add: lrm_minibatch_grad_sparse_def cs u0 gs m2_def flip: scatter_add_def)
    have "f32_eq x 0" if x: "x \<in> set arr'" for x
    proof -
      obtain j where j: "j < n" "x = arr' ! j" using x arr'(2) larr by (auto simp: in_set_conv_nth)
      show ?thesis
      proof (cases "j \<in> idx ` set u")
        case False
        then have "x = lrm_part3 m1 ! j" using j arr'(4) arr(3) larr by simp
        then show ?thesis using ok(1) j(1) by (auto simp: scratch_ok_def)
      qed (use arr'(3) j in auto)
    qed
    then have "scratch_ok n k m2"
      using ok len arr'(2) larr by (simp add: scratch_ok_def m2_def part2_def)
    then show ?thesis using run Inr by (auto simp: reference_grad_def m2_def)
  qed
qed

lemma dot_product_valid:
  assumes "lrm_dot_product row ws = Inr x"
  shows "\<forall>(i, v)\<in>set row. 0 \<le> sint i \<and> idx i < length ws"
proof -
  have "rfold (\<lambda>(index, v) r.
       rbind (guard_rt (\<not> idx index \<ge> length ws) ''Index too high'') (\<lambda>_.
       rbind (cassert (0 \<le> sint index \<and> idx index < length ws)) (\<lambda>_.
       rbind (vec_get ws (idx index)) (\<lambda>w.
       Inr (f64_add r (f64_of_f32 (f32_mul v w))))))) row a = Inr x \<Longrightarrow>
    \<forall>(i, v)\<in>set row. 0 \<le> sint i \<and> idx i < length ws" for a
    by (induction row arbitrary: a) auto
  then show ?thesis using assms by (simp add: lrm_dot_product_def)
qed

text \<open>\<open>minibatch_grad\<close> of the full model is the same gradient with the zero entries.\<close>

lemma dense_grad_is_reference:
  assumes dense: "lrm_minibatch_grad id lm d config md = Inr gd" and eps: "get_epsilon config = Inr eps"
  shows "\<exists>p. reference_grad lm keep eps d (lrm_weights md) = Inr (nonzero_grad keep eps d (lrm_weights md) p)
    \<and> lrs_weights gd = map (reg_entry (lrm_weights md) eps) (grad_sums d p)
    \<and> (\<forall>row\<in>set (sd_data d). \<forall>(i, v)\<in>set row. 0 \<le> sint i \<and> idx i < length (lrm_weights md))"
proof -
  let ?ws = "lrm_weights md" and ?n = "length (sd_data d)"
  obtain p where p: "rmap (dense_residual lm d ?ws) [0..<?n] = Inr p"
    and gd: "rmap (\<lambda>(index, v). rbind (vec_get ?ws (unat index)) (\<lambda>w. rbind (get_epsilon config) (\<lambda>eps.
              Inr ((ucast index :: i32), f32_of_f64 (regularized v w eps))))) (grad_sums d p) = Inr (lrs_weights gd)"
    using dense by (auto simp: lrm_minibatch_grad_def lrs_of_vector_def dense_residual_def[abs_def])
  have "rmap (\<lambda>(index, v). rbind (vec_get ?ws (unat index)) (\<lambda>w. rbind (get_epsilon config) (\<lambda>eps.
              Inr ((ucast index :: i32), f32_of_f64 (regularized v w eps))))) (grad_sums d p)
      = Inr (map (reg_entry ?ws eps) (grad_sums d p))"
  proof (rule rmap_Inr)
    fix x assume "x \<in> set (grad_sums d p)"
    from rmap_elem[OF gd this] show "(case x of (index, v) \<Rightarrow> rbind (vec_get ?ws (unat index)) (\<lambda>w. rbind (get_epsilon config) (\<lambda>eps.
            Inr ((ucast index :: i32), f32_of_f64 (regularized v w eps))))) = Inr (reg_entry ?ws eps x)"
      using eps by (auto simp: reg_entry_def vec_get_def split: prod.splits if_splits)
  qed
  then have "lrs_weights gd = map (reg_entry ?ws eps) (grad_sums d p)" using gd by simp
  moreover have "\<forall>(i, v)\<in>set row. 0 \<le> sint i \<and> idx i < length ?ws" if row: "row \<in> set (sd_data d)" for row
  proof -
    obtain k where k: "k < ?n" "row = sd_data d ! k" using row by (auto simp: in_set_conv_nth)
    then obtain y where "dense_residual lm d ?ws k = Inr y" using rmap_elem[OF p, of k] by auto
    then obtain z where "lrm_dot_product row ?ws = Inr z" using k by (auto simp: dense_residual_def)
    then show ?thesis by (rule dot_product_valid)
  qed
  ultimately show ?thesis using p by (auto simp: reference_grad_def)
qed

text \<open>
  Where the weights of the features that occur were loaded, the sparse gradient of the workers is
  the gradient of the full model without the entries whose data term is zero and those the
  threshold rejects, in the same order; and its scratch array is left zero for the next call.
\<close>

lemma sparse_grad_is_dense_grad:
  assumes pre: "lrm_ensure_preallocated config ms = Inr m1"
    and zeros: "set (lrm_part3 m1) \<subseteq> {0}"
    and size2: "length (sd_data d) \<le> length (lrm_part2 m1)"
    and eps: "get_epsilon config = Inr eps"
    and feats: "\<forall>row\<in>set (sd_data d). \<forall>(i, v)\<in>set row. idx i < length (lrm_part3 m1)
        \<and> cell_get (lrm_sparse m1) (idx i) = Inr (lrm_weights md ! idx i)"
    and dense: "lrm_minibatch_grad id lm d config md = Inr gd"
  shows "\<exists>p gs m2. lrm_minibatch_grad_sparse lm d config ms = Inr (gs, m2)
    \<and> lrs_weights gd = map (reg_entry (lrm_weights md) eps) (grad_sums d p)
    \<and> lrs_weights gs = map (reg_entry (lrm_weights md) eps) (filter (kept_sum (grad_kept config) eps (lrm_weights md)) (grad_sums d p))
    \<and> (\<forall>x\<in>set (lrm_part3 m2). f32_eq x 0)"
proof -
  obtain p where p: "reference_grad lm (grad_kept config) eps d (lrm_weights md) = Inr (nonzero_grad (grad_kept config) eps d (lrm_weights md) p)"
    "lrs_weights gd = map (reg_entry (lrm_weights md) eps) (grad_sums d p)"
    "\<forall>row\<in>set (sd_data d). \<forall>(i, v)\<in>set row. 0 \<le> sint i \<and> idx i < length (lrm_weights md)"
    using dense_grad_is_reference[OF dense eps] by blast
  have ok: "scratch_ok (length (lrm_part3 m1)) (length (lrm_part2 m1)) m1"
    using zeros f32_eq_0 by (auto simp: scratch_ok_def)
  have "\<forall>row\<in>set (sd_data d). \<forall>(i, v)\<in>set row. 0 \<le> sint i \<and> idx i < length (lrm_weights md)
      \<and> idx i < length (lrm_part3 m1) \<and> cell_get (lrm_sparse m1) (idx i) = Inr (lrm_weights md ! idx i)"
    using feats p(3) by fast
  from sparse_grad_is_reference[OF pre ok size2 eps this, of lm] p(1)
  show ?thesis by (auto simp: p(2) scratch_ok_def nonzero_grad_def lrs_of_vector_def)
qed

end
