(* ===== verification/ModelFetch.thy ===== *)
theory ModelFetch
  imports EndToEnd SparseGrad
begin

text \<open>
  What the workers fetch from the server: the weights of the features of a minibatch, the part of
  the matrix-factorisation model for a range of users and the items they rated, and whole models.
\<close>

section \<open>Weights of the logistic-regression model\<close>

text \<open>The features of a dataset, sample after sample.\<close>

definition features :: "sparse_dataset \<Rightarrow> u32 list" where
  "features ds = map fst (concat (sd_data ds))"

definition served_weight :: "server \<Rightarrow> u32 \<Rightarrow> f32" where
  "served_weight s i = f32_of_f64 (opt_edit_weight (sv_opt s) (f64_of_f32 (lrm_weights (sv_lr s) ! unat i)))"

text \<open>Every update rule but Nesterov serves the weight itself, a NaN apart.\<close>

lemma served_weight_exact:
  "(\<nexists>mo. sv_opt s = Nesterov mo) \<Longrightarrow> \<not> f32_isnan (lrm_weights (sv_lr s) ! unat i) \<Longrightarrow>
   served_weight s i = lrm_weights (sv_lr s) ! unat i"
  by (cases "sv_opt s") (simp_all add: served_weight_def opt_edit_weight_def default_edit_weight_def f32_f64_f32)

lemma lr_indices_value:
  assumes "4 * length (features ds) + 4 \<le> MAX_MSG_SIZE"
  shows "lr_indices ds = Inr (store_u32 0 @ store_many store_u32 (features ds), word_of_nat (length (features ds)))"
proof -
  have "rfold (\<lambda>(index, _ :: f32) (msg, n). rbind (msg_store (store_u32 index) msg) (\<lambda>msg. Inr (msg, n + 1))) row (msg, n)
      = Inr (msg @ store_many store_u32 (map fst row), n + word_of_nat (length row))"
    if "length msg + 4 * length row \<le> MAX_MSG_SIZE" for row :: sample and msg and n :: u32
    using that by (induction row arbitrary: msg n) (auto simp: msg_store_def algebra_simps)
  moreover have "store_many store_u32 (map fst (row :: sample)) = concat (map (store_u32 \<circ> fst) row)" for row
    by (simp add: store_many_def)
  moreover have "length (store_u32 0 @ bs) = 4 + length bs" for bs by simp
  ultimately show ?thesis
    using assms by (simp add: lr_indices_def msg_store_def rfold_concat features_def MAX_MSG_SIZE_def)
qed

lemma lr_sparse_loop:
  assumes "length ks = length ids" "\<forall>i\<in>set ids. unat i < length (lrm_weights (sv_lr s))"
    and "length out + 4 * length ids \<le> 1024 * 1024"
  shows "rfold (lr_sparse_entry s) ks (store_many store_u32 ids @ r, out)
    = Inr (r, out @ store_many store_u32 (map (served_weight s) ids))"
  using assms
proof (induction ids arbitrary: ks out)
  case (Cons i ids)
  then obtain k ks' where ks: "ks = k # ks'" "length ks' = length ids" by (cases ks) auto
  have "lr_sparse_entry s k (store_many store_u32 (i # ids) @ r, out)
      = Inr (store_many store_u32 ids @ r, out @ store_u32 (served_weight s i))"
    using Cons.prems by (simp add: lr_sparse_entry_def lrm_get_nth_weight_def vec_get_def unat_u32_u64 served_weight_def)
  with Cons ks show ?case by simp
qed simp

lemma load_cells_loop:
  assumes "length ks = length ids" "\<forall>i\<in>set ids. unat i < length cells"
  shows "rfold (\<lambda>_ (cells, weight_indices, weights).
         load_then load_u32 weight_indices (\<lambda>index weight_indices.
         load_then load_float weights (\<lambda>v weights.
         rbind (vec_set cells (unat index) (Some v)) (\<lambda>cells.
         Inr (cells, weight_indices, weights))))) ks
       (cells, store_many store_u32 ids @ r, store_many store_u32 (map f ids) @ r')
    = Inr (fold (\<lambda>i cells. cells[unat i := Some (f i)]) ids cells, r, r')"
  using assms
proof (induction ids arbitrary: ks cells)
  case (Cons i ids)
  then obtain k ks' where "ks = k # ks'" "length ks' = length ids" by (cases ks) auto
  with Cons show ?case by (simp add: vec_set_def)
qed simp

lemma fold_cells:
  "length (fold (\<lambda>i cells. cells[unat i := Some (f i)]) ids cells) = length cells"
  "i \<in> set ids \<Longrightarrow> unat i < length cells \<Longrightarrow>
     fold (\<lambda>i cells. cells[unat i := Some (f i)]) ids cells ! unat i = Some (f (i :: u32))"
proof -
  show len: "length (fold (\<lambda>i cells. cells[unat i := Some (f i)]) ids cells) = length cells" for ids
    by (induction ids arbitrary: cells) auto
  assume "i \<in> set ids" "unat i < length cells"
  then show "fold (\<lambda>i cells. cells[unat i := Some (f i)]) ids cells ! unat i = Some (f i)"
  proof (induction ids rule: rev_induct)
    case (snoc x ids)
    then show ?case by (cases "i = x") (auto simp: len nth_list_update simp flip: word_unat_eq_iff)
  qed simp
qed

lemma load_sparse_served:
  assumes "ids \<noteq> []" "length ids < 10000000" "unat (cf_model_bits config) \<le> 30"
    and "\<forall>i\<in>set ids. unat i < 2 ^ unat (cf_model_bits config)"
  shows "\<exists>m'. lrm_load_sparse (store_many store_u32 (map f ids)) (store_many store_u32 ids @ r)
      (word_of_nat (length ids)) config m = Inr m'
    \<and> (\<forall>i\<in>set ids. cell_get (lrm_sparse m') (unat i) = Inr (f i)) \<and> m'\<lparr>lrm_is_sparse := lrm_is_sparse m, lrm_sparse := lrm_sparse m\<rparr> = m"
proof -
  define b where "b = unat (cf_model_bits config)"
  have n: "unat (word_of_nat (length ids) :: u64) = length ids"
    using assms(2) by (simp add: unat_of_nat take_bit_nat_eq_self)
  have b: "b \<le> 30" "\<not> 32 \<le> b" using assms(3) by (auto simp: b_def)
  have "push_bit b (1 :: i32) = word_of_nat (2 ^ b)" by (simp add: push_bit_eq_mult)
  moreover have "(2 :: nat) ^ b < 2 ^ 31" using b(1) by (intro power_strict_increasing) auto
  ultimately have p: "sint (push_bit b (1 :: i32)) = int (2 ^ b)" by (simp only: sint_small)
  define cells where "cells = (if length (lrm_sparse m) < 2 ^ b then replicate (2 ^ b) None else lrm_sparse m)"
  have "sint (2 ^ b :: i32) = 2 ^ b" using p by (simp add: push_bit_eq_mult)
  then have cells: "reserve_cells (2 ^ b) (lrm_sparse m) = Inr cells" "2 ^ b \<le> length cells"
    by (simp_all add: reserve_cells_def cells_def nat_power_eq)
  have fit: "\<forall>i\<in>set ids. unat i < length cells"
    using assms(4) cells(2) by (auto simp: b_def[symmetric])
  define m' where "m' = m\<lparr>lrm_is_sparse := True, lrm_sparse := fold (\<lambda>i cells. cells[unat i := Some (f i)]) ids cells\<rparr>"
  have "lrm_load_sparse (store_many store_u32 (map f ids)) (store_many store_u32 ids @ r)
      (word_of_nat (length ids)) config m = Inr m'"
    using assms(1,2) b(2) load_cells_loop[of "[0..<length ids]" ids cells r f "[]"] fit
    by (simp add: lrm_load_sparse_def n int_shl_one_def b_def[symmetric] cells(1) m'_def)
  moreover have "\<forall>i\<in>set ids. cell_get (lrm_sparse m') (unat i) = Inr (f i)"
    using fit by (auto simp: m'_def cell_get_def fold_cells vec_get_def)
  ultimately show ?thesis by (auto simp: m'_def)
qed

lemma serve_lr_sparse:
  assumes "cn_in c = store_u32 (op_code GET_LR_SPARSE_MODEL) @ store_u32 (4 + 4 * word_of_nat (length ids))
      @ store_u32 (word_of_nat (length ids)) @ store_many store_u32 ids @ r"
    and "4 * length ids < 1024 * 1024" "\<forall>i\<in>set ids. unat i < length (lrm_weights (sv_lr s))"
    and "worker_wf w" "writable c"
  shows "\<exists>w'. serve now c w s = Inr (c\<lparr>cn_in := r,
      cn_out := cn_out c @ store_many store_u32 (map (served_weight s) ids)\<rparr>, w', s)"
proof -
  define n where "n = length ids"
  define body where "body = store_u32 (word_of_nat n) @ store_many store_u32 ids"
  have len: "length body = 4 * n + 4" by (simp add: body_def n_def)
  have small: "4 * n < 1024 * 1024" using assms(2) by (simp add: n_def)
  have msg: "msg_in body w"
    using small assms(4) by (auto simp: msg_in_def len worker_wf_def THREAD_BUFFER_SIZE_def simp flip: length_greater_0_conv)
  have n: "unat (word_of_nat n :: u32) = n" "unat (ucast (word_of_nat n :: u32) :: u64) = n" "unat (word_of_nat n :: u64) = n"
    using small by (simp_all add: unat_u32_u64 unat_of_nat take_bit_nat_eq_self)
  have "ucast (word_of_nat n :: u32) = (word_of_nat n :: u64)" using small by (intro ucast_small) simp
  then have send: "unat (ucast (ucast (word_of_nat n :: u32) * 4 :: u64) :: u32) = 4 * n"
    using small by (simp add: unsigned_ucast_eq unat_word_ariths n take_bit_nat_eq_self)
  have start: "cn_in c = store_u32 (op_code GET_LR_SPARSE_MODEL) @ store_u32 (word_of_nat (length body)) @ body @ r"
    using assms(1) by (simp add: len body_def n_def algebra_simps)
  show ?thesis
    using assms(3,5) small n lr_sparse_loop[of "[0..<n]" ids s "[]" "drop (length body) (wk_buffer w)"]
    by (auto simp: serve_op[where x = GET_LR_SPARSE_MODEL, OF start] process_get_lr_sparse_model_def overwrite_append
        read_message_ok(2)[where r = r, OF _ msg] send n_def[symmetric] send_n_ok Let_def body_def simp del: op_code.simps)
qed

lemma get_lr_sparse_served:
  assumes "features ds \<noteq> []" "4 * length (features ds) + 4 \<le> MAX_MSG_SIZE" "worker_wf w"
    and "unat (cf_model_bits config) \<le> 30"
    and "\<forall>i\<in>set (features ds). unat i < length (lrm_weights (sv_lr s)) \<and> unat i < 2 ^ unat (cf_model_bits config)"
  shows "\<exists>m' c. get_lr_sparse_model_inplace (answer now w s) ds m config (conn_of []) = Inr (m', c)
    \<and> after now w s (cn_out c) = Some s
    \<and> (\<forall>i\<in>set (features ds). cell_get (lrm_sparse m') (unat i) = Inr (served_weight s i))
    \<and> m'\<lparr>lrm_is_sparse := lrm_is_sparse m, lrm_sparse := lrm_sparse m\<rparr> = m"
proof -
  define ids n where "ids = features ds" and "n = length ids"
  define bs where "bs = store_u32 (op_code GET_LR_SPARSE_MODEL) @ store_u32 (4 + 4 * word_of_nat n)
      @ store_u32 (word_of_nat n) @ store_many store_u32 ids"
  define ws where "ws = store_many store_u32 (map (served_weight s) ids)"
  have small: "4 * n + 4 \<le> 1024 * 1024" using assms(2) by (simp add: n_def ids_def MAX_MSG_SIZE_def)
  obtain w' where "serve now (conn_of bs) w s = Inr ((conn_of [])\<lparr>cn_out := ws\<rparr>, w', s)"
    using serve_lr_sparse[of "conn_of bs" ids "[]" s w now] assms(3,5) small
    by (auto simp: bs_def n_def ids_def ws_def)
  then have peer: "answer now w s bs = ws" "after now w s bs = Some s" using served_whole by blast+
  have u: "unat (4 + 4 * word_of_nat n :: u32) = 4 * n + 4" "unat (4 * word_of_nat n :: u32) = 4 * n"
    using small by (simp_all add: unat_word_ariths unat_of_nat take_bit_nat_eq_self)
  have wn: "ucast (word_of_nat n :: u32) = (word_of_nat n :: u64)" using small by (intro ucast_small) simp
  obtain m' where m': "lrm_load_sparse ws (store_many store_u32 ids @ []) (word_of_nat n) config m = Inr m'"
    "\<forall>i\<in>set ids. cell_get (lrm_sparse m') (unat i) = Inr (served_weight s i)"
    "m'\<lparr>lrm_is_sparse := lrm_is_sparse m, lrm_sparse := lrm_sparse m\<rparr> = m"
    using load_sparse_served[of ids config "served_weight s" "[]" m] assms(1,4,5) small
    unfolding ws_def n_def ids_def by auto
  have rd: "read_n (4 * n) ((conn_of ws)\<lparr>cn_out := bs\<rparr>) = Inr (4 * n, ws, (conn_of [])\<lparr>cn_out := bs\<rparr>)"
    using read_n_prefix[of "(conn_of ws)\<lparr>cn_out := bs\<rparr>" ws "[]"] by (simp add: ws_def n_def)
  have "get_lr_sparse_model_inplace (answer now w s) ds m config (conn_of []) = Inr (m', (conn_of [])\<lparr>cn_out := bs\<rparr>)"
    using lr_indices_value[OF assms(2)] m'(1) rd
    by (simp add: get_lr_sparse_model_inplace_def ids_def[symmetric] n_def[symmetric] send_n_ok u wn await_conn
        bs_def[symmetric] peer Let_def del: op_code.simps)
  then show ?thesis using peer(2) m'(2,3) by (auto simp: ids_def)
qed

lemma idx_unat: "unat i < 2 ^ 31 \<Longrightarrow> idx i = unat i"
  using sint_small[of "unat i"] by (simp add: idx_nonneg)

text \<open>
  C5: The worker's step of logistic regression: what it asks for are the weights of the features of
  its minibatch, and the gradient it computes from the reply is the gradient of the server's full
  model, bit for bit, without the entries whose data term is zero and, when \<open>use_grad_threshold\<close> is
  set, without those whose value is not above the threshold. The update rule must serve
  the weights themselves (every one but Nesterov does), no weight asked for is a NaN, the features
  are inside the model, the request fits into the client's buffer, and the dense gradient is defined.
\<close>

theorem worker_gradient_is_server_gradient:
  assumes "features ds \<noteq> []" "4 * length (features ds) + 4 \<le> MAX_MSG_SIZE" "worker_wf w"
    and bits: "unat (cf_model_bits config) \<le> 30"
    and feats: "\<forall>i\<in>set (features ds). unat i < length (lrm_weights (sv_lr s)) \<and> unat i < 2 ^ unat (cf_model_bits config)
       \<and> \<not> f32_isnan (lrm_weights (sv_lr s) ! unat i)"
    and rule: "\<nexists>mo. sv_opt s = Nesterov mo"
    and conf: "get_minibatch_size config = Inr mb" "length (sd_data ds) \<le> unat mb" "get_epsilon config = Inr eps"
    and dense: "lrm_minibatch_grad id lm ds config (sv_lr s) = Inr gd"
  shows "\<exists>m c gs m2 p. get_lr_sparse_model (answer now w s) ds config (conn_of []) = Inr (m, c)
    \<and> after now w s (cn_out c) = Some s
    \<and> lrm_minibatch_grad_sparse lm ds config m = Inr (gs, m2)
    \<and> lrs_weights gd = map (reg_entry (lrm_weights (sv_lr s)) eps) (grad_sums ds p)
    \<and> lrs_weights gs = map (reg_entry (lrm_weights (sv_lr s)) eps)
        (filter (\<lambda>(k, v). \<not> f32_eq v 0 \<and> grad_kept config (regularized v (lrm_weights (sv_lr s) ! unat k) eps)) (grad_sums ds p))"
proof -
  obtain m c where m: "get_lr_sparse_model (answer now w s) ds config (conn_of []) = Inr (m, c)"
    "after now w s (cn_out c) = Some s"
    "\<forall>i\<in>set (features ds). cell_get (lrm_sparse m) (unat i) = Inr (served_weight s i)"
    "m\<lparr>lrm_is_sparse := lrm_is_sparse (lrm_new 0), lrm_sparse := lrm_sparse (lrm_new 0)\<rparr> = lrm_new 0"
    using get_lr_sparse_served[OF assms(1-4), of s now "lrm_new 0"] feats
    unfolding get_lr_sparse_model_def by blast
  define b where "b = unat (cf_model_bits config)"
  have bits: "b \<le> 30" using bits by (simp add: b_def)
  have "(2 :: nat) ^ b \<le> 2 ^ 30" using bits by (intro power_increasing) auto
  then have lt: "(2 :: nat) ^ b < 2 ^ 31" by simp
  have p: "sint (2 ^ b :: i32) = 2 ^ b" using sint_small[OF lt] by simp
  define m1 where "m1 = m\<lparr>lrm_unique := [], lrm_part3 := replicate (2 ^ b) 0, lrm_part2 := replicate (unat mb) 0\<rparr>"
  have empty: "lrm_part3 m = []" "lrm_part2 m = []"
    using arg_cong[OF m(4), of lrm_part3] arg_cong[OF m(4), of lrm_part2] by (simp_all add: lrm_new_def)
  have pre: "lrm_ensure_preallocated config m = Inr m1"
    using bits p by (simp add: lrm_ensure_preallocated_def empty int_shl_one_def b_def[symmetric] vec_new_def conf
        push_bit_eq_mult nat_power_eq m1_def)
  have "idx i < 2 ^ b \<and> cell_get (lrm_sparse m) (idx i) = Inr (lrm_weights (sv_lr s) ! idx i)"
    if "i \<in> set (features ds)" for i
  proof -
    have "unat i < 2 ^ b" using feats that by (simp add: b_def)
    moreover from this lt have "idx i = unat i" by (intro idx_unat) simp
    ultimately show ?thesis using m(3) that feats served_weight_exact[OF rule] by simp
  qed
  then have cells: "\<forall>row\<in>set (sd_data ds). \<forall>(i, v)\<in>set row. idx i < length (lrm_part3 m1)
        \<and> cell_get (lrm_sparse m1) (idx i) = Inr (lrm_weights (sv_lr s) ! idx i)"
    by (force simp: features_def m1_def)
  show ?thesis
    using sparse_grad_is_dense_grad[OF pre _ _ conf(3) cells dense] m(1,2) conf(2)
    by (auto simp: m1_def kept_sum_def)
qed

theorem worker_gradient_is_server_gradient_witness:
  "\<exists>m c gs m2. get_lr_sparse_model (answer 0 worker0 server0) ex_data ex_config (conn_of []) = Inr (m, c)
    \<and> after 0 worker0 server0 (cn_out c) = Some server0
    \<and> lrm_minibatch_grad_sparse ex_libm ex_data ex_config m = Inr (gs, m2)"
proof -
  have f: "features ex_data = [1]" by (simp add: features_def ex_data_def sd_make_def)
  have sv: "sv_lr server0 = lrm_new 2" by (simp add: server0_def)
  have "features ex_data \<noteq> []" "4 * length (features ex_data) + 4 \<le> MAX_MSG_SIZE"
    "unat (cf_model_bits ex_config) \<le> 30"
    "\<forall>i\<in>set (features ex_data). unat i < length (lrm_weights (sv_lr server0)) \<and> unat i < 2 ^ unat (cf_model_bits ex_config)
       \<and> \<not> f32_isnan (lrm_weights (sv_lr server0) ! unat i)"
    "\<nexists>mo. sv_opt server0 = Nesterov mo"
    by (simp_all add: f sv MAX_MSG_SIZE_def ex_config_def lrm_new_def f32_isnan_def dec_zero server0_def)
  moreover have "get_minibatch_size ex_config = Inr 1" "length (sd_data ex_data) \<le> unat (1 :: u64)"
    by (simp_all add: get_minibatch_size_def ex_config_def conf_new_def ex_data_def sd_make_def)
  ultimately show ?thesis
    using worker_gradient_is_server_gradient[OF _ _ worker0_wf _ _ _ _ _ ex_eps_conf ex_dense[folded sv], of 1 0]
    by blast
qed

section \<open>Whole models\<close>

lemma serve_lr_full:
  assumes "cn_in c = store_u32 (op_code GET_LR_FULL_MODEL) @ r" "lrm_weights (sv_lr s) \<noteq> []"
    and "length (lrm_weights (sv_lr s)) < 10000000" "worker_wf w" "writable c"
  shows "\<exists>w'. serve now c w s = Inr (c\<lparr>cn_in := r, cn_out := cn_out c @ lrm_serialize_to (sv_lr s)\<rparr>, w', s)"
proof -
  have len: "length (lrm_serialize_to (sv_lr s)) = 4 * length (lrm_weights (sv_lr s)) + 4"
    by (simp add: lrm_serialize_to_def)
  have "unat (lrm_serialized_size (sv_lr s)) = length (lrm_serialize_to (sv_lr s))"
    using lrm_roundtrip[OF assms(2,3)] by blast
  then have "unat (ucast (lrm_serialized_size (sv_lr s)) :: u32) = length (lrm_serialize_to (sv_lr s))"
    using assms(3) by (simp add: unsigned_ucast_eq take_bit_nat_eq_self len)
  then show ?thesis
    using assms(3,4,5)
    by (auto simp: serve_op[where x = GET_LR_FULL_MODEL, OF assms(1)] process_get_lr_full_model_def overwrite_append
        len worker_wf_def THREAD_BUFFER_SIZE_def send_n_ok Let_def simp del: op_code.simps)
qed

text \<open>A client that asks for the full logistic-regression model gets the server's weights.\<close>

lemma lr_full_model_received:
  assumes "lrm_weights (sv_lr s) \<noteq> []" "length (lrm_weights (sv_lr s)) < 10000000" "worker_wf w"
  shows "\<exists>c. get_full_lr_model (answer now w s) (conn_of []) = Inr ((lrm_new 0)\<lparr>lrm_weights := lrm_weights (sv_lr s)\<rparr>, c)
    \<and> after now w s (cn_out c) = Some s"
proof -
  define n where "n = length (lrm_weights (sv_lr s))"
  define bs where "bs = store_u32 (op_code GET_LR_FULL_MODEL)"
  define ws where "ws = store_many store_u32 (lrm_weights (sv_lr s))"
  have n: "0 < n" "n < 10000000" "sint (word_of_nat n :: i32) = int n" using assms(1,2) by (auto simp: n_def sint_small)
  have ser: "lrm_serialize_to (sv_lr s) = store_u32 (word_of_nat n) @ ws" "length ws = n * 4"
    by (simp_all add: lrm_serialize_to_def ws_def n_def)
  obtain w' where "serve now (conn_of bs) w s = Inr ((conn_of [])\<lparr>cn_out := store_u32 (word_of_nat n) @ ws\<rparr>, w', s)"
    using serve_lr_full[of "conn_of bs" "[]" s w now] assms ser(1) by (auto simp: bs_def)
  then have peer: "answer now w s bs = store_u32 (word_of_nat n) @ ws" "after now w s bs = Some s"
    using served_whole by blast+
  have rd: "read_n (n * 4) ((conn_of ws)\<lparr>cn_out := bs\<rparr>) = Inr (n * 4, ws, (conn_of [])\<lparr>cn_out := bs\<rparr>)"
    using read_n_prefix[of "(conn_of ws)\<lparr>cn_out := bs\<rparr>" ws "[]"] by (simp add: ser(2))
  have load: "lrm_load (store_u32 (word_of_nat n) @ ws) (lrm_new 0) = Inr ((lrm_new 0)\<lparr>lrm_weights := lrm_weights (sv_lr s)\<rparr>)"
    using lrm_roundtrip[OF assms(1,2), of "[]" "lrm_new 0"] ser(1) by simp
  have "get_full_lr_model (answer now w s) (conn_of []) = Inr ((lrm_new 0)\<lparr>lrm_weights := lrm_weights (sv_lr s)\<rparr>,
      (conn_of [])\<lparr>cn_out := bs\<rparr>)"
    using n by (simp add: get_full_lr_model_def send_n_ok bs_def[symmetric] await_conn peer read_u32_ok(1)[where r = ws]
        rd load Let_def del: op_code.simps)
  then show ?thesis using peer(2) by simp
qed

lemma lr_full_model_received_example:
  "\<exists>c. get_full_lr_model (answer 0 worker0 server0) (conn_of []) = Inr ((lrm_new 0)\<lparr>lrm_weights := [0, 0]\<rparr>, c)
    \<and> after 0 worker0 server0 (cn_out c) = Some server0"
  using lr_full_model_received[OF _ _ worker0_wf, of server0 0]
  by (simp add: server0_def lrm_new_def replicate_2)

text \<open>A client that asks for the full matrix-factorisation model gets the server's dimensions, biases and
  weights, as long as they fit the buffer of the server's thread.\<close>

lemma mf_full_model_received:
  assumes "mf_wf (sv_mf s)" "length (mf_serialize_to (sv_mf s)) \<le> THREAD_BUFFER_SIZE" "worker_wf w"
  shows "\<exists>m c. get_full_mf_model (answer now w s) garbage (conn_of []) = Inr (m, c) \<and> after now w s (cn_out c) = Some s
    \<and> mf_shape m = mf_shape (sv_mf s) \<and> mf_user_bias m = mf_user_bias (sv_mf s) \<and> mf_item_bias m = mf_item_bias (sv_mf s)
    \<and> mf_user_weights m = mf_user_weights (sv_mf s) \<and> mf_item_weights m = mf_item_weights (sv_mf s)"
proof -
  define data where "data = mf_serialize_to (sv_mf s)"
  define bs where "bs = store_u32 (op_code GET_MF_FULL_MODEL)"
  have small: "length data < 2 ^ 32" using assms(2) by (simp add: data_def THREAD_BUFFER_SIZE_def)
  have "mf_serialized_size (sv_mf s) = word_of_nat (length data)"
    by (simp add: mf_serialized_size_def data_def mf_serialized_length algebra_simps)
  then have sz: "(ucast (mf_serialized_size (sv_mf s)) :: u32) = word_of_nat (length data)"
    using small by (intro word_size_ok) (simp add: unat_of_nat take_bit_nat_eq_self)
  have n: "unat (word_of_nat (length data) :: u32) = length data"
    using small by (simp add: unat_of_nat take_bit_nat_eq_self)
  have "\<exists>w'. serve now (conn_of bs) w s = Inr ((conn_of [])\<lparr>cn_out := store_u32 (word_of_nat (length data)) @ data\<rparr>, w', s)"
    using assms(2,3) by (auto simp: bs_def serve_op[where x = GET_MF_FULL_MODEL and r = "[]"] process_get_mf_full_model_def
        sz n data_def[symmetric] overwrite_append worker_wf_def send_n_ok Let_def simp del: op_code.simps)
  then have peer: "answer now w s bs = store_u32 (word_of_nat (length data)) @ data" "after now w s bs = Some s"
    using served_whole by blast+
  have rd: "read_n (length data) ((conn_of data)\<lparr>cn_out := bs\<rparr>) = Inr (length data, data, (conn_of [])\<lparr>cn_out := bs\<rparr>)"
    using read_n_prefix[of "(conn_of data)\<lparr>cn_out := bs\<rparr>" data "[]"] by simp
  show ?thesis
    using mf_roundtrip[OF assms(1), of "[]" "mf_raw garbage"] peer(2)
    by (simp add: get_full_mf_model_def send_n_ok bs_def[symmetric] await_conn peer read_u32_ok(2)[where r = data]
        n rd mf_of_data_def data_def[symmetric] mf_shape_def Let_def del: op_code.simps)
qed

lemma mf_full_model_received_example:
  "\<exists>m c. get_full_mf_model (answer 0 worker0 server0) mf_flat (conn_of []) = Inr (m, c)
    \<and> after 0 worker0 server0 (cn_out c) = Some server0 \<and> mf_shape m = mf_shape mf_flat"
proof -
  have "mf_wf (sv_mf server0)" "length (mf_serialize_to (sv_mf server0)) \<le> THREAD_BUFFER_SIZE"
    by (simp_all add: server0_def mf_wf_def mf_flat_def mf_serialized_length THREAD_BUFFER_SIZE_def)
  from mf_full_model_received[OF this worker0_wf, of 0 mf_flat] show ?thesis
    by (auto simp: server0_def)
qed

section \<open>The part of the matrix-factorisation model a worker asks for\<close>

lemma collect_items_value:
  assumes "\<forall>i\<in>set (features ds). unat i < 17770" "length hdr = 16"
  shows "\<exists>seen. rfold (rfold collect_item) (sd_data ds) (hdr, 0, \<lambda>_. False)
    = Inr (hdr @ store_many store_u32 (firsts (features ds)), word_of_nat (length (firsts (features ds))), seen)"
proof -
  have "\<exists>seen. rfold collect_item row (hdr, 0, \<lambda>_. False)
      = Inr (hdr @ store_many store_u32 (firsts (map fst row)), word_of_nat (length (firsts (map fst row))), seen)
    \<and> (\<forall>i :: u32. unat i < 17770 \<longrightarrow> seen (unat i) = (i \<in> set (map fst row)))"
    if "\<forall>i\<in>set (map fst row). unat i < 17770" for row :: sample
    using that
  proof (induction row rule: rev_induct)
    case (snoc x row)
    obtain i v where x: "x = (i, v)" by (cases x)
    obtain seen where ih: "rfold collect_item row (hdr, 0, \<lambda>_. False)
        = Inr (hdr @ store_many store_u32 (firsts (map fst row)), word_of_nat (length (firsts (map fst row))), seen)"
      "\<forall>i :: u32. unat i < 17770 \<longrightarrow> seen (unat i) = (i \<in> set (map fst row))"
      using snoc by auto
    have "unat ` set (firsts (map fst row)) \<subseteq> {..<17770}" using snoc.prems by auto
    then have "card (unat ` set (firsts (map fst row))) \<le> 17770"
      using card_mono[OF finite_lessThan] by fastforce
    moreover have "card (unat ` set (firsts (map fst row))) = length (firsts (map fst row))"
      by (subst card_image) (simp_all add: inj_on_def word_unat_eq_iff distinct_card distinct_firsts del: set_firsts)
    ultimately have room: "length (firsts (map fst row)) \<le> 17770" by simp
    have i: "unat i < 17770" using snoc.prems by (simp add: x)
    show ?case
    proof (cases "i \<in> set (map fst row)")
      case True
      then have "seen (unat i)" using ih(2) i by blast
      then show ?thesis using ih i True
        by (auto simp: rfold_append x collect_item_def firsts_snoc)
    next
      case False
      then have "\<not> seen (unat i)" using ih(2) i by blast
      then show ?thesis using ih i False room assms(2)
        by (auto simp: rfold_append x collect_item_def firsts_snoc msg_store_def MAX_MSG_SIZE_def add.commute simp flip: word_unat_eq_iff)
    qed
  qed simp
  from this[of "concat (sd_data ds)"] show ?thesis
    using assms(1) by (auto simp: rfold_concat features_def)
qed

text \<open>What the server makes of such a request, before the sizes of its buffers are looked at.\<close>

lemma mf_sparse_request:
  assumes "cn_in c = store_u32 (op_code GET_MF_SPARSE_MODEL) @ store_u32 m @ store_u32 (word_of_nat (length ids)) @
      store_u32 base @ store_u32 n @ store_u32 MAGIC_NUMBER @ store_many store_u32 ids @ r"
    and "serves (sv_mf s) (unat base) (unat n) ids" "ids \<noteq> []" "0 < unat n" "worker_wf w" "writable c"
    and "length ids \<le> NUM_ITEM_MODELS"
    and holder: "sm_serialize_from_dense (sv_mf s) base n (word_of_nat (length ids))
        (store_many store_u32 ids @ drop (4 * length ids) (wk_buffer w)) = Inr holder"
      "length holder = (unat n + length ids) * 48"
  shows "(unat n + length ids) * 48 \<le> THREAD_MSG_BUFFER_SIZE \<longrightarrow> (\<exists>w'. serve now c w s = Inr (c\<lparr>cn_in := r,
        cn_out := cn_out c @ store_u32 (word_of_nat (length holder)) @ holder\<rparr>, w', s))"
    and "(unat n + length ids) * 48 > THREAD_MSG_BUFFER_SIZE \<longrightarrow> serve now c w s = Inl Undefined_behaviour"
proof -
  define k where "k = length ids"
  have k: "k \<le> 17770" "0 < k" using assms(3,7) by (auto simp: k_def NUM_ITEM_MODELS_def)
  have uk: "unat (word_of_nat k :: u32) = k" using k(1) by (simp add: unat_of_nat take_bit_nat_eq_self)
  have items: "read_n (k * 4) (c\<lparr>cn_in := store_many store_u32 ids @ r\<rparr>)
      = Inr (k * 4, store_many store_u32 ids, c\<lparr>cn_in := r\<rparr>)"
    by (simp add: read_n_def k_def)
  have fit: "length (store_many store_u32 ids) \<le> length (wk_buffer w)"
    using k(1) assms(5) by (simp add: k_def worker_wf_def THREAD_BUFFER_SIZE_def)
  have buf: "overwrite (store_many store_u32 ids) (wk_buffer w)
      = store_many store_u32 ids @ drop (4 * length ids) (wk_buffer w)"
    by (simp add: overwrite_append mult.commute)
  show "(unat n + length ids) * 48 > THREAD_MSG_BUFFER_SIZE \<longrightarrow> serve now c w s = Inl Undefined_behaviour"
    using assms(5) fit k holder
    by (auto simp: serve_op[where x = GET_MF_SPARSE_MODEL, OF assms(1)] process_get_mf_sparse_model_def
        items[unfolded k_def] uk[unfolded k_def] buf worker_wf_def Let_def assms(3,4) k_def simp del: op_code.simps)
  show "(unat n + length ids) * 48 \<le> THREAD_MSG_BUFFER_SIZE \<longrightarrow> (\<exists>w'. serve now c w s = Inr (c\<lparr>cn_in := r,
        cn_out := cn_out c @ store_u32 (word_of_nat (length holder)) @ holder\<rparr>, w', s))"
  proof
    assume small: "(unat n + length ids) * 48 \<le> THREAD_MSG_BUFFER_SIZE"
    then have lt: "unat n < 2 ^ 15" "k < 2 ^ 15" by (auto simp: THREAD_MSG_BUFFER_SIZE_def k_def)
    have "ucast (word_of_nat k :: u32) = (word_of_nat k :: u64)" using lt by (intro ucast_small) simp
    moreover have "(ucast n :: u64) = word_of_nat (unat n)" by simp
    ultimately have eq: "(ucast n :: u64) * 48 + ucast (word_of_nat k :: u32) * 48 = word_of_nat ((unat n + k) * 48)"
      by (simp add: algebra_simps)
    have sz: "(ucast ((ucast n :: u64) * 48 + ucast (word_of_nat k :: u32) * 48) :: u32) = word_of_nat (length holder)"
      using lt by (intro word_size_ok, simp only: eq unat_of_nat) (simp add: holder(2) k_def[symmetric] take_bit_nat_eq_self)
    have un: "unat (word_of_nat (length holder) :: u32) = length holder"
      using lt by (simp only: unat_of_nat) (simp add: holder(2) k_def[symmetric] take_bit_nat_eq_self)
    show "\<exists>w'. serve now c w s = Inr (c\<lparr>cn_in := r,
        cn_out := cn_out c @ store_u32 (word_of_nat (length holder)) @ holder\<rparr>, w', s)"
      using assms(5,6) fit k holder(1) small[folded holder(2)]
      by (auto simp: serve_op[where x = GET_MF_SPARSE_MODEL, OF assms(1)] process_get_mf_sparse_model_def
          items[unfolded k_def] uk[unfolded k_def] buf worker_wf_def Let_def assms(3,4) k_def sz[unfolded k_def] un
          NUM_FACTORS_def overwrite_append send_n_ok simp del: op_code.simps)
  qed
qed

lemma firsts_bound:
  assumes "\<forall>i\<in>set (ids :: u32 list). unat i < NUM_ITEM_MODELS"
  shows "length (firsts ids) \<le> NUM_ITEM_MODELS"
proof -
  have "unat ` set (firsts ids) \<subseteq> {..<NUM_ITEM_MODELS}" using assms by auto
  then have "card (unat ` set (firsts ids)) \<le> NUM_ITEM_MODELS"
    using card_mono[OF finite_lessThan] by fastforce
  moreover have "card (unat ` set (firsts ids)) = length (firsts ids)"
    by (subst card_image) (simp_all add: inj_on_def word_unat_eq_iff distinct_card distinct_firsts del: set_firsts)
  ultimately show ?thesis by simp
qed

text \<open>What the client of a sparse model sends.\<close>

definition mf_request :: "sparse_dataset \<Rightarrow> u32 \<Rightarrow> u32 \<Rightarrow> byte list" where
  "mf_request ds base n = (let ids = firsts (features ds); k = word_of_nat (length ids) in
     store_u32 (op_code GET_MF_SPARSE_MODEL) @ store_u32 (4 * 4 + 4 * k) @ store_u32 k @ store_u32 base @
     store_u32 n @ store_u32 MAGIC_NUMBER @ store_many store_u32 ids)"

lemma mf_request_sent:
  assumes "\<forall>i\<in>set (features ds). unat i < NUM_ITEM_MODELS"
  shows "get_sparse_mf_model peer ds base n (conn_of []) =
     rbind (read_u32_unchecked ((conn_of (peer (mf_request ds base n)))\<lparr>cn_out := mf_request ds base n\<rparr>)) (\<lambda>(to_receive_size, c).
     rbind (read_n (unat to_receive_size) c) (\<lambda>(r, buffer, c).
     rbind (guard_rt (\<not> r = 0) []) (\<lambda>_.
     rbind (sm_of_data buffer (ucast n) (ucast (word_of_nat (length (firsts (features ds))) :: u32))) (\<lambda>m. Inr (m, c)))))"
proof -
  define ids k where "ids = firsts (features ds)" and "k = length ids"
  have k: "k \<le> 17770" using firsts_bound[OF assms] by (simp add: k_def ids_def NUM_ITEM_MODELS_def)
  obtain seen where c: "rfold (rfold collect_item) (sd_data ds)
      (store_u32 0 @ store_u32 base @ store_u32 n @ store_u32 MAGIC_NUMBER, 0, \<lambda>_. False)
    = Inr ((store_u32 0 @ store_u32 base @ store_u32 n @ store_u32 MAGIC_NUMBER) @ store_many store_u32 ids, word_of_nat k, seen)"
    using collect_items_value[of ds "store_u32 0 @ store_u32 base @ store_u32 n @ store_u32 MAGIC_NUMBER"] assms
    by (auto simp: ids_def k_def NUM_ITEM_MODELS_def)
  have u: "unat (4 * 4 + 4 * word_of_nat k :: u32) = 16 + 4 * k"
    using k by (simp add: unat_word_ariths unat_of_nat take_bit_nat_eq_self)
  have "length (store_many store_u32 ids) = 4 * k" by (simp add: k_def)
  then show ?thesis
    using c u by (simp add: get_sparse_mf_model_def send_n_ok await_conn mf_request_def Let_def ids_def[symmetric]
        k_def[symmetric] del: op_code.simps)
qed

lemma mf_part_lands:
  assumes "serves (sv_mf s) (unat base) (unat n) (firsts (features ds))" "features ds \<noteq> []" "0 < unat n" "worker_wf w"
    and "(unat n + length (firsts (features ds))) * 48 \<le> THREAD_MSG_BUFFER_SIZE"
  shows "\<exists>c. get_sparse_mf_model (answer now w s) ds base n (conn_of []) =
       Inr (served (sv_mf s) (unat base) (unat n) (firsts (features ds)), c)
    \<and> after now w s (cn_out c) = Some s"
proof -
  define ids k bs where "ids = firsts (features ds)" and "k = length ids" and "bs = mf_request ds base n"
  have items: "\<forall>i\<in>set (features ds). unat i < NUM_ITEM_MODELS" using assms(1) by (simp add: serves_def)
  have k: "k \<le> NUM_ITEM_MODELS" using firsts_bound[OF items] by (simp add: k_def ids_def)
  have ne: "ids \<noteq> []" using assms(2) by (simp add: ids_def flip: set_empty)
  obtain holder where h: "sm_serialize_from_dense (sv_mf s) base n (word_of_nat k)
        (store_many store_u32 ids @ drop (4 * length ids) (wk_buffer w)) = Inr holder"
    "length holder = (unat n + k) * 48"
    "\<And>r. sm_of_data (holder @ r) (ucast n) (word_of_nat k) = Inr (served (sv_mf s) (unat base) (unat n) ids)"
    using served_bytes[OF assms(1)] unfolding ids_def k_def by blast
  have "\<exists>w'. serve now (conn_of bs) w s = Inr ((conn_of [])\<lparr>cn_out := store_u32 (word_of_nat (length holder)) @ holder\<rparr>, w', s)"
    using mf_sparse_request(1)[of "conn_of bs" "4 * 4 + 4 * word_of_nat k" ids base n "[]" s w holder now]
      assms(1,3-5) k h(1,2) ne
    by (simp add: bs_def mf_request_def ids_def k_def Let_def)
  then have peer: "answer now w s bs = store_u32 (word_of_nat (length holder)) @ holder" "after now w s bs = Some s"
    using served_whole by blast+
  have pos: "length holder \<noteq> 0" "unat (word_of_nat (length holder) :: u32) = length holder"
  proof -
    show "length holder \<noteq> 0" using assms(3) h(2) by simp
    have "length holder < 2 ^ 32" using assms(5) h(2) by (simp add: ids_def k_def THREAD_MSG_BUFFER_SIZE_def)
    then show "unat (word_of_nat (length holder) :: u32) = length holder" by (simp add: unat_of_nat take_bit_nat_eq_self)
  qed
  have rd: "read_n (length holder) ((conn_of holder)\<lparr>cn_out := bs\<rparr>) = Inr (length holder, holder, (conn_of [])\<lparr>cn_out := bs\<rparr>)"
    using read_n_prefix[of "(conn_of holder)\<lparr>cn_out := bs\<rparr>" holder "[]"] by simp
  have "k < 2 ^ 32" using k by (simp add: NUM_ITEM_MODELS_def)
  then have wk: "ucast (word_of_nat k :: u32) = (word_of_nat k :: u64)" by (rule ucast_small)
  show ?thesis
    using peer(2) h(3)[of "[]"] pos(1)
    by (simp add: mf_request_sent[OF items] bs_def[symmetric] peer(1) read_u32_ok(2)[where r = holder] pos(2) rd
        ids_def[symmetric] k_def[symmetric] wk)
qed

text \<open>
  C7: A worker that asks for the part of the matrix-factorisation model its minibatch needs, the
  users of a range and each rated item once, gets exactly the biases and factors the server holds
  for them, as long as the 48 bytes for each fit the server's buffer of one million bytes.
\<close>

theorem mf_part_received:
  assumes "serves (sv_mf s) (unat base) (unat n) (firsts (features ds))" "features ds \<noteq> []" "0 < unat n" "worker_wf w"
    and "(unat n + length (firsts (features ds))) * 48 \<le> THREAD_MSG_BUFFER_SIZE"
  shows "\<exists>c. get_sparse_mf_model (answer now w s) ds base n (conn_of []) =
       Inr (served (sv_mf s) (unat base) (unat n) (firsts (features ds)), c)
    \<and> after now w s (cn_out c) = Some s"
  by (rule mf_part_lands[OF assms])

theorem mf_part_received_witness:
  "\<exists>c. get_sparse_mf_model (answer 0 worker0 server0) (sd_make [[(0, 0x3F800000)]] []) 1 1 (conn_of []) =
       Inr (served mf_flat 1 1 [0], c) \<and> after 0 worker0 server0 (cn_out c) = Some server0"
  using mf_part_received[of server0 1 1 "sd_make [[(0, 0x3F800000)]] []" worker0 0] serves_flat worker0_wf
  by (simp add: server0_def features_def sd_make_def THREAD_MSG_BUFFER_SIZE_def)

text \<open>C34: The server does not check that its reply fits its buffer: a request for more users and items than
  that, all of them in the model, writes past its end.\<close>

theorem mf_reply_overflow:
  assumes "serves (sv_mf s) (unat base) (unat n) (firsts (features ds))" "features ds \<noteq> []" "0 < unat n" "worker_wf w"
    and "(unat n + length (firsts (features ds))) * 48 > THREAD_MSG_BUFFER_SIZE"
  shows "serve now (conn_of (mf_request ds base n)) w s = Inl Undefined_behaviour"
proof -
  define ids k bs where "ids = firsts (features ds)" and "k = length ids" and "bs = mf_request ds base n"
  have items: "\<forall>i\<in>set (features ds). unat i < NUM_ITEM_MODELS" using assms(1) by (simp add: serves_def)
  have k: "k \<le> NUM_ITEM_MODELS" using firsts_bound[OF items] by (simp add: k_def ids_def)
  have ne: "ids \<noteq> []" using assms(2) by (simp add: ids_def flip: set_empty)
  obtain holder where h: "sm_serialize_from_dense (sv_mf s) base n (word_of_nat k)
        (store_many store_u32 ids @ drop (4 * length ids) (wk_buffer w)) = Inr holder"
    "length holder = (unat n + k) * 48"
    using served_bytes(1,2)[OF assms(1)] unfolding ids_def k_def by blast
  then show ?thesis
    using mf_sparse_request(2)[of "conn_of bs" "4 * 4 + 4 * word_of_nat k" ids base n "[]" s w holder now]
      assms(1,3-5) k ne
    by (simp add: bs_def mf_request_def ids_def k_def Let_def)
qed

text \<open>A model with thirty thousand users.\<close>

definition mf_large :: mf_model where
  "mf_large = mf_flat\<lparr>mf_nusers := 30000, mf_user_bias := replicate 30000 0, mf_user_weights := replicate 300000 0\<rparr>"

theorem mf_reply_overflow_witness:
  "serve 0 (conn_of (mf_request (sd_make [[(0, 0x3F800000)]] []) 0 25000)) worker0 (server0\<lparr>sv_mf := mf_large\<rparr>)
     = Inl Undefined_behaviour"
  by (rule mf_reply_overflow[OF _ _ _ worker0_wf])
    (simp_all add: serves_def mf_wf_def mf_large_def mf_flat_def NUM_FACTORS_def NUM_ITEM_MODELS_def
      features_def sd_make_def THREAD_MSG_BUFFER_SIZE_def)

end
