(* ===== verification/Worker.thy ===== *)
theory Worker
  imports S3Iter ModelFetch
begin

text \<open>
  The workers of logistic regression, \<open>LogisticSparseTaskS3\<close>, and the system they form with the
  server. A turn of a worker's loop has two halves that other workers can come between: it takes a
  minibatch, fetches the weights of its features and computes the gradient (\<open>lr_compute\<close>), and it
  sends the gradient (\<open>lr_push\<close>). It fetches and it pushes over two connections, and a pushed
  gradient has no reply: the server may serve it after later fetches of the same worker. The system
  (\<open>lr_step\<close>) interleaves all of these with the turns of the threads that fetch objects.

  \<open>async_sgd\<close> is the specification, asynchronous gradient descent, and \<open>sys_rel\<close> the simulation
  relation; \<open>sgd_round\<close> is one step of sequential gradient descent. The barrier \<open>wait_for_start\<close> is
  compiled out (\<open>WAIT_ENABLED\<close> is not defined) and left out.
\<close>

section \<open>The task\<close>

record lr_task =
  lt_iter :: s3_iter
  lt_model :: sparse_lr_model
  lt_version :: u64
  lt_count :: i32

text \<open>What \<open>run\<close> sets up before its loop.\<close>

definition lr_task_new :: "(nat \<Rightarrow> i32 \<Rightarrow> i32 \<Rightarrow> i32) \<Rightarrow> (u64 \<Rightarrow> byte list) \<Rightarrow> nat \<Rightarrow> configuration \<Rightarrow> lr_task res" where
  "lr_task_new draw s3 early c =
     rbind (get_s3_size c) (\<lambda>s3_size.
     rbind (get_minibatch_size c) (\<lambda>minibatch_size.
     rbind (it_new draw s3 early (scast (fst (cf_train_set_range c))) (scast (snd (cf_train_set_range c))) c s3_size minibatch_size
              True True True) (\<lambda>s3_iter.
     rbind (int_shl_one (cf_model_bits c)) (\<lambda>n.
     Inr \<lparr>lt_iter = s3_iter, lt_model = lrm_new (scast n), lt_version = 1, lt_count = 0\<rparr>))))"

text \<open>\<open>try { ... } catch (...) { exit(-1); }\<close>\<close>

definition or_exit :: "'a res \<Rightarrow> 'a res" where
  "or_exit m = (case m of
       Inl (Runtime_error _) \<Rightarrow> Inl (Exit_status (- 1))
     | Inl (Length_error _) \<Rightarrow> Inl (Exit_status (- 1))
     | Inl Out_of_range \<Rightarrow> Inl (Exit_status (- 1))
     | m \<Rightarrow> m)"

text \<open>The first half of a turn of the loop, up to the gradient with its version.\<close>

definition lr_compute :: "(byte list \<Rightarrow> byte list) \<Rightarrow> libm \<Rightarrow> configuration \<Rightarrow> conn \<Rightarrow> lr_task \<Rightarrow>
    (lr_sparse_gradient \<times> conn \<times> lr_task) res" where
  "lr_compute peer lm config c t =
     rbind (get_next (lt_iter t)) (\<lambda>(dataset, s3_iter).
     rbind (get_lr_sparse_model_inplace peer dataset (lt_model t) config c) (\<lambda>(model, c).
     rbind (or_exit (lrm_minibatch_grad_sparse lm dataset config model)) (\<lambda>(gradient, model).
     Inr (gradient\<lparr>lrs_version := lt_version t\<rparr>, c,
          t\<lparr>lt_iter := s3_iter, lt_model := model, lt_version := lt_version t + 1\<rparr>))))"

text \<open>The second half: the gradient is pushed and counted.\<close>

definition lr_push :: "(nat \<Rightarrow> nat) \<Rightarrow> i32 \<Rightarrow> lr_sparse_gradient \<Rightarrow> conn \<Rightarrow> lr_task \<Rightarrow> (conn \<times> lr_task) res" where
  "lr_push ks test_iters gradient c t =
     rbind (or_exit (send_lr_gradient ks gradient c)) (\<lambda>c.
       if sint (lt_count t) = 2 ^ 31 - 1 then Inl Undefined_behaviour
       else let count = lt_count t + 1
            in if 0 < sint test_iters \<and> sint test_iters < sint count then Inl (Exit_status 0)
               else Inr (c, t\<lparr>lt_count := count\<rparr>))"

section \<open>The system\<close>

text \<open>
  The server and its workers, each with the gradient it has computed and not pushed yet, and with the
  bytes that are under way on its second connection, on which it pushes gradients. A fetch is a
  request and its reply, and the worker waits between them: they are one step. A push only sends;
  the server reads the oldest request on that connection in a step of its own (\<open>Serve\<close>). \<open>w\<close> is the
  server thread that serves a request.
\<close>

record lr_system =
  ls_server :: server
  ls_tasks :: "(lr_task \<times> lr_sparse_gradient option) list"
  ls_sent :: "byte list list"

datatype lr_action = Prefetch nat | Compute nat int worker | Push nat "nat \<Rightarrow> nat" | Serve nat int worker

definition set_task :: "nat \<Rightarrow> lr_task \<times> lr_sparse_gradient option \<Rightarrow> lr_system \<Rightarrow> lr_system" where
  "set_task i x y = y\<lparr>ls_tasks := (ls_tasks y)[i := x]\<rparr>"

definition set_sent :: "nat \<Rightarrow> byte list \<Rightarrow> lr_system \<Rightarrow> lr_system" where
  "set_sent i bs y = y\<lparr>ls_sent := (ls_sent y)[i := bs]\<rparr>"

fun lr_step :: "(nat \<Rightarrow> nat \<Rightarrow> i32 \<Rightarrow> i32 \<Rightarrow> i32) \<Rightarrow> (u64 \<Rightarrow> byte list) \<Rightarrow> libm \<Rightarrow> configuration \<Rightarrow> i32 \<Rightarrow>
    lr_action \<Rightarrow> lr_system \<Rightarrow> lr_system res" where
  "lr_step draw s3 lm config test_iters (Prefetch i) y =
     rbind (vec_get (ls_tasks y) i) (\<lambda>(t, g).
     unless_blocked y (rbind (thread_step (draw i) s3 (lt_iter t)) (\<lambda>it.
       Inr (set_task i (t\<lparr>lt_iter := it\<rparr>, g) y))))"
| "lr_step draw s3 lm config test_iters (Compute i now w) y =
     rbind (vec_get (ls_tasks y) i) (\<lambda>(t, g). case g of
       Some _ \<Rightarrow> Inr y
     | None \<Rightarrow> unless_blocked y (rbind (lr_compute (answer now w (ls_server y)) lm config (conn_of []) t) (\<lambda>(g, c, t).
         rbind (serve now (conn_of (cn_out c)) w (ls_server y)) (\<lambda>(_, _, s).
         Inr (set_task i (t, Some g) (y\<lparr>ls_server := s\<rparr>))))))"
| "lr_step draw s3 lm config test_iters (Push i ks) y =
     rbind (vec_get (ls_tasks y) i) (\<lambda>(t, g). case g of
       None \<Rightarrow> Inr y
     | Some g \<Rightarrow> rbind (vec_get (ls_sent y) i) (\<lambda>bs.
         rbind (lr_push ks test_iters g (conn_of []) t) (\<lambda>(c, t).
         Inr (set_sent i (bs @ cn_out c) (set_task i (t, None) y)))))"
| "lr_step draw s3 lm config test_iters (Serve i now w) y =
     rbind (vec_get (ls_sent y) i) (\<lambda>bs.
       if bs = [] then Inr y
       else rbind (serve now (conn_of bs) w (ls_server y)) (\<lambda>(c, _, s).
         Inr (set_sent i (cn_in c) (y\<lparr>ls_server := s\<rparr>))))"

section \<open>One worker against the server\<close>

text \<open>The weights the server hands out, and what makes a minibatch fit for training.\<close>

definition served_weights :: "opt_method \<Rightarrow> sparse_lr_model \<Rightarrow> f32 list" where
  "served_weights opt m = map (\<lambda>w. f32_of_f64 (opt_edit_weight opt (f64_of_f32 w))) (lrm_weights m)"

lemma served_weight_nth: "unat i < length (lrm_weights (sv_lr s)) \<Longrightarrow> served_weights (sv_opt s) (sv_lr s) ! unat i = served_weight s i"
  by (simp add: served_weights_def served_weight_def)

definition trainable :: "configuration \<Rightarrow> u64 \<Rightarrow> sparse_dataset \<Rightarrow> bool" where
  "trainable c m ds \<longleftrightarrow> features ds \<noteq> [] \<and> 4 * length (features ds) + 4 \<le> MAX_MSG_SIZE
     \<and> length (sd_data ds) \<le> unat m \<and> (\<forall>i\<in>set (features ds). unat i < 2 ^ unat (cf_model_bits c))"

definition worker_conf :: "configuration \<Rightarrow> u64 \<Rightarrow> f64 \<Rightarrow> bool" where
  "worker_conf c m eps \<longleftrightarrow> get_minibatch_size c = Inr m \<and> get_epsilon c = Inr eps
     \<and> unat (cf_model_bits c) \<le> 30"

definition model_ready :: "configuration \<Rightarrow> u64 \<Rightarrow> sparse_lr_model \<Rightarrow> bool" where
  "model_ready c m x \<longleftrightarrow> lrm_part3 x = [] \<and> lrm_part2 x = [] \<or> scratch_ok (2 ^ unat (cf_model_bits c)) (unat m) x"

lemma shl_one: "b \<le> 30 \<Longrightarrow> sint (2 ^ b :: i32) = 2 ^ b"
proof -
  assume "b \<le> 30"
  then have "(2 :: nat) ^ b \<le> 2 ^ 30" by (intro power_increasing) auto
  then have "(2 :: nat) ^ b < 2 ^ 31" by simp
  from sint_small[OF this] show ?thesis by simp
qed

lemma ensure_ready:
  assumes "worker_conf c m eps" "model_ready c m x"
  shows "\<exists>m1. lrm_ensure_preallocated c x = Inr m1 \<and> scratch_ok (2 ^ unat (cf_model_bits c)) (unat m) m1
    \<and> lrm_sparse m1 = lrm_sparse x"
proof -
  define b where "b = unat (cf_model_bits c)"
  have b: "b \<le> 30" "get_minibatch_size c = Inr m" using assms(1) by (auto simp: worker_conf_def b_def)
  have mp: "0 < unat m" using b(2) by (auto simp: get_minibatch_size_def unat_gt_0 split: if_splits)
  have new: "rbind (int_shl_one (cf_model_bits c)) (vec_new 0) = Inr (replicate (2 ^ b) (0 :: f32))"
    using b(1) shl_one[OF b(1)] by (simp add: int_shl_one_def b_def[symmetric] vec_new_def push_bit_eq_mult nat_power_eq)
  show ?thesis
  proof (cases "lrm_part3 x = [] \<and> lrm_part2 x = []")
    case True
    then show ?thesis using new b(2) f32_eq_0
      by (simp add: lrm_ensure_preallocated_def scratch_ok_def b_def del: rbind_eq_Inr)
  next
    case False
    then have ok: "scratch_ok (2 ^ b) (unat m) x" using assms(2) by (auto simp: model_ready_def b_def)
    then have "lrm_part3 x \<noteq> []" "lrm_part2 x \<noteq> []" using mp by (auto simp: scratch_ok_def)
    then show ?thesis using ok by (simp add: lrm_ensure_preallocated_def scratch_ok_def b_def)
  qed
qed

lemma or_exit_simps [simp]: "or_exit (Inr x) = Inr x" "or_exit m = Inr x \<longleftrightarrow> m = Inr x"
  "rbind (or_exit (Inl e)) f = or_exit (Inl e)"
  by (auto simp: or_exit_def split: sum.splits cpp_error.splits)

lemma sint_nonneg: "unat (i :: i32) < 2 ^ 31 \<Longrightarrow> 0 \<le> sint i"
  using sint_small[of "unat i"] by simp

lemma compute_step:
  assumes conf: "worker_conf c m eps" and ds: "trainable c m ds" "get_next (lt_iter t) = Inr (ds, it)"
    and ready: "model_ready c m (lt_model t)" and w: "worker_wf w"
    and size: "2 ^ unat (cf_model_bits c) \<le> length (lrm_weights (sv_lr s))"
  shows "case reference_grad lm (grad_kept c) eps ds (served_weights (sv_opt s) (sv_lr s)) of
      Inl e \<Rightarrow> lr_compute (answer now w s) lm c (conn_of []) t = or_exit (Inl e)
    | Inr g \<Rightarrow> \<exists>c1 model. lr_compute (answer now w s) lm c (conn_of []) t = Inr (g\<lparr>lrs_version := lt_version t\<rparr>, c1,
          t\<lparr>lt_iter := it, lt_model := model, lt_version := lt_version t + 1\<rparr>)
        \<and> model_ready c m model \<and> (\<exists>c2 w'. serve now (conn_of (cn_out c1)) w s = Inr (c2, w', s))"
proof -
  define b where "b = unat (cf_model_bits c)"
  have b: "b \<le> 30" "get_epsilon c = Inr eps" using conf by (auto simp: worker_conf_def b_def)
  have "(2 :: nat) ^ b \<le> 2 ^ 30" using b(1) by (intro power_increasing) auto
  then have lt: "(2 :: nat) ^ b < 2 ^ 31" by simp
  have f: "features ds \<noteq> []" "4 * length (features ds) + 4 \<le> MAX_MSG_SIZE" "length (sd_data ds) \<le> unat m"
    "\<forall>i\<in>set (features ds). unat i < 2 ^ b"
    using ds(1) by (auto simp: trainable_def b_def)
  have feats: "\<forall>i\<in>set (features ds). unat i < length (lrm_weights (sv_lr s)) \<and> unat i < 2 ^ unat (cf_model_bits c)"
    using f(4) size by (auto simp: b_def intro: less_le_trans)
  from get_lr_sparse_served[OF f(1,2) w b(1)[unfolded b_def] feats, of now "lt_model t"] obtain x c1 where
    x: "get_lr_sparse_model_inplace (answer now w s) ds (lt_model t) c (conn_of []) = Inr (x, c1)"
      "after now w s (cn_out c1) = Some s"
      "\<forall>i\<in>set (features ds). cell_get (lrm_sparse x) (unat i) = Inr (served_weight s i)"
      "x\<lparr>lrm_is_sparse := lrm_is_sparse (lt_model t), lrm_sparse := lrm_sparse (lt_model t)\<rparr> = lt_model t" by blast
  have "lrm_part3 x = lrm_part3 (lt_model t)" "lrm_part2 x = lrm_part2 (lt_model t)"
    using arg_cong[OF x(4), of lrm_part3] arg_cong[OF x(4), of lrm_part2] by simp_all
  then have "model_ready c m x" using ready by (simp add: model_ready_def scratch_ok_def)
  from ensure_ready[OF conf this] obtain m1 where m1: "lrm_ensure_preallocated c x = Inr m1"
    "scratch_ok (2 ^ b) (unat m) m1" "lrm_sparse m1 = lrm_sparse x" by (auto simp: b_def)
  have "0 \<le> sint i \<and> idx i < length (served_weights (sv_opt s) (sv_lr s)) \<and> idx i < 2 ^ b
      \<and> cell_get (lrm_sparse m1) (idx i) = Inr (served_weights (sv_opt s) (sv_lr s) ! idx i)"
    if i: "i \<in> set (features ds)" for i
  proof -
    have u: "unat i < 2 ^ b" using f(4) i by blast
    then have "idx i = unat i" "0 \<le> sint i" using lt idx_unat[of i] sint_nonneg[of i] by simp_all
    then show ?thesis using u i x(3) feats m1(3) served_weight_nth[of i s] by (simp add: served_weights_def b_def)
  qed
  then have "\<forall>row\<in>set (sd_data ds). \<forall>(i, v)\<in>set row. 0 \<le> sint i \<and> idx i < length (served_weights (sv_opt s) (sv_lr s))
      \<and> idx i < 2 ^ b \<and> cell_get (lrm_sparse m1) (idx i) = Inr (served_weights (sv_opt s) (sv_lr s) ! idx i)"
    by (force simp: features_def)
  note grad = sparse_grad_is_reference[OF m1(1,2) f(3) b(2) this, of lm]
  obtain c2 w' where "serve now (conn_of (cn_out c1)) w s = Inr (c2, w', s)"
    using x(2) by (auto simp: after_def split: sum.splits if_splits)
  then show ?thesis using grad x(1) ds(2)
    by (auto simp: lr_compute_def model_ready_def b_def split: sum.splits)
qed

lemma length_grad_sums: "length (grad_sums d p) \<le> length (concat (sd_data d))"
proof -
  have "length (map_add_f32 k x al) \<le> Suc (length al)" for k x and al :: "(u64 \<times> f32) list"
    by (induction al) (auto simp: map_add_f32_def)
  then have "length (fold (\<lambda>(index, x). map_add_f32 (scast index) x) cs al) \<le> length cs + length al"
    for cs :: "(i32 \<times> f32) list" and al :: "(u64 \<times> f32) list"
  proof (induction cs arbitrary: al)
    case (Cons c cs)
    show ?case using Cons.IH[OF Cons.prems, of "map_add_f32 (scast (fst c)) (snd c) al"] Cons.prems[of "scast (fst c)" "snd c" al]
      by (auto simp: split_def)
  qed simp
  from this[of "contribs (sd_data d) p" "[]"] have "length (grad_sums d p) \<le> length (contribs (sd_data d) p)"
    by (simp add: grad_sums_contribs)
  also have "length (contribs rows ps) \<le> length (concat rows)" for rows :: "sample list" and ps
    by (induction rows arbitrary: ps) (auto simp: contribs_def zip_Cons1 split: list.splits intro: order_trans)
  finally show ?thesis .
qed

lemma reference_grad_length:
  assumes "reference_grad lm keep eps ds ws = Inr g"
  shows "length (lrs_weights g) \<le> length (features ds)"
proof -
  obtain p where "g = nonzero_grad keep eps ds ws p" using assms by (auto simp: reference_grad_def)
  then have "length (lrs_weights g) \<le> length (grad_sums ds p)" by (simp add: nonzero_grad_def lrs_of_vector_def)
  also have "\<dots> \<le> length (features ds)" using length_grad_sums[of ds p] by (simp add: features_def)
  finally show ?thesis .
qed

text \<open>The server on a gradient: without entries it is refused by an assertion, which ends the server.\<close>

definition grad_bytes :: "lr_sparse_gradient \<Rightarrow> byte list" where
  "grad_bytes g = store_u32 (op_code SEND_LR_GRADIENT) @ store_u32 (word_of_nat (length (lrs_serialize g))) @ lrs_serialize g"

lemma grad_bytes_not_empty [simp]: "grad_bytes g \<noteq> []"
proof
  assume "grad_bytes g = []"
  then have "length (grad_bytes g) = 0" by simp
  then show False by (simp add: grad_bytes_def)
qed

lemma serve_gradient:
  assumes "length (lrs_weights g) < 10000000" "worker_wf w"
  shows "serve now (conn_of (grad_bytes g @ r)) w s
    = (if lrs_weights g = [] then Inl Assertion_failed
       else rbind (opt_sgd_update (LRSparseGradient g) (sv_opt s, sv_lr s)) (\<lambda>(opt, m).
         Inr (conn_of r, w\<lparr>wk_buffer := overwrite (lrs_serialize g) (wk_buffer w)\<rparr>,
              s\<lparr>sv_opt := opt, sv_lr := m, sv_updates := sv_updates s + 1\<rparr>)))"
proof -
  define body where "body = lrs_serialize g"
  have msg: "msg_in body w"
    using assms unfolding msg_in_def body_def
    by (auto simp: length_lrs_serialize worker_wf_def THREAD_BUFFER_SIZE_def simp flip: length_greater_0_conv)
  have new: "lrs_new 0 = Inr \<lparr>lrs_weights = [], lrs_version = 0\<rparr>" by (simp add: lrs_new_def vec_new_def)
  have load: "lrs_load (overwrite body (wk_buffer w)) \<lparr>lrs_weights = [], lrs_version = 0\<rparr>
      = (if lrs_weights g = [] then Inl Assertion_failed
         else Inr (g\<lparr>lrs_version := scast (ucast (lrs_version g) :: i32)\<rparr>))"
  proof (cases "lrs_weights g = []")
    case True
    then show ?thesis by (simp add: lrs_load_def body_def lrs_serialize_def overwrite_append)
  next
    case False
    then show ?thesis using lrs_roundtrip[OF False assms(1)] by (simp add: overwrite_append body_def)
  qed
  show ?thesis
    by (simp add: grad_bytes_def body_def[symmetric] serve_op[where x = SEND_LR_GRADIENT] process_send_lr_gradient_def
        read_message_ok(2)[where r = r, OF _ msg] new load opt_update_version rbind_assoc split_def conn_of_def del: op_code.simps)
qed

section \<open>The data a worker sees\<close>

definition minibatch_at :: "(nat \<Rightarrow> i32 \<Rightarrow> i32 \<Rightarrow> i32) \<Rightarrow> (u64 \<Rightarrow> (sample \<times> f32) list) \<Rightarrow> u64 \<Rightarrow> u64 \<Rightarrow> u64 \<Rightarrow> u64 \<Rightarrow> access \<Rightarrow>
    nat \<Rightarrow> (sample \<times> f32) list" where
  "minibatch_at draw ps l r rows m ra j =
     (let n = unat (rows div m) in chunk (unat m) (ps (object_id draw l r ra (j div n))) (j mod n))"

lemma concat_blocks_nth:
  assumes "j < k * n"
  shows "concat (map (\<lambda>i. map (f i) [0..<n]) [0..<k]) ! j = f (j div n) (j mod n)"
  using assms
proof (induction k)
  case (Suc k)
  have len: "length (concat (map (\<lambda>i. map (f i) [0..<n]) [0..<k])) = k * n" by (induction k) auto
  show ?case
  proof (cases "j < k * n")
    case True
    then show ?thesis using Suc.IH len by (simp add: nth_append)
  next
    case False
    define d where "d = j - k * n"
    have d: "j = d + k * n" "d < n" using False Suc.prems by (auto simp: d_def)
    then have "j div n = k" "j mod n = d" by auto
    then show ?thesis using False len d by (simp add: nth_append)
  qed
qed simp

lemma minibatches_nth:
  assumes "j < length (concat (map (\<lambda>k. minibatches ps rows m (object_id draw l r ra k)) [0..<K]))"
  shows "concat (map (\<lambda>k. minibatches ps rows m (object_id draw l r ra k)) [0..<K]) ! j = minibatch_at draw ps l r rows m ra j"
proof -
  have eq: "minibatches ps rows m oid = map (chunk (unat m) (ps oid)) [0..<unat (rows div m)]" for oid
    by (simp add: minibatches_def chunks_def)
  have "length (concat (map (\<lambda>k. minibatches ps rows m (object_id draw l r ra k)) [0..<K])) = K * unat (rows div m)"
    unfolding eq by (induction K) auto
  then show ?thesis using assms concat_blocks_nth[of j K "unat (rows div m)"]
    by (simp add: eq minibatch_at_def Let_def)
qed

lemma inv_outputs:
  assumes "it_inv draw ps c l r rows m b ra it out blocks"
  shows "out = map (\<lambda>j. mb_dataset b (minibatch_at draw ps l r rows m ra j)) [0..<length out]"
proof (rule nth_equalityI)
  define mbs where "mbs = concat (map (\<lambda>k. minibatches ps rows m (object_id draw l r ra k)) [0..<nat (it_str_version it)])"
  have all: "map (mb_dataset b) mbs = out @ map (mb_dataset b) (pending it blocks)"
    using assms by (simp add: it_inv_def mbs_def)
  fix j assume j: "j < length out"
  then have "j < length mbs" using arg_cong[OF all, of length] by simp
  moreover have "out ! j = map (mb_dataset b) mbs ! j" using j unfolding all by (simp add: nth_append)
  ultimately show "out ! j = map (\<lambda>j. mb_dataset b (minibatch_at draw ps l r rows m ra j)) [0..<length out] ! j"
    using j minibatches_nth[of j ps rows m draw l r ra "nat (it_str_version it)"] by (simp add: mbs_def)
qed simp

text \<open>Every minibatch of the bucket is fit for training.\<close>

definition data_ok :: "configuration \<Rightarrow> (u64 \<Rightarrow> (sample \<times> f32) list) \<Rightarrow> u64 \<Rightarrow> u64 \<Rightarrow> u64 \<Rightarrow> u64 \<Rightarrow> bool" where
  "data_ok c ps l r rows m \<longleftrightarrow> (\<forall>oid. l \<le> oid \<and> oid < r \<longrightarrow>
     (\<forall>k < unat (rows div m). trainable c m (mb_dataset True (chunk (unat m) (ps oid) k))))"

lemma minibatch_trainable:
  assumes "source_ok draw s3 ps l r rows m b Drawn" "data_ok c ps l r rows m"
  shows "trainable c m (mb_dataset True (minibatch_at draw ps l r rows m Drawn j))"
proof -
  have "0 < unat (rows div m)"
    using assms(1) by (auto simp: source_ok_def unat_div div_greater_zero_iff word_le_nat_alt word_less_nat_alt)
  then have "j mod unat (rows div m) < unat (rows div m)" by simp
  then show ?thesis using assms(2) object_id_range[OF assms(1), of "j div unat (rows div m)"]
    by (simp add: data_ok_def minibatch_at_def fetched_def Let_def)
qed

section \<open>Asynchronous gradient descent\<close>

text \<open>
  The specification: a worker computes the gradient of its next minibatch at the weights the model
  has then; its gradients are applied later, one by one and in the order in which it computed them.
\<close>

record sgd_state =
  ss_opt :: opt_method
  ss_model :: sparse_lr_model
  ss_updates :: u64
  ss_inflight :: "nat \<Rightarrow> (i32 \<times> f32) list list"
  ss_taken :: "nat \<Rightarrow> nat"

inductive async_sgd :: "libm \<Rightarrow> (f64 \<Rightarrow> bool) \<Rightarrow> f64 \<Rightarrow> (nat \<Rightarrow> nat \<Rightarrow> sparse_dataset) \<Rightarrow> sgd_state \<Rightarrow> sgd_state \<Rightarrow> bool"
  for lm keep eps data where
    compute: "reference_grad lm keep eps (data i (ss_taken a i)) (served_weights (ss_opt a) (ss_model a)) = Inr g \<Longrightarrow>
      async_sgd lm keep eps data a (a\<lparr>ss_inflight := (ss_inflight a)(i := ss_inflight a i @ [lrs_weights g]),
        ss_taken := (ss_taken a)(i := Suc (ss_taken a i))\<rparr>)"
  | update: "ss_inflight a i = ws # rest \<Longrightarrow>
      opt_sgd_update (LRSparseGradient (lrs_of_vector ws)) (ss_opt a, ss_model a) = Inr (opt, m) \<Longrightarrow>
      async_sgd lm keep eps data a (a\<lparr>ss_opt := opt, ss_model := m, ss_updates := ss_updates a + 1,
        ss_inflight := (ss_inflight a)(i := rest)\<rparr>)"

text \<open>How the states of the system are states of the specification.\<close>

definition stream :: "(nat \<Rightarrow> nat \<Rightarrow> i32 \<Rightarrow> i32 \<Rightarrow> i32) \<Rightarrow> (u64 \<Rightarrow> (sample \<times> f32) list) \<Rightarrow> u64 \<Rightarrow> u64 \<Rightarrow> u64 \<Rightarrow> u64 \<Rightarrow>
    nat \<Rightarrow> nat \<Rightarrow> sparse_dataset" where
  "stream draw ps l r rows m i j = mb_dataset True (minibatch_at (draw i) ps l r rows m Drawn j)"

definition task_rel :: "(nat \<Rightarrow> i32 \<Rightarrow> i32 \<Rightarrow> i32) \<Rightarrow> (u64 \<Rightarrow> (sample \<times> f32) list) \<Rightarrow> configuration \<Rightarrow> u64 \<Rightarrow> u64 \<Rightarrow> u64 \<Rightarrow> u64 \<Rightarrow>
    nat \<Rightarrow> lr_task \<times> lr_sparse_gradient option \<Rightarrow> byte list \<Rightarrow> (i32 \<times> f32) list list \<Rightarrow> nat \<Rightarrow> bool" where
  "task_rel draw ps c l r rows m N x bs wss k \<longleftrightarrow>
     model_ready c m (lt_model (fst x))
     \<and> (\<exists>sent. (\<forall>g\<in>set sent. length (lrs_weights g) < 10000000) \<and> bs = concat (map grad_bytes sent)
          \<and> wss = map lrs_weights (sent @ (case snd x of None \<Rightarrow> [] | Some g \<Rightarrow> [g])))
     \<and> (\<forall>g. snd x = Some g \<longrightarrow> length (lrs_weights g) < 10000000)
     \<and> it_str_version (lt_iter (fst x)) \<le> int N
     \<and> (\<exists>out blocks. it_inv draw ps c l r rows m True Drawn (lt_iter (fst x)) out blocks \<and> length out = k)"

definition sys_rel :: "(nat \<Rightarrow> nat \<Rightarrow> i32 \<Rightarrow> i32 \<Rightarrow> i32) \<Rightarrow> (u64 \<Rightarrow> (sample \<times> f32) list) \<Rightarrow> configuration \<Rightarrow> u64 \<Rightarrow> u64 \<Rightarrow> u64 \<Rightarrow> u64 \<Rightarrow>
    nat \<Rightarrow> lr_system \<Rightarrow> sgd_state \<Rightarrow> bool" where
  "sys_rel draw ps c l r rows m N y a \<longleftrightarrow>
     sv_opt (ls_server y) = ss_opt a \<and> sv_lr (ls_server y) = ss_model a \<and> sv_updates (ls_server y) = ss_updates a
     \<and> model_wf (ss_model a) \<and> 2 ^ unat (cf_model_bits c) \<le> length (lrm_weights (ss_model a))
     \<and> length (ls_sent y) = length (ls_tasks y)
     \<and> (\<forall>i < length (ls_tasks y). task_rel (draw i) ps c l r rows m N (ls_tasks y ! i) (ls_sent y ! i) (ss_inflight a i) (ss_taken a i))"

definition action_ok :: "lr_action \<Rightarrow> bool" where
  "action_ok x = (case x of Prefetch _ \<Rightarrow> True | Compute _ _ w \<Rightarrow> worker_wf w
     | Push _ ks \<Rightarrow> 4 \<le> ks 0 \<and> 4 \<le> ks 1 | Serve _ _ w \<Rightarrow> worker_wf w)"

lemma task_rel_more: "task_rel draw ps c l r rows m N x bs ws k \<Longrightarrow> N \<le> M \<Longrightarrow> task_rel draw ps c l r rows m M x bs ws k"
  by (auto simp: task_rel_def)

lemma sys_rel_more: "sys_rel draw ps c l r rows m N y a \<Longrightarrow> N \<le> M \<Longrightarrow> sys_rel draw ps c l r rows m M y a"
  by (auto simp: sys_rel_def intro: task_rel_more)

lemma sys_rel_set:
  assumes "sys_rel draw ps c l r rows m N y a" "i < length (ls_tasks y)"
    and "task_rel (draw i) ps c l r rows m N x bs (ss_inflight a' i) (ss_taken a' i)"
    and "\<And>j. j \<noteq> i \<Longrightarrow> ss_inflight a' j = ss_inflight a j \<and> ss_taken a' j = ss_taken a j"
    and "sv_opt s = ss_opt a'" "sv_lr s = ss_model a'" "sv_updates s = ss_updates a'"
      "model_wf (ss_model a')" "2 ^ unat (cf_model_bits c) \<le> length (lrm_weights (ss_model a'))"
  shows "sys_rel draw ps c l r rows m N (set_sent i bs (set_task i x (y\<lparr>ls_server := s\<rparr>))) a'"
  using assms by (auto simp: sys_rel_def set_task_def set_sent_def nth_list_update)

lemma sys_rel_task: "sys_rel draw ps c l r rows m N y a \<Longrightarrow> i < length (ls_tasks y) \<Longrightarrow> ls_tasks y ! i = x \<Longrightarrow>
    task_rel (draw i) ps c l r rows m N x (ls_sent y ! i) (ss_inflight a i) (ss_taken a i)"
  by (auto simp: sys_rel_def)

lemma set_same [simp]: "set_sent i (ls_sent y ! i) y = y" "y\<lparr>ls_server := ls_server y\<rparr> = y"
  "ls_tasks (set_sent i bs y) = ls_tasks y" "ls_server (set_sent i bs y) = ls_server y"
  "ls_sent (set_task i x y) = ls_sent y" "ls_server (set_task i x y) = ls_server y"
  "ls_sent (set_sent i bs y) = (ls_sent y)[i := bs]" "ls_tasks (set_task i x y) = (ls_tasks y)[i := x]"
  by (simp_all add: set_sent_def set_task_def)

lemma set_task_same: "set_task i (ls_tasks y ! i) y = y"
  by (simp add: set_task_def)

lemma sys_rel_task_only:
  assumes "sys_rel draw ps c l r rows m N y a" "i < length (ls_tasks y)"
    and "task_rel (draw i) ps c l r rows m N x (ls_sent y ! i) (ss_inflight a' i) (ss_taken a' i)"
    and "\<And>j. j \<noteq> i \<Longrightarrow> ss_inflight a' j = ss_inflight a j \<and> ss_taken a' j = ss_taken a j"
    and "ss_opt a' = ss_opt a" "ss_model a' = ss_model a" "ss_updates a' = ss_updates a"
  shows "sys_rel draw ps c l r rows m N (set_task i x y) a'"
proof -
  have "sys_rel draw ps c l r rows m N (set_sent i (ls_sent (set_task i x y) ! i) (set_task i x (y\<lparr>ls_server := ls_server y\<rparr>))) a'"
    using assms by (intro sys_rel_set[OF assms(1,2)]) (auto simp: sys_rel_def)
  then show ?thesis by (simp add: set_sent_def set_task_def)
qed

text \<open>Each action of a worker, with its result.\<close>

lemma prefetch_step:
  assumes rel: "sys_rel draw ps c l r rows m N y a" and N: "int N < 2 ^ 31 - 1" and i: "i < length (ls_tasks y)"
    and src: "source_ok (draw i) s3 ps l r rows m True Drawn" and t: "ls_tasks y ! i = (t, g)"
  shows "\<exists>it'. lr_step draw s3 lm c ti (Prefetch i) y = Inr (set_task i (t\<lparr>lt_iter := it'\<rparr>, g) y)
    \<and> sys_rel draw ps c l r rows m (Suc N) (set_task i (t\<lparr>lt_iter := it'\<rparr>, g) y) a
    \<and> it_unposted it' + it_semaphore it' \<noteq> 0 \<and> (it_unposted (lt_iter t) + it_semaphore (lt_iter t) \<noteq> 0 \<longrightarrow> it_semaphore it' \<noteq> 0)"
proof -
  note tr = sys_rel_task[OF rel i t]
  then obtain out blocks where inv: "it_inv (draw i) ps c l r rows m True Drawn (lt_iter t) out blocks" "length out = ss_taken a i"
    and v: "it_str_version (lt_iter t) \<le> int N" by (auto simp: task_rel_def)
  have "it_str_version (lt_iter t) < 2 ^ 31 - 1" using v N by simp
  from thread_turn_inv[OF src inv(1) this] obtain it1 b1 where
    it1: "it_turn (draw i) s3 Thread_turn (lt_iter t, out) = Inr (it1, out)"
      "it_inv (draw i) ps c l r rows m True Drawn it1 out b1" "it_str_version it1 \<le> it_str_version (lt_iter t) + 1"
      "it_semaphore (lt_iter t) \<le> it_semaphore it1" "it_unposted it1 + it_semaphore it1 \<noteq> 0"
      "it_unposted (lt_iter t) \<noteq> 0 \<longrightarrow> it_semaphore it1 \<noteq> 0" by blast
  have same: "set_task i (t\<lparr>lt_iter := lt_iter t\<rparr>, g) y = y" using t set_task_same[of i y] by simp
  have step: "lr_step draw s3 lm c ti (Prefetch i) y = Inr (set_task i (t\<lparr>lt_iter := it1\<rparr>, g) y)"
    using it1(1) i t same
    by (cases "thread_step (draw i) s3 (lt_iter t)") (auto simp: vec_get_def unless_blocked_def split: if_splits)
  have "task_rel (draw i) ps c l r rows m (Suc N) (t\<lparr>lt_iter := it1\<rparr>, g) (ls_sent y ! i) (ss_inflight a i) (ss_taken a i)"
    using tr it1(2,3) v inv(2) by (auto simp: task_rel_def)
  moreover have "sys_rel draw ps c l r rows m (Suc N) y a" using rel by (rule sys_rel_more) simp
  ultimately have "sys_rel draw ps c l r rows m (Suc N) (set_task i (t\<lparr>lt_iter := it1\<rparr>, g) y) a"
    using i by (intro sys_rel_task_only) auto
  then show ?thesis using step it1(4-6) by (intro exI[of _ it1]) auto
qed

lemma next_dataset:
  assumes inv: "it_inv (draw i) ps c l r rows m True Drawn it out blocks" and sem: "it_semaphore it \<noteq> 0"
    and conf: "get_minibatch_size c = Inr m"
  shows "\<exists>it' blocks'. get_next it = Inr (stream draw ps l r rows m i (length out), it')
    \<and> it_inv (draw i) ps c l r rows m True Drawn it' (out @ [stream draw ps l r rows m i (length out)]) blocks'
    \<and> it_str_version it' = it_str_version it"
proof -
  obtain ds it' blocks' where n: "get_next it = Inr (ds, it')"
    "it_inv (draw i) ps c l r rows m True Drawn it' (out @ [ds]) blocks'" "it_str_version it' = it_str_version it"
    using inv_next[OF inv _ conf] sem by blast
  have "ds = stream draw ps l r rows m i (length out)"
    using inv_outputs[OF n(2)] by (simp add: stream_def)
  then show ?thesis using n by blast
qed

definition computed :: "nat \<Rightarrow> lr_sparse_gradient \<Rightarrow> sgd_state \<Rightarrow> sgd_state" where
  "computed i g a = a\<lparr>ss_inflight := (ss_inflight a)(i := ss_inflight a i @ [lrs_weights g]),
     ss_taken := (ss_taken a)(i := Suc (ss_taken a i))\<rparr>"

definition applied :: "nat \<Rightarrow> opt_method \<Rightarrow> sparse_lr_model \<Rightarrow> sgd_state \<Rightarrow> sgd_state" where
  "applied i opt x a = a\<lparr>ss_opt := opt, ss_model := x, ss_updates := ss_updates a + 1,
     ss_inflight := (ss_inflight a)(i := tl (ss_inflight a i))\<rparr>"

definition updated :: "opt_method \<Rightarrow> sparse_lr_model \<Rightarrow> server \<Rightarrow> server" where
  "updated opt x s = s\<lparr>sv_opt := opt, sv_lr := x, sv_updates := sv_updates s + 1\<rparr>"

lemma compute_action:
  assumes rel: "sys_rel draw ps c l r rows m N y a" and i: "i < length (ls_tasks y)"
    and src: "source_ok (draw i) s3 ps l r rows m True Drawn" "data_ok c ps l r rows m"
    and conf: "worker_conf c m eps" and w: "worker_wf w"
    and t: "ls_tasks y ! i = (t, None)" "it_semaphore (lt_iter t) \<noteq> 0"
  shows "case reference_grad lm (grad_kept c) eps (stream draw ps l r rows m i (ss_taken a i)) (served_weights (ss_opt a) (ss_model a)) of
      Inl e \<Rightarrow> lr_step draw s3 lm c ti (Compute i now w) y = unless_blocked y (or_exit (Inl e))
    | Inr g \<Rightarrow> \<exists>t' g'. lr_step draw s3 lm c ti (Compute i now w) y = Inr (set_task i (t', Some g') y)
        \<and> sys_rel draw ps c l r rows m N (set_task i (t', Some g') y) (computed i g a) \<and> lt_count t' = lt_count t
        \<and> lrs_weights g' = lrs_weights g"
proof -
  let ?ds = "stream draw ps l r rows m i (ss_taken a i)" and ?s = "ls_server y"
  note tr = sys_rel_task[OF rel i t(1)]
  then obtain out blocks where inv: "it_inv (draw i) ps c l r rows m True Drawn (lt_iter t) out blocks" "length out = ss_taken a i"
    by (auto simp: task_rel_def)
  have mb: "get_minibatch_size c = Inr m" using conf by (simp add: worker_conf_def)
  from next_dataset[of draw i, OF inv(1) t(2) mb] inv(2) obtain it' blocks' where
    n: "get_next (lt_iter t) = Inr (?ds, it')" "it_inv (draw i) ps c l r rows m True Drawn it' (out @ [?ds]) blocks'"
      "it_str_version it' = it_str_version (lt_iter t)" by auto
  have tok: "trainable c m ?ds" using minibatch_trainable[OF src] by (simp add: stream_def)
  have ready: "model_ready c m (lt_model t)" using tr by (simp add: task_rel_def)
  have size: "2 ^ unat (cf_model_bits c) \<le> length (lrm_weights (sv_lr ?s))" using rel by (simp add: sys_rel_def)
  have eq: "sv_opt ?s = ss_opt a" "sv_lr ?s = ss_model a" using rel by (simp_all add: sys_rel_def)
  note comp = compute_step[where lm = lm and now = now, OF conf tok n(1) ready w size, unfolded eq]
  show ?thesis
  proof (cases "reference_grad lm (grad_kept c) eps ?ds (served_weights (ss_opt a) (ss_model a))")
    case (Inl e)
    then show ?thesis using comp i t by (simp add: vec_get_def)
  next
    case (Inr g)
    with comp obtain c1 model c2 w' where k: "lr_compute (answer now w ?s) lm c (conn_of []) t = Inr (g\<lparr>lrs_version := lt_version t\<rparr>, c1,
        t\<lparr>lt_iter := it', lt_model := model, lt_version := lt_version t + 1\<rparr>)"
      "model_ready c m model" "serve now (conn_of (cn_out c1)) w ?s = Inr (c2, w', ?s)" by auto
    define t' g' where "t' = t\<lparr>lt_iter := it', lt_model := model, lt_version := lt_version t + 1\<rparr>"
      and "g' = g\<lparr>lrs_version := lt_version t\<rparr>"
    have step: "lr_step draw s3 lm c ti (Compute i now w) y = Inr (set_task i (t', Some g') y)"
      using i t k by (simp add: vec_get_def unless_blocked_def t'_def g'_def)
    have "length (lrs_weights g) < 10000000"
      using reference_grad_length[OF Inr] tok by (simp add: trainable_def MAX_MSG_SIZE_def)
    then have "task_rel (draw i) ps c l r rows m N (t', Some g') (ls_sent y ! i) (ss_inflight (computed i g a) i) (ss_taken (computed i g a) i)"
      using tr n(2,3) k(2) inv(2) by (auto simp: task_rel_def t'_def g'_def computed_def)
    then have "sys_rel draw ps c l r rows m N (set_task i (t', Some g') y) (computed i g a)"
      using i by (intro sys_rel_task_only[OF rel]) (auto simp: computed_def)
    moreover have "lt_count t' = lt_count t" "lrs_weights g' = lrs_weights g" by (simp_all add: t'_def g'_def)
    ultimately show ?thesis using Inr step by auto
  qed
qed

lemma push_action:
  assumes rel: "sys_rel draw ps c l r rows m N y a" and i: "i < length (ls_tasks y)"
    and ok: "4 \<le> ks 0" "4 \<le> ks 1" and t: "ls_tasks y ! i = (t, Some g)"
    and push: "sint (lt_count t) \<noteq> 2 ^ 31 - 1" "\<not> (0 < sint ti \<and> sint ti < sint (lt_count t + 1))"
  shows "lr_step draw s3 lm c ti (Push i ks) y
      = Inr (set_sent i (ls_sent y ! i @ grad_bytes g) (set_task i (t\<lparr>lt_count := lt_count t + 1\<rparr>, None) y))"
    "sys_rel draw ps c l r rows m N (set_sent i (ls_sent y ! i @ grad_bytes g) (set_task i (t\<lparr>lt_count := lt_count t + 1\<rparr>, None) y)) a"
proof -
  define t' where "t' = t\<lparr>lt_count := lt_count t + 1\<rparr>"
  note tr = sys_rel_task[OF rel i t]
  have g: "length (lrs_weights g) < 10000000" using tr by (auto simp: task_rel_def)
  have len: "length (ls_sent y) = length (ls_tasks y)" using rel by (simp add: sys_rel_def)
  have "lr_push ks ti g (conn_of []) t = Inr ((conn_of [])\<lparr>cn_out := grad_bytes g\<rparr>, t')"
    using send_lr_gradient_sends[OF g ok] push by (auto simp: lr_push_def Let_def t'_def grad_bytes_def)
  then show "lr_step draw s3 lm c ti (Push i ks) y
      = Inr (set_sent i (ls_sent y ! i @ grad_bytes g) (set_task i (t\<lparr>lt_count := lt_count t + 1\<rparr>, None) y))"
    using i t len by (simp add: vec_get_def t'_def)
  obtain sent where sent: "\<forall>g\<in>set sent. length (lrs_weights g) < 10000000" "ls_sent y ! i = concat (map grad_bytes sent)"
    "ss_inflight a i = map lrs_weights (sent @ [g])" using tr by (auto simp: task_rel_def)
  have "\<exists>sent'. (\<forall>g\<in>set sent'. length (lrs_weights g) < 10000000) \<and> ls_sent y ! i @ grad_bytes g = concat (map grad_bytes sent')
      \<and> ss_inflight a i = map lrs_weights (sent' @ [])" using sent g by (intro exI[of _ "sent @ [g]"]) auto
  then have "task_rel (draw i) ps c l r rows m N (t', None) (ls_sent y ! i @ grad_bytes g) (ss_inflight a i) (ss_taken a i)"
    using tr unfolding task_rel_def by (auto simp: t'_def)
  then have "sys_rel draw ps c l r rows m N (set_sent i (ls_sent y ! i @ grad_bytes g) (set_task i (t', None) (y\<lparr>ls_server := ls_server y\<rparr>))) a"
    using rel i by (intro sys_rel_set[OF rel]) (auto simp: sys_rel_def)
  then show "sys_rel draw ps c l r rows m N (set_sent i (ls_sent y ! i @ grad_bytes g) (set_task i (t\<lparr>lt_count := lt_count t + 1\<rparr>, None) y)) a"
    by (simp add: t'_def)
qed

lemma serve_action:
  assumes rel: "sys_rel draw ps c l r rows m N y a" and i: "i < length (ls_tasks y)"
    and w: "worker_wf w" and ne: "ls_sent y ! i \<noteq> []"
  obtains ws rest bs where "ss_inflight a i = ws # rest"
    "case (if ws = [] then Inl Assertion_failed
        else opt_sgd_update (LRSparseGradient (lrs_of_vector ws)) (ss_opt a, ss_model a)) of
      Inl e \<Rightarrow> lr_step draw s3 lm c ti (Serve i now w) y = Inl e
    | Inr (opt, x) \<Rightarrow> lr_step draw s3 lm c ti (Serve i now w) y = Inr (set_sent i bs (y\<lparr>ls_server := updated opt x (ls_server y)\<rparr>))
        \<and> sys_rel draw ps c l r rows m N (set_sent i bs (y\<lparr>ls_server := updated opt x (ls_server y)\<rparr>)) (applied i opt x a)"
proof -
  let ?s = "ls_server y"
  obtain t h where t: "ls_tasks y ! i = (t, h)" by fastforce
  note tr = sys_rel_task[OF rel i t]
  obtain sent where sent: "\<forall>g\<in>set sent. length (lrs_weights g) < 10000000" "ls_sent y ! i = concat (map grad_bytes sent)"
    "ss_inflight a i = map lrs_weights (sent @ (case h of None \<Rightarrow> [] | Some g \<Rightarrow> [g]))" using tr by (auto simp: task_rel_def)
  then obtain g sent' where g: "sent = g # sent'" using ne by (cases sent) auto
  define bs where "bs = concat (map grad_bytes sent')"
  define rest where "rest = map lrs_weights (sent' @ (case h of None \<Rightarrow> [] | Some g \<Rightarrow> [g]))"
  have len: "length (ls_sent y) = length (ls_tasks y)" using rel by (simp add: sys_rel_def)
  have eq: "sv_opt ?s = ss_opt a" "sv_lr ?s = ss_model a" using rel by (simp_all add: sys_rel_def)
  have infl: "ss_inflight a i = lrs_weights g # rest" using sent(3) by (simp add: g rest_def)
  have small: "length (lrs_weights g) < 10000000" using sent(1) by (simp add: g)
  have same: "opt_sgd_update (LRSparseGradient (lrs_of_vector (lrs_weights g))) = opt_sgd_update (LRSparseGradient g)"
    by (rule ext) (simp add: opt_sgd_update_def as_sparse_gradient_def lrs_of_vector_def)
  have bytes: "ls_sent y ! i = grad_bytes g @ bs" using sent(2) by (simp add: g bs_def)
  note sg = serve_gradient[OF small w, of now bs ?s, unfolded eq]
  have ci: "cn_in (conn_of bs) = bs" by (simp add: conn_of_def)
  have "case (if lrs_weights g = [] then Inl Assertion_failed
        else opt_sgd_update (LRSparseGradient (lrs_of_vector (lrs_weights g))) (ss_opt a, ss_model a)) of
      Inl e \<Rightarrow> lr_step draw s3 lm c ti (Serve i now w) y = Inl e
    | Inr (opt, x) \<Rightarrow> lr_step draw s3 lm c ti (Serve i now w) y = Inr (set_sent i bs (y\<lparr>ls_server := updated opt x (ls_server y)\<rparr>))
        \<and> sys_rel draw ps c l r rows m N (set_sent i bs (y\<lparr>ls_server := updated opt x (ls_server y)\<rparr>)) (applied i opt x a)"
  proof (cases "lrs_weights g = []")
    case True
    then show ?thesis using i sg by (simp add: vec_get_def len bytes)
  next
    case nonempty: False
    show ?thesis
    proof (cases "opt_sgd_update (LRSparseGradient g) (ss_opt a, ss_model a)")
      case (Inl e)
      then show ?thesis using nonempty i sg by (simp add: vec_get_def len bytes same)
    next
      case (Inr z)
      obtain opt x where z: "z = (opt, x)" by fastforce
      have shape: "model_wf x" "length (lrm_weights x) = length (lrm_weights (ss_model a))"
        using opt_sgd_update_shape[OF _ Inr[unfolded z]] rel by (auto simp: sys_rel_def)
      have step: "lr_step draw s3 lm c ti (Serve i now w) y = Inr (set_sent i bs (y\<lparr>ls_server := updated opt x ?s\<rparr>))"
        using nonempty i sg Inr z ci by (simp add: vec_get_def len bytes updated_def)
      have tr': "task_rel (draw i) ps c l r rows m N (ls_tasks y ! i) bs (ss_inflight (applied i opt x a) i) (ss_taken (applied i opt x a) i)"
        using tr sent(1) unfolding t by (auto simp: task_rel_def applied_def infl rest_def bs_def g)
      have "sys_rel draw ps c l r rows m N (set_sent i bs (set_task i (ls_tasks y ! i) (y\<lparr>ls_server := updated opt x ?s\<rparr>))) (applied i opt x a)"
        using rel shape by (intro sys_rel_set[OF rel i tr']) (auto simp: sys_rel_def applied_def updated_def)
      moreover have "set_task i (ls_tasks y ! i) (y\<lparr>ls_server := updated opt x ?s\<rparr>) = y\<lparr>ls_server := updated opt x ?s\<rparr>"
        by (simp add: set_task_def)
      ultimately show ?thesis using nonempty Inr z step by (simp add: same)
    qed
  qed
  then show ?thesis using that infl by blast
qed

section \<open>Runs of the system\<close>

definition lr_run :: "(nat \<Rightarrow> nat \<Rightarrow> i32 \<Rightarrow> i32 \<Rightarrow> i32) \<Rightarrow> (u64 \<Rightarrow> byte list) \<Rightarrow> libm \<Rightarrow> configuration \<Rightarrow> i32 \<Rightarrow>
    lr_action list \<Rightarrow> lr_system \<Rightarrow> lr_system res" where
  "lr_run draw s3 lm c ti = rfold (lr_step draw s3 lm c ti)"

text \<open>What an action is for the specification: nothing, the gradient of a worker, or an update.\<close>

definition sgd_nothing :: "lr_system \<Rightarrow> lr_system \<Rightarrow> sgd_state \<Rightarrow> sgd_state \<Rightarrow> bool" where
  "sgd_nothing y y' a a' \<longleftrightarrow> a' = a \<and> ls_server y' = ls_server y"

definition sgd_compute :: "libm \<Rightarrow> (f64 \<Rightarrow> bool) \<Rightarrow> f64 \<Rightarrow> (nat \<Rightarrow> nat \<Rightarrow> sparse_dataset) \<Rightarrow> lr_action \<Rightarrow> lr_system \<Rightarrow> lr_system \<Rightarrow>
    sgd_state \<Rightarrow> sgd_state \<Rightarrow> bool" where
  "sgd_compute lm keep eps data x y y' a a' \<longleftrightarrow> (\<exists>i g now w. x = Compute i now w \<and> i < length (ls_tasks y) \<and> snd (ls_tasks y ! i) = None
     \<and> reference_grad lm keep eps (data i (ss_taken a i)) (served_weights (ss_opt a) (ss_model a)) = Inr g
     \<and> a' = computed i g a \<and> ls_server y' = ls_server y)"

definition sgd_update :: "lr_system \<Rightarrow> lr_system \<Rightarrow> sgd_state \<Rightarrow> sgd_state \<Rightarrow> bool" where
  "sgd_update y y' a a' \<longleftrightarrow> (\<exists>i ws rest opt z. i < length (ls_tasks y) \<and> ss_inflight a i = ws # rest \<and> ws \<noteq> []
     \<and> opt_sgd_update (LRSparseGradient (lrs_of_vector ws)) (ss_opt a, ss_model a) = Inr (opt, z)
     \<and> a' = applied i opt z a \<and> ls_server y' = updated opt z (ls_server y))"

lemma sgd_moves:
  assumes "sgd_nothing y y' a a' \<or> sgd_compute lm keep eps data x y y' a a' \<or> sgd_update y y' a a'"
  shows "(async_sgd lm keep eps data)\<^sup>*\<^sup>* a a'"
proof -
  have "a' = a \<or> async_sgd lm keep eps data a a'"
    using assms async_sgd.compute[of lm keep eps data _ a] async_sgd.update[of a _ _ _ _ _ lm keep eps data]
    unfolding sgd_nothing_def sgd_compute_def sgd_update_def by (auto simp: computed_def applied_def)
  then show ?thesis by auto
qed

lemma lr_step_sim:
  assumes rel: "sys_rel draw ps c l r rows m N y a" and N: "int N < 2 ^ 31 - 1"
    and src: "\<forall>i. source_ok (draw i) s3 ps l r rows m True Drawn" "data_ok c ps l r rows m"
    and conf: "worker_conf c m eps" and ok: "action_ok x" and step: "lr_step draw s3 lm c ti x y = Inr y'"
  shows "\<exists>a'. sys_rel draw ps c l r rows m (Suc N) y' a' \<and> length (ls_tasks y') = length (ls_tasks y)
    \<and> (sgd_nothing y y' a a' \<or> sgd_compute lm (grad_kept c) eps (stream draw ps l r rows m) x y y' a a' \<or> sgd_update y y' a a')"
proof -
  have more: "sys_rel draw ps c l r rows m (Suc N) y a" using rel by (rule sys_rel_more) simp
  have same: ?thesis if "y' = y" using more that by (intro exI[of _ a]) (simp add: sgd_nothing_def)
  show ?thesis
  proof (cases x)
    case (Prefetch i)
    have i: "i < length (ls_tasks y)" using step Prefetch by auto
    obtain t g where t: "ls_tasks y ! i = (t, g)" by fastforce
    from prefetch_step[OF rel N i src(1)[rule_format] t] step Prefetch show ?thesis
      by (intro exI[of _ a]) (auto simp: sgd_nothing_def)
  next
    case (Compute i now w)
    have i: "i < length (ls_tasks y)" using step Compute by auto
    have w: "worker_wf w" using ok Compute by (simp add: action_ok_def)
    obtain t g0 where t: "ls_tasks y ! i = (t, g0)" by fastforce
    show ?thesis
    proof (cases "g0 = None \<and> it_semaphore (lt_iter t) \<noteq> 0")
      case False
      then have "y' = y" using step i t Compute
        by (auto simp: vec_get_def lr_compute_def get_next_def erase_used_def unless_blocked_def split: option.splits if_splits)
      then show ?thesis by (rule same)
    next
      case True
      then have t': "ls_tasks y ! i = (t, None)" "it_semaphore (lt_iter t) \<noteq> 0" using t by auto
      note comp = compute_action[where lm = lm and now = now and ti = ti, OF more i src(1)[rule_format] src(2) conf w t']
      show ?thesis
      proof (cases "reference_grad lm (grad_kept c) eps (stream draw ps l r rows m i (ss_taken a i)) (served_weights (ss_opt a) (ss_model a))")
        case (Inl e)
        then have "unless_blocked y (or_exit (Inl e)) = Inr y'" using comp step Compute by simp
        then have "y' = y" by (cases e) (auto simp: unless_blocked_def or_exit_def)
        then show ?thesis by (rule same)
      next
        case (Inr g)
        then obtain t1 g1 where 1: "y' = set_task i (t1, Some g1) y" "sys_rel draw ps c l r rows m (Suc N) y' (computed i g a)"
          using comp step Compute by (auto simp del: lr_step.simps)
        then have "sgd_compute lm (grad_kept c) eps (stream draw ps l r rows m) x y y' a (computed i g a)"
          using Inr i t' Compute by (auto simp: sgd_compute_def)
        then show ?thesis using 1 by (intro exI[of _ "computed i g a"]) simp
      qed
    qed
  next
    case (Push i ks)
    have i: "i < length (ls_tasks y)" using step Push by auto
    have ok: "4 \<le> ks 0" "4 \<le> ks 1" using ok Push by (auto simp: action_ok_def)
    obtain t g0 where t: "ls_tasks y ! i = (t, g0)" by fastforce
    show ?thesis
    proof (cases g0)
      case None
      then have "y' = y" using step i t Push by (simp add: vec_get_def)
      then show ?thesis by (rule same)
    next
      case (Some g)
      have "sint (lt_count t) \<noteq> 2 ^ 31 - 1" "\<not> (0 < sint ti \<and> sint ti < sint (lt_count t + 1))"
        using step i t Push Some by (auto simp: vec_get_def lr_push_def Let_def split: if_splits)
      note push = push_action[OF more i ok t[unfolded Some] this]
      show ?thesis using push step Push by (intro exI[of _ a]) (auto simp: sgd_nothing_def simp del: lr_step.simps)
    qed
  next
    case (Serve i now w)
    have len: "length (ls_sent y) = length (ls_tasks y)" using rel by (simp add: sys_rel_def)
    have i: "i < length (ls_tasks y)" using step Serve len by auto
    have w: "worker_wf w" using ok Serve by (simp add: action_ok_def)
    show ?thesis
    proof (cases "ls_sent y ! i = []")
      case True
      then have "y' = y" using step i len Serve by (simp add: vec_get_def)
      then show ?thesis by (rule same)
    next
      case False
      from serve_action[where now = now and ?s3.0 = s3 and lm = lm and ti = ti, OF more i w False] obtain ws rest bs where
        1: "ss_inflight a i = ws # rest" and
        2: "case (if ws = [] then Inl Assertion_failed
            else opt_sgd_update (LRSparseGradient (lrs_of_vector ws)) (ss_opt a, ss_model a)) of
          Inl e \<Rightarrow> lr_step draw s3 lm c ti (Serve i now w) y = Inl e
        | Inr (opt, x) \<Rightarrow> lr_step draw s3 lm c ti (Serve i now w) y = Inr (set_sent i bs (y\<lparr>ls_server := updated opt x (ls_server y)\<rparr>))
            \<and> sys_rel draw ps c l r rows m (Suc N) (set_sent i bs (y\<lparr>ls_server := updated opt x (ls_server y)\<rparr>)) (applied i opt x a)"
        by blast
      then obtain opt z where u: "ws \<noteq> []" "opt_sgd_update (LRSparseGradient (lrs_of_vector ws)) (ss_opt a, ss_model a) = Inr (opt, z)"
        "y' = set_sent i bs (y\<lparr>ls_server := updated opt z (ls_server y)\<rparr>)" "sys_rel draw ps c l r rows m (Suc N) y' (applied i opt z a)"
        using step Serve by (auto simp del: lr_step.simps split: sum.splits if_splits)
      then have "sgd_update y y' a (applied i opt z a)" unfolding sgd_update_def using 1 i by auto
      then show ?thesis using u(3,4) by (intro exI[of _ "applied i opt z a"]) simp
    qed
  qed
qed

lemma lr_run_sim:
  assumes src: "\<forall>i. source_ok (draw i) s3 ps l r rows m True Drawn" "data_ok c ps l r rows m"
    and conf: "worker_conf c m eps" and "\<forall>x\<in>set acts. action_ok x" "lr_run draw s3 lm c ti acts y = Inr y'"
    and "sys_rel draw ps c l r rows m N y a" "int N + int (length acts) < 2 ^ 31"
  shows "\<exists>a'. (async_sgd lm (grad_kept c) eps (stream draw ps l r rows m))\<^sup>*\<^sup>* a a'
    \<and> sys_rel draw ps c l r rows m (N + length acts) y' a'"
  using assms(4-)
proof (induction acts arbitrary: y a N)
  case Nil
  then show ?case by (auto simp: lr_run_def)
next
  case (Cons x acts)
  obtain y1 where y1: "lr_step draw s3 lm c ti x y = Inr y1" "lr_run draw s3 lm c ti acts y1 = Inr y'"
    using Cons.prems(2) by (auto simp: lr_run_def)
  have N: "int N < 2 ^ 31 - 1" "int (Suc N) + int (length acts) < 2 ^ 31" using Cons.prems(4) by auto
  obtain a1 where a1: "(async_sgd lm (grad_kept c) eps (stream draw ps l r rows m))\<^sup>*\<^sup>* a a1" "sys_rel draw ps c l r rows m (Suc N) y1 a1"
    using lr_step_sim[OF Cons.prems(3) N(1) src conf _ y1(1)] Cons.prems(1) sgd_moves by (metis list.set_intros(1))
  from Cons.IH[OF _ y1(2) a1(2) N(2)] Cons.prems(1) obtain a' where
    "(async_sgd lm (grad_kept c) eps (stream draw ps l r rows m))\<^sup>*\<^sup>* a1 a'" "sys_rel draw ps c l r rows m (Suc N + length acts) y' a'" by auto
  then show ?case using a1(1) rtranclp_trans by fastforce
qed

text \<open>
  The system at the start: a server with a model that has at least the configured size (the driver
  makes it one weight larger), and workers whose threads may already have taken turns (\<open>early\<close>).
\<close>

definition sgd_start :: "server \<Rightarrow> sgd_state" where
  "sgd_start s = \<lparr>ss_opt = sv_opt s, ss_model = sv_lr s, ss_updates = sv_updates s,
     ss_inflight = \<lambda>_. [], ss_taken = \<lambda>_. 0\<rparr>"

definition lr_system_start :: "server \<Rightarrow> lr_task list \<Rightarrow> lr_system" where
  "lr_system_start s ts = \<lparr>ls_server = s, ls_tasks = map (\<lambda>t. (t, None)) ts, ls_sent = map (\<lambda>_. []) ts\<rparr>"

definition setup_ok :: "configuration \<Rightarrow> u64 \<Rightarrow> u64 \<Rightarrow> u64 \<Rightarrow> u64 \<Rightarrow> f64 \<Rightarrow> server \<Rightarrow> bool" where
  "setup_ok c l r rows m eps s \<longleftrightarrow> worker_conf c m eps \<and> get_s3_size c = Inr rows
     \<and> l = scast (fst (cf_train_set_range c)) \<and> r = scast (snd (cf_train_set_range c))
     \<and> model_wf (sv_lr s) \<and> 2 ^ unat (cf_model_bits c) \<le> length (lrm_weights (sv_lr s))"

definition tasks_new :: "(nat \<Rightarrow> nat \<Rightarrow> i32 \<Rightarrow> i32 \<Rightarrow> i32) \<Rightarrow> (u64 \<Rightarrow> byte list) \<Rightarrow> configuration \<Rightarrow> lr_task list \<Rightarrow> bool" where
  "tasks_new draw s3 c ts \<longleftrightarrow> (\<forall>i < length ts. \<exists>early. lr_task_new (draw i) s3 early c = Inr (ts ! i))"

lemma start_rel:
  assumes "setup_ok c l r rows m eps s" "tasks_new draw s3 c ts" "\<forall>i. source_ok (draw i) s3 ps l r rows m True Drawn"
  shows "sys_rel draw ps c l r rows m 1 (lr_system_start s ts) (sgd_start s)"
proof -
  have c: "get_s3_size c = Inr rows" "get_minibatch_size c = Inr m" using assms(1) by (auto simp: setup_ok_def worker_conf_def)
  have "task_rel (draw i) ps c l r rows m 1 (ts ! i, None) [] [] 0" if i: "i < length ts" for i
  proof -
    obtain early t where new: "lr_task_new (draw i) s3 early c = Inr t" "ts ! i = t" using assms(2) i by (auto simp: tasks_new_def)
    from new(1) assms(1) c have it: "it_new (draw i) s3 early l r c rows m True True True = Inr (lt_iter t)"
      and t: "lrm_part3 (lt_model t) = []" "lrm_part2 (lt_model t) = []"
      by (auto simp: lr_task_new_def setup_ok_def lrm_new_def)
    have so: "source_ok (draw i) s3 ps l r rows m True (access_of True early)" using assms(3) by simp
    from inv_start[OF so it] show ?thesis unfolding new(2) using t by (auto simp: task_rel_def model_ready_def)
  qed
  then show ?thesis using assms(1)
    by (auto simp: sys_rel_def lr_system_start_def sgd_start_def setup_ok_def)
qed

section \<open>One worker that trains alone\<close>

text \<open>A turn of the loop, and the step of gradient descent it makes; the server does not survive an empty gradient.\<close>

definition lr_round :: "int \<Rightarrow> worker \<Rightarrow> (nat \<Rightarrow> nat) \<Rightarrow> lr_action list" where
  "lr_round now w ks = [Prefetch 0, Prefetch 0, Compute 0 now w, Push 0 ks, Serve 0 now w]"

definition sgd_round :: "libm \<Rightarrow> (f64 \<Rightarrow> bool) \<Rightarrow> f64 \<Rightarrow> sparse_dataset \<Rightarrow> opt_method \<times> sparse_lr_model \<Rightarrow>
    (opt_method \<times> sparse_lr_model) res" where
  "sgd_round lm keep eps ds = (\<lambda>(opt, x).
     rbind (reference_grad lm keep eps ds (served_weights opt x)) (\<lambda>g.
       if lrs_weights g = [] then Inl Assertion_failed
       else opt_sgd_update (LRSparseGradient (lrs_of_vector (lrs_weights g))) (opt, x)))"

text \<open>The state between two rounds.\<close>

definition alone :: "lr_system \<Rightarrow> sgd_state \<Rightarrow> nat \<Rightarrow> bool" where
  "alone y a j \<longleftrightarrow> (\<exists>t. ls_tasks y = [(t, None)] \<and> ls_sent y = [[]] \<and> sint (lt_count t) = int j \<and> ss_taken a 0 = j)"

lemma round_ok:
  assumes rel: "sys_rel draw ps c l r rows m N y a" and N: "int N < 2 ^ 31 - 4" and al: "alone y a j"
    and src: "\<forall>i. source_ok (draw i) s3 ps l r rows m True Drawn" "data_ok c ps l r rows m"
    and conf: "worker_conf c m eps" and w: "worker_wf w" "4 \<le> ks 0" "4 \<le> ks 1"
    and iters: "int j < 2 ^ 31 - 1" "sint ti \<le> 0 \<or> int j < sint ti"
    and spec: "sgd_round lm (grad_kept c) eps (stream draw ps l r rows m 0 j) (ss_opt a, ss_model a) = Inr (opt, x)"
  shows "\<exists>y' a'. lr_run draw s3 lm c ti (lr_round now w ks) y = Inr y' \<and> sys_rel draw ps c l r rows m (N + 2) y' a'
    \<and> alone y' a' (Suc j) \<and> ls_server y' = updated opt x (ls_server y)"
proof -
  obtain t where t: "ls_tasks y = [(t, None)]" "ls_sent y = [[]]" "sint (lt_count t) = int j" "ss_taken a 0 = j"
    using al by (auto simp: alone_def)
  have i0: "0 < length (ls_tasks y)" "ls_tasks y ! 0 = (t, None)" using t(1) by auto
  have N0: "int N < 2 ^ 31 - 1" "int (Suc N) < 2 ^ 31 - 1" using N by auto
  from prefetch_step[where lm = lm and c = c and ti = ti, OF rel N0(1) i0(1) src(1)[rule_format] i0(2)] obtain it1 where
    1: "lr_step draw s3 lm c ti (Prefetch 0) y = Inr (set_task 0 (t\<lparr>lt_iter := it1\<rparr>, None) y)"
      "sys_rel draw ps c l r rows m (Suc N) (set_task 0 (t\<lparr>lt_iter := it1\<rparr>, None) y) a"
      "it_unposted it1 + it_semaphore it1 \<noteq> 0" by blast
  define y1 t1 where "y1 = set_task 0 (t\<lparr>lt_iter := it1\<rparr>, None) y" and "t1 = t\<lparr>lt_iter := it1\<rparr>"
  have y1: "0 < length (ls_tasks y1)" "ls_tasks y1 ! 0 = (t1, None)" using t(1) by (auto simp: y1_def t1_def)
  from prefetch_step[where lm = lm and c = c and ti = ti, OF 1(2)[folded y1_def] N0(2) y1(1) src(1)[rule_format] y1(2)] 1(3) obtain it2 where
    2: "lr_step draw s3 lm c ti (Prefetch 0) y1 = Inr (set_task 0 (t1\<lparr>lt_iter := it2\<rparr>, None) y1)"
      "sys_rel draw ps c l r rows m (Suc (Suc N)) (set_task 0 (t1\<lparr>lt_iter := it2\<rparr>, None) y1) a"
      "it_semaphore it2 \<noteq> 0" by (auto simp: t1_def)
  define y2 t2 where "y2 = set_task 0 (t1\<lparr>lt_iter := it2\<rparr>, None) y1" and "t2 = t1\<lparr>lt_iter := it2\<rparr>"
  have y2: "0 < length (ls_tasks y2)" "ls_tasks y2 ! 0 = (t2, None)" "it_semaphore (lt_iter t2) \<noteq> 0"
    using t(1) 2(3) by (auto simp: y2_def y1_def t2_def)
  obtain g where g: "reference_grad lm (grad_kept c) eps (stream draw ps l r rows m 0 j) (served_weights (ss_opt a) (ss_model a)) = Inr g"
    "lrs_weights g \<noteq> []" "opt_sgd_update (LRSparseGradient (lrs_of_vector (lrs_weights g))) (ss_opt a, ss_model a) = Inr (opt, x)"
    using spec by (auto simp: sgd_round_def split: if_splits)
  from compute_action[where lm = lm and now = now and ti = ti, OF 2(2)[folded y2_def] y2(1) src(1)[rule_format] src(2) conf w(1) y2(2,3)]
  obtain t3 g3 where
    3: "lr_step draw s3 lm c ti (Compute 0 now w) y2 = Inr (set_task 0 (t3, Some g3) y2)"
      "sys_rel draw ps c l r rows m (Suc (Suc N)) (set_task 0 (t3, Some g3) y2) (computed 0 g a)" "lt_count t3 = lt_count t2"
      "lrs_weights g3 = lrs_weights g"
    using t(4) g(1) by (auto simp del: lr_step.simps)
  define y3 where "y3 = set_task 0 (t3, Some g3) y2"
  have y3: "0 < length (ls_tasks y3)" "ls_tasks y3 ! 0 = (t3, Some g3)" "ls_tasks y3 = [(t3, Some g3)]" "ls_sent y3 = [[]]"
    using t(1,2) by (auto simp: y3_def y2_def y1_def)
  have cnt: "sint (lt_count t3) = int j" using 3(3) t(3) by (simp add: t2_def t1_def)
  have cnt': "sint (lt_count t3 + 1) = int (Suc j)" using sint_incr[OF cnt] iters(1) by simp
  have "sint (lt_count t3) \<noteq> 2 ^ 31 - 1" "\<not> (0 < sint ti \<and> sint ti < sint (lt_count t3 + 1))"
    using cnt cnt' iters by auto
  note 4 = push_action[OF 3(2)[folded y3_def] y3(1) w(2,3) y3(2) this]
  define t4 y4 where "t4 = t3\<lparr>lt_count := lt_count t3 + 1\<rparr>"
    and "y4 = set_sent 0 (ls_sent y3 ! 0 @ grad_bytes g3) (set_task 0 (t4, None) y3)"
  note 4 = 4[folded t4_def, folded y4_def]
  have y4: "0 < length (ls_tasks y4)" "ls_tasks y4 = [(t4, None)]" "ls_sent y4 = [grad_bytes g3]" "ls_server y4 = ls_server y"
    using y3(3,4) by (auto simp: y4_def y3_def y2_def y1_def)
  then have "ls_sent y4 ! 0 \<noteq> []" by simp
  from serve_action[where now = now and ?s3.0 = s3 and lm = lm and ti = ti, OF 4(2) y4(1) w(1) this] obtain ws rest bs where
    5: "ss_inflight (computed 0 g a) 0 = ws # rest" and
    6: "case (if ws = [] then Inl Assertion_failed
        else opt_sgd_update (LRSparseGradient (lrs_of_vector ws)) (ss_opt (computed 0 g a), ss_model (computed 0 g a))) of
      Inl e \<Rightarrow> lr_step draw s3 lm c ti (Serve 0 now w) y4 = Inl e
    | Inr (opt, x) \<Rightarrow> lr_step draw s3 lm c ti (Serve 0 now w) y4 = Inr (set_sent 0 bs (y4\<lparr>ls_server := updated opt x (ls_server y4)\<rparr>))
        \<and> sys_rel draw ps c l r rows m (Suc (Suc N)) (set_sent 0 bs (y4\<lparr>ls_server := updated opt x (ls_server y4)\<rparr>)) (applied 0 opt x (computed 0 g a))"
    by blast
  have a0: "ss_inflight a 0 = []" using sys_rel_task[OF rel i0] t(2) by (auto simp: task_rel_def)
  then have ws: "ws = lrs_weights g" "rest = []" using 5 by (auto simp: computed_def)
  define y5 where "y5 = set_sent 0 bs (y4\<lparr>ls_server := updated opt x (ls_server y4)\<rparr>)"
  have 7: "lr_step draw s3 lm c ti (Serve 0 now w) y4 = Inr y5" "sys_rel draw ps c l r rows m (Suc (Suc N)) y5 (applied 0 opt x (computed 0 g a))"
    using 6 g(2,3) by (simp_all add: ws computed_def y5_def)
  have y5: "ls_tasks y5 = [(t4, None)]" "ls_sent y5 = [bs]" using y4 by (auto simp: y5_def)
  have "ss_inflight (applied 0 opt x (computed 0 g a)) 0 = []" using a0 by (simp add: applied_def computed_def)
  then have "bs = []" using sys_rel_task[OF 7(2), of 0 "(t4, None)"] y5 by (auto simp: task_rel_def)
  then have "alone y5 (applied 0 opt x (computed 0 g a)) (Suc j)"
    using cnt' t(4) y5 by (auto simp: alone_def t4_def applied_def computed_def)
  moreover have "lr_run draw s3 lm c ti (lr_round now w ks) y = Inr y5"
    using 1(1) 2(1) 3(1) 4(1) 7(1)
    by (simp add: lr_run_def lr_round_def y1_def[symmetric] y2_def[symmetric] y3_def[symmetric] y4_def[symmetric] del: lr_step.simps)
  moreover have "ls_server y5 = updated opt x (ls_server y)" using y4(4) by (simp add: y5_def)
  ultimately show ?thesis using 7(2) by auto
qed

lemma rounds_ok:
  assumes sys: "setup_ok c l r rows m eps s" and task: "lr_task_new (draw 0) s3 early c = Inr t"
    and src: "\<forall>i. source_ok (draw i) s3 ps l r rows m True Drawn" "data_ok c ps l r rows m"
    and w: "worker_wf w" "4 \<le> ks 0" "4 \<le> ks 1"
    and turns: "k < 1000000000" "sint ti \<le> 0 \<or> int k \<le> sint ti"
    and spec: "rfold (sgd_round lm (grad_kept c) eps) (map (stream draw ps l r rows m 0) [0..<k]) (sv_opt s, sv_lr s) = Inr (opt, x)"
  shows "\<exists>y a. lr_run draw s3 lm c ti (concat (replicate k (lr_round now w ks))) (lr_system_start s [t]) = Inr y
    \<and> ls_server y = s\<lparr>sv_opt := opt, sv_lr := x, sv_updates := sv_updates s + word_of_nat k\<rparr>
    \<and> sys_rel draw ps c l r rows m (2 * k + 1) y a \<and> alone y a k"
proof -
  have conf: "worker_conf c m eps" using sys by (simp add: setup_ok_def)
  have t0: "lt_count t = 0" using task by (auto simp: lr_task_new_def)
  have new: "tasks_new draw s3 c [t]" using task by (auto simp: tasks_new_def)
  show ?thesis
    using turns spec
  proof (induction k arbitrary: opt x)
    case 0
    then show ?case using start_rel[OF sys new src(1)] t0
      by (auto simp: lr_run_def lr_system_start_def sgd_start_def alone_def)
  next
    case (Suc k)
    then obtain opt1 x1 where 1: "rfold (sgd_round lm (grad_kept c) eps) (map (stream draw ps l r rows m 0) [0..<k]) (sv_opt s, sv_lr s) = Inr (opt1, x1)"
      "sgd_round lm (grad_kept c) eps (stream draw ps l r rows m 0 k) (opt1, x1) = Inr (opt, x)" by (auto simp: rfold_append)
    have "k < 1000000000" "sint ti \<le> 0 \<or> int k \<le> sint ti" using Suc.prems(1,2) by auto
    from Suc.IH[OF this 1(1)] obtain y a where
      2: "lr_run draw s3 lm c ti (concat (replicate k (lr_round now w ks))) (lr_system_start s [t]) = Inr y"
        "ls_server y = s\<lparr>sv_opt := opt1, sv_lr := x1, sv_updates := sv_updates s + word_of_nat k\<rparr>"
        "sys_rel draw ps c l r rows m (2 * k + 1) y a" "alone y a k" by blast
    have sa: "ss_opt a = opt1" "ss_model a = x1" using 2(2,3) by (auto simp: sys_rel_def)
    have "int (2 * k + 1) < 2 ^ 31 - 4" "int k < 2 ^ 31 - 1" "sint ti \<le> 0 \<or> int k < sint ti" using Suc.prems(1,2) by auto
    from round_ok[where ks = ks, OF 2(3) this(1) 2(4) src conf w this(2,3), of lm opt x now] 1(2) sa obtain y' a' where
      3: "lr_run draw s3 lm c ti (lr_round now w ks) y = Inr y'" "sys_rel draw ps c l r rows m (2 * k + 1 + 2) y' a'"
        "alone y' a' (Suc k)" "ls_server y' = updated opt x (ls_server y)" by auto
    have "concat (replicate (Suc k) (lr_round now w ks)) = concat (replicate k (lr_round now w ks)) @ lr_round now w ks"
      by (simp flip: replicate_append_same)
    then have "lr_run draw s3 lm c ti (concat (replicate (Suc k) (lr_round now w ks))) (lr_system_start s [t]) = Inr y'"
      using 2(1) 3(1) by (simp add: lr_run_def rfold_append)
    moreover have "ls_server y' = s\<lparr>sv_opt := opt, sv_lr := x, sv_updates := sv_updates s + word_of_nat (Suc k)\<rparr>"
      using 2(2) 3(4) by (simp add: updated_def algebra_simps)
    moreover have "2 * Suc k + 1 = 2 * k + 1 + 2" by simp
    ultimately show ?case using 3(2,3) by metis
  qed
qed

text \<open>
  A schedule is prompt if the server has served what a worker pushed before that worker fetches
  again. Nothing in the code makes it so, since the two requests take different connections.
\<close>

fun prompt :: "(nat \<Rightarrow> nat \<Rightarrow> i32 \<Rightarrow> i32 \<Rightarrow> i32) \<Rightarrow> (u64 \<Rightarrow> byte list) \<Rightarrow> libm \<Rightarrow> configuration \<Rightarrow> i32 \<Rightarrow>
    lr_action list \<Rightarrow> lr_system \<Rightarrow> bool" where
  "prompt draw s3 lm c ti [] y = True"
| "prompt draw s3 lm c ti (x # xs) y =
     ((case x of Compute i now w \<Rightarrow> ls_sent y ! i = [] | _ \<Rightarrow> True)
      \<and> (case lr_step draw s3 lm c ti x y of Inl e \<Rightarrow> True | Inr y \<Rightarrow> prompt draw s3 lm c ti xs y))"

text \<open>Where one worker is, with prompt pushes, after \<open>n\<close> steps of gradient descent.\<close>

definition follows :: "libm \<Rightarrow> (f64 \<Rightarrow> bool) \<Rightarrow> f64 \<Rightarrow> (nat \<Rightarrow> sparse_dataset) \<Rightarrow> server \<Rightarrow> server \<Rightarrow> sgd_state \<Rightarrow> nat \<Rightarrow> bool" where
  "follows lm keep eps data s s' a n \<longleftrightarrow>
     rfold (sgd_round lm keep eps) (map data [0..<n]) (sv_opt s, sv_lr s) = Inr (ss_opt a, ss_model a)
     \<and> s' = s\<lparr>sv_opt := ss_opt a, sv_lr := ss_model a, sv_updates := sv_updates s + word_of_nat n\<rparr>
     \<and> (ss_inflight a 0 = [] \<and> ss_taken a 0 = n
        \<or> (\<exists>g. ss_inflight a 0 = [lrs_weights g] \<and> ss_taken a 0 = Suc n
             \<and> reference_grad lm keep eps (data n) (served_weights (ss_opt a) (ss_model a)) = Inr g))"

lemma follows_update:
  assumes "follows lm keep eps data s s' a n" "ss_inflight a 0 = ws # rest" "ws \<noteq> []"
    and "opt_sgd_update (LRSparseGradient (lrs_of_vector ws)) (ss_opt a, ss_model a) = Inr (opt, z)"
  shows "follows lm keep eps data s (updated opt z s') (applied 0 opt z a) (Suc n)"
proof -
  obtain g where g: "ws = lrs_weights g" "rest = []" "ss_taken a 0 = Suc n"
    "reference_grad lm keep eps (data n) (served_weights (ss_opt a) (ss_model a)) = Inr g"
    using assms(1,2) by (auto simp: follows_def)
  then have "sgd_round lm keep eps (data n) (ss_opt a, ss_model a) = Inr (opt, z)"
    using assms(3,4) by (simp add: sgd_round_def)
  then show ?thesis using assms(1,2) g(2,3) by (auto simp: follows_def applied_def updated_def rfold_append algebra_simps)
qed

lemma prompt_run:
  assumes src: "\<forall>i. source_ok (draw i) s3 ps l r rows m True Drawn" "data_ok c ps l r rows m"
    and conf: "worker_conf c m eps" and "\<forall>x\<in>set acts. action_ok x" "lr_run draw s3 lm c ti acts y = Inr y'" "prompt draw s3 lm c ti acts y"
    and "sys_rel draw ps c l r rows m N y a" "int N + int (length acts) < 2 ^ 31" "length (ls_tasks y) = 1"
    and "follows lm (grad_kept c) eps (stream draw ps l r rows m 0) s (ls_server y) a n"
  shows "\<exists>a' n'. follows lm (grad_kept c) eps (stream draw ps l r rows m 0) s (ls_server y') a' n'"
  using assms(4-)
proof (induction acts arbitrary: y a N n)
  case Nil
  then show ?case by (auto simp: lr_run_def)
next
  case (Cons x acts)
  obtain y1 where y1: "lr_step draw s3 lm c ti x y = Inr y1" "lr_run draw s3 lm c ti acts y1 = Inr y'"
    using Cons.prems(2) by (auto simp: lr_run_def)
  have N: "int N < 2 ^ 31 - 1" "int (Suc N) + int (length acts) < 2 ^ 31" using Cons.prems(5) by auto
  have ok: "action_ok x" "\<forall>x\<in>set acts. action_ok x" using Cons.prems(1) by auto
  from lr_step_sim[OF Cons.prems(4) N(1) src conf ok(1) y1(1)] obtain a1 where
    a1: "sys_rel draw ps c l r rows m (Suc N) y1 a1" "length (ls_tasks y1) = 1"
      "sgd_nothing y y1 a a1 \<or> sgd_compute lm (grad_kept c) eps (stream draw ps l r rows m) x y y1 a a1 \<or> sgd_update y y1 a a1"
    using Cons.prems(6) by auto
  have "\<exists>n1. follows lm (grad_kept c) eps (stream draw ps l r rows m 0) s (ls_server y1) a1 n1"
    using a1(3)
  proof (elim disjE)
    assume "sgd_nothing y y1 a a1"
    then show ?thesis using Cons.prems(7) by (auto simp: sgd_nothing_def)
  next
    assume "sgd_compute lm (grad_kept c) eps (stream draw ps l r rows m) x y y1 a a1"
    then obtain g now w where 1: "x = Compute 0 now w" "snd (ls_tasks y ! 0) = None" "a1 = computed 0 g a" "ls_server y1 = ls_server y"
      "reference_grad lm (grad_kept c) eps (stream draw ps l r rows m 0 (ss_taken a 0)) (served_weights (ss_opt a) (ss_model a)) = Inr g"
      using Cons.prems(6) by (auto simp: sgd_compute_def)
    have "ls_sent y ! 0 = []" using Cons.prems(3) 1(1) by simp
    then have "ss_inflight a 0 = []" using sys_rel_task[OF Cons.prems(4), of 0] 1(2) Cons.prems(6) by (auto simp: task_rel_def)
    then have "follows lm (grad_kept c) eps (stream draw ps l r rows m 0) s (ls_server y1) a1 n"
      using Cons.prems(7) 1(3-5) by (auto simp: follows_def computed_def)
    then show ?thesis by blast
  next
    assume "sgd_update y y1 a a1"
    then obtain ws rest opt z where u: "ss_inflight a 0 = ws # rest" "ws \<noteq> []"
      "opt_sgd_update (LRSparseGradient (lrs_of_vector ws)) (ss_opt a, ss_model a) = Inr (opt, z)"
      "a1 = applied 0 opt z a" "ls_server y1 = updated opt z (ls_server y)"
      using Cons.prems(6) by (auto simp: sgd_update_def)
    show ?thesis using follows_update[OF Cons.prems(7) u(1-3)] u(4,5) by auto
  qed
  then obtain n1 where n1: "follows lm (grad_kept c) eps (stream draw ps l r rows m 0) s (ls_server y1) a1 n1" ..
  have "prompt draw s3 lm c ti acts y1" using Cons.prems(3) y1(1) by (auto split: lr_action.splits)
  from Cons.IH[OF ok(2) y1(2) this a1(1) N(2) a1(2) n1] show ?case .
qed

section \<open>A small system\<close>

definition ex_train :: "(sample \<times> f32) list" where
  "ex_train = [([(1, 0x3F800000)], 0x3F800000), ([(1, 0x3F800000)], 0x3F800000)]"

definition ex_train_bucket :: "u64 \<Rightarrow> byte list" where
  "ex_train_bucket oid = replicate 8 0 @ store_many (sample_bytes True) ex_train"

definition ex_train_config :: configuration where
  "ex_train_config = ex_config\<lparr>cf_s3_size := 2, cf_train_set_range := (0, 2)\<rparr>"

definition ex_draw :: "nat \<Rightarrow> nat \<Rightarrow> i32 \<Rightarrow> i32 \<Rightarrow> i32" where "ex_draw i k l r = l"

lemma ex_system:
  "setup_ok ex_train_config 0 2 2 1 0 server0" "\<exists>t. lr_task_new (ex_draw 0) ex_train_bucket 0 ex_train_config = Inr t"
  "\<forall>i. source_ok (ex_draw i) ex_train_bucket (\<lambda>_. ex_train) 0 2 2 1 True Drawn"
  "data_ok ex_train_config (\<lambda>_. ex_train) 0 2 2 1"
proof -
  have mb: "get_minibatch_size ex_train_config = Inr 1" "get_s3_size ex_train_config = Inr 2"
    by (simp_all add: get_minibatch_size_def get_s3_size_def ex_train_config_def ex_config_def conf_new_def)
  have "get_epsilon ex_train_config = get_epsilon ex_config" by (simp add: get_epsilon_def ex_train_config_def)
  then show "setup_ok ex_train_config 0 2 2 1 0 server0"
    by (simp add: setup_ok_def worker_conf_def mb ex_eps_conf)
      (simp add: ex_train_config_def ex_config_def conf_new_def server0_def lrm_new_def model_wf_def)
  show "\<exists>t. lr_task_new (ex_draw 0) ex_train_bucket 0 ex_train_config = Inr t"
    by (simp add: lr_task_new_def mb it_new_def it_start_def cb_new_def)
      (simp add: ex_train_config_def ex_config_def int_shl_one_def)
  show "\<forall>i. source_ok (ex_draw i) ex_train_bucket (\<lambda>_. ex_train) 0 2 2 1 True Drawn"
    by (simp add: source_ok_def uniform_int_def holds_samples_def ex_train_bucket_def samples_ok_def ex_draw_def)
      (simp add: ex_train_def label_bit_def)
  have "chunk (Suc 0) ex_train k = [([(1, 0x3F800000)], 0x3F800000)]" if "k < 2" for k
    using that by (auto simp: chunk_def ex_train_def less_Suc_eq numeral_2_eq_2)
  then show "data_ok ex_train_config (\<lambda>_. ex_train) 0 2 2 1"
    by (simp add: data_ok_def trainable_def mb_dataset_def features_def MAX_MSG_SIZE_def)
      (simp add: ex_train_config_def ex_config_def)
qed

lemma ex_first_minibatch: "stream ex_draw (\<lambda>_. ex_train) 0 2 2 1 0 0 = mb_dataset True [([(1, 0x3F800000)], 0x3F800000)]"
  by (simp add: stream_def minibatch_at_def chunk_def ex_train_def)

lemma ex_round: "\<exists>opt x. sgd_round ex_libm (grad_kept ex_train_config) 0 (stream ex_draw (\<lambda>_. ex_train) 0 2 2 1 0 0) (sv_opt server0, sv_lr server0) = Inr (opt, x)"
proof -
  have i1: "idx 1 = 1" by (simp add: idx_def)
  have "served_weights (SGD f64_one) (lrm_new 2) = [0, 0]"
    by (simp add: served_weights_def lrm_new_def opt_edit_weight_def default_edit_weight_def replicate_2 ex_conv fp_evals)
  then have ref: "reference_grad ex_libm (grad_kept ex_train_config) 0 (mb_dataset True [([(1, 0x3F800000)], 0x3F800000)]) (served_weights (SGD f64_one) (lrm_new 2))
      = Inr (lrs_of_vector [(1, 0x3F000000)])"
    by (simp add: reference_grad_def dense_residual_def mb_dataset_def lrm_dot_product_def i1 residual_def s_1_def
        ex_libm_def Let_def nonzero_grad_def kept_sum_def grad_kept_def ex_train_config_def ex_config_def conf_new_def grad_sums_def map_add_f32_def reg_entry_def regularized_def ex_floats vec_get_def)
  have "model_wf (lrm_new 2)" "\<forall>e\<in>set [(1 :: i32, 0x3F000000 :: f32)]. idx (fst e) < length (lrm_weights (lrm_new 2))"
    by (simp_all add: model_wf_def lrm_new_def idx_def)
  then obtain o' m' where "opt.update [(1 :: i32, 0x3F000000 :: f32)] (SGD f64_one, lrm_new 2) = Inr (o', m')"
    using opt.update_ok by blast
  then show ?thesis
    by (simp add: ex_first_minibatch sgd_round_def server0_def ref lrs_of_vector_def opt_sgd_update_def as_sparse_gradient_def
        opt.update_def)
qed

section \<open>Training\<close>

text \<open>
  C1: Distributed training is asynchronous stochastic gradient descent: whatever the number of
  workers and however their fetches, computations, pushes and the reads of what they pushed
  interleave, what the server has is what the specification reaches, as long as the processes run. Each
  gradient is that of the full model, with the weights it had when the worker asked, on the next
  minibatch of that worker, without the entries that are zero or below the configured threshold, and is
  applied exactly once, in the order in which its worker computed it, possibly after later
  fetches of the same worker. The features of the minibatches must be features of the model, each minibatch must have one,
  and the request for them must fit the buffer of the client (\<open>trainable\<close>).
\<close>

theorem async_training:
  assumes sys: "setup_ok c l r rows m eps s" and task: "tasks_new draw s3 c ts"
    and src: "\<forall>i. source_ok (draw i) s3 ps l r rows m True Drawn" "data_ok c ps l r rows m"
    and acts: "\<forall>x\<in>set acts. action_ok x" "length acts < 2 ^ 31 - 1"
    and run: "lr_run draw s3 lm c ti acts (lr_system_start s ts) = Inr y"
  shows "\<exists>a. (async_sgd lm (grad_kept c) eps (stream draw ps l r rows m))\<^sup>*\<^sup>* (sgd_start s) a
    \<and> sv_opt (ls_server y) = ss_opt a \<and> sv_lr (ls_server y) = ss_model a \<and> sv_updates (ls_server y) = ss_updates a"
proof -
  have "worker_conf c m eps" using sys by (simp add: setup_ok_def)
  from lr_run_sim[OF src this acts(1) run start_rel[OF sys task src(1)]] acts(2) obtain a where
    "(async_sgd lm (grad_kept c) eps (stream draw ps l r rows m))\<^sup>*\<^sup>* (sgd_start s) a" "sys_rel draw ps c l r rows m (1 + length acts) y a" by auto
  then show ?thesis by (auto simp: sys_rel_def)
qed

lemma ex_run:
  "\<exists>t opt x y. lr_task_new (ex_draw 0) ex_train_bucket 0 ex_train_config = Inr t
    \<and> rfold (sgd_round ex_libm (grad_kept ex_train_config) 0) (map (stream ex_draw (\<lambda>_. ex_train) 0 2 2 1 0) [0..<1]) (sv_opt server0, sv_lr server0) = Inr (opt, x)
    \<and> lr_run ex_draw ex_train_bucket ex_libm ex_train_config 0 (lr_round 0 worker0 (\<lambda>_. 4)) (lr_system_start server0 [t]) = Inr y"
proof -
  obtain t where t: "lr_task_new (ex_draw 0) ex_train_bucket 0 ex_train_config = Inr t" using ex_system(2) by blast
  obtain opt x where r: "sgd_round ex_libm (grad_kept ex_train_config) 0 (stream ex_draw (\<lambda>_. ex_train) 0 2 2 1 0 0) (sv_opt server0, sv_lr server0) = Inr (opt, x)"
    using ex_round by blast
  have 1: "rfold (sgd_round ex_libm (grad_kept ex_train_config) 0) (map (stream ex_draw (\<lambda>_. ex_train) 0 2 2 1 0) [0..<1]) (sv_opt server0, sv_lr server0) = Inr (opt, x)"
    using r by simp
  from rounds_ok[OF ex_system(1) t ex_system(3,4) worker0_wf _ _ _ _ 1, of "\<lambda>_. 4" 0 0] 1 t show ?thesis by auto
qed

theorem async_training_witness:
  "\<exists>t y a. lr_run ex_draw ex_train_bucket ex_libm ex_train_config 0 (lr_round 0 worker0 (\<lambda>_. 4)) (lr_system_start server0 [t]) = Inr y
    \<and> (async_sgd ex_libm (grad_kept ex_train_config) 0 (stream ex_draw (\<lambda>_. ex_train) 0 2 2 1))\<^sup>*\<^sup>* (sgd_start server0) a
    \<and> sv_lr (ls_server y) = ss_model a"
proof -
  obtain t y where t: "lr_task_new (ex_draw 0) ex_train_bucket 0 ex_train_config = Inr t"
    and y: "lr_run ex_draw ex_train_bucket ex_libm ex_train_config 0 (lr_round 0 worker0 (\<lambda>_. 4)) (lr_system_start server0 [t]) = Inr y"
    using ex_run by blast
  have new: "tasks_new ex_draw ex_train_bucket ex_train_config [t]" using t by (auto simp: tasks_new_def)
  have ok: "\<forall>x\<in>set (lr_round 0 worker0 (\<lambda>_. 4)). action_ok x"
    by (simp add: lr_round_def action_ok_def worker0_wf)
  have "length (lr_round 0 worker0 (\<lambda>_. 4)) < 2 ^ 31 - 1" by (simp add: lr_round_def)
  from async_training[OF ex_system(1) new ex_system(3,4) ok this y] y show ?thesis by blast
qed

text \<open>
  C2: A worker that trains alone, when the server serves each of its pushes before it fetches again:
  under every such schedule the server has the model that some number \<open>n\<close> of steps of gradient descent on
  the first \<open>n\<close> minibatches of the worker give, with \<open>n\<close> updates counted; and \<open>k\<close> turns of its loop under
  one such schedule make \<open>k\<close> steps, if none of these fails or has an empty gradient. A step leaves out
  the entries the configured threshold rejects. (Without the condition on the schedule only C1 holds: a fetch may overtake
  a push, which goes over another connection.) The minibatches must be \<open>trainable\<close>, as in C1.
\<close>

theorem training_alone:
  assumes sys: "setup_ok c l r rows m eps s" and task: "lr_task_new (draw 0) s3 early c = Inr t"
    and src: "\<forall>i. source_ok (draw i) s3 ps l r rows m True Drawn" "data_ok c ps l r rows m"
  shows "(\<forall>acts y. (\<forall>x\<in>set acts. action_ok x) \<and> length acts < 2 ^ 31 - 1 \<and> prompt draw s3 lm c ti acts (lr_system_start s [t])
      \<and> lr_run draw s3 lm c ti acts (lr_system_start s [t]) = Inr y \<longrightarrow>
      (\<exists>n opt x. rfold (sgd_round lm (grad_kept c) eps) (map (stream draw ps l r rows m 0) [0..<n]) (sv_opt s, sv_lr s) = Inr (opt, x)
         \<and> ls_server y = s\<lparr>sv_opt := opt, sv_lr := x, sv_updates := sv_updates s + word_of_nat n\<rparr>))
    \<and> (\<forall>k opt x now w ks. worker_wf w \<and> 4 \<le> ks 0 \<and> 4 \<le> ks 1 \<and> k < 1000000000 \<and> (sint ti \<le> 0 \<or> int k \<le> sint ti)
      \<and> rfold (sgd_round lm (grad_kept c) eps) (map (stream draw ps l r rows m 0) [0..<k]) (sv_opt s, sv_lr s) = Inr (opt, x) \<longrightarrow>
      (\<exists>y. lr_run draw s3 lm c ti (concat (replicate k (lr_round now w ks))) (lr_system_start s [t]) = Inr y
         \<and> ls_server y = s\<lparr>sv_opt := opt, sv_lr := x, sv_updates := sv_updates s + word_of_nat k\<rparr>))"
proof (intro conjI allI impI; elim conjE)
  fix acts y
  assume ok: "\<forall>x\<in>set acts. action_ok x" "length acts < 2 ^ 31 - 1" "prompt draw s3 lm c ti acts (lr_system_start s [t])"
    and run: "lr_run draw s3 lm c ti acts (lr_system_start s [t]) = Inr y"
  have conf: "worker_conf c m eps" using sys by (simp add: setup_ok_def)
  have new: "tasks_new draw s3 c [t]" using task by (auto simp: tasks_new_def)
  have "follows lm (grad_kept c) eps (stream draw ps l r rows m 0) s (ls_server (lr_system_start s [t])) (sgd_start s) 0"
    by (simp add: follows_def lr_system_start_def sgd_start_def)
  from prompt_run[OF src conf ok(1) run ok(3) start_rel[OF sys new src(1)] _ _ this] ok(2)
  show "\<exists>n opt x. rfold (sgd_round lm (grad_kept c) eps) (map (stream draw ps l r rows m 0) [0..<n]) (sv_opt s, sv_lr s) = Inr (opt, x)
         \<and> ls_server y = s\<lparr>sv_opt := opt, sv_lr := x, sv_updates := sv_updates s + word_of_nat n\<rparr>"
    by (auto simp: follows_def lr_system_start_def)
next
  fix k opt x now w and ks :: "nat \<Rightarrow> nat"
  assume "worker_wf w" "4 \<le> ks 0" "4 \<le> ks 1" "k < 1000000000" "sint ti \<le> 0 \<or> int k \<le> sint ti"
    "rfold (sgd_round lm (grad_kept c) eps) (map (stream draw ps l r rows m 0) [0..<k]) (sv_opt s, sv_lr s) = Inr (opt, x)"
  from rounds_ok[OF sys task src this]
  show "\<exists>y. lr_run draw s3 lm c ti (concat (replicate k (lr_round now w ks))) (lr_system_start s [t]) = Inr y
         \<and> ls_server y = s\<lparr>sv_opt := opt, sv_lr := x, sv_updates := sv_updates s + word_of_nat k\<rparr>" by blast
qed

theorem training_alone_witness:
  "\<exists>t opt x y. lr_task_new (ex_draw 0) ex_train_bucket 0 ex_train_config = Inr t
    \<and> lr_run ex_draw ex_train_bucket ex_libm ex_train_config 0 (concat (replicate 1 (lr_round 0 worker0 (\<lambda>_. 4))))
        (lr_system_start server0 [t]) = Inr y
    \<and> ls_server y = server0\<lparr>sv_opt := opt, sv_lr := x, sv_updates := sv_updates server0 + word_of_nat 1\<rparr>"
proof -
  obtain t opt x where t: "lr_task_new (ex_draw 0) ex_train_bucket 0 ex_train_config = Inr t"
    and r: "rfold (sgd_round ex_libm (grad_kept ex_train_config) 0) (map (stream ex_draw (\<lambda>_. ex_train) 0 2 2 1 0) [0..<1]) (sv_opt server0, sv_lr server0) = Inr (opt, x)"
    using ex_run by blast
  have ok: "4 \<le> (\<lambda>_ :: nat. 4 :: nat) 0" "4 \<le> (\<lambda>_ :: nat. 4 :: nat) 1" "(1 :: nat) < 1000000000" "sint (0 :: i32) \<le> 0 \<or> int 1 \<le> sint (0 :: i32)" by simp_all
  note all = training_alone[OF ex_system(1) t ex_system(3,4), of ex_libm 0, THEN conjunct2, rule_format]
  have "\<exists>y. lr_run ex_draw ex_train_bucket ex_libm ex_train_config 0 (concat (replicate 1 (lr_round 0 worker0 (\<lambda>_. 4)))) (lr_system_start server0 [t]) = Inr y
     \<and> ls_server y = server0\<lparr>sv_opt := opt, sv_lr := x, sv_updates := sv_updates server0 + word_of_nat 1\<rparr>"
    by (rule all, intro conjI) (rule worker0_wf ok r)+
  then show ?thesis using t by blast
qed

text \<open>
  C35: A worker whose minibatch has only zero data terms pushes a gradient without entries, and that
  ends the server, which reads the gradient back with \<open>assert(num_weights > 0)\<close>.
\<close>

theorem empty_gradient_ends_server:
  assumes t: "i < length (ls_tasks y)" "length (ls_sent y) = length (ls_tasks y)" "ls_tasks y ! i = (t, Some g)"
    and sent: "ls_sent y ! i = []" and g: "lrs_weights g = []"
    and ok: "worker_wf w" "4 \<le> ks 0" "4 \<le> ks 1"
    and count: "sint (lt_count t) < 2 ^ 31 - 1" "\<not> (0 < sint ti \<and> sint ti < sint (lt_count t + 1))"
  shows "lr_run draw s3 lm c ti [Push i ks, Serve i now w] y = Inl Assertion_failed"
proof -
  have len: "length (lrs_weights g) < 10000000" using g by simp
  have "lr_push ks ti g (conn_of []) t = Inr ((conn_of [])\<lparr>cn_out := grad_bytes g\<rparr>, t\<lparr>lt_count := lt_count t + 1\<rparr>)"
    using send_lr_gradient_sends[OF len ok(2,3)] count by (auto simp: lr_push_def Let_def grad_bytes_def)
  moreover have "serve now (conn_of (grad_bytes g)) w (ls_server y) = Inl Assertion_failed"
    using serve_gradient[OF len ok(1), of now "[]" "ls_server y"] g by simp
  ultimately show ?thesis using t sent by (simp add: lr_run_def vec_get_def)
qed

theorem empty_gradient_ends_server_witness:
  "\<exists>t. lr_task_new (ex_draw 0) ex_train_bucket 0 ex_train_config = Inr t
    \<and> lr_run ex_draw ex_train_bucket ex_libm ex_train_config 0 [Push 0 (\<lambda>_. 4), Serve 0 0 worker0]
        (set_task 0 (t, Some (lrs_of_vector [])) (lr_system_start server0 [t])) = Inl Assertion_failed"
proof -
  obtain t where t: "lr_task_new (ex_draw 0) ex_train_bucket 0 ex_train_config = Inr t" using ex_system(2) by blast
  let ?y = "set_task 0 (t, Some (lrs_of_vector [])) (lr_system_start server0 [t])"
  have "lt_count t = 0" using t by (auto simp: lr_task_new_def)
  then have "sint (lt_count t) < 2 ^ 31 - 1" by simp
  then show ?thesis
    using t empty_gradient_ends_server[of 0 ?y t "lrs_of_vector []" worker0 "\<lambda>_. 4" 0 ex_draw ex_train_bucket ex_libm ex_train_config 0] worker0_wf
    by (simp add: lr_system_start_def lrs_of_vector_def)
qed

end
