(* ===== verification/MfWorker.thy ===== *)
theory MfWorker
  imports Worker
begin

text \<open>
  The workers of matrix factorisation, \<open>MFNetflixTask\<close>, and the system they form with the server. A
  worker goes through the objects of its part of the data in order, since the position of a sample is
  the user it belongs to, and keeps in \<open>sample_index\<close> the user its next minibatch starts with. As in \<open>Worker\<close>, a turn of its
  loop has two halves that other workers can come between (\<open>mf_compute\<close>, \<open>mf_push\<close>), and what it pushes
  is served in a step of its own.

  \<open>async_mf\<close> is the specification: asynchronous factorisation of the matrix, in which every gradient is
  that of some rows of the matrix for some users. \<open>mf_rel\<close> is the simulation relation.
\<close>

section \<open>The task\<close>

record mf_task =
  mt_iter :: s3_iter
  mt_sample_low :: u64
  mt_sample_high :: u64
  mt_sample_index :: u64
  mt_count :: i32

text \<open>An operation on \<open>int\<close> with the exact result \<open>v\<close>.\<close>

definition int_of :: "int \<Rightarrow> i32 res" where
  "int_of v = (if - (2 ^ 31) \<le> v \<and> v < 2 ^ 31 then Inr (word_of_int v) else Inl Undefined_behaviour)"

text \<open>The objects of one of \<open>netflix_workers\<close> workers; the quotient is computed in \<open>uint64_t\<close>.\<close>

definition worker_range :: "i32 \<Rightarrow> configuration \<Rightarrow> (i32 \<times> i32) res" where
  "worker_range worker c =
     (let first = fst (cf_train_set_range c); r = snd (cf_train_set_range c)
      in rbind (int_of (sint r - sint first)) (\<lambda>d.
         let range_length = (ucast ((scast d :: u64) div cf_netflix_workers c) :: i32)
         in rbind (int_of (sint range_length + 1)) (\<lambda>range_length.
            rbind (int_of (sint worker * sint range_length)) (\<lambda>l.
            rbind (int_of (sint l + sint range_length)) (\<lambda>e.
            Inr (l, if sint r < sint e then r else e))))))"

text \<open>What \<open>run\<close> sets up before its loop; \<open>r + 1\<close> is the first object that is not the worker's.\<close>

definition mf_task_new :: "(nat \<Rightarrow> i32 \<Rightarrow> i32 \<Rightarrow> i32) \<Rightarrow> (u64 \<Rightarrow> byte list) \<Rightarrow> nat \<Rightarrow> i32 \<Rightarrow> configuration \<Rightarrow> mf_task res" where
  "mf_task_new draw s3 early worker c =
     rbind (get_s3_size c) (\<lambda>s3_size.
     let l = fst (cf_train_set_range c); r = snd (cf_train_set_range c); sample_low = 0; sample_index = 0
     in rbind (int_of (sint r + 1)) (\<lambda>e.
        let sample_high = s3_size * scast e
        in rbind (if cf_netflix_workers c \<noteq> 0
                  then rbind (worker_range worker c) (\<lambda>(l, r).
                       rbind (int_of (sint r + 1)) (\<lambda>e.
                       let sample_low = scast l * s3_size
                       in Inr (l, e, sample_low, min sample_high (scast e * s3_size), sample_low)))
                  else Inr (l, e, sample_low, sample_high, sample_index))
             (\<lambda>(l, e, sample_low, sample_high, sample_index).
           rbind (get_minibatch_size c) (\<lambda>minibatch_size.
           rbind (it_new draw s3 early (scast l) (scast e) c s3_size minibatch_size False False False) (\<lambda>s3_iter.
           Inr \<lparr>mt_iter = s3_iter, mt_sample_low = sample_low, mt_sample_high = sample_high,
                mt_sample_index = sample_index, mt_count = 0\<rparr>)))))"



section \<open>The system\<close>

text \<open>As in \<open>Worker\<close>, with the bytes that are under way on the connection on which a worker pushes.\<close>

record mf_system =
  ms_server :: server
  ms_tasks :: "(mf_task \<times> mf_sparse_gradient option) list"
  ms_sent :: "byte list list"


definition set_mf_task :: "nat \<Rightarrow> mf_task \<times> mf_sparse_gradient option \<Rightarrow> mf_system \<Rightarrow> mf_system" where
  "set_mf_task i x y = y\<lparr>ms_tasks := (ms_tasks y)[i := x]\<rparr>"

definition set_mf_sent :: "nat \<Rightarrow> byte list \<Rightarrow> mf_system \<Rightarrow> mf_system" where
  "set_mf_sent i bs y = y\<lparr>ms_sent := (ms_sent y)[i := bs]\<rparr>"




section \<open>The objects of a worker\<close>

text \<open>The range of objects of worker \<open>i\<close>, of which the second is the last, in exact arithmetic.\<close>

definition objects_of :: "configuration \<Rightarrow> nat \<Rightarrow> nat \<times> nat" where
  "objects_of c i =
     (let first = nat (sint (fst (cf_train_set_range c))); r = nat (sint (snd (cf_train_set_range c)));
          k = (r - first) div unat (cf_netflix_workers c) + 1
      in if cf_netflix_workers c = 0 then (first, r) else (i * k, min (i * k + k) r))"








text \<open>
  The users of a worker: as many as its objects have samples, from \<open>sample_low\<close> on. The user its \<open>k\<close>-th
  minibatch starts with is \<open>mf_user\<close>.
\<close>

definition mf_user :: "nat \<Rightarrow> nat \<Rightarrow> nat \<times> nat \<Rightarrow> nat \<Rightarrow> nat" where
  "mf_user rows m lr k = (case lr of (l, r) \<Rightarrow> l * rows + k mod ((r + 1 - l) * (rows div m)) * m)"









section \<open>The rows of the matrix\<close>





text \<open>
  When the thread of the iterator was ahead of its constructor, the rows are those of object 0 first,
  and of the right objects only afterwards: from then on they lag one object behind.
\<close>

definition mf_row :: "access \<Rightarrow> nat \<Rightarrow> nat \<Rightarrow> nat \<times> nat \<Rightarrow> nat \<Rightarrow> nat" where
  "mf_row a rows m lr k =
     (if a = Zero_first then (if k < rows div m then k * m else mf_user rows m lr (k - rows div m)) else mf_user rows m lr k)"



section \<open>The gradient of a minibatch\<close>










section \<open>One worker against the server\<close>

definition rows_dataset :: "sample list \<Rightarrow> sparse_dataset" where
  "rows_dataset rs = mb_dataset False (map (\<lambda>x. (x, 0)) rs)"

lemma rows_dataset_data [simp]: "sd_data (rows_dataset rs) = rs"
  by (simp add: rows_dataset_def mb_dataset_def comp_def)








section \<open>Asynchronous factorisation\<close>




text \<open>The users of a worker and the rows it reads, which depend on the turns its thread took early.\<close>

definition users_at :: "configuration \<Rightarrow> u64 \<Rightarrow> u64 \<Rightarrow> nat \<Rightarrow> nat \<Rightarrow> nat" where
  "users_at c rows m i k = mf_user (unat rows) (unat m) (objects_of c i) k"

definition rows_at :: "configuration \<Rightarrow> u64 \<Rightarrow> u64 \<Rightarrow> (nat \<Rightarrow> nat) \<Rightarrow> nat \<Rightarrow> nat \<Rightarrow> nat" where
  "rows_at c rows m early i k = mf_row (access_of False (early i)) (unat rows) (unat m) (objects_of c i) k"









section \<open>The simulation\<close>







lemma mf_set_simps [simp]:
  "length (ms_tasks (set_mf_task i x y)) = length (ms_tasks y)" "length (ms_tasks (set_mf_sent i bs y)) = length (ms_tasks y)"
  "length (ms_tasks (ms_server_update f y)) = length (ms_tasks y)"
  "set_mf_sent i (ms_sent y ! i) (set_mf_task i x y) = set_mf_task i x y"
  by (simp_all add: set_mf_task_def set_mf_sent_def)



























section \<open>How the objects are divided\<close>

text \<open>
  A worker whose thread was ahead of the constructor of its iterator takes the rows of object 0 for the users of
  its own first object, and later those of each object for the users of the next.
\<close>

lemma rows_lag:
  assumes "0 < early i" "objects_of c i = (l, r)"
  shows "k < unat rows div unat m \<Longrightarrow> rows_at c rows m early i k = k * unat m"
    "unat rows div unat m \<le> k \<Longrightarrow> rows_at c rows m early i k = users_at c rows m i (k - unat rows div unat m)"
  using assms by (auto simp: rows_at_def users_at_def mf_row_def access_of_def)

lemma rows_of_users: "early i = 0 \<Longrightarrow> rows_at c rows m early i k = users_at c rows m i k"
  by (simp add: rows_at_def users_at_def mf_row_def access_of_def)


text \<open>
  The range of a worker starts from object 0, whatever the first object of the training set is; the
  iterator goes up to \<open>r\<close> itself, which is also the first object of the next worker; and with more
  workers than the rounded-up length leaves objects for, a range lies behind the last object, so
  that its iterator never gets back to its first object.
\<close>

lemma ranges_overlap:
  assumes "cf_netflix_workers c \<noteq> 0" "snd (objects_of c (Suc i)) > fst (objects_of c (Suc i))"
  shows "fst (objects_of c 0) = 0" "snd (objects_of c i) = fst (objects_of c (Suc i))"
  using assms by (auto simp: objects_of_def Let_def)

lemma range_past_end:
  "worker_range 9 (c\<lparr>cf_train_set_range := (0, 10), cf_netflix_workers := 10\<rparr>) = Inr (18, 10)"
  by (simp add: worker_range_def int_of_def Let_def)

text \<open>Without \<open>netflix_workers\<close> the objects start with the first of the training set, but the users with 0.\<close>

lemma users_not_offset:
  assumes "mf_task_new draw s3 0 worker c = Inr t" "cf_netflix_workers c = 0"
  shows "mt_sample_index t = 0" "it_left_id (mt_iter t) = scast (fst (cf_train_set_range c))"
  using assms by (auto simp: mf_task_new_def it_new_def it_start_def Let_def)

end
