(* ===== verification/ErrorTask.thy ===== *)
theory ErrorTask
  imports Worker
begin

text \<open>
  The task that watches the training, \<open>ErrorSparseTask\<close>: it reads a test set once, through an
  \<open>S3SparseIterator\<close>, and then keeps asking the server for the full model and computes its loss on
  that set. A second thread answers requests for the last results over datagrams. \<open>get_time_us\<close> is an
  argument, and \<open>connect\<close>, which is repeated until it succeeds, is left out.
\<close>

section \<open>The test set\<close>

record error_task =
  et_minibatches :: "sparse_dataset list"
  et_iterations :: i32
  et_total_accuracy :: f32
  et_start_time :: u64
  et_last_time :: f64
  et_last_error :: f64
  et_curr_error :: f64

definition error_range :: "configuration \<Rightarrow> (u32 \<times> u32) res" where
  "error_range c =
     rbind (get_model_type c) (\<lambda>model_type.
       if model_type = LOGISTICREGRESSION then Inr (cf_test_set_range c)
       else if model_type = COLLABORATIVE_FILTERING then Inr (cf_train_set_range c)
       else Inl (Exit_status (- 1)))"

definition error_iter :: "(nat \<Rightarrow> i32 \<Rightarrow> i32 \<Rightarrow> i32) \<Rightarrow> (u64 \<Rightarrow> byte list) \<Rightarrow> nat \<Rightarrow> configuration \<Rightarrow> s3_iter res" where
  "error_iter draw s3 early c =
     rbind (error_range c) (\<lambda>(left, right).
     rbind (get_s3_size c) (\<lambda>s3_size.
     rbind (get_minibatch_size c) (\<lambda>minibatch_size.
       let is_lr = (cf_model_type c = LOGISTICREGRESSION)
       in it_new draw s3 early (ucast left) (ucast right) c s3_size minibatch_size is_lr False is_lr)))"

text \<open>The number of minibatches read is computed in \<open>uint32_t\<close>.\<close>

definition error_count :: "configuration \<Rightarrow> u32 res" where
  "error_count c =
     rbind (error_range c) (\<lambda>(left, right).
     rbind (get_s3_size c) (\<lambda>s3_size.
     rbind (get_minibatch_size c) (\<lambda>minibatch_size.
       let minibatches_per_s3_obj = (ucast (s3_size div minibatch_size) :: u32)
       in Inr ((right - left) * minibatches_per_s3_obj))))"

text \<open>The minibatches are taken one after the other, while the thread of the iterator fetches objects.\<close>

definition error_turn :: "(nat \<Rightarrow> i32 \<Rightarrow> i32 \<Rightarrow> i32) \<Rightarrow> (u64 \<Rightarrow> byte list) \<Rightarrow> nat \<Rightarrow> turn \<Rightarrow> s3_iter \<times> sparse_dataset list \<Rightarrow>
    (s3_iter \<times> sparse_dataset list) res" where
  "error_turn draw s3 n act = (\<lambda>(it, minibatches_vec).
     if act = Next_call \<and> n \<le> length minibatches_vec then Inr (it, minibatches_vec)
     else it_turn draw s3 act (it, minibatches_vec))"

definition error_fill :: "(nat \<Rightarrow> i32 \<Rightarrow> i32 \<Rightarrow> i32) \<Rightarrow> (u64 \<Rightarrow> byte list) \<Rightarrow> nat \<Rightarrow> configuration \<Rightarrow> turn list \<Rightarrow> sparse_dataset list res" where
  "error_fill draw s3 early c acts =
     rbind (error_iter draw s3 early c) (\<lambda>it.
     rbind (error_count c) (\<lambda>n.
     rbind (rfold (error_turn draw s3 (unat n)) acts (it, [])) (\<lambda>(_, minibatches_vec).
       if length minibatches_vec < unat n then Inl Blocked else Inr minibatches_vec)))"

definition error_task_new :: "u64 \<Rightarrow> sparse_dataset list \<Rightarrow> error_task" where
  "error_task_new start_time minibatches_vec = \<lparr>et_minibatches = minibatches_vec, et_iterations = 0, et_total_accuracy = 0,
     et_start_time = start_time, et_last_time = 0, et_last_error = 0, et_curr_error = 0\<rparr>"

section \<open>The loss of a model\<close>

text \<open>The sums over the minibatches; \<open>calc_loss\<close> gives two \<open>double\<close>, which become \<open>float\<close>.\<close>

record loss_sums =
  la_loss :: f32
  la_accuracy :: f32
  la_num_samples :: u64
  la_num_features :: u64
  la_start_index :: u64

definition loss_zero :: loss_sums where
  "loss_zero = \<lparr>la_loss = 0, la_accuracy = 0, la_num_samples = 0, la_num_features = 0, la_start_index = 0\<rparr>"

definition average_error :: "configuration \<Rightarrow> loss_sums \<Rightarrow> f64 \<Rightarrow> f64" where
  "average_error c a old =
     (if cf_model_type c = LOGISTICREGRESSION
      then f64_of_f32 (f32_div (la_loss a) (f32_of_int (uint (la_num_samples a))))
      else if cf_model_type c = COLLABORATIVE_FILTERING
      then f64_of_f32 (f32_sqrt (f32_div (la_loss a) (f32_of_int (uint (la_num_features a)))))
      else old)"

text \<open>What the handler \<open>catch (...)\<close> catches.\<close>

definition caught :: "cpp_error \<Rightarrow> bool" where
  "caught e = (case e of Runtime_error _ \<Rightarrow> True | Length_error _ \<Rightarrow> True | Out_of_range \<Rightarrow> True | _ \<Rightarrow> False)"

text \<open>The loop over the minibatches, with \<open>curr_error\<close>; the flag tells that it was not left by an exception.\<close>

fun loss_loop :: "configuration \<Rightarrow> (sparse_dataset \<Rightarrow> u32 \<Rightarrow> (f64 \<times> f64) res) \<Rightarrow> sparse_dataset list \<Rightarrow> loss_sums \<times> f64 \<Rightarrow>
    (loss_sums \<times> f64 \<times> bool) res" where
  "loss_loop c calc_loss [] (a, curr_error) = Inr (a, curr_error, True)"
| "loss_loop c calc_loss (ds # dss) (a, curr_error) =
     (case calc_loss ds (ucast (la_start_index a)) of
        Inl e \<Rightarrow> if caught e then Inr (a, curr_error, False) else Inl e
      | Inr (loss, accuracy) \<Rightarrow>
          let a = a\<lparr>la_loss := f32_add (la_loss a) (f32_of_f64 loss),
                    la_accuracy := f32_add (la_accuracy a) (f32_of_f64 accuracy),
                    la_num_samples := la_num_samples a + sd_num_samples ds,
                    la_num_features := la_num_features a + sd_num_features ds\<rparr>
          in case get_minibatch_size c of
               Inl e \<Rightarrow> if caught e then Inr (a, curr_error, False) else Inl e
             | Inr m \<Rightarrow>
                 let a = a\<lparr>la_start_index := la_start_index a + m\<rparr>
                 in loss_loop c calc_loss dss (a, average_error c a curr_error))"

text \<open>\<open>get_model\<close>: the model of the server, as what computes its loss.\<close>

definition get_model :: "(byte list \<Rightarrow> byte list) \<Rightarrow> libm \<Rightarrow> (f64 \<Rightarrow> f64 \<Rightarrow> f64) \<Rightarrow> mf_model \<Rightarrow> configuration \<Rightarrow> conn \<Rightarrow>
    ((sparse_dataset \<Rightarrow> u32 \<Rightarrow> (f64 \<times> f64) res) \<times> conn) res" where
  "get_model peer lm pow garbage config c =
     (if cf_model_type config = COLLABORATIVE_FILTERING
      then rbind (get_full_mf_model peer garbage c) (\<lambda>(m, c). Inr (\<lambda>ds start_index. mf_calc_loss pow ds start_index m, c))
      else rbind (get_full_lr_model peer c) (\<lambda>(m, c). Inr (\<lambda>ds _. lrm_calc_loss lm ds m, c)))"

text \<open>One turn of the loop of \<open>run\<close>, after the checks at its head; \<open>now\<close> is the time when the loss is known.\<close>

definition error_measure :: "(byte list \<Rightarrow> byte list) \<Rightarrow> libm \<Rightarrow> (f64 \<Rightarrow> f64 \<Rightarrow> f64) \<Rightarrow> mf_model \<Rightarrow> configuration \<Rightarrow> u64 \<Rightarrow>
    conn \<Rightarrow> error_task \<Rightarrow> (conn \<times> error_task) res" where
  "error_measure peer lm pow garbage config now c t =
     rbind (case get_model peer lm pow garbage config c of
              Inl e \<Rightarrow> if caught e then Inr (c, t) else Inl e
            | Inr (calc_loss, c) \<Rightarrow>
                rbind (loss_loop config calc_loss (et_minibatches t) (loss_zero, et_curr_error t)) (\<lambda>(a, curr_error, complete).
                let t = t\<lparr>et_total_accuracy := la_accuracy a, et_curr_error := curr_error\<rparr>
                in Inr (c, if complete
                           then t\<lparr>et_last_time := f64_div (f64_of_int (uint (now - et_start_time t))) (f64_of_int 1000000),
                                  et_last_error := average_error config a (et_last_error t)\<rparr>
                           else t)))
       (\<lambda>(c, t). if sint (et_iterations t) = 2 ^ 31 - 1 then Inl Undefined_behaviour
                 else Inr (c, t\<lparr>et_iterations := et_iterations t + 1\<rparr>))"

text \<open>The checks at the head of the loop.\<close>

definition f64_ge :: "f64 \<Rightarrow> f64 \<Rightarrow> bool" where "f64_ge x y \<longleftrightarrow> f64_less y x \<or> f64_eq x y"

definition error_exit :: "bool \<Rightarrow> i32 \<Rightarrow> f64 \<Rightarrow> error_task \<Rightarrow> int option" where
  "error_exit testing iters test_threshold t =
     (if sint iters \<le> sint (et_iterations t) \<and> testing then Some 1
      else if f64_ge (f64_of_f32 (f32_div (et_total_accuracy t) (f32_of_int (int (length (et_minibatches t)))))) test_threshold \<and> testing
      then Some 0 else None)"

text \<open>Turns of the loop, one for every element of the list, which has what the server answers then and the time.\<close>

fun error_loop :: "libm \<Rightarrow> (f64 \<Rightarrow> f64 \<Rightarrow> f64) \<Rightarrow> mf_model \<Rightarrow> configuration \<Rightarrow> bool \<Rightarrow> i32 \<Rightarrow> f64 \<Rightarrow>
    ((byte list \<Rightarrow> byte list) \<times> u64) list \<Rightarrow> error_task \<Rightarrow> error_task res" where
  "error_loop lm pow garbage c testing iters test_threshold [] t = Inr t"
| "error_loop lm pow garbage c testing iters test_threshold ((peer, now) # rest) t =
     (case error_exit testing iters test_threshold t of
        Some status \<Rightarrow> Inl (Exit_status status)
      | None \<Rightarrow> rbind (error_measure peer lm pow garbage c now (conn_of []) t) (\<lambda>(_, t).
          error_loop lm pow garbage c testing iters test_threshold rest t))"

section \<open>The answers to requests\<close>

text \<open>
  A datagram is received into \<open>operation\<close>, whose bytes behind a shorter one stay what they were, and
  is answered with three \<open>double\<close> when it is \<open>GET_LAST_TIME_ERROR\<close>.
\<close>

definition error_response :: "error_task \<Rightarrow> byte list \<Rightarrow> u32 \<Rightarrow> u32 \<times> byte list option" where
  "error_response t datagram operation =
     (let operation = u32_of (overwrite (take 4 datagram) (store_u32 operation))
      in (operation, if operation = op_code GET_LAST_TIME_ERROR
                     then Some (store_u64 (et_last_time t) @ store_u64 (et_last_error t) @ store_u64 (et_curr_error t)) else None))"


section \<open>What is read\<close>

lemma fill_inv:
  assumes src: "source_ok draw s3 ps l r rows m b x" and conf: "get_minibatch_size c = Inr m"
    and "it_inv draw ps c l r rows m b x it out blocks" "it_str_version it + int (length acts) < 2 ^ 31" "length out \<le> n"
  shows "\<exists>it' out' blocks'. rfold (error_turn draw s3 n) acts (it, out) = Inr (it', out')
    \<and> it_inv draw ps c l r rows m b x it' out' blocks' \<and> length out' \<le> n
    \<and> it_str_version it' \<le> it_str_version it + int (length acts)"
  using assms(3-)
proof (induction acts arbitrary: it out blocks)
  case Nil
  then show ?case by auto
next
  case (Cons act acts)
  have v: "it_str_version it < 2 ^ 31 - 1" using Cons.prems(2) by simp
  have "\<exists>it1 out1 b1. error_turn draw s3 n act (it, out) = Inr (it1, out1) \<and> it_inv draw ps c l r rows m b x it1 out1 b1
      \<and> length out1 \<le> n \<and> it_str_version it1 \<le> it_str_version it + 1"
  proof (cases "act = Next_call \<and> n \<le> length out")
    case True
    then show ?thesis using Cons.prems by (auto simp: error_turn_def)
  next
    case False
    obtain it1 out1 b1 where 1: "it_turn draw s3 act (it, out) = Inr (it1, out1)" "it_inv draw ps c l r rows m b x it1 out1 b1"
      "it_str_version it1 \<le> it_str_version it + 1" using it_turn_inv[OF src Cons.prems(1) v conf] by blast
    have "length out1 \<le> Suc (length out)" "act = Thread_turn \<Longrightarrow> out1 = out"
      using 1(1) by (cases act; auto simp: unless_blocked_def rbind_def split: sum.splits if_splits cpp_error.splits)+
    then show ?thesis using 1 False Cons.prems(3) by (cases act) (auto simp: error_turn_def)
  qed
  then obtain it1 out1 b1 where 1: "error_turn draw s3 n act (it, out) = Inr (it1, out1)" "it_inv draw ps c l r rows m b x it1 out1 b1"
    "length out1 \<le> n" "it_str_version it1 \<le> it_str_version it + 1" by blast
  have "it_str_version it1 + int (length acts) < 2 ^ 31" using 1(4) Cons.prems(2) by simp
  from Cons.IH[OF 1(2) this 1(3)] 1(1,4) show ?case by auto
qed

text \<open>
  The objects that are read: those of the range in order, unless the thread of the iterator was ahead of its
  constructor (\<open>early\<close> turns); then object 0 is first, and the last object of the range is not among them.
\<close>

definition read_ids :: "nat \<Rightarrow> nat \<Rightarrow> nat \<Rightarrow> nat list" where
  "read_ids early l r = (if early = 0 then [l..<r] else 0 # [l..<r - 1])"

definition test_set :: "bool \<Rightarrow> (u64 \<Rightarrow> (sample \<times> f32) list) \<Rightarrow> nat list \<Rightarrow> u64 \<Rightarrow> u64 \<Rightarrow> sparse_dataset list" where
  "test_set b ps oids rows m = map (mb_dataset b) (concat (map (\<lambda>oid. minibatches ps rows m (word_of_nat oid)) oids))"

lemma length_minibatches: "length (concat (map (\<lambda>oid. minibatches ps rows m (f oid)) xs)) = length xs * unat (rows div m)"
  by (induction xs) (auto simp: minibatches_def chunks_def)

lemma length_test_set: "length (test_set b ps xs rows m) = length xs * unat (rows div m)"
  by (simp add: test_set_def length_minibatches)

lemma read_ids_objects:
  assumes "l < r"
  shows "map word_of_nat (read_ids early (unat l) (unat r)) = map (object_id draw l r (access_of False early)) [0..<unat (r - l)]"
    "length (read_ids early (unat l) (unat r)) = unat (r - l)"
proof -
  define d where "d = unat (r - l)"
  have r: "unat r = d + unat l" "0 < d" using assms unat_sub[of l r] by (simp_all add: d_def word_le_nat_alt word_less_nat_alt)
  have ord: "map word_of_nat [unat l..<unat l + k] = map (object_id draw l r In_order) [0..<k]" if "k \<le> d" for k
  proof -
    have "[unat l..<unat l + k] = map (\<lambda>i. unat l + i) [0..<k]" using map_add_upt[of "unat l" k] by (simp add: add.commute)
    then show ?thesis using that by (simp add: object_id_def d_def[symmetric])
  qed
  show "length (read_ids early (unat l) (unat r)) = unat (r - l)"
    using r by (simp add: read_ids_def d_def[symmetric])
  show "map word_of_nat (read_ids early (unat l) (unat r)) = map (object_id draw l r (access_of False early)) [0..<unat (r - l)]"
  proof (cases early)
    case 0
    then show ?thesis using ord[of d] r by (simp add: read_ids_def d_def[symmetric] add.commute)
  next
    case (Suc k)
    obtain e where e: "d = Suc e" using r(2) by (cases d) auto
    have "map (object_id draw l r Zero_first) [0..<d] = object_id draw l r Zero_first 0 # map (object_id draw l r In_order) [0..<e]"
      by (simp only: e map_upt_Suc object_id_zero_first)
    moreover have "object_id draw l r Zero_first 0 = 0" by (simp add: object_id_def)
    moreover have "unat r - 1 = unat l + e" using r(1) e by simp
    ultimately show ?thesis using ord[of e] e Suc by (simp add: read_ids_def d_def[symmetric])
  qed
qed

lemma first_pass:
  assumes out: "out = map (\<lambda>j. mb_dataset b (minibatch_at draw ps l r rows m (access_of False early) j)) [0..<length out]"
    and len: "length out = unat (r - l) * unat (rows div m)" and lr: "l < r"
  shows "out = test_set b ps (read_ids early (unat l) (unat r)) rows m"
proof (rule nth_equalityI)
  define n d x where "n = unat (rows div m)" and "d = unat (r - l)" and "x = access_of False early"
  note ids = read_ids_objects[OF lr, of early, folded d_def]
  show "length out = length (test_set b ps (read_ids early (unat l) (unat r)) rows m)" using len by (simp add: length_test_set ids(2) d_def)
  fix j assume j: "j < length out"
  then have jd: "j < d * n" using len by (simp add: d_def n_def)
  have "concat (map (\<lambda>oid. minibatches ps rows m (word_of_nat oid)) (read_ids early (unat l) (unat r)))
      = concat (map (minibatches ps rows m) (map word_of_nat (read_ids early (unat l) (unat r))))" by (simp add: comp_def)
  also have "\<dots> = concat (map (\<lambda>i. map (chunk (unat m) (ps (object_id draw l r x i))) [0..<n]) [0..<d])"
    unfolding ids(1)[of draw] by (simp add: minibatches_def chunks_def n_def comp_def x_def)
  finally have "test_set b ps (read_ids early (unat l) (unat r)) rows m
      = map (mb_dataset b) (concat (map (\<lambda>i. map (chunk (unat m) (ps (object_id draw l r x i))) [0..<n]) [0..<d]))"
    by (simp add: test_set_def)
  moreover have "length (concat (map (\<lambda>i. map (chunk (unat m) (ps (object_id draw l r x i))) [0..<n]) [0..<d])) = d * n"
    using arg_cong[OF calculation, of length] by (simp add: length_test_set ids(2) n_def)
  ultimately have "test_set b ps (read_ids early (unat l) (unat r)) rows m ! j
      = mb_dataset b (chunk (unat m) (ps (object_id draw l r x (j div n))) (j mod n))"
    using jd concat_blocks_nth[OF jd, of "\<lambda>i. chunk (unat m) (ps (object_id draw l r x i))"] by simp
  moreover have "out ! j = mb_dataset b (minibatch_at draw ps l r rows m x j)"
    using out j unfolding x_def by (metis add.left_neutral diff_zero nth_map_upt)
  ultimately show "out ! j = test_set b ps (read_ids early (unat l) (unat r)) rows m ! j"
    by (simp add: minibatch_at_def Let_def n_def[symmetric])
qed


text \<open>What is assumed of the configuration and the bucket.\<close>

definition watched :: "configuration \<Rightarrow> bool" where
  "watched c \<longleftrightarrow> cf_model_type c = LOGISTICREGRESSION \<or> cf_model_type c = COLLABORATIVE_FILTERING"

definition watch_range :: "configuration \<Rightarrow> u32 \<times> u32" where
  "watch_range c = (if cf_model_type c = LOGISTICREGRESSION then cf_test_set_range c else cf_train_set_range c)"

definition watch_source :: "configuration \<Rightarrow> (nat \<Rightarrow> i32 \<Rightarrow> i32 \<Rightarrow> i32) \<Rightarrow> (u64 \<Rightarrow> byte list) \<Rightarrow> nat \<Rightarrow> (u64 \<Rightarrow> (sample \<times> f32) list) \<Rightarrow>
    u64 \<Rightarrow> u64 \<Rightarrow> bool" where
  "watch_source c draw s3 early ps rows m \<longleftrightarrow> watched c \<and> get_s3_size c = Inr rows \<and> get_minibatch_size c = Inr m
     \<and> source_ok draw s3 ps (ucast (fst (watch_range c))) (ucast (snd (watch_range c))) rows m
         (cf_model_type c = LOGISTICREGRESSION) (access_of False early)
     \<and> (unat (snd (watch_range c)) - unat (fst (watch_range c))) * unat (rows div m) < 2 ^ 32"

definition watch_set :: "configuration \<Rightarrow> nat \<Rightarrow> (u64 \<Rightarrow> (sample \<times> f32) list) \<Rightarrow> u64 \<Rightarrow> u64 \<Rightarrow> sparse_dataset list" where
  "watch_set c early ps rows m = test_set (cf_model_type c = LOGISTICREGRESSION) ps
     (read_ids early (unat (fst (watch_range c))) (unat (snd (watch_range c)))) rows m"

lemma ucast_u32 [simp]: "unat (ucast (x :: u32) :: u64) = unat x"
  using unat_u32[of x] by (simp add: unsigned_ucast_eq take_bit_nat_eq_self)

lemma watch_setup:
  assumes "watch_source c draw s3 early ps rows m"
  shows "\<exists>it n blocks. error_iter draw s3 early c = Inr it \<and> error_count c = Inr n
    \<and> n = word_of_nat (length (watch_set c early ps rows m)) \<and> unat n = length (watch_set c early ps rows m)
    \<and> it_inv draw ps c (ucast (fst (watch_range c))) (ucast (snd (watch_range c))) rows m (cf_model_type c = LOGISTICREGRESSION)
        (access_of False early) it [] blocks \<and> it_str_version it \<le> 1"
proof -
  obtain l r where lr: "watch_range c = (l, r)" by fastforce
  let ?b = "cf_model_type c = LOGISTICREGRESSION"
  have w: "watched c" "get_s3_size c = Inr rows" "get_minibatch_size c = Inr m"
    and src: "source_ok draw s3 ps (ucast l) (ucast r) rows m ?b (access_of False early)"
    and small: "(unat r - unat l) * unat (rows div m) < 2 ^ 32" using assms by (auto simp: watch_source_def lr)
  have rng: "error_range c = Inr (l, r)" using w(1) lr
    by (auto simp: error_range_def get_model_type_def watched_def watch_range_def)
  obtain it where it: "it_new draw s3 early (ucast l) (ucast r) c rows m ?b False ?b = Inr it"
    using it_new_ok[OF src] by blast
  have lr': "l < r" "(ucast l :: u64) < ucast r" using src by (simp_all add: source_ok_def word_less_nat_alt)
  then have sub: "unat (r - l) = unat r - unat l" "0 < unat r - unat l"
    using unat_sub[of l r] by (simp_all add: word_less_nat_alt word_le_nat_alt)
  have le: "unat (rows div m) \<le> (unat r - unat l) * unat (rows div m)"
    using mult_le_mono1[OF Suc_leI[OF sub(2)], of "unat (rows div m)"] unfolding mult_Suc mult_0 add_0_right .
  have q: "unat (ucast (rows div m) :: u32) = unat (rows div m)"
    using le_less_trans[OF le small] by (simp add: unsigned_ucast_eq take_bit_nat_eq_self)
  have cnt: "unat ((r - l) * ucast (rows div m)) = (unat r - unat l) * unat (rows div m)"
    using small by (simp add: unat_word_ariths sub(1) q)
  have len: "length (watch_set c early ps rows m) = (unat r - unat l) * unat (rows div m)"
    using read_ids_objects(2)[OF lr'(2), of early] sub unat_sub[of "ucast l :: u64" "ucast r"] lr'(2)
    by (simp add: watch_set_def length_test_set lr)
  define n where "n = (r - l) * ucast (rows div m)"
  have n: "unat n = length (watch_set c early ps rows m)" "n = word_of_nat (length (watch_set c early ps rows m))"
    using cnt by (simp_all add: n_def len flip: cnt)
  have "error_iter draw s3 early c = Inr it" "error_count c = Inr n" using w rng it
    by (simp_all add: error_iter_def error_count_def lr Let_def n_def)
  then show ?thesis using n inv_start[OF src it] by (auto simp: lr)
qed

lemma fill_result:
  assumes src: "watch_source c draw s3 early ps rows m" and len: "length acts < 2 ^ 31 - 1"
    and fill: "error_fill draw s3 early c acts = Inr mbs"
  shows "mbs = watch_set c early ps rows m"
proof -
  obtain l r where lr: "watch_range c = (l, r)" by fastforce
  let ?b = "cf_model_type c = LOGISTICREGRESSION" and ?x = "access_of False early"
  from watch_setup[OF src] obtain it n blocks where it: "error_iter draw s3 early c = Inr it" "error_count c = Inr n"
    "unat n = length (watch_set c early ps rows m)" "it_inv draw ps c (ucast l) (ucast r) rows m ?b ?x it [] blocks"
    "it_str_version it \<le> 1" by (auto simp: lr)
  have so: "source_ok draw s3 ps (ucast l) (ucast r) rows m ?b ?x" and mb: "get_minibatch_size c = Inr m"
    using src by (simp_all add: watch_source_def lr)
  have "it_str_version it + int (length acts) < 2 ^ 31" using it(5) len by simp
  from fill_inv[OF so mb it(4) this, of "unat n"] obtain it' out blocks where
    run: "rfold (error_turn draw s3 (unat n)) acts (it, []) = Inr (it', out)" "length out \<le> unat n"
      "it_inv draw ps c (ucast l) (ucast r) rows m ?b ?x it' out blocks" by auto
  then have out: "mbs = out" "length out = unat n" using fill it(1,2) by (auto split: if_splits simp: error_fill_def)
  have lt: "(ucast l :: u64) < ucast r" using so unfolding source_ok_def by blast
  have "length out = unat (ucast r - ucast l :: u64) * unat (rows div m)"
    using out(2) it(3) read_ids_objects(2)[OF lt] by (simp add: watch_set_def length_test_set lr)
  from first_pass[OF inv_outputs[OF run(3)] this lt] show ?thesis using out(1) by (simp add: watch_set_def lr)
qed


lemma fill_safe:
  assumes src: "watch_source c draw s3 early ps rows m" and len: "length acts < 2 ^ 31 - 1"
  shows "error_fill draw s3 early c acts = Inl Blocked \<or> (\<exists>mbs. error_fill draw s3 early c acts = Inr mbs)"
proof -
  obtain l r where lr: "watch_range c = (l, r)" by fastforce
  let ?b = "cf_model_type c = LOGISTICREGRESSION" and ?x = "access_of False early"
  from watch_setup[OF src] obtain it n blocks where it: "error_iter draw s3 early c = Inr it" "error_count c = Inr n"
    "it_inv draw ps c (ucast l) (ucast r) rows m ?b ?x it [] blocks" "it_str_version it \<le> 1" by (auto simp: lr)
  have so: "source_ok draw s3 ps (ucast l) (ucast r) rows m ?b ?x" and mb: "get_minibatch_size c = Inr m"
    using src by (simp_all add: watch_source_def lr)
  have "it_str_version it + int (length acts) < 2 ^ 31" using it(4) len by simp
  from fill_inv[OF so mb it(3) this, of "unat n"] obtain it' out where
    "rfold (error_turn draw s3 (unat n)) acts (it, []) = Inr (it', out)" by auto
  then show ?thesis using it(1,2) by (simp add: error_fill_def)
qed

text \<open>Turns that are enough: two of the thread before each call.\<close>

lemma fill_ends:
  assumes src: "watch_source c draw s3 early ps rows m" and len: "3 * length (watch_set c early ps rows m) < 2 ^ 31 - 1"
  shows "\<exists>acts. length acts = 3 * length (watch_set c early ps rows m) \<and> error_fill draw s3 early c acts = Inr (watch_set c early ps rows m)"
proof -
  obtain l r where lr: "watch_range c = (l, r)" by fastforce
  let ?b = "cf_model_type c = LOGISTICREGRESSION" and ?x = "access_of False early"
  define N acts where "N = length (watch_set c early ps rows m)" and "acts k = concat (replicate k [Thread_turn, Thread_turn, Next_call])" for k
  from watch_setup[OF src] obtain it n blocks where it: "error_iter draw s3 early c = Inr it" "error_count c = Inr n"
    "unat n = N" "it_inv draw ps c (ucast l) (ucast r) rows m ?b ?x it [] blocks" "it_str_version it \<le> 1" by (auto simp: lr N_def)
  have so: "source_ok draw s3 ps (ucast l) (ucast r) rows m ?b ?x" and mb: "get_minibatch_size c = Inr m"
    using src by (simp_all add: watch_source_def lr)
  have len_acts: "length (acts k) = 3 * k" for k by (induction k) (auto simp: acts_def)
  have "\<exists>it' out blocks. rfold (error_turn draw s3 N) (acts k) (it, []) = Inr (it', out) \<and> length out = k
      \<and> it_inv draw ps c (ucast l) (ucast r) rows m ?b ?x it' out blocks \<and> it_str_version it' \<le> 1 + int (3 * k)" if "k \<le> N" for k
    using that
  proof (induction k)
    case 0
    then show ?case using it(4,5) by (auto simp: acts_def)
  next
    case (Suc k)
    then obtain it0 out b0 where 0: "rfold (error_turn draw s3 N) (acts k) (it, []) = Inr (it0, out)" "length out = k"
      "it_inv draw ps c (ucast l) (ucast r) rows m ?b ?x it0 out b0" "it_str_version it0 \<le> 1 + int (3 * k)" by auto
    have v: "it_str_version it0 < 2 ^ 31 - 1" using 0(4) Suc.prems len by (simp add: N_def)
    from thread_turn_inv[OF so 0(3) v] obtain it1 b1 where 1: "it_turn draw s3 Thread_turn (it0, out) = Inr (it1, out)"
      "it_inv draw ps c (ucast l) (ucast r) rows m ?b ?x it1 out b1" "it_str_version it1 \<le> it_str_version it0 + 1"
      "it_unposted it1 + it_semaphore it1 \<noteq> 0" by blast
    have v1: "it_str_version it1 < 2 ^ 31 - 1" using 0(4) 1(3) Suc.prems len by (simp add: N_def)
    from thread_turn_inv[OF so 1(2) v1] obtain it2 b2 where 2: "it_turn draw s3 Thread_turn (it1, out) = Inr (it2, out)"
      "it_inv draw ps c (ucast l) (ucast r) rows m ?b ?x it2 out b2" "it_str_version it2 \<le> it_str_version it1 + 1"
      "it_semaphore it1 \<le> it_semaphore it2" "it_unposted it1 \<noteq> 0 \<longrightarrow> it_semaphore it2 \<noteq> 0" by blast
    have "0 < it_semaphore it2" using 1(4) 2(4,5) by auto
    from inv_next[OF 2(2) this mb] obtain ds it3 b3 where 3: "get_next it2 = Inr (ds, it3)"
      "it_inv draw ps c (ucast l) (ucast r) rows m ?b ?x it3 (out @ [ds]) b3" "it_str_version it3 = it_str_version it2" by blast
    have "rfold (error_turn draw s3 N) [Thread_turn, Thread_turn, Next_call] (it0, out) = Inr (it3, out @ [ds])"
      using 1(1) 2(1) 3(1) 0(2) Suc.prems by (simp add: error_turn_def unless_blocked_def)
    moreover have "acts (Suc k) = acts k @ [Thread_turn, Thread_turn, Next_call]" by (simp add: acts_def flip: replicate_append_same)
    ultimately show ?case using 0 1(3) 2(3) 3 by (auto simp: rfold_append)
  qed
  from this[of N] obtain it' out where run: "rfold (error_turn draw s3 N) (acts N) (it, []) = Inr (it', out)" "length out = N" by auto
  then have "error_fill draw s3 early c (acts N) = Inr out" using it(1-3) by (simp add: error_fill_def)
  moreover from fill_result[OF src _ this] have "out = watch_set c early ps rows m" using len by (simp add: len_acts N_def)
  ultimately show ?thesis using len_acts[of N] by (auto simp: N_def)
qed

text \<open>C16: The task reads its test set, once and in order, however its calls and the thread of the iterator
  interleave: as long as the minibatches can be counted in 32 bits, a schedule either leaves it waiting or gives
  it exactly the minibatches of the objects \<open>read_ids\<close>, and some schedule of three turns for every minibatch
  is enough. These are the objects of its range if the constructor of the iterator was ahead of the thread it
  starts; if the thread had a turn before \<open>current\<close> was set, object 0 is read instead of the last one. Every
  object that is read must be in the bucket.\<close>

theorem test_set_read:
  assumes "watch_source c draw s3 early ps rows m" "3 * length (watch_set c early ps rows m) < 2 ^ 31 - 1"
  shows "(\<exists>acts. length acts = 3 * length (watch_set c early ps rows m)
      \<and> error_fill draw s3 early c acts = Inr (watch_set c early ps rows m))
    \<and> (\<forall>acts. length acts < 2 ^ 31 - 1 \<longrightarrow> error_fill draw s3 early c acts \<in> {Inl Blocked, Inr (watch_set c early ps rows m)})"
  using fill_ends[OF assms] fill_safe[OF assms(1)] fill_result[OF assms(1)] by blast

section \<open>What is measured\<close>

text \<open>The loss and accuracy of the minibatches, added up in order.\<close>

definition sum_of :: "f64 list \<Rightarrow> f32" where
  "sum_of xs = fold (\<lambda>x s. f32_add s (f32_of_f64 x)) xs 0"

lemma loss_loop_sums:
  assumes mb: "get_minibatch_size c = Inr m" and lr: "cf_model_type c = LOGISTICREGRESSION"
    and "length rets = length mbs" "\<And>i st. i < length mbs \<Longrightarrow> calc (mbs ! i) st = Inr (rets ! i)"
  shows "\<exists>e1 start. loss_loop c calc mbs (a, e0) = Inr (a\<lparr>
      la_loss := fold (\<lambda>x s. f32_add s (f32_of_f64 x)) (map fst rets) (la_loss a),
      la_accuracy := fold (\<lambda>x s. f32_add s (f32_of_f64 x)) (map snd rets) (la_accuracy a),
      la_num_samples := la_num_samples a + word_of_nat (length (concat (map sd_data mbs))),
      la_num_features := fold (\<lambda>ds n. n + sd_num_features ds) mbs (la_num_features a),
      la_start_index := start\<rparr>, e1, True)"
  using assms(3,4)
proof (induction mbs arbitrary: a e0 rets)
  case Nil
  then show ?case by (intro exI[of _ e0] exI[of _ "la_start_index a"]) simp
next
  case (Cons ds mbs)
  then obtain loss acc rets' where r: "rets = (loss, acc) # rets'" by (cases rets) auto
  have "length rets' = length mbs" "\<And>i st. i < length mbs \<Longrightarrow> calc (mbs ! i) st = Inr (rets' ! i)"
    using Cons.prems(1) Cons.prems(2)[of "Suc _"] by (auto simp: r)
  note ih = Cons.IH[OF this]
  have c0: "calc ds st = Inr (loss, acc)" for st using Cons.prems(2)[of 0 st] by (simp add: r)
  show ?case
    using ih[of "a\<lparr>la_loss := f32_add (la_loss a) (f32_of_f64 loss), la_accuracy := f32_add (la_accuracy a) (f32_of_f64 acc),
        la_num_samples := la_num_samples a + sd_num_samples ds, la_num_features := la_num_features a + sd_num_features ds,
        la_start_index := la_start_index a + m\<rparr>"] mb c0
    by (simp add: r Let_def sd_num_samples_def add.assoc)
qed


lemma error_measure_lr:
  assumes lr: "cf_model_type c = LOGISTICREGRESSION" and mb: "get_minibatch_size c = Inr m"
    and ws: "lrm_weights (sv_lr s) \<noteq> []" "length (lrm_weights (sv_lr s)) < 10000000" and w: "worker_wf w"
  obtains conn where "after now w s (cn_out conn) = Some s"
    "get_model (answer now w s) lm pow garbage c (conn_of []) = Inr (\<lambda>ds _. lrm_calc_loss lm ds (sv_lr s), conn)"
proof -
  obtain conn where r: "get_full_lr_model (answer now w s) (conn_of []) = Inr ((lrm_new 0)\<lparr>lrm_weights := lrm_weights (sv_lr s)\<rparr>, conn)"
    "after now w s (cn_out conn) = Some s" using lr_full_model_received[OF ws w] by blast
  have "get_model (answer now w s) lm pow garbage c (conn_of []) = Inr (\<lambda>ds _. lrm_calc_loss lm ds (sv_lr s), conn)"
    using lr r(1) by (simp add: get_model_def lrm_calc_loss_def)
  then show ?thesis using that r(2) by blast
qed

text \<open>C17: In one turn of its loop the task asks the server for the model, leaves it unchanged, and, when the loss
  of every minibatch of its test set is defined for the server's weights, records their average over the
  samples as the last error, the time of the measurement, and the sum of the accuracies.\<close>

theorem error_task_measures:
  assumes "cf_model_type c = LOGISTICREGRESSION" "get_minibatch_size c = Inr m"
    and "lrm_weights (sv_lr s) \<noteq> []" "length (lrm_weights (sv_lr s)) < 10000000" "worker_wf w"
    and rets: "length rets = length (et_minibatches t)"
      "\<And>i. i < length (et_minibatches t) \<Longrightarrow> lrm_calc_loss lm (et_minibatches t ! i) (sv_lr s) = Inr (rets ! i)"
    and it: "sint (et_iterations t) < 2 ^ 31 - 1"
  shows "\<exists>conn e1. error_measure (answer now w s) lm pow garbage c time (conn_of []) t = Inr (conn, t\<lparr>
        et_iterations := et_iterations t + 1, et_total_accuracy := sum_of (map snd rets),
        et_last_time := f64_div (f64_of_int (uint (time - et_start_time t))) (f64_of_int 1000000),
        et_last_error := f64_of_f32 (f32_div (sum_of (map fst rets))
          (f32_of_int (uint (word_of_nat (length (concat (map sd_data (et_minibatches t)))) :: u64)))),
        et_curr_error := e1\<rparr>)
    \<and> after now w s (cn_out conn) = Some s"
proof -
  obtain conn where 1: "after now w s (cn_out conn) = Some s"
    "get_model (answer now w s) lm pow garbage c (conn_of []) = Inr (\<lambda>ds _. lrm_calc_loss lm ds (sv_lr s), conn)"
    using error_measure_lr[OF assms(1-5)] by blast
  obtain e1 start where 2: "loss_loop c (\<lambda>ds _. lrm_calc_loss lm ds (sv_lr s)) (et_minibatches t) (loss_zero, et_curr_error t)
      = Inr (loss_zero\<lparr>la_loss := sum_of (map fst rets), la_accuracy := sum_of (map snd rets),
          la_num_samples := word_of_nat (length (concat (map sd_data (et_minibatches t)))),
          la_num_features := fold (\<lambda>ds n. n + sd_num_features ds) (et_minibatches t) 0,
          la_start_index := start\<rparr>, e1, True)"
    using loss_loop_sums[where rets = rets and mbs = "et_minibatches t" and a = loss_zero and ?e0.0 = "et_curr_error t" and
        calc = "\<lambda>ds _. lrm_calc_loss lm ds (sv_lr s)", OF assms(2,1) rets]
    by (auto simp: loss_zero_def sum_of_def)
  show ?thesis using 1 2 it assms(1)
    by (intro exI[of _ conn] exI[of _ e1] conjI) (cases t; simp add: error_measure_def average_error_def Let_def)+
qed

section \<open>The end of a test run\<close>

text \<open>Samples whose features have a weight and which have a label.\<close>

definition scorable :: "nat \<Rightarrow> sparse_dataset \<Rightarrow> bool" where
  "scorable d ds \<longleftrightarrow> length (sd_data ds) \<le> length (sd_labels ds) \<and> (\<forall>row\<in>set (sd_data ds). \<forall>(index, _)\<in>set row. idx index < d)"

definition caught_only :: "'a res \<Rightarrow> bool" where
  "caught_only r \<longleftrightarrow> (\<forall>e. r = Inl e \<longrightarrow> caught e)"

lemma caught_only_simps [simp]: "caught_only (Inr x)" "caught_only (Inl e) = caught e" "caught_only (guard_rt b msg)"
  by (auto simp: caught_only_def guard_rt_def caught_def)

lemma caught_only_rbind: "caught_only r \<Longrightarrow> (\<And>x. r = Inr x \<Longrightarrow> caught_only (f x)) \<Longrightarrow> caught_only (rbind r f)"
  by (cases r) auto

lemma caught_only_rfold: "(\<And>x s. x \<in> set xs \<Longrightarrow> caught_only (f x s)) \<Longrightarrow> caught_only (rfold f xs s)"
  by (induction xs arbitrary: s) (auto intro!: caught_only_rbind)

lemma vec_get_in: "i < length xs \<Longrightarrow> vec_get xs i = Inr (xs ! i)"
  by (simp add: vec_get_def)

lemma calc_loss_caught:
  assumes "scorable (length (lrm_weights m)) ds"
  shows "caught_only (lrm_calc_loss lm ds m)"
proof -
  have dot: "caught_only (loss_dot (lrm_weights m) (sd_data ds ! i))" if "i < length (sd_data ds)" for i
    using assms that unfolding loss_dot_def scorable_def
    by (intro caught_only_rfold) (fastforce simp: vec_get_in)
  have "caught_only (loss_step lm (lrm_weights m) ds i st)" if "i < length (sd_data ds)" for i st
    using assms that dot[OF that]
    by (auto simp: loss_step_def scorable_def vec_get_in s_1_def log_aux_def Let_def intro!: caught_only_rbind split: prod.splits)
  then show ?thesis unfolding lrm_calc_loss_def
    by (intro caught_only_rbind caught_only_rfold) (auto simp: Let_def intro!: caught_only_rbind)
qed

lemma loss_loop_caught:
  assumes "get_minibatch_size c = Inr m"
    and "\<And>j. j < length mbs \<Longrightarrow> caught_only (calc (mbs ! j) (ucast (la_start_index a + word_of_nat j * m)))"
  shows "\<exists>y. loss_loop c calc mbs (a, e0) = Inr y"
  using assms(2)
proof (induction mbs arbitrary: a e0)
  case (Cons ds mbs)
  have 1: "caught_only (calc ds (ucast (la_start_index a)))" using Cons.prems[of 0] by simp
  have 2: "\<exists>y. loss_loop c calc mbs (b, e1) = Inr y" if "la_start_index b = la_start_index a + m" for b e1
    using that Cons.prems[of "Suc _"] by (intro Cons.IH) (simp add: algebra_simps)
  show ?case
  proof (cases "calc ds (ucast (la_start_index a))")
    case (Inl e)
    then show ?thesis using 1 by auto
  next
    case (Inr la)
    then show ?thesis using 2 assms(1) by (cases la) (simp add: Let_def)
  qed
qed auto

text \<open>
  Ratings of users and items of the model; the users of a minibatch are numbered from where the minibatches
  before it end.
\<close>

definition rateable :: "mf_model \<Rightarrow> nat \<Rightarrow> sparse_dataset list \<Rightarrow> bool" where
  "rateable mf m mbs \<longleftrightarrow> (\<forall>j<length mbs. \<forall>u<length (sd_data (mbs ! j)). \<forall>(item, _)\<in>set (sd_data (mbs ! j) ! u).
     j * m + u < length (mf_user_bias mf) \<and> idx item < length (mf_item_bias mf))"

lemma mf_predict_caught:
  assumes "unat user < length (mf_user_bias mf)" "unat item < length (mf_item_bias mf)" "mf_wf mf"
  shows "caught_only (mf_predict user item mf)"
  using assms unfolding mf_predict_def
  by (auto simp: vec_get_in upto32_def mf_wf_def mf_get_user_weights_def mf_get_item_weights_def vec_at_def caught_def
      intro!: caught_only_rbind caught_only_rfold)

lemma u32_small: "n < 2 ^ 32 \<Longrightarrow> unat (ucast (word_of_nat n :: u64) :: u32) = n"
  by (simp add: unsigned_ucast_eq unat_of_nat take_bit_nat_eq_self)

lemma u32_back:
  assumes "n < 2 ^ 32"
  shows "ucast (ucast (word_of_nat n :: u64) :: u32) = (word_of_nat n :: u64)"
proof -
  have "unat (ucast (ucast (word_of_nat n :: u64) :: u32) :: u64) = unat (word_of_nat n :: u64)"
    using u32_small[OF assms] assms by (simp add: unat_u32_u64 unat_of_nat take_bit_nat_eq_self)
  then show ?thesis by (rule word_unat_eq_iff[THEN iffD2])
qed

lemma mf_calc_loss_caught:
  assumes mf: "mf_wf mf" and r: "rateable mf (unat m) mbs" and j: "j < length mbs"
  shows "caught_only (mf_calc_loss pow (mbs ! j) (ucast (word_of_nat j * m :: u64)) mf)"
proof -
  have small: "length (mf_user_bias mf) < 2 ^ 32" "length (mf_item_bias mf) < 2 ^ 32" using mf by (simp_all add: mf_wf_def)
  have step: "caught_only (mf_loss_step pow mf (word_of_nat u + ucast (ucast (word_of_nat j * m :: u64) :: u32)) rating st)"
    if u: "u < length (sd_data (mbs ! j))" "rating \<in> set (sd_data (mbs ! j) ! u)" for u rating st
  proof -
    obtain item stars where rt: "rating = (item, stars)" by fastforce
    have b: "j * unat m + u < length (mf_user_bias mf)" "idx item < length (mf_item_bias mf)"
      using r u j by (fastforce simp: rateable_def rt)+
    have jm: "j * unat m < 2 ^ 32" using b(1) small(1) by linarith
    have w: "word_of_nat j * m = (word_of_nat (j * unat m) :: u64)" by simp
    have start: "ucast (ucast (word_of_nat j * m :: u64) :: u32) = (word_of_nat (j * unat m) :: u64)"
      unfolding w by (rule u32_back[OF jm])
    have user: "word_of_nat u + ucast (ucast (word_of_nat j * m :: u64) :: u32) = (word_of_nat (j * unat m + u) :: u64)"
      unfolding start by simp
    have "unat (ucast (word_of_nat u + ucast (ucast (word_of_nat j * m :: u64) :: u32) :: u64) :: u32) = j * unat m + u"
      unfolding user by (rule u32_small) (use b(1) small(1) in linarith)
    moreover have "unat (ucast (scast item :: u64) :: u32) = idx item"
      using u32_small[of "idx item"] b(2) small(2) by (simp flip: unat_scast_idx)
    ultimately have "caught_only (mf_predict (ucast (word_of_nat u + ucast (ucast (word_of_nat j * m :: u64) :: u32) :: u64)) (ucast (scast item :: u64)) mf)"
      using b mf by (intro mf_predict_caught) simp_all
    then show ?thesis unfolding mf_loss_step_def rt
      by (cases st) (auto simp: Let_def intro!: caught_only_rbind)
  qed
  show ?thesis unfolding mf_calc_loss_def
    by (intro caught_only_rbind caught_only_rfold step) (auto intro!: caught_only_rbind)
qed

text \<open>A server that can answer, for a test set, in the two modes.\<close>

definition serves_test :: "configuration \<Rightarrow> u64 \<Rightarrow> sparse_dataset list \<Rightarrow> (byte list \<Rightarrow> byte list) \<Rightarrow> bool" where
  "serves_test c m mbs peer \<longleftrightarrow> (\<exists>now w s. peer = answer now w s \<and> worker_wf w
     \<and> (if cf_model_type c = LOGISTICREGRESSION
        then lrm_weights (sv_lr s) \<noteq> [] \<and> length (lrm_weights (sv_lr s)) < 10000000
          \<and> (\<forall>ds\<in>set mbs. scorable (length (lrm_weights (sv_lr s))) ds)
        else mf_wf (sv_mf s) \<and> length (mf_serialize_to (sv_mf s)) \<le> THREAD_BUFFER_SIZE \<and> rateable (sv_mf s) (unat m) mbs))"

lemma error_measure_runs:
  assumes mode: "watched c" and mb: "get_minibatch_size c = Inr m" and srv: "serves_test c m (et_minibatches t) peer"
    and it: "sint (et_iterations t) < 2 ^ 31 - 1"
  shows "\<exists>conn t'. error_measure peer lm pow garbage c time (conn_of []) t = Inr (conn, t')
    \<and> et_iterations t' = et_iterations t + 1 \<and> et_minibatches t' = et_minibatches t"
proof -
  obtain now w s where p: "peer = answer now w s" "worker_wf w" using srv by (auto simp: serves_test_def)
  have "\<exists>calc conn. get_model peer lm pow garbage c (conn_of []) = Inr (calc, conn)
    \<and> (\<forall>j<length (et_minibatches t). caught_only (calc (et_minibatches t ! j) (ucast (word_of_nat j * m))))"
  proof (cases "cf_model_type c = LOGISTICREGRESSION")
    case True
    then obtain now w s where s: "peer = answer now w s" "worker_wf w" "lrm_weights (sv_lr s) \<noteq> []"
      "length (lrm_weights (sv_lr s)) < 10000000" "\<forall>ds\<in>set (et_minibatches t). scorable (length (lrm_weights (sv_lr s))) ds"
      using srv by (auto simp: serves_test_def)
    obtain conn where "get_model (answer now w s) lm pow garbage c (conn_of []) = Inr (\<lambda>ds _. lrm_calc_loss lm ds (sv_lr s), conn)"
      using error_measure_lr[OF True mb s(3,4,2)] by blast
    then show ?thesis using s(1,5) calc_loss_caught by fastforce
  next
    case False
    then obtain now w s where s: "peer = answer now w s" "worker_wf w" "mf_wf (sv_mf s)"
      "length (mf_serialize_to (sv_mf s)) \<le> THREAD_BUFFER_SIZE" "rateable (sv_mf s) (unat m) (et_minibatches t)"
      using srv by (auto simp: serves_test_def)
    have cf: "cf_model_type c = COLLABORATIVE_FILTERING" using mode False by (simp add: watched_def)
    obtain mf conn where mf: "get_full_mf_model (answer now w s) garbage (conn_of []) = Inr (mf, conn)" "mf_shape mf = mf_shape (sv_mf s)"
      using mf_full_model_received[OF s(3,4,2)] by blast
    have "mf_wf mf" "rateable mf (unat m) (et_minibatches t)" using s(3,5) mf_wf_shape[OF mf(2)] mf(2)
      by (simp_all add: rateable_def mf_shape_def)
    then show ?thesis using mf(1) cf mf_calc_loss_caught s(1) by (auto simp: get_model_def)
  qed
  then obtain calc conn where calc: "get_model peer lm pow garbage c (conn_of []) = Inr (calc, conn)"
    "\<And>j. j < length (et_minibatches t) \<Longrightarrow> caught_only (calc (et_minibatches t ! j) (ucast (la_start_index loss_zero + word_of_nat j * m)))"
    by (auto simp: loss_zero_def)
  obtain y where "loss_loop c calc (et_minibatches t) (loss_zero, et_curr_error t) = Inr y"
    using loss_loop_caught[of c m "et_minibatches t" calc loss_zero] mb calc(2) by blast
  then show ?thesis using calc(1) it by (cases y) (auto simp: error_measure_def Let_def)
qed

lemma i32_incr:
  assumes "sint (x :: i32) < 2 ^ 31 - 1"
  shows "sint (x + 1) = sint x + 1"
  using assms sint_ge[of x] by (simp add: sint_word_ariths signed_take_bit_int_eq_self)

lemma error_loop_ends:
  assumes conf: "watched c" "get_minibatch_size c = Inr m"
    and "\<forall>(peer, now)\<in>set turns. serves_test c m (et_minibatches t) peer"
    and "sint iters - sint (et_iterations t) < int (length turns)" "0 < length turns"
  shows "\<exists>status\<in>{0, 1}. error_loop lm pow garbage c True iters thr turns t = Inl (Exit_status status)"
  using assms(3-)
proof (induction turns arbitrary: t)
  case (Cons a turns)
  obtain peer time where a: "a = (peer, time)" by fastforce
  show ?case
  proof (cases "error_exit True iters thr t")
    case (Some st)
    then show ?thesis by (auto simp: a error_exit_def split: if_splits)
  next
    case None
    then have lt: "sint (et_iterations t) < sint iters" by (auto simp: error_exit_def split: if_splits)
    have big: "sint iters < 2 ^ 31" using sint_lt[of iters] by simp
    have "serves_test c m (et_minibatches t) peer" "sint (et_iterations t) < 2 ^ 31 - 1" using Cons.prems(1) lt big by (auto simp: a)
    from error_measure_runs[OF conf this, of lm pow garbage time] obtain conn t' where
      t': "error_measure peer lm pow garbage c time (conn_of []) t = Inr (conn, t')"
      "et_iterations t' = et_iterations t + 1" "et_minibatches t' = et_minibatches t" by blast
    have "sint (et_iterations t + 1) = sint (et_iterations t) + 1"
      using lt big by (intro i32_incr) simp
    then have "sint iters - sint (et_iterations t') < int (length turns)" "0 < length turns"
      using Cons.prems(2) lt t'(2) by auto
    from Cons.IH[OF _ this] show ?thesis using Cons.prems(1) None t' by (simp add: a)
  qed
qed simp

text \<open>C18: A test run of the task ends, for logistic regression and for matrix factorisation. Against servers that
  can answer (\<open>serves_test\<close>: what is in the test set is in the model, and the model fits into the buffer of the server), which need not be the same
  server state twice, it leaves with status 0 or 1 within \<open>iters + 1\<close> turns, whatever the losses are, even
  when computing them throws.\<close>

theorem test_run_ends:
  assumes "watched c" "get_minibatch_size c = Inr m"
    and "\<forall>(peer, now)\<in>set turns. serves_test c m mbs peer" "nat (sint iters) < length turns"
  shows "\<exists>status\<in>{0, 1}. error_loop lm pow garbage c True iters thr turns (error_task_new start mbs) = Inl (Exit_status status)"
proof -
  have "\<forall>(peer, now)\<in>set turns. serves_test c m (et_minibatches (error_task_new start mbs)) peer"
    using assms(3) by (simp add: error_task_new_def)
  moreover have "sint iters - sint (et_iterations (error_task_new start mbs)) < int (length turns)" "0 < length turns"
    using assms(4) by (auto simp: error_task_new_def)
  ultimately show ?thesis by (rule error_loop_ends[OF assms(1,2)])
qed

section \<open>Instances\<close>

definition ex_watch_config :: configuration where
  "ex_watch_config = conf_new\<lparr>cf_minibatch_size := 1, cf_s3_size := 2, cf_model_type := LOGISTICREGRESSION, cf_test_set_range := (0, 2)\<rparr>"

lemma ex_watch_conf:
  "cf_model_type ex_watch_config = LOGISTICREGRESSION" "get_minibatch_size ex_watch_config = Inr 1"
  "get_s3_size ex_watch_config = Inr 2" "watch_range ex_watch_config = (0, 2)"
  by (simp_all add: ex_watch_config_def get_minibatch_size_def get_s3_size_def watch_range_def)

lemma ex_watch_source: "watch_source ex_watch_config (\<lambda>k l r. l) ex_bucket early (\<lambda>_. ex_samples) 2 1"
proof -
  have "source_ok (\<lambda>k l r. l) ex_bucket (\<lambda>_. ex_samples) 0 2 2 1 True x" if "x \<noteq> Drawn" for x
    using ex_source that by (auto simp: source_ok_def fetched_def)
  from this[of "access_of False early"] show ?thesis by (simp add: watch_source_def watched_def ex_watch_conf)
qed

lemma ex_watch_length: "length (watch_set ex_watch_config early (\<lambda>_. ex_samples) 2 1) = 4"
  by (simp add: watch_set_def length_test_set read_ids_def ex_watch_conf)

theorem test_set_read_witness:
  "\<exists>acts. error_fill (\<lambda>k l r. l) ex_bucket 1 ex_watch_config acts = Inr (watch_set ex_watch_config 1 (\<lambda>_. ex_samples) 2 1)"
proof -
  have "3 * length (watch_set ex_watch_config 1 (\<lambda>_. ex_samples) 2 1) < 2 ^ 31 - 1" by (simp add: ex_watch_length)
  from test_set_read[OF ex_watch_source this] show ?thesis by blast
qed

lemma ex_calc_loss: "lrm_calc_loss ex_libm ex_data (sv_lr server0) = Inr (0, 0)"
proof -
  have i1: "idx 1 = 1" by (simp add: idx_def)
  have mul: "f32_mul 0 0x3F800000 = 0" by (simp add: fp_evals)
  have d: "loss_dot [0, 0] [(1, 0x3F800000)] = Inr 0"
    by (simp add: loss_dot_def i1 vec_get_def mul ex_floats)
  have s: "s_1 ex_libm 0 = Inr f64_half"
    by (simp add: s_1_def ex_libm_def Let_def guard_rt_def ex_floats)
  have zero: "\<not> f64_eq f64_half 0" "\<not> f64_isnan 0" "\<not> f64_isinf 0"
    by (simp_all add: f64_eq_def f64_isnan_def f64_isinf_def dec_zero dec_examples fp_eq_def fp_signed_def)
  have l: "log_aux ex_libm f64_half = Inr 0" "log_aux ex_libm (f64_sub f64_one f64_half) = Inr 0"
    by (simp_all add: log_aux_def ex_libm_def Let_def guard_rt_def ex_floats zero)
  have c: "f64_mul f64_one 0 = 0" "f64_mul (f64_of_f32 (f32_sub f32_one 0x3F800000)) 0 = 0" "\<not> f32_eq 0 0x3F800000"
    by (simp_all add: f64_one_def f32_one_def fp_evals)
  have c2: "\<not> f64_less f64_half f64_half" "\<not> f64_less 0 0" "f64_sub 0 0 = 0"
    by (simp_all add: f64_half_def fp_evals)
  have "loss_step ex_libm [0, 0] ex_data 0 (0, 0) = Inr (0, 1)"
    by (simp add: loss_step_def ex_data_def sd_make_def vec_get_def d s l Let_def guard_rt_def c c2 ex_floats)
  moreover have "f64_of_f32 (f32_of_f64 (f64_sub f64_one (f64_div (f64_mul f64_one (f64_of_int 1)) (f64_of_int 1)))) = 0"
    by (simp add: f64_one_def fp_evals)
  ultimately show ?thesis
    by (simp add: lrm_calc_loss_def server0_def lrm_new_def replicate_2 guard_rt_def Let_def zero c2)
       (simp add: ex_data_def sd_make_def sd_num_samples_def c2 zero guard_rt_def)
qed

theorem error_task_measures_witness:
  "\<exists>conn t. error_measure (answer 0 worker0 server0) ex_libm (\<lambda>_ _. 0) mf_flat ex_watch_config 5 (conn_of []) (error_task_new 3 [ex_data])
      = Inr (conn, t) \<and> et_total_accuracy t = sum_of [0] \<and> after 0 worker0 server0 (cn_out conn) = Some server0"
proof -
  have "lrm_weights (sv_lr server0) = [0, 0]" by (simp add: server0_def lrm_new_def replicate_2)
  then show ?thesis
    using error_task_measures[of ex_watch_config 1 server0 worker0 "[(0, 0)]" "error_task_new 3 [ex_data]" ex_libm 0 "\<lambda>_ _. 0" mf_flat 5]
      worker0_wf ex_watch_conf(1,2) ex_calc_loss by (fastforce simp: error_task_new_def)
qed

definition ex_watch_mf :: configuration where
  "ex_watch_mf = ex_watch_config\<lparr>cf_model_type := COLLABORATIVE_FILTERING\<rparr>"

theorem test_run_ends_witness:
  "(\<exists>status\<in>{0, 1}. error_loop ex_libm (\<lambda>_ _. 0) mf_flat ex_watch_config True 1 0 (replicate 2 (answer 0 worker0 server0, 5))
      (error_task_new 3 [ex_data]) = Inl (Exit_status status))
    \<and> (\<exists>status\<in>{0, 1}. error_loop ex_libm (\<lambda>_ _. 0) mf_flat ex_watch_mf True 1 0 (replicate 2 (answer 0 worker0 server0, 5))
      (error_task_new 3 [sd_make [[(0, 0)], [(0, 0)]] []]) = Inl (Exit_status status))"
proof
  have "scorable 2 ex_data" by (simp add: scorable_def ex_data_def sd_make_def idx_def)
  moreover have "length (lrm_weights (sv_lr server0)) = 2" by (simp add: server0_def lrm_new_def)
  ultimately have "serves_test ex_watch_config 1 [ex_data] (answer 0 worker0 server0)"
    unfolding serves_test_def using worker0_wf ex_watch_conf(1) by (intro exI[of _ 0] exI[of _ worker0] exI[of _ server0]) auto
  then have "\<forall>(peer, now)\<in>set (replicate 2 (answer 0 worker0 server0, 5 :: u64)). serves_test ex_watch_config 1 [ex_data] peer" by simp
  from test_run_ends[OF _ ex_watch_conf(2) this, of 1] ex_watch_conf(1)
  show "\<exists>status\<in>{0, 1}. error_loop ex_libm (\<lambda>_ _. 0) mf_flat ex_watch_config True 1 0 (replicate 2 (answer 0 worker0 server0, 5))
      (error_task_new 3 [ex_data]) = Inl (Exit_status status)" by (simp add: watched_def)
next
  define mbs where "mbs = [sd_make [[(0 :: i32, 0 :: f32)], [(0, 0)]] []]"
  have conf: "watched ex_watch_mf" "get_minibatch_size ex_watch_mf = Inr 1" "cf_model_type ex_watch_mf \<noteq> LOGISTICREGRESSION"
    by (simp_all add: watched_def ex_watch_mf_def ex_watch_config_def get_minibatch_size_def)
  have "sv_mf server0 = mf_flat" by (simp add: server0_def)
  moreover have "mf_wf mf_flat" "length (mf_serialize_to mf_flat) \<le> THREAD_BUFFER_SIZE"
    by (simp_all add: mf_wf_def mf_flat_def mf_serialized_length THREAD_BUFFER_SIZE_def)
  moreover have "rateable mf_flat (unat (1 :: u64)) mbs"
    by (simp add: rateable_def mbs_def sd_make_def mf_flat_def idx_def less_Suc_eq All_less_Suc)
  ultimately have "serves_test ex_watch_mf 1 mbs (answer 0 worker0 server0)"
    unfolding serves_test_def using worker0_wf conf(3) by (intro exI[of _ 0] exI[of _ worker0] exI[of _ server0]) auto
  then have "\<forall>(peer, now)\<in>set (replicate 2 (answer 0 worker0 server0, 5 :: u64)). serves_test ex_watch_mf 1 mbs peer" by simp
  from test_run_ends[OF conf(1,2) this, of 1]
  show "\<exists>status\<in>{0, 1}. error_loop ex_libm (\<lambda>_ _. 0) mf_flat ex_watch_mf True 1 0 (replicate 2 (answer 0 worker0 server0, 5))
      (error_task_new 3 [sd_make [[(0, 0)], [(0, 0)]] []]) = Inl (Exit_status status)" by (simp add: mbs_def)
qed

end
