(* ===== verification/LibsvmParse.thy ===== *)
theory LibsvmParse
  imports S3Iter "HOL-Library.Sublist"
begin

text \<open>
  The text of a libsvm file, \<open><label> <index>:<value> ...\<close> on each line, piece into minibatches:
  the parsing half of \<open>S3IteratorLibsvm.cpp\<close>.

  The code keeps the whole text and an index that only grows, and never looks behind the index. The
  model keeps the text from the index on; \<open>cur\<close> is \<open>data[index]\<close>, which is the terminating zero at
  the end of a \<open>std::string\<close>. The zero that \<open>readNum\<close> writes behind a number for \<open>sscanf\<close> and takes
  back ends the number that is scanned. A number that does not fit its type is undefined in \<open>sscanf\<close>.
\<close>

section \<open>Characters at the index\<close>

definition cur :: "string \<Rightarrow> char" where
  "cur s = (case s of [] \<Rightarrow> CHR 0x00 | c # _ \<Rightarrow> c)"

definition newline :: char where "newline = CHR 0x0A"

definition ignore_spaces :: "string \<Rightarrow> bool \<times> string" where
  "ignore_spaces s = (let s = dropWhile is_space s in (is_digit (cur s), s))"

definition ignore_spaces_not_newline :: "string \<Rightarrow> bool \<times> string" where
  "ignore_spaces_not_newline s =
     (let s = dropWhile (\<lambda>c. c \<noteq> newline \<and> is_space c) s in (is_digit (cur s), s))"

section \<open>Numbers\<close>

text \<open>\<open>sscanf\<close> of a text that starts with a digit; it always finds a number.\<close>

definition scan_int :: "string \<Rightarrow> i32 res" where
  "scan_int s = (let n = digits_value (takeWhile is_digit s)
     in if n < 2 ^ 31 then Inr (word_of_nat n) else Inl Undefined_behaviour)"

definition scan_u64 :: "string \<Rightarrow> u64 res" where
  "scan_u64 s = (let n = digits_value (takeWhile is_digit s)
     in if n < 2 ^ 64 then Inr (word_of_nat n) else Inl Undefined_behaviour)"

definition scan_f32 :: "string \<Rightarrow> f32" where
  "scan_f32 s =
     (let ip = takeWhile is_digit s;
          fp = (case dropWhile is_digit s of [] \<Rightarrow> [] | c # r \<Rightarrow> if c = CHR ''.'' then takeWhile is_digit r else [])
      in f32_lit (digits_value (ip @ fp)) (10 ^ length fp))"

text \<open>\<open>readNum<T>\<close>: \<open>part\<close> are the characters of a number of the type.\<close>

definition read_num :: "(char \<Rightarrow> bool) \<Rightarrow> (string \<Rightarrow> 'a res) \<Rightarrow> string \<Rightarrow> ('a \<times> string) res" where
  "read_num part scan s =
     (if \<not> is_digit (cur s) then Inl (Runtime_error ''Error in the dataset'')
      else rbind (scan (takeWhile part s)) (\<lambda>v. Inr (v, dropWhile part s)))"

definition num_char :: "char \<Rightarrow> bool" where
  "num_char c \<longleftrightarrow> is_digit c \<or> c = CHR ''.''"

abbreviation "read_int \<equiv> read_num is_digit scan_int"
abbreviation "read_u64 \<equiv> read_num is_digit scan_u64"
abbreviation "read_f32 \<equiv> read_num num_char (\<lambda>s. Inr (scan_f32 s))"

lemma cur_digit: "is_digit (cur s) \<Longrightarrow> \<exists>c r. s = c # r \<and> is_digit c"
  by (cases s) (auto simp: cur_def is_digit_def ccode_def)

text \<open>A number takes at least one character.\<close>

lemma read_num_shorter:
  assumes "read_num part scan s = Inr (v, r)" "\<And>c. is_digit c \<Longrightarrow> part c"
  shows "length r < length s"
proof -
  from assms(1) have "is_digit (cur s)" and r: "r = dropWhile part s" by (auto simp: read_num_def split: if_splits)
  then obtain c t where "s = c # t" "part c" using cur_digit assms(2) by blast
  then show ?thesis using length_dropWhile_le[of part t] by (simp add: r)
qed

section \<open>Samples\<close>

text \<open>The pairs of a line; \<open>None\<close> is \<open>return false\<close>, the text ends inside the sample.\<close>

function read_pairs :: "string \<Rightarrow> sample \<Rightarrow> (sample \<times> string) option res" where
  "read_pairs s row =
     (let (digit, s1) = ignore_spaces_not_newline s
      in if \<not> digit
         then (if cur s1 = newline then Inr (Some (row, s1))
               else if cur s1 = CHR 0x00 then Inr None
               else Inl (Runtime_error ''Error parsing while reading pairs''))
         else rbind (read_u64 s1) (\<lambda>(ind, s2).
              if cur s2 \<noteq> CHR '':'' then Inr None
              else rbind (read_f32 (tl s2)) (\<lambda>(value, s3). read_pairs s3 (row @ [(ucast ind, value)]))))"
  by pat_completeness auto

termination
proof (relation "measure (\<lambda>(s, _). length s)", goal_cases)
  case (2 s row x digit s1 y ind s2 z w s3)
  have "length s1 \<le> length s"
    using 2 length_dropWhile_le by (auto simp: ignore_spaces_not_newline_def Let_def)
  moreover have "length s2 < length s1" using read_num_shorter 2 by fastforce
  moreover have "length s3 < length (tl s2)" using read_num_shorter[of num_char "\<lambda>s. Inr (scan_f32 s)" "tl s2"] 2 by (auto simp: num_char_def)
  ultimately show ?case by simp
qed simp_all

declare read_pairs.simps [simp del]

fun read_samples :: "nat \<Rightarrow> string \<Rightarrow> (sample \<times> f32) list \<Rightarrow> ((sample \<times> f32) list \<times> string) option res" where
  "read_samples 0 s samples = Inr (Some (samples, s))"
| "read_samples (Suc n) s samples =
     (let (digit, s) = ignore_spaces s
      in if \<not> digit
         then (if cur s = CHR 0x00 then Inr None else Inl (Runtime_error ''Expecting a digit here''))
         else rbind (read_int s) (\<lambda>(label, s).
              rbind (read_pairs s []) (\<lambda>pairs. case pairs of
                  None \<Rightarrow> Inr None
                | Some (row, s) \<Rightarrow> read_samples n s (samples @ [(row, f32_of_int (sint label))]))))"

text \<open>\<open>catch (...)\<close> turns every exception into one.\<close>

definition parse_error :: "'a res \<Rightarrow> 'a res" where
  "parse_error m = (case m of
       Inl (Runtime_error _) \<Rightarrow> Inl (Runtime_error ''Error parsing'')
     | Inl (Length_error _) \<Rightarrow> Inl (Runtime_error ''Error parsing'')
     | Inl Out_of_range \<Rightarrow> Inl (Runtime_error ''Error parsing'')
     | _ \<Rightarrow> m)"

definition build_dataset_libsvm :: "u64 \<Rightarrow> string \<Rightarrow> (sparse_dataset \<times> string) option res" where
  "build_dataset_libsvm minibatch_rows data =
     parse_error (rbind (read_samples (unat minibatch_rows) data []) (\<lambda>r. case r of
         None \<Rightarrow> Inr None
       | Some (samples, s) \<Rightarrow> Inr (Some (sd_make (map fst samples) (map snd samples), s))))"

section \<open>Minibatches of a piece of the file\<close>

definition read_until_newline :: "string \<Rightarrow> string res" where
  "read_until_newline data = (case dropWhile (\<lambda>c. c \<noteq> newline) data of
       [] \<Rightarrow> Inl (Runtime_error ''Error parsing: *index >= data.size()'')
     | _ # s \<Rightarrow> Inr s)"

text \<open>
  \<open>while (1)\<close> over the minibatches. A turn depends on the rest of the text only, so one that takes
  nothing from it (a minibatch of no rows) is repeated for ever.
\<close>

function parse_minibatches :: "u64 \<Rightarrow> string \<Rightarrow> sparse_dataset list \<Rightarrow> sparse_dataset list res" where
  "parse_minibatches minibatch_rows s result =
     rbind (build_dataset_libsvm minibatch_rows s) (\<lambda>r. case r of
         None \<Rightarrow> Inr result
       | Some (minibatch, s1) \<Rightarrow>
           if length s \<le> length s1 then Inl Blocked
           else parse_minibatches minibatch_rows s1 (result @ [minibatch]))"
  by pat_completeness auto

termination
  by (relation "measure (\<lambda>(_, s, _). length s)") simp_all

declare parse_minibatches.simps [simp del]

definition parse_obj_libsvm :: "u64 \<Rightarrow> string \<Rightarrow> sparse_dataset list res" where
  "parse_obj_libsvm minibatch_rows data =
     rbind (read_until_newline data) (\<lambda>s.
       if s = [] then Inl (Runtime_error ''Error parsing: index >= data.size()'')
       else parse_minibatches minibatch_rows s [])"

text \<open>The two formats that are declared and not supported.\<close>

definition build_dataset_csv :: "string \<Rightarrow> u64 \<Rightarrow> bool" where "build_dataset_csv data index = False"
definition build_dataset_vowpal_wabbit :: "string \<Rightarrow> u64 \<Rightarrow> bool" where "build_dataset_vowpal_wabbit data index = False"


section \<open>What is written is read\<close>

text \<open>A line as text: its label, and its pairs with the text of their values.\<close>

type_synonym svm_line = "nat \<times> (nat \<times> string) list"

definition svm_entry :: "nat \<times> string \<Rightarrow> string" where
  "svm_entry = (\<lambda>(i, t). '' '' @ show_nat i @ '':'' @ t)"

definition svm_text :: "svm_line \<Rightarrow> string" where
  "svm_text = (\<lambda>(lab, es). show_nat lab @ concat (map svm_entry es) @ [newline])"

definition num_text :: "string \<Rightarrow> bool" where
  "num_text t \<longleftrightarrow> t \<noteq> [] \<and> is_digit (hd t) \<and> list_all num_char t"

definition svm_line_ok :: "svm_line \<Rightarrow> bool" where
  "svm_line_ok = (\<lambda>(lab, es). lab < 2 ^ 31 \<and> (\<forall>(i, t)\<in>set es. i < 2 ^ 64 \<and> num_text t))"

definition svm_sample :: "svm_line \<Rightarrow> sample \<times> f32" where
  "svm_sample = (\<lambda>(lab, es). (map (\<lambda>(i, t). (word_of_nat i, scan_f32 t)) es, f32_of_int (int lab)))"

definition svm_dataset :: "svm_line list \<Rightarrow> sparse_dataset" where
  "svm_dataset ls = sd_make (map (fst \<circ> svm_sample) ls) (map (snd \<circ> svm_sample) ls)"

lemma newline_props [simp]: "is_space newline" "\<not> is_digit newline" "\<not> num_char newline" "newline \<noteq> CHR '':''"
  "newline \<noteq> CHR '' ''" "CHR '' '' \<noteq> newline" "CHR '':'' \<noteq> newline" "CHR 0x00 \<noteq> newline"
  by (simp_all add: newline_def is_space_def is_digit_def ccode_def num_char_def)

lemma other_chars [simp]: "is_space (CHR '' '')" "\<not> is_digit (CHR '' '')" "\<not> is_digit (CHR '':'')" "\<not> num_char (CHR '' '')"
  "\<not> num_char (CHR '':'')" "\<not> is_digit (CHR 0x00)"
  by (simp_all add: is_space_def is_digit_def ccode_def num_char_def)

lemma cur_simps [simp]: "cur [] = CHR 0x00" "cur (c # s) = c"
  by (simp_all add: cur_def)

lemma digits_value_le: "digits_value ds \<le> digits_value (ds @ es)"
proof (induction es rule: rev_induct)
  case (snoc c es)
  then show ?case using digits_value_append1[of "ds @ es" c] by simp
qed simp

lemma take_drop_all:
  assumes "list_all P ds" "r = [] \<or> \<not> P (hd r)"
  shows "takeWhile P (ds @ r) = ds" "dropWhile P (ds @ r) = r"
  using assms by (cases r; auto simp: list_all_iff takeWhile_tail)+

lemma read_digits:
  assumes "list_all is_digit ds" "ds \<noteq> []" "r = [] \<or> \<not> is_digit (hd r)"
  shows "digits_value ds < 2 ^ 64 \<Longrightarrow> read_u64 (ds @ r) = Inr (word_of_nat (digits_value ds), r)"
    and "digits_value ds < 2 ^ 31 \<Longrightarrow> read_int (ds @ r) = Inr (word_of_nat (digits_value ds), r)"
proof -
  have "is_digit (cur (ds @ r))" using assms(1,2) by (cases ds) auto
  moreover have tw: "takeWhile is_digit ds = ds" using assms(1) by (simp add: list_all_iff)
  ultimately show "digits_value ds < 2 ^ 64 \<Longrightarrow> read_u64 (ds @ r) = Inr (word_of_nat (digits_value ds), r)"
    "digits_value ds < 2 ^ 31 \<Longrightarrow> read_int (ds @ r) = Inr (word_of_nat (digits_value ds), r)"
    by (simp_all add: read_num_def take_drop_all[OF assms(1,3)] scan_u64_def scan_int_def Let_def tw del: takeWhile_eq_all_conv)
qed

lemma read_shown:
  assumes "r = [] \<or> \<not> is_digit (hd r)"
  shows "n < 2 ^ 64 \<Longrightarrow> read_u64 (show_nat n @ r) = Inr (word_of_nat n, r)"
    and "n < 2 ^ 31 \<Longrightarrow> read_int (show_nat n @ r) = Inr (word_of_nat n, r)"
  using read_digits[OF _ _ assms, of "show_nat n"] show_nat_digits[of n] by (simp_all add: digits_value_show)

lemma read_value:
  assumes "num_text t" "r = [] \<or> \<not> num_char (hd r)"
  shows "read_f32 (t @ r) = Inr (scan_f32 t, r)"
  using assms take_drop_all[of num_char t r] by (cases t) (auto simp: read_num_def num_text_def)

lemma narrow_of_nat: "(ucast (word_of_nat i :: u64) :: i32) = word_of_nat i"
  by transfer simp

text \<open>One pair of a line, whatever follows it.\<close>

lemma read_pairs_entry:
  assumes "i < 2 ^ 64" "num_text t" "r = [] \<or> \<not> num_char (hd r)"
  shows "read_pairs (svm_entry (i, t) @ r) row = read_pairs r (row @ [(word_of_nat i, scan_f32 t)])"
proof -
  have "dropWhile (\<lambda>c. c \<noteq> newline \<and> is_space c) (svm_entry (i, t) @ r) = show_nat i @ CHR '':'' # t @ r"
    using show_nat_hd[of i] digit_not_space newline_props by (auto simp: svm_entry_def)
  moreover have "is_digit (cur (show_nat i @ CHR '':'' # t @ r))" using show_nat_hd[of i] by auto
  ultimately show ?thesis
    using assms read_value[OF assms(2,3)]
    by (subst read_pairs.simps) (simp add: ignore_spaces_not_newline_def read_shown narrow_of_nat)
qed


lemma read_pairs_end: "read_pairs (newline # s) row = Inr (Some (row, newline # s))"
  by (subst read_pairs.simps) (simp add: ignore_spaces_not_newline_def)

lemma read_pairs_line:
  assumes "\<forall>(i, t)\<in>set es. i < 2 ^ 64 \<and> num_text t" "r = [] \<or> hd r = newline"
  shows "read_pairs (concat (map svm_entry es) @ r) row = read_pairs r (row @ map (\<lambda>(i, t). (word_of_nat i, scan_f32 t)) es)"
  using assms(1)
proof (induction es arbitrary: row)
  case (Cons e es)
  obtain i t where e: "e = (i, t)" by (cases e)
  let ?r = "concat (map svm_entry es) @ r"
  have "?r = [] \<or> \<not> num_char (hd ?r)" using assms(2) by (cases es) (auto simp: svm_entry_def split: prod.splits)
  with read_pairs_entry[of i t ?r row] Cons show ?case by (simp add: e)
qed simp

text \<open>A sample, after white space.\<close>

lemma read_sample:
  assumes "svm_line_ok (lab, es)" "list_all is_space ws"
  shows "read_samples (Suc n) (ws @ svm_text (lab, es) @ r) acc = read_samples n (newline # r) (acc @ [svm_sample (lab, es)])"
proof -
  have ok: "lab < 2 ^ 31" "\<forall>(i, t)\<in>set es. i < 2 ^ 64 \<and> num_text t" using assms(1) by (auto simp: svm_line_ok_def)
  let ?r = "concat (map svm_entry es) @ newline # r"
  have t: "svm_text (lab, es) @ r = show_nat lab @ ?r" by (simp add: svm_text_def)
  have "dropWhile is_space (ws @ svm_text (lab, es) @ r) = show_nat lab @ ?r"
    using assms(2) show_nat_hd[of lab] digit_not_space unfolding t by (auto simp: list_all_iff)
  moreover have "is_digit (cur (show_nat lab @ ?r))" using show_nat_hd[of lab] by auto
  moreover have "?r = [] \<or> \<not> is_digit (hd ?r)" by (cases es) (auto simp: svm_entry_def split: prod.splits)
  moreover have "sint (word_of_nat lab :: i32) = int lab" using ok(1) by (simp add: signed_of_nat signed_take_bit_int_eq_self)
  ultimately show ?thesis
    using read_shown(2)[of ?r lab] ok(1) read_pairs_line[OF ok(2), of "newline # r" "[]"]
    by (simp add: ignore_spaces_def Let_def read_pairs_end svm_sample_def)
qed

lemma read_lines:
  assumes "\<forall>l\<in>set ls. svm_line_ok l" "list_all is_space ws"
  shows "\<exists>ws'. list_all is_space ws' \<and> (ls \<noteq> [] \<longrightarrow> length ws' = 1) \<and> (ls = [] \<longrightarrow> ws' = ws)
    \<and> read_samples (length ls + n) (ws @ concat (map svm_text ls) @ r) acc = read_samples n (ws' @ r) (acc @ map svm_sample ls)"
  using assms
proof (induction ls arbitrary: ws acc)
  case (Cons l ls)
  obtain lab es where l: "l = (lab, es)" by (cases l)
  have "list_all is_space [newline]" by simp
  from Cons.IH[OF _ this, of "acc @ [svm_sample l]"] Cons.prems(1) obtain ws' where
    "list_all is_space ws'" "ls \<noteq> [] \<longrightarrow> length ws' = 1" "ls = [] \<longrightarrow> ws' = [newline]"
    "read_samples (length ls + n) ([newline] @ concat (map svm_text ls) @ r) (acc @ [svm_sample l])
      = read_samples n (ws' @ r) ((acc @ [svm_sample l]) @ map svm_sample ls)" by auto
  with read_sample[of lab es ws "length ls + n" "concat (map svm_text ls) @ r" acc] Cons.prems l show ?case
    by (intro exI[of _ ws']) (cases "ls = []"; simp)
qed auto

text \<open>A text that ends inside a line.\<close>

lemma strict_prefix_append_cases:
  assumes "strict_prefix xs (ys @ zs)"
  shows "strict_prefix xs ys \<or> (\<exists>xs'. xs = ys @ xs' \<and> strict_prefix xs' zs)"
  using assms by (auto simp: strict_prefix_def prefix_append)

definition cut_result :: "string \<Rightarrow> 'a res \<Rightarrow> 'a res" where
  "cut_result s m = (if s \<noteq> [] \<and> last s = CHR '':'' then Inl (Runtime_error ''Error in the dataset'') else m)"

lemma digits_not_colon: "list_all is_digit ds \<Longrightarrow> ds = [] \<or> last ds \<noteq> CHR '':''"
  by (metis last_in_set list_all_iff other_chars(3))

lemma prefix_digits:
  assumes "strict_prefix ds (show_nat n)"
  shows "list_all is_digit ds" "digits_value ds \<le> n"
proof -
  obtain r where r: "show_nat n = ds @ r" using assms by (auto simp: strict_prefix_def prefix_def)
  show "list_all is_digit ds" using show_nat_digits[of n] by (simp add: r)
  show "digits_value ds \<le> n" using digits_value_le[of ds r] digits_value_show[of n] by (simp add: r)
qed


lemma read_pairs_blank: "read_pairs [] row = Inr None" "read_pairs '' '' row = Inr None"
  by (simp_all add: read_pairs.simps[of "[]"] read_pairs.simps[of "'' ''"] ignore_spaces_not_newline_def)

lemma read_pairs_digits:
  assumes "list_all is_digit ds" "ds \<noteq> []" "digits_value ds < 2 ^ 64"
  shows "read_pairs (CHR '' '' # ds) row = Inr None"
proof -
  obtain c r where "ds = c # r" "is_digit c" using assms(1,2) by (cases ds) auto
  then have "dropWhile (\<lambda>c. c \<noteq> newline \<and> is_space c) (CHR '' '' # ds) = ds" "is_digit (cur ds)"
    using digit_not_space[of c] by auto
  then show ?thesis using read_digits(1)[of ds "[]"] assms
    by (subst read_pairs.simps) (simp add: ignore_spaces_not_newline_def)
qed

lemma read_pairs_colon:
  assumes "i < 2 ^ 64"
  shows "read_pairs (CHR '' '' # show_nat i @ '':'') row = Inl (Runtime_error ''Error in the dataset'')"
proof -
  have "dropWhile (\<lambda>c. c \<noteq> newline \<and> is_space c) (CHR '' '' # show_nat i @ '':'') = show_nat i @ '':''"
    using show_nat_hd[of i] digit_not_space by auto
  moreover have "is_digit (cur (show_nat i @ '':''))" using show_nat_hd[of i] by auto
  moreover have "read_f32 [] = Inl (Runtime_error ''Error in the dataset'')" by (simp add: read_num_def)
  ultimately show ?thesis using assms
    by (subst read_pairs.simps) (simp add: ignore_spaces_not_newline_def read_shown)
qed

lemma prefix_num_text:
  assumes "strict_prefix t' t" "num_text t" "t' \<noteq> []"
  shows "num_text t'" "last t' \<noteq> CHR '':''"
proof -
  obtain r where r: "t = t' @ r" using assms(1) by (auto simp: strict_prefix_def prefix_def)
  then show "num_text t'" using assms(2,3) by (auto simp: num_text_def)
  then show "last t' \<noteq> CHR '':''" by (metis last_in_set list_all_iff num_text_def other_chars(5))
qed

lemma read_pairs_cut_entry:
  assumes "strict_prefix piece (svm_entry (i, t))" "i < 2 ^ 64" "num_text t"
  shows "read_pairs piece row = cut_result piece (Inr None)"
proof -
  consider "piece = []" | c where "piece = CHR '' '' # c" "strict_prefix c (show_nat i @ CHR '':'' # t)"
    using assms(1) by (cases piece) (auto simp: svm_entry_def)
  then show ?thesis
  proof cases
    case 1
    then show ?thesis by (simp add: read_pairs_blank cut_result_def)
  next
    case 2
    from strict_prefix_append_cases[OF 2(2)] show ?thesis
    proof
      assume ds: "strict_prefix c (show_nat i)"
      then show ?thesis using 2(1) prefix_digits[OF ds] read_pairs_digits[of c row] assms(2) digits_not_colon[of c]
        by (cases "c = []") (auto simp: read_pairs_blank cut_result_def)
    next
      assume "\<exists>c'. c = show_nat i @ c' \<and> strict_prefix c' (CHR '':'' # t)"
      then obtain c' where c': "c = show_nat i @ c'" "strict_prefix c' (CHR '':'' # t)" by blast
      consider "c' = []" | "c' = '':''" | t' where "c' = CHR '':'' # t'" "strict_prefix t' t" "t' \<noteq> []"
        using c'(2) by (cases c'; cases "tl c'") auto
      then show ?thesis
      proof cases
        case 1
        have "show_nat i \<noteq> []" "list_all is_digit (show_nat i)" using show_nat_digits[of i] by simp_all
        then show ?thesis using 2(1) c' 1 read_pairs_digits[of "show_nat i" row] digits_not_colon[of "show_nat i"] assms(2)
          by (simp add: digits_value_show cut_result_def)
      next
        case c2: 2
        then show ?thesis using 2(1) c' read_pairs_colon[OF assms(2)] by (simp add: cut_result_def)
      next
        case 3
        have "piece = svm_entry (i, t')" using 2(1) c'(1) 3(1) by (simp add: svm_entry_def)
        moreover have "last (svm_entry (i, t')) = last t'" using 3(3) by (simp add: svm_entry_def)
        ultimately show ?thesis
          using read_pairs_entry[OF assms(2) prefix_num_text(1)[OF 3(2) assms(3) 3(3)], of "[]" row]
            prefix_num_text(2)[OF 3(2) assms(3) 3(3)]
          by (simp add: read_pairs_blank cut_result_def)
      qed
    qed
  qed
qed

lemma read_pairs_cut:
  assumes "strict_prefix piece (concat (map svm_entry es) @ [newline])" "\<forall>(i, t)\<in>set es. i < 2 ^ 64 \<and> num_text t"
  shows "read_pairs piece row = cut_result piece (Inr None)"
  using assms
proof (induction es arbitrary: piece row)
  case Nil
  then show ?case by (cases piece) (auto simp: read_pairs_blank cut_result_def)
next
  case (Cons e es)
  obtain i t where e: "e = (i, t)" by (cases e)
  have it: "i < 2 ^ 64" "num_text t" using Cons.prems(2) by (auto simp: e)
  have "strict_prefix piece (svm_entry e @ concat (map svm_entry es) @ [newline])" using Cons.prems(1) by simp
  from strict_prefix_append_cases[OF this] show ?case
  proof
    assume "strict_prefix piece (svm_entry e)"
    then show ?thesis using read_pairs_cut_entry it by (simp add: e)
  next
    assume "\<exists>c. piece = svm_entry e @ c \<and> strict_prefix c (concat (map svm_entry es) @ [newline])"
    then obtain c where c: "piece = svm_entry e @ c" "strict_prefix c (concat (map svm_entry es) @ [newline])" by blast
    have "c = [] \<or> hd c = CHR '' '' \<or> hd c = newline"
      using c(2) by (cases es; cases c) (auto simp: svm_entry_def split: prod.splits)
    then have "c = [] \<or> \<not> num_char (hd c)" by auto
    from read_pairs_entry[OF it this, of row] Cons.IH[OF c(2)] Cons.prems(2) have "read_pairs piece row = cut_result c (Inr None)"
      by (simp add: c(1) e)
    moreover have "last (svm_entry e) \<noteq> CHR '':''"
      using it(2) last_in_set[of t] by (fastforce simp: svm_entry_def e num_text_def list_all_iff)
    moreover have "svm_entry e \<noteq> []" by (simp add: e svm_entry_def)
    ultimately show ?thesis by (cases "c = []") (simp_all add: c(1) cut_result_def)
  qed
qed


lemma read_samples_cut:
  assumes "strict_prefix piece (svm_text l)" "svm_line_ok l" "list_all is_space ws"
  shows "read_samples (Suc n) (ws @ piece) acc = cut_result piece (Inr None)"
proof -
  obtain lab es where l: "l = (lab, es)" by (cases l)
  have ok: "lab < 2 ^ 31" "\<forall>(i, t)\<in>set es. i < 2 ^ 64 \<and> num_text t" using assms(2) by (auto simp: l svm_line_ok_def)
  have blank: "dropWhile is_space ws = []" using assms(3) by (simp add: list_all_iff)
  have "strict_prefix piece (show_nat lab @ concat (map svm_entry es) @ [newline])" using assms(1) by (simp add: l svm_text_def)
  from strict_prefix_append_cases[OF this] consider "piece = []"
    | "list_all is_digit piece" "piece \<noteq> []" "digits_value piece \<le> lab"
    | c where "piece = show_nat lab @ c" "strict_prefix c (concat (map svm_entry es) @ [newline])"
    using prefix_digits by blast
  then show ?thesis
  proof cases
    case 1
    then show ?thesis by (simp add: ignore_spaces_def cut_result_def blank Let_def del: dropWhile_eq_Nil_conv)
  next
    case 2
    then obtain c r where p: "piece = c # r" "is_digit c" by (cases piece) auto
    have "dropWhile is_space (ws @ piece) = piece" using assms(3) p digit_not_space by (auto simp: list_all_iff)
    then show ?thesis using p 2 ok(1) read_digits(2)[of piece "[]"] digits_not_colon[OF 2(1)]
      by (simp add: ignore_spaces_def Let_def read_pairs_blank cut_result_def)
  next
    case 3
    have d: "dropWhile is_space (ws @ piece) = piece" "is_digit (cur piece)"
      using assms(3) show_nat_hd[of lab] digit_not_space unfolding 3(1) by (auto simp: list_all_iff)
    have "c = [] \<or> \<not> is_digit (hd c)"
      using 3(2) by (cases es; cases c) (auto simp: svm_entry_def split: prod.splits)
    then have "read_int piece = Inr (word_of_nat lab, c)" using read_shown(2)[of c lab] ok(1) by (simp add: 3(1))
    moreover have "(piece \<noteq> [] \<and> last piece = CHR '':'') = (c \<noteq> [] \<and> last c = CHR '':'')"
      using digits_not_colon[of "show_nat lab"] show_nat_digits[of lab] by (cases "c = []") (simp_all add: 3(1))
    ultimately show ?thesis using d read_pairs_cut[OF 3(2) ok(2), of "[]"]
      by (simp add: ignore_spaces_def Let_def cut_result_def)
  qed
qed

lemma read_samples_end:
  assumes "\<forall>l\<in>set ls. svm_line_ok l" "list_all is_space ws" "length ls < n" "svm_line_ok l" "strict_prefix piece (svm_text l)"
  shows "read_samples n (ws @ concat (map svm_text ls) @ piece) acc = cut_result piece (Inr None)"
proof -
  obtain k where n: "n = length ls + Suc k" using less_imp_add_positive[OF assms(3)] by (metis gr0_implies_Suc)
  from read_lines[OF assms(1,2), of "Suc k" piece acc] obtain ws' where
    "list_all is_space ws'" "read_samples n (ws @ concat (map svm_text ls) @ piece) acc = read_samples (Suc k) (ws' @ piece) (acc @ map svm_sample ls)"
    unfolding n by blast
  then show ?thesis using read_samples_cut[OF assms(5,4)] by simp
qed

text \<open>All minibatches of a text that ends inside a line.\<close>

lemma svm_text_length: "2 \<le> length (svm_text l)"
proof -
  obtain lab es where l: "l = (lab, es)" by (cases l)
  have "show_nat lab \<noteq> []" using show_nat_digits by blast
  then have "0 < length (show_nat lab)" by simp
  then show ?thesis unfolding svm_text_def l by (simp del: length_greater_0_conv)
qed

lemma chunks_Suc: "chunks m (Suc n) xs = take m xs # chunks m n (drop m xs)"
proof -
  have "[0..<Suc n] = 0 # map Suc [0..<n]" by (simp add: map_Suc_upt upt_conv_Cons del: upt_Suc)
  then show ?thesis by (simp add: chunks_def chunk_def add.commute del: upt_Suc)
qed

lemma parse_lines:
  assumes "\<forall>l\<in>set ls. svm_line_ok l" "list_all is_space ws" "0 < unat m" "svm_line_ok l" "strict_prefix piece (svm_text l)"
  shows "parse_minibatches m (ws @ concat (map svm_text ls) @ piece) acc =
    parse_error (cut_result piece (Inr (acc @ map svm_dataset (chunks (unat m) (length ls div unat m) ls))))"
  using assms(1,2)
proof (induction ls arbitrary: ws acc rule: measure_induct_rule[where f = length])
  case (less ls)
  show ?case
  proof (cases "length ls < unat m")
    case True
    then show ?thesis using read_samples_end[OF less.prems True assms(4,5), of "[]"]
      by (subst parse_minibatches.simps)
        (simp add: build_dataset_libsvm_def parse_error_def chunks_def cut_result_def)
  next
    case False
    define n a b where "n = unat m" and "a = take n ls" and "b = drop n ls"
    have ab: "ls = a @ b" "length a = n" "0 < n" "length b < length ls" using False assms(3) by (auto simp: a_def b_def n_def)
    then have ok: "\<forall>l\<in>set a. svm_line_ok l" "\<forall>l\<in>set b. svm_line_ok l" using less.prems(1) by auto
    have ne: "a \<noteq> []" using ab(2,3) by auto
    from read_lines[OF ok(1) less.prems(2), of 0 "concat (map svm_text b) @ piece" "[]"] ne obtain ws' where
      ws': "list_all is_space ws'" "length ws' = 1" "read_samples n (ws @ concat (map svm_text ls) @ piece) []
        = Inr (Some (map svm_sample a, ws' @ concat (map svm_text b) @ piece))" by (auto simp: ab)
    have "2 \<le> length (concat (map svm_text a))" using ne svm_text_length[of "hd a"] by (cases a) auto
    then have "\<not> length (ws @ concat (map svm_text ls) @ piece) \<le> length (ws' @ concat (map svm_text b) @ piece)"
      using ws'(2) by (simp add: ab(1))
    moreover have "build_dataset_libsvm m (ws @ concat (map svm_text ls) @ piece) = Inr (Some (svm_dataset a, ws' @ concat (map svm_text b) @ piece))"
      using ws'(3) by (simp add: build_dataset_libsvm_def n_def parse_error_def svm_dataset_def)
    ultimately have "parse_minibatches m (ws @ concat (map svm_text ls) @ piece) acc
        = parse_minibatches m (ws' @ concat (map svm_text b) @ piece) (acc @ [svm_dataset a])"
      by (subst parse_minibatches.simps) simp
    moreover have "length ls div n = Suc (length b div n)"
      using ab(2,3) div_add_self1[of n "length b"] by (simp add: ab(1))
    ultimately show ?thesis using less.IH[OF ab(4) ok(2) ws'(1), of "acc @ [svm_dataset a]"]
      by (simp add: n_def[symmetric] chunks_Suc a_def b_def)
  qed
qed

lemma parse_obj_lines:
  assumes "newline \<notin> set first" "\<forall>l\<in>set ls. svm_line_ok l" "ls \<noteq> [] \<or> piece \<noteq> []" "0 < unat m"
    and "svm_line_ok l" "strict_prefix piece (svm_text l)"
  shows "parse_obj_libsvm m (first @ newline # concat (map svm_text ls) @ piece)
    = parse_error (cut_result piece (Inr (map svm_dataset (chunks (unat m) (length ls div unat m) ls))))"
proof -
  let ?r = "concat (map svm_text ls) @ piece"
  have "dropWhile (\<lambda>c. c \<noteq> newline) (first @ newline # ?r) = newline # ?r"
    using assms(1) by (induction first) auto
  moreover have "?r \<noteq> []" using assms(3) svm_text_length[of "hd ls"] by (cases ls) auto
  ultimately have "parse_obj_libsvm m (first @ newline # ?r) = parse_minibatches m ([] @ ?r) []"
    by (simp add: parse_obj_libsvm_def read_until_newline_def del: append_is_Nil_conv)
  then show ?thesis using parse_lines[OF assms(2) _ assms(4,5,6), of "[]" "[]"] by simp
qed

text \<open>
  C28: A piece of a libsvm file that does not end right behind a colon is cut into the minibatches of its
  complete lines behind the first newline: what precedes that newline is skipped, also when it is a complete first line, every
  full minibatch after it is read as it was written, and the
  rest, which may end inside a line, is dropped. A piece that ends right behind a colon throws (\<open>libsvm_cut_at_colon\<close>).
\<close>

theorem libsvm_piece_parsed:
  assumes "newline \<notin> set first" "\<forall>l\<in>set ls. svm_line_ok l" "ls \<noteq> [] \<or> piece \<noteq> []" "0 < unat m"
    and "svm_line_ok l" "strict_prefix piece (svm_text l)" "piece = [] \<or> last piece \<noteq> CHR '':''"
  shows "parse_obj_libsvm m (first @ newline # concat (map svm_text ls) @ piece)
    = Inr (map svm_dataset (chunks (unat m) (length ls div unat m) ls))"
  using parse_obj_lines[OF assms(1-6)] assms(7) by (auto simp: cut_result_def parse_error_def)

definition ex_svm :: "svm_line list" where "ex_svm = [(1, [(7, ''0.5'')])]"

lemma ex_svm: "\<forall>l\<in>set ex_svm. svm_line_ok l" "svm_line_ok (hd ex_svm)" "ex_svm \<noteq> []" "svm_text (hd ex_svm) = ''1 7:0.5'' @ [newline]"
proof -
  show "\<forall>l\<in>set ex_svm. svm_line_ok l" "svm_line_ok (hd ex_svm)"
    by (simp_all add: ex_svm_def svm_line_ok_def num_text_def is_digit_def num_char_def ccode_def)
  have "show_nat 1 = ''1''" "show_nat 7 = ''7''" by code_simp+
  then show "svm_text (hd ex_svm) = ''1 7:0.5'' @ [newline]" by (simp add: ex_svm_def svm_text_def svm_entry_def)
qed (simp add: ex_svm_def)

theorem libsvm_piece_parsed_witness:
  "parse_obj_libsvm 1 (''5'' @ newline # concat (map svm_text ex_svm) @ ''1'')
     = Inr (map svm_dataset (chunks (unat (1 :: u64)) (length ex_svm div unat (1 :: u64)) ex_svm))"
  by (rule libsvm_piece_parsed[where l = "hd ex_svm"]) (simp_all add: ex_svm newline_def)

text \<open>
  A piece of the file that ends right behind a colon is not treated as one that ends inside a
  sample: the value is missing, and the parser throws.
\<close>

lemma libsvm_cut_at_colon:
  assumes "newline \<notin> set first" "\<forall>l\<in>set ls. svm_line_ok l" "0 < unat m"
    and "svm_line_ok l" "strict_prefix piece (svm_text l)" "piece \<noteq> []" "last piece = CHR '':''"
  shows "parse_obj_libsvm m (first @ newline # concat (map svm_text ls) @ piece) = Inl (Runtime_error ''Error parsing'')"
  using parse_obj_lines[OF assms(1,2) _ assms(3-5)] assms(6,7) by (simp add: cut_result_def parse_error_def)

lemma libsvm_cut_at_colon_example:
  "parse_obj_libsvm 1 (''5'' @ newline # concat (map svm_text ex_svm) @ ''1 7:'') = Inl (Runtime_error ''Error parsing'')"
  by (rule libsvm_cut_at_colon[where l = "hd ex_svm"]) (simp_all add: ex_svm newline_def)

end
