(* ===== verification/LibsvmIter.thy ===== *)
theory LibsvmIter
  imports LibsvmParse
begin

text \<open>
  \<open>S3IteratorLibsvm\<close>, the iterator over a libsvm file in S3 (\<open>S3IteratorLibsvm.h\<close>,
  \<open>S3IteratorLibsvm.cpp\<close>; the parser is in \<open>LibsvmParse\<close>). As in \<open>S3Iter\<close>, a background thread
  (\<open>lv_thread_step\<close>) fetches a range of the file, cuts it into minibatches and announces them, and
  \<open>getNext\<close> (\<open>lv_next\<close>) hands one out; adding the minibatches of a range, announcing one of them and
  a call of \<open>getNext\<close> are atomic. The contents of the ranges (\<open>s3\<close>) and the random draws (\<open>draw\<close>) are
  arguments. A fetch is repeated until it succeeds.
\<close>

section \<open>State\<close>

text \<open>\<open>lv_re\<close> is the state of the random engine: how many numbers were drawn.\<close>

record lv_iter =
  lv_file_size :: u64
  lv_minibatch_rows :: u64
  lv_random_access :: bool
  lv_cur_index :: u64
  lv_re :: nat
  lv_ring :: "sparse_dataset list circular_buffer"
  lv_num_ready :: i32
  lv_semaphore :: nat
  lv_unposted :: nat
  lv_pref_sem :: nat

definition lv_new :: "u64 \<Rightarrow> u64 \<Rightarrow> bool \<Rightarrow> lv_iter res" where
  "lv_new file_size minibatch_rows random_access =
     rbind (cb_new [] 100000) (\<lambda>ring.
     Inr \<lparr>lv_file_size = file_size, lv_minibatch_rows = minibatch_rows, lv_random_access = random_access,
          lv_cur_index = 0, lv_re = 0, lv_ring = ring, lv_num_ready = 0, lv_semaphore = 0, lv_unposted = 0,
          lv_pref_sem = read_ahead\<rparr>)"

section \<open>Which range is next\<close>

definition FETCH_SIZE :: u64 where "FETCH_SIZE = 10 * 1024 * 1024"

text \<open>
  \<open>draw k a b\<close> is the \<open>k\<close>-th draw of \<open>uniform_int_distribution<int>(a, b)\<close>: the last index of the file is narrowed
  to an \<open>int\<close>, and the number that is drawn is widened with its sign.
\<close>

definition get_file_range :: "(nat \<Rightarrow> i32 \<Rightarrow> i32 \<Rightarrow> i32) \<Rightarrow> u64 \<Rightarrow> lv_iter \<Rightarrow> (u64 \<times> u64) \<times> lv_iter" where
  "get_file_range draw file_size it =
     (if file_size < FETCH_SIZE then ((0, file_size), it)
      else if lv_random_access it then
        let left_index = scast (draw (lv_re it) 0 (ucast (file_size - 1)));
            left_index = (if file_size - left_index < FETCH_SIZE then file_size - FETCH_SIZE else left_index)
        in ((left_index, left_index + FETCH_SIZE), it\<lparr>lv_re := lv_re it + 1\<rparr>)
      else
        let cur_index = (if lv_cur_index it \<ge> file_size then 0 else lv_cur_index it);
            ret = (cur_index, min (cur_index + FETCH_SIZE) file_size);
            cur_index = cur_index + FETCH_SIZE;
            cur_index = min cur_index file_size
        in (ret, it\<lparr>lv_cur_index := cur_index\<rparr>))"

section \<open>The background thread\<close>

definition lv_push_samples :: "string \<Rightarrow> lv_iter \<Rightarrow> lv_iter res" where
  "lv_push_samples data it =
     rbind (parse_obj_libsvm (lv_minibatch_rows it) data) (\<lambda>dataset.
     rbind (cb_add dataset (lv_ring it)) (\<lambda>ring.
     Inr (it\<lparr>lv_ring := ring, lv_unposted := length dataset\<rparr>)))"

text \<open>One turn of the loop that announces the minibatches just added.\<close>

definition lv_post :: "lv_iter \<Rightarrow> lv_iter" where
  "lv_post it = it\<lparr>lv_num_ready := lv_num_ready it + 1, lv_semaphore := lv_semaphore it + 1,
                   lv_unposted := lv_unposted it - 1\<rparr>"

definition lv_fetch :: "(nat \<Rightarrow> i32 \<Rightarrow> i32 \<Rightarrow> i32) \<Rightarrow> (u64 \<times> u64 \<Rightarrow> string) \<Rightarrow> lv_iter \<Rightarrow> lv_iter res" where
  "lv_fetch draw s3 it =
     (if lv_pref_sem it = 0 then Inl Blocked
      else let (range', it) = get_file_range draw (lv_file_size it) (it\<lparr>lv_pref_sem := lv_pref_sem it - 1\<rparr>)
           in lv_push_samples (s3 range') it)"

definition lv_thread_step :: "(nat \<Rightarrow> i32 \<Rightarrow> i32 \<Rightarrow> i32) \<Rightarrow> (u64 \<times> u64 \<Rightarrow> string) \<Rightarrow> lv_iter \<Rightarrow> lv_iter res" where
  "lv_thread_step draw s3 it = (if 0 < lv_unposted it then Inr (lv_post it) else lv_fetch draw s3 it)"

section \<open>The next minibatch\<close>

text \<open>\<open>front().back()\<close> and \<open>front().pop_back()\<close>.\<close>

definition pop_back :: "'a list circular_buffer \<Rightarrow> ('a \<times> 'a list circular_buffer) res" where
  "pop_back ring =
     rbind (cb_front_elem ring) (\<lambda>q.
       if q = [] then Inl Undefined_behaviour
       else rbind (vec_set (cb_buffer ring) (unat (cb_front ring)) (butlast q)) (\<lambda>buf.
            Inr (last q, ring\<lparr>cb_buffer := buf\<rparr>)))"

definition lv_signal :: "lv_iter \<Rightarrow> lv_iter" where
  "lv_signal it = (if sint (lv_num_ready it) < 200 \<and> lv_pref_sem it < read_ahead
                   then it\<lparr>lv_pref_sem := lv_pref_sem it + 1\<rparr> else it)"

definition lv_next :: "lv_iter \<Rightarrow> (sparse_dataset \<times> lv_iter) res" where
  "lv_next it =
     (if lv_semaphore it = 0 then Inl Blocked
      else rbind (discard_empty (unat (cb_size (lv_ring it))) (lv_ring it)) (\<lambda>ring.
           rbind (pop_back ring) (\<lambda>(ret, ring).
           Inr (ret, lv_signal (it\<lparr>lv_semaphore := lv_semaphore it - 1, lv_ring := ring,
                                   lv_num_ready := lv_num_ready it - 1\<rparr>)))))"

section \<open>Runs\<close>

fun lv_turn :: "(nat \<Rightarrow> i32 \<Rightarrow> i32 \<Rightarrow> i32) \<Rightarrow> (u64 \<times> u64 \<Rightarrow> string) \<Rightarrow> turn \<Rightarrow> lv_iter \<times> sparse_dataset list \<Rightarrow>
    (lv_iter \<times> sparse_dataset list) res" where
  "lv_turn draw s3 Thread_turn (it, out) =
     unless_blocked (it, out) (rbind (lv_thread_step draw s3 it) (\<lambda>it. Inr (it, out)))"
| "lv_turn draw s3 Next_call (it, out) =
     unless_blocked (it, out) (rbind (lv_next it) (\<lambda>(ds, it). Inr (it, out @ [ds])))"

definition lv_run :: "(nat \<Rightarrow> i32 \<Rightarrow> i32 \<Rightarrow> i32) \<Rightarrow> (u64 \<times> u64 \<Rightarrow> string) \<Rightarrow> turn list \<Rightarrow> lv_iter \<times> sparse_dataset list \<Rightarrow>
    (lv_iter \<times> sparse_dataset list) res" where
  "lv_run draw s3 = rfold (lv_turn draw s3)"

text \<open>The range of the \<open>k\<close>-th fetch.\<close>

definition tiles :: "u64 \<Rightarrow> nat" where
  "tiles file_size = (unat file_size + unat FETCH_SIZE - 1) div unat FETCH_SIZE"

definition tile :: "u64 \<Rightarrow> nat \<Rightarrow> u64 \<times> u64" where
  "tile file_size j = (word_of_nat (j * unat FETCH_SIZE), word_of_nat (min (Suc j * unat FETCH_SIZE) (unat file_size)))"

definition random_range :: "(nat \<Rightarrow> i32 \<Rightarrow> i32 \<Rightarrow> i32) \<Rightarrow> u64 \<Rightarrow> nat \<Rightarrow> u64 \<times> u64" where
  "random_range draw file_size k =
     (let l = min (unat (scast (draw k 0 (ucast (file_size - 1))) :: u64)) (unat file_size - unat FETCH_SIZE)
      in (word_of_nat l, word_of_nat (l + unat FETCH_SIZE)))"

definition file_range :: "(nat \<Rightarrow> i32 \<Rightarrow> i32 \<Rightarrow> i32) \<Rightarrow> u64 \<Rightarrow> bool \<Rightarrow> nat \<Rightarrow> u64 \<times> u64" where
  "file_range draw file_size random_access k =
     (if file_size < FETCH_SIZE then (0, file_size)
      else if random_access then random_range draw file_size k
      else tile file_size (k mod tiles file_size))"

text \<open>The state of the two sources of ranges after \<open>k\<close> fetches.\<close>

definition range_state :: "u64 \<Rightarrow> nat \<Rightarrow> lv_iter \<Rightarrow> bool" where
  "range_state file_size k it \<longleftrightarrow> lv_file_size it = file_size \<and>
     (\<not> file_size < FETCH_SIZE \<longrightarrow>
       (if lv_random_access it then lv_re it = k
        else unat (lv_cur_index it) = (if k = 0 then 0 else min (Suc ((k - 1) mod tiles file_size) * unat FETCH_SIZE) (unat file_size))))"

lemma fetch_size: "unat FETCH_SIZE = 10485760" "FETCH_SIZE \<noteq> 0"
  by (simp_all add: FETCH_SIZE_def)

lemma min_word_nat: "min (x :: u64) y = word_of_nat (min (unat x) (unat y))"
  by (simp add: min_def word_le_nat_alt)

lemma tile_bounds:
  assumes "0 < unat file_size"
  shows "j < tiles file_size \<Longrightarrow> j * unat FETCH_SIZE < unat file_size"
    and "unat file_size \<le> tiles file_size * unat FETCH_SIZE" "0 < tiles file_size"
  using assms unfolding tiles_def fetch_size by (auto simp: less_eq_div_iff_mult_less_eq div_less_iff_less_mult)


lemma plus_fetch: "unat x < 2 ^ 63 \<Longrightarrow> unat (x + FETCH_SIZE) = unat x + unat FETCH_SIZE"
  by (subst unat_add_lem[THEN iffD1]) (simp_all add: fetch_size)

lemma random_left:
  assumes "x < n" "\<not> n < FETCH_SIZE"
  shows "(if n - x < FETCH_SIZE then n - FETCH_SIZE else x) = word_of_nat (min (unat x) (unat n - unat FETCH_SIZE))"
proof -
  have "unat (n - x) = unat n - unat x" "unat (n - FETCH_SIZE) = unat n - unat FETCH_SIZE"
    using assms by (auto simp: unat_sub word_le_nat_alt word_less_nat_alt)
  then show ?thesis using assms by (auto simp: word_less_nat_alt min_def simp flip: word_unat_eq_iff intro!: word_unat_eq_iff[THEN iffD2])
qed

lemma get_file_range_ok:
  assumes st: "range_state file_size k it" and size: "0 < file_size" "unat file_size < 2 ^ 63"
    and draw: "lv_random_access it \<Longrightarrow> uniform_int draw \<and> file_size \<le> 2 ^ 31"
  shows "\<exists>it'. get_file_range draw file_size it = (file_range draw file_size (lv_random_access it) k, it')
    \<and> range_state file_size (Suc k) it'
    \<and> it' = it\<lparr>lv_cur_index := lv_cur_index it', lv_re := lv_re it'\<rparr>"
proof (cases "file_size < FETCH_SIZE")
  case True
  then show ?thesis using st by (simp add: get_file_range_def file_range_def range_state_def)
next
  case big: False
  have pos: "0 < unat file_size" using size(1) by (simp add: unat_gt_0)
  show ?thesis
  proof (cases "lv_random_access it")
    case True
    have "(scast (draw k 0 (ucast (file_size - 1))) :: u64) < file_size"
      using drawn_range(2)[of draw 0 file_size k] draw[OF True] size(1) by simp
    then show ?thesis using True big st
      by (simp add: get_file_range_def file_range_def range_state_def random_left random_range_def Let_def)
  next
    case False
    define F T n where "F = unat FETCH_SIZE" and "T = tiles file_size" and "n = unat file_size"
    have T: "0 < T" "n \<le> T * F" "\<And>j. j < T \<Longrightarrow> j * F < n" "0 < F" "n < 2 ^ 63" "F < 2 ^ 63"
      using tile_bounds[OF pos] size(2) fetch_size by (auto simp: F_def T_def n_def)
    define cur where "cur = (if lv_cur_index it \<ge> file_size then 0 else lv_cur_index it)"
    define j where "j = k mod T"
    have j: "j < T" "j * F < n" using T(1,3) by (simp_all add: j_def)
    have ix: "unat (lv_cur_index it) = (if k = 0 then 0 else min (Suc ((k - 1) mod T) * F) n)"
      using st False big by (simp add: range_state_def F_def T_def n_def)
    have cur: "unat cur = j * F"
    proof (cases k)
      case 0
      then show ?thesis using ix T(1) pos by (simp add: cur_def j_def word_le_nat_alt)
    next
      case (Suc k')
      show ?thesis
      proof (cases "Suc (k' mod T) = T")
        case True
        then have "j = 0" using Suc by (simp add: j_def mod_Suc)
        moreover have "unat (lv_cur_index it) = n" using ix Suc True T(2) by simp
        ultimately show ?thesis by (simp add: cur_def n_def word_le_nat_alt)
      next
        case ne: False
        then have js: "j = Suc (k' mod T)" using Suc by (simp add: j_def mod_Suc)
        then have "unat (lv_cur_index it) = j * F" using ix Suc j(2) by simp
        then show ?thesis using j(2) by (simp add: cur_def n_def word_le_nat_alt)
      qed
    qed
    have nxt: "unat (cur + FETCH_SIZE) = Suc j * F"
      using plus_fetch[of cur] cur j(2) T(5) by (simp add: F_def)
    have "cur = word_of_nat (unat cur)" by simp
    then have "cur = word_of_nat (j * F)" by (simp only: cur)
    moreover have "min (cur + FETCH_SIZE) file_size = word_of_nat (min (Suc j * F) n)"
      by (simp only: min_word_nat nxt n_def)
    moreover have "unat (min (cur + FETCH_SIZE) file_size) = min (Suc j * F) n"
      by (simp add: min_def nxt n_def word_le_nat_alt del: mult_Suc)
    ultimately show ?thesis using False big st
      by (simp add: get_file_range_def file_range_def range_state_def Let_def cur_def[symmetric] tile_def
          F_def[symmetric] T_def[symmetric] n_def[symmetric] j_def[symmetric] del: mult_Suc)
  qed
qed


lemma get_file_range_step:
  assumes "range_state file_size k it" "0 < file_size" "unat file_size < 2 ^ 63"
    "lv_random_access it \<Longrightarrow> uniform_int draw \<and> file_size \<le> 2 ^ 31"
  shows "\<exists>c r. get_file_range draw file_size it = (file_range draw file_size (lv_random_access it) k, it\<lparr>lv_cur_index := c, lv_re := r\<rparr>)
    \<and> range_state file_size (Suc k) (it\<lparr>lv_cur_index := c, lv_re := r\<rparr>)"
proof -
  obtain it' where 1: "get_file_range draw file_size it = (file_range draw file_size (lv_random_access it) k, it')"
      "range_state file_size (Suc k) it'" and 2: "it' = it\<lparr>lv_cur_index := lv_cur_index it', lv_re := lv_re it'\<rparr>"
    using get_file_range_ok[where draw = draw, OF assms] by blast
  show ?thesis by (intro exI[of _ "lv_cur_index it'"] exI[of _ "lv_re it'"]) (simp only: 2[symmetric] 1 simp_thms)
qed

section \<open>The invariant\<close>

text \<open>The minibatches in the ring, in the order in which they are handed out: each range from its end.\<close>

definition waiting :: "'a list list \<Rightarrow> 'a list" where
  "waiting blocks = concat (map rev blocks)"

definition last_len :: "'a list list \<Rightarrow> nat" where
  "last_len blocks = (if blocks = [] then 0 else length (last blocks))"

definition lv_counts_ok :: "lv_iter \<Rightarrow> sparse_dataset list list \<Rightarrow> bool" where
  "lv_counts_ok it blocks \<longleftrightarrow> lv_semaphore it + lv_unposted it = length (waiting blocks)
     \<and> sint (lv_num_ready it) = int (lv_semaphore it) \<and> lv_unposted it \<le> last_len blocks \<and> lv_pref_sem it \<le> 1
     \<and> (lv_pref_sem it = 1 \<longrightarrow> length (waiting (butlast blocks)) < 200)
     \<and> length (waiting blocks) < 2000000200 \<and> length blocks \<le> 202 \<and> (lv_pref_sem it = 1 \<or> waiting blocks \<noteq> [])"

definition lv_ring_ok :: "lv_iter \<Rightarrow> sparse_dataset list list \<Rightarrow> bool" where
  "lv_ring_ok it blocks \<longleftrightarrow> cb_wf (lv_ring it) \<and> cb_capacity (lv_ring it) = 100000 \<and> cb_contents (lv_ring it) = blocks
     \<and> (\<forall>x\<in>set (tl blocks). x \<noteq> []) \<and> (\<forall>x\<in>set blocks. length x \<le> 1000000000)"

definition lv_inv :: "(nat \<Rightarrow> sparse_dataset list) \<Rightarrow> u64 \<Rightarrow> u64 \<Rightarrow> bool \<Rightarrow> lv_iter \<Rightarrow> sparse_dataset list \<Rightarrow>
    sparse_dataset list list \<Rightarrow> nat \<Rightarrow> bool" where
  "lv_inv p file_size m ra it out blocks k \<longleftrightarrow> lv_minibatch_rows it = m \<and> lv_random_access it = ra
     \<and> lv_ring_ok it blocks \<and> lv_counts_ok it blocks \<and> range_state file_size k it
     \<and> out @ waiting blocks = waiting (map p [0..<k])"

text \<open>What the ranges of the file hold: every one has a complete minibatch.\<close>

text \<open>The file, as far as \<open>n\<close> ranges of it are fetched: each of them can be parsed and has a complete minibatch.\<close>

definition file_ok :: "(nat \<Rightarrow> i32 \<Rightarrow> i32 \<Rightarrow> i32) \<Rightarrow> (u64 \<times> u64 \<Rightarrow> string) \<Rightarrow> (nat \<Rightarrow> sparse_dataset list) \<Rightarrow> u64 \<Rightarrow> u64 \<Rightarrow> bool \<Rightarrow> nat \<Rightarrow> bool" where
  "file_ok draw s3 p file_size m ra n \<longleftrightarrow> 0 < file_size \<and> unat file_size < 2 ^ 63 \<and> (ra \<longrightarrow> uniform_int draw \<and> file_size \<le> 2 ^ 31)
     \<and> (\<forall>k<n. parse_obj_libsvm m (s3 (file_range draw file_size ra k)) = Inr (p k) \<and> p k \<noteq> [] \<and> length (p k) \<le> 1000000000)"

lemma waiting_append: "waiting (xs @ ys) = waiting xs @ waiting ys"
  by (simp add: waiting_def)

lemma waiting_butlast: "length (waiting blocks) = length (waiting (butlast blocks)) + last_len blocks"
  by (cases blocks rule: rev_cases) (simp_all add: waiting_def last_len_def)

lemma few_lists: "\<forall>x\<in>set (tl xs). x \<noteq> [] \<Longrightarrow> length xs \<le> Suc (length (waiting xs))"
proof (induction xs)
  case (Cons x xs)
  then show ?case
  proof (cases xs)
    case (Cons y ys)
    have "\<forall>x\<in>set zs. x \<noteq> [] \<Longrightarrow> length zs \<le> length (waiting zs)" for zs :: "'a list list"
      by (induction zs) (auto simp: waiting_def Suc_le_eq add_strict_increasing)
    then have "length xs \<le> length (waiting xs)" using Cons.prems by simp
    then show ?thesis by (simp add: waiting_def)
  qed simp
qed simp

lemma lv_post_inv:
  assumes "lv_inv p fs m ra it out blocks k" "0 < lv_unposted it"
  shows "lv_inv p fs m ra (lv_post it) out blocks k"
proof -
  have "lv_semaphore it < 2 ^ 31 - 1" using assms by (auto simp: lv_inv_def lv_counts_ok_def)
  then show ?thesis using assms sint_incr[of "lv_num_ready it" "lv_semaphore it"]
    by (auto simp: lv_inv_def lv_counts_ok_def lv_ring_ok_def range_state_def lv_post_def)
qed

lemma lv_fetch_inv:
  assumes inv: "lv_inv p fs m ra it out blocks k" and st: "lv_unposted it = 0" "lv_pref_sem it \<noteq> 0"
    and src: "file_ok draw s3 p fs m ra n" "k < n"
  shows "\<exists>it'. lv_fetch draw s3 it = Inr it' \<and> lv_inv p fs m ra it' out (blocks @ [p k]) (Suc k) \<and> 0 < lv_unposted it'"
proof -
  define it1 where "it1 = it\<lparr>lv_pref_sem := lv_pref_sem it - 1\<rparr>"
  have "range_state fs k it1" "lv_random_access it1 = ra" "lv_file_size it = fs"
    using inv by (auto simp: it1_def lv_inv_def range_state_def)
  with get_file_range_step[of fs k it1 draw] src obtain cu re where
    "get_file_range draw fs it1 = (file_range draw fs ra k, it1\<lparr>lv_cur_index := cu, lv_re := re\<rparr>)"
      "range_state fs (Suc k) (it1\<lparr>lv_cur_index := cu, lv_re := re\<rparr>)" by (auto simp: file_ok_def)
  moreover define it2 where "it2 = it1\<lparr>lv_cur_index := cu, lv_re := re\<rparr>"
  ultimately have it2: "get_file_range draw fs it1 = (file_range draw fs ra k, it2)" "range_state fs (Suc k) it2" by simp_all
  have f2: "lv_ring it2 = lv_ring it" "lv_minibatch_rows it2 = m" "lv_random_access it2 = ra" "lv_semaphore it2 = lv_semaphore it"
    "lv_num_ready it2 = lv_num_ready it" "lv_pref_sem it2 = lv_pref_sem it - 1"
    using inv by (auto simp: it2_def it1_def lv_inv_def)
  have p: "parse_obj_libsvm m (s3 (file_range draw fs ra k)) = Inr (p k)" "p k \<noteq> []" "length (p k) \<le> 1000000000"
    using src by (auto simp: file_ok_def)
  have ring: "cb_wf (lv_ring it)" "cb_capacity (lv_ring it) = 100000" "cb_contents (lv_ring it) = blocks"
    using inv by (auto simp: lv_inv_def lv_ring_ok_def)
  have c: "lv_pref_sem it = 1" "length (waiting (butlast blocks)) < 200" "last_len blocks \<le> 1000000000"
    using inv st by (auto simp: lv_inv_def lv_counts_ok_def last_len_def lv_ring_ok_def)
  have "\<forall>x\<in>set (tl (butlast blocks)). x \<noteq> []" using inv by (auto simp: lv_inv_def lv_ring_ok_def butlast_tl[symmetric] dest: in_set_butlastD)
  from few_lists[OF this] c(2) have len: "length blocks \<le> 201" by simp
  have "unat (cb_size (lv_ring it)) = length blocks" using ring(3) by (simp flip: length_cb_contents)
  then obtain ring' where r: "cb_add (p k) (lv_ring it) = Inr ring'" "cb_wf ring'" "cb_contents ring' = blocks @ [p k]"
    "cb_capacity ring' = 100000"
    using cb_add_spec[OF ring(1), of "p k"] ring len by auto
  define it3 where "it3 = it2\<lparr>lv_ring := ring', lv_unposted := length (p k)\<rparr>"
  have "lv_fetch draw s3 it = Inr it3"
    using st(2) it2(1) p(1) r(1) \<open>lv_file_size it = fs\<close> 
    by (simp add: lv_fetch_def it1_def[symmetric] lv_push_samples_def f2 it3_def del: One_nat_def)
  moreover have "lv_ring_ok it3 (blocks @ [p k])"
    using inv r p by (auto simp: lv_ring_ok_def it3_def lv_inv_def tl_append split: list.splits)
  moreover have "lv_counts_ok it3 (blocks @ [p k])"
    using inv st c len p waiting_butlast[of blocks]
    by (auto simp: lv_counts_ok_def lv_inv_def it3_def f2 waiting_append waiting_def last_len_def)
  moreover have "out @ waiting (blocks @ [p k]) = waiting (map p [0..<Suc k])" using inv by (simp add: lv_inv_def waiting_append)
  ultimately show ?thesis using it2(2) p(2) f2
    by (intro exI[of _ it3]) (simp add: lv_inv_def it3_def range_state_def)
qed


lemma waiting_drop: "waiting (dropWhile (\<lambda>q. q = []) blocks) = waiting blocks"
  by (induction blocks) (auto simp: waiting_def)

lemma pop_back_ok:
  assumes "cb_wf ring" "cb_contents ring = q # qs" "q \<noteq> []"
  shows "\<exists>ring'. pop_back ring = Inr (last q, ring') \<and> cb_wf ring' \<and> cb_contents ring' = butlast q # qs
    \<and> cb_capacity ring' = cb_capacity ring"
  using assms cb_front_hd[OF assms(1,2)] cb_front_update[OF assms(1,2), of "butlast q"]
  by (auto simp: pop_back_def cb_wf_def vec_set_def)

text \<open>What is taken from the ring: the last dataset of the first queue that is not empty.\<close>

lemma take_dataset:
  assumes ring: "lv_ring_ok it blocks" and ne: "waiting blocks \<noteq> []"
  shows "\<exists>ring ring' q rest. discard_empty (unat (cb_size (lv_ring it))) (lv_ring it) = Inr ring
    \<and> pop_back ring = Inr (last q, ring') \<and> lv_ring_ok (it\<lparr>lv_ring := ring'\<rparr>) (butlast q # rest)
    \<and> waiting blocks = last q # waiting (butlast q # rest) \<and> length (butlast q # rest) \<le> length blocks
    \<and> last_len (q # rest) = last_len blocks"
proof -
  have r: "cb_wf (lv_ring it)" "cb_capacity (lv_ring it) = 100000" "cb_contents (lv_ring it) = blocks"
    "\<forall>x\<in>set (tl blocks). x \<noteq> []" "\<forall>x\<in>set blocks. length x \<le> 1000000000"
    using ring by (auto simp: lv_ring_ok_def)
  have some: "\<exists>q\<in>set (cb_contents (lv_ring it)). q \<noteq> []" using ne r(3) by (auto simp: waiting_def)
  have len: "length (cb_contents (lv_ring it)) \<le> unat (cb_size (lv_ring it))" by simp
  define post where "post = dropWhile (\<lambda>q. q = []) blocks"
  have "post \<noteq> []" using ne waiting_drop[of blocks] by (auto simp: post_def waiting_def)
  moreover have "\<not> hd post = []" using hd_dropWhile[of "\<lambda>q. q = []" blocks] calculation by (auto simp: post_def)
  ultimately obtain q rest where q: "post = q # rest" "q \<noteq> []" by (cases post) auto
  obtain pre where pre: "blocks = pre @ post" by (metis takeWhile_dropWhile_id post_def)
  from discard_empty_ok[OF r(1) some len] obtain ring1 where 1: "discard_empty (unat (cb_size (lv_ring it))) (lv_ring it) = Inr ring1"
    "cb_wf ring1" "cb_capacity ring1 = 100000" "cb_contents ring1 = q # rest"
    by (auto simp: r(2,3) post_def[symmetric] q(1))
  from pop_back_ok[OF 1(2,4) q(2)] 1(3) obtain ring2 where 2: "pop_back ring1 = Inr (last q, ring2)" "cb_wf ring2"
    "cb_contents ring2 = butlast q # rest" "cb_capacity ring2 = 100000" by auto
  have sub: "set rest \<subseteq> set (tl blocks)" "set post \<subseteq> set blocks" unfolding pre q(1) by (cases pre; auto)+
  then have "lv_ring_ok (it\<lparr>lv_ring := ring2\<rparr>) (butlast q # rest)"
    using 2 r(4,5) q(1) by (auto simp: lv_ring_ok_def)
  moreover have "waiting blocks = last q # waiting (butlast q # rest)"
  proof -
    have "waiting blocks = waiting post" using waiting_drop[of blocks] by (simp only: post_def)
    moreover have "rev q = last q # rev (butlast q)" using q(2) by (simp add: rev_eq_Cons_iff)
    ultimately show ?thesis by (simp add: q(1) waiting_def)
  qed
  moreover have "length (butlast q # rest) \<le> length blocks" using q(1) by (simp add: pre)
  moreover have "last_len (q # rest) = last_len blocks" using q(1) by (simp add: pre last_len_def)
  ultimately show ?thesis using 1(1) 2(1) by blast
qed

lemma lv_next_inv:
  assumes inv: "lv_inv p fs m ra it out blocks k" and sem: "0 < lv_semaphore it"
  shows "\<exists>ds it' blocks'. lv_next it = Inr (ds, it') \<and> lv_inv p fs m ra it' (out @ [ds]) blocks' k"
proof -
  have ring: "lv_ring_ok it blocks" and c: "lv_counts_ok it blocks" using inv by (auto simp: lv_inv_def)
  have "waiting blocks \<noteq> []" using c sem by (auto simp: lv_counts_ok_def)
  from take_dataset[OF ring this] obtain ring1 ring2 q rest where
    t: "discard_empty (unat (cb_size (lv_ring it))) (lv_ring it) = Inr ring1" "pop_back ring1 = Inr (last q, ring2)"
      "lv_ring_ok (it\<lparr>lv_ring := ring2\<rparr>) (butlast q # rest)" "waiting blocks = last q # waiting (butlast q # rest)"
      "length (butlast q # rest) \<le> length blocks" "last_len (q # rest) = last_len blocks" by blast
  define b where "b = butlast q # rest"
  define it1 where "it1 = it\<lparr>lv_semaphore := lv_semaphore it - 1, lv_ring := ring2, lv_num_ready := lv_num_ready it - 1\<rparr>"
  have "sint (lv_num_ready it) = int (lv_semaphore it)" "lv_semaphore it < 2 ^ 31"
    using c t(4) by (auto simp: lv_counts_ok_def)
  then have nr: "sint (lv_num_ready it - 1) = int (lv_semaphore it - 1)" using sem sint_decr by simp
  have nx: "lv_next it = Inr (last q, lv_signal it1)" using sem t(1,2) by (simp add: lv_next_def it1_def)
  have w: "length (waiting blocks) = Suc (length (waiting b))" "length (waiting b) = length (waiting (butlast b)) + last_len b"
    using t(4) waiting_butlast[of b] by (simp_all add: b_def)
  have rest: "rest \<noteq> [] \<Longrightarrow> last_len b = last_len blocks" using t(6) by (simp add: b_def last_len_def)
  have ll: "lv_unposted it \<le> last_len b"
  proof (cases "rest = []")
    case True
    then have "last_len b = length (waiting b)" by (simp add: b_def last_len_def waiting_def)
    then show ?thesis using c sem w(1) by (auto simp: lv_counts_ok_def)
  qed (use c rest in \<open>auto simp: lv_counts_ok_def\<close>)
  have bl: "length (waiting (butlast b)) \<le> length (waiting (butlast blocks))"
    using w rest waiting_butlast[of blocks] by (cases "rest = []") (simp_all add: b_def waiting_def)
  have "lv_counts_ok (lv_signal it1) b"
    using c w ll bl nr sem t(5) unfolding lv_counts_ok_def lv_signal_def it1_def b_def[symmetric]
    by (auto simp: read_ahead_def)
  moreover have "lv_ring_ok (lv_signal it1) b" using t(3) by (auto simp: lv_ring_ok_def lv_signal_def it1_def b_def)
  ultimately have "lv_inv p fs m ra (lv_signal it1) (out @ [last q]) b k"
    using inv t(4) by (auto simp: lv_inv_def lv_signal_def it1_def range_state_def b_def)
  with nx show ?thesis by blast
qed


lemma lv_start:
  assumes "lv_new fs m ra = Inr it0" "file_ok draw s3 p fs m ra n"
  shows "lv_inv p fs m ra it0 [] [] 0"
proof -
  obtain ring where ring: "cb_new ([] :: sparse_dataset list) 100000 = Inr ring" "cb_wf ring" "cb_contents ring = []"
    using cb_new_ok[of 100000 "[] :: sparse_dataset list"] by auto
  moreover from this have "cb_capacity ring = 100000" by (auto simp: cb_new_def)
  ultimately show ?thesis using assms(1)
    by (auto simp: lv_new_def lv_inv_def lv_ring_ok_def lv_counts_ok_def range_state_def waiting_def last_len_def read_ahead_def)
qed

lemma lv_thread_inv:
  assumes src: "file_ok draw s3 p fs m ra n" "k < n" and inv: "lv_inv p fs m ra it out blocks k"
  shows "\<exists>it' blocks' k'. lv_turn draw s3 Thread_turn (it, out) = Inr (it', out) \<and> lv_inv p fs m ra it' out blocks' k' \<and> k' \<le> Suc k
    \<and> lv_semaphore it \<le> lv_semaphore it' \<and> lv_unposted it' + lv_semaphore it' \<noteq> 0 \<and> (lv_unposted it \<noteq> 0 \<longrightarrow> lv_semaphore it' \<noteq> 0)"
proof (cases "lv_unposted it = 0")
  case False
  then show ?thesis using lv_post_inv[OF inv]
    by (intro exI[of _ "lv_post it"] exI[of _ blocks] exI[of _ k]) (simp add: lv_thread_step_def unless_blocked_def lv_post_def)
next
  case un: True
  show ?thesis
  proof (cases "lv_pref_sem it = 0")
    case True
    then show ?thesis using inv un
      by (intro exI[of _ it] exI[of _ blocks] exI[of _ k])
        (auto simp: lv_thread_step_def lv_fetch_def unless_blocked_def lv_inv_def lv_counts_ok_def)
  next
    case False
    from lv_fetch_inv[OF inv un this src] obtain it' where
      f: "lv_fetch draw s3 it = Inr it'" "lv_inv p fs m ra it' out (blocks @ [p k]) (Suc k)" "0 < lv_unposted it'" by blast
    have "lv_semaphore it' = lv_semaphore it"
      using f(1) by (auto simp: lv_fetch_def lv_push_samples_def get_file_range_def Let_def split: if_splits)
    then show ?thesis using f un by (auto simp: lv_thread_step_def unless_blocked_def intro!: exI[of _ "blocks @ [p k]"] exI[of _ "Suc k"])
  qed
qed

lemma lv_turn_inv:
  assumes src: "file_ok draw s3 p fs m ra n" "k < n" and inv: "lv_inv p fs m ra it out blocks k"
  shows "\<exists>it' out' blocks' k'. lv_turn draw s3 t (it, out) = Inr (it', out') \<and> lv_inv p fs m ra it' out' blocks' k' \<and> k' \<le> Suc k"
proof (cases t)
  case Thread_turn
  then show ?thesis using lv_thread_inv[OF src inv] by blast
next
  case Next_call
  show ?thesis
  proof (cases "lv_semaphore it = 0")
    case True
    then show ?thesis using inv Next_call
      by (intro exI[of _ it] exI[of _ out] exI[of _ blocks] exI[of _ k]) (simp add: lv_next_def unless_blocked_def)
  next
    case False
    then obtain ds it1 blocks1 where "lv_next it = Inr (ds, it1)" "lv_inv p fs m ra it1 (out @ [ds]) blocks1 k"
      using lv_next_inv[OF inv] by auto
    then show ?thesis using Next_call
      by (intro exI[of _ it1] exI[of _ "out @ [ds]"] exI[of _ blocks1] exI[of _ k]) (simp add: unless_blocked_def)
  qed
qed

lemma lv_run_inv:
  assumes src: "file_ok draw s3 p fs m ra n" and "lv_inv p fs m ra it out blocks k" "k + length acts \<le> n"
  shows "\<exists>it' out' blocks' k'. lv_run draw s3 acts (it, out) = Inr (it', out') \<and> lv_inv p fs m ra it' out' blocks' k'
    \<and> k' \<le> k + length acts"
  using assms(2,3)
proof (induction acts arbitrary: it out blocks k)
  case Nil
  then show ?case by (auto simp: lv_run_def)
next
  case (Cons t acts)
  have "k < n" using Cons.prems(2) by simp
  from lv_turn_inv[OF src this Cons.prems(1)] obtain it1 out1 b1 k1 where
    1: "lv_turn draw s3 t (it, out) = Inr (it1, out1)" "lv_inv p fs m ra it1 out1 b1 k1" "k1 \<le> Suc k" by blast
  have "k1 + length acts \<le> n" using 1(3) Cons.prems(2) by simp
  from Cons.IH[OF 1(2) this] obtain it' out' blocks' k' where
    "lv_run draw s3 acts (it1, out1) = Inr (it', out')" "lv_inv p fs m ra it' out' blocks' k'" "k' \<le> k1 + length acts" by blast
  then show ?case using 1(1,3) by (intro exI[of _ it'] exI[of _ out'] exI[of _ blocks'] exI[of _ k']) (simp add: lv_run_def)
qed

section \<open>What a worker gets\<close>

text \<open>A small file, which is fetched whole, for the instances of the properties.\<close>

definition ex_file :: "u64 \<times> u64 \<Rightarrow> string" where
  "ex_file r = ''0'' @ newline # concat (map svm_text ex_svm)"

lemma ex_file_ok: "file_ok (\<lambda>k a b. a) ex_file (\<lambda>_. [svm_dataset ex_svm]) 12 1 True n"
proof -
  have "parse_obj_libsvm 1 (''0'' @ newline # concat (map svm_text ex_svm) @ [])
      = Inr (map svm_dataset (chunks (unat (1 :: u64)) (length ex_svm div unat (1 :: u64)) ex_svm))"
    using parse_obj_lines[of "''0''" ex_svm "[]" 1 "hd ex_svm"] ex_svm by (simp add: newline_def cut_result_def parse_error_def)
  moreover have "length ex_svm = 1" by (simp add: ex_svm_def)
  ultimately show ?thesis by (simp add: file_ok_def ex_file_def chunks_def chunk_def uniform_int_def)
qed

lemma ex_lv_new: "\<exists>it0. lv_new 12 1 ra = Inr it0"
  by (simp add: lv_new_def cb_new_def)

text \<open>
  C26: However the background thread and the calls of \<open>getNext\<close> interleave, neither fails, and the
  datasets handed out are the minibatches of the ranges of the file, range after range without a
  gap, each range from its last minibatch to its first, as long as every range that is fetched can be parsed and has a
  complete minibatch. A range that is cut at a colon kills the thread (\<open>libsvm_cut_at_colon\<close>), one without a complete
  minibatch stops it (\<open>libsvm_iter_stuck\<close>). With random access the file has at most \<open>2 ^ 31\<close> bytes, so that the
  bounds of the draw fit into an \<open>int\<close>.
\<close>

theorem libsvm_iter_minibatches:
  assumes src: "file_ok draw s3 p file_size m random_access (length acts)" and start: "lv_new file_size m random_access = Inr it0"
  shows "\<exists>it out k. lv_run draw s3 acts (it0, []) = Inr (it, out) \<and> k \<le> length acts
    \<and> out = take (length out) (concat (map (\<lambda>j. rev (p j)) [0..<k]))"
proof -
  from lv_run_inv[OF src lv_start[OF start src], of acts] obtain it out blocks k where
    "lv_run draw s3 acts (it0, []) = Inr (it, out)" "out @ waiting blocks = waiting (map p [0..<k])" "k \<le> length acts"
    by (auto simp: lv_inv_def)
  then show ?thesis by (intro exI[of _ it] exI[of _ out] exI[of _ k]) (auto simp: waiting_def comp_def dest!: sym[of "out @ _"])
qed

theorem libsvm_iter_minibatches_witness:
  "\<exists>it0. lv_new 12 1 True = Inr it0 \<and> (\<exists>it out k. lv_run (\<lambda>k a b. a) ex_file [Thread_turn, Thread_turn, Next_call] (it0, []) = Inr (it, out)
    \<and> out = take (length out) (concat (map (\<lambda>j. rev [svm_dataset ex_svm]) [0..<k])))"
proof -
  obtain it0 where "lv_new 12 1 True = Inr it0" using ex_lv_new by blast
  with libsvm_iter_minibatches[OF ex_file_ok this, of "[Thread_turn, Thread_turn, Next_call]"] show ?thesis by blast
qed

text \<open>
  C27: As long as every range that is fetched can be parsed and has a complete minibatch, the two threads do not wait for
  each other: after any run, two turns of the background thread are enough for \<open>getNext\<close> to return. With random
  access the file has at most \<open>2 ^ 31\<close> bytes.
\<close>

theorem libsvm_iter_progress:
  assumes src: "file_ok draw s3 p file_size m random_access (length acts + 2)" and start: "lv_new file_size m random_access = Inr it0"
  shows "\<exists>it out it' ds. lv_run draw s3 acts (it0, []) = Inr (it, out)
    \<and> lv_run draw s3 [Thread_turn, Thread_turn, Next_call] (it, out) = Inr (it', out @ [ds])"
proof -
  from lv_run_inv[OF src lv_start[OF start src], of acts] obtain it out b k where
    0: "lv_run draw s3 acts (it0, []) = Inr (it, out)" "lv_inv p file_size m random_access it out b k" "k \<le> length acts" by auto
  have "k < length acts + 2" using 0(3) by simp
  from lv_thread_inv[OF src this 0(2)] obtain it1 b1 k1 where 1: "lv_turn draw s3 Thread_turn (it, out) = Inr (it1, out)"
    "lv_inv p file_size m random_access it1 out b1 k1" "k1 \<le> Suc k" "lv_unposted it1 + lv_semaphore it1 \<noteq> 0" by blast
  have "k1 < length acts + 2" using 0(3) 1(3) by simp
  from lv_thread_inv[OF src this 1(2)] obtain it2 b2 k2 where 2: "lv_turn draw s3 Thread_turn (it1, out) = Inr (it2, out)"
    "lv_inv p file_size m random_access it2 out b2 k2" "lv_semaphore it1 \<le> lv_semaphore it2"
    "lv_unposted it1 \<noteq> 0 \<longrightarrow> lv_semaphore it2 \<noteq> 0" by blast
  have "0 < lv_semaphore it2" using 1(4) 2(3,4) by auto
  from lv_next_inv[OF 2(2) this] obtain ds it3 where "lv_next it2 = Inr (ds, it3)" by blast
  then have "lv_turn draw s3 Next_call (it2, out) = Inr (it3, out @ [ds])" by (simp add: unless_blocked_def)
  with 0(1) 1(1) 2(1) have "lv_run draw s3 acts (it0, []) = Inr (it, out)
      \<and> lv_run draw s3 [Thread_turn, Thread_turn, Next_call] (it, out) = Inr (it3, out @ [ds])"
    by (simp add: lv_run_def del: lv_turn.simps)
  then show ?thesis by blast
qed

theorem libsvm_iter_progress_witness:
  "\<exists>it0. lv_new 12 1 True = Inr it0 \<and> (\<exists>it out it' ds. lv_run (\<lambda>k a b. a) ex_file [Next_call] (it0, []) = Inr (it, out)
    \<and> lv_run (\<lambda>k a b. a) ex_file [Thread_turn, Thread_turn, Next_call] (it, out) = Inr (it', out @ [ds]))"
proof -
  obtain it0 where "lv_new 12 1 True = Inr it0" using ex_lv_new by blast
  with libsvm_iter_progress[OF ex_file_ok this, of "[Next_call]"] show ?thesis by blast
qed

text \<open>
  A range without a complete minibatch stops the iterator for good: it announces nothing and
  lets nothing be fetched, so that \<open>getNext\<close> never returns, however long both threads run.
\<close>

lemma libsvm_iter_stuck:
  assumes start: "lv_new file_size m random_access = Inr it0"
    and size: "0 < file_size" "unat file_size < 2 ^ 63"
      "random_access \<Longrightarrow> uniform_int draw \<and> file_size \<le> 2 ^ 31"
    and none: "parse_obj_libsvm m (s3 (file_range draw file_size random_access 0)) = Inr []"
  shows "\<exists>it. lv_run draw s3 acts (it0, []) = Inr (it, [])"
proof -
  define stuck where "stuck = (\<lambda>(it, out :: sparse_dataset list). out = [] \<and> lv_semaphore it = 0 \<and> lv_unposted it = 0
    \<and> (it = it0 \<or> lv_pref_sem it = 0))"
  obtain ring where ring: "cb_new ([] :: sparse_dataset list) 100000 = Inr ring" "cb_wf ring" "cb_contents ring = []"
    using cb_new_ok[of 100000 "[] :: sparse_dataset list"] by auto
  then have cap: "cb_capacity ring = 100000" by (auto simp: cb_new_def)
  have it0: "it0 = \<lparr>lv_file_size = file_size, lv_minibatch_rows = m, lv_random_access = random_access,
      lv_cur_index = 0, lv_re = 0, lv_ring = ring, lv_num_ready = 0, lv_semaphore = 0, lv_unposted = 0, lv_pref_sem = 1\<rparr>"
    using start ring(1) by (simp add: lv_new_def read_ahead_def)
  have "range_state file_size 0 (it0\<lparr>lv_pref_sem := 0\<rparr>)" by (simp add: range_state_def it0)
  from get_file_range_step[where draw = draw, OF this size(1,2)] size(3) obtain cu re where
    g: "get_file_range draw file_size (it0\<lparr>lv_pref_sem := 0\<rparr>) = (file_range draw file_size random_access 0,
      it0\<lparr>lv_pref_sem := 0, lv_cur_index := cu, lv_re := re\<rparr>)" by (auto simp: it0)
  have "unat (cb_size ring) = 0" using ring(3) by (simp flip: length_cb_contents)
  then obtain ring' where "cb_add [] ring = Inr ring'" using cb_add_spec[OF ring(2), of "[]"] cap by auto
  with g none have "lv_fetch draw s3 it0 = Inr (it0\<lparr>lv_pref_sem := 0, lv_cur_index := cu, lv_re := re, lv_ring := ring', lv_unposted := 0\<rparr>)"
    by (simp add: lv_fetch_def lv_push_samples_def it0)
  moreover have "lv_pref_sem a = 0 \<Longrightarrow> lv_fetch draw s3 a = Inl Blocked" for a by (simp add: lv_fetch_def)
  ultimately have "\<exists>z'. lv_turn draw s3 t z = Inr z' \<and> stuck z'" if "stuck z" for t z
    using that by (cases t; cases z)
      (auto simp: stuck_def unless_blocked_def lv_thread_step_def lv_next_def it0)
  moreover have "stuck (it0, [])" by (simp add: stuck_def it0)
  ultimately have "\<exists>z. lv_run draw s3 acts (it0, []) = Inr z \<and> stuck z"
    unfolding lv_run_def by (intro rfold_total)
  then show ?thesis by (auto simp: stuck_def)
qed


lemma libsvm_iter_stuck_example:
  "\<exists>it0. lv_new 12 1 False = Inr it0 \<and> (\<exists>it. lv_run (\<lambda>k a b. a) (\<lambda>_. ''5'' @ newline # ''1'') [Thread_turn, Thread_turn, Next_call] (it0, []) = Inr (it, []))"
proof -
  obtain it0 where it0: "lv_new 12 1 False = Inr it0" using ex_lv_new by blast
  have "strict_prefix ''1'' (svm_text (hd ex_svm))" by (simp add: ex_svm)
  from parse_obj_lines[of "''5''" "[]" "''1''" 1 "hd ex_svm", OF _ _ _ _ ex_svm(2) this]
  have "parse_obj_libsvm 1 (''5'' @ newline # ''1'') = Inr []" by (simp add: newline_def cut_result_def parse_error_def chunks_def)
  with libsvm_iter_stuck[OF it0, where draw = "\<lambda>k a b. a" and ?s3.0 = "\<lambda>_. ''5'' @ newline # ''1''"
    and acts = "[Thread_turn, Thread_turn, Next_call]"] it0 show ?thesis by simp
qed

end
