(* ===== verification/Murmur.thy ===== *)
theory Murmur
  imports Bytes
begin

unbundle bit_operations_syntax

text \<open>
  \<open>MurmurHash3_x64_128\<close> of \<open>MurmurHash3.cpp\<close> and \<open>hash_f\<close> of \<open>Utils.cpp\<close>, with which the
  input reader maps the categorical features of the Criteo files to indices. A key is the list
  of the bytes at \<open>key\<close>; a read outside of it is undefined.
\<close>

definition rotl64 :: "u64 \<Rightarrow> nat \<Rightarrow> u64" where
  "rotl64 x r = push_bit r x OR drop_bit (64 - r) x"

definition getblock64 :: "byte list \<Rightarrow> nat \<Rightarrow> u64 res" where
  "getblock64 p i = (if 8 * i + 8 \<le> length p then Inr (word_of_nat (le_to_nat (take 8 (drop (8 * i) p))))
                     else Inl Undefined_behaviour)"

definition fmix64 :: "u64 \<Rightarrow> u64" where
  "fmix64 k0 =
     (let k = k0 XOR drop_bit 33 k0;
          k = k * 0xff51afd7ed558ccd;
          k = k XOR drop_bit 33 k;
          k = k * 0xc4ceb9fe1a85ec53
      in k XOR drop_bit 33 k)"

definition mm_c1 :: u64 where "mm_c1 = 0x87c37b91114253d5"
definition mm_c2 :: u64 where "mm_c2 = 0x4cf5ad432745937f"

text \<open>The scrambling of \<open>k1\<close> and of \<open>k2\<close>, the same in the body and in the tail.\<close>

definition mm_k1 :: "u64 \<Rightarrow> u64" where "mm_k1 k = rotl64 (k * mm_c1) 31 * mm_c2"
definition mm_k2 :: "u64 \<Rightarrow> u64" where "mm_k2 k = rotl64 (k * mm_c2) 33 * mm_c1"

definition mm_block :: "byte list \<Rightarrow> nat \<Rightarrow> u64 \<times> u64 \<Rightarrow> (u64 \<times> u64) res" where
  "mm_block data i = (\<lambda>(h1, h2).
     rbind (getblock64 data (i * 2 + 0)) (\<lambda>k1.
     rbind (getblock64 data (i * 2 + 1)) (\<lambda>k2.
       let h1 = h1 XOR mm_k1 k1;
           h1 = (rotl64 h1 27 + h2) * 5 + 0x52dce729;
           h2 = h2 XOR mm_k2 k2;
           h2 = (rotl64 h2 31 + h1) * 5 + 0x38495ab5
       in Inr (h1, h2))))"

text \<open>
  The fall-through \<open>case\<close>s: the bytes from \<open>tail[r-1]\<close> down to \<open>tail[from]\<close>, each shifted to
  its place and xored in.
\<close>

definition mm_gather :: "byte list \<Rightarrow> int \<Rightarrow> nat \<Rightarrow> nat \<Rightarrow> u64 res" where
  "mm_gather data off from r =
     rfold (\<lambda>i k. if 0 \<le> off + int i \<and> nat (off + int i) < length data
                   then Inr (k XOR push_bit (8 * (i - from)) (ucast (data ! nat (off + int i))))
                   else Inl Undefined_behaviour) (rev [from..<r]) 0"

definition mm_tail :: "byte list \<Rightarrow> int \<Rightarrow> nat \<Rightarrow> u64 \<times> u64 \<Rightarrow> (u64 \<times> u64) res" where
  "mm_tail data off r = (\<lambda>(h1, h2).
     rbind (if 9 \<le> r then rbind (mm_gather data off 8 r) (\<lambda>k2. Inr (h2 XOR mm_k2 k2)) else Inr h2) (\<lambda>h2.
     rbind (if 1 \<le> r then rbind (mm_gather data off 0 (min r 8)) (\<lambda>k1. Inr (h1 XOR mm_k1 k1)) else Inr h1) (\<lambda>h1.
       Inr (h1, h2))))"

definition mm_final :: "i32 \<Rightarrow> u64 \<times> u64 \<Rightarrow> u64 \<times> u64" where
  "mm_final len = (\<lambda>(h1, h2).
     let h1 = h1 XOR scast len; h2 = h2 XOR scast len;
         h1 = h1 + h2; h2 = h2 + h1;
         h1 = fmix64 h1; h2 = fmix64 h2;
         h1 = h1 + h2; h2 = h2 + h1
     in (h1, h2))"

definition MurmurHash3_x64_128 :: "byte list \<Rightarrow> i32 \<Rightarrow> u32 \<Rightarrow> (u64 \<times> u64) res" where
  "MurmurHash3_x64_128 data len seed =
     (let nblocks = (if 0 \<le> sint len then sint len div 16 else - (- sint len div 16))
      in rbind (rfold (mm_block data) [0..<nat nblocks] (ucast seed, ucast seed)) (\<lambda>h.
         rbind (mm_tail data (nblocks * 16) (unat (len AND 15)) h) (\<lambda>h.
         Inr (mm_final len h))))"

text \<open>\<open>hash_f(s)\<close>: the first half of the hash of the characters of \<open>s\<close>, with seed 100.\<close>

definition hash_f :: "byte list \<Rightarrow> u64 res" where
  "hash_f s = rbind (MurmurHash3_x64_128 s (word_of_nat (length s)) 100) (\<lambda>(h1, h2). Inr h1)"

section \<open>Only the key is read\<close>

lemma mm_gather_total:
  assumes "\<forall>i\<in>{from..<r}. 0 \<le> off + int i \<and> nat (off + int i) < length data"
  shows "\<exists>w. mm_gather data off from r = Inr w"
proof -
  have "\<exists>w. mm_gather data off from r = Inr w \<and> True"
    unfolding mm_gather_def using assms by (intro rfold_total) auto
  then show ?thesis by simp
qed

lemma mm_tail_total:
  assumes "\<forall>i<r. 0 \<le> off + int i \<and> nat (off + int i) < length data"
  shows "\<exists>h'. mm_tail data off r h = Inr h'"
  using mm_gather_total[of 8 r off data] mm_gather_total[of 0 "min r 8" off data] assms
  by (cases h) (auto simp: mm_tail_def)

lemma mm_blocks_total:
  assumes "16 * n \<le> length data"
  shows "\<exists>h'. rfold (mm_block data) [0..<n] h = Inr h'"
proof -
  have "\<exists>h'. rfold (mm_block data) [0..<n] h = Inr h' \<and> True"
    using assms by (intro rfold_total) (auto simp: mm_block_def getblock64_def split_def Let_def)
  then show ?thesis by simp
qed

text \<open>The hash of a string of the program never reads outside of it.\<close>

lemma hash_f_total:
  assumes "length s < 2 ^ 31"
  shows "\<exists>h. hash_f s = Inr h"
proof -
  define n where "n = length s"
  have n: "sint (word_of_nat n :: i32) = int n" "unat (word_of_nat n :: i32) = n"
    using assms by (auto simp: n_def signed_of_nat signed_take_bit_int_eq_self unat_of_nat take_bit_nat_eq_self)
  have "(word_of_nat n :: i32) AND 15 = take_bit 4 (word_of_nat n)" by (simp add: take_bit_eq_mask mask_eq_exp_minus_1)
  then have r: "unat ((word_of_nat n :: i32) AND 15) = n mod 16" using n(2) by (simp only: unsigned_take_bit_eq) (simp add: take_bit_eq_mod)
  obtain h1 where h1: "rfold (mm_block s) [0..<n div 16] (ucast (100 :: u32), ucast (100 :: u32)) = Inr h1"
    using mm_blocks_total[of "n div 16" s "(ucast (100 :: u32), ucast (100 :: u32))"] n_def by fastforce
  have "\<exists>h2. mm_tail s (int n div 16 * 16) (n mod 16) h1 = Inr h2"
  proof (rule mm_tail_total, intro allI impI conjI)
    fix i assume "i < n mod 16"
    moreover have "int n div 16 * 16 + int i = int (n div 16 * 16 + i)" by (simp add: zdiv_int)
    moreover have "n div 16 * 16 + n mod 16 = n" by simp
    ultimately show "0 \<le> int n div 16 * 16 + int i" "nat (int n div 16 * 16 + int i) < length s"
      unfolding n_def[symmetric] by linarith+
  qed
  then obtain h2 where "mm_tail s (int n div 16 * 16) (n mod 16) h1 = Inr h2" by blast
  then show ?thesis using h1 n r by (simp add: hash_f_def MurmurHash3_x64_128_def n_def[symmetric] nat_div_distrib split_def)
qed

section \<open>Every stage is a bijection\<close>

lemma xor_cancel64: "x XOR y = x XOR z \<longleftrightarrow> y = (z :: u64)" "y XOR x = z XOR x \<longleftrightarrow> y = z"
proof -
  have a: "x XOR (x XOR w) = w" for w by (simp flip: xor.assoc)
  show *: "x XOR y = x XOR z \<longleftrightarrow> y = z" by (metis a)
  show "y XOR x = z XOR x \<longleftrightarrow> y = z" using * by (simp only: xor.commute)
qed

lemma xorshift_inj: "x XOR drop_bit 33 x = y XOR drop_bit 33 y \<Longrightarrow> x = (y :: u64)"
proof -
  have inv: "(z XOR drop_bit 33 z) XOR drop_bit 33 (z XOR drop_bit 33 z) = z" for z :: u64
    by (rule bit_word_eqI) (auto simp: bit_simps dest: bit_imp_le_length)
  assume "x XOR drop_bit 33 x = y XOR drop_bit 33 y"
  then show ?thesis using inv[of x] inv[of y] by simp
qed

lemma mult_inj64: "c * d = 1 \<Longrightarrow> x * c = y * c \<Longrightarrow> x = (y :: u64)"
proof -
  assume cd: "c * d = 1" and eq: "x * c = y * c"
  have "x = (x * c) * d" using cd by (simp add: mult.assoc)
  also have "\<dots> = y" using cd by (simp add: eq mult.assoc)
  finally show ?thesis .
qed

lemma fmix64_inj: "fmix64 x = fmix64 y \<Longrightarrow> x = y"
proof -
  define f where "f k = k XOR drop_bit 33 k" for k :: u64
  have f: "f a = f b \<Longrightarrow> a = b" for a b using xorshift_inj by (simp add: f_def)
  have m: "a * 0xff51afd7ed558ccd = b * 0xff51afd7ed558ccd \<Longrightarrow> a = b" for a b :: u64
    by (rule mult_inj64[of _ "0x4f74430c22a54005"]) simp_all
  have m': "a * 0xc4ceb9fe1a85ec53 = b * 0xc4ceb9fe1a85ec53 \<Longrightarrow> a = b" for a b :: u64
    by (rule mult_inj64[of _ "0x9cb4b2f8129337db"]) simp_all
  have "fmix64 k = f (f (f k * 0xff51afd7ed558ccd) * 0xc4ceb9fe1a85ec53)" for k
    by (simp only: fmix64_def f_def Let_def)
  moreover assume "fmix64 x = fmix64 y"
  ultimately show "x = y" by (simp only:) (rule f, rule m, rule f, rule m', rule f)
qed

lemma rotl64_inj:
  assumes "r < 64" "rotl64 x r = rotl64 y r"
  shows "x = y"
proof (rule bit_word_eqI)
  fix n assume n: "n < LENGTH(64)"
  have b: "bit (rotl64 z r) ((n + r) mod 64) = bit z n" for z
    using n assms(1)
    by (cases "n + r < 64") (auto simp: rotl64_def bit_simps le_mod_geq dest: bit_imp_le_length)
  from b[of x] b[of y] assms(2) show "bit x n = bit y n" by simp
qed

lemma mm_c_inv: "mm_c1 * 0xa98409e882ce4d7d = 1" "mm_c2 * 0xa81e14edd9de2c7f = 1"
  by (simp_all add: mm_c1_def mm_c2_def)

lemma mm_k1_inj: "mm_k1 x = mm_k1 y \<Longrightarrow> x = y"
  unfolding mm_k1_def
  by (rule mult_inj64[OF mm_c_inv(1)], rule rotl64_inj[of 31], simp, rule mult_inj64[OF mm_c_inv(2)])

lemma mm_k2_inj: "mm_k2 x = mm_k2 y \<Longrightarrow> x = y"
  unfolding mm_k2_def
  by (rule mult_inj64[OF mm_c_inv(2)], rule rotl64_inj[of 33], simp, rule mult_inj64[OF mm_c_inv(1)])

definition mm_mix :: "u64 \<times> u64 \<Rightarrow> u64 \<times> u64" where
  "mm_mix h = (fst h + snd h, snd h + (fst h + snd h))"

lemma inj_mm_mix: "inj mm_mix"
proof (rule injI)
  fix h g assume "mm_mix h = mm_mix g"
  then have *: "fst h + snd h = fst g + snd g \<and> snd h + (fst h + snd h) = snd g + (fst g + snd g)"
    unfolding mm_mix_def prod.inject .
  have a: "fst h + snd h = fst g + snd g" and b: "snd h + (fst h + snd h) = snd g + (fst g + snd g)"
    by (rule conjunct1[OF *], rule conjunct2[OF *])
  from b have c: "snd h = snd g" unfolding a by (simp only: add_right_cancel)
  from a have "fst h = fst g" unfolding c by (simp only: add_right_cancel)
  with c show "h = g" by (rule prod_eqI[rotated])
qed

lemma mm_final_stages:
  "mm_final len = mm_mix \<circ> map_prod fmix64 fmix64 \<circ> mm_mix \<circ>
     map_prod (\<lambda>x. x XOR scast len) (\<lambda>x. x XOR scast len)"
  by (rule ext) (simp only: mm_final_def mm_mix_def Let_def comp_def map_prod_def fst_conv snd_conv
      split_beta prod.case)

lemma inj_mm_final: "inj (mm_final len)"
  unfolding mm_final_stages
  by (intro inj_compose inj_mm_mix prod.inj_map) (auto intro!: injI dest: fmix64_inj simp: xor_cancel64)

section \<open>Short keys\<close>

text \<open>The tail of a key holds the bits of its bytes.\<close>

lemma mm_gather_bits:
  assumes "from \<le> r" "r \<le> from + 8" "r \<le> length data"
  shows "\<exists>w. mm_gather data 0 from r = Inr w \<and>
    (\<forall>n. bit w n \<longleftrightarrow> n < 8 * (r - from) \<and> bit (data ! (from + n div 8)) (n mod 8))"
proof -
  define f where "f = (\<lambda>i k. if 0 \<le> 0 + int i \<and> nat (0 + int i) < length data
                   then Inr (k XOR push_bit (8 * (i - from)) (ucast (data ! nat (0 + int i)) :: u64))
                   else Inl Undefined_behaviour)"
  have "\<exists>w. (\<forall>k. rfold f (rev [from..<r]) k = Inr (k XOR w)) \<and>
    (\<forall>n. bit w n \<longleftrightarrow> n < 8 * (r - from) \<and> bit (data ! (from + n div 8)) (n mod 8))"
    using assms
  proof (induction r rule: dec_induct)
    case base
    then show ?case by (intro exI[of _ 0]) simp
  next
    case (step r)
    then obtain w where w: "\<And>k. rfold f (rev [from..<r]) k = Inr (k XOR w)"
      "\<And>n. bit w n \<longleftrightarrow> n < 8 * (r - from) \<and> bit (data ! (from + n div 8)) (n mod 8)"
      by (metis Suc_leD)
    define v where "v = push_bit (8 * (r - from)) (ucast (data ! r) :: u64)"
    have fr: "f r k = Inr (k XOR v)" for k using step.prems by (simp add: f_def v_def)
    have v: "bit v n \<longleftrightarrow> 8 * (r - from) \<le> n \<and> n < 8 * (r - from) + 8 \<and> bit (data ! r) (n - 8 * (r - from))" for n
    proof -
      have "bit (data ! r) m \<Longrightarrow> m < 8" for m using bit_imp_le_length[of "data ! r" m] by simp
      moreover have "8 * (r - from) + 8 \<le> 64" using step.prems by simp
      ultimately show ?thesis unfolding v_def
        by (auto simp: bit_push_bit_iff bit_ucast_iff) (metis less_diff_conv2 add.commute)+
    qed
    have "bit (v XOR w) n \<longleftrightarrow> n < 8 * (Suc r - from) \<and> bit (data ! (from + n div 8)) (n mod 8)" for n
    proof (cases "n < 8 * (r - from)")
      case True
      then show ?thesis using w(2)[of n] v[of n] by (auto simp: bit_xor_iff)
    next
      case False
      show ?thesis
      proof (cases "n < 8 * (r - from) + 8")
        case True
        with False obtain j where j: "n = 8 * (r - from) + j" "j < 8"
          by (metis add_less_cancel_left le_Suc_ex not_less)
        then have "from + n div 8 = r" "n mod 8 = j" "n - 8 * (r - from) = j"
          using step.hyps by auto
        then show ?thesis using w(2)[of n] v[of n] j step.hyps by (auto simp: bit_xor_iff Suc_diff_le)
      next
        case nn: False
        then have "\<not> n < 8 * (Suc r - from)" using step.hyps by simp
        with nn show ?thesis using w(2)[of n] v[of n] by (auto simp: bit_xor_iff)
      qed
    qed
    moreover have "rfold f (rev [from..<Suc r]) k = Inr (k XOR (v XOR w))" for k
      using step.hyps w(1) fr by (simp add: xor.assoc)
    ultimately show ?case by blast
  qed
  then show ?thesis unfolding mm_gather_def f_def by fastforce
qed

text \<open>The bytes can be read back from the two halves of the tail.\<close>

lemma mm_gather_eq:
  assumes "from \<le> r" "r \<le> from + 8" "r \<le> length x" "r \<le> length y"
    and "mm_gather x 0 from r = mm_gather y 0 from r" and i: "from \<le> i" "i < r"
  shows "x ! i = y ! i"
proof (rule bit_word_eqI)
  fix n assume "n < LENGTH(8)"
  then have n: "(8 * (i - from) + n) div 8 = i - from" "(8 * (i - from) + n) mod 8 = n"
    "8 * (i - from) + n < 8 * (r - from)" using i by auto
  obtain w where w: "mm_gather x 0 from r = Inr w"
    "\<forall>n. bit w n \<longleftrightarrow> n < 8 * (r - from) \<and> bit (x ! (from + n div 8)) (n mod 8)"
    using mm_gather_bits[OF assms(1-3)] by blast
  moreover from w(1) have "\<forall>n. bit w n \<longleftrightarrow> n < 8 * (r - from) \<and> bit (y ! (from + n div 8)) (n mod 8)"
    using mm_gather_bits[OF assms(1,2,4)] assms(5) by (metis Inr_inject)
  ultimately have "\<forall>n. n < 8 * (r - from) \<longrightarrow>
      bit (x ! (from + n div 8)) (n mod 8) = bit (y ! (from + n div 8)) (n mod 8)" by blast
  then have "bit (x ! (from + (i - from))) n \<longleftrightarrow> bit (y ! (from + (i - from))) n"
    using n by metis
  then show "bit (x ! i) n = bit (y ! i) n" using i by simp
qed

lemma mm_tail_inj:
  assumes "r < 16" "length x = r" "length y = r" and eq: "mm_tail x 0 r h = mm_tail y 0 r h"
  shows "x = y"
proof -
  obtain h1 h2 where h: "h = (h1, h2)" by fastforce
  have lo: "\<exists>w. mm_gather z 0 0 (min r 8) = Inr w" if "length z = r" for z
    using mm_gather_bits[of 0 "min r 8" z] that by auto
  have hi: "\<exists>w. mm_gather z 0 8 r = Inr w" if "length z = r" "9 \<le> r" for z
    using mm_gather_bits[of 8 r z] that assms(1) by auto
  obtain a b where ab: "mm_gather x 0 0 (min r 8) = Inr a" "mm_gather y 0 0 (min r 8) = Inr b"
    using lo assms by blast
  have *: "mm_gather x 0 0 (min r 8) = mm_gather y 0 0 (min r 8) \<or> r = 0"
    "mm_gather x 0 8 r = mm_gather y 0 8 r \<or> r < 9"
  proof -
    show "mm_gather x 0 8 r = mm_gather y 0 8 r \<or> r < 9"
      using eq ab hi[OF assms(2)] hi[OF assms(3)]
      by (auto simp: mm_tail_def h xor_cancel64 not_less dest!: mm_k2_inj split: if_splits)
    show "mm_gather x 0 0 (min r 8) = mm_gather y 0 0 (min r 8) \<or> r = 0"
      using eq ab hi[OF assms(2)] hi[OF assms(3)]
      by (cases "9 \<le> r") (auto simp: mm_tail_def h xor_cancel64 not_less dest!: mm_k1_inj split: if_splits)
  qed
  show ?thesis
  proof (rule nth_equalityI)
    fix i assume i: "i < length x"
    show "x ! i = y ! i"
    proof (cases "i < 8")
      case True
      then show ?thesis using *(1) mm_gather_eq[of 0 "min r 8" x y i] i assms by auto
    next
      case False
      then show ?thesis using *(2) mm_gather_eq[of 8 r x y i] i assms by auto
    qed
  qed (use assms in simp)
qed

text \<open>Two different keys of the same length below 16 bytes never collide in the 128-bit hash.\<close>

lemma murmur_short_keys_inj:
  assumes "length x < 16" "length y = length x" "x \<noteq> y"
  shows "MurmurHash3_x64_128 x (word_of_nat (length x)) seed \<noteq> MurmurHash3_x64_128 y (word_of_nat (length x)) seed"
proof
  assume same: "MurmurHash3_x64_128 x (word_of_nat (length x)) seed = MurmurHash3_x64_128 y (word_of_nat (length x)) seed"
  define r where "r = length x"
  have r: "r < 16" "length x = r" "length y = r" using assms by (auto simp: r_def)
  have u: "unat (word_of_nat r :: i32) = r" "sint (word_of_nat r :: i32) = int r"
    using r(1) by (auto simp: unat_of_nat take_bit_nat_eq_self signed_of_nat signed_take_bit_int_eq_self)
  have "(word_of_nat r :: i32) AND 15 = take_bit 4 (word_of_nat r)"
    by (simp add: take_bit_eq_mask mask_eq_exp_minus_1)
  then have v: "unat ((word_of_nat r :: i32) AND 15) = r"
    using r(1) u by (simp add: unsigned_take_bit_eq take_bit_nat_eq_self)
  have 0: "int r div 16 = 0" using r(1) by simp
  have "\<exists>h. mm_tail z 0 r g = Inr h" if "length z = r" for z g
    using mm_gather_bits[of 0 "min r 8" z] mm_gather_bits[of 8 r z] that r(1)
    by (cases g) (auto simp: mm_tail_def)
  then obtain h g where "mm_tail x 0 r (ucast seed, ucast seed) = Inr h"
    "mm_tail y 0 r (ucast seed, ucast seed) = Inr g"
    using r by blast
  moreover from this have "mm_final (word_of_nat r) h = mm_final (word_of_nat r) g"
    using same by (simp add: MurmurHash3_x64_128_def r_def[symmetric] u v 0)
  ultimately have "mm_tail x 0 r (ucast seed, ucast seed) = mm_tail y 0 r (ucast seed, ucast seed)"
    using injD[OF inj_mm_final] by metis
  then show False using mm_tail_inj[OF r] assms(3) by blast
qed

lemma murmur_short_keys_inj_example:
  "MurmurHash3_x64_128 [97, 98] (word_of_nat (length [97 :: byte, 98])) 100
     \<noteq> MurmurHash3_x64_128 [97, 99] (word_of_nat (length [97 :: byte, 98])) 100"
  by (rule murmur_short_keys_inj) simp_all

end
