(* ===== verification/TextFields.thy ===== *)
theory TextFields
  imports Streams Murmur
begin

text \<open>
  What the readers of training files (\<open>InputReader.cpp\<close>) share: C strings in buffers of a fixed
  size, \<open>strsep\<close>, and \<open>std::map\<close> as the list of its entries in the order in which it is iterated.
\<close>

section \<open>C strings\<close>

definition c_str :: "string \<Rightarrow> string" where
  "c_str s = takeWhile (\<lambda>c. c \<noteq> CHR 0x00) s"

text \<open>
  \<open>char str[MAX]; strncpy(str, line.c_str(), MAX - 1);\<close> without a terminating zero behind it: the
  last byte of \<open>str\<close> is not initialised, so a line of \<open>MAX - 1\<close> characters is not terminated.
\<close>

definition copy_line :: "nat \<Rightarrow> string \<Rightarrow> string res" where
  "copy_line max_size line =
     (if length (c_str line) < max_size - 1 then Inr (c_str line) else Inl Undefined_behaviour)"

text \<open>The pieces that \<open>strsep(&s, delimiter)\<close> returns until it returns the null pointer.\<close>

fun split_fields :: "(char \<Rightarrow> bool) \<Rightarrow> string \<Rightarrow> string list" where
  "split_fields sep [] = [[]]"
| "split_fields sep (c # s) =
     (if sep c then [] # split_fields sep s
      else case split_fields sep s of [] \<Rightarrow> [[c]] | t # ts \<Rightarrow> (c # t) # ts)"

definition strsep_all :: "string \<Rightarrow> string \<Rightarrow> string list" where
  "strsep_all delimiter s = split_fields (\<lambda>c. c \<in> set (c_str delimiter)) s"

definition to_bytes :: "string \<Rightarrow> byte list" where
  "to_bytes s = map (\<lambda>c. of_char c) s"

lemma split_fields_not_Nil [simp]: "split_fields sep s \<noteq> []"
  by (cases s) (auto split: list.splits)

fun join :: "char \<Rightarrow> string list \<Rightarrow> string" where
  "join d [] = []"
| "join d [f] = f"
| "join d (f # g # fs) = f @ d # join d (g # fs)"

lemma split_fields_append:
  assumes "\<forall>c\<in>set f. \<not> sep c"
  shows "split_fields sep (f @ s) = (f @ hd (split_fields sep s)) # tl (split_fields sep s)"
  using assms by (induction f) (auto split: list.splits)

lemma split_fields_join:
  assumes "fs \<noteq> []" "\<forall>f\<in>set fs. \<forall>c\<in>set f. \<not> sep c" "sep d"
  shows "split_fields sep (join d fs) = fs"
  using assms
proof (induction d fs rule: join.induct)
  case (2 d f)
  then show ?case using split_fields_append[of f sep "[]"] by simp
next
  case (3 d f g fs)
  then show ?case using split_fields_append[of f sep "d # join d (g # fs)"] by simp
qed simp

lemma c_str_id: "CHR 0x00 \<notin> set s \<Longrightarrow> c_str s = s"
  by (auto simp: c_str_def takeWhile_eq_all_conv)

lemma length_c_str: "length (c_str s) \<le> length s"
  by (simp add: c_str_def length_takeWhile_le)

lemma set_join: "fs \<noteq> [] \<Longrightarrow> set (join d fs) = \<Union> (set ` set fs) \<union> (if 1 < length fs then {d} else {})"
  by (induction d fs rule: join.induct) auto

lemma length_split_fields: "f \<in> set (split_fields sep s) \<Longrightarrow> length f \<le> length s"
proof (induction s arbitrary: f)
  case (Cons c s)
  then show ?case by (auto split: if_splits list.splits) fastforce+
qed simp

text \<open>
  \<open>string_to<T>(s)\<close>: the variable that is extracted to is not initialised, and stays so when the
  string has nothing but white space.
\<close>

definition str_to :: "('a::zero \<Rightarrow> istream \<Rightarrow> 'a \<times> istream) \<Rightarrow> string \<Rightarrow> 'a res" where
  "str_to get s =
     (if s = [] then Inr 0
      else if list_all is_space s then Inl Undefined_behaviour
      else Inr (fst (get 0 (istream_of s))))"

section \<open>Ordered maps\<close>

text \<open>\<open>m[k] += v\<close> on a \<open>std::map\<close> of numbers: a new key starts at zero.\<close>

fun map_incr :: "'k::linorder \<Rightarrow> 'v::monoid_add \<Rightarrow> ('k \<times> 'v) list \<Rightarrow> ('k \<times> 'v) list" where
  "map_incr k v [] = [(k, 0 + v)]"
| "map_incr k v ((a, b) # m) =
     (if k < a then (k, 0 + v) # (a, b) # m else if k = a then (a, b + v) # m else (a, b) # map_incr k v m)"

definition ordered :: "('k::linorder \<times> 'v) list \<Rightarrow> bool" where
  "ordered m \<longleftrightarrow> sorted_wrt (<) (map fst m)"

lemma map_incr_keys: "set (map fst (map_incr k v m)) = insert k (set (map fst m))"
  by (induction k v m rule: map_incr.induct) auto

lemma ordered_incr: "ordered m \<Longrightarrow> ordered (map_incr k v m)"
proof (induction k v m rule: map_incr.induct)
  case (2 k v a b m)
  then show ?case using map_incr_keys[of k v m] by (auto simp: ordered_def)
qed (simp add: ordered_def)

lemma map_of_incr:
  "ordered m \<Longrightarrow> map_of (map_incr k v m) x = (if x = k then Some ((case map_of m k of None \<Rightarrow> 0 | Some w \<Rightarrow> w) + v) else map_of m x)"
proof (induction k v m rule: map_incr.induct)
  case (2 k v a b m)
  have "k < a \<Longrightarrow> k \<notin> fst ` set m" using 2(2) by (fastforce simp: ordered_def)
  then have "k < a \<Longrightarrow> map_of m k = None" by (simp add: map_of_eq_None_iff)
  then show ?case using 2 by (auto simp: ordered_def)
qed simp

lemma ordered_distinct: "ordered m \<Longrightarrow> distinct (map fst m)"
  by (simp add: ordered_def strict_sorted_iff)

lemma alist_by_keys: "distinct (map fst m) \<Longrightarrow> map (\<lambda>k. (k, the (map_of m k))) (map fst m) = m"
  by (simp add: comp_def) (rule map_idI, auto)

lemma ordered_unique:
  assumes "ordered m" "ordered m'" "map_of m = map_of m'"
  shows "m = m'"
proof -
  have "fst ` set m = fst ` set m'" using assms(3) by (metis dom_map_of_conv_image_fst)
  then have "map fst m = map fst m'" using assms(1,2) by (simp add: ordered_def strict_sorted_equal)
  then show ?thesis using alist_by_keys ordered_distinct assms by metis
qed

text \<open>What a sequence of such additions leaves.\<close>

definition totals :: "('k::linorder \<times> 'v::comm_monoid_add) list \<Rightarrow> ('k \<times> 'v) list" where
  "totals kvs = map (\<lambda>k. (k, sum_list (map snd (filter (\<lambda>p. fst p = k) kvs)))) (sorted_list_of_set (fst ` set kvs))"


lemma ordered_totals: "ordered (totals kvs)"
  by (simp add: ordered_def totals_def comp_def)

lemma map_of_totals:
  "map_of (totals kvs) k = (if k \<in> fst ` set kvs then Some (sum_list (map snd (filter (\<lambda>p. fst p = k) kvs))) else None)"
  by (simp add: totals_def map_of_map_restrict restrict_map_def)

lemma fold_incr: "fold (\<lambda>(k, v). map_incr k v) kvs [] = totals kvs"
proof (induction kvs rule: rev_induct)
  case Nil
  then show ?case by (simp add: totals_def)
next
  case (snoc p kvs)
  obtain k v where p: "p = (k, v)" by fastforce
  have none: "k \<notin> fst ` set kvs \<Longrightarrow> filter (\<lambda>p. fst p = k) kvs = []" by (force simp: filter_empty_conv)
  show ?case
  proof (rule ordered_unique)
    show "map_of (fold (\<lambda>(k, v). map_incr k v) (kvs @ [p]) []) = map_of (totals (kvs @ [p]))"
      by (rule ext) (auto simp: snoc p map_of_incr[OF ordered_totals] map_of_totals none)
  qed (simp_all add: snoc p ordered_incr ordered_totals)
qed

lemma totals_props: "(k, v) \<in> set (totals kvs) \<Longrightarrow> k \<in> fst ` set kvs \<and> v = sum_list (map snd (filter (\<lambda>p. fst p = k) kvs))"
  by (auto simp: totals_def)

end
