(* ===== verification/LineParse.thy ===== *)
theory LineParse
  imports TextFields SparseData Config
begin

text \<open>
  The parsers of one line of a training file (\<open>InputReader.cpp\<close>): the Criteo formats, whose
  categorical columns are hashed to feature indices, and the format of RCV1. The label is an output
  parameter that the caller does not initialise; \<open>None\<close> is a label that was not set.
\<close>

definition MAX_STR_SIZE :: nat where "MAX_STR_SIZE = 10000"
definition RCV1_STR_SIZE :: nat where "RCV1_STR_SIZE = 20000"

type_synonym parsed = "sample \<times> f32 option"

section \<open>Criteo\<close>

definition is_definitely_categorical :: "string \<Rightarrow> bool" where
  "is_definitely_categorical s = list_ex (\<lambda>c. \<not> is_digit c \<and> c \<noteq> CHR ''-'') (c_str s)"

text \<open>\<open>1ULL << bits\<close>\<close>

definition hash_size :: "configuration \<Rightarrow> u64 res" where
  "hash_size config = (if cf_model_bits config < 64 then Inr (push_bit (unat (cf_model_bits config)) 1)
                       else Inl Undefined_behaviour)"

definition add_feature :: "u64 \<Rightarrow> string \<Rightarrow> (u64 \<times> i32) list \<Rightarrow> (u64 \<times> i32) list res" where
  "add_feature n l features = rbind (hash_f (to_bytes l)) (\<lambda>h. Inr (map_incr (h mod n) 1 features))"

text \<open>\<open>for (const auto& feat : features) if (feat.second != 0.0) push_back(...)\<close>\<close>

definition output_features :: "(u64 \<times> i32) list \<Rightarrow> sample" where
  "output_features features =
     map (\<lambda>(k, n). (ucast k, f32_of_int (sint n))) (filter (\<lambda>(k, n). n \<noteq> 0) features)"

definition check_line_size :: "string \<Rightarrow> unit res" where
  "check_line_size line = guard_rt (\<not> length line > MAX_STR_SIZE) ''Criteo input line is too big: ''"

definition criteo_column :: "u64 \<Rightarrow> nat \<times> string \<Rightarrow> f32 option \<times> (u64 \<times> i32) list \<Rightarrow>
    (f32 option \<times> (u64 \<times> i32) list) res" where
  "criteo_column n = (\<lambda>(col, l) (label, features).
     if col = 0 then rbind (str_to is_float l) (\<lambda>v. Inr (Some v, features))
     else if col \<ge> 14 then rbind (add_feature n l features) (\<lambda>features. Inr (label, features))
     else Inr (label, features))"

definition parse_criteo_sparse_line :: "string \<Rightarrow> string \<Rightarrow> configuration \<Rightarrow> parsed res" where
  "parse_criteo_sparse_line line delimiter config =
     rbind (check_line_size line) (\<lambda>_.
     rbind (copy_line MAX_STR_SIZE line) (\<lambda>s.
     rbind (hash_size config) (\<lambda>n.
     rbind (rfold (criteo_column n) (enumerate 0 (strsep_all delimiter s)) (None, [])) (\<lambda>(label, features).
     Inr (output_features features, label)))))"

text \<open>\<open>assert(label == 0.0 || label == 1.0)\<close>\<close>

definition kaggle_column :: "u64 \<Rightarrow> nat \<times> string \<Rightarrow> f32 option \<times> (u64 \<times> i32) list \<Rightarrow>
    (f32 option \<times> (u64 \<times> i32) list) res" where
  "kaggle_column n = (\<lambda>(col, l) (label, features).
     if col = 0 then Inr (label, features)
     else if col = 1 then
       rbind (str_to is_float l) (\<lambda>v.
       rbind (cassert (f64_eq (f64_of_f32 v) 0 \<or> f64_eq (f64_of_f32 v) f64_one)) (\<lambda>_.
       Inr (Some v, features)))
     else rbind (add_feature n l features) (\<lambda>features. Inr (label, features)))"

definition parse_criteo_kaggle_sparse_line :: "string \<Rightarrow> string \<Rightarrow> configuration \<Rightarrow> parsed res" where
  "parse_criteo_kaggle_sparse_line line delimiter config =
     rbind (check_line_size line) (\<lambda>_.
     rbind (copy_line MAX_STR_SIZE line) (\<lambda>s.
     rbind (hash_size config) (\<lambda>n.
     rbind (rfold (kaggle_column n) (enumerate 0 (strsep_all delimiter s)) (None, [])) (\<lambda>(label, features).
     rbind (if cf_use_bias config then add_feature n ''bias'' features else Inr features) (\<lambda>features.
     Inr (output_features features, label))))))"

section \<open>RCV1\<close>

text \<open>The classes of a sample, as the bytes of its label.\<close>

definition pack_label :: "i32 list \<Rightarrow> f32" where
  "pack_label classes =
     (let bs = take 4 (map ucast classes) :: byte list in word_of_nat (le_to_nat (bs @ replicate (4 - length bs) 0)))"

definition unpack_label :: "f32 \<Rightarrow> i32 list" where
  "unpack_label label = map scast (takeWhile (\<lambda>b. b \<noteq> 0) (store_u32 label))"

definition read_class :: "string \<Rightarrow> i32 list \<Rightarrow> i32 list res" where
  "read_class c classes =
     rbind (str_to is_int c) (\<lambda>v. if sint v = 2 ^ 31 - 1 then Inl Undefined_behaviour else Inr (classes @ [v + 1]))"

definition rcv1_feature :: "string \<Rightarrow> (u64 \<times> i32) list \<Rightarrow> (u64 \<times> i32) list res" where
  "rcv1_feature feat cat_features =
     (let index = takeWhile (\<lambda>c. c \<noteq> CHR '':'') feat;
          val = (case dropWhile (\<lambda>c. c \<noteq> CHR '':'') feat of [] \<Rightarrow> feat | _ # r \<Rightarrow> r)
      in rbind (str_to is_u64 index) (\<lambda>hash.
         rbind (str_to is_u64 val) (\<lambda>v.
         Inr (map_incr hash (ucast v) cat_features))))"

definition rcv1_column :: "nat \<times> string \<Rightarrow> f32 option \<times> (u64 \<times> i32) list \<Rightarrow> (f32 option \<times> (u64 \<times> i32) list) res" where
  "rcv1_column = (\<lambda>(col, l) (label, cat_features).
     if col = 0 then
       rbind (copy_line RCV1_STR_SIZE l) (\<lambda>s.
       rbind (rfold read_class (strsep_all '','' s) []) (\<lambda>classes.
       Inr (Some (pack_label classes), cat_features)))
     else if col = 1 then Inr (label, cat_features)
     else rbind (rcv1_feature l cat_features) (\<lambda>cat_features. Inr (label, cat_features)))"

text \<open>The buffer is a global variable: its last byte is zero and never written, so the line is cut.\<close>

definition parse_rcv1_vw_sparse_line :: "string \<Rightarrow> string \<Rightarrow> parsed res" where
  "parse_rcv1_vw_sparse_line line delimiter =
     rbind (guard_rt (\<not> length line > RCV1_STR_SIZE) ''rcv1 input line is too big: '') (\<lambda>_.
       let s = take (RCV1_STR_SIZE - 1) (c_str line)
       in rbind (rfold rcv1_column (enumerate 0 (strsep_all delimiter s)) (None, [])) (\<lambda>(label, cat_features).
          Inr (map (\<lambda>(k, n). (ucast k, f32_of_int (sint n))) cat_features, label)))"


section \<open>The features of a Criteo line\<close>

definition feature_hash :: "configuration \<Rightarrow> string \<Rightarrow> u64" where
  "feature_hash config l = (case hash_f (to_bytes l) of Inr h \<Rightarrow> h mod push_bit (unat (cf_model_bits config)) 1 | Inl _ \<Rightarrow> 0)"

text \<open>What a line with these columns has as features: each hash once, with how often it occurs.\<close>

definition hashed_features :: "configuration \<Rightarrow> string list \<Rightarrow> sample" where
  "hashed_features config cols =
     (let hs = map (feature_hash config) cols
      in map (\<lambda>h. (ucast h, f32_of_int (int (count_list hs h)))) (sorted_list_of_set (set hs)))"

lemma add_feature_ok:
  assumes "hash_size config = Inr n" "length l < 2 ^ 31"
  shows "add_feature n l features = Inr (map_incr (feature_hash config l) 1 features)"
proof -
  obtain h where "hash_f (to_bytes l) = Inr h" using hash_f_total[of "to_bytes l"] assms(2) by (auto simp: to_bytes_def)
  then show ?thesis using assms(1) by (auto simp: add_feature_def feature_hash_def hash_size_def split: if_splits)
qed

lemma totals_count:
  "totals (map (\<lambda>h. (h, 1 :: i32)) hs) = map (\<lambda>h. (h, word_of_nat (count_list hs h))) (sorted_list_of_set (set hs))"
proof -
  have "sum_list (map snd (filter (\<lambda>p. fst p = h) (map (\<lambda>h. (h, 1 :: i32)) hs))) = word_of_nat (count_list hs h)" for h
    by (induction hs) auto
  then show ?thesis by (simp add: totals_def image_image)
qed

lemma fold_hashes: "fold (\<lambda>l m. map_incr (f l) (1 :: i32) m) cols [] = totals (map (\<lambda>h. (h, 1)) (map f cols))"
  using fold_incr[of "map (\<lambda>l. (f l, 1 :: i32)) cols"] by (simp add: fold_map comp_def)

lemma output_totals:
  assumes "length hs < 2 ^ 31"
  shows "output_features (totals (map (\<lambda>h. (h, 1)) hs)) = map (\<lambda>h. (ucast h, f32_of_int (int (count_list hs h)))) (sorted_list_of_set (set hs))"
proof -
  have c: "sint (word_of_nat (count_list hs h) :: i32) = int (count_list hs h)" for h
    using count_le_length[of hs h] assms by (intro sint_small) simp
  have nz: "(word_of_nat (count_list hs h) :: i32) \<noteq> 0" if "h \<in> set hs" for h
  proof
    assume "(word_of_nat (count_list hs h) :: i32) = 0"
    then have "int (count_list hs h) = 0" using c[of h] by simp
    then show False using that by (simp add: count_list_0_iff)
  qed
  have "filter (\<lambda>(k, n). n \<noteq> 0) (totals (map (\<lambda>h. (h, 1 :: i32)) hs)) = totals (map (\<lambda>h. (h, 1)) hs)"
    unfolding totals_count using nz by (intro filter_True) auto
  then show ?thesis by (simp add: output_features_def totals_count c)
qed

lemma add_features_ok:
  assumes "hash_size config = Inr n" "\<forall>l\<in>set cols. length l < 2 ^ 31"
  shows "rfold (kaggle_column n) (enumerate (Suc (Suc k)) cols) (label, features)
    = Inr (label, fold (\<lambda>l. map_incr (feature_hash config l) 1) cols features)"
  using assms(2)
proof (induction cols arbitrary: k features)
  case (Cons l cols)
  then show ?case using add_feature_ok[OF assms(1), of l] Cons.IH[of "Suc k"] by (simp add: kaggle_column_def)
qed simp

lemma label_texts: "str_to is_float ''0'' = Inr 0" "str_to is_float ''1'' = Inr 0x3F800000"
  by (simp_all add: str_to_def stream_evals fp_evals)


lemma copy_line_id:
  assumes "CHR 0x00 \<notin> set s" "length s < n - 1"
  shows "copy_line n s = Inr s"
  using assms by (simp add: copy_line_def c_str_id)

lemma strsep_join:
  assumes "fs \<noteq> []" "\<forall>f\<in>set fs. d \<notin> set f" "d \<noteq> CHR 0x00"
  shows "strsep_all [d] (join d fs) = fs"
  using assms split_fields_join[of fs "\<lambda>c. c = d" d] by (auto simp: strsep_all_def c_str_def)

lemma length_join: "f \<in> set fs \<Longrightarrow> length f \<le> length (join d fs)"
  by (induction d fs rule: join.induct) auto

lemma length_join_cols: "length fs \<le> Suc (length (join d fs))"
  by (induction d fs rule: join.induct) auto

text \<open>
  A line of the Kaggle format is parsed to what it says: the label is 0 or 1, and the features
  are the hashes of its columns (and of the bias), in increasing order, each with the number of
  columns that have it.
\<close>

lemma kaggle_line_ok:
  assumes "d \<noteq> CHR 0x00" "\<forall>f\<in>set (sample_id # lab # cols). d \<notin> set f \<and> CHR 0x00 \<notin> set f"
    and "lab = ''0'' \<or> lab = ''1''" "length (join d (sample_id # lab # cols)) < 9999" "cf_model_bits config < 64"
  shows "parse_criteo_kaggle_sparse_line (join d (sample_id # lab # cols)) [d] config
    = Inr (hashed_features config (cols @ (if cf_use_bias config then [''bias''] else [])), Some (if lab = ''1'' then 0x3F800000 else 0))"
proof -
  define line where "line = join d (sample_id # lab # cols)"
  obtain n where n: "hash_size config = Inr n" using assms(5) by (simp add: hash_size_def)
  have nul: "CHR 0x00 \<notin> set line" using assms(1,2) by (auto simp: line_def set_join)
  have len: "length line < 9999" "length line \<le> MAX_STR_SIZE" using assms(4) by (simp_all add: line_def MAX_STR_SIZE_def)
  have cols: "\<forall>l\<in>set cols. length l < 2 ^ 31" "length cols < 2 ^ 31 - 1"
    using length_join[of _ "sample_id # lab # cols" d] length_join_cols[of "sample_id # lab # cols" d] assms(4) by fastforce+
  have cols_eq: "strsep_all [d] line = sample_id # lab # cols" unfolding line_def by (rule strsep_join) (use assms(1,2) in auto)
  define v where "v = (if lab = ''1'' then 0x3F800000 else (0 :: f32))"
  have "rfold (kaggle_column n) (enumerate 0 (strsep_all [d] line)) (None, [])
      = Inr (Some v, fold (\<lambda>l. map_incr (feature_hash config l) 1) cols [])"
    unfolding cols_eq using add_features_ok[OF n cols(1), of 0] assms(3) label_texts label_values f64_eq_labels
    by (auto simp: kaggle_column_def v_def)
  moreover have "copy_line MAX_STR_SIZE line = Inr line" using nul len by (intro copy_line_id) (simp_all add: MAX_STR_SIZE_def)
  moreover have "add_feature n ''bias'' m = Inr (map_incr (feature_hash config ''bias'') 1 m)" for m
    using add_feature_ok[OF n] by simp
  ultimately have "parse_criteo_kaggle_sparse_line line [d] config
      = Inr (output_features (fold (\<lambda>l. map_incr (feature_hash config l) 1) (cols @ (if cf_use_bias config then [''bias''] else [])) []), Some v)"
    using n len(2) by (simp add: parse_criteo_kaggle_sparse_line_def check_line_size_def)
  also have "\<dots> = Inr (hashed_features config (cols @ (if cf_use_bias config then [''bias''] else [])), Some v)"
    unfolding fold_hashes using cols(2) by (subst output_totals) (simp_all add: hashed_features_def)
  finally show ?thesis by (simp add: line_def v_def)
qed

lemma map_incr_totals: "map_incr h 1 (totals (map (\<lambda>h. (h, 1 :: i32)) hs)) = totals (map (\<lambda>h. (h, 1)) (hs @ [h]))"
  using fold_incr[of "map (\<lambda>h. (h, 1 :: i32)) hs"] fold_incr[of "map (\<lambda>h. (h, 1 :: i32)) (hs @ [h])"] by simp

lemma add_feature_totals:
  assumes "add_feature n l (totals (map (\<lambda>h. (h, 1)) hs)) = Inr m" "0 < n"
  shows "\<exists>h<n. m = totals (map (\<lambda>h. (h, 1)) (hs @ [h]))"
proof -
  obtain x where "m = map_incr (x mod n) 1 (totals (map (\<lambda>h. (h, 1)) hs))" using assms(1) by (auto simp: add_feature_def)
  moreover have "x mod n < n" using assms(2) by (rule word_mod_less_divisor)
  ultimately show ?thesis by (metis map_incr_totals)
qed

lemma kaggle_columns_totals:
  assumes "rfold (kaggle_column n) xs (label, totals (map (\<lambda>h. (h, 1)) hs)) = Inr (label', m)" "0 < n"
  shows "\<exists>hs'. m = totals (map (\<lambda>h. (h, 1)) (hs @ hs')) \<and> length hs' \<le> length xs \<and> (\<forall>h\<in>set hs'. h < n)"
  using assms(1)
proof (induction xs arbitrary: label hs)
  case Nil
  then show ?case by (auto intro: exI[of _ "[]"])
next
  case (Cons x xs)
  then obtain label1 m1 where 1: "kaggle_column n x (label, totals (map (\<lambda>h. (h, 1)) hs)) = Inr (label1, m1)"
    "rfold (kaggle_column n) xs (label1, m1) = Inr (label', m)" by auto
  have "m1 = totals (map (\<lambda>h. (h, 1)) hs) \<or> (\<exists>h<n. m1 = totals (map (\<lambda>h. (h, 1)) (hs @ [h])))"
    using 1(1) add_feature_totals[OF _ assms(2)] by (auto simp: kaggle_column_def split: prod.splits if_splits)
  then obtain hs1 where hs1: "m1 = totals (map (\<lambda>h. (h, 1)) (hs @ hs1))" "length hs1 \<le> 1" "\<forall>h\<in>set hs1. h < n"
    by (metis append_Nil2 empty_iff empty_set length_Cons list.size(3) le_numeral_extra(3,4) le_refl One_nat_def set_ConsD zero_le)
  from Cons.IH[OF 1(2)[unfolded hs1(1)]] obtain hs' where
    "m = totals (map (\<lambda>h. (h, 1)) ((hs @ hs1) @ hs'))" "length hs' \<le> length xs" "\<forall>h\<in>set hs'. h < n" by blast
  then show ?case using hs1 by (intro exI[of _ "hs1 @ hs'"]) auto
qed

lemma length_split_fields_le: "length (split_fields sep s) \<le> Suc (length s)"
  by (induction s) (auto split: list.splits)

lemma kaggle_features_ok:
  assumes "parse_criteo_kaggle_sparse_line line delimiter config = Inr (features, label)" "unat (cf_model_bits config) \<le> 31"
  shows "sorted_wrt (<) (map (\<lambda>(i, v). unat i) features)
    \<and> (\<forall>(i, v)\<in>set features. unat i < 2 ^ unat (cf_model_bits config) \<and> (\<exists>k>0. k \<le> 10000 \<and> v = f32_of_int k))"
proof -
  from assms(1) obtain s n m where s: "copy_line MAX_STR_SIZE line = Inr s" and n: "hash_size config = Inr n"
    and m: "rfold (kaggle_column n) (enumerate 0 (strsep_all delimiter s)) (None, []) = Inr (label, m)"
    and f: "\<exists>m'. (if cf_use_bias config then add_feature n ''bias'' m else Inr m) = Inr m' \<and> features = output_features m'"
    unfolding parse_criteo_kaggle_sparse_line_def by auto
  have "(2 :: nat) ^ unat (cf_model_bits config) < 2 ^ 64" using assms(2) by (intro power_strict_increasing) auto
  then have un: "unat n = 2 ^ unat (cf_model_bits config)"
  proof -
    assume lt: "(2 :: nat) ^ unat (cf_model_bits config) < 2 ^ 64"
    have "n = word_of_nat (2 ^ unat (cf_model_bits config))"
      using n by (auto simp: hash_size_def push_bit_eq_mult split: if_splits)
    then show ?thesis using lt by (simp only: unat_of_nat) (simp add: take_bit_nat_eq_self)
  qed
  then have npos: "0 < n" by (simp add: word_less_nat_alt)
  have "length s < 9999" using s by (auto simp: copy_line_def MAX_STR_SIZE_def split: if_splits)
  then have len: "length (enumerate 0 (strsep_all delimiter s)) \<le> 9999"
    using length_split_fields_le[of "\<lambda>c. c \<in> set (c_str delimiter)" s] by (simp add: strsep_all_def)
  have "rfold (kaggle_column n) (enumerate 0 (strsep_all delimiter s)) (None, totals (map (\<lambda>h. (h, 1)) [])) = Inr (label, m)"
    using m by (simp add: totals_def)
  from kaggle_columns_totals[OF this npos] obtain hs where
    hs: "m = totals (map (\<lambda>h. (h, 1)) hs)" "length hs \<le> 9999" "\<forall>h\<in>set hs. h < n" using len by auto
  have "\<exists>hs'. features = output_features (totals (map (\<lambda>h. (h, 1)) hs')) \<and> length hs' \<le> 10000 \<and> (\<forall>h\<in>set hs'. h < n)"
  proof (cases "cf_use_bias config")
    case True
    then show ?thesis using f hs add_feature_totals[OF _ npos, of "''bias''" hs] by fastforce
  next
    case False
    then show ?thesis using f hs by auto
  qed
  then obtain hs' where h: "features = output_features (totals (map (\<lambda>h. (h, 1)) hs'))" "length hs' \<le> 10000" "\<forall>h\<in>set hs'. h < n" by blast
  have feats: "features = map (\<lambda>h. (ucast h, f32_of_int (int (count_list hs' h)))) (sorted_list_of_set (set hs'))"
    using h(1,2) by (simp add: output_totals)
  have u: "unat (ucast h :: i32) = unat h \<and> unat h < unat n" if "h \<in> set hs'" for h
  proof -
    have "unat h < unat n" using that h(3) by (simp add: word_less_nat_alt)
    moreover have "unat n \<le> 2 ^ 31" unfolding un using assms(2) by (intro power_increasing) auto
    ultimately show ?thesis by (simp add: unsigned_ucast_eq take_bit_nat_eq_self)
  qed
  have "map (\<lambda>(i, v). unat i) features = map unat (sorted_list_of_set (set hs'))"
    using u by (simp add: feats)
  moreover have "sorted_wrt (<) (map unat (sorted_list_of_set (set hs')))"
    using strict_sorted_list_of_set[of "set hs'"] by (simp add: sorted_wrt_map word_less_nat_alt[symmetric])
  moreover have "\<forall>(i, v)\<in>set features. unat i < 2 ^ unat (cf_model_bits config) \<and> (\<exists>k>0. k \<le> 10000 \<and> v = f32_of_int k)"
  proof -
    have "\<exists>k>0. k \<le> 10000 \<and> f32_of_int (int (count_list hs' h)) = f32_of_int k" if "h \<in> set hs'" for h
      using that count_le_length[of hs' h] h(2) count_list_0_iff[of hs' h]
      by (intro exI[of _ "int (count_list hs' h)"]) auto
    then show ?thesis using u un by (auto simp: feats)
  qed
  ultimately show ?thesis by simp
qed

text \<open>
  C24: Whatever line the parser accepts, its features fit the model: each index is below the number
  of weights and occurs once, in increasing order, with a positive count.
\<close>

theorem kaggle_features_fit:
  assumes "parse_criteo_kaggle_sparse_line line delimiter config = Inr (features, label)" "unat (cf_model_bits config) \<le> 31"
  shows "sorted_wrt (<) (map (\<lambda>(i, v). unat i) features)
    \<and> (\<forall>(i, v)\<in>set features. unat i < 2 ^ unat (cf_model_bits config) \<and> (\<exists>k>0. k \<le> 10000 \<and> v = f32_of_int k))"
  by (rule kaggle_features_ok[OF assms])

theorem kaggle_features_fit_witness:
  "\<exists>features. parse_criteo_kaggle_sparse_line (join CHR '','' [''7'', ''1'', ''a'']) '','' (conf_new\<lparr>cf_model_bits := 10\<rparr>)
      = Inr (features, Some 0x3F800000)
    \<and> sorted_wrt (<) (map (\<lambda>(i, v). unat i) features)"
proof -
  let ?c = "conf_new\<lparr>cf_model_bits := 10\<rparr>"
  have "parse_criteo_kaggle_sparse_line (join CHR '','' [''7'', ''1'', ''a'']) '','' ?c
      = Inr (hashed_features ?c ([''a''] @ (if cf_use_bias ?c then [''bias''] else [])), Some (if ''1'' = ''1'' then 0x3F800000 else 0))"
    by (rule kaggle_line_ok) simp_all
  from kaggle_features_fit[OF this] this show ?thesis by simp
qed

text \<open>
  A line of 9999 or 10000 characters passes the check of its size and is not terminated in the
  buffer it is copied to: the parser reads what was never written.
\<close>

lemma kaggle_line_not_terminated:
  assumes "length line = 9999 \<or> length line = 10000" "CHR 0x00 \<notin> set line"
  shows "parse_criteo_kaggle_sparse_line line delimiter config = Inl Undefined_behaviour"
  using assms by (auto simp: parse_criteo_kaggle_sparse_line_def check_line_size_def MAX_STR_SIZE_def copy_line_def c_str_id)

lemma kaggle_line_not_terminated_example:
  "parse_criteo_kaggle_sparse_line (replicate 9999 CHR ''1'') '','' conf_new = Inl Undefined_behaviour"
  by (rule kaggle_line_not_terminated) (simp_all add: in_set_replicate)


section \<open>RCV1 lines\<close>

lemma store_of_bytes: "length bs = 4 \<Longrightarrow> store_u32 (word_of_nat (le_to_nat bs)) = bs"
proof -
  assume len: "length bs = 4"
  then have "le_to_nat bs < 2 ^ 32" using le_to_nat_less[of bs] by simp
  then have "unat (word_of_nat (le_to_nat bs) :: u32) = le_to_nat bs"
    by (simp only: unat_of_nat) (simp add: take_bit_nat_eq_self)
  then show ?thesis using nat_to_le_le_to_nat[of bs] len by (simp add: store_u32_def)
qed

lemma class_byte:
  assumes "0 < sint c" "sint c < 128"
  shows "(ucast c :: byte) \<noteq> 0" "scast (ucast (c :: i32) :: byte) = c"
proof -
  define k where "k = nat (sint c)"
  have k: "0 < k" "k < 128" "sint c = int k" using assms by (auto simp: k_def)
  have "c = word_of_int (sint c)" by (rule sym) simp
  then have c: "c = word_of_nat k" by (simp only: k(3) of_int_of_nat_eq)
  have b: "(ucast c :: byte) = word_of_nat k" unfolding c by transfer simp
  have "unat (word_of_nat k :: byte) = k" using k by (simp only: unat_of_nat) (simp add: take_bit_nat_eq_self)
  then show "(ucast c :: byte) \<noteq> 0" using k(1) b by auto
  have "sint (word_of_nat k :: byte) = int k" using k by (simp add: signed_of_nat signed_take_bit_int_eq_self)
  then have "scast (word_of_nat k :: byte) = (word_of_int (int k) :: i32)" by (metis of_int_sint)
  then show "scast (ucast c :: byte) = c" unfolding b by (simp only: c of_int_of_nat_eq)
qed

text \<open>
  The classes of a sample are read back from its label, up to four of them and below 128.
\<close>

lemma label_read_back:
  assumes "\<forall>c\<in>set classes. 0 < sint c \<and> sint c < 128"
  shows "unpack_label (pack_label classes) = take 4 classes"
proof -
  define bs where "bs = take 4 (map ucast classes :: byte list)"
  have nz: "b \<noteq> 0" if "b \<in> set bs" for b
    using that assms class_byte(1) by (auto simp: bs_def dest!: in_set_takeD)
  have "store_u32 (pack_label classes) = bs @ replicate (4 - length bs) 0"
    using store_of_bytes[of "bs @ replicate (4 - length bs) 0"] by (simp add: pack_label_def bs_def Let_def)
  then have "unpack_label (pack_label classes) = map scast bs"
    using nz by (simp add: unpack_label_def takeWhile_append2 takeWhile_replicate)
  also have "\<dots> = map (\<lambda>c. scast (ucast c :: byte)) (take 4 classes)" by (simp add: bs_def take_map comp_def)
  also have "\<dots> = take 4 classes"
    using assms class_byte(2) by (intro map_idI) (auto dest!: in_set_takeD)
  finally show ?thesis .
qed

text \<open>The text of a line: the classes, a bar, and the features with values that start with a natural number.\<close>

definition rcv1_feature_text :: "nat \<times> nat \<times> string \<Rightarrow> string" where
  "rcv1_feature_text = (\<lambda>(i, n, r). show_nat i @ '':'' @ show_nat n @ r)"

definition rcv1_text :: "nat list \<Rightarrow> (nat \<times> nat \<times> string) list \<Rightarrow> string" where
  "rcv1_text classes fs = join (CHR '' '') (join (CHR '','') (map show_nat classes) # ''|'' # map rcv1_feature_text fs)"

definition rcv1_ok :: "nat list \<Rightarrow> (nat \<times> nat \<times> string) list \<Rightarrow> bool" where
  "rcv1_ok classes fs \<longleftrightarrow> classes \<noteq> [] \<and> (\<forall>c\<in>set classes. c < 2 ^ 31 - 1)
     \<and> (\<forall>(i, n, r)\<in>set fs. i < 2 ^ 64 \<and> n < 2 ^ 64 \<and> CHR '' '' \<notin> set r \<and> CHR 0x00 \<notin> set r \<and> (r = [] \<or> \<not> is_digit (hd r)))
     \<and> length (rcv1_text classes fs) < 19999"

lemma show_nat_no: "\<not> is_digit c \<Longrightarrow> c \<notin> set (show_nat n)"
  using show_nat_digits[of n] by (auto simp: list_all_iff)

lemma not_digits [simp]: "\<not> is_digit (CHR '' '')" "\<not> is_digit (CHR '','')" "\<not> is_digit (CHR '':'')" "\<not> is_digit (CHR 0x00)"
  by (simp_all add: is_digit_def ccode_def)

lemma show_nat_start: "dropWhile is_space (show_nat n @ r) = show_nat n @ r" "\<not> list_all is_space (show_nat n @ r)"
  using show_nat_hd[of n] digit_not_space by auto

lemma show_nat_not_Nil [simp]: "show_nat n \<noteq> []"
  using show_nat_hd[of n] by auto

lemma str_to_u64_show:
  assumes "n < 2 ^ 64" "r = [] \<or> \<not> is_digit (hd r)"
  shows "str_to is_u64 (show_nat n @ r) = Inr (word_of_nat n)"
  using assms show_nat_start[of n r] get_u64_show[OF assms]
  by (simp add: str_to_def is_u64_def fmt_extract_def istream_of_def)

lemma get_int_show:
  assumes "n < 2 ^ 31"
  shows "get_int (show_nat n) = (word_of_nat n, False, [])"
proof -
  have t: "takeWhile is_digit (show_nat n) = show_nat n" "dropWhile is_digit (show_nat n) = []"
    using take_drop_show[of "[]" n] by simp_all
  show ?thesis using assms get_sign_show[of n "[]"]
    by (simp add: get_int_def get_long_def Let_def digits_value_show t del: takeWhile_eq_all_conv dropWhile_eq_Nil_conv)
qed

lemma str_to_int_show: "n < 2 ^ 31 \<Longrightarrow> str_to is_int (show_nat n) = Inr (word_of_nat n)"
  using show_nat_start[of n "[]"] get_int_show[of n] by (simp add: str_to_def is_int_def fmt_extract_def istream_of_def)

lemma read_classes:
  assumes "\<forall>c\<in>set classes. c < 2 ^ 31 - 1"
  shows "rfold read_class (map show_nat classes) acc = Inr (acc @ map (\<lambda>c. word_of_nat c + 1) classes)"
  using assms
proof (induction classes arbitrary: acc)
  case (Cons c classes)
  then have "sint (word_of_nat c :: i32) = int c" by (intro sint_small) simp
  with Cons show ?case by (simp add: read_class_def str_to_int_show)
qed simp

lemma rcv1_feature_ok:
  assumes "i < 2 ^ 64" "n < 2 ^ 64" "r = [] \<or> \<not> is_digit (hd r)"
  shows "rcv1_feature (rcv1_feature_text (i, n, r)) m = Inr (map_incr (word_of_nat i) (word_of_nat n) m)"
proof -
  have no: "\<forall>c\<in>set (show_nat i). c \<noteq> CHR '':''" using show_nat_no[of "CHR '':''" i] by auto
  then have "takeWhile (\<lambda>c. c \<noteq> CHR '':'') (rcv1_feature_text (i, n, r)) = show_nat i"
    "dropWhile (\<lambda>c. c \<noteq> CHR '':'') (rcv1_feature_text (i, n, r)) = CHR '':'' # show_nat n @ r"
    by (simp_all add: rcv1_feature_text_def takeWhile_append2 dropWhile_append2)
  moreover have "(ucast (word_of_nat n :: u64) :: i32) = word_of_nat n" by transfer simp
  ultimately show ?thesis using str_to_u64_show[OF assms(1), of "[]"] str_to_u64_show[OF assms(2,3)]
    by (simp add: rcv1_feature_def)
qed

lemma rcv1_features_ok:
  assumes "\<forall>(i, n, r)\<in>set fs. i < 2 ^ 64 \<and> n < 2 ^ 64 \<and> (r = [] \<or> \<not> is_digit (hd r))"
  shows "rfold rcv1_column (enumerate (Suc (Suc k)) (map rcv1_feature_text fs)) (label, m)
    = Inr (label, fold (\<lambda>(k, v). map_incr k v) (map (\<lambda>(i, n, r). (word_of_nat i, word_of_nat n)) fs) m)"
  using assms
proof (induction fs arbitrary: k m)
  case (Cons f fs)
  obtain i n r where f: "f = (i, n, r)" by (cases f)
  show ?case using Cons.IH[of "Suc k"] Cons.prems rcv1_feature_ok[of i n r m] by (simp add: rcv1_column_def f)
qed simp

lemma rcv1_line_ok:
  assumes "rcv1_ok classes fs"
  shows "parse_rcv1_vw_sparse_line (rcv1_text classes fs) '' ''
    = Inr (map (\<lambda>(k, n). (ucast k, f32_of_int (sint n))) (totals (map (\<lambda>(i, n, r). (word_of_nat i :: u64, word_of_nat n :: i32)) fs)),
        Some (pack_label (map (\<lambda>c. word_of_nat c + 1) classes)))"
proof -
  define lab where "lab = join (CHR '','') (map show_nat classes)"
  define line where "line = rcv1_text classes fs"
  have ok: "classes \<noteq> []" "\<forall>c\<in>set classes. c < 2 ^ 31 - 1" "length line < 19999"
    "\<forall>(i, n, r)\<in>set fs. i < 2 ^ 64 \<and> n < 2 ^ 64 \<and> (r = [] \<or> \<not> is_digit (hd r))"
    using assms by (auto simp: rcv1_ok_def line_def)
  have l: "CHR 0x00 \<notin> set f \<and> CHR '' '' \<notin> set f" if "f \<in> set (map rcv1_feature_text fs)" for f
    using that assms show_nat_no by (auto simp: rcv1_feature_text_def rcv1_ok_def)
  have l': "CHR '' '' \<notin> set lab" "CHR 0x00 \<notin> set lab"
    using ok(1) show_nat_no by (auto simp: lab_def set_join)
  have cols: "strsep_all '' '' line = lab # ''|'' # map rcv1_feature_text fs"
    unfolding line_def rcv1_text_def lab_def[symmetric] by (rule strsep_join) (use l l' in auto)
  have "CHR 0x00 \<notin> set line" using l l' by (auto simp: line_def rcv1_text_def lab_def[symmetric] set_join)
  then have s: "take (RCV1_STR_SIZE - 1) (c_str line) = line" using ok(3) by (simp add: c_str_id RCV1_STR_SIZE_def)
  have "strsep_all '','' lab = map show_nat classes"
    unfolding lab_def by (rule strsep_join) (use ok(1) show_nat_no in auto)
  moreover have "length lab \<le> length line"
    unfolding line_def rcv1_text_def lab_def[symmetric] by (rule length_join) simp
  then have "copy_line RCV1_STR_SIZE lab = Inr lab" using ok(3) l' by (intro copy_line_id) (simp_all add: RCV1_STR_SIZE_def)
  ultimately have "rcv1_column (0, lab) (None, []) = Inr (Some (pack_label (map (\<lambda>c. word_of_nat c + 1) classes)), [])"
    using read_classes[OF ok(2), of "[]"] by (simp add: rcv1_column_def)
  moreover have "rcv1_column (Suc 0, ''|'') x = Inr x" for x by (cases x) (simp add: rcv1_column_def)
  ultimately have "rfold rcv1_column (enumerate 0 (strsep_all '' '' line)) (None, [])
      = Inr (Some (pack_label (map (\<lambda>c. word_of_nat c + 1) classes)), totals (map (\<lambda>(i, n, r). (word_of_nat i, word_of_nat n)) fs))"
    unfolding cols using rcv1_features_ok[OF ok(4), of 0 _ "[]", unfolded fold_incr] by simp
  then show ?thesis using s ok(3) by (simp add: parse_rcv1_vw_sparse_line_def line_def[symmetric] RCV1_STR_SIZE_def Let_def)
qed

text \<open>A delimiter at the end of a line adds the feature 0 to the sample.\<close>

lemma rcv1_empty_feature: "rcv1_feature [] m = Inr (map_incr 0 0 m)"
  by (simp add: rcv1_feature_def str_to_def)

text \<open>
  A line of RCV1 is parsed to what it says: the label holds its first four classes, plus one,
  and the features are the indices of the line in increasing order, each with the sum of the
  integer parts of its values.
\<close>

lemma rcv1_line_parsed:
  assumes "rcv1_ok classes fs" "\<forall>c\<in>set classes. c < 127"
  shows "\<exists>label. parse_rcv1_vw_sparse_line (rcv1_text classes fs) '' ''
      = Inr (map (\<lambda>(k, n). (ucast k, f32_of_int (sint n))) (totals (map (\<lambda>(i, n, r). (word_of_nat i :: u64, word_of_nat n :: i32)) fs)), Some label)
    \<and> unpack_label label = map (\<lambda>c. word_of_nat (c + 1)) (take 4 classes)"
proof -
  let ?cs = "map (\<lambda>c. word_of_nat c + 1 :: i32) classes"
  have "sint (word_of_nat c + 1 :: i32) = int c + 1" if "c < 127" for c
  proof -
    have "(word_of_nat c + 1 :: i32) = word_of_nat (c + 1)" by simp
    then show ?thesis using that using sint_small[of "c + 1"] by (simp add: add.commute)
  qed
  then have "\<forall>c\<in>set ?cs. 0 < sint c \<and> sint c < 128" using assms(2) by auto
  from label_read_back[OF this] have "unpack_label (pack_label ?cs) = map (\<lambda>c. word_of_nat (c + 1)) (take 4 classes)"
    by (simp add: take_map add.commute)
  then show ?thesis using rcv1_line_ok[OF assms(1)] by blast
qed

definition ex_rcv1 :: "(nat \<times> nat \<times> string) list" where
  "ex_rcv1 = [(33, 1, ''.000000''), (33, 2, [])]"

lemma ex_rcv1_ok: "rcv1_ok [9, 68] ex_rcv1"
  by (simp add: rcv1_ok_def ex_rcv1_def rcv1_text_def rcv1_feature_text_def show_nat.simps is_digit_def ccode_def)

lemma rcv1_line_parsed_example:
  "\<exists>label. parse_rcv1_vw_sparse_line (rcv1_text [9, 68] ex_rcv1) '' ''
      = Inr (map (\<lambda>(k, n). (ucast k, f32_of_int (sint n))) (totals (map (\<lambda>(i, n, r). (word_of_nat i :: u64, word_of_nat n :: i32)) ex_rcv1)), Some label)
    \<and> unpack_label label = map (\<lambda>c. word_of_nat (c + 1)) (take 4 [9, 68])"
  by (rule rcv1_line_parsed[OF ex_rcv1_ok]) simp

end
