(* ===== verification/CsvRead.thy ===== *)
theory CsvRead
  imports LineParse
begin

text \<open>
  The readers of dense data in CSV files (\<open>InputReader.cpp\<close>): the parser of the worker threads of
  \<open>read_input_csv\<close>, the MNIST reader, the split into features and labels, and normalisation.
\<close>

section \<open>Lines to samples\<close>

text \<open>The columns of a line, at most \<open>limit_cols\<close> of them unless that is 0; the first is the label.\<close>

definition process_line :: "string \<Rightarrow> u64 \<Rightarrow> string \<Rightarrow> (f32 list \<times> f32) res" where
  "process_line delimiter limit_cols line =
     rbind (cassert (length line < MAX_STR_SIZE)) (\<lambda>_.
     rbind (copy_line MAX_STR_SIZE line) (\<lambda>s.
     let cols = strsep_all delimiter s
     in rbind (rmap (str_to is_float) (if limit_cols = 0 then cols else take (unat limit_cols) cols)) (\<lambda>sample.
        Inr (tl sample, hd sample))))"

text \<open>The lines are taken from the back.\<close>

definition process_lines :: "string list \<Rightarrow> string \<Rightarrow> u64 \<Rightarrow> f32 list list \<times> f32 list \<Rightarrow> (f32 list list \<times> f32 list) res" where
  "process_lines thread_lines delimiter limit_cols =
     rfold (\<lambda>line (thread_samples, thread_labels).
       rbind (process_line delimiter limit_cols line) (\<lambda>(sample, label).
       Inr (thread_samples @ [sample], thread_labels @ [label]))) (rev thread_lines)"

text \<open>
  A turn of a worker thread: it takes up to 1000 lines off its queue, parses them, and pops what it
  parsed from the back into the shared result.
\<close>

definition read_csv_thread :: "string \<Rightarrow> u64 \<Rightarrow> string list \<times> f32 list list \<times> f32 list \<Rightarrow>
    (string list \<times> f32 list list \<times> f32 list) res" where
  "read_csv_thread delimiter limit_cols = (\<lambda>(queue, samples, labels).
     rbind (process_lines (take 1000 queue) delimiter limit_cols ([], [])) (\<lambda>(thread_samples, thread_labels).
     Inr (drop 1000 queue, samples @ rev thread_samples, labels @ rev thread_labels)))"

text \<open>The reader of the binary Criteo format is switched off.\<close>

definition read_input_criteo :: "string \<Rightarrow> string \<Rightarrow> unit res" where
  "read_input_criteo samples_input_file labels_input_file = Inl (Runtime_error ''No longer supported'')"

text \<open>
  \<open>read_input_csv\<close> fills a vector that has capacity for a batch, but no elements; when there is
  no line to read, it prints the first sample of none.
\<close>

definition read_input_csv :: "string option \<Rightarrow> unit res" where
  "read_input_csv file =
     (case file of
        None \<Rightarrow> Inl (Runtime_error ''Error opening input file'')
      | Some s \<Rightarrow>
          rbind (case lines_of s of
                   [] \<Rightarrow> Inr ([] :: string list)
                 | line # _ \<Rightarrow> vec_set [] 0 line) (\<lambda>input.
          rbind (vec_get ([] :: f32 list list) 0) (\<lambda>_. Inr ())))"

section \<open>MNIST\<close>

text \<open>\<open>fgets(str, n, fin)\<close>: up to and with the newline, but at most \<open>n - 1\<close> characters.\<close>

definition fgets_piece :: "nat \<Rightarrow> string \<Rightarrow> string" where
  "fgets_piece n s =
     (let l = take (n - 1) s; k = length (takeWhile (\<lambda>c. c \<noteq> CHR 0x0A) l) in take (k + 1) l)"

lemma fgets_piece_pos: "s \<noteq> [] \<Longrightarrow> 2 \<le> n \<Longrightarrow> fgets_piece n s \<noteq> []"
  by (simp add: fgets_piece_def Let_def)

function fgets_all :: "nat \<Rightarrow> string \<Rightarrow> string list" where
  "fgets_all n s =
     (if s = [] \<or> n < 2 then [] else fgets_piece n s # fgets_all n (drop (length (fgets_piece n s)) s))"
  by pat_completeness auto
termination
  by (relation "measure (\<lambda>(n, s). length s)") (auto intro!: diff_less simp: fgets_piece_pos)

declare fgets_all.simps [simp del]

definition read_mnist_csv :: "string option \<Rightarrow> string \<Rightarrow> f32 list list res" where
  "read_mnist_csv file delimiter =
     (case file of
        None \<Rightarrow> Inl (Runtime_error ''Can't open file: '')
      | Some s \<Rightarrow> rmap (\<lambda>str. rmap (str_to is_float) (strsep_all delimiter (c_str str))) (fgets_all MAX_STR_SIZE s))"

section \<open>Labels\<close>

definition split_row :: "nat \<Rightarrow> f32 list \<Rightarrow> f32 list list \<times> f32 list \<Rightarrow> (f32 list list \<times> f32 list) res" where
  "split_row label_col row = (\<lambda>(training_data, labels).
     rbind (vec_get row label_col) (\<lambda>label.
     Inr (training_data @ [take label_col row @ drop (label_col + 1) row], labels @ [label])))"

definition split_data_labels :: "f32 list list \<Rightarrow> u32 \<Rightarrow> (f32 list list \<times> f32 list) res" where
  "split_data_labels input label_col =
     rbind (guard_rt (input \<noteq> []) ''Error: Input data has 0 columns'') (\<lambda>_.
     rbind (guard_rt (\<not> length (hd input) < unat label_col) ''Error: label column is too big'') (\<lambda>_.
     rfold (split_row (unat label_col)) input ([], [])))"

text \<open>
  \<open>std::random_shuffle\<close> after \<open>std::srand(42)\<close>: the positions depend on the number of elements only.
\<close>

definition random_shuffle :: "(nat \<Rightarrow> nat list) \<Rightarrow> 'a list \<Rightarrow> 'a list" where
  "random_shuffle positions xs = map (\<lambda>i. xs ! i) (positions (length xs))"

definition shuffle_samples_labels :: "(nat \<Rightarrow> nat list) \<Rightarrow> 'a list \<Rightarrow> 'b list \<Rightarrow> 'a list \<times> 'b list" where
  "shuffle_samples_labels positions samples labels = (random_shuffle positions samples, random_shuffle positions labels)"

section \<open>Normalisation\<close>

definition for_entries :: "(nat \<Rightarrow> f32 \<Rightarrow> f32 list \<Rightarrow> f32 list res) \<Rightarrow> nat \<Rightarrow> f32 list list \<Rightarrow> f32 list \<Rightarrow> f32 list res" where
  "for_entries f cols data =
     rfold (\<lambda>row acc. rfold (\<lambda>j acc. rbind (vec_get row j) (\<lambda>x. f j x acc)) [0..<cols] acc) data"

definition csv_means :: "nat \<Rightarrow> f32 list list \<Rightarrow> f32 list res" where
  "csv_means cols data = for_entries (\<lambda>j x means.
     Inr (means[j := f32_add (means ! j) (f32_div x (f32_of_int (int (length data))))])) cols data (replicate cols 0)"

text \<open>\<open>std::pow(x, 2)\<close> is computed in \<open>double\<close>, where the square of a \<open>float\<close> is exact.\<close>

definition csv_sds :: "nat \<Rightarrow> f32 list \<Rightarrow> f32 list list \<Rightarrow> f32 list res" where
  "csv_sds cols means data =
     rbind (for_entries (\<lambda>j x sds.
       let d = f64_of_f32 (f32_sub x (means ! j))
       in Inr (sds[j := f32_of_f64 (f64_add (f64_of_f32 (sds ! j)) (f64_mul d d))])) cols data (replicate cols 0)) (\<lambda>sds.
     Inr (map (\<lambda>x. f32_sqrt (f32_div x (f32_of_int (int (length data))))) sds))"

definition normalize_entry :: "f32 list \<Rightarrow> f32 list \<Rightarrow> nat \<Rightarrow> f32 list \<Rightarrow> f32 list res" where
  "normalize_entry means sds j row =
     rbind (vec_get row j) (\<lambda>x.
     let x = (if \<not> f32_eq (means ! j) 0 then f32_div (f32_sub x (means ! j)) (sds ! j) else x)
     in rbind (guard_rt (\<not> f32_badv x) ''Value is not valid after normalization'') (\<lambda>_. Inr (row[j := x])))"

definition normalize :: "f32 list list \<Rightarrow> f32 list list res" where
  "normalize data =
     rbind (vec_get data 0) (\<lambda>first.
     let cols = length first
     in rbind (csv_means cols data) (\<lambda>means.
        rbind (csv_sds cols means data) (\<lambda>sds.
        rmap (rfold (normalize_entry means sds) [0..<cols]) data)))"

section \<open>What they compute\<close>

lemma process_lines_eq:
  "process_lines ls delimiter limit_cols (ss, ys)
    = rbind (rmap (process_line delimiter limit_cols) (rev ls)) (\<lambda>ps. Inr (ss @ map fst ps, ys @ map snd ps))"
proof -
  have "rfold (\<lambda>line (thread_samples, thread_labels). rbind (process_line delimiter limit_cols line) (\<lambda>(sample, label).
       Inr (thread_samples @ [sample], thread_labels @ [label]))) xs (ss, ys)
     = rbind (rmap (process_line delimiter limit_cols) xs) (\<lambda>ps. Inr (ss @ map fst ps, ys @ map snd ps))" for xs
  proof (induction xs arbitrary: ss ys)
    case (Cons x xs)
    then show ?case by (cases "process_line delimiter limit_cols x"; cases "rmap (process_line delimiter limit_cols) xs") auto
  qed simp
  then show ?thesis by (simp add: process_lines_def)
qed

lemma rmap_append: "rmap f (xs @ ys) = rbind (rmap f xs) (\<lambda>us. rbind (rmap f ys) (\<lambda>vs. Inr (us @ vs)))"
proof (induction xs)
  case Nil
  then show ?case by (cases "rmap f ys") auto
next
  case (Cons x xs)
  then show ?case by (cases "f x"; cases "rmap f xs"; cases "rmap f ys") auto
qed

lemma rmap_rev: "rmap f (rev xs) = Inr ys \<longleftrightarrow> rmap f xs = Inr (rev ys)"
proof (induction xs arbitrary: ys)
  case (Cons x xs)
  show ?case
  proof
    assume "rmap f (rev (x # xs)) = Inr ys"
    then obtain us v where "rmap f (rev xs) = Inr us" "f x = Inr v" "ys = us @ [v]" by (auto simp: rmap_append)
    then show "rmap f (x # xs) = Inr (rev ys)" using Cons.IH[of us] by simp
  next
    assume "rmap f (x # xs) = Inr (rev ys)"
    then have "\<exists>v us. f x = Inr v \<and> rmap f xs = Inr us \<and> v # us = rev ys" by auto
    then obtain v us where v: "f x = Inr v" "rmap f xs = Inr us" "v # us = rev ys" by blast
    then have "ys = rev us @ [v]" by (metis rev.simps(2) rev_rev_ident)
    then show "rmap f (rev (x # xs)) = Inr ys" using v Cons.IH[of "rev us"] by (simp add: rmap_append)
  qed
qed auto

text \<open>
  A turn of a worker thread appends the samples and labels of the lines it takes in the order of
  the lines, although it parses them from the back and pops the results from the back.
\<close>

lemma csv_turn_in_order:
  assumes "rmap (process_line delimiter limit_cols) (take 1000 queue) = Inr ps"
  shows "read_csv_thread delimiter limit_cols (queue, samples, labels)
    = Inr (drop 1000 queue, samples @ map fst ps, labels @ map snd ps)"
proof -
  have "rmap (process_line delimiter limit_cols) (rev (take 1000 queue)) = Inr (rev ps)" using assms by (simp add: rmap_rev)
  then show ?thesis by (simp add: read_csv_thread_def process_lines_eq rev_map)
qed

lemma csv_turn_in_order_example:
  "read_csv_thread '','' 0 ([''1,2'', ''0,3''], [], [])
    = Inr (drop 1000 [''1,2'', ''0,3''], [] @ map fst [([0x40000000], 0x3F800000 :: f32), ([0x40400000], 0)], [] @ map snd [([0x40000000 :: f32], 0x3F800000), ([0x40400000], 0)])"
  by (rule csv_turn_in_order)
    (simp add: process_line_def MAX_STR_SIZE_def copy_line_def c_str_def strsep_all_def str_to_def stream_evals fp_evals Let_def)

text \<open>Reading a CSV file is undefined for every file there is.\<close>

lemma read_input_csv_undefined: "read_input_csv (Some s) = Inl Undefined_behaviour"
  by (cases "lines_of s") (simp_all add: read_input_csv_def vec_set_def vec_get_def)

lemma fgets_concat: "2 \<le> n \<Longrightarrow> concat (fgets_all n s) = s"
proof (induction n s rule: fgets_all.induct)
  case (1 n s)
  have "fgets_piece n s = take (length (fgets_piece n s)) s"
    by (simp add: fgets_piece_def Let_def min_def length_takeWhile_le)
  then have "fgets_piece n s @ drop (length (fgets_piece n s)) s = s" by (metis append_take_drop_id)
  then show ?case using 1 by (subst fgets_all.simps) auto
qed

lemma split_rows:
  "\<forall>row\<in>set input. c < length row \<Longrightarrow>
   rfold (split_row c) input (td, ls) = Inr (td @ map (\<lambda>row. take c row @ drop (c + 1) row) input, ls @ map (\<lambda>row. row ! c) input)"
  by (induction input arbitrary: td ls) (simp_all add: split_row_def vec_get_def)

text \<open>
  Splitting samples that all have the label column loses nothing: putting each label back into
  its column gives the samples.
\<close>

lemma split_data_labels_inverse:
  assumes "input \<noteq> []" "\<forall>row\<in>set input. unat label_col < length row"
  shows "\<exists>training_data labels. split_data_labels input label_col = Inr (training_data, labels)
    \<and> map2 (\<lambda>row label. take (unat label_col) row @ label # drop (unat label_col) row) training_data labels = input"
proof -
  let ?c = "unat label_col"
  have "\<not> length (hd input) < ?c" using assms by (cases input) auto
  then have "split_data_labels input label_col
      = Inr (map (\<lambda>row. take ?c row @ drop (?c + 1) row) input, map (\<lambda>row. row ! ?c) input)"
    using assms split_rows[OF assms(2), of "[]" "[]"] by (simp add: split_data_labels_def)
  moreover have "map2 (\<lambda>row label. take ?c row @ label # drop ?c row)
      (map (\<lambda>row. take ?c row @ drop (?c + 1) row) input) (map (\<lambda>row. row ! ?c) input) = input"
    using assms(2) by (intro nth_equalityI) (auto simp: id_take_nth_drop[symmetric])
  ultimately show ?thesis by blast
qed

lemma split_data_labels_inverse_example:
  "\<exists>training_data labels. split_data_labels [[7, 8, 9], [4, 5]] 1 = Inr (training_data, labels)
    \<and> map2 (\<lambda>row label. take (unat (1 :: u32)) row @ label # drop (unat (1 :: u32)) row) training_data labels = [[7, 8, 9], [4, 5]]"
  by (rule split_data_labels_inverse) simp_all

text \<open>The check of the label column lets one pass that no sample has.\<close>

lemma label_column_past_end: "split_data_labels [[7, 8]] 2 = Inl Undefined_behaviour"
  by (simp add: split_data_labels_def split_row_def vec_get_def)

text \<open>Since both are shuffled alike, every sample keeps its label.\<close>

lemma shuffle_keeps_pairs:
  assumes "mset (positions (length samples)) = mset [0..<length samples]" "length labels = length samples"
    and "shuffle_samples_labels positions samples labels = (samples', labels')"
  shows "mset (zip samples' labels') = mset (zip samples labels)"
proof -
  let ?p = "positions (length samples)"
  have lt: "i < length samples" if "i \<in> set ?p" for i using that assms(1) by (metis atLeastLessThan_iff set_mset_mset set_upt)
  have "zip samples' labels' = map (\<lambda>i. (samples ! i, labels ! i)) ?p"
    using assms(2,3) by (auto simp: shuffle_samples_labels_def random_shuffle_def zip_map1 zip_map2 zip_same_conv_map)
  also have "\<dots> = map (\<lambda>i. zip samples labels ! i) ?p" using lt assms(2) by simp
  finally have "mset (zip samples' labels') = image_mset (\<lambda>i. zip samples labels ! i) (mset [0..<length samples])"
    by (simp only: mset_map assms(1))
  also have "\<dots> = mset (map (\<lambda>i. zip samples labels ! i) [0..<length (zip samples labels)])" using assms(2) by simp
  also have "\<dots> = mset (zip samples labels)" by (simp only: map_nth)
  finally show ?thesis .
qed

end
