(* ===== verification/Rounds.thy ===== *)
theory Rounds
  imports Prelude
begin

text \<open>
  Threads that share a state: a schedule is the list of the threads whose turn it is, and the run
  folds their steps over it. What makes such a program end: a step of a thread that has not ended
  leaves less work.
\<close>

locale threads =
  fixes step :: "nat \<Rightarrow> 's \<Rightarrow> 's res"
    and inv :: "'s \<Rightarrow> bool"
    and work :: "'s \<Rightarrow> nat"
    and ended :: "nat \<Rightarrow> 's \<Rightarrow> bool"
    and n :: nat
  assumes step_inv: "inv s \<Longrightarrow> step i s = Inr s' \<Longrightarrow> inv s'"
    and step_total: "inv s \<Longrightarrow> \<exists>s'. step i s = Inr s'"
    and step_work: "inv s \<Longrightarrow> step i s = Inr s' \<Longrightarrow> work s' < work s \<or> (s' = s \<and> (i < n \<longrightarrow> ended i s))"
    and ended_stay: "inv s \<Longrightarrow> \<forall>i<n. ended i s \<Longrightarrow> step i s = Inr s"
begin

lemma run_total:
  assumes "inv s"
  shows "\<exists>s'. rfold step sched s = Inr s' \<and> inv s'
    \<and> (work s' < work s \<or> (s' = s \<and> (\<forall>i\<in>set sched. i < n \<longrightarrow> ended i s)))"
  using assms
proof (induction sched arbitrary: s)
  case (Cons i sched)
  obtain x where x: "step i s = Inr x" using step_total[OF Cons.prems] by blast
  have "inv x" by (rule step_inv[OF Cons.prems x])
  from Cons.IH[OF this] step_work[OF Cons.prems x] x show ?case by auto
qed simp

lemma ended_run: "inv s \<Longrightarrow> \<forall>i<n. ended i s \<Longrightarrow> rfold step sched s = Inr s"
  by (induction sched) (simp_all add: ended_stay)

lemma rounds_end:
  assumes "inv s" "work s < rounds"
  shows "\<exists>s'. rfold step (concat (replicate rounds [0..<n])) s = Inr s' \<and> inv s' \<and> (\<forall>i<n. ended i s')"
  using assms
proof (induction rounds arbitrary: s)
  case (Suc rounds)
  obtain x where x: "rfold step [0..<n] s = Inr x" "inv x"
    "work x < work s \<or> (x = s \<and> (\<forall>i\<in>set [0..<n]. i < n \<longrightarrow> ended i s))"
    using run_total[OF Suc.prems(1)] by blast
  show ?case
  proof (cases "work x < work s")
    case True
    then show ?thesis using Suc.IH[OF x(2)] Suc.prems(2) x(1) by (simp add: rfold_append)
  next
    case False
    then have "\<forall>i<n. ended i s" using x(3) by simp
    then show ?thesis using ended_run[OF Suc.prems(1)] Suc.prems(1) by blast
  qed
qed simp

text \<open>Whatever the threads have done, going on in turn ends them all.\<close>

lemma all_end:
  assumes "inv s" "work s < rounds"
  shows "\<exists>s'. rfold step (sched @ concat (replicate rounds [0..<n])) s = Inr s' \<and> inv s' \<and> (\<forall>i<n. ended i s')"
proof -
  obtain x where x: "rfold step sched s = Inr x" "inv x" "work x \<le> work s" using run_total[OF assms(1), of sched] by auto
  with assms(2) have "work x < rounds" by simp
  from rounds_end[OF x(2) this] x(1) show ?thesis by (simp add: rfold_append)
qed

end

end
