(* ===== verification/ReadThreads.thy ===== *)
theory ReadThreads
  imports LineParse Rounds
begin

text \<open>
  The readers of sparse datasets (\<open>InputReader.cpp\<close>): threads that take lines off one file under a
  lock, parse them, and append what they parsed to the shared result when they end. A step of a
  thread is what it does between two accesses to shared state, so a schedule (the list of the
  threads whose turn it is) covers every interleaving. An exception that leaves a thread ends the
  program: it is the result of the run.
\<close>

section \<open>Files\<close>

text \<open>
  \<open>std::getline(fin, line)\<close>: at the end of the file the stream only gets \<open>failbit\<close> (and the line
  is not touched once the stream is not good). A last line without its newline sets \<open>eofbit\<close>.
\<close>

definition get_line :: "string \<Rightarrow> istream \<Rightarrow> string \<times> istream" where
  "get_line line fin =
     (if is_eof fin \<or> is_fail fin then (line, fin\<lparr>is_fail := True\<rparr>)
      else let l = takeWhile (\<lambda>c. c \<noteq> CHR 0x0A) (is_buf fin)
           in case dropWhile (\<lambda>c. c \<noteq> CHR 0x0A) (is_buf fin) of
                [] \<Rightarrow> (l, \<lparr>is_buf = [], is_eof = True, is_fail = (l = [])\<rparr>)
              | _ # rest \<Rightarrow> (l, fin\<lparr>is_buf := rest\<rparr>))"

text \<open>The lines of a text that end with a newline.\<close>

fun ended_lines :: "string \<Rightarrow> string list" where
  "ended_lines [] = []"
| "ended_lines (c # s) =
     (if c = CHR 0x0A then [] # ended_lines s
      else case ended_lines s of [] \<Rightarrow> [] | l # ls \<Rightarrow> (c # l) # ls)"

lemma ended_lines_append:
  "CHR 0x0A \<notin> set l \<Longrightarrow> ended_lines (l @ CHR 0x0A # s) = l # ended_lines s"
  "CHR 0x0A \<notin> set l \<Longrightarrow> ended_lines l = []"
  by (induction l) (auto split: list.splits)

lemma ended_lines_concat:
  assumes "\<forall>l\<in>set ls. CHR 0x0A \<notin> set l"
  shows "ended_lines (concat (map (\<lambda>l. l @ [CHR 0x0A]) ls)) = ls"
  using assms by (induction ls) (simp_all add: ended_lines_append)

section \<open>Threads\<close>

datatype read_pc = At_read | At_eof_check | At_limit_check | At_parse | At_flush | Ended

record read_thread =
  rt_pc :: read_pc
  rt_line :: string
  rt_samples :: "sample list"
  rt_labels :: "f32 list"

record reader =
  rd_fin :: istream
  rd_lines_count :: u32
  rd_samples_res :: "sample list"
  rd_labels_res :: "f32 list"
  rd_threads :: "read_thread list"

definition reader_start :: "istream \<Rightarrow> nat \<Rightarrow> reader" where
  "reader_start fin nthreads =
     \<lparr>rd_fin = fin, rd_lines_count = 0, rd_samples_res = [], rd_labels_res = [],
      rd_threads = replicate nthreads \<lparr>rt_pc = At_read, rt_line = [], rt_samples = [], rt_labels = []\<rparr>\<rparr>"

definition set_thread :: "nat \<Rightarrow> read_thread \<Rightarrow> reader \<Rightarrow> reader" where
  "set_thread i t r = r\<lparr>rd_threads := (rd_threads r)[i := t]\<rparr>"

text \<open>\<open>labels.push_back(label)\<close> reads the label: a line that set none is undefined behaviour.\<close>

definition parse_and_push :: "(string \<Rightarrow> parsed res) \<Rightarrow> read_thread \<Rightarrow> read_thread res" where
  "parse_and_push parse t =
     rbind (parse (rt_line t)) (\<lambda>(features, label).
     rbind (or_ub label) (\<lambda>label.
     Inr (t\<lparr>rt_pc := At_read, rt_samples := rt_samples t @ [features], rt_labels := rt_labels t @ [label]\<rparr>)))"

definition read_input_criteo_sparse_thread ::
    "(string \<Rightarrow> parsed res) \<Rightarrow> u64 \<Rightarrow> nat \<Rightarrow> reader \<Rightarrow> reader res" where
  "read_input_criteo_sparse_thread parse limit_lines i r =
     (if i \<ge> length (rd_threads r) then Inr r else
      let t = rd_threads r ! i in
      case rt_pc t of
        At_read \<Rightarrow>
          (case get_line (rt_line t) (rd_fin r) of (line, fin) \<Rightarrow>
            Inr (set_thread i (t\<lparr>rt_pc := At_eof_check, rt_line := line\<rparr>) (r\<lparr>rd_fin := fin\<rparr>)))
      | At_eof_check \<Rightarrow>
          Inr (set_thread i (t\<lparr>rt_pc := if is_eof (rd_fin r) then At_flush else At_limit_check\<rparr>) r)
      | At_limit_check \<Rightarrow>
          Inr (set_thread i (t\<lparr>rt_pc :=
            if rd_lines_count r \<noteq> 0 \<and> ucast (rd_lines_count r) \<ge> limit_lines then At_flush else At_parse\<rparr>) r)
      | At_parse \<Rightarrow>
          rbind (parse_and_push parse t) (\<lambda>t. Inr (set_thread i t (r\<lparr>rd_lines_count := rd_lines_count r + 1\<rparr>)))
      | At_flush \<Rightarrow>
          Inr (set_thread i (t\<lparr>rt_pc := Ended\<rparr>)
            (r\<lparr>rd_labels_res := rd_labels_res r @ rt_labels t, rd_samples_res := rd_samples_res r @ rt_samples t\<rparr>))
      | Ended \<Rightarrow> Inr r)"

definition all_ended :: "reader \<Rightarrow> bool" where
  "all_ended r \<longleftrightarrow> (\<forall>t\<in>set (rd_threads r). rt_pc t = Ended)"

text \<open>The threads are started, and joined: the schedule has to reach their end.\<close>

definition read_threads ::
    "(string \<Rightarrow> parsed res) \<Rightarrow> u64 \<Rightarrow> nat \<Rightarrow> nat list \<Rightarrow> istream \<Rightarrow> (sample list \<times> f32 list) res" where
  "read_threads parse limit_lines nthreads sched fin =
     rbind (rfold (read_input_criteo_sparse_thread parse limit_lines) sched (reader_start fin nthreads)) (\<lambda>r.
     if all_ended r then Inr (rd_samples_res r, rd_labels_res r) else Inl Blocked)"

section \<open>The readers\<close>

definition RCV1_HASH_BITS :: u64 where "RCV1_HASH_BITS = 19"

text \<open>
  \<open>normalize(1 << bits)\<close>: the shift is one of \<open>int\<close>, and a \<open>std::vector\<close> of floats has less than
  \<open>2 ^ 61\<close> entries.
\<close>

definition normalize_bits :: "u64 \<Rightarrow> sparse_dataset \<Rightarrow> sparse_dataset res" where
  "normalize_bits bits ret =
     (if bits \<ge> 32 then Inl Undefined_behaviour
      else let hash_size = scast (push_bit (unat bits) 1 :: i32) :: u64
           in if unat hash_size \<ge> 2 ^ 61 then Inl (Length_error ''cannot create std::vector larger than max_size()'')
              else sd_normalize hash_size ret)"

definition open_input :: "string option \<Rightarrow> istream res" where
  "open_input file = (case file of None \<Rightarrow> Inl (Runtime_error ''Error opening input file'') | Some s \<Rightarrow> Inr (istream_of s))"

definition read_input_criteo_sparse ::
    "string option \<Rightarrow> string \<Rightarrow> configuration \<Rightarrow> nat list \<Rightarrow> sparse_dataset res" where
  "read_input_criteo_sparse file delimiter config sched =
     rbind (open_input file) (\<lambda>fin.
     rbind (read_threads (\<lambda>line. parse_criteo_sparse_line line delimiter config)
              (cf_limit_samples config) 8 sched fin) (\<lambda>(samples, labels).
     let ret = sd_make samples labels
     in if cf_normalize config then normalize_bits (cf_model_bits config) ret else Inr ret))"

definition read_input_rcv1_sparse ::
    "string option \<Rightarrow> string \<Rightarrow> u64 \<Rightarrow> bool \<Rightarrow> nat list \<Rightarrow> sparse_dataset res" where
  "read_input_rcv1_sparse file delimiter limit_lines to_normalize sched =
     rbind (open_input file) (\<lambda>fin.
     rbind (read_threads (\<lambda>line. parse_rcv1_vw_sparse_line line delimiter) limit_lines 1 sched fin) (\<lambda>(samples, labels).
     let ret = sd_make samples labels
     in if to_normalize then normalize_bits RCV1_HASH_BITS ret else Inr ret))"

text \<open>The first line of a Kaggle file is its header.\<close>

definition read_input_criteo_kaggle_sparse ::
    "string option \<Rightarrow> string \<Rightarrow> configuration \<Rightarrow> nat list \<Rightarrow> sparse_dataset res" where
  "read_input_criteo_kaggle_sparse file delimiter config sched =
     rbind (cassert (delimiter = '','')) (\<lambda>_.
     rbind (open_input file) (\<lambda>fin.
     rbind (read_threads (\<lambda>line. parse_criteo_kaggle_sparse_line line delimiter config)
              (cf_limit_samples config) 8 sched (snd (get_line [] fin))) (\<lambda>(samples, labels).
     let ret = sd_make samples labels
     in if cf_normalize config then normalize_bits (cf_model_bits config) ret else Inr ret)))"

section \<open>The shared state of the threads\<close>

text \<open>
  What the threads have parsed so far, and the lines they hold that are still to be parsed: a line
  read before the stream was at its end, and not dropped since.
\<close>

definition thread_done :: "read_thread \<Rightarrow> (sample \<times> f32) multiset" where
  "thread_done t = (if rt_pc t = Ended then {#} else mset (zip (rt_samples t) (rt_labels t)))"

definition parsed_so_far :: "reader \<Rightarrow> (sample \<times> f32) multiset" where
  "parsed_so_far r = mset (zip (rd_samples_res r) (rd_labels_res r)) + sum_list (map thread_done (rd_threads r))"

definition thread_held :: "bool \<Rightarrow> read_thread \<Rightarrow> string multiset" where
  "thread_held eof t = (if rt_pc t = At_limit_check \<or> rt_pc t = At_parse \<or> (rt_pc t = At_eof_check \<and> \<not> eof)
     then {#rt_line t#} else {#})"

definition lines_held :: "reader \<Rightarrow> string multiset" where
  "lines_held r = sum_list (map (thread_held (is_eof (rd_fin r))) (rd_threads r))"

definition busy :: "reader \<Rightarrow> nat" where
  "busy r = sum_list (map (\<lambda>t. of_bool (rt_pc t \<noteq> At_read)) (rd_threads r))"

definition working :: "reader \<Rightarrow> nat" where
  "working r = sum_list (map (\<lambda>t. of_bool (rt_pc t = At_parse)) (rd_threads r))"

text \<open>The lines that are still in the file.\<close>

definition lines_left :: "istream \<Rightarrow> string list" where
  "lines_left fin = (if is_eof fin \<or> is_fail fin then [] else ended_lines (is_buf fin))"

definition parsed_value :: "(string \<Rightarrow> parsed res) \<Rightarrow> string \<Rightarrow> sample \<times> f32" where
  "parsed_value parse l = (case parse l of Inr (s, Some y) \<Rightarrow> (s, y) | _ \<Rightarrow> ([], 0))"

definition parsable :: "(string \<Rightarrow> parsed res) \<Rightarrow> string \<Rightarrow> bool" where
  "parsable parse l \<longleftrightarrow> (\<exists>s y. parse l = Inr (s, Some y))"

definition lines_accounted :: "(string \<Rightarrow> parsed res) \<Rightarrow> string list \<Rightarrow> reader \<Rightarrow> bool" where
  "lines_accounted parse ls r \<longleftrightarrow> (\<exists>K. parsed_so_far r = image_mset (parsed_value parse) K
     \<and> K + lines_held r + mset (lines_left (rd_fin r)) \<subseteq># mset ls)"

definition may_stop :: "u64 \<Rightarrow> reader \<Rightarrow> bool" where
  "may_stop limit r \<longleftrightarrow> is_eof (rd_fin r) \<or> (rd_lines_count r \<noteq> 0 \<and> ucast (rd_lines_count r) \<ge> limit)"

definition thread_ok :: "bool \<Rightarrow> read_thread \<Rightarrow> bool" where
  "thread_ok stop t \<longleftrightarrow> length (rt_samples t) = length (rt_labels t)
     \<and> (rt_pc t = At_flush \<or> rt_pc t = Ended \<longrightarrow> stop)"

definition reader_inv :: "(string \<Rightarrow> parsed res) \<Rightarrow> u64 \<Rightarrow> string list \<Rightarrow> nat \<Rightarrow> reader \<Rightarrow> bool" where
  "reader_inv parse limit ls n r \<longleftrightarrow>
     lines_accounted parse ls r
   \<and> list_all (thread_ok (may_stop limit r)) (rd_threads r)
   \<and> length (rd_samples_res r) = length (rd_labels_res r)
   \<and> length (rd_threads r) = n
   \<and> rd_lines_count r = word_of_nat (size (parsed_so_far r))
   \<and> (ls \<noteq> [] \<longrightarrow> length ls + of_bool (is_eof (rd_fin r)) \<le> size (parsed_so_far r) + length (lines_left (rd_fin r)) + busy r)
   \<and> (is_fail (rd_fin r) \<longrightarrow> is_eof (rd_fin r))
   \<and> size (parsed_so_far r) + working r \<le> max (unat limit) 1 - 1 + n"

lemma accounted_mono:
  assumes "lines_accounted parse ls r" "parsed_so_far r' = parsed_so_far r"
    and "lines_held r' + mset (lines_left (rd_fin r')) \<subseteq># lines_held r + mset (lines_left (rd_fin r))"
  shows "lines_accounted parse ls r'"
proof -
  obtain K where K: "parsed_so_far r = image_mset (parsed_value parse) K"
    "K + lines_held r + mset (lines_left (rd_fin r)) \<subseteq># mset ls" using assms(1) unfolding lines_accounted_def by blast
  have "K + (lines_held r' + mset (lines_left (rd_fin r'))) \<subseteq># K + (lines_held r + mset (lines_left (rd_fin r)))"
    using assms(3) by simp
  with K(2) have "K + lines_held r' + mset (lines_left (rd_fin r')) \<subseteq># mset ls"
    using subset_mset.order_trans by (simp only: add.assoc)
  with K(1) show ?thesis using assms(2) unfolding lines_accounted_def by auto
qed

lemma threads_ok_upd:
  assumes "list_all (thread_ok stop) ts" "thread_ok stop' t" "stop \<Longrightarrow> stop'"
  shows "list_all (thread_ok stop') (ts[i := t])"
  using assms set_update_subset_insert[of ts i t] unfolding list_all_iff thread_ok_def by fastforce

lemma set_thread_sums:
  assumes "i < length (rd_threads r)"
  shows "parsed_so_far (set_thread i t r) + thread_done (rd_threads r ! i) = parsed_so_far r + thread_done t"
    "lines_held (set_thread i t r) + thread_held (is_eof (rd_fin r)) (rd_threads r ! i) = lines_held r + thread_held (is_eof (rd_fin r)) t"
    "busy (set_thread i t r) + of_bool (rt_pc (rd_threads r ! i) \<noteq> At_read) = busy r + of_bool (rt_pc t \<noteq> At_read)"
    "working (set_thread i t r) + of_bool (rt_pc (rd_threads r ! i) = At_parse) = working r + of_bool (rt_pc t = At_parse)"
  using sum_list_upd[OF assms, of thread_done t] sum_list_upd[OF assms, of "thread_held (is_eof (rd_fin r))" t]
    sum_list_upd[OF assms, of "\<lambda>t. of_bool (rt_pc t \<noteq> At_read) :: nat" t]
    sum_list_upd[OF assms, of "\<lambda>t. of_bool (rt_pc t = At_parse) :: nat" t]
  by (simp_all add: parsed_so_far_def lines_held_def busy_def working_def set_thread_def add.assoc)

lemma set_thread_fields [simp]:
  "rd_fin (set_thread i t r) = rd_fin r" "rd_lines_count (set_thread i t r) = rd_lines_count r"
  "rd_samples_res (set_thread i t r) = rd_samples_res r" "rd_labels_res (set_thread i t r) = rd_labels_res r"
  "rd_threads (set_thread i t r) = (rd_threads r)[i := t]"
  by (simp_all add: set_thread_def)

lemma working_le: "working r \<le> length (rd_threads r)"
proof -
  have "sum_list (map (\<lambda>t. of_bool (rt_pc t = At_parse)) ts) \<le> length ts" for ts :: "read_thread list"
    by (induction ts) auto
  then show ?thesis by (simp add: working_def)
qed

lemma busy_le: "busy r \<le> length (rd_threads r)"
proof -
  have "sum_list (map (\<lambda>t. of_bool (rt_pc t \<noteq> At_read)) ts) \<le> length ts" for ts :: "read_thread list"
    by (induction ts) auto
  then show ?thesis by (simp add: busy_def)
qed

lemma held_eof_mono: "(eof \<Longrightarrow> eof') \<Longrightarrow> sum_list (map (thread_held eof') ts) \<subseteq># sum_list (map (thread_held eof) ts)"
proof (induction ts)
  case (Cons t ts)
  then have "thread_held eof' t \<subseteq># thread_held eof t" by (auto simp: thread_held_def)
  with Cons show ?case by (simp add: subset_mset.add_mono)
qed simp

text \<open>What \<open>getline\<close> does to the lines that are left.\<close>

lemma get_line_left:
  assumes "get_line old fin = (line, fin')" "is_fail fin \<longrightarrow> is_eof fin"
  shows "is_fail fin' \<longrightarrow> is_eof fin'" "is_eof fin \<Longrightarrow> is_eof fin'"
    "is_eof fin' \<Longrightarrow> lines_left fin = [] \<and> lines_left fin' = []"
    "\<not> is_eof fin' \<Longrightarrow> lines_left fin = line # lines_left fin'"
proof -
  define l where "l = takeWhile (\<lambda>c. c \<noteq> CHR 0x0A) (is_buf fin)"
  define d where "d = dropWhile (\<lambda>c. c \<noteq> CHR 0x0A) (is_buf fin)"
  have b: "is_buf fin = l @ d" by (simp add: l_def d_def)
  have l: "CHR 0x0A \<notin> set l" by (auto simp: l_def dest: set_takeWhileD)
  have g: "get_line old fin = (if is_eof fin \<or> is_fail fin then (old, fin\<lparr>is_fail := True\<rparr>)
      else case d of [] \<Rightarrow> (l, \<lparr>is_buf = [], is_eof = True, is_fail = (l = [])\<rparr>) | _ # rest \<Rightarrow> (l, fin\<lparr>is_buf := rest\<rparr>))"
    unfolding get_line_def l_def d_def Let_def by (rule refl)
  have "(is_fail fin' \<longrightarrow> is_eof fin') \<and> (is_eof fin \<longrightarrow> is_eof fin')
    \<and> (is_eof fin' \<longrightarrow> lines_left fin = [] \<and> lines_left fin' = [])
    \<and> (\<not> is_eof fin' \<longrightarrow> lines_left fin = line # lines_left fin')"
  proof (cases "is_eof fin \<or> is_fail fin")
    case True
    then have "fin' = fin\<lparr>is_fail := True\<rparr>" using assms(1) g by simp
    then show ?thesis using True assms(2) by (auto simp: lines_left_def)
  next
    case good: False
    show ?thesis
    proof (cases d)
      case Nil
      then have "fin' = \<lparr>is_buf = [], is_eof = True, is_fail = (l = [])\<rparr>" using assms(1) g good by auto
      then show ?thesis using good Nil b ended_lines_append(2)[OF l] by (simp add: lines_left_def)
    next
      case (Cons c rest)
      then have "c = CHR 0x0A" using d_def dropWhile_eq_Cons_conv[of "\<lambda>c. c \<noteq> CHR 0x0A" "is_buf fin" c rest] by simp
      then show ?thesis using good Cons b ended_lines_append(1)[OF l, of rest] assms(1) g by (auto simp: lines_left_def)
    qed
  qed
  then show "is_fail fin' \<longrightarrow> is_eof fin'" "is_eof fin \<Longrightarrow> is_eof fin'"
    "is_eof fin' \<Longrightarrow> lines_left fin = [] \<and> lines_left fin' = []"
    "\<not> is_eof fin' \<Longrightarrow> lines_left fin = line # lines_left fin'" by blast+
qed


text \<open>A step that leaves the file, the samples and the counter alone.\<close>

lemma inv_move:
  assumes inv: "reader_inv parse limit ls n r" and i: "i < length (rd_threads r)"
    and pcs: "rt_pc (rd_threads r ! i) \<in> {At_eof_check, At_limit_check}" "pc \<in> {At_limit_check, At_parse, At_flush}"
    and eof: "pc = At_limit_check \<Longrightarrow> \<not> is_eof (rd_fin r)" "pc = At_parse \<Longrightarrow> rt_pc (rd_threads r ! i) = At_limit_check"
    and stop: "pc = At_flush \<Longrightarrow> may_stop limit r"
    and go: "pc = At_parse \<Longrightarrow> size (parsed_so_far r) \<le> max (unat limit) 1 - 1"
  shows "reader_inv parse limit ls n (set_thread i ((rd_threads r ! i)\<lparr>rt_pc := pc\<rparr>) r)"
proof -
  define t where "t = (rd_threads r ! i)\<lparr>rt_pc := pc\<rparr>"
  define r' where "r' = set_thread i t r"
  have simps [simp]: "rd_fin r' = rd_fin r" "rd_lines_count r' = rd_lines_count r" "rd_samples_res r' = rd_samples_res r"
    "rd_labels_res r' = rd_labels_res r" "rd_threads r' = (rd_threads r)[i := t]" by (simp_all add: r'_def)
  note sums = set_thread_sums[OF i, of t, folded r'_def]
  have d: "parsed_so_far r' = parsed_so_far r" using sums(1) pcs by (auto simp: t_def thread_done_def)
  have "thread_held (is_eof (rd_fin r)) t \<subseteq># thread_held (is_eof (rd_fin r)) (rd_threads r ! i)"
    using pcs eof by (auto simp: t_def thread_held_def)
  then obtain X where "thread_held (is_eof (rd_fin r)) (rd_threads r ! i) = thread_held (is_eof (rd_fin r)) t + X"
    by (auto simp: mset_subset_eq_exists_conv)
  then have "lines_held r' + X = lines_held r" using sums(2) by (simp add: ac_simps)
  then have h: "lines_held r' \<subseteq># lines_held r" by (metis mset_subset_eq_add_left)
  have b: "busy r' = busy r" using sums(3) pcs by (auto simp: t_def)
  have w: "working r' \<le> n" using working_le[of r'] inv by (simp add: reader_inv_def)
  have w': "pc \<noteq> At_parse \<Longrightarrow> working r' = working r" using sums(4) pcs by (auto simp: t_def)
  have "lines_accounted parse ls r'"
    using inv h by (intro accounted_mono[of parse ls r r']) (simp_all add: reader_inv_def d)
  moreover have "thread_ok (may_stop limit r) (rd_threads r ! i)"
    using inv i by (simp add: reader_inv_def list_all_length)
  then have "list_all (thread_ok (may_stop limit r)) ((rd_threads r)[i := t])"
    using inv stop pcs by (intro threads_ok_upd) (auto simp: reader_inv_def thread_ok_def t_def)
  then have "list_all (thread_ok (may_stop limit r')) (rd_threads r')" by (simp add: may_stop_def)
  moreover have "size (parsed_so_far r) + working r' \<le> max (unat limit) 1 - 1 + n"
  proof (cases "pc = At_parse")
    case True
    show ?thesis using add_mono[OF go[OF True] w] .
  next
    case False
    then show ?thesis using inv w' by (simp add: reader_inv_def)
  qed
  ultimately have "reader_inv parse limit ls n r'" using inv by (simp add: reader_inv_def d b)
  then show ?thesis by (simp only: r'_def t_def)
qed

lemma inv_read:
  assumes inv: "reader_inv parse limit ls n r" and i: "i < length (rd_threads r)"
    and pc: "rt_pc (rd_threads r ! i) = At_read" and g: "get_line (rt_line (rd_threads r ! i)) (rd_fin r) = (line, fin)"
  shows "reader_inv parse limit ls n (set_thread i ((rd_threads r ! i)\<lparr>rt_pc := At_eof_check, rt_line := line\<rparr>) (r\<lparr>rd_fin := fin\<rparr>))"
proof -
  define t where "t = (rd_threads r ! i)\<lparr>rt_pc := At_eof_check, rt_line := line\<rparr>"
  define r1 where "r1 = r\<lparr>rd_fin := fin\<rparr>"
  define r' where "r' = set_thread i t r1"
  have simps [simp]: "rd_fin r' = fin" "rd_lines_count r' = rd_lines_count r" "rd_samples_res r' = rd_samples_res r"
    "rd_labels_res r' = rd_labels_res r" "rd_threads r' = (rd_threads r)[i := t]" by (simp_all add: r'_def r1_def)
  have i1: "i < length (rd_threads r1)" using i by (simp add: r1_def)
  note sums = set_thread_sums[OF i1, of t, folded r'_def]
  have fail: "is_fail (rd_fin r) \<longrightarrow> is_eof (rd_fin r)" using inv by (simp add: reader_inv_def)
  note left = get_line_left[OF g fail]
  have d: "parsed_so_far r' = parsed_so_far r"
    using sums(1) pc by (simp add: t_def thread_done_def r1_def parsed_so_far_def)
  have h: "lines_held r' = lines_held r1 + (if is_eof fin then {#} else {#line#})"
    using sums(2) pc by (simp add: t_def thread_held_def r1_def)
  have h1: "lines_held r1 \<subseteq># lines_held r"
    using held_eof_mono[of "is_eof (rd_fin r)" "is_eof fin" "rd_threads r"] left(2) by (simp add: lines_held_def r1_def)
  have b: "busy r' = busy r + 1" using sums(3) pc by (simp add: t_def r1_def busy_def)
  have w: "working r' = working r" using sums(4) pc by (simp add: t_def r1_def working_def)
  have l: "lines_held r' + mset (lines_left fin) \<subseteq># lines_held r + mset (lines_left (rd_fin r))"
    using h h1 left(3,4) by (cases "is_eof fin") simp_all
  have "lines_accounted parse ls r'"
    using inv l d by (intro accounted_mono[of parse ls r r']) (simp_all add: reader_inv_def)
  moreover have "ls \<noteq> [] \<longrightarrow> length ls + of_bool (is_eof fin) \<le> size (parsed_so_far r) + length (lines_left fin) + (busy r + 1)"
    using inv left(3,4) by (cases "is_eof fin") (auto simp: reader_inv_def)
  moreover have "thread_ok (may_stop limit r) (rd_threads r ! i)"
    using inv i by (simp add: reader_inv_def list_all_length)
  then have "list_all (thread_ok (may_stop limit r')) ((rd_threads r)[i := t])"
    using inv left(2) by (intro threads_ok_upd[of "may_stop limit r"]) (auto simp: reader_inv_def thread_ok_def t_def may_stop_def)
  ultimately have "reader_inv parse limit ls n r'"
    using inv left(1) by (simp add: reader_inv_def d b w)
  then show ?thesis by (simp only: r'_def t_def r1_def)
qed

lemma accounted_size:
  assumes "lines_accounted parse ls r"
  shows "size (parsed_so_far r) + size (lines_held r) \<le> length ls"
proof -
  obtain K where "parsed_so_far r = image_mset (parsed_value parse) K"
    "K + lines_held r + mset (lines_left (rd_fin r)) \<subseteq># mset ls" using assms unfolding lines_accounted_def by blast
  with size_mset_mono[OF this(2)] show ?thesis by simp
qed

lemma count_value:
  assumes "reader_inv parse limit ls n r" "length ls < 2 ^ 32"
  shows "unat (rd_lines_count r) = size (parsed_so_far r)" "unat (ucast (rd_lines_count r) :: u64) = size (parsed_so_far r)"
    "unat (rd_lines_count r) \<le> length ls"
proof -
  have "size (parsed_so_far r) \<le> length ls" using accounted_size[of parse ls r] assms(1) by (simp add: reader_inv_def)
  moreover have "rd_lines_count r = word_of_nat (size (parsed_so_far r))" using assms(1) by (simp add: reader_inv_def)
  ultimately show "unat (rd_lines_count r) = size (parsed_so_far r)" using assms(2)
    by (simp only: unat_of_nat) (simp add: take_bit_nat_eq_self)
  then show "unat (ucast (rd_lines_count r) :: u64) = size (parsed_so_far r)" "unat (rd_lines_count r) \<le> length ls"
    using \<open>size (parsed_so_far r) \<le> length ls\<close> unat_u32[of "rd_lines_count r"]
    by (simp_all add: unsigned_ucast_eq take_bit_nat_eq_self)
qed

lemma member_le_sum_list: "x \<in> set xs \<Longrightarrow> f x \<subseteq># sum_list (map f xs)"
proof (induction xs)
  case (Cons y ys)
  then show ?case using subset_mset.order_trans[of "f x" "sum_list (map f ys)" "f y + sum_list (map f ys)"] by auto
qed simp

lemma held_line:
  assumes "lines_accounted parse ls r" "i < length (rd_threads r)" "rt_pc (rd_threads r ! i) = At_parse"
  shows "rt_line (rd_threads r ! i) \<in> set ls" "{#rt_line (rd_threads r ! i)#} \<subseteq># lines_held r"
proof -
  have "thread_held (is_eof (rd_fin r)) (rd_threads r ! i) \<subseteq># lines_held r"
    unfolding lines_held_def using assms(2) by (intro member_le_sum_list) simp
  then show h: "{#rt_line (rd_threads r ! i)#} \<subseteq># lines_held r" using assms(3) by (simp add: thread_held_def)
  obtain K where "K + lines_held r + mset (lines_left (rd_fin r)) \<subseteq># mset ls" using assms(1) unfolding lines_accounted_def by blast
  then have "lines_held r \<subseteq># mset ls" by (metis add.commute mset_subset_eq_add_left subset_mset.order_trans union_assoc)
  then show "rt_line (rd_threads r ! i) \<in> set ls" using h mset_subset_eqD[of "lines_held r" "mset ls"] by simp
qed

lemma inv_parse:
  assumes inv: "reader_inv parse limit ls n r" and i: "i < length (rd_threads r)" and len: "length ls < 2 ^ 32"
    and pc: "rt_pc (rd_threads r ! i) = At_parse" and p: "parse_and_push parse (rd_threads r ! i) = Inr t"
  shows "reader_inv parse limit ls n (set_thread i t (r\<lparr>rd_lines_count := rd_lines_count r + 1\<rparr>))"
proof -
  define t0 where "t0 = rd_threads r ! i"
  define r1 where "r1 = r\<lparr>rd_lines_count := rd_lines_count r + 1\<rparr>"
  define r' where "r' = set_thread i t r1"
  obtain s y where y: "parse (rt_line t0) = Inr (s, Some y)"
    and t: "t = t0\<lparr>rt_pc := At_read, rt_samples := rt_samples t0 @ [s], rt_labels := rt_labels t0 @ [y]\<rparr>"
    using p by (auto simp: parse_and_push_def t0_def)
  have simps [simp]: "rd_fin r' = rd_fin r" "rd_lines_count r' = rd_lines_count r + 1" "rd_samples_res r' = rd_samples_res r"
    "rd_labels_res r' = rd_labels_res r" "rd_threads r' = (rd_threads r)[i := t]" by (simp_all add: r'_def r1_def)
  have i1: "i < length (rd_threads r1)" using i by (simp add: r1_def)
  note sums = set_thread_sums[OF i1, of t, folded r'_def]
  have acc: "lines_accounted parse ls r" using inv by (simp add: reader_inv_def)
  have t0: "thread_ok (may_stop limit r) t0" using inv i by (simp add: reader_inv_def list_all_length t0_def)
  have r1: "parsed_so_far r1 = parsed_so_far r" "lines_held r1 = lines_held r" "busy r1 = busy r" "working r1 = working r" "rd_threads r1 ! i = t0" "rd_fin r1 = rd_fin r"
    by (simp_all add: r1_def parsed_so_far_def lines_held_def busy_def working_def t0_def)
  have pc0: "rt_pc t0 = At_parse" using pc by (simp add: t0_def)
  have d: "parsed_so_far r' = add_mset (s, y) (parsed_so_far r)"
    using sums(1) t0 pc0 by (simp add: t thread_done_def r1 thread_ok_def)
  have h: "add_mset (rt_line t0) (lines_held r') = lines_held r"
    using sums(2) pc0 by (simp add: t thread_held_def r1)
  have b: "busy r' + 1 = busy r" "working r' + 1 = working r" using sums(3,4) pc0 by (simp_all add: t r1)
  have "lines_accounted parse ls r'"
  proof -
    obtain K where K: "parsed_so_far r = image_mset (parsed_value parse) K"
      "K + lines_held r + mset (lines_left (rd_fin r)) \<subseteq># mset ls" using acc unfolding lines_accounted_def by blast
    have "parsed_so_far r' = image_mset (parsed_value parse) (add_mset (rt_line t0) K)"
      using K(1) y by (simp add: d parsed_value_def)
    moreover have "add_mset (rt_line t0) K + lines_held r' + mset (lines_left (rd_fin r')) \<subseteq># mset ls"
      using K(2) h by simp (metis union_mset_add_mset_left union_mset_add_mset_right)
    ultimately show ?thesis unfolding lines_accounted_def by blast
  qed
  note acc' = this
  have cnt: "unat (rd_lines_count r) = size (parsed_so_far r)" using count_value[OF inv len] by simp
  have lt: "size (parsed_so_far r) + 1 \<le> length ls" using accounted_size[OF acc'] by (simp add: d)
  then have un: "unat (rd_lines_count r + 1) = size (parsed_so_far r) + 1"
    using cnt len by (subst unat_add_lem[THEN iffD1]) simp_all
  have "may_stop limit r'" if "may_stop limit r"
  proof -
    have u: "unat (ucast (rd_lines_count r + 1) :: u64) = size (parsed_so_far r) + 1"
      "unat (ucast (rd_lines_count r) :: u64) = size (parsed_so_far r)"
      using un cnt unat_u32[of "rd_lines_count r + 1"] unat_u32[of "rd_lines_count r"] by (simp_all add: unsigned_ucast_eq take_bit_nat_eq_self)
    have "rd_lines_count r + 1 \<noteq> 0" using un by (metis Suc_eq_plus1 nat.simps(3) unat_0)
    moreover have "limit \<le> ucast (rd_lines_count r) \<Longrightarrow> limit \<le> ucast (rd_lines_count r + 1)"
      using u by (simp add: word_le_nat_alt)
    ultimately show ?thesis using that by (auto simp: may_stop_def)
  qed
  then have "list_all (thread_ok (may_stop limit r')) ((rd_threads r)[i := t])"
    using inv t0 by (intro threads_ok_upd[of "may_stop limit r"]) (auto simp: reader_inv_def thread_ok_def t)
  then have "reader_inv parse limit ls n r'" using inv acc' b by (auto simp: reader_inv_def d)
  then show ?thesis by (simp only: r'_def r1_def)
qed

lemma inv_flush:
  assumes inv: "reader_inv parse limit ls n r" and i: "i < length (rd_threads r)" and pc: "rt_pc (rd_threads r ! i) = At_flush"
    and t0: "t0 = rd_threads r ! i"
  shows "reader_inv parse limit ls n (set_thread i (t0\<lparr>rt_pc := Ended\<rparr>)
    (r\<lparr>rd_labels_res := rd_labels_res r @ rt_labels t0, rd_samples_res := rd_samples_res r @ rt_samples t0\<rparr>))"
proof -
  define t where "t = t0\<lparr>rt_pc := Ended\<rparr>"
  define r1 where "r1 = r\<lparr>rd_labels_res := rd_labels_res r @ rt_labels t0, rd_samples_res := rd_samples_res r @ rt_samples t0\<rparr>"
  define r' where "r' = set_thread i t r1"
  have simps [simp]: "rd_fin r' = rd_fin r" "rd_lines_count r' = rd_lines_count r" "rd_samples_res r' = rd_samples_res r @ rt_samples t0"
    "rd_labels_res r' = rd_labels_res r @ rt_labels t0" "rd_threads r' = (rd_threads r)[i := t]" by (simp_all add: r'_def r1_def)
  have i1: "i < length (rd_threads r1)" using i by (simp add: r1_def)
  note sums = set_thread_sums[OF i1, of t, folded r'_def]
  have ok: "thread_ok (may_stop limit r) t0" using inv i by (simp add: reader_inv_def list_all_length t0)
  have pc0: "rt_pc t0 = At_flush" using pc by (simp add: t0)
  have r1: "lines_held r1 = lines_held r" "busy r1 = busy r" "working r1 = working r" "rd_threads r1 ! i = t0" "rd_fin r1 = rd_fin r"
    "parsed_so_far r1 = parsed_so_far r + mset (zip (rt_samples t0) (rt_labels t0))"
    using inv by (simp_all add: r1_def parsed_so_far_def lines_held_def busy_def working_def t0 reader_inv_def)
  have d: "parsed_so_far r' = parsed_so_far r" using sums(1) pc0 by (simp add: t_def thread_done_def r1)
  have h: "lines_held r' = lines_held r" using sums(2) pc0 by (simp add: t_def thread_held_def r1)
  have b: "busy r' = busy r" "working r' = working r" using sums(3,4) pc0 by (simp_all add: t_def r1)
  have "lines_accounted parse ls r'"
    using inv h d by (intro accounted_mono[of parse ls r r']) (simp_all add: reader_inv_def)
  moreover have "list_all (thread_ok (may_stop limit r')) ((rd_threads r)[i := t])"
    using inv ok pc0 by (intro threads_ok_upd[of "may_stop limit r"]) (auto simp: reader_inv_def thread_ok_def t_def may_stop_def)
  ultimately have "reader_inv parse limit ls n r'" using inv ok by (auto simp: reader_inv_def d b thread_ok_def)
  then show ?thesis by (simp only: r'_def t_def r1_def)
qed

lemma inv_step:
  assumes inv: "reader_inv parse limit ls n r" and len: "length ls < 2 ^ 32"
    and step: "read_input_criteo_sparse_thread parse limit i r = Inr r'"
  shows "reader_inv parse limit ls n r'"
proof (cases "i < length (rd_threads r)")
  case i: True
  note go = step[unfolded read_input_criteo_sparse_thread_def Let_def] i
  show ?thesis
  proof (cases "rt_pc (rd_threads r ! i)")
    case At_read
    obtain line fin where g: "get_line (rt_line (rd_threads r ! i)) (rd_fin r) = (line, fin)" by fastforce
    with go At_read show ?thesis using inv_read[OF inv i At_read g] by simp
  next
    case At_eof_check
    with go show ?thesis using inv_move[OF inv i, of "if is_eof (rd_fin r) then At_flush else At_limit_check"]
      by (auto simp: may_stop_def)
  next
    case At_limit_check
    have "size (parsed_so_far r) \<le> max (unat limit) 1 - 1" if "\<not> (rd_lines_count r \<noteq> 0 \<and> ucast (rd_lines_count r) \<ge> limit)"
      using that count_value[OF inv len] by (cases "rd_lines_count r = 0") (auto simp: word_le_nat_alt)
    with go At_limit_check show ?thesis
      using inv_move[OF inv i, of "if rd_lines_count r \<noteq> 0 \<and> ucast (rd_lines_count r) \<ge> limit then At_flush else At_parse"]
      by (auto simp: may_stop_def)
  next
    case At_parse
    with go obtain t where "parse_and_push parse (rd_threads r ! i) = Inr t"
      "r' = set_thread i t (r\<lparr>rd_lines_count := rd_lines_count r + 1\<rparr>)" by auto
    then show ?thesis using inv_parse[OF inv i len At_parse] by simp
  next
    case At_flush
    with go show ?thesis using inv_flush[OF inv i At_flush refl] by simp
  next
    case Ended
    with go inv show ?thesis by simp
  qed
next
  case False
  with step inv show ?thesis by (simp add: read_input_criteo_sparse_thread_def)
qed

lemma inv_run:
  assumes "reader_inv parse limit ls n r" "length ls < 2 ^ 32"
    and "rfold (read_input_criteo_sparse_thread parse limit) sched r = Inr r'"
  shows "reader_inv parse limit ls n r'"
  using assms(1,3)
proof (induction sched arbitrary: r)
  case (Cons i sched)
  from Cons.prems(2) obtain x where x: "read_input_criteo_sparse_thread parse limit i r = Inr x"
    "rfold (read_input_criteo_sparse_thread parse limit) sched x = Inr r'" by auto
  show ?case by (rule Cons.IH[OF inv_step[OF Cons.prems(1) assms(2) x(1)] x(2)])
qed simp

lemma rd_inv_start:
  assumes "is_fail fin \<longrightarrow> is_eof fin"
  shows "reader_inv parse limit (lines_left fin) n (reader_start fin n)"
proof -
  have e: "sum_list (replicate n {#}) = {#}" by (induction n) simp_all
  have z: "parsed_so_far (reader_start fin n) = {#}" "lines_held (reader_start fin n) = {#}"
    "busy (reader_start fin n) = 0" "working (reader_start fin n) = 0"
    by (simp_all add: parsed_so_far_def lines_held_def busy_def working_def reader_start_def thread_done_def thread_held_def
e)
  have "lines_accounted parse (lines_left fin) (reader_start fin n)"
    unfolding lines_accounted_def by (intro exI[of _ "{#}"]) (simp add: z, simp add: reader_start_def)
  moreover have "is_eof fin \<Longrightarrow> lines_left fin = []" by (simp add: lines_left_def)
  ultimately show ?thesis using assms
    by (cases "is_eof fin") (simp_all add: reader_inv_def z, simp_all add: reader_start_def thread_ok_def list_all_iff)
qed

lemma threads_samples:
  assumes "read_threads parse limit nthreads sched fin = Inr (samples, labels)"
    and "is_fail fin \<longrightarrow> is_eof fin" "length (lines_left fin) < 2 ^ 32"
  shows "length samples = length labels
    \<and> mset (zip samples labels) \<subseteq># mset (map (parsed_value parse) (lines_left fin))
    \<and> length samples \<le> max (unat limit) 1 - 1 + nthreads
    \<and> (length (lines_left fin) < unat limit \<and> nthreads > 0 \<longrightarrow> length (lines_left fin) \<le> length samples + (nthreads - 1))"
proof -
  define ls where "ls = lines_left fin"
  obtain r where run: "rfold (read_input_criteo_sparse_thread parse limit) sched (reader_start fin nthreads) = Inr r"
    and r: "all_ended r" "samples = rd_samples_res r" "labels = rd_labels_res r"
    using assms(1) by (auto simp: read_threads_def split: if_splits)
  have len: "length ls < 2 ^ 32" using assms(3) by (simp add: ls_def)
  have inv: "reader_inv parse limit ls nthreads r"
    using inv_run[OF rd_inv_start[OF assms(2)] assms(3) run] by (simp add: ls_def)
  have d: "parsed_so_far r = mset (zip samples labels)"
  proof -
    have "list_all (\<lambda>t. rt_pc t = Ended) ts \<Longrightarrow> sum_list (map thread_done ts) = {#}" for ts
      by (induction ts) (simp_all add: thread_done_def)
    then show ?thesis using r by (simp add: parsed_so_far_def all_ended_def list_all_iff)
  qed
  have b: "busy r \<le> nthreads" using busy_le[of r] inv by (simp add: reader_inv_def)
  have l: "length samples = length labels" using inv r by (simp add: reader_inv_def)
  have sz: "size (parsed_so_far r) = length samples" by (simp add: d l)
  obtain K where K: "parsed_so_far r = image_mset (parsed_value parse) K" "K + lines_held r + mset (lines_left (rd_fin r)) \<subseteq># mset ls"
    using inv unfolding reader_inv_def lines_accounted_def by blast
  have "K \<subseteq># mset ls" using K(2) by (metis mset_subset_eq_add_left subset_mset.order_trans union_assoc)
  from image_mset_subseteq_mono[OF this, of "parsed_value parse"]
  have sub: "mset (zip samples labels) \<subseteq># mset (map (parsed_value parse) ls)" using K(1) by (simp add: d)
  have "length ls \<le> length samples + (nthreads - 1)" if lim: "length ls < unat limit" "nthreads > 0"
  proof (cases "ls = []")
    case False
    have "rd_threads r \<noteq> []" using inv lim(2) by (auto simp: reader_inv_def)
    then obtain t where t: "t \<in> set (rd_threads r)" by (cases "rd_threads r") auto
    then have "may_stop limit r" using inv r(1) by (auto simp: reader_inv_def all_ended_def list_all_iff thread_ok_def)
    moreover have "\<not> limit \<le> ucast (rd_lines_count r)"
      using count_value[OF inv len] lim(1) by (simp add: word_le_nat_alt)
    ultimately have eof: "is_eof (rd_fin r)" by (simp add: may_stop_def)
    then have "lines_left (rd_fin r) = []" by (simp add: lines_left_def)
    then have "length ls + 1 \<le> length samples + busy r" using inv False eof by (simp add: reader_inv_def sz)
    then show ?thesis using b lim(2) by arith
  qed simp
  moreover have "length samples \<le> max (unat limit) 1 - 1 + nthreads" using inv by (simp add: reader_inv_def sz)
  ultimately show ?thesis using l sub by (auto simp: ls_def)
qed

text \<open>
  C21: Whatever the interleaving of the threads, the samples they return are parsed lines of the
  file, each line at most once, every sample with its label; there are at most \<open>nthreads - 1\<close> more
  of them than the limit, and below the limit all but at most \<open>nthreads - 1\<close> lines are read.
\<close>

theorem readers_samples:
  assumes "read_threads parse limit nthreads sched fin = Inr (samples, labels)"
    and "is_fail fin \<longrightarrow> is_eof fin" "length (lines_left fin) < 2 ^ 32"
  shows "length samples = length labels
    \<and> mset (zip samples labels) \<subseteq># mset (map (parsed_value parse) (lines_left fin))
    \<and> length samples \<le> max (unat limit) 1 - 1 + nthreads
    \<and> (length (lines_left fin) < unat limit \<and> nthreads > 0 \<longrightarrow> length (lines_left fin) \<le> length samples + (nthreads - 1))"
  by (rule threads_samples[OF assms])

section \<open>The threads end\<close>

definition left_size :: "istream \<Rightarrow> nat" where
  "left_size fin = (if is_eof fin \<or> is_fail fin then 0 else length (is_buf fin) + 1)"

definition thread_weight :: "bool \<Rightarrow> read_thread \<Rightarrow> nat" where
  "thread_weight eof t = (case rt_pc t of At_read \<Rightarrow> 3 | At_eof_check \<Rightarrow> if eof then 2 else 6
     | At_limit_check \<Rightarrow> 5 | At_parse \<Rightarrow> 4 | At_flush \<Rightarrow> 1 | Ended \<Rightarrow> 0)"

definition steps_left :: "reader \<Rightarrow> nat" where
  "steps_left r = 4 * left_size (rd_fin r) + sum_list (map (thread_weight (is_eof (rd_fin r))) (rd_threads r))"

lemma weight_eof_mono: "(eof \<Longrightarrow> eof') \<Longrightarrow> sum_list (map (thread_weight eof') ts) \<le> sum_list (map (thread_weight eof) ts)"
proof (induction ts)
  case (Cons t ts)
  then have "thread_weight eof' t \<le> thread_weight eof t" by (auto simp: thread_weight_def split: read_pc.splits)
  with Cons show ?case by (simp add: add_mono)
qed simp

lemma get_line_size:
  assumes "get_line old fin = (line, fin')"
  shows "(is_eof fin' \<and> left_size fin' \<le> left_size fin) \<or> is_fail fin \<or> (is_eof fin' = is_eof fin \<and> left_size fin' < left_size fin)"
proof -
  define d where "d = dropWhile (\<lambda>c. c \<noteq> CHR 0x0A) (is_buf fin)"
  define l where "l = takeWhile (\<lambda>c. c \<noteq> CHR 0x0A) (is_buf fin)"
  have g: "get_line old fin = (if is_eof fin \<or> is_fail fin then (old, fin\<lparr>is_fail := True\<rparr>)
      else case d of [] \<Rightarrow> (l, \<lparr>is_buf = [], is_eof = True, is_fail = (l = [])\<rparr>) | _ # rest \<Rightarrow> (l, fin\<lparr>is_buf := rest\<rparr>))"
    unfolding get_line_def l_def d_def Let_def by (rule refl)
  have "length d \<le> length (is_buf fin)" unfolding d_def by (rule length_dropWhile_le)
  then show ?thesis using assms g by (cases d) (auto simp: left_size_def split: if_splits)
qed

lemma set_thread_steps:
  assumes "i < length (rd_threads r)"
  shows "steps_left (set_thread i t r) + thread_weight (is_eof (rd_fin r)) (rd_threads r ! i)
    = steps_left r + thread_weight (is_eof (rd_fin r)) t"
  using sum_list_upd[OF assms, of "thread_weight (is_eof (rd_fin r))" t] by (simp add: steps_left_def set_thread_def)

lemma read_step_less:
  assumes "i < length (rd_threads r)" "rt_pc (rd_threads r ! i) = At_read" "is_fail (rd_fin r) \<longrightarrow> is_eof (rd_fin r)"
    and g: "get_line old (rd_fin r) = (line, fin)"
  shows "steps_left (set_thread i ((rd_threads r ! i)\<lparr>rt_pc := At_eof_check, rt_line := line\<rparr>) (r\<lparr>rd_fin := fin\<rparr>)) < steps_left r"
proof -
  define r1 where "r1 = r\<lparr>rd_fin := fin\<rparr>"
  define t where "t = (rd_threads r ! i)\<lparr>rt_pc := At_eof_check, rt_line := line\<rparr>"
  note left = get_line_left[OF g assms(3)]
  have "is_eof (rd_fin r) \<Longrightarrow> left_size fin = 0 \<and> left_size (rd_fin r) = 0" using left(2) by (simp add: left_size_def)
  then have size: "left_size fin < left_size (rd_fin r) \<or> (is_eof fin \<and> left_size fin \<le> left_size (rd_fin r))"
    using get_line_size[OF g] assms(3) left(2) by auto
  have "steps_left (set_thread i t r1) + 3 = steps_left r1 + (if is_eof fin then 2 else 6)"
    using set_thread_steps[of i r1 t] assms(1,2) by (simp add: r1_def t_def thread_weight_def)
  moreover have "steps_left r1 \<le> 4 * left_size fin + (steps_left r - 4 * left_size (rd_fin r))"
    using weight_eof_mono[of "is_eof (rd_fin r)" "is_eof fin" "rd_threads r"] left(2) by (simp add: steps_left_def r1_def)
  moreover have "4 * left_size (rd_fin r) \<le> steps_left r" by (simp add: steps_left_def)
  ultimately have "steps_left (set_thread i t r1) < steps_left r" using size by (cases "is_eof fin") auto
  then show ?thesis by (simp only: r1_def t_def)
qed

lemma step_less:
  assumes step: "read_input_criteo_sparse_thread parse limit i r = Inr r'"
    and fail: "is_fail (rd_fin r) \<longrightarrow> is_eof (rd_fin r)"
  shows "steps_left r' < steps_left r \<or> (r' = r \<and> (i < length (rd_threads r) \<longrightarrow> rt_pc (rd_threads r ! i) = Ended))"
proof (cases "i < length (rd_threads r)")
  case i: True
  note go = step[unfolded read_input_criteo_sparse_thread_def Let_def] i
  note dec = set_thread_steps[OF i]
  show ?thesis
  proof (cases "rt_pc (rd_threads r ! i)")
    case At_read
    obtain line fin where g: "get_line (rt_line (rd_threads r ! i)) (rd_fin r) = (line, fin)" by fastforce
    with go At_read show ?thesis using read_step_less[OF i At_read fail g] by simp
  next
    case At_eof_check
    with go show ?thesis using dec[of "(rd_threads r ! i)\<lparr>rt_pc := if is_eof (rd_fin r) then At_flush else At_limit_check\<rparr>"]
      by (auto simp: thread_weight_def split: if_splits)
  next
    case At_limit_check
    with go show ?thesis using dec[of "(rd_threads r ! i)\<lparr>rt_pc :=
        if rd_lines_count r \<noteq> 0 \<and> ucast (rd_lines_count r) \<ge> limit then At_flush else At_parse\<rparr>"]
      by (auto simp: thread_weight_def split: if_splits)
  next
    case At_parse
    with go obtain t where t: "parse_and_push parse (rd_threads r ! i) = Inr t"
      "r' = set_thread i t (r\<lparr>rd_lines_count := rd_lines_count r + 1\<rparr>)" by auto
    then have "rt_pc t = At_read" by (auto simp: parse_and_push_def)
    moreover have "steps_left r' = steps_left (set_thread i t r)" using t(2) by (simp add: steps_left_def set_thread_def)
    ultimately show ?thesis using dec[of t] At_parse by (auto simp: thread_weight_def)
  next
    case At_flush
    define t where "t = (rd_threads r ! i)\<lparr>rt_pc := Ended\<rparr>"
    have "steps_left r' = steps_left (set_thread i t r)" using go At_flush by (auto simp: steps_left_def set_thread_def t_def)
    then show ?thesis using dec[of t] At_flush by (auto simp: thread_weight_def t_def)
  next
    case Ended
    with go show ?thesis by simp
  qed
next
  case False
  with step show ?thesis by (simp add: read_input_criteo_sparse_thread_def)
qed

lemma step_total:
  assumes inv: "reader_inv parse limit ls n r" and ok: "\<forall>l\<in>set ls. parsable parse l"
  shows "\<exists>r'. read_input_criteo_sparse_thread parse limit i r = Inr r'"
proof (cases "i < length (rd_threads r) \<and> rt_pc (rd_threads r ! i) = At_parse")
  case True
  then have "parsable parse (rt_line (rd_threads r ! i))" using held_line(1)[of parse ls r i] inv ok by (simp add: reader_inv_def)
  then have "\<exists>t. parse_and_push parse (rd_threads r ! i) = Inr t" by (auto simp: parse_and_push_def parsable_def)
  with True show ?thesis by (auto simp: read_input_criteo_sparse_thread_def)
next
  case False
  then show ?thesis by (cases "rt_pc (rd_threads r ! i)") (auto simp: read_input_criteo_sparse_thread_def Let_def split: prod.splits)
qed

interpretation rt: threads "read_input_criteo_sparse_thread parse limit"
  "\<lambda>r. reader_inv parse limit ls n r \<and> (\<forall>l\<in>set ls. parsable parse l) \<and> length ls < 2 ^ 32"
  steps_left "\<lambda>i r. rt_pc (rd_threads r ! i) = Ended" n for parse limit ls n
proof
  fix r i r' assume inv: "reader_inv parse limit ls n r \<and> (\<forall>l\<in>set ls. parsable parse l) \<and> length ls < 2 ^ 32"
  have n: "length (rd_threads r) = n" using inv by (simp add: reader_inv_def)
  show "\<exists>r'. read_input_criteo_sparse_thread parse limit i r = Inr r'" using step_total inv by blast
  show "\<forall>i<n. rt_pc (rd_threads r ! i) = Ended \<Longrightarrow> read_input_criteo_sparse_thread parse limit i r = Inr r"
    using n by (auto simp: read_input_criteo_sparse_thread_def)
  assume step: "read_input_criteo_sparse_thread parse limit i r = Inr r'"
  show "reader_inv parse limit ls n r' \<and> (\<forall>l\<in>set ls. parsable parse l) \<and> length ls < 2 ^ 32"
    using inv_step[OF _ _ step] inv by blast
  show "steps_left r' < steps_left r \<or> (r' = r \<and> (i < n \<longrightarrow> rt_pc (rd_threads r ! i) = Ended))"
    using step_less[OF step] inv n by (simp add: reader_inv_def)
qed

lemma start_steps: "steps_left (reader_start fin n) \<le> 4 * (length (is_buf fin) + 1) + 3 * n"
proof -
  have "sum_list (replicate n (3 :: nat)) = 3 * n" by (simp add: sum_list_replicate)
  moreover have "left_size fin \<le> length (is_buf fin) + 1" by (simp add: left_size_def)
  ultimately show ?thesis by (simp add: steps_left_def reader_start_def thread_weight_def)
qed

lemma threads_end:
  assumes "\<forall>l\<in>set (lines_left fin). parsable parse l" "is_fail fin \<longrightarrow> is_eof fin" "length (lines_left fin) < 2 ^ 32"
    and "4 * (length (is_buf fin) + 1) + 3 * nthreads < rounds"
  shows "\<exists>samples labels. read_threads parse limit nthreads (sched @ concat (replicate rounds [0..<nthreads])) fin = Inr (samples, labels)"
proof -
  have inv: "reader_inv parse limit (lines_left fin) nthreads (reader_start fin nthreads)
      \<and> (\<forall>l\<in>set (lines_left fin). parsable parse l) \<and> length (lines_left fin) < 2 ^ 32"
    using rd_inv_start[OF assms(2)] assms(1,3) by blast
  have "steps_left (reader_start fin nthreads) < rounds" using start_steps[of fin nthreads] assms(4) by linarith
  from rt.all_end[OF inv this, of sched] obtain r where
    r: "rfold (read_input_criteo_sparse_thread parse limit) (sched @ concat (replicate rounds [0..<nthreads])) (reader_start fin nthreads) = Inr r"
    "length (rd_threads r) = nthreads" "\<forall>i<nthreads. rt_pc (rd_threads r ! i) = Ended"
    by (auto simp: reader_inv_def)
  then have "all_ended r" by (auto simp: all_ended_def in_set_conv_nth)
  with r(1) show ?thesis by (auto simp: read_threads_def)
qed

text \<open>
  C22: If every line of the file can be parsed, no interleaving makes the reader fail or wait
  forever: whatever the threads have done (\<open>sched\<close>), letting each of them go on in turn ends them all
  after a number of rounds that depends on the size of the file only.
\<close>

theorem readers_end:
  assumes "\<forall>l\<in>set (lines_left fin). parsable parse l" "is_fail fin \<longrightarrow> is_eof fin" "length (lines_left fin) < 2 ^ 32"
    and "4 * (length (is_buf fin) + 1) + 3 * nthreads < rounds"
  shows "\<exists>samples labels. read_threads parse limit nthreads (sched @ concat (replicate rounds [0..<nthreads])) fin = Inr (samples, labels)"
  by (rule threads_end[OF assms])

definition ex_parse :: "string \<Rightarrow> parsed res" where
  "ex_parse line = Inr ([(word_of_nat (length line), 0x3F800000)], Some 0)"

lemma ex_parse_ok: "parsable ex_parse l"
  by (simp add: parsable_def ex_parse_def)

lemma ex_fin: "lines_left (istream_of [CHR ''a'', CHR 0x0A]) = [''a'']"
  by (simp add: lines_left_def istream_of_def)

theorem readers_end_witness:
  "\<exists>samples labels. read_threads ex_parse 5 2 ([0, 1, 1] @ concat (replicate 20 [0..<2])) (istream_of [CHR ''a'', CHR 0x0A]) = Inr (samples, labels)"
proof (rule readers_end)
  show "\<forall>l\<in>set (lines_left (istream_of [CHR ''a'', CHR 0x0A])). parsable ex_parse l" using ex_parse_ok by blast
  show "length (lines_left (istream_of [CHR ''a'', CHR 0x0A])) < 2 ^ 32" unfolding ex_fin by simp
qed (simp_all add: istream_of_def)

text \<open>
  The end of the file is tested after the lock was released: when another thread has met it by then,
  a line that was read is dropped. Two threads on a file of one line, in two orders.
\<close>

lemmas reader_evals = read_threads_def read_input_criteo_sparse_thread_def reader_start_def get_line_def
  parse_and_push_def all_ended_def istream_of_def ex_parse_def set_thread_def Let_def numeral_2_eq_2

lemma line_kept:
  "read_threads ex_parse 5 2 [0, 0, 0, 0, 0, 0, 0, 1, 1, 1] (istream_of [CHR ''a'', CHR 0x0A]) = Inr ([[(1, 0x3F800000)]], [0])"
  by (simp add: reader_evals)

lemma line_lost:
  "read_threads ex_parse 5 2 [0, 1, 0, 0, 1, 1] (istream_of [CHR ''a'', CHR 0x0A]) = Inr ([], [])"
  by (simp add: reader_evals)

theorem readers_samples_witness:
  "length [[(1 :: i32, 0x3F800000 :: f32)]] = length [0 :: f32]
    \<and> mset (zip [[(1 :: i32, 0x3F800000 :: f32)]] [0 :: f32]) \<subseteq># mset (map (parsed_value ex_parse) (lines_left (istream_of [CHR ''a'', CHR 0x0A])))
    \<and> length [[(1 :: i32, 0x3F800000 :: f32)]] \<le> max (unat (5 :: u64)) 1 - 1 + 2
    \<and> length (lines_left (istream_of [CHR ''a'', CHR 0x0A])) \<le> length [[(1 :: i32, 0x3F800000 :: f32)]] + (2 - 1)"
proof -
  have fin: "is_fail (istream_of [CHR ''a'', CHR 0x0A]) \<longrightarrow> is_eof (istream_of [CHR ''a'', CHR 0x0A])"
    "length (lines_left (istream_of [CHR ''a'', CHR 0x0A])) < 2 ^ 32"
    by (simp_all add: istream_of_def lines_left_def)
  show ?thesis using readers_samples[OF line_kept fin] by (simp add: istream_of_def lines_left_def)
qed

section \<open>Files of lines of one format\<close>

text \<open>
  What a reader needs to know of a format: how a row is written as a line, that a line has no newline,
  and that the parser of the format reads the row back.
\<close>

definition lines_text :: "('row \<Rightarrow> string) \<Rightarrow> 'row list \<Rightarrow> string" where
  "lines_text line xs = concat (map (\<lambda>l. l @ [CHR 0x0A]) (map line xs))"

locale line_format =
  fixes parse :: "string \<Rightarrow> parsed res"
    and line_of :: "'row \<Rightarrow> string"
    and row_ok :: "'row \<Rightarrow> bool"
    and row_value :: "'row \<Rightarrow> sample \<times> f32"
  assumes parse_line: "row_ok x \<Longrightarrow> parse (line_of x) = Inr (fst (row_value x), Some (snd (row_value x)))"
    and one_line: "row_ok x \<Longrightarrow> CHR 0x0A \<notin> set (line_of x)"
begin

lemma file_lines: "\<forall>x\<in>set xs. row_ok x \<Longrightarrow> lines_left (istream_of (lines_text line_of xs)) = map line_of xs"
  using ended_lines_concat[of "map line_of xs"] one_line by (simp add: lines_left_def istream_of_def lines_text_def)

lemma file_read:
  assumes "\<forall>x\<in>set xs. row_ok x" "length xs < 2 ^ 32" "length xs < unat limit" "0 < nthreads"
    and "4 * (length (lines_text line_of xs) + 1) + 3 * nthreads < rounds"
  obtains samples labels where
    "read_threads parse limit nthreads (sched @ concat (replicate rounds [0..<nthreads])) (istream_of (lines_text line_of xs)) = Inr (samples, labels)"
    "length samples = length labels" "mset (zip samples labels) \<subseteq># mset (map row_value xs)"
    "length xs \<le> length samples + (nthreads - 1)"
proof -
  note left = file_lines[OF assms(1)]
  have ok: "\<forall>l\<in>set (lines_left (istream_of (lines_text line_of xs))). parsable parse l"
    using assms(1) parse_line by (auto simp: left parsable_def)
  have vals: "map (parsed_value parse) (lines_left (istream_of (lines_text line_of xs))) = map row_value xs"
    using assms(1) parse_line by (simp add: left parsed_value_def)
  have nf: "is_fail (istream_of (lines_text line_of xs)) \<longrightarrow> is_eof (istream_of (lines_text line_of xs))" by (simp add: istream_of_def)
  have len: "length (lines_left (istream_of (lines_text line_of xs))) < 2 ^ 32" using assms(2) by (simp add: left)
  have "4 * (length (is_buf (istream_of (lines_text line_of xs))) + 1) + 3 * nthreads < rounds" using assms(5) by (simp add: istream_of_def)
  from threads_end[OF ok nf len this] obtain samples labels where
    run: "read_threads parse limit nthreads (sched @ concat (replicate rounds [0..<nthreads])) (istream_of (lines_text line_of xs)) = Inr (samples, labels)"
    by blast
  note res = threads_samples[OF run nf len, unfolded vals]
  have "length (lines_left (istream_of (lines_text line_of xs))) = length xs" by (simp add: left)
  then show ?thesis using that[OF run] res assms(3,4) by auto
qed

end

section \<open>A Kaggle file\<close>

type_synonym kaggle_row = "string \<times> string \<times> string list"

definition kaggle_line :: "kaggle_row \<Rightarrow> string" where
  "kaggle_line = (\<lambda>(i, lab, cols). join (CHR '','') (i # lab # cols))"

definition kaggle_row_ok :: "kaggle_row \<Rightarrow> bool" where
  "kaggle_row_ok = (\<lambda>(i, lab, cols).
     (\<forall>f\<in>set (i # lab # cols). CHR '','' \<notin> set f \<and> CHR 0x00 \<notin> set f \<and> CHR 0x0A \<notin> set f)
     \<and> (lab = ''0'' \<or> lab = ''1'') \<and> length (kaggle_line (i, lab, cols)) < 9999)"

definition kaggle_file :: "string \<Rightarrow> kaggle_row list \<Rightarrow> string" where
  "kaggle_file header rows = header @ CHR 0x0A # lines_text kaggle_line rows"

definition kaggle_sample :: "configuration \<Rightarrow> kaggle_row \<Rightarrow> sample \<times> f32" where
  "kaggle_sample config = (\<lambda>(i, lab, cols).
     (hashed_features config (cols @ (if cf_use_bias config then [''bias''] else [])), if lab = ''1'' then 0x3F800000 else 0))"

lemma kaggle_row_parsed:
  assumes "kaggle_row_ok row" "unat (cf_model_bits config) \<le> 30"
  shows "parse_criteo_kaggle_sparse_line (kaggle_line row) '','' config = Inr (fst (kaggle_sample config row), Some (snd (kaggle_sample config row)))"
    "CHR 0x0A \<notin> set (kaggle_line row)"
proof -
  obtain i lab cols where row: "row = (i, lab, cols)" by (cases row)
  have bits: "cf_model_bits config < 64" using assms(2) by (simp add: word_less_nat_alt)
  show "parse_criteo_kaggle_sparse_line (kaggle_line row) '','' config = Inr (fst (kaggle_sample config row), Some (snd (kaggle_sample config row)))"
    unfolding row kaggle_line_def kaggle_sample_def prod.case fst_conv snd_conv
    by (rule kaggle_line_ok) (use assms(1) bits in \<open>auto simp: kaggle_row_ok_def row kaggle_line_def\<close>)
  show "CHR 0x0A \<notin> set (kaggle_line row)"
    using assms(1) by (auto simp: kaggle_row_ok_def row kaggle_line_def set_join)
qed

interpretation kf: line_format "\<lambda>line. parse_criteo_kaggle_sparse_line line '','' config" kaggle_line
  "\<lambda>row. kaggle_row_ok row \<and> unat (cf_model_bits config) \<le> 30" "kaggle_sample config" for config
  by unfold_locales (auto simp: kaggle_row_parsed)

lemma unat_power_u64: "b < 64 \<Longrightarrow> unat (word_of_nat (2 ^ b) :: u64) = 2 ^ b"
proof -
  assume "b < 64"
  then have "(2 :: nat) ^ b < 2 ^ 64" by (intro power_strict_increasing) auto
  then show ?thesis by (simp only: unat_of_nat) (simp add: take_bit_nat_eq_self)
qed

lemma normalize_bits_ok:
  assumes bits: "unat bits \<le> 30" and small: "\<forall>row\<in>set samples. \<forall>v\<in>set row. unat (fst v) < 2 ^ unat bits"
  shows "\<exists>d. normalize_bits bits (sd_make samples labels) = Inr d
    \<and> map (map fst) (sd_data d) = map (map fst) samples \<and> sd_labels d = labels"
proof -
  define b where "b = unat bits"
  have b: "b \<le> 30" using bits by (simp add: b_def)
  have "(2 :: nat) ^ b \<le> 2 ^ 30" using b by (intro power_increasing) auto
  then have pb: "(2 :: nat) ^ b < 2 ^ 31" by (rule le_less_trans) simp
  have one: "(push_bit b 1 :: i32) = word_of_nat (2 ^ b)" by (simp add: push_bit_eq_mult)
  have s: "sint (push_bit b 1 :: i32) = 2 ^ b" unfolding one using sint_small[OF pb] by simp
  have "(scast (push_bit b 1 :: i32) :: u64) = word_of_int (sint (push_bit b 1 :: i32))" by (rule of_int_sint[symmetric])
  also have "\<dots> = word_of_nat (2 ^ b)" unfolding s by simp
  finally have e: "(scast (push_bit b 1 :: i32) :: u64) = word_of_nat (2 ^ b)" .
  have h: "unat (scast (push_bit b 1 :: i32) :: u64) = 2 ^ b"
    unfolding e by (rule unat_power_u64) (use b in simp)
  define hash_size where "hash_size = (scast (push_bit b 1 :: i32) :: u64)"
  have "norm_index_ok hash_size v" if mem: "row \<in> set samples" "v \<in> set row" for row v
  proof -
    have "unat (fst v) < 2 ^ b" using small mem by (simp add: b_def)
    moreover from this have "sint (fst v) = int (unat (fst v))" using pb sint_small[of "unat (fst v)"] by simp
    ultimately show ?thesis using h by (simp add: norm_index_ok_def hash_size_def)
  qed
  then have "\<exists>d. sd_normalize hash_size (sd_make samples labels) = Inr d
      \<and> map (map fst) (sd_data d) = map (map fst) samples \<and> sd_labels d = labels"
    using sd_normalize_shape[of hash_size "sd_make samples labels"] h pb by (simp add: hash_size_def sd_make_def)
  moreover have "\<not> 32 \<le> bits" using bits by (simp add: word_le_nat_alt)
  ultimately show ?thesis using h pb by (simp add: normalize_bits_def Let_def hash_size_def b_def)
qed

lemma kaggle_normalize:
  assumes "\<forall>s\<in>set samples. \<exists>row. kaggle_row_ok row \<and> s = fst (kaggle_sample config row)"
    and "unat (cf_model_bits config) \<le> 30"
  shows "\<exists>d. normalize_bits (cf_model_bits config) (sd_make samples labels) = Inr d
    \<and> map (map fst) (sd_data d) = map (map fst) samples \<and> sd_labels d = labels"
proof (rule normalize_bits_ok[OF assms(2)], intro ballI)
  fix row v assume mem: "row \<in> set samples" "v \<in> set row"
  obtain r where r: "kaggle_row_ok r" "row = fst (kaggle_sample config r)" using bspec[OF assms(1) mem(1)] by blast
  show "unat (fst v) < 2 ^ unat (cf_model_bits config)"
    using kaggle_features_ok[OF kaggle_row_parsed(1)[OF r(1) assms(2)]] assms(2) mem(2) r(2) by (cases v) auto
qed

lemma kaggle_file_ok:
  assumes "\<forall>row\<in>set rows. kaggle_row_ok row" "CHR 0x0A \<notin> set header" "length rows < 2 ^ 32"
    and "length rows < unat (cf_limit_samples config)" "unat (cf_model_bits config) \<le> 30"
    and "4 * (length (kaggle_file header rows) + 1) + 24 < rounds"
  shows "\<exists>samples d. read_input_criteo_kaggle_sparse (Some (kaggle_file header rows)) '','' config (sched @ concat (replicate rounds [0..<8])) = Inr d
    \<and> length samples = length (sd_labels d) \<and> mset (zip samples (sd_labels d)) \<subseteq># mset (map (kaggle_sample config) rows)
    \<and> length rows \<le> length samples + 7
    \<and> (if cf_normalize config
        then normalize_bits (cf_model_bits config) (sd_make samples (sd_labels d)) = Inr d \<and> map (map fst) (sd_data d) = map (map fst) samples
        else sd_data d = samples)"
proof -
  define body where "body = lines_text kaggle_line rows"
  have f_eq: "kaggle_file header rows = header @ CHR 0x0A # body" by (simp add: kaggle_file_def body_def)
  have h: "snd (get_line [] (istream_of (kaggle_file header rows))) = istream_of body"
  proof -
    have "takeWhile (\<lambda>c. c \<noteq> CHR 0x0A) (header @ CHR 0x0A # body) = header"
      "dropWhile (\<lambda>c. c \<noteq> CHR 0x0A) (header @ CHR 0x0A # body) = CHR 0x0A # body"
      using assms(2) by (induction header) auto
    then show ?thesis by (simp add: f_eq get_line_def istream_of_def Let_def)
  qed
  have rounds: "4 * (length (lines_text kaggle_line rows) + 1) + 3 * 8 < rounds" using assms(6) by (simp add: f_eq body_def)
  have rows: "\<forall>row\<in>set rows. kaggle_row_ok row \<and> unat (cf_model_bits config) \<le> 30" using assms(1,5) by simp
  obtain samples labels where
    run: "read_threads (\<lambda>line. parse_criteo_kaggle_sparse_line line '','' config) (cf_limit_samples config) 8
      (sched @ concat (replicate rounds [0..<8])) (istream_of body) = Inr (samples, labels)"
    and res: "length samples = length labels" "mset (zip samples labels) \<subseteq># mset (map (kaggle_sample config) rows)"
    "length rows \<le> length samples + (8 - 1)"
    using kf.file_read[OF rows assms(3,4) _ rounds, of sched] by (auto simp: body_def)
  have "\<exists>row. kaggle_row_ok row \<and> s = fst (kaggle_sample config row)" if mem: "s \<in> set samples" for s
  proof -
    obtain y where "(s, y) \<in> set (zip samples labels)"
      using in_set_impl_in_set_zip1[OF res(1) mem] by blast
    then have "(s, y) \<in> set (map (kaggle_sample config) rows)" using mset_subset_eqD[OF res(2), of "(s, y)"] by simp
    then obtain row where "row \<in> set rows" "kaggle_sample config row = (s, y)" by auto
    then show ?thesis using assms(1) by (intro exI[of _ row]) simp
  qed
  then obtain d where d: "normalize_bits (cf_model_bits config) (sd_make samples labels) = Inr d"
    "map (map fst) (sd_data d) = map (map fst) samples" "sd_labels d = labels"
    using kaggle_normalize[OF _ assms(5), of samples labels] by blast
  show ?thesis
  proof (cases "cf_normalize config")
    case True
    then show ?thesis using run h d res
      by (intro exI[of _ samples] exI[of _ d]) (simp add: read_input_criteo_kaggle_sparse_def open_input_def)
  next
    case False
    then show ?thesis using run h res
      by (intro exI[of _ samples] exI[of _ "sd_make samples labels"])
        (simp add: read_input_criteo_kaggle_sparse_def open_input_def sd_make_def)
  qed
qed

text \<open>
  C20: Reading a well-formed Kaggle file ends, whatever the threads have done, with a dataset whose
  samples are the rows of the file, each at most once and with its label; below the limit at most
  seven rows are missing. Normalisation never fails on it, and keeps the features and labels.
\<close>

theorem kaggle_file_read:
  assumes "\<forall>row\<in>set rows. kaggle_row_ok row" "CHR 0x0A \<notin> set header" "length rows < 2 ^ 32"
    and "length rows < unat (cf_limit_samples config)" "unat (cf_model_bits config) \<le> 30"
    and "4 * (length (kaggle_file header rows) + 1) + 24 < rounds"
  shows "\<exists>samples d. read_input_criteo_kaggle_sparse (Some (kaggle_file header rows)) '','' config (sched @ concat (replicate rounds [0..<8])) = Inr d
    \<and> length samples = length (sd_labels d) \<and> mset (zip samples (sd_labels d)) \<subseteq># mset (map (kaggle_sample config) rows)
    \<and> length rows \<le> length samples + 7
    \<and> (if cf_normalize config then map (map fst) (sd_data d) = map (map fst) samples else sd_data d = samples)"
  using kaggle_file_ok[OF assms] by meson

definition ex_kaggle :: "kaggle_row list" where
  "ex_kaggle = [(''7'', ''1'', [''68fd1e64'', []]), (''8'', ''0'', [''05db9164''])]"

theorem kaggle_file_read_witness:
  "\<exists>samples d. read_input_criteo_kaggle_sparse (Some (kaggle_file ''Id,Label,C1'' ex_kaggle)) '',''
      (conf_new\<lparr>cf_model_bits := 10, cf_limit_samples := 5, cf_normalize := True\<rparr>) ([3, 1, 3] @ concat (replicate 1000 [0..<8])) = Inr d
    \<and> length samples = length (sd_labels d)
    \<and> mset (zip samples (sd_labels d)) \<subseteq># mset (map (kaggle_sample (conf_new\<lparr>cf_model_bits := 10, cf_limit_samples := 5, cf_normalize := True\<rparr>)) ex_kaggle)
    \<and> length ex_kaggle \<le> length samples + 7
    \<and> (if cf_normalize (conf_new\<lparr>cf_model_bits := 10, cf_limit_samples := 5, cf_normalize := True\<rparr>)
        then map (map fst) (sd_data d) = map (map fst) samples else sd_data d = samples)"
  by (rule kaggle_file_read) (simp_all add: ex_kaggle_def kaggle_row_ok_def kaggle_line_def kaggle_file_def lines_text_def)

section \<open>An RCV1 file\<close>

type_synonym rcv1_row = "nat list \<times> (nat \<times> nat \<times> string) list"

definition rcv1_line :: "rcv1_row \<Rightarrow> string" where
  "rcv1_line = (\<lambda>(classes, fs). rcv1_text classes fs)"

definition rcv1_row_ok :: "rcv1_row \<Rightarrow> bool" where
  "rcv1_row_ok = (\<lambda>(classes, fs). rcv1_ok classes fs \<and> (\<forall>(i, n, r)\<in>set fs. CHR 0x0A \<notin> set r))"

text \<open>
  A row as a sample: the bytes of the label are the first four classes, each plus one; a feature has the sum of the
  whole parts of its values, what is behind the point is not read.
\<close>

definition rcv1_label :: "nat list \<Rightarrow> f32" where
  "rcv1_label classes = word_of_nat (\<Sum>i<4. (if i < length classes then (classes ! i + 1) mod 256 else 0) * 256 ^ i)"

definition rcv1_sample :: "rcv1_row \<Rightarrow> sample \<times> f32" where
  "rcv1_sample = (\<lambda>(classes, fs).
     (map (\<lambda>(k, n). (ucast k, f32_of_int (sint n))) (totals (map (\<lambda>(i, n, r). (word_of_nat i :: u64, word_of_nat n :: i32)) fs)),
      rcv1_label classes))"

lemma class_byte_value: "unat (ucast (word_of_nat c + 1 :: i32) :: byte) = (c + 1) mod 256"
proof -
  have "ucast (word_of_nat (c + 1) :: i32) = (word_of_nat (c + 1) :: byte)"
    by (rule bit_word_eqI) (simp add: bit_simps del: of_nat_add of_nat_Suc)
  then have "ucast (word_of_nat c + 1 :: i32) = (word_of_nat (c + 1) :: byte)" by (simp only: of_nat_add of_nat_1)
  then show ?thesis by (simp only: unat_of_nat take_bit_eq_mod) simp
qed

lemma le_to_nat_sum: "le_to_nat bs = (\<Sum>i<length bs. unat (bs ! i) * 256 ^ i)"
  by (induction bs) (simp_all add: sum.lessThan_Suc_shift sum_distrib_left ac_simps del: sum.lessThan_Suc)

lemma pack_label_value: "pack_label (map (\<lambda>c. word_of_nat c + 1) classes) = rcv1_label classes"
proof -
  define f :: "nat \<Rightarrow> byte" where "f = (\<lambda>c. ucast (word_of_nat c + 1 :: i32))"
  define bs where "bs = take 4 (map f classes)"
  define all where "all = bs @ replicate (4 - length bs) 0"
  have f: "unat (f c) = (c + 1) mod 256" for c unfolding f_def by (rule class_byte_value)
  have "length all = 4" by (simp add: all_def bs_def)
  moreover have "unat (all ! i) = (if i < length classes then (classes ! i + 1) mod 256 else 0)" if "i < 4" for i
    using that f by (auto simp: all_def bs_def nth_append)
  ultimately have "le_to_nat all = (\<Sum>i<4. (if i < length classes then (classes ! i + 1) mod 256 else 0) * 256 ^ i)"
    by (simp only: le_to_nat_sum) (intro sum.cong, simp_all del: mult_cancel2)
  moreover have "pack_label (map (\<lambda>c. word_of_nat c + 1) classes) = word_of_nat (le_to_nat all)"
    by (simp only: pack_label_def Let_def all_def bs_def f_def map_map comp_def)
  ultimately show ?thesis by (simp only: rcv1_label_def)
qed

lemma rcv1_no_newline:
  assumes "rcv1_row_ok (classes, fs)"
  shows "CHR 0x0A \<notin> set (rcv1_text classes fs)"
proof -
  have nl: "\<not> is_digit (CHR 0x0A)" by (simp add: is_digit_def ccode_def)
  have "CHR 0x0A \<notin> set (rcv1_feature_text f)" if "f \<in> set fs" for f
    using that assms show_nat_no[OF nl] by (fastforce simp: rcv1_feature_text_def rcv1_row_ok_def)
  moreover have "CHR 0x0A \<notin> set (join (CHR '','') (map show_nat classes))"
    using assms show_nat_no[OF nl] by (auto simp: set_join rcv1_row_ok_def rcv1_ok_def)
  ultimately show ?thesis by (auto simp: rcv1_text_def set_join)
qed

interpretation rf: line_format "\<lambda>line. parse_rcv1_vw_sparse_line line '' ''" rcv1_line
  rcv1_row_ok rcv1_sample
proof
  fix row assume ok: "rcv1_row_ok row"
  obtain classes fs where row: "row = (classes, fs)" by (cases row)
  then have "rcv1_ok classes fs" using ok by (simp add: rcv1_row_ok_def)
  from rcv1_line_ok[OF this]
  show "parse_rcv1_vw_sparse_line (rcv1_line row) '' '' = Inr (fst (rcv1_sample row), Some (snd (rcv1_sample row)))"
    by (simp add: row rcv1_sample_def rcv1_line_def pack_label_value)
  show "CHR 0x0A \<notin> set (rcv1_line row)"
    using rcv1_no_newline[of classes fs] ok by (simp add: row rcv1_line_def)
qed

text \<open>The indices of the features of a row.\<close>

definition rcv1_hashed :: "rcv1_row \<Rightarrow> bool" where
  "rcv1_hashed = (\<lambda>(classes, fs). \<forall>(i, n, r)\<in>set fs. i < 2 ^ 19)"

lemma rcv1_small:
  assumes "rcv1_hashed row" "v \<in> set (fst (rcv1_sample row))"
  shows "unat (fst v) < 2 ^ 19"
proof -
  obtain classes fs where row: "row = (classes, fs)" by (cases row)
  obtain i n r where i: "(i, n, r) \<in> set fs" "fst v = ucast (word_of_nat i :: u64)"
    using assms(2) by (auto simp: row rcv1_sample_def totals_def)
  then have small: "i < 2 ^ 19" using assms(1) by (auto simp: row rcv1_hashed_def)
  then have "unat (ucast (word_of_nat i :: u64) :: i32) = i"
    by (simp add: unsigned_ucast_eq unat_of_nat take_bit_nat_eq_self)
  then show ?thesis using i(2) small by simp
qed

text \<open>
  C23: The one thread that reads an RCV1 file below the limit returns every row of it, each once and
  with the label its classes give: the first four of them, each plus one, as the bytes of the \<open>float\<close>. A feature
  gets the sum of the whole parts of its values; fractions are dropped. With \<open>to_normalize\<close>, as the one caller has it, the values are
  then normalised, which keeps features and labels and does not throw if the indices have 19 bits.
\<close>

theorem rcv1_file_read:
  assumes "\<forall>row\<in>set rows. rcv1_row_ok row" "length rows < 2 ^ 32" "length rows < unat limit_lines"
    and "4 * (length (lines_text rcv1_line rows) + 1) + 3 < rounds" and hashed: "to_normalize \<Longrightarrow> \<forall>row\<in>set rows. rcv1_hashed row"
  shows "\<exists>samples d. read_input_rcv1_sparse (Some (lines_text rcv1_line rows)) '' '' limit_lines to_normalize (replicate rounds 0) = Inr d
    \<and> length samples = length (sd_labels d) \<and> mset (zip samples (sd_labels d)) = mset (map rcv1_sample rows)
    \<and> (if to_normalize
        then normalize_bits RCV1_HASH_BITS (sd_make samples (sd_labels d)) = Inr d \<and> map (map fst) (sd_data d) = map (map fst) samples
        else sd_data d = samples)"
proof -
  have sched: "concat (replicate rounds [0..<1]) = replicate rounds 0" by (induction rounds) simp_all
  have r: "4 * (length (lines_text rcv1_line rows) + 1) + 3 * 1 < rounds" using assms(4) by simp
  obtain samples labels where
    run: "read_threads (\<lambda>line. parse_rcv1_vw_sparse_line line '' '') limit_lines 1 ([] @ concat (replicate rounds [0..<1]))
      (istream_of (lines_text rcv1_line rows)) = Inr (samples, labels)"
    and res: "length samples = length labels" "mset (zip samples labels) \<subseteq># mset (map rcv1_sample rows)"
      "length rows \<le> length samples + (1 - 1)"
    by (rule rf.file_read[OF assms(1-3) zero_less_one r])
  have "size (mset (map rcv1_sample rows)) \<le> size (mset (zip samples labels))" using res(1,3) by simp
  then have all: "mset (zip samples labels) = mset (map rcv1_sample rows)"
    using res(2) by (metis le_antisym size_mset_mono subset_mset.le_imp_less_or_eq mset_subset_size not_le)
  show ?thesis
  proof (cases to_normalize)
    case False
    then show ?thesis using run res(1) all unfolding sched append_Nil
      by (intro exI[of _ samples] exI[of _ "sd_make samples labels"]) (simp add: read_input_rcv1_sparse_def open_input_def sd_make_def)
  next
    case True
    have "unat (fst v) < 2 ^ 19" if mem: "s \<in> set samples" "v \<in> set s" for s v
    proof -
      obtain y where "(s, y) \<in> set (zip samples labels)" using in_set_impl_in_set_zip1[OF res(1) mem(1)] by blast
      then have "(s, y) \<in> set (map rcv1_sample rows)" using all by (metis set_mset_mset)
      then obtain row where "row \<in> set rows" "rcv1_sample row = (s, y)" by auto
      then show ?thesis using rcv1_small[of row v] hashed[OF True] mem(2) by simp
    qed
    then have "\<exists>d. normalize_bits RCV1_HASH_BITS (sd_make samples labels) = Inr d
      \<and> map (map fst) (sd_data d) = map (map fst) samples \<and> sd_labels d = labels"
      by (intro normalize_bits_ok) (auto simp: RCV1_HASH_BITS_def)
    then obtain d where d: "normalize_bits RCV1_HASH_BITS (sd_make samples labels) = Inr d"
      "map (map fst) (sd_data d) = map (map fst) samples" "sd_labels d = labels" by blast
    then show ?thesis using run res(1) all True unfolding sched append_Nil
      by (intro exI[of _ samples] exI[of _ d]) (simp add: read_input_rcv1_sparse_def open_input_def)
  qed
qed

theorem rcv1_file_read_witness:
  "\<exists>samples d. read_input_rcv1_sparse (Some (lines_text rcv1_line [([9, 68], ex_rcv1)])) '' '' 5 True (replicate 1000 0) = Inr d
    \<and> length samples = length (sd_labels d) \<and> mset (zip samples (sd_labels d)) = mset (map rcv1_sample [([9, 68], ex_rcv1)])
    \<and> (if True then normalize_bits RCV1_HASH_BITS (sd_make samples (sd_labels d)) = Inr d \<and> map (map fst) (sd_data d) = map (map fst) samples
        else sd_data d = samples)"
proof (rule rcv1_file_read)
  show "\<forall>row\<in>set [([9, 68], ex_rcv1)]. rcv1_row_ok row" using ex_rcv1_ok by (simp add: rcv1_row_ok_def) (simp add: ex_rcv1_def)
  show "\<forall>row\<in>set [([9, 68], ex_rcv1)]. rcv1_hashed row" by (simp add: rcv1_hashed_def ex_rcv1_def)
qed (simp_all add: lines_text_def rcv1_line_def ex_rcv1_def rcv1_text_def rcv1_feature_text_def show_nat.simps)

end
