(* ===== verification/Ratings.thy ===== *)
theory Ratings
  imports ReadThreads
begin

text \<open>
  The readers of rating datasets (\<open>InputReader.cpp\<close>): Netflix, whose file is shared by eight threads
  that map the user ids to rows as they meet them, and MovieLens and Jester, read by one loop. A
  rating is the user, the movie and the value of a line.
\<close>

type_synonym rating = "i32 \<times> i32 \<times> f32"

section \<open>A line\<close>

text \<open>\<open>string_to(strsep(&s, ","))\<close>: past the last field the pointer is null.\<close>

definition rating_fields :: "string list \<Rightarrow> rating res" where
  "rating_fields fs = (case fs of
     u # m # r # _ \<Rightarrow>
       rbind (str_to is_int u) (\<lambda>u. rbind (str_to is_int m) (\<lambda>m. rbind (str_to is_float r) (\<lambda>r. Inr (u, m, r))))
   | _ \<Rightarrow> Inl Undefined_behaviour)"

definition parse_rating :: "nat \<Rightarrow> string \<Rightarrow> rating res" where
  "parse_rating max_length line =
     rbind (cassert (length line < max_length)) (\<lambda>_.
     rbind (copy_line MAX_STR_SIZE line) (\<lambda>s.
     rating_fields (strsep_all '','' s)))"

text \<open>\<open>std::max\<close> on \<open>int\<close>s, and the subtraction that turns a movie id into an index.\<close>

definition open_ratings :: "string option \<Rightarrow> istream res" where
  "open_ratings file = (case file of None \<Rightarrow> Inl (Runtime_error ''Error opening input file '') | Some s \<Rightarrow> Inr (istream_of s))"

definition imax :: "i32 \<Rightarrow> i32 \<Rightarrow> i32" where
  "imax a b = (if sint a < sint b then b else a)"

definition int_minus_1 :: "i32 \<Rightarrow> i32 res" where
  "int_minus_1 m = (if sint m = - (2 ^ 31) then Inl Undefined_behaviour else Inr (m - 1))"

section \<open>Netflix\<close>

definition NETFLIX_USERS :: nat where "NETFLIX_USERS = 480189"

datatype netflix_pc = N_read | N_insert | N_finish | N_ended

record netflix_thread =
  nt_pc :: netflix_pc
  nt_line :: string
  nt_nummovies_local :: i32
  nt_numusers_local :: i32

record netflix =
  nf_fin :: istream
  nf_sparse_ds :: "sample list"
  nf_number_movies :: i32
  nf_number_users :: i32
  nf_userid_to_realid :: "i32 \<rightharpoonup> i32"
  nf_user_index :: i32
  nf_threads :: "netflix_thread list"

definition nf_set_thread :: "nat \<Rightarrow> netflix_thread \<Rightarrow> netflix \<Rightarrow> netflix" where
  "nf_set_thread i t st = st\<lparr>nf_threads := (nf_threads st)[i := t]\<rparr>"

text \<open>
  Under \<open>map_lock\<close>. The index does not overflow: \<open>at\<close> throws for the first user that has no row.
\<close>

definition real_id :: "i32 \<Rightarrow> netflix \<Rightarrow> i32 \<times> netflix" where
  "real_id userId st = (case nf_userid_to_realid st userId of
     None \<Rightarrow> (nf_user_index st, st\<lparr>nf_userid_to_realid := (nf_userid_to_realid st)(userId \<mapsto> nf_user_index st),
                                 nf_user_index := nf_user_index st + 1\<rparr>)
   | Some k \<Rightarrow> (k, st))"

definition insert_rating :: "rating \<Rightarrow> netflix \<Rightarrow> (i32 \<times> netflix) res" where
  "insert_rating = (\<lambda>(userId, movieId, rating) st.
     case real_id userId st of (newuser_id, st) \<Rightarrow>
     rbind (vec_at (nf_sparse_ds st) (idx newuser_id)) (\<lambda>row.
     rbind (int_minus_1 movieId) (\<lambda>m.
     Inr (newuser_id, st\<lparr>nf_sparse_ds := (nf_sparse_ds st)[idx newuser_id := row @ [(m, rating)]]\<rparr>))))"

definition read_netflix_input_thread :: "nat \<Rightarrow> netflix \<Rightarrow> netflix res" where
  "read_netflix_input_thread i st =
     (if i \<ge> length (nf_threads st) then Inr st else
      let t = nf_threads st ! i in
      case nt_pc t of
        N_read \<Rightarrow>
          (case get_line (nt_line t) (nf_fin st) of (line, fin) \<Rightarrow>
            Inr (nf_set_thread i (t\<lparr>nt_pc := if is_eof fin then N_finish else N_insert, nt_line := line\<rparr>) (st\<lparr>nf_fin := fin\<rparr>)))
      | N_insert \<Rightarrow>
          rbind (parse_rating MAX_STR_SIZE (nt_line t)) (\<lambda>rating.
          rbind (insert_rating rating st) (\<lambda>(newuser_id, st).
          Inr (nf_set_thread i (t\<lparr>nt_pc := N_read, nt_numusers_local := imax (nt_numusers_local t) newuser_id,
                                  nt_nummovies_local := imax (nt_nummovies_local t) (fst (snd rating))\<rparr>) st)))
      | N_finish \<Rightarrow>
          Inr (nf_set_thread i (t\<lparr>nt_pc := N_ended\<rparr>)
            (st\<lparr>nf_number_users := imax (nf_number_users st) (nt_numusers_local t),
                nf_number_movies := imax (nf_number_movies st) (nt_nummovies_local t)\<rparr>))
      | N_ended \<Rightarrow> Inr st)"

definition netflix_start :: "istream \<Rightarrow> nat \<Rightarrow> nat \<Rightarrow> netflix" where
  "netflix_start fin rows nthreads =
     \<lparr>nf_fin = fin, nf_sparse_ds = replicate rows [], nf_number_movies = 0, nf_number_users = 0,
      nf_userid_to_realid = Map.empty, nf_user_index = 0,
      nf_threads = replicate nthreads \<lparr>nt_pc = N_read, nt_line = [], nt_nummovies_local = 0, nt_numusers_local = 0\<rparr>\<rparr>"

definition nf_all_ended :: "netflix \<Rightarrow> bool" where
  "nf_all_ended st \<longleftrightarrow> (\<forall>t\<in>set (nf_threads st). nt_pc t = N_ended)"

text \<open>The dataset, and what is written to \<open>*number_movies\<close> and \<open>*number_users\<close>.\<close>

definition read_netflix_ratings :: "string option \<Rightarrow> nat list \<Rightarrow> (sparse_dataset \<times> i32 \<times> i32) res" where
  "read_netflix_ratings file sched =
     rbind (open_ratings file) (\<lambda>fin.
     rbind (rfold read_netflix_input_thread sched (netflix_start fin NETFLIX_USERS 8)) (\<lambda>st.
     if \<not> nf_all_ended st then Inl Blocked else
     let ds = sd_of_samples (nf_sparse_ds st)
     in rbind (sd_check ds) (\<lambda>_.
        rbind (rcheck (\<lambda>i. rbind (sd_get_row ds (word_of_nat i)) (\<lambda>_. Inr ())) [0..<100]) (\<lambda>_.
        Inr (ds, nf_number_movies st, nf_number_users st)))))"

section \<open>MovieLens and Jester\<close>

definition MOVIELENS_USERS :: nat where "MOVIELENS_USERS = 50732"
definition JESTER_DEFAULT :: nat where "JESTER_DEFAULT = 10000"

type_synonym ratings_state = "sample list \<times> i32 \<times> i32"

text \<open>\<open>sparse_ds[row].push_back(...)\<close> and the two maxima\<close>

definition add_rating :: "i32 res \<Rightarrow> rating \<Rightarrow> ratings_state \<Rightarrow> ratings_state res" where
  "add_rating row = (\<lambda>(userId, itemId, rating) (sparse_ds, number_users, number_items).
     rbind row (\<lambda>row.
     rbind (vec_get sparse_ds (idx row)) (\<lambda>ratings.
     Inr (sparse_ds[idx row := ratings @ [(itemId, rating)]], imax number_users userId, imax number_items itemId))))"

definition movielens_line :: "string \<Rightarrow> ratings_state \<Rightarrow> ratings_state res" where
  "movielens_line line st =
     rbind (parse_rating (MAX_STR_SIZE - 1) line) (\<lambda>rating.
     add_rating (int_minus_1 (fst rating)) rating st)"

definition jester_line :: "string \<Rightarrow> ratings_state \<Rightarrow> ratings_state res" where
  "jester_line line st =
     (if length line < 3 then Inr st
      else rbind (parse_rating (MAX_STR_SIZE - 1) line) (\<lambda>rating. add_rating (Inr (fst rating)) rating st))"

text \<open>\<open>while (getline(fin, line))\<close> also takes a last line without a newline.\<close>

definition read_movielens_ratings :: "string option \<Rightarrow> (sparse_dataset \<times> i32 \<times> i32) res" where
  "read_movielens_ratings file =
     rbind (open_ratings file) (\<lambda>fin.
     rbind (rfold movielens_line (drop 1 (lines_of (is_buf fin))) (replicate MOVIELENS_USERS [], 0, 0))
       (\<lambda>(sparse_ds, number_users, number_movies).
     Inr (sd_of_samples sparse_ds, number_users, number_movies)))"

definition read_jester_ratings :: "string option \<Rightarrow> (sparse_dataset \<times> i32 \<times> i32) res" where
  "read_jester_ratings file =
     rbind (open_ratings file) (\<lambda>fin.
     rbind (rfold jester_line (lines_of (is_buf fin)) (replicate JESTER_DEFAULT [], 0, 0))
       (\<lambda>(sparse_ds, number_users, number_jokes).
     Inr (sd_of_samples sparse_ds, number_users, number_jokes)))"

section \<open>Standardisation\<close>

definition compute_mean :: "sample \<Rightarrow> f64" where
  "compute_mean user_ratings =
     f64_div (fold (\<lambda>r mean. f64_add mean (f64_of_f32 (snd r))) user_ratings 0) (f64_of_int (int (length user_ratings)))"

definition compute_stddev :: "f64 \<Rightarrow> sample \<Rightarrow> f64" where
  "compute_stddev mean user_ratings =
     (let d = \<lambda>r. f64_sub mean (f64_of_f32 (snd r))
      in f64_sqrt (f64_div (fold (\<lambda>r stddev. f64_add stddev (f64_mul (d r) (d r))) user_ratings 0)
                           (f64_of_int (int (length user_ratings)))))"

definition f64_badv :: "f64 \<Rightarrow> bool" where
  "f64_badv x \<longleftrightarrow> f64_isnan x \<or> f64_isinf x"

text \<open>A user whose ratings are all equal is dropped, so \<open>stddev\<close> is not zero behind the test.\<close>

definition standardize_row :: "sample \<Rightarrow> sample res" where
  "standardize_row sample =
     (if sample = [] then Inr []
      else let mean = compute_mean sample; stddev = compute_stddev mean sample
           in if f64_eq stddev 0 then Inr []
              else rbind (guard_rt (\<not> f64_badv mean) ''wrong mean'') (\<lambda>_.
                   rbind (guard_rt (\<not> f64_badv stddev) ''wrong stddev'') (\<lambda>_.
                   rmap (\<lambda>(i, v).
                     let v' = f32_of_f64 (f64_div (f64_sub (f64_of_f32 v) mean) stddev)
                     in rbind (guard_rt (\<not> f32_badv v') ''wrong rating'') (\<lambda>_. Inr (i, v'))) sample)))"

definition standardize_sparse_dataset :: "sample list \<Rightarrow> sample list res" where
  "standardize_sparse_dataset sparse_ds = rmap standardize_row sparse_ds"

section \<open>What the Netflix threads build\<close>

definition ratings_of :: "i32 \<Rightarrow> rating multiset \<Rightarrow> (i32 \<times> f32) multiset" where
  "ratings_of u K = image_mset (\<lambda>(u, m, r). (m - 1, r)) (filter_mset (\<lambda>x. fst x = u) K)"

lemma ratings_of_add: "ratings_of u (add_mset (w, m, r) K) = (if w = u then add_mset (m - 1, r) (ratings_of u K) else ratings_of u K)"
  by (simp add: ratings_of_def)

text \<open>The rows for the ratings \<open>K\<close>: the users \<open>us\<close>, in the order in which they were met.\<close>

definition rows_ok :: "rating multiset \<Rightarrow> i32 list \<Rightarrow> netflix \<Rightarrow> bool" where
  "rows_ok K us st \<longleftrightarrow> distinct us \<and> set us = fst ` set_mset K
     \<and> nf_user_index st = word_of_nat (length us) \<and> length us \<le> length (nf_sparse_ds st) \<and> length (nf_sparse_ds st) < 2 ^ 31
     \<and> (\<forall>k<length us. nf_userid_to_realid st (us ! k) = Some (word_of_nat k) \<and> mset (nf_sparse_ds st ! k) = ratings_of (us ! k) K)
     \<and> (\<forall>u. u \<notin> set us \<longrightarrow> nf_userid_to_realid st u = None)
     \<and> (\<forall>k. length us \<le> k \<and> k < length (nf_sparse_ds st) \<longrightarrow> nf_sparse_ds st ! k = [])"

lemma idx_small: "k < 2 ^ 31 \<Longrightarrow> idx (word_of_nat k) = k"
  using sint_small[of k] by (simp add: idx_nonneg)

lemma insert_rows:
  assumes ok: "rows_ok K us st" and ins: "insert_rating (u, m, r) st = Inr (k, st')"
  shows "\<exists>us'. rows_ok (add_mset (u, m, r) K) us' st' \<and> us' \<in> {us, us @ [u]} \<and> sint k < int (length us')
    \<and> 0 \<le> sint k \<and> (us' \<noteq> us \<longrightarrow> sint k = int (length us)) \<and> nf_threads st' = nf_threads st \<and> nf_fin st' = nf_fin st
    \<and> nf_number_movies st' = nf_number_movies st \<and> nf_number_users st' = nf_number_users st
    \<and> length (nf_sparse_ds st') = length (nf_sparse_ds st)"
proof (cases "u \<in> set us")
  case True
  then obtain j where j: "j < length us" "us ! j = u" by (auto simp: in_set_conv_nth)
  have len: "length us < 2 ^ 31" using ok by (simp add: rows_ok_def)
  have real: "nf_userid_to_realid st u = Some (word_of_nat j)" using ok j by (auto simp: rows_ok_def)
  have ij: "idx (word_of_nat j) = j" "sint (word_of_nat j :: i32) = int j" using idx_small[of j] sint_small[of j] j len by simp_all
  have r: "k = word_of_nat j" "st' = st\<lparr>nf_sparse_ds := (nf_sparse_ds st)[j := nf_sparse_ds st ! j @ [(m - 1, r)]]\<rparr>"
    using ins real ij(1) by (auto simp: insert_rating_def real_id_def int_minus_1_def split: if_splits)
  have other: "us ! i \<noteq> u" if "i < length us" "i \<noteq> j" for i
    using that j ok by (auto simp: rows_ok_def nth_eq_iff_index_eq)
  have "rows_ok (add_mset (u, m, r) K) us st'"
    using ok True j other unfolding rows_ok_def r(2)
    by (auto simp: nth_list_update ratings_of_add insert_absorb)
  then show ?thesis using r ij j by (intro exI[of _ us]) simp
next
  case False
  then have real: "nf_userid_to_realid st u = None" using ok by (simp add: rows_ok_def)
  define n where "n = length us"
  have ind: "nf_user_index st = word_of_nat n" "n \<le> length (nf_sparse_ds st)" "length (nf_sparse_ds st) < 2 ^ 31"
    using ok by (simp_all add: rows_ok_def n_def)
  have ij: "idx (word_of_nat n) = n" "sint (word_of_nat n :: i32) = int n" using idx_small[of n] sint_small[of n] ind by simp_all
  have r: "k = word_of_nat n" "n < length (nf_sparse_ds st)"
    "st' = st\<lparr>nf_userid_to_realid := (nf_userid_to_realid st)(u \<mapsto> word_of_nat n), nf_user_index := word_of_nat n + 1,
      nf_sparse_ds := (nf_sparse_ds st)[n := nf_sparse_ds st ! n @ [(m - 1, r)]]\<rparr>"
    using ins real ij(1) ind(1) by (auto simp: insert_rating_def real_id_def int_minus_1_def split: if_splits)
  have empty: "nf_sparse_ds st ! n = []" using ok r(2) by (simp add: rows_ok_def n_def)
  have "filter_mset (\<lambda>x. fst x = u) K = filter_mset (\<lambda>_. False) K"
    using False ok by (intro filter_mset_cong) (auto simp: rows_ok_def)
  then have none: "ratings_of u K = {#}" by (simp add: ratings_of_def)
  have old: "us ! i \<noteq> u" if "i < length us" for i using that False by auto
  have "rows_ok (add_mset (u, m, r) K) (us @ [u]) st'"
    unfolding rows_ok_def
  proof (intro conjI allI impI)
    fix i assume "i < length (us @ [u])"
    then have "i < length us \<or> i = n" by (auto simp: n_def)
    then show "nf_userid_to_realid st' ((us @ [u]) ! i) = Some (word_of_nat i)"
      "mset (nf_sparse_ds st' ! i) = ratings_of ((us @ [u]) ! i) (add_mset (u, m, r) K)"
      using ok old empty none r(2) by (auto simp: r(3) rows_ok_def nth_append ratings_of_add n_def)
  next
    fix i assume "length (us @ [u]) \<le> i \<and> i < length (nf_sparse_ds st')"
    then show "nf_sparse_ds st' ! i = []" using ok by (auto simp: r(3) rows_ok_def n_def)
  qed (use ok False r(2) in \<open>auto simp: r(3) rows_ok_def n_def\<close>)
  then show ?thesis using r ij by (intro exI[of _ "us @ [u]"]) (simp add: n_def)
qed

text \<open>
  A maximum that the threads compute in parts: the values \<open>V\<close> met so far are covered by the
  shared maximum and the local ones of the threads that have not ended.
\<close>

definition max_ok :: "int set \<Rightarrow> i32 \<Rightarrow> (bool \<times> i32) list \<Rightarrow> bool" where
  "max_ok V g ts \<longleftrightarrow> 0 \<le> sint g \<and> sint g \<in> insert 0 V \<and> (\<forall>j<length ts. sint (snd (ts ! j)) \<in> insert 0 V)
     \<and> (\<forall>v\<in>V. v \<le> sint g \<or> (\<exists>j<length ts. \<not> fst (ts ! j) \<and> v \<le> sint (snd (ts ! j))))"

lemma max_ok_start: "max_ok {} 0 (replicate n (False, 0))"
  by (simp add: max_ok_def)

lemma sint_imax: "sint (imax a b) = max (sint a) (sint b)"
  by (simp add: imax_def)

lemma max_ok_cover:
  assumes "max_ok V g ts" "v \<in> V" "\<not> v \<le> sint g"
  obtains j where "j < length ts" "\<not> fst (ts ! j)" "v \<le> sint (snd (ts ! j))"
  using assms unfolding max_ok_def by auto

lemma max_ok_insert:
  assumes ok: "max_ok V g ts" and i: "i < length ts" "ts ! i = (False, a)"
  shows "max_ok (insert (sint b) V) g (ts[i := (False, imax a b)])"
proof -
  have a: "sint a \<in> insert 0 V" using ok i unfolding max_ok_def by (metis snd_conv)
  have "v \<le> sint g \<or> (\<exists>j<length ts. \<not> fst (ts[i := (False, imax a b)] ! j) \<and> v \<le> sint (snd (ts[i := (False, imax a b)] ! j)))"
    if v: "v \<in> insert (sint b) V" for v
  proof (cases "v = sint b \<or> v \<le> sint g")
    case True
    then show ?thesis using i by (auto simp: sint_imax intro!: exI[of _ i])
  next
    case False
    then obtain j where j: "j < length ts" "\<not> fst (ts ! j)" "v \<le> sint (snd (ts ! j))" using max_ok_cover[OF ok, of v] v by auto
    then have "\<not> fst (ts[i := (False, imax a b)] ! j) \<and> v \<le> sint (snd (ts[i := (False, imax a b)] ! j))"
      using i by (cases "j = i") (simp_all add: sint_imax)
    then show ?thesis using j(1) by blast
  qed
  moreover have "\<forall>j<length ts. sint (snd (ts[i := (False, imax a b)] ! j)) \<in> insert 0 (insert (sint b) V)"
    using ok a i by (auto simp: max_ok_def nth_list_update imax_def)
  moreover have "0 \<le> sint g" "sint g \<in> insert 0 (insert (sint b) V)" using ok by (auto simp: max_ok_def)
  ultimately show ?thesis unfolding max_ok_def by simp
qed

lemma max_ok_finish:
  assumes ok: "max_ok V g ts" and i: "i < length ts" "ts ! i = (False, a)"
  shows "max_ok V (imax g a) (ts[i := (True, a)])"
proof -
  have a: "sint a \<in> insert 0 V" using ok i unfolding max_ok_def by (metis snd_conv)
  have "v \<le> sint (imax g a) \<or> (\<exists>j<length ts. \<not> fst (ts[i := (True, a)] ! j) \<and> v \<le> sint (snd (ts[i := (True, a)] ! j)))"
    if v: "v \<in> V" for v
  proof (cases "v \<le> sint g")
    case False
    then obtain j where j: "j < length ts" "\<not> fst (ts ! j)" "v \<le> sint (snd (ts ! j))" using max_ok_cover[OF ok v] by auto
    show ?thesis
    proof (cases "j = i")
      case True
      then have "v \<le> sint a" using j i by simp
      then show ?thesis by (simp add: sint_imax max.coboundedI2)
    next
      case False
      then show ?thesis using j by auto
    qed
  qed (simp add: sint_imax max.coboundedI1)
  moreover have "\<forall>j<length ts. sint (snd (ts[i := (True, a)] ! j)) \<in> insert 0 V"
  proof (intro allI impI)
    fix j assume "j < length ts"
    then show "sint (snd (ts[i := (True, a)] ! j)) \<in> insert 0 V" using ok a i(1) by (cases "j = i") (simp_all add: max_ok_def)
  qed
  ultimately show ?thesis using ok a unfolding max_ok_def by (simp add: sint_imax max_def)
qed

lemma max_ok_end:
  assumes "max_ok V g ts" "\<forall>t\<in>set ts. fst t" "finite V"
  shows "sint g = Max (insert 0 V)"
  using assms unfolding max_ok_def by (intro Max_eqI[symmetric]) auto

definition rating_value :: "string \<Rightarrow> rating" where
  "rating_value l = (case parse_rating MAX_STR_SIZE l of Inr x \<Rightarrow> x | Inl _ \<Rightarrow> (0, 0, 0))"

definition nt_held :: "netflix_thread \<Rightarrow> string multiset" where
  "nt_held t = (if nt_pc t = N_insert then {#nt_line t#} else {#})"

definition nf_held :: "netflix \<Rightarrow> string multiset" where
  "nf_held st = sum_list (map nt_held (nf_threads st))"

definition local_movies :: "netflix \<Rightarrow> (bool \<times> i32) list" where
  "local_movies st = map (\<lambda>t. (nt_pc t = N_ended, nt_nummovies_local t)) (nf_threads st)"

definition local_users :: "netflix \<Rightarrow> (bool \<times> i32) list" where
  "local_users st = map (\<lambda>t. (nt_pc t = N_ended, nt_numusers_local t)) (nf_threads st)"

definition movies_of :: "rating multiset \<Rightarrow> int set" where
  "movies_of K = (\<lambda>x. sint (fst (snd x))) ` set_mset K"

definition netflix_acc :: "string list \<Rightarrow> nat \<Rightarrow> nat \<Rightarrow> string multiset \<Rightarrow> i32 list \<Rightarrow> netflix \<Rightarrow> bool" where
  "netflix_acc ls rows n K us st \<longleftrightarrow>
     mset ls = K + nf_held st + mset (lines_left (nf_fin st))
   \<and> rows_ok (image_mset rating_value K) us st \<and> length (nf_sparse_ds st) = rows \<and> length (nf_threads st) = n
   \<and> max_ok (movies_of (image_mset rating_value K)) (nf_number_movies st) (local_movies st)
   \<and> max_ok (int ` {0..<length us}) (nf_number_users st) (local_users st)
   \<and> list_all (\<lambda>t. nt_pc t = N_finish \<or> nt_pc t = N_ended \<longrightarrow> is_eof (nf_fin st)) (nf_threads st)
   \<and> (is_fail (nf_fin st) \<longrightarrow> is_eof (nf_fin st))"

lemma nf_sums:
  assumes "i < length (nf_threads st)"
  shows "nf_held (nf_set_thread i t st) + nt_held (nf_threads st ! i) = nf_held st + nt_held t"
    "local_movies (nf_set_thread i t st) = (local_movies st)[i := (nt_pc t = N_ended, nt_nummovies_local t)]"
    "local_users (nf_set_thread i t st) = (local_users st)[i := (nt_pc t = N_ended, nt_numusers_local t)]"
    "i < length (local_movies st)" "i < length (local_users st)"
    "local_movies st ! i = (nt_pc (nf_threads st ! i) = N_ended, nt_nummovies_local (nf_threads st ! i))"
    "local_users st ! i = (nt_pc (nf_threads st ! i) = N_ended, nt_numusers_local (nf_threads st ! i))"
  using sum_list_upd[OF assms, of nt_held t] assms
  by (simp_all add: nf_held_def nf_set_thread_def local_movies_def local_users_def map_update)

lemma nf_set_fields [simp]:
  "nf_fin (nf_set_thread i t st) = nf_fin st" "nf_sparse_ds (nf_set_thread i t st) = nf_sparse_ds st"
  "nf_number_movies (nf_set_thread i t st) = nf_number_movies st" "nf_number_users (nf_set_thread i t st) = nf_number_users st"
  "nf_userid_to_realid (nf_set_thread i t st) = nf_userid_to_realid st" "nf_user_index (nf_set_thread i t st) = nf_user_index st"
  "nf_threads (nf_set_thread i t st) = (nf_threads st)[i := t]"
  by (simp_all add: nf_set_thread_def)

lemma rows_ok_cong:
  "nf_user_index st' = nf_user_index st \<Longrightarrow> nf_sparse_ds st' = nf_sparse_ds st \<Longrightarrow> nf_userid_to_realid st' = nf_userid_to_realid st \<Longrightarrow>
   rows_ok K us st' = rows_ok K us st"
  by (simp add: rows_ok_def)

lemma list_all_upd: "(\<And>x. x \<in> set xs \<Longrightarrow> P x) \<Longrightarrow> P y \<Longrightarrow> list_all P (xs[i := y])"
  using set_update_subset_insert[of xs i y] by (auto simp: list_all_iff)

lemma netflix_eof:
  "netflix_acc ls rows n K us st \<Longrightarrow> u \<in> set (nf_threads st) \<Longrightarrow> nt_pc u = N_finish \<or> nt_pc u = N_ended \<Longrightarrow> is_eof (nf_fin st)"
  by (auto simp: netflix_acc_def list_all_iff)

lemma netflix_read:
  assumes acc: "netflix_acc ls rows n K us st" and i: "i < length (nf_threads st)" and pc: "nt_pc (nf_threads st ! i) = N_read"
    and g: "get_line (nt_line (nf_threads st ! i)) (nf_fin st) = (line, fin)"
    and t: "t = (nf_threads st ! i)\<lparr>nt_pc := if is_eof fin then N_finish else N_insert, nt_line := line\<rparr>"
  shows "netflix_acc ls rows n K us (nf_set_thread i t (st\<lparr>nf_fin := fin\<rparr>))"
proof -
  define st1 where "st1 = st\<lparr>nf_fin := fin\<rparr>"
  have st1: "nf_held st1 = nf_held st" "local_movies st1 = local_movies st" "local_users st1 = local_users st"
    "nf_threads st1 = nf_threads st" "nf_fin st1 = fin" "nf_sparse_ds st1 = nf_sparse_ds st"
    "nf_number_movies st1 = nf_number_movies st" "nf_number_users st1 = nf_number_users st"
    by (simp_all add: st1_def nf_held_def local_movies_def local_users_def)
  have i1: "i < length (nf_threads st1)" using i by (simp add: st1)
  note sums = nf_sums(1-3)[OF i1, of t, unfolded st1] nf_sums(4-7)[OF i1, unfolded st1]
  have fail: "is_fail (nf_fin st) \<longrightarrow> is_eof (nf_fin st)" using acc by (simp add: netflix_acc_def)
  note left = get_line_left[OF g fail]
  have held: "nf_held (nf_set_thread i t st1) = nf_held st + (if is_eof fin then {#} else {#line#})"
    using sums(1) pc by (simp add: t nt_held_def)
  have movies: "local_movies (nf_set_thread i t st1) = local_movies st"
    unfolding sums(2) using sums(6) pc by (simp add: t) (metis list_update_id)
  have users: "local_users (nf_set_thread i t st1) = local_users st"
    unfolding sums(3) using sums(7) pc by (simp add: t) (metis list_update_id)
  have "mset ls = K + nf_held (nf_set_thread i t st1) + mset (lines_left fin)"
    using acc left(3,4) by (cases "is_eof fin") (simp_all add: netflix_acc_def held)
  moreover have "rows_ok (image_mset rating_value K) us (nf_set_thread i t st1)"
    using acc by (subst rows_ok_cong[of _ st]) (simp_all add: netflix_acc_def st1_def)
  moreover have "list_all (\<lambda>t. nt_pc t = N_finish \<or> nt_pc t = N_ended \<longrightarrow> is_eof fin) ((nf_threads st)[i := t])"
    using netflix_eof[OF acc] left(2) by (intro list_all_upd) (auto simp: t)
  ultimately show ?thesis using acc left(1) unfolding netflix_acc_def movies users st1_def[symmetric] by (simp add: st1)
qed

lemma netflix_insert:
  assumes acc: "netflix_acc ls rows n K us st" and i: "i < length (nf_threads st)" and pc: "nt_pc (nf_threads st ! i) = N_insert"
    and p: "parse_rating MAX_STR_SIZE (nt_line (nf_threads st ! i)) = Inr x" and ins: "insert_rating x st = Inr (k, st1)"
    and t: "t = (nf_threads st ! i)\<lparr>nt_pc := N_read, nt_numusers_local := imax (nt_numusers_local (nf_threads st ! i)) k,
        nt_nummovies_local := imax (nt_nummovies_local (nf_threads st ! i)) (fst (snd x))\<rparr>"
  shows "\<exists>us'. netflix_acc ls rows n (add_mset (nt_line (nf_threads st ! i)) K) us' (nf_set_thread i t st1)"
proof -
  obtain u m r where x: "x = (u, m, r)" by (cases x)
  define l where "l = nt_line (nf_threads st ! i)"
  have v: "rating_value l = (u, m, r)" using p by (simp add: rating_value_def l_def x)
  have rows: "rows_ok (image_mset rating_value K) us st" using acc by (simp add: netflix_acc_def)
  obtain us' where us': "rows_ok (add_mset (u, m, r) (image_mset rating_value K)) us' st1" "us' \<in> {us, us @ [u]}"
    "sint k < int (length us')" "0 \<le> sint k" "us' \<noteq> us \<longrightarrow> sint k = int (length us)"
    and same: "nf_threads st1 = nf_threads st" "nf_fin st1 = nf_fin st" "nf_number_movies st1 = nf_number_movies st"
      "nf_number_users st1 = nf_number_users st" "length (nf_sparse_ds st1) = length (nf_sparse_ds st)"
    using insert_rows[OF rows ins[unfolded x]] by blast
  have st1: "nf_held st1 = nf_held st" "local_movies st1 = local_movies st" "local_users st1 = local_users st"
    using same by (simp_all add: nf_held_def local_movies_def local_users_def)
  have i1: "i < length (nf_threads st1)" using i same by simp
  note sums = nf_sums(1-3)[OF i1, of t, unfolded st1 same] nf_sums(4-7)[OF i1, unfolded st1 same]
  have held: "add_mset l (nf_held (nf_set_thread i t st1)) = nf_held st" using sums(1) pc by (simp add: t nt_held_def l_def)
  have movies: "max_ok (insert (sint m) (movies_of (image_mset rating_value K))) (nf_number_movies st) (local_movies (nf_set_thread i t st1))"
    unfolding sums(2) using acc sums(4,6) pc by (simp add: t x) (intro max_ok_insert, simp_all add: netflix_acc_def)
  have "max_ok (insert (sint k) (int ` {0..<length us})) (nf_number_users st) (local_users (nf_set_thread i t st1))"
    unfolding sums(3) using acc sums(5,7) pc by (simp add: t) (intro max_ok_insert, simp_all add: netflix_acc_def)
  moreover have "insert (sint k) (int ` {0..<length us}) = int ` {0..<length us'}"
  proof (cases "us' = us")
    case True
    then have "sint k = int (nat (sint k))" "nat (sint k) < length us" using us'(3,4) by auto
    then show ?thesis using True by (metis atLeast0LessThan image_eqI insert_absorb lessThan_iff)
  next
    case False
    then show ?thesis using us'(2,5) by (auto simp: atLeast0_lessThan_Suc)
  qed
  ultimately have users: "max_ok (int ` {0..<length us'}) (nf_number_users st) (local_users (nf_set_thread i t st1))" by simp
  have "mset ls = add_mset l K + nf_held (nf_set_thread i t st1) + mset (lines_left (nf_fin st))"
    using acc held[symmetric] by (simp add: netflix_acc_def)
  moreover have "rows_ok (image_mset rating_value (add_mset l K)) us' (nf_set_thread i t st1)"
    using us'(1) by (subst rows_ok_cong[of _ st1]) (simp_all add: v)
  moreover have "list_all (\<lambda>t. nt_pc t = N_finish \<or> nt_pc t = N_ended \<longrightarrow> is_eof (nf_fin st)) ((nf_threads st)[i := t])"
    using netflix_eof[OF acc] by (intro list_all_upd) (auto simp: t)
  moreover have "movies_of (image_mset rating_value (add_mset l K)) = insert (sint m) (movies_of (image_mset rating_value K))"
    by (simp add: movies_of_def v)
  ultimately have "netflix_acc ls rows n (add_mset l K) us' (nf_set_thread i t st1)"
    using acc movies users unfolding netflix_acc_def by (simp add: same)
  then show ?thesis unfolding l_def by blast
qed

lemma netflix_finish:
  assumes acc: "netflix_acc ls rows n K us st" and i: "i < length (nf_threads st)" and pc: "nt_pc (nf_threads st ! i) = N_finish"
    and st1: "st1 = st\<lparr>nf_number_users := imax (nf_number_users st) (nt_numusers_local (nf_threads st ! i)),
        nf_number_movies := imax (nf_number_movies st) (nt_nummovies_local (nf_threads st ! i))\<rparr>"
    and t: "t = (nf_threads st ! i)\<lparr>nt_pc := N_ended\<rparr>"
  shows "netflix_acc ls rows n K us (nf_set_thread i t st1)"
proof -
  have same: "nf_held st1 = nf_held st" "local_movies st1 = local_movies st" "local_users st1 = local_users st"
    "nf_threads st1 = nf_threads st" "nf_fin st1 = nf_fin st" "nf_sparse_ds st1 = nf_sparse_ds st"
    by (simp_all add: st1 nf_held_def local_movies_def local_users_def)
  have i1: "i < length (nf_threads st1)" using i same by simp
  note sums = nf_sums(1-3)[OF i1, of t, unfolded same] nf_sums(4-7)[OF i1, unfolded same]
  have held: "nf_held (nf_set_thread i t st1) = nf_held st" using sums(1) pc by (simp add: t nt_held_def)
  have movies: "max_ok (movies_of (image_mset rating_value K)) (nf_number_movies st1) (local_movies (nf_set_thread i t st1))"
    unfolding sums(2) using acc sums(4,6) pc by (simp add: t st1) (intro max_ok_finish, simp_all add: netflix_acc_def)
  have users: "max_ok (int ` {0..<length us}) (nf_number_users st1) (local_users (nf_set_thread i t st1))"
    unfolding sums(3) using acc sums(5,7) pc by (simp add: t st1) (intro max_ok_finish, simp_all add: netflix_acc_def)
  have "rows_ok (image_mset rating_value K) us (nf_set_thread i t st1)"
    using acc by (subst rows_ok_cong[of _ st]) (simp_all add: netflix_acc_def st1)
  moreover have "list_all (\<lambda>t. nt_pc t = N_finish \<or> nt_pc t = N_ended \<longrightarrow> is_eof (nf_fin st)) ((nf_threads st)[i := t])"
  proof -
    have "is_eof (nf_fin st)" using acc pc i by (simp add: netflix_acc_def list_all_length)
    then show ?thesis by (simp add: list_all_iff)
  qed
  ultimately show ?thesis using acc movies users unfolding netflix_acc_def held by (simp add: same)
qed

section \<open>The Netflix reader ends\<close>

definition ratings_fit :: "nat \<Rightarrow> string list \<Rightarrow> bool" where
  "ratings_fit rows ls \<longleftrightarrow> rows < 2 ^ 31 \<and> card (fst ` rating_value ` set ls) \<le> rows
     \<and> (\<forall>l\<in>set ls. \<exists>u m r. parse_rating MAX_STR_SIZE l = Inr (u, m, r) \<and> 0 < sint m \<and> \<not> f32_badv r)"

definition nt_weight :: "netflix_thread \<Rightarrow> nat" where
  "nt_weight t = (case nt_pc t of N_read \<Rightarrow> 2 | N_insert \<Rightarrow> 3 | N_finish \<Rightarrow> 1 | N_ended \<Rightarrow> 0)"

definition nf_work :: "netflix \<Rightarrow> nat" where
  "nf_work st = 2 * left_size (nf_fin st) + sum_list (map nt_weight (nf_threads st))"

lemma nf_set_work:
  assumes "i < length (nf_threads st)"
  shows "nf_work (nf_set_thread i t st) + nt_weight (nf_threads st ! i) = nf_work st + nt_weight t"
  using sum_list_upd[OF assms, of nt_weight t] by (simp add: nf_work_def nf_set_thread_def)

lemma netflix_held_line:
  assumes "netflix_acc ls rows n K us st" "i < length (nf_threads st)" "nt_pc (nf_threads st ! i) = N_insert"
  shows "nt_line (nf_threads st ! i) \<in> set ls" "set_mset K \<subseteq> set ls"
proof -
  have "nt_held (nf_threads st ! i) \<subseteq># nf_held st" unfolding nf_held_def using assms(2) by (intro member_le_sum_list) simp
  then have "nt_line (nf_threads st ! i) \<in># nf_held st" using assms(3) by (simp add: nt_held_def)
  moreover have "set ls = set_mset (K + nf_held st + mset (lines_left (nf_fin st)))"
    using assms(1) by (metis netflix_acc_def set_mset_mset)
  ultimately show "nt_line (nf_threads st ! i) \<in> set ls" "set_mset K \<subseteq> set ls" by auto
qed

lemma insert_total:
  assumes acc: "netflix_acc ls rows n K us st" and fit: "ratings_fit rows ls" and l: "l \<in> set ls" and K: "set_mset K \<subseteq> set ls"
    and x: "parse_rating MAX_STR_SIZE l = Inr x"
  shows "\<exists>y. insert_rating x st = Inr y"
proof -
  obtain u m r where umr: "x = (u, m, r)" "0 < sint m" using fit l x by (fastforce simp: ratings_fit_def)
  have rows: "rows_ok (image_mset rating_value K) us st" "length (nf_sparse_ds st) = rows" using acc by (simp_all add: netflix_acc_def)
  have sub: "set us \<subseteq> fst ` rating_value ` set ls" using rows(1) K by (auto simp: rows_ok_def)
  have u: "u \<in> fst ` rating_value ` set ls" using l x umr(1) by (force simp: rating_value_def)
  have "idx (fst (real_id u st)) < rows"
  proof (cases "u \<in> set us")
    case True
    then obtain j where "j < length us" "us ! j = u" by (auto simp: in_set_conv_nth)
    then show ?thesis using rows idx_small[of j] by (auto simp: rows_ok_def real_id_def)
  next
    case False
    then have "card (insert u (set us)) \<le> card (fst ` rating_value ` set ls)" using sub u by (intro card_mono) auto
    moreover have "distinct us" using rows(1) by (simp add: rows_ok_def)
    then have "card (insert u (set us)) = Suc (length us)" using False by (simp add: distinct_card)
    moreover have "card (fst ` rating_value ` set ls) \<le> rows" using fit by (simp add: ratings_fit_def)
    ultimately have "length us < rows" by linarith
    then show ?thesis using rows False idx_small[of "length us"] by (simp add: rows_ok_def real_id_def)
  qed
  moreover have "nf_sparse_ds (snd (real_id u st)) = nf_sparse_ds st" by (simp add: real_id_def split: option.split)
  ultimately show ?thesis using umr rows(2) by (auto simp: insert_rating_def int_minus_1_def vec_at_def split: prod.split)
qed

definition netflix_inv :: "nat \<Rightarrow> string list \<Rightarrow> nat \<Rightarrow> netflix \<Rightarrow> bool" where
  "netflix_inv rows ls n st \<longleftrightarrow> ratings_fit rows ls \<and> (\<exists>K us. netflix_acc ls rows n K us st)"

lemma netflix_step:
  assumes inv: "netflix_inv rows ls n st"
  shows "\<exists>st'. read_netflix_input_thread i st = Inr st' \<and> netflix_inv rows ls n st'
    \<and> (nf_work st' < nf_work st \<or> (st' = st \<and> (i < n \<longrightarrow> nt_pc (nf_threads st ! i) = N_ended)))"
proof -
  obtain K us where acc: "netflix_acc ls rows n K us st" and fit: "ratings_fit rows ls" using inv by (auto simp: netflix_inv_def)
  have n: "length (nf_threads st) = n" using acc by (simp add: netflix_acc_def)
  show ?thesis
  proof (cases "i < n")
    case True
    then have i: "i < length (nf_threads st)" by (simp add: n)
    define t where "t = nf_threads st ! i"
    show ?thesis
    proof (cases "nt_pc t")
      case N_read
      obtain line fin where g: "get_line (nt_line t) (nf_fin st) = (line, fin)" by fastforce
      define t' where "t' = t\<lparr>nt_pc := if is_eof fin then N_finish else N_insert, nt_line := line\<rparr>"
      define st1 where "st1 = st\<lparr>nf_fin := fin\<rparr>"
      have fail: "is_fail (nf_fin st) \<longrightarrow> is_eof (nf_fin st)" using acc by (simp add: netflix_acc_def)
      have eof: "is_eof (nf_fin st) \<Longrightarrow> is_eof fin \<and> left_size fin = 0 \<and> left_size (nf_fin st) = 0"
        using get_line_left(2)[OF g fail] by (simp add: left_size_def)
      have "nf_work (nf_set_thread i t' st1) + 2 = nf_work st1 + (if is_eof fin then 1 else 3)"
        using nf_set_work[of i st1 t'] i N_read by (simp add: st1_def t'_def nt_weight_def t_def)
      moreover have "nf_work st1 + 2 * left_size (nf_fin st) = nf_work st + 2 * left_size fin" by (simp add: nf_work_def st1_def)
      ultimately have "nf_work (nf_set_thread i t' st1) < nf_work st"
        using get_line_size[OF g] fail eof by (cases "is_eof fin"; cases "is_eof (nf_fin st)") auto
      moreover have "read_netflix_input_thread i st = Inr (nf_set_thread i t' st1)"
        using i N_read g by (simp add: read_netflix_input_thread_def t_def[symmetric] t'_def st1_def)
      moreover have "netflix_acc ls rows n K us (nf_set_thread i t' st1)"
        using netflix_read[OF acc i _ g[unfolded t_def]] N_read by (simp add: t'_def st1_def t_def)
      ultimately show ?thesis using fit by (auto simp: netflix_inv_def)
    next
      case N_insert
      note line = netflix_held_line[OF acc i N_insert[unfolded t_def]]
      obtain x where x: "parse_rating MAX_STR_SIZE (nt_line t) = Inr x" using fit line(1) by (auto simp: ratings_fit_def t_def)
      obtain k st1 where ins: "insert_rating x st = Inr (k, st1)"
        using insert_total[OF acc fit line(1) line(2) x[unfolded t_def]] by (metis surj_pair)
      define t' where "t' = t\<lparr>nt_pc := N_read, nt_numusers_local := imax (nt_numusers_local t) k,
        nt_nummovies_local := imax (nt_nummovies_local t) (fst (snd x))\<rparr>"
      have "\<exists>us'. netflix_acc ls rows n (add_mset (nt_line t) K) us' (nf_set_thread i t' st1)"
        using netflix_insert[OF acc i N_insert[unfolded t_def] x[unfolded t_def] ins] by (simp add: t'_def t_def)
      moreover have "read_netflix_input_thread i st = Inr (nf_set_thread i t' st1)"
        using i N_insert x ins by (simp add: read_netflix_input_thread_def t_def[symmetric] t'_def)
      moreover have "rows_ok (image_mset rating_value K) us st" using acc by (simp add: netflix_acc_def)
      then have "nf_threads st1 = nf_threads st" "nf_fin st1 = nf_fin st"
        using insert_rows[of "image_mset rating_value K" us st "fst x" "fst (snd x)" "snd (snd x)" k st1] ins by auto
      then have "nf_work (nf_set_thread i t' st1) < nf_work st"
        using nf_set_work[of i st1 t'] i N_insert by (simp add: t'_def nt_weight_def nf_work_def t_def)
      ultimately show ?thesis using fit by (auto simp: netflix_inv_def)
    next
      case N_finish
      define st1 where "st1 = st\<lparr>nf_number_users := imax (nf_number_users st) (nt_numusers_local t),
        nf_number_movies := imax (nf_number_movies st) (nt_nummovies_local t)\<rparr>"
      define t' where "t' = t\<lparr>nt_pc := N_ended\<rparr>"
      have "netflix_acc ls rows n K us (nf_set_thread i t' st1)"
        using netflix_finish[OF acc i N_finish[unfolded t_def]] by (simp add: t'_def st1_def t_def)
      moreover have "read_netflix_input_thread i st = Inr (nf_set_thread i t' st1)"
        using i N_finish by (simp add: read_netflix_input_thread_def t_def[symmetric] t'_def st1_def)
      moreover have "nf_work (nf_set_thread i t' st1) < nf_work st"
        using nf_set_work[of i st1 t'] i N_finish by (simp add: t'_def st1_def nt_weight_def nf_work_def t_def)
      ultimately show ?thesis using fit by (auto simp: netflix_inv_def)
    next
      case N_ended
      then show ?thesis using inv i by (simp add: read_netflix_input_thread_def t_def)
    qed
  next
    case False
    then show ?thesis using inv n by (simp add: read_netflix_input_thread_def)
  qed
qed

interpretation nf: threads read_netflix_input_thread "netflix_inv rows ls n" nf_work "\<lambda>i st. nt_pc (nf_threads st ! i) = N_ended" n
  for rows ls n
proof
  fix st i st' assume inv: "netflix_inv rows ls n st"
  have n: "length (nf_threads st) = n" using inv by (auto simp: netflix_inv_def netflix_acc_def)
  show "\<exists>st'. read_netflix_input_thread i st = Inr st'" using netflix_step[OF inv] by blast
  show "\<forall>i<n. nt_pc (nf_threads st ! i) = N_ended \<Longrightarrow> read_netflix_input_thread i st = Inr st"
    using n by (auto simp: read_netflix_input_thread_def)
  assume "read_netflix_input_thread i st = Inr st'"
  then show "netflix_inv rows ls n st'" "nf_work st' < nf_work st \<or> (st' = st \<and> (i < n \<longrightarrow> nt_pc (nf_threads st ! i) = N_ended))"
    using netflix_step[OF inv, of i] by auto
qed

lemma netflix_start_inv:
  assumes "ratings_fit rows (lines_left (istream_of s))"
  shows "netflix_inv rows (lines_left (istream_of s)) n (netflix_start (istream_of s) rows n)"
proof -
  define st where "st = netflix_start (istream_of s) rows n"
  have f: "nf_fin st = istream_of s" "nf_sparse_ds st = replicate rows []" "nf_userid_to_realid st = Map.empty" "nf_user_index st = 0"
    "nf_number_movies st = 0" "nf_number_users st = 0" by (simp_all add: st_def netflix_start_def)
  have "sum_list (replicate n {#}) = {#}" by (induction n) simp_all
  then have "nf_held st = {#}" by (simp add: nf_held_def st_def netflix_start_def nt_held_def)
  moreover have "local_movies st = replicate n (False, 0)" "local_users st = replicate n (False, 0)"
    by (simp_all add: local_movies_def local_users_def st_def netflix_start_def)
  moreover have "rows_ok {#} [] st" using assms by (simp add: rows_ok_def f ratings_fit_def)
  moreover have "list_all (\<lambda>t. nt_pc t = N_finish \<or> nt_pc t = N_ended \<longrightarrow> is_eof (nf_fin st)) (nf_threads st)"
    "length (nf_threads st) = n" by (simp_all add: st_def netflix_start_def list_all_iff)
  ultimately have "netflix_acc (lines_left (istream_of s)) rows n {#} [] st"
    using max_ok_start[of n] by (simp add: netflix_acc_def f movies_of_def) (simp add: istream_of_def)
  then show ?thesis using assms unfolding netflix_inv_def st_def by blast
qed

lemma netflix_start_work: "nf_work (netflix_start (istream_of s) rows n) \<le> 2 * (length s + 1) + 2 * n"
proof -
  have "sum_list (replicate n (2 :: nat)) = 2 * n" by (simp add: sum_list_replicate)
  then show ?thesis by (simp add: nf_work_def netflix_start_def left_size_def istream_of_def nt_weight_def)
qed

lemma sint_pred: "0 < sint (m :: i32) \<Longrightarrow> 0 \<le> sint (m - 1)"
proof -
  assume pos: "0 < sint m"
  define k where "k = nat (sint m) - 1"
  have k: "sint m = int (Suc k)" "Suc k < 2 ^ 31" using pos sint_lt[of m] by (simp_all add: k_def)
  have "m = word_of_int (sint m)" by (rule sym) simp
  then have "m = word_of_nat (Suc k)" by (simp only: k(1) of_int_of_nat_eq)
  then show ?thesis using sint_small[of k] k(2) by simp
qed

lemma rows_entries:
  assumes "rows_ok K us st" "row \<in> set (nf_sparse_ds st)" "v \<in> set row"
  shows "\<exists>x\<in>#K. v = (fst (snd x) - 1, snd (snd x))"
proof -
  obtain k where k: "k < length (nf_sparse_ds st)" "nf_sparse_ds st ! k = row" using assms(2) by (auto simp: in_set_conv_nth)
  have "k < length us" using assms(1,3) k by (force simp: rows_ok_def not_less)
  then have "mset row = ratings_of (us ! k) K" using assms(1) k(2) by (auto simp: rows_ok_def)
  then have "v \<in># ratings_of (us ! k) K" using assms(3) by (metis set_mset_mset)
  then show ?thesis by (force simp: ratings_of_def)
qed

lemma fit_check:
  assumes acc: "netflix_acc ls rows n K us st" and fit: "ratings_fit rows ls" and K: "set_mset K \<subseteq> set ls"
  shows "sd_check (sd_of_samples (nf_sparse_ds st)) = Inr ()"
proof -
  have "\<not> sint (fst v) < 0 \<and> \<not> f32_badv (snd v)" if mem: "row \<in> set (nf_sparse_ds st)" "v \<in> set row" for row v
  proof -
    have "rows_ok (image_mset rating_value K) us st" using acc by (simp add: netflix_acc_def)
    from rows_entries[OF this mem] obtain l where l: "l \<in># K" "v = (fst (snd (rating_value l)) - 1, snd (snd (rating_value l)))" by auto
    then obtain u m r where "parse_rating MAX_STR_SIZE l = Inr (u, m, r)" "0 < sint m" "\<not> f32_badv r"
      using fit K by (fastforce simp: ratings_fit_def)
    then show ?thesis using l(2) sint_pred by (force simp: rating_value_def)
  qed
  then show ?thesis by (simp add: sd_check_def sd_of_samples_def)
qed

lemma netflix_file_ok:
  assumes "ratings_fit NETFLIX_USERS (lines_left (istream_of s))" "2 * (length s + 1) + 16 < rounds"
    and "ratings = map rating_value (lines_left (istream_of s))"
  shows "\<exists>us ds number_movies number_users.
    read_netflix_ratings (Some s) (sched @ concat (replicate rounds [0..<8])) = Inr (ds, number_movies, number_users)
    \<and> distinct us \<and> set us = fst ` set ratings \<and> length us \<le> NETFLIX_USERS \<and> length (sd_data ds) = NETFLIX_USERS
    \<and> (\<forall>k<length us. mset (sd_data ds ! k) = ratings_of (us ! k) (mset ratings))
    \<and> (\<forall>k. length us \<le> k \<and> k < length (sd_data ds) \<longrightarrow> sd_data ds ! k = [])
    \<and> sint number_movies = Max (insert 0 (movies_of (mset ratings)))
    \<and> sint number_users = max 0 (int (length us) - 1)"
proof -
  define ls where "ls = lines_left (istream_of s)"
  have work: "nf_work (netflix_start (istream_of s) NETFLIX_USERS 8) < rounds" using netflix_start_work[of s NETFLIX_USERS 8] assms(2) by simp
  from nf.all_end[OF netflix_start_inv[OF assms(1)] work, of sched] obtain st where
    run: "rfold read_netflix_input_thread (sched @ concat (replicate rounds [0..<8])) (netflix_start (istream_of s) NETFLIX_USERS 8) = Inr st"
    and inv: "netflix_inv NETFLIX_USERS ls 8 st" and ended: "\<forall>i<8. nt_pc (nf_threads st ! i) = N_ended"
    by (auto simp: ls_def)
  obtain K us where acc: "netflix_acc ls NETFLIX_USERS 8 K us st" and fit: "ratings_fit NETFLIX_USERS ls"
    using inv by (auto simp: netflix_inv_def)
  have len: "length (nf_threads st) = 8" "length (nf_sparse_ds st) = NETFLIX_USERS" using acc by (simp_all add: netflix_acc_def)
  have all: "nf_all_ended st" using ended len by (auto simp: nf_all_ended_def in_set_conv_nth)
  have "is_eof (nf_fin st)" using netflix_eof[OF acc, of "nf_threads st ! 0"] ended len by simp
  then have left: "lines_left (nf_fin st) = []" by (simp add: lines_left_def)
  have "sum_list (map nt_held ts) = {#}" if "\<forall>t\<in>set ts. nt_pc t = N_ended" for ts
    using that by (induction ts) (simp_all add: nt_held_def)
  then have "nf_held st = {#}" using all by (simp add: nf_held_def nf_all_ended_def)
  then have K: "K = mset ls" using acc left by (simp add: netflix_acc_def)
  then have KR: "image_mset rating_value K = mset ratings" by (simp add: assms(3) ls_def)
  have rows: "rows_ok (mset ratings) us st" using acc by (simp add: netflix_acc_def KR)
  have locals: "\<forall>t\<in>set (local_movies st). fst t" "\<forall>t\<in>set (local_users st). fst t"
    using all by (auto simp: local_movies_def local_users_def nf_all_ended_def)
  have movies: "sint (nf_number_movies st) = Max (insert 0 (movies_of (mset ratings)))"
    using acc locals(1) by (intro max_ok_end[of _ _ "local_movies st"]) (simp_all add: netflix_acc_def KR movies_of_def)
  have "sint (nf_number_users st) = Max (insert 0 (int ` {0..<length us}))"
    using acc locals(2) by (intro max_ok_end[of _ _ "local_users st"]) (simp_all add: netflix_acc_def)
  also have "\<dots> = max 0 (int (length us) - 1)"
  proof (cases us)
    case (Cons u us')
    show ?thesis by (rule Max_eqI) (auto simp: Cons)
  qed simp
  finally have users: "sint (nf_number_users st) = max 0 (int (length us) - 1)" .
  have "sd_check (sd_of_samples (nf_sparse_ds st)) = Inr ()" using fit_check[OF acc fit] K by simp
  moreover have "sd_get_row (sd_of_samples (nf_sparse_ds st)) (word_of_nat i) = Inr (nf_sparse_ds st ! i)" if "i < 100" for i
  proof -
    have "unat (word_of_nat i :: u64) = i" using that by (simp only: unat_of_nat) (simp add: take_bit_nat_eq_self)
    then show ?thesis using that len(2) by (simp add: sd_get_row_def sd_of_samples_def NETFLIX_USERS_def)
  qed
  ultimately have "read_netflix_ratings (Some s) (sched @ concat (replicate rounds [0..<8]))
      = Inr (sd_of_samples (nf_sparse_ds st), nf_number_movies st, nf_number_users st)"
    using run all by (simp add: read_netflix_ratings_def open_ratings_def Let_def)
  then show ?thesis using rows movies users len(2)
    by (intro exI[of _ us] exI[of _ "sd_of_samples (nf_sparse_ds st)"] exI[of _ "nf_number_movies st"] exI[of _ "nf_number_users st"])
      (auto simp: rows_ok_def sd_of_samples_def)
qed

text \<open>
  C19: Reading a Netflix file of valid ratings ends, whatever the threads have done, with the dataset
  of the file: every user has a row of its own, in the order in which the users were met, with
  exactly the ratings of that user, and the other rows are empty. The number of movies is the
  largest id; the number of users is one less than there are.
\<close>

theorem netflix_file_read:
  assumes "ratings_fit NETFLIX_USERS (lines_left (istream_of s))" "2 * (length s + 1) + 16 < rounds"
    and "ratings = map rating_value (lines_left (istream_of s))"
  shows "\<exists>us ds number_movies number_users.
    read_netflix_ratings (Some s) (sched @ concat (replicate rounds [0..<8])) = Inr (ds, number_movies, number_users)
    \<and> distinct us \<and> set us = fst ` set ratings \<and> length us \<le> NETFLIX_USERS \<and> length (sd_data ds) = NETFLIX_USERS
    \<and> (\<forall>k<length us. mset (sd_data ds ! k) = ratings_of (us ! k) (mset ratings))
    \<and> (\<forall>k. length us \<le> k \<and> k < length (sd_data ds) \<longrightarrow> sd_data ds ! k = [])
    \<and> sint number_movies = Max (insert 0 (movies_of (mset ratings)))
    \<and> sint number_users = max 0 (int (length us) - 1)"
  by (rule netflix_file_ok[OF assms])

definition ex_netflix :: string where
  "ex_netflix = lines_text id [''7,3,5'', ''9,4,2'', ''7,1,5'']"

lemma ex_netflix_lines: "lines_left (istream_of ex_netflix) = [''7,3,5'', ''9,4,2'', ''7,1,5'']"
  unfolding ex_netflix_def lines_text_def lines_left_def istream_of_def by simp

lemma ex_netflix_parse:
  "parse_rating MAX_STR_SIZE ''7,3,5'' = Inr (7, 3, 0x40A00000)"
  "parse_rating MAX_STR_SIZE ''9,4,2'' = Inr (9, 4, 0x40000000)"
  "parse_rating MAX_STR_SIZE ''7,1,5'' = Inr (7, 1, 0x40A00000)"
  by (simp_all add: parse_rating_def MAX_STR_SIZE_def copy_line_def c_str_def strsep_all_def rating_fields_def str_to_def stream_evals fp_evals)

lemma ex_netflix_fit: "ratings_fit NETFLIX_USERS (lines_left (istream_of ex_netflix))"
  unfolding ex_netflix_lines by (simp add: ratings_fit_def NETFLIX_USERS_def ex_netflix_parse rating_value_def f32_badv_def fp_evals card_insert_if)

theorem netflix_file_read_witness:
  "\<exists>us ds number_movies number_users.
    read_netflix_ratings (Some ex_netflix) ([5, 2, 5] @ concat (replicate 100 [0..<8])) = Inr (ds, number_movies, number_users)
    \<and> distinct us \<and> set us = fst ` set [(7 :: i32, 3 :: i32, 0x40A00000 :: f32), (9, 4, 0x40000000), (7, 1, 0x40A00000)]
    \<and> length us \<le> NETFLIX_USERS \<and> length (sd_data ds) = NETFLIX_USERS
    \<and> (\<forall>k<length us. mset (sd_data ds ! k) = ratings_of (us ! k) (mset [(7, 3, 0x40A00000), (9, 4, 0x40000000), (7, 1, 0x40A00000)]))
    \<and> (\<forall>k. length us \<le> k \<and> k < length (sd_data ds) \<longrightarrow> sd_data ds ! k = [])
    \<and> sint number_movies = Max (insert 0 (movies_of (mset [(7, 3, 0x40A00000), (9, 4, 0x40000000), (7, 1, 0x40A00000)])))
    \<and> sint number_users = max 0 (int (length us) - 1)"
  by (rule netflix_file_read[OF ex_netflix_fit])
    (simp add: ex_netflix_def lines_text_def, unfold ex_netflix_lines, simp add: rating_value_def ex_netflix_parse)

section \<open>Ratings read by one loop\<close>

text \<open>
  A user id that has no row is not checked: the loop writes past the rows. The first row is the
  user 1 of a MovieLens file and the user 0 of a Jester file.
\<close>

lemma movielens_unknown_user:
  assumes "parse_rating (MAX_STR_SIZE - 1) line = Inr (u, m, r)" "sint u \<le> 0 \<or> int (length sparse_ds) < sint u"
    and "length sparse_ds < 2 ^ 31"
  shows "movielens_line line (sparse_ds, users, movies) = Inl Undefined_behaviour"
proof (cases "sint u = - (2 ^ 31)")
  case False
  have "\<not> idx (u - 1) < length sparse_ds"
  proof (cases "0 < sint u")
    case True
    define k where "k = nat (sint u) - 1"
    have k: "sint u = int (Suc k)" "Suc k < 2 ^ 31" using True sint_lt[of u] by (simp_all add: k_def)
    have "u = word_of_int (sint u)" by (rule sym) simp
    then have "u = word_of_nat (Suc k)" by (simp only: k(1) of_int_of_nat_eq)
    then have "idx (u - 1) = k" using idx_small[of k] k(2) by simp
    then show ?thesis using assms(2) k(1) by simp
  next
    case neg: False
    have "- (2 ^ 31) \<le> sint u" using sint_ge[of u] by simp
    then have lo: "- (2 ^ 31) \<le> sint u - 1" "sint u - 1 < 0" using False neg by linarith+
    have "u - 1 = word_of_int (sint u - 1)" by simp
    then have "sint (u - 1) = signed_take_bit 31 (sint u - 1)" by (simp only: signed_of_int) simp
    then have "sint (u - 1) = sint u - 1" using lo
      by (simp only:) (simp add: signed_take_bit_int_eq_self)
    then have "idx (u - 1) = nat ((sint u - 1) mod 2 ^ 64)" by (simp add: idx_def)
    also have "(sint u - 1) mod 2 ^ 64 = sint u - 1 + 2 ^ 64"
      using lo by (subst mod_add_self2[symmetric]) (rule mod_pos_pos_trivial, simp_all)
    finally have "2 ^ 31 \<le> idx (u - 1)" using lo by simp
    then show ?thesis using assms(3) by simp
  qed
  then show ?thesis using assms(1) False by (simp add: movielens_line_def add_rating_def int_minus_1_def vec_get_def)
qed (use assms(1) in \<open>simp add: movielens_line_def add_rating_def int_minus_1_def\<close>)

end
