(* ===== verification/Normalised.thy ===== *)
theory Normalised
  imports SparseData
begin

text \<open>
  The values that \<open>SparseDataset::normalize\<close> gives to features that were counted: the quotient is
  never a NaN and never infinite, so that a normalised dataset passes \<open>SparseDataset::check\<close>.
\<close>

section \<open>Finite results of rounding\<close>

definition f32_fin :: "f32 \<Rightarrow> bool" where
  "f32_fin x \<longleftrightarrow> (\<exists>s m e. dec32 x = FFin s m e)"

lemma f32_fin_badv: "f32_fin x \<Longrightarrow> \<not> f32_badv x"
  by (auto simp: f32_fin_def f32_badv_def f32_isnan_def f32_isinf_def)

lemma round_half_even_le: "n < 2 ^ (k + j) \<Longrightarrow> round_half_even n k \<le> 2 ^ j"
proof -
  assume "n < 2 ^ (k + j)"
  then have "n div 2 ^ k < 2 ^ j" by (simp add: less_mult_imp_div_less power_add ac_simps)
  then show ?thesis by (simp add: round_half_even_def Let_def)
qed

lemma u32_of_round: "unat (word_of_nat (fp_round 8 23 s m e) :: f32) = fp_round 8 23 s m e"
  using fp_round_less[of 8 23 s m e] by (simp add: unat_of_nat take_bit_nat_eq_self)

lemma fp_pack_fin: "mag < 255 * 2 ^ 23 \<Longrightarrow> \<exists>s' m' e'. fp_decode 8 23 (fp_pack 8 23 s mag) = FFin s' m' e'"
proof -
  assume mag: "mag < 255 * 2 ^ 23"
  then have "mag div 2 ^ 23 < 255" by (simp add: less_mult_imp_div_less)
  moreover have "mag < 2 ^ (23 + 8)" using mag by simp
  note fp_pack_decode(2)[OF this, of s]
  ultimately show ?thesis unfolding fp_decode_def Let_def by simp
qed

lemma fp_round_fin:
  assumes "m = 0 \<or> e + int (bitlen m) \<le> 127"
  shows "f32_fin (word_of_nat (fp_round 8 23 s m e))"
proof (cases "m = 0")
  case True
  then have "fp_round 8 23 s m e = fp_pack 8 23 s 0" by (simp add: fp_round_def)
  then show ?thesis unfolding f32_fin_def dec32_def u32_of_round using fp_pack_fin[of 0 s] by simp
next
  case False
  define t q where "t = max (e + int (bitlen m) - 24) (- 149)"
    and "q = (if t \<le> e then m * 2 ^ nat (e - t) else round_half_even m (nat (t - e)))"
  have m: "m < 2 ^ bitlen m" using bitlen_le_iff[of m "bitlen m"] by simp
  have t: "t \<le> 103" "- 149 \<le> t" "e + int (bitlen m) - 24 \<le> t" using assms False by (auto simp: t_def)
  have q: "q \<le> 2 ^ 24"
  proof (cases "t \<le> e")
    case True
    have "m * 2 ^ nat (e - t) < 2 ^ bitlen m * 2 ^ nat (e - t)" using m by simp
    also have "\<dots> \<le> 2 ^ 24" unfolding power_add[symmetric] using t(3) True by (intro power_increasing) linarith+
    finally show ?thesis using True by (simp add: q_def)
  next
    case False
    have "bitlen m \<le> nat (t - e) + 24" using t(3) False by linarith
    then have "m < 2 ^ (nat (t - e) + 24)" by (simp add: bitlen_le_iff)
    from round_half_even_le[OF this] show ?thesis using False by (simp add: q_def)
  qed
  have "nat (t + 149) * 2 ^ 23 + q \<le> (nat (t + 149) + 2) * 2 ^ 23" using q by simp
  also have "\<dots> < 255 * 2 ^ 23" using t by simp
  finally have mag: "nat (t + 149) * 2 ^ 23 + q < 255 * 2 ^ 23" .
  have "fp_round 8 23 s m e = fp_pack 8 23 s (nat (t + 149) * 2 ^ 23 + q)"
    using False mag by (simp add: fp_round_def Let_def fp_emin_def fp_infbits_def t_def[symmetric] q_def[symmetric])
  then show ?thesis unfolding f32_fin_def dec32_def u32_of_round using fp_pack_fin[OF mag] by simp
qed

section \<open>Counts\<close>

text \<open>The significand of a whole number has all of the 24 bits.\<close>

definition whole :: "bool \<Rightarrow> nat \<Rightarrow> fpv" where
  "whole s n = FFin s (n * 2 ^ (24 - bitlen n)) (- int (24 - bitlen n))"

definition count_value :: "f32 \<Rightarrow> bool" where
  "count_value x \<longleftrightarrow> (\<exists>n. 0 < n \<and> n < 2 ^ 14 \<and> x = f32_of_int (int n))"

lemma round_whole:
  assumes "0 < n" "n < 2 ^ 14"
  shows "fp_decode 8 23 (fp_round 8 23 s n 0) = whole s n" "0 < bitlen n" "bitlen n \<le> 14"
proof -
  show bl: "bitlen n \<le> 14" using assms bitlen_le_iff[of n 14] by simp
  show b0: "0 < bitlen n" using assms bitlen_le_iff[of n 0] by simp
  show "fp_decode 8 23 (fp_round 8 23 s n 0) = whole s n"
    unfolding whole_def using assms(1) bl b0 fp_decode_round[of n 23 8 0 s] by (simp add: fp_emin_def)
qed

lemma dec_count: "0 < n \<Longrightarrow> n < 2 ^ 14 \<Longrightarrow> dec32 (f32_of_int (int n)) = whole False n"
  using round_whole(1)[of n False] by (simp add: dec32_def f32_of_int_def u32_of_round)

text \<open>The difference of two counts is exact.\<close>

lemma add_whole:
  assumes "n \<noteq> p" "0 < n" "n < 2 ^ 14" "0 < p" "p < 2 ^ 14"
  shows "fp_add 8 23 (whole False n) (whole True p) = fp_round 8 23 (n < p) (if n < p then p - n else n - p) 0"
proof -
  define a b M d where "a = 24 - bitlen n" and "b = 24 - bitlen p" and "M = max a b" and "d = (if n < p then p - n else n - p)"
  have g: "min (- int a) (- int b) = - int M" by (simp add: M_def)
  have na: "nat (int M - int a) = M - a" "nat (int M - int b) = M - b" by (simp_all add: M_def nat_diff_distrib)
  have "n * 2 ^ a * 2 ^ (M - a) = n * 2 ^ M" "p * 2 ^ b * 2 ^ (M - b) = p * 2 ^ M"
    by (simp_all add: M_def mult.assoc del: mult_cancel1 mult_cancel2 flip: power_add)
  then have v: "fp_signed False (n * 2 ^ a * 2 ^ (M - a)) + fp_signed True (p * 2 ^ b * 2 ^ (M - b)) = (int n - int p) * 2 ^ M"
    unfolding fp_signed_def by (simp only: if_False if_True of_nat_mult of_nat_power of_nat_numeral left_diff_distrib)
  have "nat \<bar>(int n - int p) * 2 ^ M\<bar> = d * 2 ^ M"
    using assms(1) by (auto simp: d_def abs_mult nat_mult_distrib nat_power_eq)
  moreover have "(int n - int p) * 2 ^ M < 0 \<longleftrightarrow> n < p" by (simp add: mult_less_0_iff)
  moreover have "(int n - int p) * 2 ^ M \<noteq> 0" using assms(1) by simp
  ultimately have "fp_add 8 23 (whole False n) (whole True p) = fp_round 8 23 (n < p) (d * 2 ^ M) (- int M)"
    by (simp add: fp_add_def whole_def a_def[symmetric] b_def[symmetric] g na v Let_def)
  also have "\<dots> = fp_round 8 23 (n < p) d 0" using fp_round_scale[of 8 23 "n < p" d M 0] by simp
  finally show ?thesis by (simp add: d_def)
qed

lemma sub_counts:
  assumes "count_value x" "count_value y"
  shows "x = y \<or> (\<exists>s d. 0 < d \<and> d < 2 ^ 14 \<and> dec32 (f32_sub x y) = whole s d)"
proof -
  obtain n p where np: "0 < n" "n < 2 ^ 14" "x = f32_of_int (int n)" "0 < p" "p < 2 ^ 14" "y = f32_of_int (int p)"
    using assms by (auto simp: count_value_def)
  have neg: "fp_neg (whole False p) = whole True p" by (simp add: fp_neg_def whole_def)
  define d where "d = (if n < p then p - n else n - p)"
  show ?thesis
  proof (cases "n = p")
    case False
    then have d: "0 < d" "d < 2 ^ 14" using np by (auto simp: d_def)
    have "unat (f32_sub x y) = fp_round 8 23 (n < p) d 0"
      unfolding f32_sub_def np(3,6) dec_count[OF np(1,2)] dec_count[OF np(4,5)] neg add_whole[OF False np(1,2,4,5)]
        d_def[symmetric] u32_of_round ..
    then have "dec32 (f32_sub x y) = fp_decode 8 23 (fp_round 8 23 (n < p) d 0)" by (simp add: dec32_def)
    then show ?thesis using d round_whole(1)[OF d, of "n < p"] by auto
  qed (use np in simp)
qed

lemma sub_same: "count_value x \<Longrightarrow> \<exists>s. dec32 (f32_sub x x) = FFin s 0 (- 149)"
proof -
  assume "count_value x"
  then obtain n where n: "0 < n" "n < 2 ^ 14" "x = f32_of_int (int n)" by (auto simp: count_value_def)
  have "fp_add 8 23 (whole False n) (fp_neg (whole False n)) = fp_pack 8 23 False 0"
    by (simp add: fp_add_def whole_def fp_neg_def fp_signed_def Let_def)
  then have "f32_sub x x = 0" by (simp add: f32_sub_def n(3) dec_count[OF n(1,2)] fp_pack_def)
  then show ?thesis by (intro exI[of _ False]) (simp add: dec_zero)
qed

lemma count_eq: "count_value x \<Longrightarrow> f32_eq x x"
  by (auto simp: count_value_def f32_eq_def dec_count fp_eq_def whole_def Let_def)

text \<open>The quotient of two differences is finite.\<close>

lemma ratio_fin:
  assumes n: "n < 2 ^ 24" and d: "0 < d" "d < 2 ^ 24" and e: "e \<le> 24"
  shows "f32_fin (word_of_nat (fp_of_ratio 8 23 s n d e))"
proof -
  define k q st where "k = 26 + bitlen d" and "q = n * 2 ^ k div d" and "st = (if n * 2 ^ k mod d = 0 then 0 else 1 :: nat)"
  have k: "k \<le> 50" using d(2) bitlen_le_iff[of d 24] by (simp add: k_def)
  have "q \<le> n * 2 ^ k" by (simp add: q_def)
  also have "\<dots> < 2 ^ 24 * 2 ^ k" using n by simp
  also have "\<dots> \<le> 2 ^ 24 * 2 ^ 50" using k by (intro mult_left_mono power_increasing) auto
  finally have "2 * q + st < 2 ^ 75" by (simp add: st_def)
  then have "bitlen (2 * q + st) \<le> 75" by (simp add: bitlen_le_iff)
  then have "e - int k - 1 + int (bitlen (2 * q + st)) \<le> 127" using e by linarith
  then show ?thesis
    using fp_round_fin[of "2 * q + st" "e - int k - 1" s] by (simp add: fp_of_ratio_def Let_def k_def q_def st_def)
qed

lemma whole_bounds:
  assumes "0 < n" "n < 2 ^ 14"
  shows "n * 2 ^ (24 - bitlen n) < 2 ^ 24" "24 - bitlen n \<le> 24"
proof -
  have "n < 2 ^ bitlen n" using bitlen_le_iff[of n "bitlen n"] by simp
  then have "n * 2 ^ (24 - bitlen n) < 2 ^ bitlen n * 2 ^ (24 - bitlen n)" by simp
  then show "n * 2 ^ (24 - bitlen n) < 2 ^ 24" using round_whole(3)[OF assms] by (simp flip: power_add)
qed simp

lemma normalised_fin:
  assumes x: "count_value x" and mn: "count_value mn" and mx: "count_value mx" and ne: "\<not> f32_eq mx mn"
  shows "f32_fin (f32_div (f32_sub x mn) (f32_sub mx mn))"
proof -
  obtain t d where d: "0 < d" "d < 2 ^ 14" "dec32 (f32_sub mx mn) = whole t d"
    using sub_counts[OF mx mn] ne count_eq[OF mx] by blast
  note wd = whole_bounds[OF d(1,2)]
  have d0: "0 < d * 2 ^ (24 - bitlen d)" using d(1) by simp
  show ?thesis
  proof (cases "x = mn")
    case True
    obtain s where s: "dec32 (f32_sub x mn) = FFin s 0 (- 149)" using sub_same[OF x] True by blast
    have "- 149 - - int (24 - bitlen d) \<le> 24" using wd(2) by linarith
    from ratio_fin[OF _ d0 wd(1) this, of 0 "s \<noteq> t"] show ?thesis
      using d(1) by (simp add: f32_div_def s d(3) whole_def fp_div_def)
  next
    case False
    then obtain s n where n: "0 < n" "n < 2 ^ 14" "dec32 (f32_sub x mn) = whole s n" using sub_counts[OF x mn] by blast
    note wn = whole_bounds[OF n(1,2)]
    have "- int (24 - bitlen n) - - int (24 - bitlen d) \<le> 24" using wd(2) by linarith
    from ratio_fin[OF wn(1) d0 wd(1) this, of "s \<noteq> t"] show ?thesis
      using d(1) by (simp add: f32_div_def n(3) d(3) whole_def fp_div_def)
  qed
qed

section \<open>The minima and maxima\<close>

lemma max_count: "count_value v \<Longrightarrow> mx = 0 \<or> count_value mx \<Longrightarrow> count_value (f32_max v mx)"
proof -
  assume v: "count_value v" "mx = 0 \<or> count_value mx"
  obtain n where n: "0 < n" "n < 2 ^ 14" "v = f32_of_int (int n)" using v(1) by (auto simp: count_value_def)
  have "\<not> int n * 2 ^ (24 - bitlen n) * 2 ^ k < 0" for k by (simp add: not_less)
  then have "\<not> f32_less v 0"
    by (simp add: f32_less_def n(3) dec_count[OF n(1,2)] whole_def dec_zero fp_less_def fp_signed_def Let_def)
  then show ?thesis using v by (auto simp: f32_max_def)
qed

lemma min_count: "count_value v \<Longrightarrow> mn = FLT_MAX \<or> count_value mn \<Longrightarrow> count_value (f32_min v mn)"
proof -
  assume v: "count_value v" "mn = FLT_MAX \<or> count_value mn"
  obtain n where n: "0 < n" "n < 2 ^ 14" "v = f32_of_int (int n)" using v(1) by (auto simp: count_value_def)
  define a where "a = 24 - bitlen n"
  have top: "dec32 FLT_MAX = FFin False 16777215 104"
    by (simp add: FLT_MAX_def dec32_def fp_decode_def fp_emin_def)
  have g: "min 104 (- int a) = - int a" "nat (- int a - - int a) = 0" by simp_all
  have "n * 2 ^ a < 2 ^ 24" using whole_bounds(1)[OF n(1,2)] by (simp add: a_def)
  also have "(2 :: nat) ^ 24 \<le> 16777215 * 2 ^ nat (104 - - int a)"
  proof -
    have "(2 :: nat) ^ 1 \<le> 2 ^ nat (104 - - int a)" by (intro power_increasing) auto
    then show ?thesis by simp
  qed
  finally have "int (n * 2 ^ a) < int (16777215 * 2 ^ nat (104 - - int a))" by (simp only: of_nat_less_iff)
  then have "\<not> f32_less FLT_MAX v"
    by (simp add: f32_less_def n(3) dec_count[OF n(1,2)] whole_def top a_def[symmetric] fp_less_def fp_signed_def Let_def min_absorb2)
  then show ?thesis using v by (auto simp: f32_min_def)
qed

text \<open>The vectors hold their initial values, or the minimum and maximum of counts.\<close>

definition norm_bounds :: "f32 list \<times> f32 list \<Rightarrow> bool" where
  "norm_bounds s \<longleftrightarrow> length (fst s) = length (snd s) \<and> (\<forall>i<length (fst s).
     fst s ! i = 0 \<and> snd s ! i = FLT_MAX \<or> count_value (fst s ! i) \<and> count_value (snd s ! i))"

definition norm_seen :: "f32 list \<times> f32 list \<Rightarrow> i32 \<times> f32 \<Rightarrow> bool" where
  "norm_seen s v \<longleftrightarrow> count_value (fst s ! idx (fst v)) \<and> count_value (snd s ! idx (fst v))"

lemma unat_index: "unat (scast (i :: i32) :: u64) = idx i"
proof -
  have "uint (word_of_int (sint i) :: u64) = take_bit LENGTH(64) (sint i)" by (rule uint_word_of_int_eq)
  then have "uint (scast i :: u64) = sint i mod 2 ^ 64" by (simp only: of_int_sint take_bit_eq_mod) simp
  then show ?thesis by (simp only: idx_def unat_eq_nat_uint)
qed

lemma norm_step_bounds:
  assumes "norm_bounds s" "count_value (snd v)" "sd_norm_step hash_size v s = Inr s'"
  shows "norm_bounds s'" "norm_seen s' v" "norm_seen s w \<Longrightarrow> norm_seen s' w"
proof -
  obtain i x where v: "v = (i, x)" by (cases v)
  obtain mx mn where s: "s = (mx, mn)" by (cases s)
  have b: "idx i < length mx" "idx i < length mn" "s' = (mx[idx i := f32_max x (mx ! idx i)], mn[idx i := f32_min x (mn ! idx i)])"
    using assms(3) by (auto simp: v s sd_norm_step_def vec_get_def unat_index Let_def split: if_splits)
  have old: "mx ! idx i = 0 \<and> mn ! idx i = FLT_MAX \<or> count_value (mx ! idx i) \<and> count_value (mn ! idx i)"
    using assms(1) b(1) by (simp add: norm_bounds_def s)
  then have m: "count_value (f32_max x (mx ! idx i))" "count_value (f32_min x (mn ! idx i))"
    using max_count[of x "mx ! idx i"] min_count[of x "mn ! idx i"] assms(2) by (auto simp: v)
  show "norm_bounds s'" using assms(1) m b(1,2) by (auto simp: norm_bounds_def s b(3) nth_list_update)
  show "norm_seen s' v" using m b by (simp add: norm_seen_def v)
  show "norm_seen s' w" if "norm_seen s w"
    using that m b by (cases "idx (fst w) = idx i") (simp_all add: norm_seen_def s)
qed

lemma norm_row_bounds:
  assumes "norm_bounds s" "\<forall>v\<in>set row. count_value (snd v)" "rfold (sd_norm_step hash_size) row s = Inr s'"
  shows "norm_bounds s' \<and> (\<forall>v\<in>set row. norm_seen s' v) \<and> (\<forall>w. norm_seen s w \<longrightarrow> norm_seen s' w)"
  using assms
proof (induction row arbitrary: s)
  case (Cons v row)
  then obtain s1 where s1: "sd_norm_step hash_size v s = Inr s1" "rfold (sd_norm_step hash_size) row s1 = Inr s'"
    by (cases "sd_norm_step hash_size v s") auto
  have "count_value (snd v)" using Cons.prems(2) by simp
  note st = norm_step_bounds[OF Cons.prems(1) this s1(1)]
  have "norm_bounds s' \<and> (\<forall>v\<in>set row. norm_seen s' v) \<and> (\<forall>w. norm_seen s1 w \<longrightarrow> norm_seen s' w)"
    using Cons.IH[OF st(1) _ s1(2)] Cons.prems(2) by simp
  then show ?case using st(2,3) by (simp only: list.set(2)) blast
qed simp

lemma norm_rows_bounds:
  assumes "norm_bounds s" "\<forall>row\<in>set rows. \<forall>v\<in>set row. count_value (snd v)" "rfold (rfold (sd_norm_step hash_size)) rows s = Inr s'"
  shows "norm_bounds s' \<and> (\<forall>row\<in>set rows. \<forall>v\<in>set row. norm_seen s' v) \<and> (\<forall>w. norm_seen s w \<longrightarrow> norm_seen s' w)"
  using assms
proof (induction rows arbitrary: s)
  case (Cons row rows)
  then obtain s1 where s1: "rfold (sd_norm_step hash_size) row s = Inr s1" "rfold (rfold (sd_norm_step hash_size)) rows s1 = Inr s'"
    by (cases "rfold (sd_norm_step hash_size) row s") auto
  have "norm_bounds s1 \<and> (\<forall>v\<in>set row. norm_seen s1 v) \<and> (\<forall>w. norm_seen s w \<longrightarrow> norm_seen s1 w)"
    using norm_row_bounds[OF Cons.prems(1) _ s1(1)] Cons.prems(2) by simp
  moreover from this have "norm_bounds s' \<and> (\<forall>row\<in>set rows. \<forall>v\<in>set row. norm_seen s' v) \<and> (\<forall>w. norm_seen s1 w \<longrightarrow> norm_seen s' w)"
    using Cons.IH[OF _ _ s1(2)] Cons.prems(2) by simp
  ultimately show ?case by (simp only: list.set(2)) blast
qed simp

section \<open>A normalised dataset of counts\<close>

lemma rmap_values:
  assumes "rmap f xs = Inr ys" "\<And>x y. x \<in> set xs \<Longrightarrow> f x = Inr y \<Longrightarrow> P y"
  shows "\<forall>y\<in>set ys. P y"
  using assms
proof (induction xs arbitrary: ys)
  case (Cons x xs)
  then obtain y zs where "f x = Inr y" "rmap f xs = Inr zs" "ys = y # zs" by auto
  then show ?case using Cons by auto
qed simp

lemma normalised_counts:
  assumes "sd_normalize hash_size d = Inr d'" and counts: "\<forall>row\<in>set (sd_data d). \<forall>v\<in>set row. count_value (snd v)"
  shows "\<forall>row\<in>set (sd_data d'). \<forall>v\<in>set row. f32_fin (snd v)"
proof -
  obtain mx mn data where n: "rfold (rfold (sd_norm_step hash_size)) (sd_data d)
      (replicate (unat hash_size) 0, replicate (unat hash_size) FLT_MAX) = Inr (mx, mn)"
    "rmap (rmap (sd_norm_value mx mn)) (sd_data d) = Inr data" "sd_data d' = data"
    using assms(1) by (auto simp: sd_normalize_def)
  have "norm_bounds (replicate (unat hash_size) 0, replicate (unat hash_size) FLT_MAX)" by (simp add: norm_bounds_def)
  from norm_rows_bounds[OF this counts n(1)] have seen: "\<forall>row\<in>set (sd_data d). \<forall>v\<in>set row. norm_seen (mx, mn) v" by blast
  have fin: "f32_fin x" if "count_value x" for x
    using that by (auto simp: count_value_def f32_fin_def dec_count whole_def)
  have cell: "f32_fin (snd y)" if "row \<in> set (sd_data d)" "v \<in> set row" "sd_norm_value mx mn v = Inr y" for row v y
  proof -
    obtain i x where v: "v = (i, x)" by (cases v)
    have c: "count_value x" "count_value (mx ! idx i)" "count_value (mn ! idx i)"
      using counts seen that(1,2) by (force simp: v norm_seen_def)+
    have "y = (if \<not> f32_eq (mx ! idx i) (mn ! idx i)
        then (i, f32_div (f32_sub x (mn ! idx i)) (f32_sub (mx ! idx i) (mn ! idx i))) else (i, x))"
      using that(3) by (auto simp: v sd_norm_value_def vec_get_def split: if_splits)
    then show ?thesis using normalised_fin[OF c(1,3,2)] fin[OF c(1)] by auto
  qed
  have "\<forall>v\<in>set row'. f32_fin (snd v)" if "row \<in> set (sd_data d)" "rmap (sd_norm_value mx mn) row = Inr row'" for row row'
    by (rule rmap_values[OF that(2)]) (rule cell[OF that(1)])
  then show ?thesis unfolding n(3) by (intro rmap_values[OF n(2)]) blast
qed

end
