(* ===== verification/Loading.thy ===== *)
theory Loading
  imports Ratings S3Iter Normalised
begin

text \<open>
  The loading tasks (\<open>LoadingSparseTaskS3.cpp\<close>, \<open>LoadingNetflixTask.cpp\<close>) and the client of the object
  store they write to (\<open>S3Client.cpp\<close>). A bucket maps keys to objects. Files are an argument (\<open>files\<close>),
  and so is whether the store accepts the \<open>i\<close>-th write (\<open>accepts\<close>).
\<close>

section \<open>The client of the store\<close>

type_synonym bucket = "string \<rightharpoonup> byte list"

definition to_string :: "u64 \<Rightarrow> string" where "to_string n = show_nat (unat n)"

text \<open>A write that is not accepted is only reported.\<close>

definition s3_put_object :: "bool \<Rightarrow> string \<Rightarrow> byte list \<Rightarrow> bucket \<Rightarrow> bucket" where
  "s3_put_object accepted key_name object bucket = (if accepted then bucket(key_name \<mapsto> object) else bucket)"

definition s3_put_object_id :: "bool \<Rightarrow> u64 \<Rightarrow> byte list \<Rightarrow> bucket \<Rightarrow> bucket" where
  "s3_put_object_id accepted oid object bucket = s3_put_object accepted (''CIRRUS'' @ to_string oid) object bucket"

definition s3_get_object_ptr :: "string \<Rightarrow> bucket \<Rightarrow> byte list res" where
  "s3_get_object_ptr key_name bucket =
     (case bucket key_name of None \<Rightarrow> Inl (Runtime_error ''Error'') | Some object \<Rightarrow> Inr object)"

definition s3_get_object_ptr_id :: "u64 \<Rightarrow> bucket \<Rightarrow> byte list res" where
  "s3_get_object_ptr_id oid bucket = s3_get_object_ptr (''CIRRUS'' @ to_string oid) bucket"

definition s3_get_object_value :: "string \<Rightarrow> bucket \<Rightarrow> byte list res" where
  "s3_get_object_value key_name bucket = rbind (s3_get_object_ptr key_name bucket) Inr"

definition s3_get_object_value_id :: "u64 \<Rightarrow> bucket \<Rightarrow> byte list res" where
  "s3_get_object_value_id oid bucket = s3_get_object_value (''cirrus'' @ to_string oid) bucket"

section \<open>Writing a dataset\<close>

definition SAMPLE_BASE :: u64 where "SAMPLE_BASE = 0"

text \<open>The objects: \<open>s3_obj_num_samples\<close> samples in each, and what is left over is in none.\<close>

definition batch_object :: "sparse_dataset \<Rightarrow> u64 \<Rightarrow> bool \<Rightarrow> nat \<Rightarrow> byte list res" where
  "batch_object dataset s3_obj_num_samples store_labels i =
     (let first_sample = word_of_nat i * s3_obj_num_samples; last_sample = (word_of_nat i + 1) * s3_obj_num_samples
      in rbind (sd_build_s3_obj dataset first_sample last_sample store_labels) (\<lambda>(s3_obj, len).
         if unat len \<le> length s3_obj then Inr (take (unat len) s3_obj) else Inl Undefined_behaviour))"

text \<open>\<open>for (unsigned int i = 0; i < num_s3_objs; ++i)\<close> does not end if the bound does not fit \<open>i\<close>.\<close>

definition store_batches :: "(nat \<Rightarrow> byte list \<Rightarrow> bucket \<Rightarrow> bucket) \<Rightarrow> sparse_dataset \<Rightarrow> u64 \<Rightarrow> bool \<Rightarrow> bucket \<Rightarrow> bucket res" where
  "store_batches put dataset s3_obj_num_samples store_labels bucket =
     (let num_s3_objs = sd_num_samples dataset div s3_obj_num_samples
      in if unat num_s3_objs \<ge> 2 ^ 32 then Inl Blocked
         else rfold (\<lambda>i bucket. rbind (batch_object dataset s3_obj_num_samples store_labels i) (\<lambda>obj. Inr (put i obj bucket)))
                [0..<unat num_s3_objs] bucket)"

section \<open>The Criteo loader\<close>

definition lss_read_dataset :: "(string \<Rightarrow> string option) \<Rightarrow> configuration \<Rightarrow> nat list \<Rightarrow> sparse_dataset res" where
  "lss_read_dataset files config sched =
     rbind (get_load_input_type config) (\<lambda>input_type.
     rbind (if input_type = ''csv_space'' then Inr []
            else if input_type = ''csv_tab'' then Inr [CHR 0x09]
            else if input_type = ''csv'' then Inr '',''
            else Inl (Runtime_error ''unknown input type'')) (\<lambda>delimiter.
     rbind (get_load_input_path config) (\<lambda>path.
     read_input_criteo_kaggle_sparse (files path) delimiter config sched)))"

definition lss_check_label :: "f32 \<Rightarrow> unit res" where
  "lss_check_label label =
     guard_rt (\<not> (\<not> f64_eq (f64_of_f32 label) f64_one \<and> \<not> f64_eq (f64_of_f32 label) 0)) ''Wrong label value''"

definition lss_check_loading :: "bucket \<Rightarrow> unit res" where
  "lss_check_loading bucket =
     rbind (s3_get_object_value (to_string SAMPLE_BASE) bucket) (\<lambda>data.
     rbind (sd_load_s3 (data @ [0]) True True) (\<lambda>dataset.
     rbind (sd_check dataset) (\<lambda>_.
     rbind (sd_check_labels dataset) (\<lambda>_.
     rbind (sd_get_row dataset 0) (\<lambda>s.
     rcheck (\<lambda>i. rbind (vec_get (sd_labels dataset) i) (\<lambda>label.
         guard_rt (\<not> (\<not> f64_eq (f64_of_f32 label) 0 \<and> \<not> f64_eq (f64_of_f32 label) f64_one)) ''Wrong label''))
       [0..<unat (sd_num_samples dataset)])))))"

definition lss_run :: "(string \<Rightarrow> string option) \<Rightarrow> (nat \<Rightarrow> bool) \<Rightarrow> configuration \<Rightarrow> nat list \<Rightarrow> bucket \<Rightarrow> bucket res" where
  "lss_run files accepts config sched bucket =
     rbind (get_s3_size config) (\<lambda>s3_obj_num_samples.
     rbind (lss_read_dataset files config sched) (\<lambda>dataset.
     rbind (sd_check dataset) (\<lambda>_.
     rbind (store_batches (\<lambda>i. s3_put_object (accepts i) (to_string (SAMPLE_BASE + word_of_nat i)))
              dataset s3_obj_num_samples True bucket) (\<lambda>bucket.
     rbind (lss_check_loading bucket) (\<lambda>_. Inr bucket)))))"

section \<open>The Netflix loader\<close>

definition lnf_read_dataset :: "(string \<Rightarrow> string option) \<Rightarrow> configuration \<Rightarrow> nat list \<Rightarrow> (sparse_dataset \<times> i32 \<times> i32) res" where
  "lnf_read_dataset files config sched =
     rbind (get_load_input_path config) (\<lambda>path.
     rbind (read_netflix_ratings (files path) sched) (\<lambda>(dataset, number_movies, number_users).
     rbind (sd_check dataset) (\<lambda>_. Inr (dataset, number_movies, number_users))))"

definition lnf_check_loading :: "bucket \<Rightarrow> unit res" where
  "lnf_check_loading bucket =
     rbind (s3_get_object_value_id SAMPLE_BASE bucket) (\<lambda>data.
     rbind (sd_load_s3 (data @ [0]) True False) (\<lambda>dataset.
     rbind (sd_check dataset) (\<lambda>_.
     rbind (sd_check_labels dataset) (\<lambda>_.
     rbind (sd_get_row dataset 0) (\<lambda>_. Inr ())))))"

text \<open>The bucket that the loop leaves, and what the check then says of it.\<close>

definition lnf_store :: "(nat \<Rightarrow> bool) \<Rightarrow> sparse_dataset \<Rightarrow> u64 \<Rightarrow> bucket \<Rightarrow> bucket res" where
  "lnf_store accepts dataset s3_obj_num_samples =
     store_batches (\<lambda>i. s3_put_object_id (accepts i) (SAMPLE_BASE + word_of_nat i)) dataset s3_obj_num_samples False"

definition lnf_run :: "(string \<Rightarrow> string option) \<Rightarrow> (nat \<Rightarrow> bool) \<Rightarrow> configuration \<Rightarrow> nat list \<Rightarrow> bucket \<Rightarrow> bucket res" where
  "lnf_run files accepts config sched bucket =
     rbind (get_s3_size config) (\<lambda>s3_obj_num_samples.
     rbind (lnf_read_dataset files config sched) (\<lambda>(dataset, _).
     rbind (sd_check dataset) (\<lambda>_.
     rbind (lnf_store accepts dataset s3_obj_num_samples bucket) (\<lambda>bucket.
     rbind (lnf_check_loading bucket) (\<lambda>_. Inr bucket)))))"

section \<open>The objects of a dataset\<close>

lemma to_string_inj: "to_string a = to_string b \<Longrightarrow> a = b"
  by (metis to_string_def digits_value_show word_unat_eq_iff)

definition batches_ok :: "sparse_dataset \<Rightarrow> nat \<Rightarrow> bool \<Rightarrow> bool" where
  "batches_ok d k b \<longleftrightarrow> 0 < k \<and> k < 1000000 \<and> length (sd_data d) div k < 2 ^ 32 \<and> length (sd_data d) < 2 ^ 63
     \<and> (\<forall>row\<in>set (sd_data d). length row < 1000000)
     \<and> (b \<longrightarrow> length (sd_labels d) = length (sd_data d) \<and> (\<forall>x\<in>set (sd_labels d). label_bit x))"

definition batch :: "sparse_dataset \<Rightarrow> nat \<Rightarrow> bool \<Rightarrow> nat \<Rightarrow> (sample \<times> f32) list" where
  "batch d k b i = sd_range d (i * k) (Suc i * k) b"

lemma batch_range:
  assumes "batches_ok d k b" "i < length (sd_data d) div k"
  shows "sd_range_ok d (i * k) (Suc i * k) b"
proof -
  have "Suc i * k \<le> length (sd_data d) div k * k" using assms(2) by (intro mult_le_mono1) simp
  also have "\<dots> \<le> length (sd_data d)" by (rule div_times_less_eq_dividend)
  finally have "Suc i * k \<le> length (sd_data d)" .
  then show ?thesis using assms
    by (auto simp: sd_range_ok_def batches_ok_def dest: in_set_dropD in_set_takeD)
qed

lemma batch_words:
  fixes k :: u64
  assumes "batches_ok d (unat k) b" "i < length (sd_data d) div unat k"
  shows "unat (word_of_nat i * k) = i * unat k" "unat ((word_of_nat i + 1) * k) = Suc i * unat k"
proof -
  have "Suc i * unat k \<le> length (sd_data d)" using batch_range[OF assms] by (simp add: sd_range_ok_def)
  then have lt: "Suc i * unat k < 2 ^ 64" "i * unat k < 2 ^ 64" using assms(1) by (auto simp: batches_ok_def)
  have u: "unat (word_of_nat (j * unat k) :: u64) = j * unat k" if "j * unat k < 2 ^ 64" for j
    using that by (simp only: unat_of_nat) (simp add: take_bit_nat_eq_self)
  have w: "word_of_nat (j * unat k) = word_of_nat j * k" for j by (simp add: ucast_id)
  show "unat (word_of_nat i * k) = i * unat k" using u[OF lt(2)] by (simp only: w)
  show "unat ((word_of_nat i + 1) * k) = Suc i * unat k" using u[OF lt(1)] by (simp only: w of_nat_Suc add.commute)
qed

lemma length_store_many_le: "(\<And>x. x \<in> set xs \<Longrightarrow> length (f x) \<le> B) \<Longrightarrow> length (store_many f xs) \<le> length xs * B"
  by (induction xs) (auto simp: store_many_def add_mono)

lemma built_length:
  assumes "sd_range_ok d (unat l) (unat r) b" "sd_build_s3_obj d l r b = Inr (obj, sz)"
  shows "length obj < 2 ^ 64"
proof -
  define ps where "ps = sd_range d (unat l) (unat r) b"
  have obj: "length obj = 8 + length (store_many (sample_bytes b) ps)"
    using sd_build_ok[OF assms(1)] assms(2) by (auto simp: ps_def)
  have "length (store_many (sample_bytes b) ps) \<le> length ps * (8 + 8 * 1000000)"
    using sd_range_props(4)[OF assms(1)] by (intro length_store_many_le) (auto simp: length_sample_bytes ps_def)
  also have "\<dots> \<le> 1000000 * (8 + 8 * 1000000)"
    using sd_range_props(1)[OF assms(1)] assms(1) by (intro mult_right_mono) (auto simp: ps_def sd_range_ok_def)
  finally show ?thesis using obj by simp
qed

lemma batch_object_ok:
  assumes ok: "batches_ok d (unat k) b" and i: "i < length (sd_data d) div unat k"
  shows "\<exists>obj. batch_object d k b i = Inr obj \<and> holds_samples b (unat k) obj (batch d (unat k) b i)
    \<and> sd_load_s3 (obj @ [0]) True b = Inr \<lparr>sd_data = map fst (batch d (unat k) b i),
        sd_labels = (if b then map snd (batch d (unat k) b i) else []), sd_size_bytes = 0\<rparr>"
proof -
  define l r where "l = word_of_nat i * k" and "r = (word_of_nat i + 1) * k"
  have u: "unat l = i * unat k" "unat r = Suc i * unat k" using batch_words[OF assms] by (simp_all add: l_def r_def)
  have range: "sd_range_ok d (unat l) (unat r) b" using batch_range[OF assms] by (simp add: u)
  have bt: "batch d (unat k) b i = sd_range d (unat l) (unat r) b" by (simp only: batch_def u)
  obtain obj where obj: "sd_build_s3_obj d l r b = Inr (obj, word_of_nat (length obj))"
    "sd_load_s3 (obj @ [0]) True b = Inr \<lparr>sd_data = drop (unat l) (take (unat r) (sd_data d)),
         sd_labels = (if b then drop (unat l) (take (unat r) (sd_labels d)) else []), sd_size_bytes = 0\<rparr>"
    using sd_s3_built[OF range, of "[0]"] by auto
  have holds: "holds_samples b (unat k) obj (batch d (unat k) b i)"
    unfolding bt by (rule built_holds_samples[OF range obj(1)]) (simp add: u)
  have "unat (word_of_nat (length obj) :: u64) = length obj"
    using built_length[OF range obj(1)] by (simp only: unat_of_nat) (simp add: take_bit_nat_eq_self)
  then have "batch_object d k b i = Inr obj"
    using obj(1) by (simp add: batch_object_def l_def r_def Let_def)
  then show ?thesis using holds obj(2) sd_range_props(2,3)[OF range] unfolding bt by (intro exI[of _ obj]) simp
qed

text \<open>What the loop leaves: every write that is accepted, and no other change.\<close>

lemma store_loop:
  assumes "batches_ok d (unat k) b" "n \<le> length (sd_data d) div unat k" "inj_on key {..<length (sd_data d) div unat k}"
  shows "\<exists>bucket'. rfold (\<lambda>i bucket. rbind (batch_object d k b i) (\<lambda>obj. Inr (s3_put_object (accepts i) (key i) obj bucket))) [0..<n] bucket = Inr bucket'
    \<and> (\<forall>i<n. accepts i \<longrightarrow> (\<exists>obj. bucket' (key i) = Some obj \<and> batch_object d k b i = Inr obj))
    \<and> (\<forall>x. x \<notin> key ` {i. i < n \<and> accepts i} \<longrightarrow> bucket' x = bucket x)"
  using assms(2)
proof (induction n)
  case (Suc n)
  then obtain b1 where b1: "rfold (\<lambda>i bucket. rbind (batch_object d k b i) (\<lambda>obj. Inr (s3_put_object (accepts i) (key i) obj bucket))) [0..<n] bucket = Inr b1"
    "\<forall>i<n. accepts i \<longrightarrow> (\<exists>obj. b1 (key i) = Some obj \<and> batch_object d k b i = Inr obj)"
    "\<forall>x. x \<notin> key ` {i. i < n \<and> accepts i} \<longrightarrow> b1 x = bucket x" by auto
  obtain obj where obj: "batch_object d k b n = Inr obj" using batch_object_ok[OF assms(1), of n] Suc.prems by auto
  have ne: "key i \<noteq> key n" if "i < n" for i using that Suc.prems inj_onD[OF assms(3), of i n] by auto
  define b2 where "b2 = s3_put_object (accepts n) (key n) obj b1"
  have "rfold (\<lambda>i bucket. rbind (batch_object d k b i) (\<lambda>obj. Inr (s3_put_object (accepts i) (key i) obj bucket))) [0..<Suc n] bucket = Inr b2"
    using b1(1) obj by (simp add: rfold_append b2_def)
  moreover have "\<forall>i<Suc n. accepts i \<longrightarrow> (\<exists>obj. b2 (key i) = Some obj \<and> batch_object d k b i = Inr obj)"
    using b1(2) obj ne by (auto simp: b2_def s3_put_object_def less_Suc_eq)
  moreover have "\<forall>x. x \<notin> key ` {i. i < Suc n \<and> accepts i} \<longrightarrow> b2 x = bucket x"
    using b1(3) by (auto simp: b2_def s3_put_object_def less_Suc_eq image_iff)
  ultimately show ?case by blast
qed simp

lemma num_batches:
  assumes "batches_ok d (unat k) b"
  shows "unat (sd_num_samples d div k) = length (sd_data d) div unat k" "unat (sd_num_samples d) = length (sd_data d)"
proof -
  have "unat (word_of_nat (length (sd_data d)) :: u64) = length (sd_data d)"
    using assms by (simp only: unat_of_nat) (simp add: take_bit_nat_eq_self batches_ok_def)
  then show "unat (sd_num_samples d div k) = length (sd_data d) div unat k" "unat (sd_num_samples d) = length (sd_data d)"
    by (simp_all add: sd_num_samples_def unat_div_distrib)
qed

lemma unat_batch_id: "i < 2 ^ 32 \<Longrightarrow> unat (word_of_nat i :: u64) = i"
  by (simp only: unat_of_nat) (simp add: take_bit_nat_eq_self)

lemma store_batches_ok:
  assumes ok: "batches_ok d (unat k) b" and n: "n = length (sd_data d) div unat k"
    and put: "\<And>i. put i = s3_put_object (accepts i) (pre @ to_string (word_of_nat i))"
  shows "\<exists>bucket'. store_batches put d k b bucket = Inr bucket'
    \<and> (\<forall>i<n. accepts i \<longrightarrow> (\<exists>obj. bucket' (pre @ to_string (word_of_nat i)) = Some obj \<and> batch_object d k b i = Inr obj))
    \<and> (\<forall>x. (\<nexists>s. x = pre @ s) \<longrightarrow> bucket' x = bucket x)
    \<and> (\<forall>i<n. \<not> accepts i \<longrightarrow> bucket' (pre @ to_string (word_of_nat i)) = bucket (pre @ to_string (word_of_nat i)))"
proof -
  define key where "key i = pre @ to_string (word_of_nat i)" for i :: nat
  have n32: "n < 2 ^ 32" using ok n by (simp add: batches_ok_def)
  have inj: "inj_on key {..<n}"
  proof (rule inj_onI)
    fix i j assume ij: "i \<in> {..<n}" "j \<in> {..<n}" "key i = key j"
    have e: "(word_of_nat i :: u64) = word_of_nat j"
      by (rule to_string_inj) (use ij(3) in \<open>simp only: key_def same_append_eq\<close>)
    have "i < 2 ^ 32" "j < 2 ^ 32" using ij(1,2) n32 by simp_all
    then show "i = j" using unat_batch_id[of i] unat_batch_id[of j] unfolding e by simp
  qed
  have put_key: "put = (\<lambda>i. s3_put_object (accepts i) (key i))" using put by (simp add: key_def fun_eq_iff)
  obtain b1 where b1: "rfold (\<lambda>i bucket. rbind (batch_object d k b i) (\<lambda>obj. Inr (put i obj bucket))) [0..<n] bucket = Inr b1"
    "\<forall>i<n. accepts i \<longrightarrow> (\<exists>obj. b1 (key i) = Some obj \<and> batch_object d k b i = Inr obj)"
    "\<forall>x. x \<notin> key ` {i. i < n \<and> accepts i} \<longrightarrow> b1 x = bucket x"
    using store_loop[OF ok _ inj[unfolded n], of n accepts bucket] n unfolding put_key by auto
  have "store_batches put d k b bucket = Inr b1" using b1(1) n32 num_batches(1)[OF ok] by (simp add: store_batches_def n)
  moreover have "\<forall>x. (\<nexists>s. x = pre @ s) \<longrightarrow> b1 x = bucket x" using b1(3) by (auto simp: key_def)
  moreover have "\<forall>i<n. \<not> accepts i \<longrightarrow> b1 (key i) = bucket (key i)"
  proof (intro allI impI)
    fix i assume i: "i < n" "\<not> accepts i"
    have "j = i" if "j < n" "key j = key i" for j by (rule inj_onD[OF inj that(2)]) (use that(1) i(1) in simp_all)
    then have "key i \<notin> key ` {i. i < n \<and> accepts i}" using i(2) by auto
    then show "b1 (key i) = bucket (key i)" using b1(3) by blast
  qed
  ultimately show ?thesis using b1(2) unfolding key_def by blast
qed

section \<open>What the Criteo loader leaves\<close>

lemma label_check: "label_bit l \<Longrightarrow> \<not> f32_badv l \<and> (f64_eq (f64_of_f32 l) 0 \<or> f64_eq (f64_of_f32 l) f64_one)"
proof -
  assume l: "label_bit l"
  have "\<not> f32_badv 0 \<and> \<not> f32_badv 0x3F800000" by (simp add: f32_badv_def fp_evals)
  with l label_bit_eq[OF l] show ?thesis by (auto simp: label_bit_def)
qed

lemma batch_samples: "batches_ok d k b \<Longrightarrow> i < length (sd_data d) div k \<Longrightarrow>
   length (batch d k b i) = k \<and> set (map fst (batch d k b i)) \<subseteq> set (sd_data d) \<and> (b \<longrightarrow> (\<forall>x\<in>set (map snd (batch d k b i)). label_bit x))"
  using sd_range_props(1,2,4)[OF batch_range, of d k b i] unfolding batch_def
  by (auto simp: batches_ok_def dest: in_set_dropD in_set_takeD)

lemma check_loading_ok:
  assumes ok: "batches_ok d (unat k) True" and n: "0 < length (sd_data d) div unat k" and chk: "sd_check d = Inr ()"
    and obj: "bucket (to_string SAMPLE_BASE) = Some obj" "batch_object d k True 0 = Inr obj"
  shows "lss_check_loading bucket = Inr ()"
proof -
  define ps where "ps = batch d (unat k) True 0"
  define ds where "ds = \<lparr>sd_data = map fst ps, sd_labels = map snd ps, sd_size_bytes = 0\<rparr>"
  have load: "sd_load_s3 (obj @ [0]) True True = Inr ds" using batch_object_ok[OF ok n] obj(2) by (auto simp: ps_def ds_def)
  have ps: "length ps = unat k" "set (map fst ps) \<subseteq> set (sd_data d)" "\<forall>x\<in>set (map snd ps). label_bit x"
    using batch_samples[OF ok n] by (simp_all add: ps_def)
  have k: "0 < unat k" "unat k < 1000000" using ok by (auto simp: batches_ok_def)
  have "sd_check ds = Inr ()" using chk ps(2) by (auto simp: sd_check_def ds_def)
  moreover have "sd_check_labels ds = Inr ()" using ps(3) label_check by (auto simp: sd_check_labels_def ds_def)
  moreover have "sd_get_row ds 0 = Inr (map fst ps ! 0)" using ps(1) k by (simp add: sd_get_row_def ds_def)
  moreover have "unat (sd_num_samples ds) = length ps" using ps(1) k
    by (simp only: sd_num_samples_def unat_of_nat ds_def) (simp add: take_bit_nat_eq_self)
  moreover have "rbind (vec_get (sd_labels ds) i) (\<lambda>label.
      guard_rt (\<not> (\<not> f64_eq (f64_of_f32 label) 0 \<and> \<not> f64_eq (f64_of_f32 label) f64_one)) ''Wrong label'') = Inr ()" if "i < length ps" for i
    using that ps(3) label_check by (auto simp: ds_def vec_get_def)
  ultimately show ?thesis using load obj(1)
    by (simp add: lss_check_loading_def s3_get_object_value_def s3_get_object_ptr_def)
qed

text \<open>
  The loader ends normally if the first object is accepted. What a write that is not accepted
  leaves is not looked at.
\<close>

lemma loader_ok:
  assumes size: "get_s3_size config = Inr k" and read: "lss_read_dataset files config sched = Inr d" and chk: "sd_check d = Inr ()"
    and ok: "batches_ok d (unat k) True" and n: "n = length (sd_data d) div unat k" "0 < n" and acc: "accepts 0"
  shows "\<exists>bucket'. lss_run files accepts config sched bucket = Inr bucket'
    \<and> (\<forall>i<n. accepts i \<longrightarrow> (\<exists>obj. bucket' (to_string (word_of_nat i)) = Some obj \<and> holds_samples True (unat k) obj (batch d (unat k) True i)))
    \<and> (\<forall>i<n. \<not> accepts i \<longrightarrow> bucket' (to_string (word_of_nat i)) = bucket (to_string (word_of_nat i)))"
proof -
  let ?put = "\<lambda>i. s3_put_object (accepts i) (to_string (SAMPLE_BASE + word_of_nat i))"
  have put: "?put i = s3_put_object (accepts i) ([] @ to_string (word_of_nat i))" for i by (simp add: SAMPLE_BASE_def)
  obtain b1 where b1: "store_batches ?put d k True bucket = Inr b1"
    "\<forall>i<n. accepts i \<longrightarrow> (\<exists>obj. b1 (to_string (word_of_nat i)) = Some obj \<and> batch_object d k True i = Inr obj)"
    "\<forall>i<n. \<not> accepts i \<longrightarrow> b1 (to_string (word_of_nat i)) = bucket (to_string (word_of_nat i))"
    using store_batches_ok[OF ok n(1) put, of bucket] by auto
  obtain obj where "b1 (to_string SAMPLE_BASE) = Some obj" "batch_object d k True 0 = Inr obj"
    using b1(2) n(2) acc by (force simp: SAMPLE_BASE_def)
  then have "lss_check_loading b1 = Inr ()" using check_loading_ok[OF ok _ chk] n by simp
  then have "lss_run files accepts config sched bucket = Inr b1" using size read chk b1(1) by (simp add: lss_run_def)
  moreover have "\<exists>obj. b1 (to_string (word_of_nat i)) = Some obj \<and> holds_samples True (unat k) obj (batch d (unat k) True i)"
    if "i < n" "accepts i" for i using b1(2) that batch_object_ok[OF ok, of i] n(1) by fastforce
  ultimately show ?thesis using b1(3) by blast
qed

text \<open>The objects the loader leaves are a source for the iterators of the workers, as far as they were accepted.\<close>

lemma loaded_source:
  assumes stored: "\<forall>i<n. accepts i \<longrightarrow> (\<exists>obj. bucket (to_string (word_of_nat i)) = Some obj \<and> holds_samples True (unat k) obj (batch d (unat k) True i))"
    and k: "unat k < 1000000" and lr: "l < r" "unat r \<le> n" and m: "0 < m" "m \<le> k"
    and acc: "\<forall>oid. fetched a l r oid \<longrightarrow> accepts (unat oid)" and draw: "a = Drawn \<Longrightarrow> r \<le> 2 ^ 31 \<and> uniform_int draw"
  shows "source_ok draw (\<lambda>oid. the (bucket (to_string oid))) (\<lambda>oid. batch d (unat k) True (unat oid)) l r k m True a"
proof -
  have "unat (k div m) * unat m \<le> unat k" by (simp add: unat_div_distrib)
  moreover have "unat (k div m) \<le> 1000000000"
  proof -
    have "unat (k div m) \<le> unat k" by (simp add: unat_div_distrib)
    then show ?thesis using k by simp
  qed
  moreover have "holds_samples True (unat k) (the (bucket (to_string oid))) (batch d (unat k) True (unat oid))" if mem: "fetched a l r oid" for oid
  proof -
    have "oid < r" using mem lr(1) by (auto simp: fetched_def word_less_nat_alt)
    then have "unat oid < n" using lr(2) by (simp add: word_less_nat_alt)
    then show ?thesis using stored[rule_format, of "unat oid"] acc mem by (auto simp: ucast_id)
  qed
  then have "holds_samples True (unat (k div m) * unat m) (the (bucket (to_string oid))) (batch d (unat k) True (unat oid))" if "fetched a l r oid" for oid
    using that \<open>unat (k div m) * unat m \<le> unat k\<close> by (meson holds_samples_def le_trans)
  ultimately show ?thesis using lr(1) m draw by (simp add: source_ok_def)
qed

section \<open>From a Kaggle file to training data\<close>

lemma kaggle_sample_ok:
  assumes ok: "kaggle_row_ok row" and bits: "unat (cf_model_bits config) \<le> 30"
  shows "length (fst (kaggle_sample config row)) < 1000000" "label_bit (snd (kaggle_sample config row))"
    "\<forall>v\<in>set (fst (kaggle_sample config row)). 0 \<le> sint (fst v) \<and> count_value (snd v)"
proof -
  obtain i lab cols where row: "row = (i, lab, cols)" by (cases row)
  note parsed = kaggle_features_ok[OF kaggle_row_parsed(1)[OF assms]]
  have "length (i # lab # cols) \<le> Suc 9998"
    using ok length_join_cols[of "i # lab # cols" "CHR '',''"] by (simp add: row kaggle_row_ok_def kaggle_line_def)
  then have c: "length cols < 9999" by simp
  have "length (hashed_features config cs) = card (set (map (feature_hash config) cs))" for cs
    by (simp add: hashed_features_def Let_def)
  then have "length (hashed_features config cs) \<le> length cs" for cs by (metis card_length length_map)
  from this[of "cols @ (if cf_use_bias config then [''bias''] else [])"] c
  show "length (fst (kaggle_sample config row)) < 1000000" by (simp add: row kaggle_sample_def split: if_splits)
  show "label_bit (snd (kaggle_sample config row))" by (simp add: row kaggle_sample_def label_bit_def)
  show "\<forall>v\<in>set (fst (kaggle_sample config row)). 0 \<le> sint (fst v) \<and> count_value (snd v)"
  proof
    fix v assume v: "v \<in> set (fst (kaggle_sample config row))"
    have "unat (cf_model_bits config) \<le> 31" using bits by simp
    from bspec[OF conjunct2[OF parsed[OF this]] v] obtain k where
      k: "unat (fst v) < 2 ^ unat (cf_model_bits config)" "0 < k" "k \<le> 10000" "snd v = f32_of_int k"
      by (cases v) auto
    have "(2 :: nat) ^ unat (cf_model_bits config) \<le> 2 ^ 30" using bits by (intro power_increasing) auto
    then have "unat (fst v) < 2 ^ 31" using k(1) by simp
    then have "sint (fst v) = int (unat (fst v))" using sint_small[of "unat (fst v)"] by simp
    moreover have "count_value (snd v)" unfolding count_value_def by (rule exI[of _ "nat k"]) (use k in simp)
    ultimately show "0 \<le> sint (fst v) \<and> count_value (snd v)" by simp
  qed
qed

lemma batch_take:
  assumes "length (sd_labels d) = length (sd_data d)"
  shows "batch d k True i = take k (drop (i * k) (zip (sd_data d) (sd_labels d)))"
  by (simp add: batch_def sd_range_def drop_take take_zip drop_zip)

text \<open>What normalisation makes of the samples of a Kaggle file: the features stay, and no value becomes a NaN or infinite.\<close>

definition normalised :: "configuration \<Rightarrow> sample list \<Rightarrow> sparse_dataset \<Rightarrow> bool" where
  "normalised config samples d \<longleftrightarrow>
     (if cf_normalize config then normalize_bits (cf_model_bits config) (sd_make samples (sd_labels d)) = Inr d else sd_data d = samples)"

lemma count_fin: "count_value x \<Longrightarrow> f32_fin x"
  by (auto simp: count_value_def f32_fin_def dec_count whole_def)

lemma normalised_ok:
  assumes "normalised config samples d" "map (map fst) (sd_data d) = map (map fst) samples"
    and "\<forall>s\<in>set samples. length s < 1000000 \<and> (\<forall>v\<in>set s. 0 \<le> sint (fst v) \<and> count_value (snd v))"
  shows "\<forall>row\<in>set (sd_data d). length row < 1000000 \<and> (\<forall>v\<in>set row. 0 \<le> sint (fst v) \<and> \<not> f32_badv (snd v))"
proof -
  have fin: "\<forall>row\<in>set (sd_data d). \<forall>v\<in>set row. f32_fin (snd v)"
  proof (cases "cf_normalize config")
    case True
    then have n: "normalize_bits (cf_model_bits config) (sd_make samples (sd_labels d)) = Inr d" using assms(1) by (simp add: normalised_def)
    show ?thesis
      by (rule normalised_counts[of "scast (push_bit (unat (cf_model_bits config)) 1 :: i32)" "sd_make samples (sd_labels d)"])
        (use n assms(3) in \<open>auto simp: normalize_bits_def sd_make_def Let_def split: if_splits\<close>)
  qed (use assms(1,3) count_fin in \<open>auto simp: normalised_def\<close>)
  have shape: "length row < 1000000 \<and> (\<forall>v\<in>set row. 0 \<le> sint (fst v))" if mem: "row \<in> set (sd_data d)" for row
  proof -
    have "map fst row \<in> set (map (map fst) samples)" unfolding assms(2)[symmetric] using mem by simp
    then obtain s where s: "s \<in> set samples" "map fst row = map fst s" by auto
    have "length s < 1000000" "\<forall>i\<in>set (map fst s). 0 \<le> sint i" using assms(3) s(1) by auto
    moreover have "length row = length s" using s(2) by (rule map_eq_imp_length_eq)
    ultimately show ?thesis unfolding s(2)[symmetric] by simp
  qed
  then show ?thesis using fin f32_fin_badv by blast
qed

lemma kaggle_dataset_ok:
  assumes d: "length samples = length (sd_labels d)" "normalised config samples d" "map (map fst) (sd_data d) = map (map fst) samples"
    and rows: "\<forall>p\<in>set (zip samples (sd_labels d)). \<exists>row. kaggle_row_ok row \<and> p = kaggle_sample config row"
    and bits: "unat (cf_model_bits config) \<le> 30" and small: "length samples < 2 ^ 32" and k: "0 < k" "k < 1000000"
  shows "batches_ok d k True" "sd_check d = Inr ()" "length (sd_data d) = length (sd_labels d)"
proof -
  show len: "length (sd_data d) = length (sd_labels d)" using arg_cong[OF d(3), of length] d(1) by simp
  have sample: "length s < 1000000 \<and> (\<forall>v\<in>set s. 0 \<le> sint (fst v) \<and> count_value (snd v))" if mem: "s \<in> set samples" for s
  proof -
    obtain y where "(s, y) \<in> set (zip samples (sd_labels d))" using in_set_impl_in_set_zip1[OF d(1) mem] by blast
    then obtain row where "kaggle_row_ok row" "s = fst (kaggle_sample config row)" using bspec[OF rows, of "(s, y)"] by (metis fst_conv)
    then show ?thesis using kaggle_sample_ok(1,3)[OF _ bits] by blast
  qed
  have labels: "label_bit y" if mem: "y \<in> set (sd_labels d)" for y
  proof -
    obtain s where "(s, y) \<in> set (zip samples (sd_labels d))" using in_set_impl_in_set_zip2[OF d(1) mem] by blast
    then show ?thesis using bspec[OF rows, of "(s, y)"] kaggle_sample_ok(2)[OF _ bits] by (metis snd_conv)
  qed
  have data: "\<forall>row\<in>set (sd_data d). length row < 1000000 \<and> (\<forall>v\<in>set row. 0 \<le> sint (fst v) \<and> \<not> f32_badv (snd v))"
    using normalised_ok[OF d(2,3)] sample by blast
  have "length (sd_data d) div k < 2 ^ 32" using small len d(1) by (intro le_less_trans[OF div_le_dividend]) simp
  then show "batches_ok d k True" using k small len d(1) data labels by (auto simp: batches_ok_def)
  show "sd_check d = Inr ()" using data by (force simp: sd_check_def)
qed

text \<open>
  C4: The Criteo loader turns a Kaggle file into training data: whatever its reader threads do, it
  ends, and its samples are the rows of the file, each at most once and all but at most seven, normalised if the
  configuration says so. In the bucket it leaves, object \<open>i\<close> holds the \<open>i\<close>-th group of \<open>k\<close> samples with their labels
  if the store accepted that write, so that any range of accepted objects is a source of minibatches of the
  workers. A write that fails is only reported and its object is missing; the first one has to be accepted, since the loader reads it back.
\<close>

theorem kaggle_training_data:
  assumes rows: "\<forall>row\<in>set rows. kaggle_row_ok row" "CHR 0x0A \<notin> set header" "length rows < 2 ^ 32"
    and reader: "length rows < unat (cf_limit_samples config)" "unat (cf_model_bits config) \<le> 30"
      "4 * (length (kaggle_file header rows) + 1) + 24 < rounds"
    and conf: "get_load_input_type config = Inr ''csv''" "get_load_input_path config = Inr path"
      "files path = Some (kaggle_file header rows)" "get_s3_size config = Inr k"
    and size: "unat k < 1000000" "unat k + 7 \<le> length rows" and acc: "accepts 0"
  shows "\<exists>bucket' samples d. lss_run files accepts config (sched @ concat (replicate rounds [0..<8])) bucket = Inr bucket'
    \<and> length samples = length (sd_labels d) \<and> mset (zip samples (sd_labels d)) \<subseteq># mset (map (kaggle_sample config) rows)
    \<and> length rows \<le> length samples + 7 \<and> normalised config samples d
    \<and> (\<forall>draw l r m a. l < r \<and> unat r \<le> length samples div unat k \<and> 0 < m \<and> m \<le> k
         \<and> (\<forall>oid. fetched a l r oid \<longrightarrow> accepts (unat oid)) \<and> (a = Drawn \<longrightarrow> r \<le> 2 ^ 31 \<and> uniform_int draw)
         \<longrightarrow> source_ok draw (\<lambda>oid. the (bucket' (to_string oid)))
               (\<lambda>oid. take (unat k) (drop (unat oid * unat k) (zip (sd_data d) (sd_labels d)))) l r k m True a)"
proof -
  obtain samples d where read: "read_input_criteo_kaggle_sparse (Some (kaggle_file header rows)) '','' config (sched @ concat (replicate rounds [0..<8])) = Inr d"
    and d: "length samples = length (sd_labels d)" "mset (zip samples (sd_labels d)) \<subseteq># mset (map (kaggle_sample config) rows)"
      "length rows \<le> length samples + 7" "normalised config samples d" "map (map fst) (sd_data d) = map (map fst) samples"
    using kaggle_file_ok[OF rows reader, of sched] by (auto simp: normalised_def split: if_splits)
  have "size (mset (zip samples (sd_labels d))) \<le> size (mset (map (kaggle_sample config) rows))" by (rule size_mset_mono[OF d(2)])
  then have small: "length samples < 2 ^ 32" using rows(3) d(1) by simp
  have k0: "0 < unat k" using conf(4) by (auto simp: get_s3_size_def word_greater_zero_iff unat_gt_0 split: if_splits)
  have "\<forall>p\<in>set (zip samples (sd_labels d)). \<exists>row. kaggle_row_ok row \<and> p = kaggle_sample config row"
    using mset_subset_eqD[OF d(2)] rows(1) by fastforce
  note ok = kaggle_dataset_ok[OF d(1,4,5) this reader(2) small k0 size(1)]
  have rd: "lss_read_dataset files config (sched @ concat (replicate rounds [0..<8])) = Inr d"
    using conf(1-3) read by (simp add: lss_read_dataset_def)
  define n where "n = length (sd_data d) div unat k"
  have len: "length (sd_data d) = length samples" using ok(3) d(1) by simp
  then have "unat k \<le> length (sd_data d)" using size(2) d(3) by simp
  then have n0: "0 < n" using k0 by (simp add: n_def div_greater_zero_iff)
  from loader_ok[where accepts = accepts, OF conf(4) rd ok(2,1) n_def n0 acc, of bucket] obtain b1 where
    b1: "lss_run files accepts config (sched @ concat (replicate rounds [0..<8])) bucket = Inr b1"
    "\<forall>i<n. accepts i \<longrightarrow> (\<exists>obj. b1 (to_string (word_of_nat i)) = Some obj \<and> holds_samples True (unat k) obj (batch d (unat k) True i))" by blast
  have "source_ok draw (\<lambda>oid. the (b1 (to_string oid))) (\<lambda>oid. take (unat k) (drop (unat oid * unat k) (zip (sd_data d) (sd_labels d)))) l r k m True a"
    if "l < r" "unat r \<le> length samples div unat k" "0 < m" "m \<le> k" "\<forall>oid. fetched a l r oid \<longrightarrow> accepts (unat oid)"
      "a = Drawn \<longrightarrow> r \<le> 2 ^ 31 \<and> uniform_int draw" for draw l r m a
    using loaded_source[where draw = draw, OF b1(2) size(1) that(1) _ that(3,4,5)] that(2,6) len batch_take[OF ok(3)[symmetric]]
    by (simp add: n_def)
  then show ?thesis using b1(1) d by (intro exI[of _ b1] exI[of _ samples] exI[of _ d]) simp
qed

section \<open>What the Netflix loader leaves\<close>

text \<open>
  C25: The Netflix loader never succeeds. It writes its objects under keys that no reader asks for:
  its own check looks for the first of them under another prefix and throws, and no key of the form the
  iterators use is written.
\<close>

theorem netflix_loader_fails:
  assumes size: "get_s3_size config = Inr k" and read: "lnf_read_dataset files config sched = Inr (d, info)"
    and ok: "batches_ok d (unat k) False" and fresh: "bucket ''cirrus0'' = None"
  shows "lnf_run files accepts config sched bucket = Inl (Runtime_error ''Error'')
    \<and> (\<exists>bucket'. lnf_store accepts d k bucket = Inr bucket' \<and> (\<forall>oid. bucket' (to_string oid) = bucket (to_string oid)))"
proof -
  let ?put = "\<lambda>i. s3_put_object_id (accepts i) (SAMPLE_BASE + word_of_nat i)"
  have put: "?put i = s3_put_object (accepts i) (''CIRRUS'' @ to_string (word_of_nat i))" for i
    by (simp add: fun_eq_iff s3_put_object_id_def SAMPLE_BASE_def)
  obtain b1 where b1: "lnf_store accepts d k bucket = Inr b1" "\<forall>x. (\<nexists>s. x = ''CIRRUS'' @ s) \<longrightarrow> b1 x = bucket x"
    using store_batches_ok[OF ok refl put, of bucket] by (auto simp: lnf_store_def)
  have "to_string oid \<noteq> ''CIRRUS'' @ s" for oid s
    using show_nat_hd[of "unat oid"] by (auto simp: to_string_def is_digit_def ccode_def)
  then have keys: "\<forall>oid. b1 (to_string oid) = bucket (to_string oid)" using b1(2) by blast
  have "show_nat 0 = ''0''" by code_simp
  then have "to_string SAMPLE_BASE = ''0''" by (simp add: to_string_def SAMPLE_BASE_def)
  then have "b1 (''cirrus'' @ to_string SAMPLE_BASE) = None" using b1(2)[rule_format, of "''cirrus0''"] fresh by simp
  then have "lnf_check_loading b1 = Inl (Runtime_error ''Error'')"
    by (simp add: lnf_check_loading_def s3_get_object_value_id_def s3_get_object_value_def s3_get_object_ptr_def)
  moreover have "sd_check d = Inr ()" using read by (auto simp: lnf_read_dataset_def)
  ultimately show ?thesis using size read b1(1) keys by (simp add: lnf_run_def)
qed

section \<open>Instances\<close>

definition ex_load_config :: configuration where
  "ex_load_config = conf_new\<lparr>cf_model_bits := 10, cf_limit_samples := 100, cf_normalize := True, cf_load_input_type := ''csv'',
     cf_load_input_path := ''train.csv'', cf_s3_size := 1\<rparr>"

definition ex_load_rows :: "kaggle_row list" where
  "ex_load_rows = replicate 8 (''7'', ''1'', [''68fd1e64''])"

lemma length_lines: "length (lines_text line (replicate n x)) = n * (length (line x) + 1)"
  by (simp add: lines_text_def length_concat sum_list_replicate)

theorem kaggle_training_data_witness:
  "\<exists>bucket' samples d. lss_run (\<lambda>_. Some (kaggle_file ''Id,Label,C1'' ex_load_rows)) (\<lambda>i. i < 3) ex_load_config
      ([4, 4, 0] @ concat (replicate 2000 [0..<8])) Map.empty = Inr bucket'
    \<and> mset (zip samples (sd_labels d)) \<subseteq># mset (map (kaggle_sample ex_load_config) ex_load_rows) \<and> length ex_load_rows \<le> length samples + 7
    \<and> normalised ex_load_config samples d
    \<and> source_ok (\<lambda>k l r. l) (\<lambda>oid. the (bucket' (to_string oid)))
        (\<lambda>oid. take (unat (1 :: u64)) (drop (unat oid * unat (1 :: u64)) (zip (sd_data d) (sd_labels d)))) 0 1 1 1 True Zero_first"
proof -
  have "\<exists>bucket' samples d. lss_run (\<lambda>_. Some (kaggle_file ''Id,Label,C1'' ex_load_rows)) (\<lambda>i. i < 3) ex_load_config
      ([4, 4, 0] @ concat (replicate 2000 [0..<8])) Map.empty = Inr bucket'
    \<and> length samples = length (sd_labels d) \<and> mset (zip samples (sd_labels d)) \<subseteq># mset (map (kaggle_sample ex_load_config) ex_load_rows)
    \<and> length ex_load_rows \<le> length samples + 7 \<and> normalised ex_load_config samples d
    \<and> (\<forall>draw l r m a. l < r \<and> unat r \<le> length samples div unat (1 :: u64) \<and> 0 < m \<and> m \<le> 1
         \<and> (\<forall>oid. fetched a l r oid \<longrightarrow> unat oid < 3) \<and> (a = Drawn \<longrightarrow> r \<le> 2 ^ 31 \<and> uniform_int draw)
         \<longrightarrow> source_ok draw (\<lambda>oid. the (bucket' (to_string oid)))
               (\<lambda>oid. take (unat (1 :: u64)) (drop (unat oid * unat (1 :: u64)) (zip (sd_data d) (sd_labels d)))) l r 1 m True a)"
    by (rule kaggle_training_data[where path = "''train.csv''" and accepts = "\<lambda>i. i < 3"])
      (simp_all add: ex_load_config_def ex_load_rows_def kaggle_row_ok_def kaggle_line_def kaggle_file_def length_lines
        get_load_input_type_def get_load_input_path_def get_s3_size_def conf_new_def)
  then obtain bucket' samples d where r: "lss_run (\<lambda>_. Some (kaggle_file ''Id,Label,C1'' ex_load_rows)) (\<lambda>i. i < 3) ex_load_config
      ([4, 4, 0] @ concat (replicate 2000 [0..<8])) Map.empty = Inr bucket'"
    "mset (zip samples (sd_labels d)) \<subseteq># mset (map (kaggle_sample ex_load_config) ex_load_rows)" "length ex_load_rows \<le> length samples + 7"
    "normalised ex_load_config samples d"
    "\<And>draw l r m a. l < r \<and> unat r \<le> length samples div unat (1 :: u64) \<and> 0 < m \<and> m \<le> 1
         \<and> (\<forall>oid. fetched a l r oid \<longrightarrow> unat oid < 3) \<and> (a = Drawn \<longrightarrow> r \<le> 2 ^ 31 \<and> uniform_int draw)
         \<Longrightarrow> source_ok draw (\<lambda>oid. the (bucket' (to_string oid)))
               (\<lambda>oid. take (unat (1 :: u64)) (drop (unat oid * unat (1 :: u64)) (zip (sd_data d) (sd_labels d)))) l r 1 m True a" by blast
  have "1 \<le> length samples" using r(3) by (simp add: ex_load_rows_def)
  moreover have "fetched Zero_first 0 1 oid \<longrightarrow> unat oid < 3" for oid by (auto simp: fetched_def word_less_nat_alt)
  ultimately have "source_ok (\<lambda>k l r. l) (\<lambda>oid. the (bucket' (to_string oid)))
      (\<lambda>oid. take (unat (1 :: u64)) (drop (unat oid * unat (1 :: u64)) (zip (sd_data d) (sd_labels d)))) 0 1 1 1 True Zero_first"
    by (intro r(5)) simp
  then show ?thesis using r(1-4) by blast
qed

definition ex_netflix_config :: configuration where
  "ex_netflix_config = conf_new\<lparr>cf_load_input_path := ''ratings'', cf_s3_size := 100\<rparr>"

lemma ex_netflix_read: "\<exists>d info. lnf_read_dataset (\<lambda>_. Some ex_netflix) ex_netflix_config (concat (replicate 100 [0..<8])) = Inr (d, info) \<and> batches_ok d 100 False"
proof -
  let ?rs = "map rating_value (lines_left (istream_of ex_netflix))"
  have bound: "2 * (length ex_netflix + 1) + 16 < 100" by (simp add: ex_netflix_def lines_text_def)
  obtain us d m u where r: "read_netflix_ratings (Some ex_netflix) ([] @ concat (replicate 100 [0..<8])) = Inr (d, m, u)"
    "\<forall>k<length us. mset (sd_data d ! k) = ratings_of (us ! k) (mset ?rs)" "\<forall>k. length us \<le> k \<and> k < length (sd_data d) \<longrightarrow> sd_data d ! k = []"
    "length (sd_data d) = NETFLIX_USERS"
    using netflix_file_ok[OF ex_netflix_fit bound refl, of "[]"] by blast
  have "length row < 1000000" if mem: "row \<in> set (sd_data d)" for row
  proof -
    obtain k where k: "k < length (sd_data d)" "row = sd_data d ! k" using mem by (auto simp: in_set_conv_nth)
    have le: "size (ratings_of w (mset ?rs)) \<le> size (mset ?rs)" for w
      unfolding ratings_of_def size_image_mset by (rule size_filter_mset_lesseq)
    have "size (mset row) \<le> size (mset ?rs)"
    proof (cases "k < length us")
      case True
      then show ?thesis using r(2) k(2) le by metis
    next
      case False
      then show ?thesis using r(3) k by simp
    qed
    also have "\<dots> = 3" by (simp add: ex_netflix_lines)
    finally show ?thesis by simp
  qed
  moreover have "length (sd_data d) = 480189" "sd_check d = Inr ()"
    using r(1,4) by (auto simp: read_netflix_ratings_def Let_def NETFLIX_USERS_def split: if_splits)
  ultimately show ?thesis using r(1)
    by (auto simp: lnf_read_dataset_def ex_netflix_config_def get_load_input_path_def batches_ok_def)
qed

theorem netflix_loader_fails_witness:
  "\<exists>d info. lnf_read_dataset (\<lambda>_. Some ex_netflix) ex_netflix_config (concat (replicate 100 [0..<8])) = Inr (d, info)
    \<and> lnf_run (\<lambda>_. Some ex_netflix) (\<lambda>_. True) ex_netflix_config (concat (replicate 100 [0..<8])) Map.empty = Inl (Runtime_error ''Error'')"
proof -
  obtain d info where r: "lnf_read_dataset (\<lambda>_. Some ex_netflix) ex_netflix_config (concat (replicate 100 [0..<8])) = Inr (d, info)"
    "batches_ok d 100 False" using ex_netflix_read by blast
  have "get_s3_size ex_netflix_config = Inr 100" by (simp add: get_s3_size_def ex_netflix_config_def)
  from netflix_loader_fails[where bucket = Map.empty and accepts = "\<lambda>_. True", OF this r(1)] r show ?thesis by auto
qed

end
