(* ===== verification/Poll.thy ===== *)
theory Poll
  imports Registry
begin

text \<open>
  The threads of the parameter server (\<open>PSSparseServerTask.cpp\<close>): three poll threads watch the
  connections and queue a request for each that has something to read (\<open>loop\<close>, \<open>process\<close>); four
  worker threads take the requests off the queue and serve them (\<open>gradient_f\<close>). A step of a thread
  is what it does between two accesses to what the threads share; only the handler of a request is
  one step, the \<open>serve\<close> of \<open>Server\<close>. The kernel side of the connections is the part of it that \<open>poll(2)\<close> and
  \<open>accept(2)\<close> document.
\<close>

section \<open>The state\<close>

definition NUM_POLL_THREADS :: nat where "NUM_POLL_THREADS = 3"
definition max_fds :: u64 where "max_fds = 2000"

text \<open>\<open>struct pollfd\<close> and the flags of \<open>poll\<close>.\<close>

record pollfd =
  pf_fd :: i32
  pf_events :: "16 word"
  pf_revents :: "16 word"

definition POLLIN :: "16 word" where "POLLIN = 0x01"
definition POLLERR :: "16 word" where "POLLERR = 0x08"
definition POLLHUP :: "16 word" where "POLLHUP = 0x10"
definition POLLNVAL :: "16 word" where "POLLNVAL = 0x20"

definition no_fd :: pollfd where "no_fd = \<lparr>pf_fd = 0, pf_events = 0, pf_revents = 0\<rparr>"

text \<open>The reference \<open>poll_fd\<close> of a request is a poll thread and a position in its vector.\<close>

type_synonym slot = "nat \<times> nat"

record request =
  rq_sock :: i32
  rq_id :: nat
  rq_incoming_size :: u32
  rq_poll_fd :: slot

text \<open>
  Where a thread is. In \<open>In_poll\<close> the kernel holds a copy of the descriptors and of the events asked
  for; \<open>At_scan i\<close> is the loop over the descriptors, \<open>At_post i\<close> the end of \<open>process\<close> for descriptor \<open>i\<close>.
  \<open>At_wait\<close> is the head of the loop of \<open>gradient_f\<close> and \<open>At_sem\<close> its \<open>sem_timedwait\<close>.
\<close>

datatype poll_pc = At_poll | In_poll "(i32 \<times> 16 word) list" | At_scan nat | At_post nat | At_purge | Poll_ended

datatype work_pc = At_wait | At_sem | At_pop | At_serve request | At_rearm request | At_wake request | Work_ended

record ps_threads =
  pt_fdses :: "pollfd list list"
  pt_curr_indexes :: "u64 list"
  pt_to_process :: "request list"
  pt_sem_new_req :: nat
  pt_pipefds :: "i32 list"
  pt_pipes :: "nat list"
  pt_server_sock :: i32
  pt_backlog :: "conn list"
  pt_conns :: "i32 \<rightharpoonup> conn"
  pt_server :: server
  pt_polls :: "poll_pc list"
  pt_works :: "(work_pc \<times> worker) list"

text \<open>
  \<open>main_poll_thread_fn\<close> up to the barrier: the first thread watches the socket for new connections and
  its pipe, the others their pipes. \<open>run\<close> has given each a vector of \<open>max_fds\<close> descriptors.
\<close>

definition main_poll_thread_fn :: "i32 list \<Rightarrow> i32 \<Rightarrow> nat \<Rightarrow> pollfd list \<Rightarrow> pollfd list \<times> u64" where
  "main_poll_thread_fn pipefds server_sock poll_id fds =
     (let wake = no_fd\<lparr>pf_fd := pipefds ! poll_id, pf_events := POLLIN\<rparr>
      in if poll_id = 0 then (fds[0 := no_fd\<lparr>pf_fd := server_sock, pf_events := POLLIN\<rparr>, 1 := wake], 2)
         else (fds[0 := wake], 1))"

definition threads_start :: "i32 list \<Rightarrow> i32 \<Rightarrow> worker list \<Rightarrow> server \<Rightarrow> ps_threads" where
  "threads_start pipefds server_sock buffers s =
     (let init = map (\<lambda>poll_id. main_poll_thread_fn pipefds server_sock poll_id (replicate (unat max_fds) no_fd))
                   [0..<NUM_POLL_THREADS]
      in \<lparr>pt_fdses = map fst init, pt_curr_indexes = map snd init, pt_to_process = [], pt_sem_new_req = 0,
          pt_pipefds = pipefds, pt_pipes = replicate NUM_POLL_THREADS 0, pt_server_sock = server_sock,
          pt_backlog = [], pt_conns = Map.empty, pt_server = s,
          pt_polls = replicate NUM_POLL_THREADS At_poll, pt_works = map (Pair At_wait) buffers\<rparr>)"

definition get_slot :: "slot \<Rightarrow> ps_threads \<Rightarrow> pollfd" where
  "get_slot sl y = pt_fdses y ! fst sl ! snd sl"

definition upd_slot :: "slot \<Rightarrow> (pollfd \<Rightarrow> pollfd) \<Rightarrow> ps_threads \<Rightarrow> ps_threads" where
  "upd_slot sl f y = y\<lparr>pt_fdses := (pt_fdses y)[fst sl := (pt_fdses y ! fst sl)[snd sl := f (get_slot sl y)]]\<rparr>"

definition set_poll :: "nat \<Rightarrow> poll_pc \<Rightarrow> ps_threads \<Rightarrow> ps_threads" where
  "set_poll p pc y = y\<lparr>pt_polls := (pt_polls y)[p := pc]\<rparr>"

definition set_work :: "nat \<Rightarrow> work_pc \<times> worker \<Rightarrow> ps_threads \<Rightarrow> ps_threads" where
  "set_work j pc y = y\<lparr>pt_works := (pt_works y)[j := pc]\<rparr>"

definition close_fd :: "i32 \<Rightarrow> ps_threads \<Rightarrow> ps_threads" where
  "close_fd fd y = y\<lparr>pt_conns := (pt_conns y)(fd := None)\<rparr>"

section \<open>The poll threads\<close>

text \<open>What is the matter with a descriptor; a connection that was reset is hung up.\<close>

definition conn_ready :: "conn \<Rightarrow> 16 word" where
  "conn_ready c = (if cn_in c \<noteq> [] \<or> cn_end c \<noteq> Idle then POLLIN else 0)
     OR (if cn_end c = Reset then POLLERR OR POLLHUP else 0)"

definition fd_ready :: "ps_threads \<Rightarrow> nat \<Rightarrow> i32 \<Rightarrow> 16 word" where
  "fd_ready y p fd =
     (if fd = pt_server_sock y then (if pt_backlog y = [] then 0 else POLLIN)
      else if fd = pt_pipefds y ! p then (if pt_pipes y ! p = 0 then 0 else POLLIN)
      else case pt_conns y fd of None \<Rightarrow> POLLNVAL | Some c \<Rightarrow> conn_ready c)"

definition poll_revents :: "ps_threads \<Rightarrow> nat \<Rightarrow> i32 \<times> 16 word \<Rightarrow> 16 word" where
  "poll_revents y p = (\<lambda>(fd, events).
     if sint fd < 0 then 0 else fd_ready y p fd AND (events OR POLLERR OR POLLHUP OR POLLNVAL))"

definition poll_enter :: "nat \<Rightarrow> ps_threads \<Rightarrow> ps_threads" where
  "poll_enter p y =
     set_poll p (In_poll (map (\<lambda>x. (pf_fd x, pf_events x)) (take (unat (pt_curr_indexes y ! p)) (pt_fdses y ! p)))) y"

text \<open>The kernel writes \<open>revents\<close> for the descriptors it was given.\<close>

definition revents_set :: "ps_threads \<Rightarrow> nat \<Rightarrow> (i32 \<times> 16 word) list \<Rightarrow> ps_threads" where
  "revents_set y p snap = y\<lparr>pt_fdses := (pt_fdses y)[p :=
     map2 (\<lambda>x r. x\<lparr>pf_revents := r\<rparr>) (take (length snap) (pt_fdses y ! p)) (map (poll_revents y p) snap)
       @ drop (length snap) (pt_fdses y ! p)]\<rparr>"

text \<open>
  \<open>poll\<close> returns, and \<open>loop\<close> looks at the pipe first: a byte in it only wakes the thread up. Whatever
  else is ready waits for the next call.
\<close>

definition poll_return :: "nat \<Rightarrow> (i32 \<times> 16 word) list \<Rightarrow> ps_threads \<Rightarrow> ps_threads" where
  "poll_return p snap y =
     (let poll_status = length (filter (\<lambda>x. poll_revents y p x \<noteq> 0) snap);
          y = revents_set y p snap;
          posit = (if p = 0 then 1 else 0)
      in if pf_revents (get_slot (p, posit) y) = POLLIN
         then set_poll p At_purge (upd_slot (p, posit) (\<lambda>x. x\<lparr>pf_revents := 0\<rparr>)
                (y\<lparr>pt_pipes := (pt_pipes y)[p := pt_pipes y ! p - 1]\<rparr>))
         else if poll_status = 0 then set_poll p At_purge y
         else set_poll p (At_scan 0) y)"

text \<open>\<open>poll\<close> returns \<open>- 1\<close>.\<close>

definition poll_failed :: "nat \<Rightarrow> bool \<Rightarrow> ps_threads \<Rightarrow> ps_threads res" where
  "poll_failed p interrupted y =
     (if interrupted then Inr (set_poll p At_purge y) else Inl (Runtime_error ''Server error calling poll.''))"

text \<open>
  A new connection, to the descriptor \<open>newsock\<close>; \<open>r\<close> is what \<open>rand\<close> gives. The capacity of the first
  thread is checked, and the thread drawn gets the descriptor.
\<close>

definition accept_conn :: "u64 \<Rightarrow> i32 \<Rightarrow> nat \<Rightarrow> conn \<Rightarrow> ps_threads \<Rightarrow> ps_threads res" where
  "accept_conn nworkers newsock r c y =
     (let s = pt_server y
      in if ucast (sv_num_connections s) > (nworkers * 2 + 1) - 1 then Inr y
         else if pt_curr_indexes y ! 0 = max_fds then Inl (Runtime_error ''We reached capacity'')
         else let r = r mod NUM_POLL_THREADS; i = unat (pt_curr_indexes y ! r)
              in if i \<ge> length (pt_fdses y ! r) then Inl Undefined_behaviour
                 else Inr ((upd_slot (r, i) (\<lambda>x. x\<lparr>pf_fd := newsock, pf_events := POLLIN\<rparr>) y)
                   \<lparr>pt_curr_indexes := (pt_curr_indexes y)[r := pt_curr_indexes y ! r + 1],
                    pt_conns := (pt_conns y)(newsock \<mapsto> c),
                    pt_server := s\<lparr>sv_num_connections := sv_num_connections s + 1\<rparr>\<rparr>))"

text \<open>A descriptor \<open>accept\<close> may return: not negative, and not in use.\<close>

definition unused_fd :: "i32 \<Rightarrow> ps_threads \<Rightarrow> bool" where
  "unused_fd fd y \<longleftrightarrow> fd \<noteq> pt_server_sock y \<and> fd \<notin> set (pt_pipefds y) \<and> pt_conns y fd = None"

text \<open>\<open>process\<close>, up to its \<open>sem_post\<close>.\<close>

definition process_request :: "slot \<Rightarrow> ps_threads \<Rightarrow> ps_threads" where
  "process_request sl y =
     (upd_slot sl (\<lambda>x. x\<lparr>pf_events := 0\<rparr>) y)
       \<lparr>pt_to_process := pt_to_process y
          @ [\<lparr>rq_sock = pf_fd (get_slot sl y), rq_id = fst sl, rq_incoming_size = 0, rq_poll_fd = sl\<rparr>]\<rparr>"

text \<open>One descriptor in the loop over all of them.\<close>

definition scan_fd :: "u64 \<Rightarrow> i32 \<Rightarrow> nat \<Rightarrow> nat \<Rightarrow> nat \<Rightarrow> ps_threads \<Rightarrow> ps_threads res" where
  "scan_fd nworkers newsock r p i y =
     (if unat (pt_curr_indexes y ! p) \<le> i then Inr (set_poll p At_purge y) else
      let curr_fd = get_slot (p, i) y;
          done = (\<lambda>y. set_poll p (At_scan (i + 1)) (upd_slot (p, i) (\<lambda>x. x\<lparr>pf_revents := 0\<rparr>) y))
      in if pf_fd curr_fd = - 1 then Inr (set_poll p (At_scan (i + 1)) y)
         else if pf_revents curr_fd \<noteq> POLLIN then
           (if pf_revents curr_fd AND POLLHUP \<noteq> 0
            then let s = pt_server y
                 in Inr (done (upd_slot (p, i) (\<lambda>x. x\<lparr>pf_fd := - 1\<rparr>) (close_fd (pf_fd curr_fd)
                      (y\<lparr>pt_server := s\<lparr>sv_num_connections := sv_num_connections s - 1\<rparr>\<rparr>))))
            else Inr (done y))
         else if p = 0 \<and> pf_fd curr_fd = pt_server_sock y then
           (if sint newsock < 0 then Inl (Runtime_error ''Error accepting socket'')
            else if pt_backlog y = [] \<or> \<not> unused_fd newsock y then Inr y
            else rbind (accept_conn nworkers newsock r (hd (pt_backlog y)) (y\<lparr>pt_backlog := tl (pt_backlog y)\<rparr>))
                   (\<lambda>y. Inr (done y)))
         else Inr (set_poll p (At_post i) (process_request (p, i) y)))"

text \<open>
  \<open>std::remove_if\<close> with \<open>testRemove\<close> over the whole vector: the descriptors that are left move to the
  front, what is behind them stays, and the result of \<open>remove_if\<close> is dropped.
\<close>

definition testRemove :: "pollfd \<Rightarrow> u64 \<Rightarrow> bool \<times> u64" where
  "testRemove x curr_index = (pf_fd x = - 1, if pf_fd x = - 1 then curr_index - 1 else curr_index)"

definition purge :: "nat \<Rightarrow> ps_threads \<Rightarrow> ps_threads" where
  "purge p y =
     (let fds = pt_fdses y ! p; left = filter (\<lambda>x. \<not> fst (testRemove x 0)) fds
      in if pt_curr_indexes y ! p = max_fds
         then y\<lparr>pt_fdses := (pt_fdses y)[p := left @ drop (length left) fds],
                pt_curr_indexes := (pt_curr_indexes y)[p := fold (\<lambda>x n. snd (testRemove x n)) fds (pt_curr_indexes y ! p)]\<rparr>
         else y)"

section \<open>The worker threads\<close>

text \<open>Whether the read of the operation comes to the end of the connection.\<close>

definition op_read_failed :: "conn \<Rightarrow> bool" where
  "op_read_failed c = (case read_n 4 c of Inr (r, _, _) \<Rightarrow> r = 0 | Inl _ \<Rightarrow> False)"

definition op_kills :: "conn \<Rightarrow> bool" where
  "op_kills c = (case read_n 4 c of
     Inr (r, bs, _) \<Rightarrow> r \<noteq> 0 \<and> u32_of bs = op_code KILL_SIGNAL | Inl _ \<Rightarrow> False)"

text \<open>
  A request is served on the connection that has its socket now; reading from a socket that was closed
  fails. When a read comes to the end of the connection, \<open>handle_failed_read\<close> closes the descriptor in
  the slot of the request.
\<close>

definition serve_request :: "int \<Rightarrow> nat \<Rightarrow> request \<Rightarrow> worker \<Rightarrow> ps_threads \<Rightarrow> ps_threads res" where
  "serve_request now j req w y =
     (case pt_conns y (rq_sock req) of
        None \<Rightarrow> Inl (Runtime_error ''Error reading from client. errno: '')
      | Some c \<Rightarrow>
          rbind (serve now c w (pt_server y)) (\<lambda>(c', w, s).
          let y = y\<lparr>pt_conns := (pt_conns y)(rq_sock req \<mapsto> c'), pt_server := s\<rparr>;
              y = (if cn_fd c' then y
                   else upd_slot (rq_poll_fd req) (\<lambda>x. x\<lparr>pf_fd := - 1, pf_revents := 0\<rparr>)
                          (close_fd (pf_fd (get_slot (rq_poll_fd req) y)) y))
          in Inr (set_work j (if op_read_failed c then At_wait else if op_kills c then Work_ended else At_rearm req, w) y)))"

text \<open>
  A worker takes a request off the queue and reads the descriptor to serve from its slot; \<open>rq_sock\<close> holds
  it from then on, since nothing reads the socket that \<open>process\<close> has put there.
\<close>

definition gradient_f :: "int \<Rightarrow> nat \<Rightarrow> ps_threads \<Rightarrow> ps_threads res" where
  "gradient_f now j y =
     (if j \<ge> length (pt_works y) then Inr y else case pt_works y ! j of (pc, w) \<Rightarrow> case pc of
       At_wait \<Rightarrow>
         Inr (set_work j (if sv_kill (pt_server y) then Work_ended else At_sem, w) y)
     | At_sem \<Rightarrow>
         Inr (if pt_sem_new_req y = 0 then y
              else set_work j (At_pop, w) (y\<lparr>pt_sem_new_req := pt_sem_new_req y - 1\<rparr>))
     | At_pop \<Rightarrow>
         (case pt_to_process y of
            [] \<Rightarrow> Inl Undefined_behaviour
          | req # reqs \<Rightarrow>
              let sock = pf_fd (get_slot (rq_poll_fd req) y)
              in Inr (set_work j (At_serve (req\<lparr>rq_sock := sock\<rparr>), w) (y\<lparr>pt_to_process := reqs\<rparr>)))
     | At_serve req \<Rightarrow> unless_blocked y (serve_request now j req w y)
     | At_rearm req \<Rightarrow>
         Inr (set_work j (At_wake req, w) (upd_slot (rq_poll_fd req) (\<lambda>x. x\<lparr>pf_events := POLLIN\<rparr>) y))
     | At_wake req \<Rightarrow>
         Inr (set_work j (At_wait, w) (y\<lparr>pt_pipes := (pt_pipes y)[rq_id req := pt_pipes y ! rq_id req + 1]\<rparr>))
     | Work_ended \<Rightarrow> Inr y)"

text \<open>The other end of \<open>sem_timedwait\<close>: it times out, while there is nothing to take.\<close>

definition sem_timeout :: "nat \<Rightarrow> ps_threads \<Rightarrow> ps_threads" where
  "sem_timeout j y =
     (if j \<ge> length (pt_works y) then y else case pt_works y ! j of (pc, w) \<Rightarrow>
        if pc = At_sem \<and> pt_sem_new_req y = 0
        then set_work j (if sv_kill (pt_server y) then Work_ended else At_wait, w) y else y)"

section \<open>The system\<close>

text \<open>
  A turn of poll thread \<open>p\<close>, in which \<open>accept\<close> returns \<open>newsock\<close> and \<open>rand\<close> gives \<open>r\<close>; a call of \<open>poll\<close> that
  fails; a turn of worker \<open>j\<close>, or the end of its wait for a request; and what the clients do.
\<close>

datatype ps_action =
    Poll_turn nat i32 nat
  | Poll_fails nat bool
  | Work_turn nat int
  | Work_timeout nat
  | New_client
  | Client_sends i32 "byte list"
  | Client_closes i32
  | Client_resets i32
  | Main_turn u64 int

definition on_conn :: "i32 \<Rightarrow> (conn \<Rightarrow> conn) \<Rightarrow> ps_threads \<Rightarrow> ps_threads" where
  "on_conn fd f y = y\<lparr>pt_conns := (pt_conns y)(fd := map_option f (pt_conns y fd))\<rparr>"

definition loop_step :: "u64 \<Rightarrow> i32 \<Rightarrow> nat \<Rightarrow> nat \<Rightarrow> ps_threads \<Rightarrow> ps_threads res" where
  "loop_step nworkers newsock r p y =
     (if p \<ge> length (pt_polls y) then Inr y else case pt_polls y ! p of
       At_poll \<Rightarrow> Inr (poll_enter p y)
     | In_poll snap \<Rightarrow> Inr (poll_return p snap y)
     | At_scan i \<Rightarrow> scan_fd nworkers newsock r p i y
     | At_post i \<Rightarrow>
         Inr (set_poll p (At_scan (i + 1)) (upd_slot (p, i) (\<lambda>x. x\<lparr>pf_revents := 0\<rparr>)
           (y\<lparr>pt_sem_new_req := pt_sem_new_req y + 1\<rparr>)))
     | At_purge \<Rightarrow> Inr (set_poll p (if sv_kill (pt_server y) then Poll_ended else At_poll) (purge p y))
     | Poll_ended \<Rightarrow> Inr y)"

fun ps_turn :: "u64 \<Rightarrow> ps_action \<Rightarrow> ps_threads \<Rightarrow> ps_threads res" where
  "ps_turn nworkers (Poll_turn p newsock r) y = loop_step nworkers newsock r p y"
| "ps_turn nworkers (Poll_fails p interrupted) y =
     (if p \<ge> length (pt_polls y) then Inr y
      else case pt_polls y ! p of In_poll _ \<Rightarrow> poll_failed p interrupted y | _ \<Rightarrow> Inr y)"
| "ps_turn nworkers (Work_turn j now) y = gradient_f now j y"
| "ps_turn nworkers (Work_timeout j) y = Inr (sem_timeout j y)"
| "ps_turn nworkers New_client y = Inr (y\<lparr>pt_backlog := pt_backlog y @ [conn_of []]\<rparr>)"
| "ps_turn nworkers (Client_sends fd bs) y =
     Inr (on_conn fd (\<lambda>c. if cn_end c = Idle then c\<lparr>cn_in := cn_in c @ bs\<rparr> else c) y)"
| "ps_turn nworkers (Client_closes fd) y =
     Inr (on_conn fd (\<lambda>c. if cn_end c = Idle then c\<lparr>cn_end := Eof\<rparr> else c) y)"
| "ps_turn nworkers (Client_resets fd) y =
     Inr (on_conn fd (\<lambda>c. c\<lparr>cn_end := Reset, cn_in := [], cn_room := Some 0\<rparr>) y)"
| "ps_turn nworkers (Main_turn elapsed_us now) y =
     rbind (run_tick elapsed_us now (pt_server y)) (\<lambda>s. Inr (y\<lparr>pt_server := s\<rparr>))"

definition ps_run :: "u64 \<Rightarrow> ps_action list \<Rightarrow> ps_threads \<Rightarrow> ps_threads res" where
  "ps_run nworkers acts y = rfold (ps_turn nworkers) acts y"

section \<open>What a handler leaves of its connection\<close>

lemma read_n_end: "read_n n c = Inr (r, bs, c') \<Longrightarrow> cn_end c' = cn_end c"
  by (auto simp: read_n_def split: if_splits stream_end.splits)

lemma send_n_end: "(ret, c') = send_n bs c \<Longrightarrow> cn_end c' = cn_end c" "send_n bs c = (ret, c') \<Longrightarrow> cn_end c' = cn_end c"
  by (auto simp: send_n_def split: if_splits option.splits)

lemma end_read_or_close:
  assumes "\<And>c'. cn_end c' = cn_end c \<Longrightarrow> Q (False, c', w, s\<lparr>sv_num_connections := sv_num_connections s - 1\<rparr>)"
    and "\<And>bs c'. cn_end c' = cn_end c \<Longrightarrow> ensures (k bs c') Q"
  shows "ensures (read_or_close n c w s k) Q"
  unfolding read_or_close_def handle_failed_read_def prod.case
  by (intro ensures_rules) (auto dest!: read_n_end intro: assms)

lemma end_read_buffer:
  assumes "\<And>c' w'. cn_end c' = cn_end c \<Longrightarrow> Q (False, c', w', s)"
    and "\<And>c' w'. cn_end c' = cn_end c \<Longrightarrow> ensures (k c' w') Q"
  shows "ensures (read_buffer n c w s k) Q"
  unfolding read_buffer_def by (intro ensures_rules) (auto dest!: read_n_end intro: assms)

lemma end_read_message:
  assumes "\<And>c'. cn_end c' = cn_end c \<Longrightarrow> Q (False, c', w, s\<lparr>sv_num_connections := sv_num_connections s - 1\<rparr>)"
    and "\<And>c' w'. cn_end c' = cn_end c \<Longrightarrow> Q (False, c', w', s)"
    and "\<And>c' w'. cn_end c' = cn_end c \<Longrightarrow> ensures (k c' w') Q"
  shows "ensures (read_message c w s k) Q"
  unfolding read_message_def Let_def
  by (intro end_read_or_close ensures_bind end_read_buffer assms) auto

lemma rethrow_Inr: "rethrow msg m = Inr x \<Longrightarrow> m = Inr x"
  by (auto simp: rethrow_def split: sum.splits cpp_error.splits)

lemma end_read_message_try:
  assumes "\<And>c'. cn_end c' = cn_end c \<Longrightarrow> Q (False, c', w, s\<lparr>sv_num_connections := sv_num_connections s - 1\<rparr>)"
    and "\<And>c' w'. cn_end c' = cn_end c \<Longrightarrow> Q (False, c', w', s)"
    and "\<And>c' w'. cn_end c' = cn_end c \<Longrightarrow> ensures (k c' w') Q"
  shows "ensures (read_message_try c w s k) Q"
  unfolding read_message_try_def Let_def
  by (intro end_read_or_close ensures_bind ensures_prod ensures_if ensures_Inr assms)
     (auto dest!: rethrow_Inr read_n_end)

lemmas end_rules = end_read_or_close end_read_message end_read_message_try
  ensures_bind ensures_Inr ensures_Inl ensures_if ensures_prod ensures_option ensures_let

lemma end_handler:
  assumes "operation_to_f now x = Some f"
  shows "ensures (f c w s) (\<lambda>(_, c', _, _). cn_end c' = cn_end c)"
proof -
  have "f \<in> set (map snd [(op_code SEND_LR_GRADIENT, process_send_lr_gradient),
      (op_code SEND_MF_GRADIENT, process_send_mf_gradient),
      (op_code GET_LR_SPARSE_MODEL, process_get_lr_sparse_model),
      (op_code GET_MF_SPARSE_MODEL, process_get_mf_sparse_model),
      (op_code GET_MF_FULL_MODEL, process_get_mf_full_model),
      (op_code GET_LR_FULL_MODEL, process_get_lr_full_model),
      (op_code SET_TASK_STATUS, process_set_task_status),
      (op_code GET_TASK_STATUS, process_get_task_status),
      (op_code GET_NUM_CONNS, process_get_num_conns),
      (op_code GET_NUM_UPDATES, process_get_num_updates),
      (op_code REGISTER_TASK, process_register_task now),
      (op_code DEREGISTER_TASK, process_deregister_task),
      (op_code SET_VALUE, process_set_value),
      (op_code GET_VALUE, process_get_value)])"
    using map_of_SomeD[OF assms[unfolded operation_to_f_def]] by (auto simp del: op_code.simps)
  then show ?thesis
    by (simp only: list.map list.set snd_conv)
       (elim insertE emptyE; simp only: handler_defs process_register_task_def process_deregister_task_def load_then_def;
        intro end_rules; (auto dest!: read_n_end send_n_end)?)
qed

lemma serve_end:
  assumes "serve now c w s = Inr (c', w', s')"
  shows "cn_end c' = cn_end c"
proof -
  have h: "cn_end c1 = cn_end c" if "operation_to_f now x = Some f" "f c w s = Inr (b, c1, w1, t)" for f x c w b c1 w1 t
    using end_handler[OF that(1), of c w s] that(2) by (simp add: ensures_def)
  have "ensures (serve now c w s) (\<lambda>(c', _, _). cn_end c' = cn_end c)"
    unfolding serve_def handle_failed_read_def prod.case Let_def
    by (intro ensures_rules) (auto dest!: read_n_end dest: h)
  with assms show ?thesis by (simp add: ensures_def)
qed

end
