(* ===== verification/PollInv.thy ===== *)
theory PollInv
  imports Poll
begin

text \<open>
  What the poll threads keep: the invariant of the threads of the server, \<open>ps_inv\<close>, and that every
  turn of a poll thread and everything a client does preserves it. The bound \<open>n\<close> counts the slots that
  are in use or will be; below \<open>max_fds\<close> no thread runs out of them.
\<close>

section \<open>The invariant\<close>

text \<open>The slots of connections follow those of the socket for new connections and the pipe.\<close>

definition first_conn :: "nat \<Rightarrow> nat" where "first_conn p = (if p = 0 then 2 else 1)"
definition wake_slot :: "nat \<Rightarrow> slot" where "wake_slot p = (p, if p = 0 then 1 else 0)"

definition conn_slot :: "ps_threads \<Rightarrow> slot \<Rightarrow> bool" where
  "conn_slot y s \<longleftrightarrow> fst s < 3 \<and> first_conn (fst s) \<le> snd s \<and> snd s < unat (pt_curr_indexes y ! fst s)"

definition live :: "ps_threads \<Rightarrow> slot \<Rightarrow> bool" where
  "live y s \<longleftrightarrow> conn_slot y s \<and> pf_fd (get_slot s y) \<noteq> - 1"

text \<open>The requests for a slot that are queued, served, or served and not armed again.\<close>

fun held :: "slot \<Rightarrow> work_pc \<Rightarrow> nat" where
  "held s (At_serve r) = of_bool (rq_poll_fd r = s)"
| "held s (At_rearm r) = of_bool (rq_poll_fd r = s)"
| "held s _ = 0"

definition requests_for :: "slot \<Rightarrow> ps_threads \<Rightarrow> nat" where
  "requests_for s y = length (filter (\<lambda>r. rq_poll_fd r = s) (pt_to_process y)) + sum_list (map (\<lambda>x. held s (fst x)) (pt_works y))"

definition pending :: "ps_threads \<Rightarrow> request set" where
  "pending y = set (pt_to_process y) \<union> {r. \<exists>w. (At_serve r, w) \<in> set (pt_works y)}"

definition served :: "ps_threads \<Rightarrow> request set" where
  "served y = {r. \<exists>w. (At_rearm r, w) \<in> set (pt_works y) \<or> (At_wake r, w) \<in> set (pt_works y)}"

definition readable :: "ps_threads \<Rightarrow> i32 \<Rightarrow> bool" where
  "readable y fd \<longleftrightarrow> (\<exists>c. pt_conns y fd = Some c \<and> (cn_in c \<noteq> [] \<or> cn_end c \<noteq> Idle))"

definition shape_ok :: "nat \<Rightarrow> ps_threads \<Rightarrow> bool" where
  "shape_ok n y \<longleftrightarrow> length (pt_fdses y) = 3 \<and> (\<forall>p<3. length (pt_fdses y ! p) = 2000) \<and> length (pt_curr_indexes y) = 3
     \<and> length (pt_pipes y) = 3 \<and> length (pt_pipefds y) = 3 \<and> length (pt_polls y) = 3
     \<and> (\<forall>p<3. first_conn p \<le> unat (pt_curr_indexes y ! p) \<and> unat (pt_curr_indexes y ! p) + length (pt_backlog y) \<le> n)
     \<and> pt_server_sock y \<notin> set (pt_pipefds y)"

definition watch_ok :: "ps_threads \<Rightarrow> bool" where
  "watch_ok y \<longleftrightarrow> (\<forall>p<3. pf_fd (get_slot (wake_slot p) y) = pt_pipefds y ! p \<and> pf_events (get_slot (wake_slot p) y) = POLLIN)
     \<and> pf_fd (get_slot (0, 0) y) = pt_server_sock y \<and> pf_events (get_slot (0, 0) y) = POLLIN"

definition conn_ok :: "conn \<Rightarrow> bool" where
  "conn_ok c \<longleftrightarrow> cn_fd c \<and> cn_end c \<noteq> Reset"

definition conns_ok :: "ps_threads \<Rightarrow> bool" where
  "conns_ok y \<longleftrightarrow> (\<forall>c\<in>set (pt_backlog y). conn_ok c)
     \<and> (\<forall>fd c. pt_conns y fd = Some c \<longrightarrow> conn_ok c \<and> unused_fd fd (y\<lparr>pt_conns := Map.empty\<rparr>) \<and> 0 \<le> sint fd)"

definition slots_ok :: "ps_threads \<Rightarrow> bool" where
  "slots_ok y \<longleftrightarrow> (\<forall>s. conn_slot y s \<longrightarrow> pf_events (get_slot s y) \<in> {0, POLLIN}
        \<and> (pf_fd (get_slot s y) \<noteq> - 1 \<longrightarrow> pt_conns y (pf_fd (get_slot s y)) \<noteq> None
              \<and> requests_for s y = of_bool (pf_events (get_slot s y) = 0)))
     \<and> (\<forall>s t. live y s \<longrightarrow> live y t \<longrightarrow> pf_fd (get_slot s y) = pf_fd (get_slot t y) \<longrightarrow> s = t)
     \<and> (\<forall>fd. pt_conns y fd \<noteq> None \<longrightarrow> (\<exists>s. live y s \<and> pf_fd (get_slot s y) = fd))
     \<and> (\<forall>p<3. \<forall>i<2000. unat (pt_curr_indexes y ! p) \<le> i \<longrightarrow> get_slot (p, i) y = no_fd)"

definition requests_ok :: "ps_threads \<Rightarrow> bool" where
  "requests_ok y \<longleftrightarrow> (\<forall>r\<in>pending y. live y (rq_poll_fd r) \<and> pf_fd (get_slot (rq_poll_fd r) y) = rq_sock r
        \<and> rq_id r = fst (rq_poll_fd r) \<and> readable y (rq_sock r))
     \<and> (\<forall>r\<in>served y. conn_slot y (rq_poll_fd r) \<and> rq_id r = fst (rq_poll_fd r))"

definition posting :: "poll_pc \<Rightarrow> nat" where
  "posting pc = (case pc of At_post _ \<Rightarrow> 1 | _ \<Rightarrow> 0)"

definition sem_ok :: "ps_threads \<Rightarrow> bool" where
  "sem_ok y \<longleftrightarrow> pt_sem_new_req y + sum_list (map (\<lambda>x. of_bool (fst x = At_pop)) (pt_works y))
     + sum_list (map posting (pt_polls y)) = length (pt_to_process y)"

definition woken :: "ps_threads \<Rightarrow> nat \<Rightarrow> bool" where
  "woken y p \<longleftrightarrow> 0 < pt_pipes y ! p \<or> (\<exists>r w. (At_wake r, w) \<in> set (pt_works y) \<and> rq_id r = p)"

text \<open>
  What a poll thread may rely on: in \<open>poll\<close>, a descriptor it waits for stays armed, and one that was
  armed since comes with a wake-up; in the loop over the descriptors, one that is still to come and
  has something to read is armed, so that no request for it is under way.
\<close>

definition snap_ok :: "ps_threads \<Rightarrow> slot \<Rightarrow> i32 \<times> 16 word \<Rightarrow> bool" where
  "snap_ok y s x \<longleftrightarrow> snd x \<in> {0, POLLIN}
     \<and> (snd x = POLLIN \<longrightarrow> fst x = pf_fd (get_slot s y) \<and> (fst x \<noteq> - 1 \<longrightarrow> pf_events (get_slot s y) = POLLIN))
     \<and> (snd x = 0 \<and> live y s \<and> pf_events (get_slot s y) = POLLIN \<longrightarrow> woken y (fst s))"

definition seen_ok :: "ps_threads \<Rightarrow> slot \<Rightarrow> bool" where
  "seen_ok y s \<longleftrightarrow> pf_revents (get_slot s y) AND POLLHUP = 0
     \<and> (pf_revents (get_slot s y) = POLLIN \<and> pf_fd (get_slot s y) \<noteq> - 1
        \<longrightarrow> pf_events (get_slot s y) = POLLIN \<and> readable y (pf_fd (get_slot s y)))"

definition scan_ok :: "ps_threads \<Rightarrow> nat \<Rightarrow> nat \<Rightarrow> bool" where
  "scan_ok y p k \<longleftrightarrow> pf_revents (get_slot (wake_slot p) y) = 0
     \<and> (p = 0 \<longrightarrow> pf_revents (get_slot (0, 0) y) AND POLLHUP = 0)
     \<and> (\<forall>i\<ge>k. conn_slot y (p, i) \<longrightarrow> seen_ok y (p, i))"

fun at_ok :: "ps_threads \<Rightarrow> nat \<Rightarrow> poll_pc \<Rightarrow> bool" where
  "at_ok y p (In_poll snap) \<longleftrightarrow> first_conn p \<le> length snap \<and> length snap \<le> unat (pt_curr_indexes y ! p)
     \<and> snap ! snd (wake_slot p) = (pt_pipefds y ! p, POLLIN) \<and> (p = 0 \<longrightarrow> snap ! 0 = (pt_server_sock y, POLLIN))
     \<and> (\<forall>i<length snap. first_conn p \<le> i \<longrightarrow> snap_ok y (p, i) (snap ! i))
     \<and> (\<forall>i\<ge>length snap. conn_slot y (p, i) \<longrightarrow> pf_revents (get_slot (p, i) y) = 0)"
| "at_ok y p (At_scan k) \<longleftrightarrow> scan_ok y p k"
| "at_ok y p (At_post k) \<longleftrightarrow> conn_slot y (p, k) \<and> scan_ok y p (k + 1)"
| "at_ok y p _ \<longleftrightarrow> True"

definition ps_inv :: "nat \<Rightarrow> ps_threads \<Rightarrow> bool" where
  "ps_inv n y \<longleftrightarrow> shape_ok n y \<and> watch_ok y \<and> conns_ok y \<and> slots_ok y \<and> requests_ok y \<and> sem_ok y
     \<and> (\<forall>p<3. at_ok y p (pt_polls y ! p))"

section \<open>Access to the state\<close>

lemma get_slot_other [simp]:
  "get_slot s (y\<lparr>pt_to_process := q\<rparr>) = get_slot s y" "get_slot s (y\<lparr>pt_sem_new_req := k\<rparr>) = get_slot s y"
  "get_slot s (y\<lparr>pt_pipes := ps\<rparr>) = get_slot s y" "get_slot s (y\<lparr>pt_backlog := b\<rparr>) = get_slot s y"
  "get_slot s (y\<lparr>pt_conns := cs\<rparr>) = get_slot s y" "get_slot s (y\<lparr>pt_server := sv\<rparr>) = get_slot s y"
  "get_slot s (y\<lparr>pt_polls := pl\<rparr>) = get_slot s y" "get_slot s (y\<lparr>pt_works := ws\<rparr>) = get_slot s y"
  "get_slot s (y\<lparr>pt_curr_indexes := ci\<rparr>) = get_slot s y"
  by (simp_all add: get_slot_def)

lemma upd_slot_other [simp]:
  "pt_curr_indexes (upd_slot s f y) = pt_curr_indexes y" "pt_to_process (upd_slot s f y) = pt_to_process y"
  "pt_sem_new_req (upd_slot s f y) = pt_sem_new_req y" "pt_pipefds (upd_slot s f y) = pt_pipefds y"
  "pt_pipes (upd_slot s f y) = pt_pipes y" "pt_server_sock (upd_slot s f y) = pt_server_sock y"
  "pt_backlog (upd_slot s f y) = pt_backlog y" "pt_conns (upd_slot s f y) = pt_conns y"
  "pt_server (upd_slot s f y) = pt_server y" "pt_polls (upd_slot s f y) = pt_polls y"
  "pt_works (upd_slot s f y) = pt_works y"
  by (simp_all add: upd_slot_def)

lemma get_upd_same: "c < length (pt_fdses y) \<Longrightarrow> d < length (pt_fdses y ! c) \<Longrightarrow>
    get_slot (c, d) (upd_slot (c, d) f y) = f (get_slot (c, d) y)"
  unfolding get_slot_def upd_slot_def by simp

lemma get_upd_other: "s \<noteq> t \<Longrightarrow> get_slot s (upd_slot t f y) = get_slot s y"
proof -
  assume ne: "s \<noteq> t"
  obtain a b c d where st: "s = (a, b)" "t = (c, d)" by (metis prod.exhaust)
  have "get_slot (a, b) (upd_slot (c, d) f y) = get_slot (a, b) y"
    using ne unfolding get_slot_def upd_slot_def st by (cases "a = c"; cases "c < length (pt_fdses y)"; simp add: not_less list_update_beyond)
  then show ?thesis unfolding st .
qed

lemma get_upd_slot:
  assumes "fst t < length (pt_fdses y)" "snd t < length (pt_fdses y ! fst t)"
  shows "get_slot s (upd_slot t f y) = (if s = t then f (get_slot t y) else get_slot s y)"
proof (cases "s = t")
  case True
  obtain c d where t: "t = (c, d)" by (cases t)
  show ?thesis using assms unfolding True t fst_conv snd_conv by (simp only: get_upd_same simp_thms if_True)
next
  case False
  then show ?thesis using get_upd_other[OF False] by (simp only: if_False)
qed

lemma upd_slot_shape [simp]:
  "length (pt_fdses (upd_slot t f y)) = length (pt_fdses y)"
  "length (pt_fdses (upd_slot t f y) ! p) = length (pt_fdses y ! p)"
proof -
  show "length (pt_fdses (upd_slot t f y)) = length (pt_fdses y)" unfolding upd_slot_def by simp
  have "length (xss[a := (xss ! a)[b := z]] ! p) = length (xss ! p)" for xss :: "pollfd list list" and a b z
    by (cases "a < length xss"; cases "p = a"; simp add: list_update_beyond)
  then show "length (pt_fdses (upd_slot t f y) ! p) = length (pt_fdses y ! p)" unfolding upd_slot_def by simp
qed

text \<open>The invariant does not look at the state of the server, nor at the buffers of the workers.\<close>

lemmas inv_defs = shape_ok_def watch_ok_def conns_ok_def slots_ok_def requests_ok_def sem_ok_def

lemma flags [simp]: "POLLIN \<noteq> 0" "POLLIN AND POLLHUP = 0" "POLLNVAL \<noteq> POLLIN" "POLLNVAL AND POLLHUP = 0" "0 \<noteq> POLLIN"
  by (simp_all add: POLLIN_def POLLHUP_def POLLNVAL_def)

lemma set_poll_fields [simp]:
  "pt_fdses (set_poll p pc y) = pt_fdses y" "pt_curr_indexes (set_poll p pc y) = pt_curr_indexes y"
  "pt_to_process (set_poll p pc y) = pt_to_process y" "pt_sem_new_req (set_poll p pc y) = pt_sem_new_req y"
  "pt_pipefds (set_poll p pc y) = pt_pipefds y" "pt_pipes (set_poll p pc y) = pt_pipes y"
  "pt_server_sock (set_poll p pc y) = pt_server_sock y" "pt_backlog (set_poll p pc y) = pt_backlog y"
  "pt_conns (set_poll p pc y) = pt_conns y" "pt_works (set_poll p pc y) = pt_works y"
  "pt_polls (set_poll p pc y) = (pt_polls y)[p := pc]" "get_slot s (set_poll p pc y) = get_slot s y"
  "pt_server (set_poll p pc y) = pt_server y"
  by (simp_all add: set_poll_def)

lemma set_work_fields [simp]:
  "pt_fdses (set_work j x y) = pt_fdses y" "pt_curr_indexes (set_work j x y) = pt_curr_indexes y"
  "pt_to_process (set_work j x y) = pt_to_process y" "pt_sem_new_req (set_work j x y) = pt_sem_new_req y"
  "pt_pipefds (set_work j x y) = pt_pipefds y" "pt_pipes (set_work j x y) = pt_pipes y"
  "pt_server_sock (set_work j x y) = pt_server_sock y" "pt_backlog (set_work j x y) = pt_backlog y"
  "pt_conns (set_work j x y) = pt_conns y" "pt_works (set_work j x y) = (pt_works y)[j := x]"
  "pt_polls (set_work j x y) = pt_polls y" "get_slot s (set_work j x y) = get_slot s y"
  "pt_server (set_work j x y) = pt_server y"
  by (simp_all add: set_work_def)

text \<open>What the invariant says of a state is what the state holds, so it can be moved to another.\<close>

definition same_conns :: "ps_threads \<Rightarrow> ps_threads \<Rightarrow> bool" where
  "same_conns y y' \<longleftrightarrow> pt_curr_indexes y' = pt_curr_indexes y \<and> pt_conns y' = pt_conns y \<and> pt_works y' = pt_works y
     \<and> pt_to_process y' = pt_to_process y \<and> pt_pipefds y' = pt_pipefds y \<and> pt_server_sock y' = pt_server_sock y
     \<and> (\<forall>s. pf_fd (get_slot s y') = pf_fd (get_slot s y) \<and> pf_events (get_slot s y') = pf_events (get_slot s y))"

lemma parts_cong:
  assumes "same_conns y y'"
  shows "conn_slot y' = conn_slot y" "live y' = live y" "requests_for s y' = requests_for s y" "pending y' = pending y"
    "served y' = served y" "readable y' = readable y" "watch_ok y' = watch_ok y" "requests_ok y' = requests_ok y"
    "(\<And>s. get_slot s y' = get_slot s y \<or> snd s < unat (pt_curr_indexes y ! fst s) \<or> pf_revents (get_slot s y') = 0) \<Longrightarrow> slots_ok y \<Longrightarrow> slots_ok y'"
proof -
  have e: "pf_fd (get_slot s y') = pf_fd (get_slot s y)" "pf_events (get_slot s y') = pf_events (get_slot s y)" for s
    using assms unfolding same_conns_def by blast+
  have f: "pt_curr_indexes y' = pt_curr_indexes y" "pt_conns y' = pt_conns y" "pt_works y' = pt_works y"
    "pt_to_process y' = pt_to_process y" "pt_pipefds y' = pt_pipefds y" "pt_server_sock y' = pt_server_sock y"
    using assms unfolding same_conns_def by blast+
  show c: "conn_slot y' = conn_slot y" and r: "requests_for s y' = requests_for s y" for s
    by (simp_all add: f fun_eq_iff conn_slot_def requests_for_def)
  show l: "live y' = live y" by (simp add: e c fun_eq_iff live_def)
  show p: "pending y' = pending y" "served y' = served y" and d: "readable y' = readable y"
    by (simp_all add: f pending_def served_def readable_def fun_eq_iff)
  show "watch_ok y' = watch_ok y" by (simp add: e f watch_ok_def)
  show "requests_ok y' = requests_ok y" by (simp add: e f c l p d requests_ok_def)
  assume ch: "\<And>s. get_slot s y' = get_slot s y \<or> snd s < unat (pt_curr_indexes y ! fst s) \<or> pf_revents (get_slot s y') = 0" and ok: "slots_ok y"
  have "get_slot (p, i) y' = no_fd" if "p < 3" "i < 2000" "unat (pt_curr_indexes y ! p) \<le> i" for p i
  proof -
    have o: "get_slot (p, i) y = no_fd" using ok that by (simp add: slots_ok_def)
    have "get_slot (p, i) y' = no_fd \<or> pf_revents (get_slot (p, i) y') = 0" using ch[of "(p, i)"] o that(3) by simp
    moreover have "pf_fd (get_slot (p, i) y') = pf_fd no_fd" "pf_events (get_slot (p, i) y') = pf_events no_fd"
      using o by (simp_all add: e)
    ultimately show ?thesis by (auto simp: no_fd_def)
  qed
  then show "slots_ok y'" using ok by (simp add: e f c r l slots_ok_def)
qed

lemma at_ok_cong:
  assumes "same_conns y y'" "\<And>i. pf_revents (get_slot (p, i) y') = pf_revents (get_slot (p, i) y) \<or> pf_revents (get_slot (p, i) y') = 0"
    and "pt_pipes y' ! p = pt_pipes y ! p" "at_ok y p pc"
  shows "at_ok y' p pc"
proof -
  note c = parts_cong(1,2,6)[OF assms(1)]
  have e: "pf_fd (get_slot s y') = pf_fd (get_slot s y)" "pf_events (get_slot s y') = pf_events (get_slot s y)" for s
    using assms(1) unfolding same_conns_def by blast+
  have f: "pt_curr_indexes y' = pt_curr_indexes y" "pt_works y' = pt_works y" "pt_pipefds y' = pt_pipefds y"
    "pt_server_sock y' = pt_server_sock y"
    using assms(1) unfolding same_conns_def by blast+
  have s: "seen_ok y (p, i) \<Longrightarrow> seen_ok y' (p, i)" for i using assms(2)[of i] by (auto simp: e c seen_ok_def)
  have "woken y p = woken y' p" using assms(3) by (simp add: f woken_def)
  then have n: "snap_ok y' (p, i) = snap_ok y (p, i)" for i by (simp add: e c fun_eq_iff snap_ok_def)
  have "pf_revents (get_slot (wake_slot p) y) = 0 \<Longrightarrow> pf_revents (get_slot (wake_slot p) y') = 0"
    using assms(2)[of "snd (wake_slot p)"] by (auto simp: wake_slot_def)
  moreover have "p = 0 \<Longrightarrow> pf_revents (get_slot (0, 0) y) AND POLLHUP = 0 \<Longrightarrow> pf_revents (get_slot (0, 0) y') AND POLLHUP = 0"
    using assms(2)[of 0] by auto
  ultimately have k: "scan_ok y p k \<Longrightarrow> scan_ok y' p k" for k using c s by (auto simp: scan_ok_def)
  have z: "pf_revents (get_slot (p, i) y) = 0 \<Longrightarrow> pf_revents (get_slot (p, i) y') = 0" for i using assms(2)[of i] by auto
  show ?thesis using assms(4) k z by (cases pc) (simp_all add: f c n)
qed

lemma shape_polls:
  "shape_ok n y \<Longrightarrow> shape_ok n (set_poll p pc y)" "conns_ok (set_poll p pc y) = conns_ok y"
  by (simp_all add: shape_ok_def conns_ok_def unused_fd_def)

lemma sem_move:
  assumes "shape_ok n y" "p < 3"
  shows "sem_ok (set_poll p pc y) \<longleftrightarrow> pt_sem_new_req y + sum_list (map (\<lambda>x. of_bool (fst x = At_pop)) (pt_works y))
     + sum_list (map posting (pt_polls y)) + posting pc = length (pt_to_process y) + posting (pt_polls y ! p)"
proof -
  have "p < length (pt_polls y)" using assms by (simp add: shape_ok_def)
  from sum_list_upd[OF this, of posting pc] show ?thesis by (simp add: sem_ok_def) linarith
qed

lemma inv_poll_step:
  assumes "ps_inv n y" "p < 3" "same_conns y y'" "shape_ok n y'" "conns_ok y'" "sem_ok (set_poll p pc y')"
    and "pt_polls y' = pt_polls y" "\<And>q. q \<noteq> p \<Longrightarrow> pt_pipes y' ! q = pt_pipes y ! q"
    and "\<And>s. get_slot s y' = get_slot s y \<or> pf_revents (get_slot s y') = 0 \<or> (fst s = p \<and> snd s < unat (pt_curr_indexes y ! p))"
    and "at_ok y' p pc"
  shows "ps_inv n (set_poll p pc y')"
proof -
  let ?y = "set_poll p pc y'"
  have s: "same_conns y ?y" "same_conns y' ?y" using assms(3) by (simp_all add: same_conns_def)
  have ch: "get_slot s ?y = get_slot s y \<or> snd s < unat (pt_curr_indexes y ! fst s) \<or> pf_revents (get_slot s ?y) = 0" for s using assms(9)[of s] by auto
  have old: "watch_ok y" "slots_ok y" "requests_ok y" "\<forall>q<3. at_ok y q (pt_polls y ! q)" using assms(1) by (auto simp: ps_inv_def)
  note c = parts_cong[OF s(1)]
  have "at_ok ?y q ((pt_polls y')[p := pc] ! q)" if q: "q < 3" for q
  proof (cases "q = p")
    case True
    moreover have "p < length (pt_polls y')" using assms(2,4) by (simp add: shape_ok_def)
    moreover have "at_ok ?y p pc" by (rule at_ok_cong[OF s(2) _ _ assms(10)]) simp_all
    ultimately show ?thesis by simp
  next
    case False
    have "pf_revents (get_slot (q, i) ?y) = pf_revents (get_slot (q, i) y) \<or> pf_revents (get_slot (q, i) ?y) = 0" for i
      using assms(9)[of "(q, i)"] False by auto
    then show ?thesis
      using at_ok_cong[OF s(1), of q "pt_polls y ! q"] assms(8)[OF False] old(4) q False assms(7) by simp
  qed
  then show ?thesis
    using assms(4,5,6) old c(7,8) c(9)[OF ch] shape_polls by (simp add: ps_inv_def)
qed

lemma poll_inv_move:
  assumes "ps_inv n y" "p < 3" "at_ok y p pc" "posting pc = posting (pt_polls y ! p)"
  shows "ps_inv n (set_poll p pc y)"
proof (rule inv_poll_step[OF assms(1,2)])
  show "shape_ok n y" "conns_ok y" using assms(1) by (auto simp: ps_inv_def)
  show "sem_ok (set_poll p pc y)"
    using assms(1,4) sem_move[of n y p pc] assms(2) by (simp add: ps_inv_def sem_ok_def)
qed (use assms in \<open>simp_all add: same_conns_def\<close>)

lemma shapeD:
  assumes "shape_ok n y" "p < 3"
  shows "first_conn p \<le> unat (pt_curr_indexes y ! p)" "unat (pt_curr_indexes y ! p) + length (pt_backlog y) \<le> n"
    "length (pt_fdses y ! p) = 2000" "p < length (pt_fdses y)" "p < length (pt_curr_indexes y)" "p < length (pt_polls y)"
    "p < length (pt_pipes y)" "pt_pipefds y ! p \<noteq> pt_server_sock y" "pt_pipefds y ! p \<in> set (pt_pipefds y)"
proof -
  have "length (pt_pipefds y) = 3" using assms(1) by (simp add: shape_ok_def)
  then show m: "pt_pipefds y ! p \<in> set (pt_pipefds y)" using assms(2) by simp
  have "pt_server_sock y \<notin> set (pt_pipefds y)" using assms(1) by (simp add: shape_ok_def)
  then show "pt_pipefds y ! p \<noteq> pt_server_sock y" using m by metis
qed (use assms in \<open>simp_all add: shape_ok_def\<close>)

lemma slotD:
  assumes "slots_ok y" "conn_slot y s"
  shows "pf_events (get_slot s y) = 0 \<or> pf_events (get_slot s y) = POLLIN"
    and "pf_fd (get_slot s y) \<noteq> - 1 \<Longrightarrow> \<exists>c. pt_conns y (pf_fd (get_slot s y)) = Some c"
    and "pf_fd (get_slot s y) \<noteq> - 1 \<Longrightarrow> requests_for s y = of_bool (pf_events (get_slot s y) = 0)"
  using assms unfolding slots_ok_def by blast+

lemma liveD:
  assumes "slots_ok y" "live y s"
  shows "conn_slot y s" "pf_fd (get_slot s y) \<noteq> - 1" "\<exists>c. pt_conns y (pf_fd (get_slot s y)) = Some c"
    "requests_for s y = of_bool (pf_events (get_slot s y) = 0)"
  using assms slotD[OF assms(1)] by (simp_all add: live_def)

lemma spareD: "slots_ok y \<Longrightarrow> p < 3 \<Longrightarrow> i < 2000 \<Longrightarrow> unat (pt_curr_indexes y ! p) \<le> i \<Longrightarrow> get_slot (p, i) y = no_fd"
  unfolding slots_ok_def by blast

lemma injD: "slots_ok y \<Longrightarrow> live y s \<Longrightarrow> live y t \<Longrightarrow> pf_fd (get_slot s y) = pf_fd (get_slot t y) \<Longrightarrow> s = t"
  unfolding slots_ok_def by blast

lemma coverD: "slots_ok y \<Longrightarrow> pt_conns y fd = Some c \<Longrightarrow> \<exists>s. live y s \<and> pf_fd (get_slot s y) = fd"
  unfolding slots_ok_def by blast

lemma slotsI:
  assumes "\<And>s. conn_slot y s \<Longrightarrow> pf_events (get_slot s y) = 0 \<or> pf_events (get_slot s y) = POLLIN"
    and "\<And>s. live y s \<Longrightarrow> \<exists>c. pt_conns y (pf_fd (get_slot s y)) = Some c"
    and "\<And>s. live y s \<Longrightarrow> requests_for s y = of_bool (pf_events (get_slot s y) = 0)"
    and "\<And>s t. live y s \<Longrightarrow> live y t \<Longrightarrow> pf_fd (get_slot s y) = pf_fd (get_slot t y) \<Longrightarrow> s = t"
    and "\<And>fd c. pt_conns y fd = Some c \<Longrightarrow> \<exists>s. live y s \<and> pf_fd (get_slot s y) = fd"
    and "\<And>p i. p < 3 \<Longrightarrow> i < 2000 \<Longrightarrow> unat (pt_curr_indexes y ! p) \<le> i \<Longrightarrow> get_slot (p, i) y = no_fd"
  shows "slots_ok y"
  using assms unfolding slots_ok_def live_def by blast

lemma connD:
  assumes "conns_ok y" "pt_conns y fd = Some c"
  shows "conn_ok c" "fd \<noteq> pt_server_sock y" "fd \<notin> set (pt_pipefds y)" "0 \<le> sint fd" "fd \<noteq> - 1"
proof -
  have "conn_ok c \<and> unused_fd fd (y\<lparr>pt_conns := Map.empty\<rparr>) \<and> 0 \<le> sint fd" using assms unfolding conns_ok_def by blast
  then show "conn_ok c" "fd \<noteq> pt_server_sock y" "fd \<notin> set (pt_pipefds y)" "0 \<le> sint fd" "fd \<noteq> - 1"
    by (auto simp: unused_fd_def)
qed

lemma slot_bounds:
  assumes "shape_ok n y" "n < 2000" "conn_slot y s"
  shows "fst s < length (pt_fdses y)" "snd s < length (pt_fdses y ! fst s)" "fst s < 3" "s \<noteq> wake_slot p" "s \<noteq> (0, 0)"
    "wake_slot p \<noteq> s" "(0, 0) \<noteq> s"
proof -
  have s: "fst s < 3" "snd s < unat (pt_curr_indexes y ! fst s)" "first_conn (fst s) \<le> snd s" using assms(3) by (auto simp: conn_slot_def)
  note d = shapeD[OF assms(1) s(1)]
  show "fst s < 3" "fst s < length (pt_fdses y)" "snd s < length (pt_fdses y ! fst s)" using d s(1,2) assms(2) by linarith+
  show "s \<noteq> wake_slot p" "s \<noteq> (0, 0)" "wake_slot p \<noteq> s" "(0, 0) \<noteq> s" using s(3) by (cases s; auto simp: first_conn_def wake_slot_def split: if_splits)+
qed

lemma snap_nth:
  assumes "shape_ok n y" "n < 2000" "p < 3" "i < unat (pt_curr_indexes y ! p)"
  shows "map (\<lambda>x. (pf_fd x, pf_events x)) (take (unat (pt_curr_indexes y ! p)) (pt_fdses y ! p)) ! i
    = (pf_fd (get_slot (p, i) y), pf_events (get_slot (p, i) y))"
proof -
  have "unat (pt_curr_indexes y ! p) \<le> n" "length (pt_fdses y ! p) = 2000"
    using assms(1,3) by (auto simp: shape_ok_def dest: spec)
  then show ?thesis using assms by (simp add: get_slot_def)
qed

lemma inv_poll_enter:
  assumes "ps_inv n y" "n < 2000" "p < 3" "posting (pt_polls y ! p) = 0"
  shows "ps_inv n (poll_enter p y)"
proof -
  have sh: "shape_ok n y" "watch_ok y" "slots_ok y" using assms(1) by (auto simp: ps_inv_def)
  define snap where "snap = map (\<lambda>x. (pf_fd x, pf_events x)) (take (unat (pt_curr_indexes y ! p)) (pt_fdses y ! p))"
  have b: "first_conn p \<le> unat (pt_curr_indexes y ! p)" "unat (pt_curr_indexes y ! p) \<le> n" "length (pt_fdses y ! p) = 2000"
    using sh(1) assms(3) by (auto simp: shape_ok_def dest: spec)
  then have len: "length snap = unat (pt_curr_indexes y ! p)" using assms(2) by (simp add: snap_def)
  have nth: "snap ! i = (pf_fd (get_slot (p, i) y), pf_events (get_slot (p, i) y))" if "i < length snap" for i
    using snap_nth[OF sh(1) assms(2,3)] that len by (simp add: snap_def)
  have "snd (wake_slot p) < length snap" "p = 0 \<Longrightarrow> 0 < length snap" "wake_slot p = (p, snd (wake_slot p))"
    using b(1) len by (auto simp: first_conn_def wake_slot_def split: if_splits)
  moreover have "snap_ok y (p, i) (snap ! i)" if i: "i < length snap" "first_conn p \<le> i" for i
  proof -
    have "conn_slot y (p, i)" using i len assms(3) by (simp add: conn_slot_def)
    then show ?thesis using sh(3) nth[OF i(1)] by (auto simp: slots_ok_def snap_ok_def)
  qed
  ultimately have "at_ok y p (In_poll snap)"
    using nth sh(2) assms(3) b(1) len by (auto simp: watch_ok_def conn_slot_def)
  then show ?thesis using poll_inv_move[OF assms(1,3)] assms(4) by (simp add: poll_enter_def snap_def posting_def)
qed

lemma clear_slot:
  assumes "ps_inv n y" "p < 3" "i < 2000"
  defines "y' \<equiv> upd_slot (p, i) (\<lambda>x. x\<lparr>pf_revents := 0\<rparr>) y"
  shows "same_conns y y'" "shape_ok n y'" "conns_ok y'" "pt_polls y' = pt_polls y" "pt_pipes y' = pt_pipes y"
    "get_slot s y' = get_slot s y \<or> pf_revents (get_slot s y') = 0"
    "pf_revents (get_slot s y') = pf_revents (get_slot s y) \<or> pf_revents (get_slot s y') = 0"
proof -
  have sh: "shape_ok n y" and c: "conns_ok y" using assms(1) by (auto simp: ps_inv_def)
  note d = shapeD[OF sh assms(2)]
  have g: "get_slot s y' = (if s = (p, i) then (get_slot s y)\<lparr>pf_revents := 0\<rparr> else get_slot s y)" for s
    using get_upd_slot[of "(p, i)" y s] d(3,4) assms(3) by (auto simp: y'_def)
  show "same_conns y y'" "get_slot s y' = get_slot s y \<or> pf_revents (get_slot s y') = 0"
    "pf_revents (get_slot s y') = pf_revents (get_slot s y) \<or> pf_revents (get_slot s y') = 0"
    using g by (auto simp: same_conns_def y'_def)
  show "shape_ok n y'" "conns_ok y'" "pt_polls y' = pt_polls y" "pt_pipes y' = pt_pipes y"
    using sh c by (simp_all add: y'_def shape_ok_def conns_ok_def unused_fd_def)
qed

lemma inv_clear:
  assumes "ps_inv n y" "p < 3" "i < 2000" "at_ok y p pc" "posting pc = posting (pt_polls y ! p)"
  shows "ps_inv n (set_poll p pc (upd_slot (p, i) (\<lambda>x. x\<lparr>pf_revents := 0\<rparr>) y))"
proof -
  note c = clear_slot[OF assms(1-3)]
  show ?thesis
  proof (rule inv_poll_step[OF assms(1,2) c(1-3)])
    show "sem_ok (set_poll p pc (upd_slot (p, i) (\<lambda>x. x\<lparr>pf_revents := 0\<rparr>) y))"
      using assms(1,5) sem_move[OF c(2) assms(2), of pc] by (simp add: ps_inv_def sem_ok_def)
    show "at_ok (upd_slot (p, i) (\<lambda>x. x\<lparr>pf_revents := 0\<rparr>) y) p pc"
      by (rule at_ok_cong[OF c(1) c(7) _ assms(4)]) simp
    show "get_slot s (upd_slot (p, i) (\<lambda>x. x\<lparr>pf_revents := 0\<rparr>) y) = get_slot s y
      \<or> pf_revents (get_slot s (upd_slot (p, i) (\<lambda>x. x\<lparr>pf_revents := 0\<rparr>) y)) = 0 \<or> (fst s = p \<and> snd s < unat (pt_curr_indexes y ! p))" for s
      using c(6)[of s] by blast
  qed simp_all
qed

lemma poll_inv_post:
  assumes "ps_inv n y" "n < 2000" "p < 3" "pt_polls y ! p = At_post i"
  shows "ps_inv n (set_poll p (At_scan (i + 1)) (upd_slot (p, i) (\<lambda>x. x\<lparr>pf_revents := 0\<rparr>)
    (y\<lparr>pt_sem_new_req := pt_sem_new_req y + 1\<rparr>)))"
proof -
  have at: "at_ok y p (At_post i)" and sh: "shape_ok n y" using assms by (auto simp: ps_inv_def)
  then have i: "i < 2000" using slot_bounds(2)[OF sh assms(2), of "(p, i)"] shapeD(3)[OF sh assms(3)] by simp
  note c = clear_slot[OF assms(1,3) i]
  let ?y = "upd_slot (p, i) (\<lambda>x. x\<lparr>pf_revents := 0\<rparr>) y"
  have eq: "upd_slot (p, i) (\<lambda>x. x\<lparr>pf_revents := 0\<rparr>) (y\<lparr>pt_sem_new_req := pt_sem_new_req y + 1\<rparr>)
      = ?y\<lparr>pt_sem_new_req := pt_sem_new_req y + 1\<rparr>" by (simp add: upd_slot_def)
  have "ps_inv n (set_poll p (At_scan (i + 1)) (?y\<lparr>pt_sem_new_req := pt_sem_new_req y + 1\<rparr>))"
  proof (rule inv_poll_step[OF assms(1,3)])
    show "same_conns y (?y\<lparr>pt_sem_new_req := pt_sem_new_req y + 1\<rparr>)" using c(1) by (simp add: same_conns_def)
    show sh': "shape_ok n (?y\<lparr>pt_sem_new_req := pt_sem_new_req y + 1\<rparr>)" using c(2) by (simp add: shape_ok_def)
    show "conns_ok (?y\<lparr>pt_sem_new_req := pt_sem_new_req y + 1\<rparr>)" using c(3) by (simp add: conns_ok_def unused_fd_def)
    show "sem_ok (set_poll p (At_scan (i + 1)) (?y\<lparr>pt_sem_new_req := pt_sem_new_req y + 1\<rparr>))"
      using assms(1,4) sem_move[OF sh' assms(3), of "At_scan (i + 1)"] by (simp add: ps_inv_def sem_ok_def posting_def)
    have pre: "at_ok y p (At_scan (i + 1))" using at by simp
    have "same_conns y (?y\<lparr>pt_sem_new_req := pt_sem_new_req y + 1\<rparr>)" using c(1) by (simp add: same_conns_def)
    then show "at_ok (?y\<lparr>pt_sem_new_req := pt_sem_new_req y + 1\<rparr>) p (At_scan (i + 1))"
      by (rule at_ok_cong[OF _ _ _ pre]) (simp_all only: get_slot_other c(7), simp)
    show "get_slot s (?y\<lparr>pt_sem_new_req := pt_sem_new_req y + 1\<rparr>) = get_slot s y
      \<or> pf_revents (get_slot s (?y\<lparr>pt_sem_new_req := pt_sem_new_req y + 1\<rparr>)) = 0 \<or> (fst s = p \<and> snd s < unat (pt_curr_indexes y ! p))" for s
      using c(6)[of s] by (simp only: get_slot_other) blast
  qed simp_all
  then show ?thesis by (simp only: eq)
qed

lemma inv_purge:
  assumes "ps_inv n y" "n < 2000" "p < 3" "posting (pt_polls y ! p) = 0" "posting pc = 0" "at_ok y p pc"
  shows "ps_inv n (set_poll p pc (purge p y))"
proof -
  have "unat (pt_curr_indexes y ! p) \<le> n" using assms(1,3) shapeD(2) by (fastforce simp: ps_inv_def)
  then have "pt_curr_indexes y ! p \<noteq> max_fds" using assms(2) by (auto simp: max_fds_def)
  then have "purge p y = y" by (simp add: purge_def Let_def)
  then show ?thesis using poll_inv_move[OF assms(1,3,6)] assms(4,5) by simp
qed

section \<open>The return of poll\<close>

lemma conn_ready_cases: "cn_end c \<noteq> Reset \<Longrightarrow> conn_ready c = (if cn_in c \<noteq> [] \<or> cn_end c \<noteq> Idle then POLLIN else 0)"
  by (simp add: conn_ready_def)

lemma revents_set_slot:
  assumes "shape_ok n y" "p < 3" "length snap \<le> 2000"
  shows "get_slot s (revents_set y p snap) = (if fst s = p \<and> snd s < length snap
      then (get_slot s y)\<lparr>pf_revents := poll_revents y p (snap ! snd s)\<rparr> else get_slot s y)"
proof -
  note d = shapeD[OF assms(1,2)]
  have "length snap \<le> length (pt_fdses y ! p)" using assms(3) d(3) by simp
  then show ?thesis using d(4) by (cases "fst s = p") (auto simp: get_slot_def revents_set_def nth_append)
qed

lemma flag_values:
  "(POLLIN :: 16 word) AND (POLLIN OR POLLERR OR POLLHUP OR POLLNVAL) = POLLIN"
  "POLLIN AND (POLLERR OR POLLHUP OR POLLNVAL) = 0"
  "POLLNVAL AND (POLLIN OR POLLERR OR POLLHUP OR POLLNVAL) = POLLNVAL"
  "POLLNVAL AND (POLLERR OR POLLHUP OR POLLNVAL) = POLLNVAL"
  by (simp_all add: POLLIN_def POLLHUP_def POLLNVAL_def POLLERR_def)

lemma poll_revents_cases:
  assumes "conns_ok y" "ev \<in> {0, POLLIN}"
  shows "poll_revents y p (fd, ev) AND POLLHUP = 0"
    and "poll_revents y p (fd, ev) = POLLIN \<Longrightarrow> ev = POLLIN \<and> 0 \<le> sint fd
      \<and> (fd = pt_server_sock y \<or> fd = pt_pipefds y ! p \<or> readable y fd)"
proof -
  have ok: "cn_end c \<noteq> Reset" if "pt_conns y fd = Some c" for c using assms(1) that by (auto simp: conns_ok_def conn_ok_def)
  have v: "fd_ready y p fd \<in> {0, POLLIN, POLLNVAL}"
    by (auto simp: fd_ready_def conn_ready_cases[OF ok] split: option.splits)
  then show "poll_revents y p (fd, ev) AND POLLHUP = 0"
    using assms(2) by (auto simp: poll_revents_def flag_values or.assoc)
  show "ev = POLLIN \<and> 0 \<le> sint fd \<and> (fd = pt_server_sock y \<or> fd = pt_pipefds y ! p \<or> readable y fd)"
    if r: "poll_revents y p (fd, ev) = POLLIN"
  proof -
    have "0 \<le> sint fd" "ev = POLLIN" "fd_ready y p fd = POLLIN"
      using r v assms(2) by (auto simp: poll_revents_def flag_values or.assoc split: if_splits)
    moreover have "readable y fd" if "fd_ready y p fd = POLLIN" "fd \<noteq> pt_server_sock y" "fd \<noteq> pt_pipefds y ! p"
      using that ok by (auto simp: fd_ready_def readable_def conn_ready_cases split: if_splits option.splits)
    ultimately show ?thesis by blast
  qed
qed

lemma revents_set_same:
  assumes "ps_inv n y" "p < 3" "length snap \<le> unat (pt_curr_indexes y ! p)" "n < 2000"
  shows "same_conns y (revents_set y p snap)" "shape_ok n (revents_set y p snap)" "conns_ok (revents_set y p snap)"
    "pt_polls (revents_set y p snap) = pt_polls y" "pt_pipes (revents_set y p snap) = pt_pipes y"
    "pt_sem_new_req (revents_set y p snap) = pt_sem_new_req y"
    "get_slot s (revents_set y p snap) = get_slot s y \<or> (fst s = p \<and> snd s < unat (pt_curr_indexes y ! p))"
proof -
  have sh: "shape_ok n y" and c: "conns_ok y" using assms(1) by (auto simp: ps_inv_def)
  note d = shapeD[OF sh assms(2)]
  have len: "length snap \<le> 2000" using d(2) assms(3,4) by simp
  note g = revents_set_slot[OF sh assms(2) len]
  show "same_conns y (revents_set y p snap)" unfolding same_conns_def g by (simp add: revents_set_def)
  show "get_slot s (revents_set y p snap) = get_slot s y \<or> (fst s = p \<and> snd s < unat (pt_curr_indexes y ! p))"
    using assms(3) by (auto simp: g)
  have "length (pt_fdses (revents_set y p snap) ! q) = length (pt_fdses y ! q)" for q
    using d(3,4) len by (cases "q = p") (simp_all add: revents_set_def)
  then show "shape_ok n (revents_set y p snap)" using sh by (simp add: shape_ok_def) (simp add: revents_set_def)
  show "conns_ok (revents_set y p snap)" using c by (simp add: conns_ok_def unused_fd_def revents_set_def)
qed (simp_all add: revents_set_def)

lemma scan_start:
  assumes "ps_inv n y" "n < 2000" "p < 3" "pt_polls y ! p = In_poll snap"
    and "pf_revents (get_slot (wake_slot p) (revents_set y p snap)) \<noteq> POLLIN"
  shows "scan_ok (revents_set y p snap) p 0"
proof -
  let ?y = "revents_set y p snap"
  have sh: "shape_ok n y" "watch_ok y" "conns_ok y" "slots_ok y" and at: "at_ok y p (In_poll snap)"
    using assms(1,3,4) by (auto simp: ps_inv_def dest: spec)
  note d = shapeD[OF sh(1) assms(3)]
  have len: "length snap \<le> unat (pt_curr_indexes y ! p)" "length snap \<le> 2000" "first_conn p \<le> length snap"
    using at d(2) assms(2) by auto
  note g = revents_set_slot[OF sh(1) assms(3) len(2)]
  note c = parts_cong(1,2,6)[OF revents_set_same(1)[OF assms(1,3) len(1) assms(2)]]
  have w: "fst (wake_slot p) = p" "snd (wake_slot p) < length snap" "p = 0 \<Longrightarrow> 0 < length snap"
    using len(3) by (auto simp: wake_slot_def first_conn_def split: if_splits)
  have "pf_revents (get_slot (wake_slot p) ?y) = poll_revents y p (pt_pipefds y ! p, POLLIN)"
    using at w by (simp add: g)
  moreover have "poll_revents y p (pt_pipefds y ! p, POLLIN) \<in> {0, POLLIN}"
    using d(8) by (auto simp: poll_revents_def fd_ready_def flag_values or.assoc)
  ultimately have "pf_revents (get_slot (wake_slot p) ?y) = 0" using assms(5) by auto
  moreover have "pf_revents (get_slot (0, 0) ?y) AND POLLHUP = 0" if "p = 0"
    unfolding g using that at w(3) poll_revents_cases(1)[OF sh(3), of POLLIN 0 "pt_server_sock y"] by simp
  moreover have "seen_ok ?y (p, i)" if i: "conn_slot ?y (p, i)" for i
  proof (cases "i < length snap")
    case True
    obtain fd ev where fe: "snap ! i = (fd, ev)" by fastforce
    have cs: "conn_slot y (p, i)" "first_conn p \<le> i" using i by (simp_all add: c) (simp add: conn_slot_def)
    then have sn: "snap_ok y (p, i) (fd, ev)" using at True by (simp flip: fe)
    have ev: "ev \<in> {0, POLLIN}" using sn by (simp add: snap_ok_def)
    have "0 \<le> sint (- 1 :: i32) \<Longrightarrow> False" by simp
    moreover have "fd \<noteq> pt_server_sock y" "fd \<noteq> pt_pipefds y ! p" if "fd = pf_fd (get_slot (p, i) y)" "fd \<noteq> - 1"
      using connD(2,3)[OF sh(3)] slotD(2)[OF sh(4) cs(1)] d(9) that by metis+
    ultimately have "pf_events (get_slot (p, i) y) = POLLIN \<and> readable y (pf_fd (get_slot (p, i) y))"
      if "poll_revents y p (fd, ev) = POLLIN" "pf_fd (get_slot (p, i) y) \<noteq> - 1"
      using poll_revents_cases(2)[OF sh(3) ev that(1)] sn that(2) by (auto simp: snap_ok_def)
    then show ?thesis
      using poll_revents_cases(1)[OF sh(3) ev, of p fd] True fe by (simp add: seen_ok_def g c)
  next
    case False
    then show ?thesis using at i by (auto simp: seen_ok_def g c)
  qed
  ultimately show ?thesis by (simp add: scan_ok_def)
qed

lemma inv_poll_return:
  assumes "ps_inv n y" "n < 2000" "p < 3" "pt_polls y ! p = In_poll snap"
  shows "ps_inv n (poll_return p snap y)"
proof -
  let ?y = "revents_set y p snap"
  have sh: "shape_ok n y" and at: "at_ok y p (In_poll snap)" and sem: "sem_ok y"
    using assms(1,3,4) by (auto simp: ps_inv_def dest: spec)
  note d = shapeD[OF sh assms(3)]
  have len: "length snap \<le> unat (pt_curr_indexes y ! p)" using at by simp
  note same = revents_set_same[OF assms(1,3) len assms(2)]
  have w: "(p, if p = 0 then 1 else 0) = wake_slot p" by (simp add: wake_slot_def)
  have wi: "(if p = 0 then 1 else 0 :: nat) < 2000" by simp
  have post: "posting (pt_polls y ! p) = 0" using assms(4) by (simp add: posting_def)
  have move: "ps_inv n (set_poll p pc ?y)" if "at_ok ?y p pc" "posting pc = 0" for pc
  proof (rule inv_poll_step[OF assms(1,3) same(1-3)])
    show "sem_ok (set_poll p pc ?y)"
      using sem sem_move[OF same(2) assms(3), of pc] same(1,4,6) post that(2) by (simp add: sem_ok_def same_conns_def)
    show "get_slot s ?y = get_slot s y \<or> pf_revents (get_slot s ?y) = 0 \<or> (fst s = p \<and> snd s < unat (pt_curr_indexes y ! p))" for s
      using same(7)[of s] by blast
  qed (simp_all add: same(4,5) that(1))
  show ?thesis
  proof (cases "pf_revents (get_slot (wake_slot p) ?y) = POLLIN")
    case True
    let ?z = "?y\<lparr>pt_pipes := (pt_pipes ?y)[p := pt_pipes ?y ! p - 1]\<rparr>"
    let ?w = "upd_slot (wake_slot p) (\<lambda>x. x\<lparr>pf_revents := 0\<rparr>) ?z"
    have len': "fst (wake_slot p) < length (pt_fdses ?z)" "snd (wake_slot p) < length (pt_fdses ?z ! fst (wake_slot p))"
      using shapeD(3,4)[OF same(2) assms(3)] by (simp_all add: wake_slot_def)
    have g: "get_slot s ?w = (if s = wake_slot p then (get_slot s ?y)\<lparr>pf_revents := 0\<rparr> else get_slot s ?y)" for s
      using get_upd_slot[OF len', of s "\<lambda>x. x\<lparr>pf_revents := 0\<rparr>"] by (simp only: get_slot_other split: if_split) blast
    have "ps_inv n (set_poll p At_purge ?w)"
    proof (rule inv_poll_step[OF assms(1,3)])
      show "same_conns y ?w" using same(1) unfolding same_conns_def g by (simp del: split_paired_All)
      show sh': "shape_ok n ?w" using same(2) by (simp add: shape_ok_def)
      show "conns_ok ?w" using same(3) by (simp add: conns_ok_def unused_fd_def)
      show "sem_ok (set_poll p At_purge ?w)"
        using sem sem_move[OF sh' assms(3), of At_purge] same(1,4,6) post by (simp add: sem_ok_def same_conns_def posting_def)
      show "get_slot s ?w = get_slot s y \<or> pf_revents (get_slot s ?w) = 0 \<or> (fst s = p \<and> snd s < unat (pt_curr_indexes y ! p))" for s
        unfolding g using same(7)[of s] by (cases "s = wake_slot p") auto
    qed (simp_all add: same(4,5))
    then show ?thesis using True by (simp add: poll_return_def w Let_def)
  next
    case False
    have "ps_inv n (set_poll p (At_scan 0) ?y)" by (rule move) (use scan_start[OF assms False] in \<open>simp_all add: posting_def\<close>)
    moreover have "ps_inv n (set_poll p At_purge ?y)" by (rule move) (simp_all add: posting_def)
    ultimately show ?thesis using False by (simp add: poll_return_def w Let_def)
  qed
qed

section \<open>Steps that change a slot\<close>

definition keeps :: "ps_threads \<Rightarrow> ps_threads \<Rightarrow> slot \<Rightarrow> bool" where
  "keeps y y' s \<longleftrightarrow> get_slot s y' = get_slot s y
     \<or> (pf_fd (get_slot s y') = - 1 \<and> (pf_fd (get_slot s y) = - 1 \<or> pf_events (get_slot s y) = 0)
        \<and> (pf_revents (get_slot s y') = pf_revents (get_slot s y) \<or> pf_revents (get_slot s y') = 0))
     \<or> (pf_events (get_slot s y) = 0 \<and> pf_fd (get_slot s y') = pf_fd (get_slot s y)
        \<and> pf_events (get_slot s y') = POLLIN \<and> pf_revents (get_slot s y') = pf_revents (get_slot s y) \<and> woken y' (fst s))"

lemma keeps_snap:
  assumes "keeps y y' s" "snap_ok y s x" "conn_slot y s" "woken y (fst s) \<Longrightarrow> woken y' (fst s)"
  shows "snap_ok y' s x"
  using assms unfolding keeps_def snap_ok_def live_def by (elim disjE; force)

lemma keeps_seen:
  assumes "keeps y y' s" "seen_ok y s"
    and "pf_events (get_slot s y) = POLLIN \<Longrightarrow> pf_fd (get_slot s y) \<noteq> - 1 \<Longrightarrow> readable y (pf_fd (get_slot s y)) \<Longrightarrow> readable y' (pf_fd (get_slot s y))"
  shows "seen_ok y' s"
  using assms unfolding keeps_def seen_ok_def by (elim disjE; force)

lemma at_ok_keep:
  assumes slots: "\<And>i. conn_slot y' (q, i) \<Longrightarrow>
      (conn_slot y (q, i) \<and> keeps y y' (q, i)) \<or> (\<not> conn_slot y (q, i) \<and> pf_revents (get_slot (q, i) y') = 0)"
    and bounds: "unat (pt_curr_indexes y ! q) \<le> unat (pt_curr_indexes y' ! q)" "q < 3"
    and const: "pt_pipefds y' = pt_pipefds y" "pt_server_sock y' = pt_server_sock y"
    and watch: "pf_revents (get_slot (wake_slot q) y') = pf_revents (get_slot (wake_slot q) y)"
      "q = 0 \<Longrightarrow> pf_revents (get_slot (0, 0) y') = pf_revents (get_slot (0, 0) y)"
    and woken: "woken y q \<Longrightarrow> woken y' q"
    and readable: "\<And>i. conn_slot y (q, i) \<Longrightarrow> pf_events (get_slot (q, i) y) = POLLIN \<Longrightarrow> pf_fd (get_slot (q, i) y) \<noteq> - 1 \<Longrightarrow>
      readable y (pf_fd (get_slot (q, i) y)) \<Longrightarrow> readable y' (pf_fd (get_slot (q, i) y))"
    and at: "at_ok y q pc"
  shows "at_ok y' q pc"
proof -
  have old: "conn_slot y' (q, i)" if "conn_slot y (q, i)" for i
    using that bounds(1) by (simp add: conn_slot_def)
  have keep: "keeps y y' (q, i)" if "conn_slot y (q, i)" for i
    using slots[OF old[OF that]] that by blast
  have snap: "snap_ok y' (q, i) x" if "snap_ok y (q, i) x" "conn_slot y (q, i)" for i x
    using keeps_snap[OF keep[OF that(2)] that] woken by simp
  have seen: "seen_ok y' (q, i)" if "conn_slot y' (q, i)" "conn_slot y (q, i) \<Longrightarrow> seen_ok y (q, i)" for i
    using slots[OF that(1)]
  proof
    assume c: "conn_slot y (q, i) \<and> keeps y y' (q, i)"
    then show ?thesis using keeps_seen[OF conjunct2[OF c] that(2)] readable by blast
  qed (simp add: seen_ok_def)
  have scan: "scan_ok y' q k" if "scan_ok y q k" for k
    using that watch seen by (auto simp: scan_ok_def)
  have zero: "pf_revents (get_slot (q, i) y') = 0" if "conn_slot y' (q, i)" "conn_slot y (q, i) \<Longrightarrow> pf_revents (get_slot (q, i) y) = 0" for i
    using slots[OF that(1)] that(2) by (auto simp: keeps_def)
  show ?thesis
  proof (cases pc)
    case (In_poll l)
    have "conn_slot y (q, i)" if "i < length l" "first_conn q \<le> i" for i
      using at that bounds(2) by (simp add: In_poll conn_slot_def)
    then show ?thesis using at bounds const snap zero by (auto simp: In_poll)
  next
    case (At_post k)
    then show ?thesis using at scan old by simp
  qed (use at scan in simp_all)
qed

lemma requests_pushed: "requests_for s (y\<lparr>pt_to_process := pt_to_process y @ [r]\<rparr>) = requests_for s y + of_bool (rq_poll_fd r = s)"
  by (simp add: requests_for_def)

lemma inv_process:
  assumes "ps_inv n y" "n < 2000" "p < 3" "pt_polls y ! p = At_scan i" "conn_slot y (p, i)"
    and "pf_revents (get_slot (p, i) y) = POLLIN" "pf_fd (get_slot (p, i) y) \<noteq> - 1"
  shows "ps_inv n (set_poll p (At_post i) (process_request (p, i) y))"
proof -
  define z where "z = set_poll p (At_post i) (process_request (p, i) y)"
  define r where "r = \<lparr>rq_sock = pf_fd (get_slot (p, i) y), rq_id = p, rq_incoming_size = 0, rq_poll_fd = (p, i)\<rparr>"
  have sh: "shape_ok n y" and wt: "watch_ok y" and cn: "conns_ok y" and sl: "slots_ok y" and rq: "requests_ok y" and sm: "sem_ok y"
    and at: "\<And>q. q < 3 \<Longrightarrow> at_ok y q (pt_polls y ! q)"
    using assms(1) by (auto simp: ps_inv_def)
  note sb = slot_bounds[OF sh assms(2,5)]
  have scan: "scan_ok y p i" using at[OF assms(3)] assms(4) by simp
  then have seen: "pf_events (get_slot (p, i) y) = POLLIN" "readable y (pf_fd (get_slot (p, i) y))"
    using assms(5-7) by (auto simp: scan_ok_def seen_ok_def)
  have g: "get_slot s z = (if s = (p, i) then (get_slot s y)\<lparr>pf_events := 0\<rparr> else get_slot s y)" for s
    using get_upd_slot[OF sb(1,2), of s "\<lambda>x. x\<lparr>pf_events := 0\<rparr>"] by (auto simp: z_def process_request_def)
  have f: "pt_curr_indexes z = pt_curr_indexes y" "pt_conns z = pt_conns y" "pt_works z = pt_works y"
    "pt_to_process z = pt_to_process y @ [r]" "pt_pipefds z = pt_pipefds y" "pt_server_sock z = pt_server_sock y"
    "pt_sem_new_req z = pt_sem_new_req y" "pt_backlog z = pt_backlog y" "pt_pipes z = pt_pipes y"
    "pt_polls z = (pt_polls y)[p := At_post i]"
    by (simp_all add: z_def process_request_def r_def)
  have c: "conn_slot z s = conn_slot y s" "live z s = live y s" "readable z fd = readable y fd" "woken z q = woken y q"
    "served z = served y" "pending z = insert r (pending y)"
    "requests_for s z = requests_for s y + of_bool (s = (p, i))" for s fd q
    by (auto simp: conn_slot_def live_def g f readable_def woken_def served_def pending_def requests_for_def r_def)
  have "shape_ok n z" using sh by (simp add: shape_ok_def f) (simp add: z_def process_request_def)
  moreover have "watch_ok z" using wt sb(4-7) by (auto simp: watch_ok_def g f)
  moreover have "conns_ok z" using cn by (simp add: conns_ok_def f unused_fd_def)
  moreover have "slots_ok z"
  proof (rule slotsI)
    have zero: "requests_for (p, i) y = 0" using slotD(3)[OF sl assms(5,7)] seen(1) by simp
    show "pf_events (get_slot s z) = 0 \<or> pf_events (get_slot s z) = POLLIN" if "conn_slot z s" for s
      using slotD(1)[OF sl] that by (simp add: c g)
    fix s assume s: "live z s"
    then show "\<exists>c. pt_conns z (pf_fd (get_slot s z)) = Some c" "requests_for s z = of_bool (pf_events (get_slot s z) = 0)"
      using liveD[OF sl, of s] zero seen(1) by (cases "s = (p, i)"; auto simp: c g f)+
    fix t assume "live z t" "pf_fd (get_slot s z) = pf_fd (get_slot t z)"
    then show "s = t" using injD[OF sl, of s t] s by (simp add: c g split: if_splits)
  next
    fix fd c' assume "pt_conns z fd = Some c'"
    then have "pt_conns y fd = Some c'" by (simp add: f)
    from coverD[OF sl this] obtain s where "live y s" "pf_fd (get_slot s y) = fd" by (elim exE conjE)
    then show "\<exists>s. live z s \<and> pf_fd (get_slot s z) = fd" by (intro exI[of _ s]) (auto simp: c g)
  next
    fix q j assume q: "q < 3" "j < 2000" "unat (pt_curr_indexes z ! q) \<le> j"
    then have "(q, j) \<noteq> (p, i)" using assms(5) by (auto simp: conn_slot_def f)
    then show "get_slot (q, j) z = no_fd" using spareD[OF sl q(1,2)] q(3) by (auto simp: g f)
  qed
  moreover have "requests_ok z"
    using rq assms(5,7) seen(2) by (auto simp: requests_ok_def c g r_def live_def)
  moreover have "sem_ok z"
    using sm sum_list_upd[OF shapeD(6)[OF sh assms(3)], of posting "At_post i"] assms(4) by (simp add: sem_ok_def f posting_def)
  moreover have "at_ok z q (pt_polls z ! q)" if q: "q < 3" for q
  proof (cases "q = p")
    case True
    have "scan_ok z p (i + 1)"
      using scan sb(4-7) by (auto simp: scan_ok_def c g seen_ok_def)
    then show ?thesis using True shapeD(6)[OF sh assms(3)] assms(5) by (simp add: f c)
  next
    case False
    have "at_ok z q (pt_polls y ! q)"
      by (rule at_ok_keep[OF _ _ q _ _ _ _ _ _ at[OF q]]) (use False sb(4-7) in \<open>auto simp: c f g keeps_def\<close>)
    then show ?thesis using False by (simp add: f)
  qed
  ultimately show ?thesis by (simp add: ps_inv_def flip: z_def)
qed

lemma inv_same:
  assumes "ps_inv n y" "same_conns y y'" "\<And>s. get_slot s y' = get_slot s y" "pt_pipes y' = pt_pipes y" "pt_polls y' = pt_polls y"
    and "pt_sem_new_req y' = pt_sem_new_req y" "shape_ok m y'" "conns_ok y'"
  shows "ps_inv m y'"
proof -
  note c = parts_cong[OF assms(2)]
  have "slots_ok y'" by (rule c(9)) (use assms(1,3) in \<open>auto simp: ps_inv_def\<close>)
  moreover have "at_ok y' q (pt_polls y' ! q)" if "q < 3" for q
    by (rule at_ok_cong[OF assms(2)]) (use assms(1,3,4,5) that in \<open>simp_all add: ps_inv_def\<close>)
  moreover have "sem_ok y'" using assms(1,2,5,6) by (simp add: ps_inv_def sem_ok_def same_conns_def)
  ultimately show ?thesis using assms(1,7,8) c(7,8) by (simp add: ps_inv_def)
qed

lemma inv_server:
  assumes "ps_inv n y"
  shows "ps_inv n (y\<lparr>pt_server := s\<rparr>)"
  by (rule inv_same[OF assms]) (use assms in \<open>auto simp: same_conns_def ps_inv_def shape_ok_def conns_ok_def unused_fd_def\<close>)

lemma inv_new_client:
  assumes "ps_inv n y"
  shows "ps_inv (n + 1) (y\<lparr>pt_backlog := pt_backlog y @ [conn_of []]\<rparr>)"
  by (rule inv_same[OF assms]) (use assms in \<open>auto simp: same_conns_def ps_inv_def shape_ok_def conns_ok_def unused_fd_def conn_ok_def conn_of_def\<close>)

lemma inv_backlog:
  assumes "ps_inv n y" "pt_backlog y = c # b"
  shows "ps_inv n (y\<lparr>pt_backlog := b\<rparr>)"
  by (rule inv_same[OF assms(1)]) (use assms in \<open>auto simp: same_conns_def ps_inv_def shape_ok_def conns_ok_def unused_fd_def\<close>)

section \<open>The clients\<close>

lemma inv_on_conn:
  assumes "ps_inv n y" "\<And>c. conn_ok c \<Longrightarrow> conn_ok (f c) \<and> (cn_in c \<noteq> [] \<or> cn_end c \<noteq> Idle \<longrightarrow> cn_in (f c) \<noteq> [] \<or> cn_end (f c) \<noteq> Idle)"
  shows "ps_inv n (on_conn fd f y)"
proof -
  define z where "z = on_conn fd f y"
  have sh: "shape_ok n y" "watch_ok y" and cn: "conns_ok y" and sl: "slots_ok y" and rq: "requests_ok y" "sem_ok y"
    and at: "\<And>q. q < 3 \<Longrightarrow> at_ok y q (pt_polls y ! q)"
    using assms(1) by (auto simp: ps_inv_def)
  have f: "pt_curr_indexes z = pt_curr_indexes y" "pt_works z = pt_works y" "pt_to_process z = pt_to_process y"
    "pt_pipefds z = pt_pipefds y" "pt_server_sock z = pt_server_sock y" "pt_sem_new_req z = pt_sem_new_req y"
    "pt_backlog z = pt_backlog y" "pt_pipes z = pt_pipes y" "pt_polls z = pt_polls y" "get_slot s z = get_slot s y"
    "pt_conns z = (pt_conns y)(fd := map_option f (pt_conns y fd))" "pt_fdses z = pt_fdses y" for s
    by (simp_all add: z_def on_conn_def)
  have dom: "(\<exists>c. pt_conns z x = Some c) \<longleftrightarrow> (\<exists>c. pt_conns y x = Some c)" for x by (auto simp: f)
  have c: "conn_slot z s = conn_slot y s" "live z s = live y s" "woken z q = woken y q" "served z = served y" "pending z = pending y"
    "requests_for s z = requests_for s y" for s q
    by (auto simp: conn_slot_def live_def f woken_def served_def pending_def requests_for_def)
  have rd: "readable z x" if "readable y x" for x
    using that connD(1)[OF cn] assms(2) by (fastforce simp: readable_def f)
  have "shape_ok n z" "watch_ok z" "sem_ok z" using sh rq by (simp_all add: shape_ok_def watch_ok_def sem_ok_def f)
  moreover have "conns_ok z" using cn assms(2) by (auto simp: conns_ok_def f unused_fd_def)
  moreover have "slots_ok z"
  proof (rule slotsI)
    show "pf_events (get_slot s z) = 0 \<or> pf_events (get_slot s z) = POLLIN" if "conn_slot z s" for s
      using slotD(1)[OF sl] that by (simp add: c f)
    fix s assume "live z s"
    then have s: "live y s" by (simp add: c)
    show "\<exists>c. pt_conns z (pf_fd (get_slot s z)) = Some c" unfolding dom using liveD(3)[OF sl s] by (simp add: f)
    show "requests_for s z = of_bool (pf_events (get_slot s z) = 0)" using liveD(4)[OF sl s] by (simp add: c f)
    show "s = t" if "live z t" "pf_fd (get_slot s z) = pf_fd (get_slot t z)" for t
      using injD[OF sl s, of t] that by (simp add: c f)
  next
    fix x c' assume "pt_conns z x = Some c'"
    then obtain c'' where "pt_conns y x = Some c''" using dom[of x] by blast
    from coverD[OF sl this] show "\<exists>s. live z s \<and> pf_fd (get_slot s z) = x" by (simp add: c f)
  next
    show "get_slot (p, i) z = no_fd" if "p < 3" "i < 2000" "unat (pt_curr_indexes z ! p) \<le> i" for p i
      using spareD[OF sl that(1,2)] that(3) by (simp add: f)
  qed
  moreover have "requests_ok z" using rq(1) rd by (simp add: requests_ok_def c f)
  moreover have "at_ok z q (pt_polls z ! q)" if q: "q < 3" for q
    unfolding f by (rule at_ok_keep[OF _ _ q _ _ _ _ _ _ at[OF q]]) (use rd in \<open>auto simp: c f keeps_def\<close>)
  ultimately show ?thesis by (simp add: ps_inv_def flip: z_def)
qed

section \<open>A new connection\<close>

lemma no_requests_outside:
  assumes "requests_ok y" "\<not> conn_slot y s"
  shows "requests_for s y = 0"
proof -
  have "conn_slot y (rq_poll_fd r)" if "r \<in> pending y \<or> r \<in> served y" for r
    using assms(1) that by (auto simp: requests_ok_def live_def)
  then have no: "rq_poll_fd r \<noteq> s" if "r \<in> pending y \<or> r \<in> served y" for r using that assms(2) by metis
  have "filter (\<lambda>r. rq_poll_fd r = s) (pt_to_process y) = []" using no by (auto simp: filter_empty_conv pending_def)
  moreover have "held s pc = 0" if "(pc, w) \<in> set (pt_works y)" for pc w
  proof (cases pc)
    case (At_serve r)
    then have "r \<in> pending y" using that by (auto simp: pending_def)
    then show ?thesis using no At_serve by simp
  next
    case (At_rearm r)
    then have "r \<in> served y" using that by (auto simp: served_def)
    then show ?thesis using no At_rearm by simp
  qed simp_all
  ultimately show ?thesis by (auto simp: requests_for_def)
qed

lemma inv_accept:
  assumes "ps_inv n y" "n < 2000" "pt_backlog y = c # b" "unused_fd newsock y" "0 \<le> sint newsock"
  shows "\<exists>y'. accept_conn nworkers newsock r c (y\<lparr>pt_backlog := b\<rparr>) = Inr y' \<and> ps_inv n y' \<and> pt_polls y' = pt_polls y"
proof -
  have inv: "ps_inv n (y\<lparr>pt_backlog := b\<rparr>)" by (rule inv_backlog[OF assms(1,3)])
  define k where "k = r mod NUM_POLL_THREADS"
  define i where "i = unat (pt_curr_indexes y ! k)"
  have k: "k < 3" by (simp add: k_def NUM_POLL_THREADS_def)
  have sh: "shape_ok n y" "watch_ok y" and cn: "conns_ok y" and sl: "slots_ok y" and rq: "requests_ok y" "sem_ok y"
    and at: "\<And>q. q < 3 \<Longrightarrow> at_ok y q (pt_polls y ! q)"
    using assms(1) by (auto simp: ps_inv_def)
  note d = shapeD[OF sh(1) k]
  have i: "i < n" "i < length (pt_fdses y ! k)" using d(2,3) assms(2,3) by (simp_all add: i_def)
  have i1: "unat (pt_curr_indexes y ! k + 1) = i + 1" using i(1) assms(2) by (simp add: i_def unat_word_ariths)
  have "unat (pt_curr_indexes y ! 0) < n" using shapeD(2)[OF sh(1), of 0] assms(3) by simp
  then have cap: "pt_curr_indexes y ! 0 \<noteq> max_fds" using assms(2) by (auto simp: max_fds_def)
  define z where "z = (upd_slot (k, i) (\<lambda>x. x\<lparr>pf_fd := newsock, pf_events := POLLIN\<rparr>) (y\<lparr>pt_backlog := b\<rparr>))
     \<lparr>pt_curr_indexes := (pt_curr_indexes y)[k := pt_curr_indexes y ! k + 1], pt_conns := (pt_conns y)(newsock \<mapsto> c),
      pt_server := (pt_server y)\<lparr>sv_num_connections := sv_num_connections (pt_server y) + 1\<rparr>\<rparr>"
  have len: "fst (k, i) < length (pt_fdses (y\<lparr>pt_backlog := b\<rparr>))" "snd (k, i) < length (pt_fdses (y\<lparr>pt_backlog := b\<rparr>) ! fst (k, i))"
    using d(4) i(2) by simp_all
  have new: "get_slot (k, i) y = no_fd" using spareD[OF sl k, of i] i assms(2) by (simp add: i_def)
  have g: "get_slot s z = (if s = (k, i) then \<lparr>pf_fd = newsock, pf_events = POLLIN, pf_revents = 0\<rparr> else get_slot s y)" for s
    using get_upd_slot[OF len, of s "\<lambda>x. x\<lparr>pf_fd := newsock, pf_events := POLLIN\<rparr>"] new by (auto simp: z_def no_fd_def)
  have f: "pt_curr_indexes z = (pt_curr_indexes y)[k := pt_curr_indexes y ! k + 1]" "pt_works z = pt_works y"
    "pt_to_process z = pt_to_process y" "pt_pipefds z = pt_pipefds y" "pt_server_sock z = pt_server_sock y"
    "pt_sem_new_req z = pt_sem_new_req y" "pt_backlog z = b" "pt_pipes z = pt_pipes y" "pt_polls z = pt_polls y"
    "pt_conns z = (pt_conns y)(newsock \<mapsto> c)"
    by (simp_all add: z_def)
  have idx: "unat (pt_curr_indexes z ! q) = (if q = k then i + 1 else unat (pt_curr_indexes y ! q))" for q
    using i1 d(5) by (cases "q = k") (simp_all add: f)
  have cs: "conn_slot z s \<longleftrightarrow> conn_slot y s \<or> s = (k, i)" for s
    using d(1) k by (cases s) (auto simp: conn_slot_def idx i_def)
  have out: "\<not> conn_slot y (k, i)" by (simp add: conn_slot_def i_def)
  have fd: "newsock \<noteq> - 1" "pt_conns y newsock = None" "newsock \<noteq> pt_server_sock y" "newsock \<notin> set (pt_pipefds y)"
    using assms(4,5) by (auto simp: unused_fd_def)
  have c: "live z s \<longleftrightarrow> live y s \<or> s = (k, i)" "woken z q = woken y q" "served z = served y" "pending z = pending y"
    "requests_for s z = requests_for s y" for s q
    using out fd by (auto simp: cs live_def f g woken_def served_def pending_def requests_for_def)
  have ne: "s \<noteq> (k, i)" if "conn_slot y s" for s using that out by metis
  have rd: "readable z x" if "readable y x" for x using that fd by (auto simp: readable_def f)
  have w: "wake_slot q \<noteq> (k, i)" "(0, 0) \<noteq> (k, i)" for q
    using d(1) by (auto simp: wake_slot_def first_conn_def i_def split: if_splits)
  have ok: "conn_ok c" using cn assms(3) by (simp add: conns_ok_def)
  have "ps_inv n z"
  proof -
    have "shape_ok n z"
    proof -
      have "first_conn q \<le> unat (pt_curr_indexes z ! q) \<and> unat (pt_curr_indexes z ! q) + length b \<le> n" if "q < 3" for q
        using shapeD(1,2)[OF sh(1) that] d(1,2) assms(3) by (auto simp: idx i_def)
      then show ?thesis using sh(1) by (simp add: shape_ok_def f(7)) (simp add: z_def)
    qed
    moreover have "watch_ok z" using sh(2) w by (auto simp: watch_ok_def g f)
    moreover have "sem_ok z" using rq(2) by (simp add: sem_ok_def f)
    moreover have "conns_ok z" using cn ok assms(3,5) fd by (auto simp: conns_ok_def f unused_fd_def)
    moreover have "slots_ok z"
    proof (rule slotsI)
      show "pf_events (get_slot s z) = 0 \<or> pf_events (get_slot s z) = POLLIN" if "conn_slot z s" for s
        using slotD(1)[OF sl, of s] that by (auto simp: cs g)
      fix s assume "live z s"
      then have s: "live y s \<or> s = (k, i)" by (simp add: c)
      then show "\<exists>c. pt_conns z (pf_fd (get_slot s z)) = Some c" "requests_for s z = of_bool (pf_events (get_slot s z) = 0)"
        using liveD(3,4)[OF sl, of s] no_requests_outside[OF rq(1) out] by (auto simp: c f g)
      fix t assume t: "live z t" "pf_fd (get_slot s z) = pf_fd (get_slot t z)"
      then have "live y t \<or> t = (k, i)" by (simp add: c)
      moreover have "pf_fd (get_slot u z) = pf_fd (get_slot u y)" "pf_fd (get_slot u y) \<noteq> newsock" if u: "live y u" for u
      proof -
        have "u \<noteq> (k, i)" using u ne[of u] by (simp add: live_def)
        then show "pf_fd (get_slot u z) = pf_fd (get_slot u y)" by (simp add: g)
        show "pf_fd (get_slot u y) \<noteq> newsock" using liveD(3)[OF sl u] fd(2) by (metis option.distinct(1))
      qed
      moreover have "pf_fd (get_slot (k, i) z) = newsock" by (simp add: g)
      ultimately show "s = t" using s t(2) injD[OF sl, of s t] by metis
    next
      fix x c' assume x: "pt_conns z x = Some c'"
      show "\<exists>s. live z s \<and> pf_fd (get_slot s z) = x"
      proof (cases "x = newsock")
        case False
        then have "pt_conns y x = Some c'" using x by (simp add: f)
        from coverD[OF sl this] obtain s where "live y s" "pf_fd (get_slot s y) = x" by (elim exE conjE)
        moreover then have "s \<noteq> (k, i)" using ne[of s] by (simp add: live_def)
        ultimately show ?thesis by (intro exI[of _ s]) (simp add: c g)
      qed (intro exI[of _ "(k, i)"], simp add: c g)
    next
      fix q j assume q: "q < 3" "j < 2000" "unat (pt_curr_indexes z ! q) \<le> j"
      then have "unat (pt_curr_indexes y ! q) \<le> j" "(q, j) \<noteq> (k, i)" by (auto simp: idx i_def split: if_splits)
      then show "get_slot (q, j) z = no_fd" using spareD[OF sl q(1,2)] by (auto simp: g)
    qed
    moreover have "requests_ok z"
      using rq(1) rd ne by (auto simp: requests_ok_def c g cs live_def)
    moreover have "at_ok z q (pt_polls z ! q)" if q: "q < 3" for q
      unfolding f
    proof (rule at_ok_keep[OF _ _ q _ _ _ _ _ _ at[OF q]])
      show "(conn_slot y (q, j) \<and> keeps y z (q, j)) \<or> (\<not> conn_slot y (q, j) \<and> pf_revents (get_slot (q, j) z) = 0)"
        if "conn_slot z (q, j)" for j
        using that ne[of "(q, j)"] out by (auto simp: cs g keeps_def)
    qed (use w rd in \<open>auto simp: c f(2-10) g idx i_def\<close>)
    ultimately show ?thesis by (simp add: ps_inv_def)
  qed
  then show ?thesis
    using inv cap i(2) by (auto simp: accept_conn_def Let_def k_def[symmetric] i_def[symmetric] z_def f)
qed

end
