(* ===== verification/PollRun.thy ===== *)
theory PollRun
  imports PollInv
begin

text \<open>
  What the worker threads keep, and with it every run of the threads of the server: no two requests are
  under way for one connection, no connection is forgotten, and the threads do not fail by themselves.
  The last section shows what a client that resets its connection can bring about.
\<close>

section \<open>The worker threads\<close>

lemma keeps_fd: "keeps y z s \<Longrightarrow> pf_fd (get_slot s z) = pf_fd (get_slot s y) \<or> pf_fd (get_slot s z) = - 1"
  by (auto simp: keeps_def)

lemma keeps_events: "keeps y z s \<Longrightarrow> pf_fd (get_slot s z) \<noteq> - 1 \<Longrightarrow>
    pf_events (get_slot s z) = pf_events (get_slot s y) \<or> pf_events (get_slot s z) = POLLIN"
  by (auto simp: keeps_def)

lemma inv_work:
  assumes inv: "ps_inv n y" and const: "pt_curr_indexes z = pt_curr_indexes y" "pt_pipefds z = pt_pipefds y"
      "pt_server_sock z = pt_server_sock y" "pt_polls z = pt_polls y"
    and shape: "shape_ok n z" "conns_ok z" "sem_ok z" "requests_ok z"
    and keep: "\<And>s. conn_slot y s \<Longrightarrow> keeps y z s" "\<And>s. \<not> conn_slot y s \<Longrightarrow> get_slot s z = get_slot s y"
    and events: "\<And>s. conn_slot y s \<Longrightarrow> pf_events (get_slot s z) = pf_events (get_slot s y) \<or> pf_events (get_slot s z) = POLLIN"
    and conns: "\<And>s. live z s \<Longrightarrow> \<exists>c. pt_conns z (pf_fd (get_slot s z)) = Some c"
    and number: "\<And>s. live z s \<Longrightarrow> requests_for s z = of_bool (pf_events (get_slot s z) = 0)"
    and cover: "\<And>fd c. pt_conns z fd = Some c \<Longrightarrow> \<exists>s. live z s \<and> pf_fd (get_slot s z) = fd"
    and woken: "\<And>q. q < 3 \<Longrightarrow> woken y q \<Longrightarrow> woken z q"
    and readable: "\<And>s. live y s \<Longrightarrow> pf_events (get_slot s y) = POLLIN \<Longrightarrow> readable y (pf_fd (get_slot s y)) \<Longrightarrow>
      readable z (pf_fd (get_slot s y))"
  shows "ps_inv n z"
proof -
  have sh: "shape_ok n y" "watch_ok y" and sl: "slots_ok y" and at: "\<And>q. q < 3 \<Longrightarrow> at_ok y q (pt_polls y ! q)"
    using inv by (auto simp: ps_inv_def)
  have c: "conn_slot z s = conn_slot y s" for s by (simp add: conn_slot_def const)
  have old: "live y s" "pf_fd (get_slot s z) = pf_fd (get_slot s y)" if "live z s" for s
    using that keeps_fd[OF keep(1), of s] by (auto simp: live_def c)
  have watch: "get_slot (wake_slot q) z = get_slot (wake_slot q) y" "get_slot (0, 0) z = get_slot (0, 0) y" for q
    by (rule keep(2); auto simp: conn_slot_def wake_slot_def first_conn_def)+
  have "watch_ok z" using sh(2) by (simp add: watch_ok_def watch const)
  moreover have "slots_ok z"
  proof (rule slotsI)
    show "pf_events (get_slot s z) = 0 \<or> pf_events (get_slot s z) = POLLIN" if "conn_slot z s" for s
      using slotD(1)[OF sl, of s] events[of s] that by (auto simp: c)
    show "s = t" if "live z s" "live z t" "pf_fd (get_slot s z) = pf_fd (get_slot t z)" for s t
      using injD[OF sl, of s t] old[OF that(1)] old[OF that(2)] that(3) by simp
    fix p i assume i: "p < 3" "i < 2000" "unat (pt_curr_indexes z ! p) \<le> i"
    then have "\<not> conn_slot y (p, i)" by (simp add: conn_slot_def const)
    from keep(2)[OF this] show "get_slot (p, i) z = no_fd" using spareD[OF sl i(1,2)] i(3) by (simp add: const)
  qed (use conns number cover in blast)+
  moreover have "at_ok z q (pt_polls z ! q)" if q: "q < 3" for q
    unfolding const
  proof (rule at_ok_keep[OF _ _ q _ _ _ _ _ _ at[OF q]])
    show "(conn_slot y (q, i) \<and> keeps y z (q, i)) \<or> (\<not> conn_slot y (q, i) \<and> pf_revents (get_slot (q, i) z) = 0)"
      if "conn_slot z (q, i)" for i
      using that keep(1)[of "(q, i)"] by (simp add: c)
  qed (use watch woken q readable in \<open>simp_all add: const live_def\<close>)
  ultimately show ?thesis using shape by (simp add: ps_inv_def const)
qed

text \<open>A worker that goes on without touching a connection.\<close>

lemma works_upd_in: "x \<in> set (xs[j := a]) \<Longrightarrow> x = a \<or> x \<in> set xs"
  using set_update_subset_insert[of xs j a] by blast

lemma inv_work_move:
  assumes inv: "ps_inv n y" and j: "j < length (pt_works y)" "pt_works y ! j = (pc, w)"
    and const: "pt_curr_indexes z = pt_curr_indexes y" "pt_pipefds z = pt_pipefds y"
      "pt_server_sock z = pt_server_sock y" "pt_polls z = pt_polls y" "pt_conns z = pt_conns y" "\<And>s. get_slot s z = get_slot s y"
      "pt_works z = (pt_works y)[j := (pc', w')]"
    and shape: "shape_ok n z" "conns_ok z" "sem_ok z"
    and reqs: "pending z \<subseteq> pending y" "served z \<subseteq> served y \<union> pending y"
    and number: "\<And>s. requests_for s z = requests_for s y"
    and woken: "\<And>q. q < 3 \<Longrightarrow> woken y q \<Longrightarrow> woken z q"
  shows "ps_inv n z"
proof -
  have sl: "slots_ok y" and rq: "requests_ok y" using inv by (auto simp: ps_inv_def)
  have c: "conn_slot z s = conn_slot y s" "live z s = live y s" "readable z fd = readable y fd" for s fd
    by (simp_all add: conn_slot_def live_def readable_def const)
  show ?thesis
  proof (rule inv_work[OF inv const(1-4) shape])
    show "requests_ok z" using rq reqs unfolding requests_ok_def c const(6) live_def by blast
  qed (use liveD[OF sl] coverD[OF sl] number woken in \<open>simp_all add: c const keeps_def\<close>)
qed

lemma requests_works:
  assumes "j < length (pt_works y)" "pt_works y ! j = (pc, w)" "pt_works z = (pt_works y)[j := (pc', w')]"
  shows "requests_for s z + held s pc + length (filter (\<lambda>r. rq_poll_fd r = s) (pt_to_process y))
    = requests_for s y + held s pc' + length (filter (\<lambda>r. rq_poll_fd r = s) (pt_to_process z))"
  using sum_list_upd[OF assms(1), of "\<lambda>x. held s (fst x)" "(pc', w')"] assms(2,3) by (simp add: requests_for_def)

lemma pops_works:
  assumes "j < length (pt_works y)" "pt_works y ! j = (pc, w)"
  shows "sum_list (map (\<lambda>x. of_bool (fst x = At_pop)) ((pt_works y)[j := (pc', w')])) + of_bool (pc = At_pop)
    = sum_list (map (\<lambda>x. of_bool (fst x = At_pop)) (pt_works y)) + (of_bool (pc' = At_pop) :: nat)"
  using sum_list_upd[OF assms(1), of "\<lambda>x. of_bool (fst x = At_pop) :: nat" "(pc', w')"] assms(2) by simp

lemma in_works:
  assumes "(pc, w) \<in> set (pt_works z)" "pt_works z = (pt_works y)[j := (pc', w')]"
  shows "(pc = pc' \<and> w = w') \<or> (pc, w) \<in> set (pt_works y)"
  using works_upd_in[of "(pc, w)" "pt_works y" j "(pc', w')"] assms by auto

lemma works_other:
  assumes "x \<in> set xs" "xs ! j \<noteq> x"
  shows "x \<in> set (xs[j := a])"
proof -
  obtain k where k: "k < length xs" "xs ! k = x" using assms(1) by (auto simp: in_set_conv_nth)
  then have "xs[j := a] ! k = x" using assms(2) by (cases "k = j") auto
  then show ?thesis using k(1) nth_mem[of k "xs[j := a]"] by simp
qed

lemma woken_works:
  assumes "pt_works y ! j = (pc, w)" "\<And>r. pc \<noteq> At_wake r" "pt_works z = (pt_works y)[j := x]" "pt_pipes z = pt_pipes y" "woken y q"
  shows "woken z q"
  using assms(5) works_other[of _ "pt_works y" j x] assms(1-4) by (fastforce simp: woken_def)

lemma inv_wait:
  assumes inv: "ps_inv n y" and j: "j < length (pt_works y)" "pt_works y ! j = (pc, w)"
    and pc: "pc = At_wait \<or> pc = At_sem" "pc' = At_wait \<or> pc' = At_sem \<or> pc' = Work_ended"
  shows "ps_inv n (set_work j (pc', w) y)"
    and "pt_sem_new_req y \<noteq> 0 \<Longrightarrow> ps_inv n (set_work j (At_pop, w) (y\<lparr>pt_sem_new_req := pt_sem_new_req y - 1\<rparr>))"
proof -
  have parts: "shape_ok n y" "conns_ok y" "sem_ok y" using inv by (auto simp: ps_inv_def)
  have mem: "pending z \<subseteq> pending y" "served z \<subseteq> served y \<union> pending y" "woken y q \<Longrightarrow> woken z q"
    if "pt_works z = (pt_works y)[j := (pc', w)]" "pc' = At_pop \<or> pc' = At_wait \<or> pc' = At_sem \<or> pc' = Work_ended"
      "pt_to_process z = pt_to_process y" "pt_pipes z = pt_pipes y" for z pc' q
  proof -
    show "pending z \<subseteq> pending y" using in_works[OF _ that(1)] that(2,3) by (fastforce simp: pending_def)
    show "served z \<subseteq> served y \<union> pending y" using in_works[OF _ that(1)] that(2) by (fastforce simp: served_def)
    show "woken y q \<Longrightarrow> woken z q" by (rule woken_works[OF j(2) _ that(1,4)]) (use pc(1) in auto)
  qed
  have held: "held s pc = 0" "held s pc' = 0" "pc \<noteq> At_pop" "pc' \<noteq> At_pop" for s using pc by auto
  show "ps_inv n (set_work j (pc', w) y)"
    by (rule inv_work_move[OF inv j, where pc' = pc' and w' = w])
       (use parts pc(2) mem[of "set_work j (pc', w) y" pc'] requests_works[OF j, of "set_work j (pc', w) y" pc' w]
          pops_works[OF j, of pc' w] held in
        \<open>simp_all add: shape_ok_def conns_ok_def sem_ok_def unused_fd_def\<close>)
  assume pos: "pt_sem_new_req y \<noteq> 0"
  let ?z = "set_work j (At_pop, w) (y\<lparr>pt_sem_new_req := pt_sem_new_req y - 1\<rparr>)"
  show "ps_inv n ?z"
    by (rule inv_work_move[OF inv j, where pc' = At_pop and w' = w])
       (use parts pos mem[of ?z At_pop] requests_works[OF j, of ?z At_pop w] pops_works[OF j, of At_pop w] held in
        \<open>simp_all add: shape_ok_def conns_ok_def sem_ok_def unused_fd_def\<close>)
qed

lemma inv_pop:
  assumes inv: "ps_inv n y" and j: "j < length (pt_works y)" "pt_works y ! j = (At_pop, w)"
  shows "\<exists>req reqs. pt_to_process y = req # reqs \<and> pf_fd (get_slot (rq_poll_fd req) y) = rq_sock req
    \<and> ps_inv n (set_work j (At_serve req, w) (y\<lparr>pt_to_process := reqs\<rparr>))"
proof -
  have parts: "shape_ok n y" "conns_ok y" "sem_ok y" using inv by (auto simp: ps_inv_def)
  have "pt_to_process y \<noteq> []"
  proof
    assume "pt_to_process y = []"
    then have "\<forall>x\<in>set (pt_works y). fst x \<noteq> At_pop" using parts(3) by (simp add: sem_ok_def)
    then show False using nth_mem[OF j(1)] j(2) by force
  qed
  then obtain req reqs where q: "pt_to_process y = req # reqs" by (cases "pt_to_process y") auto
  let ?z = "set_work j (At_serve req, w) (y\<lparr>pt_to_process := reqs\<rparr>)"
  have works: "pt_works ?z = (pt_works y)[j := (At_serve req, w)]" by simp
  have "ps_inv n ?z"
  proof (rule inv_work_move[OF inv j])
    show "pending ?z \<subseteq> pending y" using in_works[OF _ works] by (fastforce simp: pending_def q)
    show "served ?z \<subseteq> served y \<union> pending y" using in_works[OF _ works] by (fastforce simp: served_def)
    show "woken y q' \<Longrightarrow> woken ?z q'" for q' by (rule woken_works[OF j(2) _ works]) simp_all
    show "requests_for s ?z = requests_for s y" for s
      using requests_works[OF j works, of s] by (simp add: q split: if_splits)
    show "sem_ok ?z" using parts(3) pops_works[OF j, of "At_serve req" w] by (simp add: sem_ok_def q)
  qed (use parts in \<open>simp_all add: shape_ok_def conns_ok_def unused_fd_def\<close>)
  moreover have "pf_fd (get_slot (rq_poll_fd req) y) = rq_sock req"
    using inv by (simp add: ps_inv_def requests_ok_def pending_def q)
  ultimately show ?thesis using q by blast
qed

lemma inv_wake:
  assumes inv: "ps_inv n y" and j: "j < length (pt_works y)" "pt_works y ! j = (At_wake req, w)"
  shows "ps_inv n (set_work j (At_wait, w) (y\<lparr>pt_pipes := (pt_pipes y)[rq_id req := pt_pipes y ! rq_id req + 1]\<rparr>))"
    (is "ps_inv n ?z")
proof -
  have parts: "shape_ok n y" "conns_ok y" "sem_ok y" using inv by (auto simp: ps_inv_def)
  have works: "pt_works ?z = (pt_works y)[j := (At_wait, w)]" by simp
  show ?thesis
  proof (rule inv_work_move[OF inv j])
    show "pending ?z \<subseteq> pending y" using in_works[OF _ works] by (fastforce simp: pending_def)
    show "served ?z \<subseteq> served y \<union> pending y" using in_works[OF _ works] by (fastforce simp: served_def)
    show "requests_for s ?z = requests_for s y" for s using requests_works[OF j works, of s] by simp
    show "sem_ok ?z" using parts(3) pops_works[OF j, of At_wait w] by (simp add: sem_ok_def)
    show "woken ?z q" if q: "q < 3" "woken y q" for q
    proof (cases "rq_id req = q")
      case True
      then show ?thesis using shapeD(7)[OF parts(1) q(1)] by (simp add: woken_def)
    next
      case False
      have "(At_wake r, v) \<in> set ((pt_works y)[j := (At_wait, w)])"
        if "(At_wake r, v) \<in> set (pt_works y)" "rq_id r = q" for r v
        by (rule works_other[OF that(1)]) (use that(2) False j(2) in auto)
      then show ?thesis using q(2) False by (fastforce simp: woken_def)
    qed
  qed (use parts in \<open>simp_all add: shape_ok_def conns_ok_def unused_fd_def\<close>)
qed

lemma Suc_of_bool [simp]: "Suc n = of_bool b \<longleftrightarrow> n = 0 \<and> b"
  by (cases b) auto

lemma inv_rearm:
  assumes inv: "ps_inv n y" "n < 2000" and j: "j < length (pt_works y)" "pt_works y ! j = (At_rearm req, w)"
  shows "ps_inv n (set_work j (At_wake req, w) (upd_slot (rq_poll_fd req) (\<lambda>x. x\<lparr>pf_events := POLLIN\<rparr>) y))"
proof -
  have parts: "shape_ok n y" "conns_ok y" "sem_ok y" and sl: "slots_ok y" and rq: "requests_ok y" using inv by (auto simp: ps_inv_def)
  define sl0 where "sl0 = rq_poll_fd req"
  define z where "z = set_work j (At_wake req, w) (upd_slot sl0 (\<lambda>x. x\<lparr>pf_events := POLLIN\<rparr>) y)"
  have "(At_rearm req, w) \<in> set (pt_works y)" using nth_mem[OF j(1)] j(2) by simp
  then have req: "conn_slot y sl0" "rq_id req = fst sl0" using rq by (auto simp: requests_ok_def served_def sl0_def)
  note sb = slot_bounds[OF parts(1) inv(2) req(1)]
  have g: "get_slot s z = (if s = sl0 then (get_slot s y)\<lparr>pf_events := POLLIN\<rparr> else get_slot s y)" for s
    using get_upd_slot[OF sb(1,2), of s "\<lambda>x. x\<lparr>pf_events := POLLIN\<rparr>"] by (auto simp: z_def)
  have works: "pt_works z = (pt_works y)[j := (At_wake req, w)]" by (simp add: z_def)
  have f: "pt_curr_indexes z = pt_curr_indexes y" "pt_pipefds z = pt_pipefds y" "pt_server_sock z = pt_server_sock y"
    "pt_polls z = pt_polls y" "pt_conns z = pt_conns y" "pt_to_process z = pt_to_process y" "pt_pipes z = pt_pipes y"
    by (simp_all add: z_def)
  have c: "conn_slot z s = conn_slot y s" "live z s = live y s" "readable z fd = readable y fd" for s fd
    by (auto simp: conn_slot_def live_def readable_def f g)
  have count: "requests_for s z + of_bool (s = sl0) = requests_for s y" for s
    using requests_works[OF j works, of s] by (auto simp: f sl0_def)
  have woken: "woken z (fst sl0)" using works j(1) set_update_memI[OF j(1), of "(At_wake req, w)"] req(2) by (force simp: woken_def)
  have sub: "pending z \<subseteq> pending y" "served z \<subseteq> served y"
    using in_works[OF _ works] \<open>(At_rearm req, w) \<in> set (pt_works y)\<close> by (fastforce simp: pending_def served_def f)+
  have "ps_inv n z"
  proof (rule inv_work[OF inv(1) f(1-4)])
    show "shape_ok n z" "conns_ok z" using parts by (simp_all add: z_def shape_ok_def conns_ok_def unused_fd_def)
    show "sem_ok z" using parts(3) pops_works[OF j, of "At_wake req" w] by (simp add: z_def sem_ok_def)
    show "requests_ok z" using rq sub by (auto simp: requests_ok_def c g)
    show "keeps y z s" if "conn_slot y s" for s
    proof (cases "s = sl0")
      case True
      show ?thesis
      proof (cases "pf_fd (get_slot sl0 y) = - 1")
        case False
        then have "requests_for sl0 y = of_bool (pf_events (get_slot sl0 y) = 0)" by (rule slotD(3)[OF sl req(1)])
        then show ?thesis using count[of sl0] woken True by (simp add: keeps_def g split: if_splits)
      qed (simp add: keeps_def g True)
    qed (simp add: keeps_def g)
    show "get_slot s z = get_slot s y" if "\<not> conn_slot y s" for s using that req(1) by (auto simp: g)
    show "pf_events (get_slot s z) = pf_events (get_slot s y) \<or> pf_events (get_slot s z) = POLLIN" for s by (simp add: g)
    show "\<exists>c. pt_conns z (pf_fd (get_slot s z)) = Some c" if "live z s" for s
      using that liveD(3)[OF sl, of s] by (auto simp: c f g)
    show "requests_for s z = of_bool (pf_events (get_slot s z) = 0)" if "live z s" for s
    proof -
      have "live y s" using that by (simp add: c)
      then have r: "requests_for s y = of_bool (pf_events (get_slot s y) = 0)" by (rule liveD(4)[OF sl])
      show ?thesis
      proof (cases "s = sl0")
        case True
        then show ?thesis using count[of sl0] r by (simp add: g split: if_splits)
      qed (use count[of s] r in \<open>simp add: g\<close>)
    qed
    show "\<exists>s. live z s \<and> pf_fd (get_slot s z) = fd" if "pt_conns z fd = Some x" for fd x
    proof -
      from that have "pt_conns y fd = Some x" by (simp add: f)
      from coverD[OF sl this] obtain s where "live y s" "pf_fd (get_slot s y) = fd" by (elim exE conjE)
      then show ?thesis by (intro exI[of _ s]) (auto simp: c g)
    qed
    show "woken z q" if "woken y q" for q by (rule woken_works[OF j(2) _ works f(7) that]) simp
  qed (simp add: c)
  then show ?thesis by (simp add: z_def sl0_def)
qed

text \<open>What a request that is served may rely on.\<close>

lemma serving_facts:
  assumes inv: "ps_inv n y" and j: "j < length (pt_works y)" "pt_works y ! j = (At_serve req, w)"
  shows "live y (rq_poll_fd req)" "pf_fd (get_slot (rq_poll_fd req) y) = rq_sock req" "rq_id req = fst (rq_poll_fd req)"
    and "\<exists>c. pt_conns y (rq_sock req) = Some c \<and> conn_ok c" "pf_events (get_slot (rq_poll_fd req) y) = 0"
    and "\<And>z r. pt_works z = (pt_works y)[j := (pc', w')] \<Longrightarrow> pt_to_process z = pt_to_process y \<Longrightarrow> \<forall>r. pc' \<noteq> At_serve r \<Longrightarrow>
      r \<in> pending z \<Longrightarrow> r \<in> pending y \<and> rq_poll_fd r \<noteq> rq_poll_fd req \<and> rq_sock r \<noteq> rq_sock req"
proof -
  have cn: "conns_ok y" and sl: "slots_ok y" and rq: "requests_ok y" using inv by (auto simp: ps_inv_def)
  have req_in: "req \<in> pending y" using nth_mem[OF j(1)] j(2) by (auto simp: pending_def)
  then show live: "live y (rq_poll_fd req)" and fd: "pf_fd (get_slot (rq_poll_fd req) y) = rq_sock req"
    and "rq_id req = fst (rq_poll_fd req)" using rq by (auto simp: requests_ok_def)
  then show "\<exists>c. pt_conns y (rq_sock req) = Some c \<and> conn_ok c" using liveD(3)[OF sl live] connD(1)[OF cn] by auto
  have one: "requests_for (rq_poll_fd req) y = of_bool (pf_events (get_slot (rq_poll_fd req) y) = 0)" by (rule liveD(4)[OF sl live])
  have upd: "requests_for s z + of_bool (s = rq_poll_fd req) = requests_for s y"
    if "pt_works z = (pt_works y)[j := (At_wait, w')]" "pt_to_process z = pt_to_process y" for z s
    using requests_works[OF j that(1), of s] that(2) by (auto split: if_splits)
  let ?z = "y\<lparr>pt_works := (pt_works y)[j := (At_wait, w')]\<rparr>"
  have zero: "requests_for (rq_poll_fd req) ?z = 0" using upd[of ?z "rq_poll_fd req"] one by (simp split: if_splits)
  show "pf_events (get_slot (rq_poll_fd req) y) = 0" using upd[of ?z "rq_poll_fd req"] one by (simp split: if_splits)
  have pos: "0 < requests_for (rq_poll_fd r) z'" if pend: "r \<in> pending z'" for r z'
  proof (cases "r \<in> set (pt_to_process z')")
    case True
    then have "filter (\<lambda>x. rq_poll_fd x = rq_poll_fd r) (pt_to_process z') \<noteq> []" by (auto simp: filter_empty_conv)
    then show ?thesis by (simp add: requests_for_def)
  next
    case False
    then obtain v where v: "(At_serve r, v) \<in> set (pt_works z')" using pend by (auto simp: pending_def)
    then have "held (rq_poll_fd r) (At_serve r) \<in> set (map (\<lambda>x. held (rq_poll_fd r) (fst x)) (pt_works z'))" by force
    from member_le_sum_list[OF this] show ?thesis by (simp add: requests_for_def)
  qed
  show "r \<in> pending y \<and> rq_poll_fd r \<noteq> rq_poll_fd req \<and> rq_sock r \<noteq> rq_sock req"
    if z: "pt_works z = (pt_works y)[j := (pc', w')]" "pt_to_process z = pt_to_process y" "\<forall>r. pc' \<noteq> At_serve r" "r \<in> pending z" for z r
  proof -
    have "set ((pt_works y)[j := (pc', w')]) \<subseteq> insert (pc', w') (set ((pt_works y)[j := (At_wait, w')]))"
      using set_update_subset_insert[of "(pt_works y)[j := (At_wait, w')]" j "(pc', w')"] by simp
    then have r: "r \<in> pending ?z" using z by (auto simp: pending_def)
    then have a: "rq_poll_fd r \<noteq> rq_poll_fd req" using pos[OF r] zero by auto
    have b: "r \<in> pending y" using z in_works[OF _ z(1)] by (fastforce simp: pending_def)
    then have "live y (rq_poll_fd r)" "pf_fd (get_slot (rq_poll_fd r) y) = rq_sock r" using rq by (auto simp: requests_ok_def)
    then show ?thesis using a b injD[OF sl _ live, of "rq_poll_fd r"] fd by metis
  qed
qed

lemma serve_closes:
  assumes "serve now c w s = Inr (c', w', s')" "op_read_failed c"
  shows "\<not> cn_fd c'"
  using assms by (auto simp: serve_def op_read_failed_def handle_failed_read_def)

lemma op_closed: "op_read_failed c \<Longrightarrow> cn_fd c \<Longrightarrow> \<exists>c'. read_n 4 c = Inr (0, c')"
  by (auto simp: op_read_failed_def split: sum.splits)

lemma inv_served:
  assumes inv: "ps_inv n y" "n < 2000" and j: "j < length (pt_works y)" "pt_works y ! j = (At_serve req, w)"
    and c: "pt_conns y (rq_sock req) = Some c" "conn_ok c'"
  shows "ps_inv n (set_work j (At_rearm req, w') (y\<lparr>pt_conns := (pt_conns y)(rq_sock req \<mapsto> c'), pt_server := s'\<rparr>))"
    (is "ps_inv n ?z")
proof -
  have parts: "shape_ok n y" "conns_ok y" "sem_ok y" and sl: "slots_ok y" and rq: "requests_ok y" using inv by (auto simp: ps_inv_def)
  note sf = serving_facts[OF inv(1) j]
  have works: "pt_works ?z = (pt_works y)[j := (At_rearm req, w')]" by simp
  have cc: "conn_slot ?z s = conn_slot y s" "live ?z s = live y s" for s by (simp_all add: conn_slot_def live_def)
  have rd: "readable ?z fd = readable y fd" if "fd \<noteq> rq_sock req" for fd using that by (simp add: readable_def)
  have pend: "r \<in> pending y" "rq_sock r \<noteq> rq_sock req" if "r \<in> pending ?z" for r
    using sf(6)[OF works _ _ that] by simp_all
  have serv: "r \<in> served y \<or> r = req" if "r \<in> served ?z" for r using that in_works[OF _ works] by (fastforce simp: served_def)
  show ?thesis
  proof (rule inv_work[OF inv(1)])
    show "shape_ok n ?z" using parts by (simp add: shape_ok_def)
    show "conns_ok ?z" using parts(2) c connD(2-4)[OF parts(2) c(1)] by (auto simp: conns_ok_def unused_fd_def)
    show "sem_ok ?z" using parts(3) pops_works[OF j, of "At_rearm req" w'] by (simp add: sem_ok_def)
    have "conn_slot y (rq_poll_fd req)" using sf(1) by (simp add: live_def)
    then have "\<forall>r\<in>served ?z. conn_slot y (rq_poll_fd r) \<and> rq_id r = fst (rq_poll_fd r)"
      using serv sf(3) rq unfolding requests_ok_def by blast
    then show "requests_ok ?z" using rq pend unfolding requests_ok_def cc by (auto simp: rd)
    show "keeps y ?z s" for s by (simp add: keeps_def)
    show "\<exists>c. pt_conns ?z (pf_fd (get_slot s ?z)) = Some c" if "live ?z s" for s
      using liveD(3)[OF sl, of s] that by (auto simp: cc)
    show "requests_for s ?z = of_bool (pf_events (get_slot s ?z) = 0)" if "live ?z s" for s
      using liveD(4)[OF sl, of s] requests_works[OF j works, of s] that by (simp add: cc)
    show "\<exists>s. live ?z s \<and> pf_fd (get_slot s ?z) = fd" if fd: "pt_conns ?z fd = Some x" for fd x
    proof -
      have "\<exists>x. pt_conns y fd = Some x" using fd c(1) by (cases "fd = rq_sock req") auto
      then obtain x' where "pt_conns y fd = Some x'" by blast
      from coverD[OF sl this] show ?thesis by (simp add: cc)
    qed
    show "woken ?z q" if "woken y q" for q by (rule woken_works[OF j(2) _ works _ that]) simp_all
    show "readable ?z (pf_fd (get_slot s y))"
      if "live y s" "pf_events (get_slot s y) = POLLIN" "readable y (pf_fd (get_slot s y))" for s
    proof -
      have "s \<noteq> rq_poll_fd req" using that(2) sf(5) by auto
      then have "pf_fd (get_slot s y) \<noteq> rq_sock req" using injD[OF sl that(1) sf(1)] sf(2) by auto
      then show ?thesis using that(3) by (simp add: rd)
    qed
  qed simp_all
qed

lemma inv_failed:
  assumes inv: "ps_inv n y" "n < 2000" and j: "j < length (pt_works y)" "pt_works y ! j = (At_serve req, w)"
    and pc: "pc' = At_wait \<or> pc' = At_rearm req \<or> pc' = Work_ended"
  shows "ps_inv n (set_work j (pc', w') (upd_slot (rq_poll_fd req) (\<lambda>x. x\<lparr>pf_fd := - 1, pf_revents := 0\<rparr>)
    (y\<lparr>pt_server := s', pt_conns := (pt_conns y)(rq_sock req := None)\<rparr>)))"
proof -
  have parts: "shape_ok n y" "conns_ok y" "sem_ok y" and sl: "slots_ok y" and rq: "requests_ok y" using inv by (auto simp: ps_inv_def)
  note sf = serving_facts[OF inv(1) j]
  define sl0 where "sl0 = rq_poll_fd req"
  define z where "z = set_work j (pc', w') (upd_slot sl0 (\<lambda>x. x\<lparr>pf_fd := - 1, pf_revents := 0\<rparr>)
    (y\<lparr>pt_server := s', pt_conns := (pt_conns y)(rq_sock req := None)\<rparr>))"
  have s0: "conn_slot y sl0" using sf(1) by (simp add: live_def sl0_def)
  note sb = slot_bounds[OF parts(1) inv(2) s0]
  have len: "fst sl0 < length (pt_fdses (y\<lparr>pt_server := s', pt_conns := (pt_conns y)(rq_sock req := None)\<rparr>))"
    "snd sl0 < length (pt_fdses (y\<lparr>pt_server := s', pt_conns := (pt_conns y)(rq_sock req := None)\<rparr>) ! fst sl0)"
    using sb(1,2) by simp_all
  have g: "get_slot s z = (if s = sl0 then (get_slot s y)\<lparr>pf_fd := - 1, pf_revents := 0\<rparr> else get_slot s y)" for s
    using get_upd_slot[OF len, of s "\<lambda>x. x\<lparr>pf_fd := - 1, pf_revents := 0\<rparr>"] by (auto simp: z_def)
  have works: "pt_works z = (pt_works y)[j := (pc', w')]" by (simp add: z_def)
  have f: "pt_curr_indexes z = pt_curr_indexes y" "pt_pipefds z = pt_pipefds y" "pt_server_sock z = pt_server_sock y"
    "pt_polls z = pt_polls y" "pt_conns z = (pt_conns y)(rq_sock req := None)" "pt_to_process z = pt_to_process y"
    "pt_pipes z = pt_pipes y" by (simp_all add: z_def)
  have cc: "conn_slot z s = conn_slot y s" "live z s \<longleftrightarrow> live y s \<and> s \<noteq> sl0" for s
    by (auto simp: conn_slot_def live_def f g)
  have rd: "readable z fd = readable y fd" if "fd \<noteq> rq_sock req" for fd using that by (simp add: readable_def f)
  have fd: "pf_fd (get_slot s y) \<noteq> rq_sock req" if "live y s" "s \<noteq> sl0" for s
    using injD[OF sl that(1) sf(1)] that(2) sf(2) by (auto simp: sl0_def)
  have pend: "r \<in> pending y \<and> rq_poll_fd r \<noteq> sl0 \<and> rq_sock r \<noteq> rq_sock req" if "r \<in> pending z" for r
    using sf(6)[OF works f(6) _ that] pc by (auto simp: sl0_def)
  have serv: "r \<in> served y \<or> r = req" if "r \<in> served z" for r using that in_works[OF _ works] pc by (fastforce simp: served_def)
  have "ps_inv n z"
  proof (rule inv_work[OF inv(1) f(1-4)])
    show "shape_ok n z" using parts by (simp add: z_def shape_ok_def)
    show "conns_ok z" using parts(2) by (auto simp: conns_ok_def unused_fd_def z_def)
    show "sem_ok z" using parts(3) pops_works[OF j, of pc' w'] pc by (auto simp: sem_ok_def z_def)
    have "\<forall>r\<in>served z. conn_slot y (rq_poll_fd r) \<and> rq_id r = fst (rq_poll_fd r)"
      using serv sf(3) rq s0 unfolding requests_ok_def sl0_def by blast
    then show "requests_ok z" using rq pend unfolding requests_ok_def cc by (auto simp: rd g)
    show "keeps y z s" for s using sf(5) by (simp add: keeps_def g sl0_def)
    show "get_slot s z = get_slot s y" if "\<not> conn_slot y s" for s using that s0 by (auto simp: g)
    show "pf_events (get_slot s z) = pf_events (get_slot s y) \<or> pf_events (get_slot s z) = POLLIN" for s by (simp add: g)
    show "\<exists>c. pt_conns z (pf_fd (get_slot s z)) = Some c" if "live z s" for s
      using liveD(3)[OF sl, of s] fd[of s] that by (simp add: cc g f)
    show "requests_for s z = of_bool (pf_events (get_slot s z) = 0)" if "live z s" for s
      using liveD(4)[OF sl, of s] requests_works[OF j works, of s] that pc by (auto simp: cc g f sl0_def)
    show "\<exists>s. live z s \<and> pf_fd (get_slot s z) = x" if x: "pt_conns z x = Some x'" for x x'
    proof -
      have ne: "x \<noteq> rq_sock req" and "pt_conns y x = Some x'" using x by (auto simp: f split: if_splits)
      from coverD[OF sl this(2)] obtain s where "live y s" "pf_fd (get_slot s y) = x" by (elim exE conjE)
      moreover then have "s \<noteq> sl0" using ne sf(2) by (auto simp: sl0_def)
      ultimately show ?thesis by (intro exI[of _ s]) (simp add: cc g)
    qed
    show "woken z q" if "woken y q" for q by (rule woken_works[OF j(2) _ works f(7) that]) simp
    show "readable z (pf_fd (get_slot s y))"
      if "live y s" "pf_events (get_slot s y) = POLLIN" "readable y (pf_fd (get_slot s y))" for s
    proof -
      have "s \<noteq> sl0" using that(2) sf(5) by (auto simp: sl0_def)
      from fd[OF that(1) this] show ?thesis using that(3) by (simp add: rd)
    qed
  qed
  then show ?thesis by (simp add: z_def sl0_def)
qed

lemma inv_serve:
  assumes inv: "ps_inv n y" "n < 2000" and wf: "server_wf (pt_server y)" and j: "j < length (pt_works y)" "pt_works y ! j = (At_serve req, w)"
    and step: "serve_request now j req w y = Inr z"
  shows "ps_inv n z \<and> server_wf (pt_server z) \<and> ps_step (pt_server y) (pt_server z)"
proof -
  note sf = serving_facts[OF inv(1) j]
  obtain c where c: "pt_conns y (rq_sock req) = Some c" "conn_ok c" using sf(4) by blast
  obtain c' w' s where s: "serve now c w (pt_server y) = Inr (c', w', s)" using step c(1) by (auto simp: serve_request_def)
  have ev: "server_wf s" using evolves_serve[OF s] wf by (auto simp: evolves_def)
  have kills: "\<not> op_kills c" using s by (auto simp: serve_def op_kills_def operation_to_f_def)
  have ps: "ps_step (pt_server y) s" by (rule ps_step.request[OF s])
  let ?pc = "if op_read_failed c then At_wait else if op_kills c then Work_ended else At_rearm req"
  show ?thesis
  proof (cases "cn_fd c'")
    case True
    have "\<not> op_read_failed c" using serve_closes[OF s] True by blast
    moreover have "conn_ok c'" using True serve_end[OF s] c(2) by (simp add: conn_ok_def)
    ultimately show ?thesis
      using step c(1) s True ev kills ps inv_served[OF inv j c(1), of c' w' s] by (auto simp: serve_request_def)
  next
    case False
    have fd: "pf_fd (get_slot (rq_poll_fd req) y) = rq_sock req" by (rule sf(2))
    have "z = set_work j (?pc, w') (upd_slot (rq_poll_fd req) (\<lambda>x. x\<lparr>pf_fd := - 1, pf_revents := 0\<rparr>)
        (y\<lparr>pt_server := s, pt_conns := (pt_conns y)(rq_sock req := None)\<rparr>))"
      using step c(1) s False fd by (simp add: serve_request_def close_fd_def Let_def)
    then show ?thesis using inv_failed[OF inv j, of ?pc w' s] ev ps by auto
  qed
qed

section \<open>Every turn\<close>

definition no_worse :: "server \<Rightarrow> server \<Rightarrow> bool" where
  "no_worse s s' \<longleftrightarrow> (server_wf s \<longrightarrow> server_wf s') \<and> ps_step\<^sup>*\<^sup>* s s'"

lemma no_worse_same [simp]: "no_worse s s"
  by (simp add: no_worse_def)

lemma no_worse_conns [simp]: "no_worse s (s\<lparr>sv_num_connections := n\<rparr>)"
  using ps_step.connections[of s n] by (auto simp: no_worse_def server_wf_def registry_def)

lemma inv_scan:
  assumes inv: "ps_inv n y" "n < 2000" and p: "p < 3" "pt_polls y ! p = At_scan i"
  shows "case scan_fd nworkers newsock r p i y of Inl e \<Rightarrow> sint newsock < 0
    | Inr z \<Rightarrow> ps_inv n z \<and> no_worse (pt_server y) (pt_server z)"
proof (cases "unat (pt_curr_indexes y ! p) \<le> i")
  case True
  have "ps_inv n (set_poll p At_purge y)" by (rule poll_inv_move[OF inv(1) p(1)]) (simp_all add: p(2) posting_def)
  then show ?thesis using True by (simp add: scan_fd_def)
next
  case False
  have sh: "shape_ok n y" "watch_ok y" "conns_ok y" "slots_ok y" and at: "at_ok y p (At_scan i)"
    using inv(1) p by (auto simp: ps_inv_def dest: spec)
  then have scan: "scan_ok y p i" by simp
  note d = shapeD[OF sh(1) p(1)]
  have i: "i < 2000" using False d(2) inv(2) by simp
  have at1: "at_ok y p (At_scan (i + 1))" using scan by (simp add: scan_ok_def)
  have post: "posting (At_scan (i + 1)) = posting (pt_polls y ! p)" by (simp add: p(2) posting_def)
  have skip: "ps_inv n (set_poll p (At_scan (i + 1)) y)" by (rule poll_inv_move[OF inv(1) p(1) at1 post])
  have clear: "ps_inv n (set_poll p (At_scan (i + 1)) (upd_slot (p, i) (\<lambda>x. x\<lparr>pf_revents := 0\<rparr>) y))"
    by (rule inv_clear[OF inv(1) p(1) i at1 post])
  have kind: "(p, i) = wake_slot p \<or> (p = 0 \<and> i = 0) \<or> conn_slot y (p, i)"
    using False p(1) by (auto simp: wake_slot_def conn_slot_def first_conn_def)
  have hup: "pf_revents (get_slot (p, i) y) AND POLLHUP = 0"
    using kind scan by (auto simp: scan_ok_def seen_ok_def)
  show ?thesis
  proof (cases "pf_fd (get_slot (p, i) y) = - 1 \<or> pf_revents (get_slot (p, i) y) \<noteq> POLLIN")
    case True
    then show ?thesis using False skip clear hup by (auto simp: scan_fd_def Let_def)
  next
    case some: False
    show ?thesis
    proof (cases "p = 0 \<and> i = 0")
      case True
      have fd: "pf_fd (get_slot (p, i) y) = pt_server_sock y" using sh(2) True by (simp add: watch_ok_def)
      show ?thesis
      proof (cases "sint newsock < 0 \<or> pt_backlog y = [] \<or> \<not> unused_fd newsock y")
        case True
        then show ?thesis using False some fd \<open>p = 0 \<and> i = 0\<close> inv(1) by (auto simp: scan_fd_def Let_def)
      next
        case ok: False
        then obtain c b where b: "pt_backlog y = c # b" by (cases "pt_backlog y") auto
        obtain y' where y': "accept_conn nworkers newsock r c (y\<lparr>pt_backlog := b\<rparr>) = Inr y'" "ps_inv n y'" "pt_polls y' = pt_polls y"
          using inv_accept[OF inv b, of newsock nworkers r] ok by auto
        have srv: "no_worse (pt_server y) (pt_server y')"
          using y'(1) by (auto simp: accept_conn_def Let_def split: if_splits)
        have "at_ok y' p (pt_polls y' ! p)" using y'(2) p(1) by (simp add: ps_inv_def)
        then have "at_ok y' p (At_scan (i + 1))" using y'(3) p(2) by (simp add: scan_ok_def)
        from inv_clear[OF y'(2) p(1) i this] post y'(3) have
          "ps_inv n (set_poll p (At_scan (i + 1)) (upd_slot (p, i) (\<lambda>x. x\<lparr>pf_revents := 0\<rparr>) y'))" by simp
        then show ?thesis using False some fd True ok b y'(1) srv by (simp add: scan_fd_def Let_def)
      qed
    next
      case no: False
      have "pf_revents (get_slot (wake_slot p) y) \<noteq> POLLIN" using scan by (simp add: scan_ok_def)
      then have cs: "conn_slot y (p, i)" using kind no some by auto
      have "pf_fd (get_slot (p, i) y) \<noteq> pt_server_sock y"
        using connD(2)[OF sh(3)] slotD(2)[OF sh(4) cs] some by metis
      then show ?thesis
        using False some no inv_process[OF inv p cs] by (simp add: scan_fd_def Let_def process_request_def)
    qed
  qed
qed

text \<open>Who is to blame when a turn fails: the kernel, the handler of a request, or the tick of \<open>run\<close>.\<close>

definition outside_failure :: "ps_threads \<Rightarrow> ps_action \<Rightarrow> cpp_error \<Rightarrow> bool" where
  "outside_failure y act e \<longleftrightarrow> (\<exists>p. act = Poll_fails p False) \<or> (\<exists>p newsock r. act = Poll_turn p newsock r \<and> sint newsock < 0)
     \<or> (\<exists>t now. act = Main_turn t now \<and> run_tick t now (pt_server y) = Inl e)
     \<or> (\<exists>j now req c w. act = Work_turn j now \<and> req \<in> pending y \<and> pt_conns y (rq_sock req) = Some c
          \<and> serve now c w (pt_server y) = Inl e)"

definition is_new :: "ps_action \<Rightarrow> bool" where "is_new act \<longleftrightarrow> act = New_client"

fun is_reset :: "ps_action \<Rightarrow> bool" where
  "is_reset (Client_resets _) = True"
| "is_reset _ = False"

lemma loop_step_inv:
  assumes inv: "ps_inv n y" "n < 2000"
  shows "case loop_step nworkers newsock r p y of Inl e \<Rightarrow> sint newsock < 0
    | Inr z \<Rightarrow> ps_inv n z \<and> no_worse (pt_server y) (pt_server z)"
proof (cases "length (pt_polls y) \<le> p")
  case False
  then have p: "p < 3" using inv(1) by (simp add: ps_inv_def shape_ok_def)
  have purge: "pt_server (purge p y) = pt_server y" by (simp add: purge_def Let_def)
  have "pt_server (revents_set y p snap) = pt_server y" for snap by (simp add: revents_set_def)
  then have ret: "pt_server (poll_return p snap y) = pt_server y" for snap by (simp add: poll_return_def Let_def)
  show ?thesis
  proof (cases "pt_polls y ! p")
    case At_poll
    then show ?thesis using False inv_poll_enter[OF inv p] by (simp add: loop_step_def posting_def poll_enter_def)
  next
    case (In_poll snap)
    then show ?thesis using False inv_poll_return[OF inv p In_poll] ret by (simp add: loop_step_def)
  next
    case (At_scan i)
    then show ?thesis using False inv_scan[OF inv p At_scan, where nworkers = nworkers and newsock = newsock and r = r] by (simp add: loop_step_def)
  next
    case (At_post i)
    then show ?thesis using False poll_inv_post[OF inv p At_post] by (simp add: loop_step_def)
  next
    case At_purge
    then show ?thesis using False inv_purge[OF inv p] purge by (auto simp: loop_step_def posting_def)
  next
    case Poll_ended
    then show ?thesis using False inv by (simp add: loop_step_def)
  qed
qed (use inv in \<open>simp add: loop_step_def\<close>)

lemma gradient_f_inv:
  assumes inv: "ps_inv n y" "n < 2000" and wf: "server_wf (pt_server y)"
  shows "case gradient_f now j y of Inl e \<Rightarrow> outside_failure y (Work_turn j now) e
    | Inr z \<Rightarrow> ps_inv n z \<and> no_worse (pt_server y) (pt_server z)"
proof (cases "length (pt_works y) \<le> j")
  case False
  then have j: "j < length (pt_works y)" by simp
  obtain pc w where w: "pt_works y ! j = (pc, w)" by fastforce
  show ?thesis
  proof (cases pc)
    case At_wait
    then show ?thesis using False w inv(1) inv_wait(1)[OF inv(1) j, of At_wait w] by (simp add: gradient_f_def)
  next
    case At_sem
    then show ?thesis using False w inv(1) inv_wait(2)[OF inv(1) j, of At_sem w At_wait] by (simp add: gradient_f_def)
  next
    case At_pop
    then obtain req reqs where "pt_to_process y = req # reqs" "pf_fd (get_slot (rq_poll_fd req) y) = rq_sock req"
      "ps_inv n (set_work j (At_serve req, w) (y\<lparr>pt_to_process := reqs\<rparr>))" using inv_pop[OF inv(1) j] w by auto
    then show ?thesis using False w At_pop by (simp add: gradient_f_def)
  next
    case (At_serve req)
    have w': "pt_works y ! j = (At_serve req, w)" using w At_serve by simp
    have mem: "req \<in> pending y" using nth_mem[OF j] w' by (auto simp: pending_def)
    obtain c where c: "pt_conns y (rq_sock req) = Some c" using serving_facts(4)[OF inv(1) j w'] by blast
    show ?thesis
    proof (cases "serve_request now j req w y")
      case (Inl e)
      then have "serve now c w (pt_server y) = Inl e"
        using c by (auto simp: serve_request_def rbind_def Let_def split: sum.splits)
      then show ?thesis using False w' Inl mem c inv(1)
        by (fastforce simp: gradient_f_def unless_blocked_def outside_failure_def)
    next
      case (Inr z)
      have "ps_inv n z \<and> server_wf (pt_server z) \<and> ps_step (pt_server y) (pt_server z)"
        by (rule inv_serve[OF inv wf j w' Inr])
      then show ?thesis using False w' Inr by (auto simp: gradient_f_def unless_blocked_def no_worse_def)
    qed
  next
    case (At_rearm req)
    then show ?thesis using False w inv_rearm[OF inv j, of req w] by (simp add: gradient_f_def)
  next
    case (At_wake req)
    then show ?thesis using False w inv_wake[OF inv(1) j, of req w] by (simp add: gradient_f_def)
  next
    case Work_ended
    then show ?thesis using False w inv(1) by (simp add: gradient_f_def)
  qed
qed (use inv in \<open>simp add: gradient_f_def\<close>)

lemma turn_inv:
  assumes inv: "ps_inv n y" "n + of_bool (is_new act) < 2000" and wf: "server_wf (pt_server y)" and act: "\<not> is_reset act"
  shows "case ps_turn nworkers act y of Inl e \<Rightarrow> outside_failure y act e
    | Inr z \<Rightarrow> ps_inv (n + of_bool (is_new act)) z \<and> no_worse (pt_server y) (pt_server z)"
proof -
  have n: "n < 2000" using inv(2) by (cases "is_new act") simp_all
  show ?thesis
  proof (cases act)
    case (Poll_turn p newsock r)
    then show ?thesis using loop_step_inv[OF inv(1) n, where nworkers = nworkers and newsock = newsock and r = r and p = p]
      by (auto simp: is_new_def outside_failure_def split: sum.splits)
  next
    case (Poll_fails p b)
    show ?thesis
    proof (cases "length (pt_polls y) \<le> p")
      case False
      then have p: "p < 3" using inv(1) by (simp add: ps_inv_def shape_ok_def)
      have "ps_inv n (set_poll p At_purge y)" if "pt_polls y ! p = In_poll snap" for snap
        by (rule poll_inv_move[OF inv(1) p]) (simp_all add: that posting_def)
      then show ?thesis using inv(1) Poll_fails False
        by (cases b; cases "pt_polls y ! p") (simp_all add: is_new_def poll_failed_def outside_failure_def)
    qed (use inv(1) Poll_fails in \<open>simp add: is_new_def\<close>)
  next
    case (Work_turn j now)
    then show ?thesis using gradient_f_inv[OF inv(1) n wf, where now = now and j = j] by (simp add: is_new_def split: sum.splits)
  next
    case (Work_timeout j)
    then show ?thesis using inv(1) inv_wait(1)[OF inv(1), of j At_sem]
      by (cases "pt_works y ! j") (auto simp: sem_timeout_def is_new_def)
  next
    case New_client
    then show ?thesis using inv_new_client[OF inv(1)] by (simp add: is_new_def)
  next
    case (Client_sends fd bs)
    then show ?thesis using inv_on_conn[OF inv(1), of "\<lambda>c. if cn_end c = Idle then c\<lparr>cn_in := cn_in c @ bs\<rparr> else c" fd]
      by (simp add: is_new_def conn_ok_def on_conn_def)
  next
    case (Client_closes fd)
    then show ?thesis using inv_on_conn[OF inv(1), of "\<lambda>c. if cn_end c = Idle then c\<lparr>cn_end := Eof\<rparr> else c" fd]
      by (simp add: is_new_def conn_ok_def on_conn_def)
  next
    case (Main_turn t now)
    have "no_worse (pt_server y) s" if "run_tick t now (pt_server y) = Inr s" for s
      using evolves_tick[OF that] ps_step.tick[OF that] by (auto simp: no_worse_def evolves_def)
    then show ?thesis using inv_server[OF inv(1)] Main_turn
      by (auto simp: is_new_def outside_failure_def rbind_def split: sum.splits)
  qed (use act in simp)
qed

lemma start_inv:
  assumes "length pipefds = 3" "server_sock \<notin> set pipefds"
  shows "ps_inv 2 (threads_start pipefds server_sock buffers s)"
proof -
  define y where "y = threads_start pipefds server_sock buffers s"
  have two: "[0..<NUM_POLL_THREADS] = [0, 1, 2]" by (simp add: NUM_POLL_THREADS_def upt_rec)
  have three: "p < 3 \<longleftrightarrow> p = 0 \<or> p = 1 \<or> p = (2 :: nat)" for p by auto
  obtain a b c where p: "pipefds = [a, b, c]" using assms(1) by (auto simp: length_Suc_conv numeral_3_eq_3)
  define row where "row = replicate 2000 no_fd"
  have len: "length row = 2000" by (simp add: row_def)
  have nth: "i < 2000 \<Longrightarrow> row ! i = no_fd" for i by (simp add: row_def)
  have y: "pt_fdses y = [row[0 := no_fd\<lparr>pf_fd := server_sock, pf_events := POLLIN\<rparr>, 1 := no_fd\<lparr>pf_fd := a, pf_events := POLLIN\<rparr>],
      row[0 := no_fd\<lparr>pf_fd := b, pf_events := POLLIN\<rparr>], row[0 := no_fd\<lparr>pf_fd := c, pf_events := POLLIN\<rparr>]]"
    "pt_curr_indexes y = [2, 1, 1]" "pt_to_process y = []" "pt_sem_new_req y = 0" "pt_pipefds y = [a, b, c]"
    "pt_pipes y = [0, 0, 0]" "pt_server_sock y = server_sock" "pt_backlog y = []" "pt_conns y = Map.empty"
    "pt_polls y = [At_poll, At_poll, At_poll]" "pt_works y = map (Pair At_wait) buffers"
    by (simp_all add: y_def threads_start_def two main_poll_thread_fn_def p max_fds_def row_def Let_def NUM_POLL_THREADS_def
        numeral_3_eq_3)
  have slots: "get_slot (p, i) y = (if p = 0 \<and> i = 0 then no_fd\<lparr>pf_fd := server_sock, pf_events := POLLIN\<rparr>
      else if i = snd (wake_slot p) then no_fd\<lparr>pf_fd := [a, b, c] ! p, pf_events := POLLIN\<rparr> else no_fd)"
    if "p < 3" "i < 2000" for p i
    using that nth[of i] len by (auto simp: get_slot_def y three wake_slot_def nth_list_update)
  have none: "\<not> conn_slot y s" for s
    by (cases s) (auto simp: conn_slot_def y three first_conn_def)
  have "sum_list (map (\<lambda>x. of_bool (fst x = At_pop) :: nat) (map (Pair At_wait) buffers)) = 0"
    "sum_list (map (\<lambda>x. held s (fst x)) (map (Pair At_wait) buffers)) = 0" for s
    by (induction buffers) simp_all
  note zero = this
  have "shape_ok 2 y" using assms(2) len by (auto simp: shape_ok_def y three first_conn_def p)
  moreover have "watch_ok y" using slots by (auto simp: watch_ok_def three wake_slot_def y)
  moreover have "conns_ok y" "sem_ok y" using zero by (simp_all add: conns_ok_def sem_ok_def y posting_def)
  moreover have "slots_ok y"
    by (rule slotsI) (use none slots in \<open>auto simp: live_def y three wake_slot_def\<close>)
  moreover have "requests_ok y" by (auto simp: requests_ok_def pending_def served_def y)
  moreover have "\<forall>p<3. at_ok y p (pt_polls y ! p)" by (auto simp: y three)
  ultimately show ?thesis by (simp add: ps_inv_def flip: y_def)
qed

definition new_clients :: "ps_action list \<Rightarrow> nat" where
  "new_clients acts = length (filter is_new acts)"

lemma no_worse_trans: "no_worse a b \<Longrightarrow> no_worse b c \<Longrightarrow> no_worse a c"
  by (auto simp: no_worse_def)

lemma run_inv:
  assumes "ps_inv n y" "server_wf (pt_server y)" "n + new_clients acts < 2000" "\<forall>act\<in>set acts. \<not> is_reset act"
  shows "case ps_run nworkers acts y of
      Inl e \<Rightarrow> \<exists>pre act post z. acts = pre @ act # post \<and> ps_run nworkers pre y = Inr z \<and> outside_failure z act e
    | Inr z \<Rightarrow> ps_inv (n + new_clients acts) z \<and> no_worse (pt_server y) (pt_server z)"
  using assms
proof (induction acts arbitrary: n y)
  case (Cons act acts)
  have bound: "n + of_bool (is_new act) < 2000" "n + of_bool (is_new act) + new_clients acts < 2000"
    "n + new_clients (act # acts) = n + of_bool (is_new act) + new_clients acts"
    using Cons.prems(3) by (auto simp: new_clients_def)
  have ok: "\<not> is_reset act" "\<forall>act\<in>set acts. \<not> is_reset act" using Cons.prems(4) by simp_all
  note turn = turn_inv[OF Cons.prems(1) bound(1) Cons.prems(2) ok(1), of nworkers]
  show ?case
  proof (cases "ps_turn nworkers act y")
    case (Inl e)
    then show ?thesis using turn by (auto simp: ps_run_def intro!: exI[of _ "[]"])
  next
    case (Inr z)
    then have z: "ps_inv (n + of_bool (is_new act)) z" "no_worse (pt_server y) (pt_server z)" using turn by simp_all
    then have wf: "server_wf (pt_server z)" using Cons.prems(2) by (simp add: no_worse_def)
    have run: "ps_run nworkers (act # as) y = ps_run nworkers as z" for as using Inr by (simp add: ps_run_def)
    show ?thesis
    proof (cases "ps_run nworkers acts z")
      case (Inl e)
      then obtain pre a post u where "acts = pre @ a # post" "ps_run nworkers pre z = Inr u" "outside_failure u a e"
        using Cons.IH[OF z(1) wf bound(2) ok(2)] by auto
      then show ?thesis unfolding run Inl sum.case
        by (intro exI[of _ "act # pre"] exI[of _ a] exI[of _ post] exI[of _ u]) (simp add: run)
    next
      case (Inr u)
      then show ?thesis
        using Cons.IH[OF z(1) wf bound(2) ok(2)] no_worse_trans[OF z(2), of "pt_server u"] unfolding run bound(3) by simp
    qed
  qed
qed (simp add: ps_run_def new_clients_def)

definition being_served :: "ps_threads \<Rightarrow> request list" where
  "being_served y = concat (map (\<lambda>(pc, _). case pc of At_serve r \<Rightarrow> [r] | _ \<Rightarrow> []) (pt_works y))"

lemma set_being_served: "set (pt_to_process y @ being_served y) = pending y"
proof -
  have "r \<in> set (being_served y) \<longleftrightarrow> (\<exists>w. (At_serve r, w) \<in> set (pt_works y))" for r
    by (force simp: being_served_def split: work_pc.splits)
  then show ?thesis by (auto simp: pending_def)
qed

lemma count_being_served:
  "length (filter (\<lambda>r. rq_poll_fd r = s) (being_served y)) \<le> sum_list (map (\<lambda>x. held s (fst x)) (pt_works y))"
proof -
  have "length (filter (\<lambda>r. rq_poll_fd r = s) (concat (map (\<lambda>(pc, _). case pc of At_serve r \<Rightarrow> [r] | _ \<Rightarrow> []) ws)))
      \<le> sum_list (map (\<lambda>x. held s (fst x)) ws)" for ws :: "(work_pc \<times> worker) list"
    by (induction ws) (auto split: work_pc.splits)
  then show ?thesis by (simp add: being_served_def)
qed

lemma pending_distinct:
  assumes "ps_inv n y"
  shows "distinct (map rq_sock (pt_to_process y @ being_served y))"
proof -
  let ?rs = "pt_to_process y @ being_served y"
  have sl: "slots_ok y" and rq: "requests_ok y" using assms by (auto simp: ps_inv_def)
  have ok: "live y (rq_poll_fd r)" "pf_fd (get_slot (rq_poll_fd r) y) = rq_sock r" if "r \<in> set ?rs" for r
    using rq that unfolding set_being_served requests_ok_def by blast+
  have one: "length (filter (\<lambda>x. rq_poll_fd x = rq_poll_fd r) ?rs) \<le> 1" if "r \<in> set ?rs" for r
  proof -
    have "requests_for (rq_poll_fd r) y \<le> 1" unfolding liveD(4)[OF sl ok(1)[OF that]] by simp
    then show ?thesis using count_being_served[of "rq_poll_fd r" y] unfolding requests_for_def filter_append length_append by linarith
  qed
  have "distinct (map rq_poll_fd ?rs)"
  proof -
    have "distinct (map f xs)" if "\<And>r. r \<in> set xs \<Longrightarrow> length (filter (\<lambda>x. f x = f r) xs) \<le> 1" for f :: "request \<Rightarrow> slot" and xs
      using that
    proof (induction xs)
      case (Cons x xs)
      have "filter (\<lambda>y. f y = f x) xs = []" using Cons.prems[of x] by simp
      then have "f x \<notin> f ` set xs" by (auto simp: filter_empty_conv)
      moreover have "length (filter (\<lambda>y. f y = f r) xs) \<le> 1" if "r \<in> set xs" for r using Cons.prems[of r] that by (auto split: if_splits)
      ultimately show ?case using Cons.IH by simp
    qed simp
    from this[of ?rs rq_poll_fd] show ?thesis using one by blast
  qed
  then have d: "distinct ?rs" and inj: "inj_on rq_poll_fd (set ?rs)" by (simp_all only: distinct_map)
  have "inj_on rq_sock (set ?rs)"
  proof (rule inj_onI)
    fix r r' assume r: "r \<in> set ?rs" "r' \<in> set ?rs" "rq_sock r = rq_sock r'"
    then have "rq_poll_fd r = rq_poll_fd r'" using injD[OF sl ok(1)[OF r(1)] ok(1)[OF r(2)]] ok(2)[OF r(1)] ok(2)[OF r(2)] by simp
    then show "r = r'" using inj r by (auto dest: inj_onD)
  qed
  then show ?thesis using d by (simp only: distinct_map)
qed

section \<open>What every run keeps\<close>

lemma start_run:
  assumes "length pipefds = 3" "server_sock \<notin> set pipefds" "server_wf s" "\<forall>act\<in>set acts. \<not> is_reset act"
    and "new_clients acts < 1998"
  shows "case ps_run nworkers acts (threads_start pipefds server_sock buffers s) of
      Inl e \<Rightarrow> \<exists>pre act post z. acts = pre @ act # post
        \<and> ps_run nworkers pre (threads_start pipefds server_sock buffers s) = Inr z \<and> outside_failure z act e
    | Inr z \<Rightarrow> ps_inv (2 + new_clients acts) z \<and> no_worse s (pt_server z)"
proof -
  have "pt_server (threads_start pipefds server_sock buffers s) = s" by (simp add: threads_start_def Let_def)
  then show ?thesis using run_inv[OF start_inv[OF assms(1,2), of buffers s], of acts nworkers] assms(3-5) by (simp split: sum.splits)
qed

text \<open>
  C10: As long as no client resets its connection and at most 1997 connections are ever made, so that they fit into the
  vectors of descriptors, the following holds however the poll threads, the workers and the clients
  interleave: no connection is served by two workers at once or queued twice, since the requests that are queued or served
  have different sockets. Each of
  these connections is open and has something to read, so a worker never waits for the first byte
  of a request; and the server goes through one of the runs of its requests, ticks and connections. After a reset
  two workers can serve one descriptor (\<open>reset_shares_descriptor\<close>).
\<close>

theorem one_request_per_connection:
  assumes "length pipefds = 3" "server_sock \<notin> set pipefds" "server_wf s" "\<forall>act\<in>set acts. \<not> is_reset act"
    and "new_clients acts < 1998" "ps_run nworkers acts (threads_start pipefds server_sock buffers s) = Inr y"
  shows "distinct (map rq_sock (pt_to_process y @ being_served y))
    \<and> (\<forall>r\<in>set (pt_to_process y @ being_served y). readable y (rq_sock r)) \<and> ps_step\<^sup>*\<^sup>* s (pt_server y)"
proof -
  have inv: "ps_inv (2 + new_clients acts) y" and "no_worse s (pt_server y)"
    using start_run[OF assms(1-5), of nworkers buffers] assms(6) by simp_all
  moreover have "\<forall>r\<in>pending y. readable y (rq_sock r)" using inv by (simp add: ps_inv_def requests_ok_def)
  ultimately show ?thesis using pending_distinct[OF inv] unfolding set_being_served no_worse_def by blast
qed

text \<open>
  C11: No connection is forgotten: in every state of such a run, without resets and with at most 1997 connections, each
  open connection has a slot in the
  vector of one poll thread, and either one request for it is under way and the slot is disarmed, or none
  is and the slot is armed. In the second case a thread that sits in \<open>poll\<close> waits for this very
  descriptor, or has been woken up, or was called before the connection got its slot.
\<close>

theorem no_connection_forgotten:
  assumes "length pipefds = 3" "server_sock \<notin> set pipefds" "server_wf s" "\<forall>act\<in>set acts. \<not> is_reset act"
    and "new_clients acts < 1998" "ps_run nworkers acts (threads_start pipefds server_sock buffers s) = Inr y"
    and "pt_conns y fd = Some c"
  shows "\<exists>p<3. \<exists>i. pf_fd (get_slot (p, i) y) = fd \<and>
    (pf_events (get_slot (p, i) y) = 0 \<and> requests_for (p, i) y = 1
     \<or> pf_events (get_slot (p, i) y) = POLLIN \<and> requests_for (p, i) y = 0
       \<and> (\<forall>snap. pt_polls y ! p = In_poll snap \<and> i < length snap \<longrightarrow> snap ! i = (fd, POLLIN) \<or> woken y p))"
proof -
  have inv: "ps_inv (2 + new_clients acts) y" using start_run[OF assms(1-5), of nworkers buffers] assms(6) by simp
  then have sl: "slots_ok y" and cn: "conns_ok y" and at: "\<And>p. p < 3 \<Longrightarrow> at_ok y p (pt_polls y ! p)" by (auto simp: ps_inv_def)
  obtain p i where slot: "live y (p, i)" "pf_fd (get_slot (p, i) y) = fd" using coverD[OF sl assms(7)] by auto
  note l = liveD[OF sl slot(1)]
  have p: "p < 3" "first_conn p \<le> i" using l(1) by (simp_all add: conn_slot_def)
  have "snap ! i = (fd, POLLIN) \<or> woken y p"
    if "pf_events (get_slot (p, i) y) = POLLIN" "pt_polls y ! p = In_poll snap" "i < length snap" for snap
  proof -
    have "snap_ok y (p, i) (snap ! i)" using at[OF p(1)] that(2,3) p(2) by simp
    then show ?thesis using that(1) slot by (cases "snap ! i") (auto simp: snap_ok_def)
  qed
  moreover have "pf_events (get_slot (p, i) y) = 0 \<or> pf_events (get_slot (p, i) y) = POLLIN" by (rule slotD(1)[OF sl l(1)])
  ultimately show ?thesis using l(4) slot(2) p(1) by (intro exI[of _ p] exI[of _ i] conjI) auto
qed

text \<open>
  C12: The threads do not fail by themselves in such a run, without resets and with at most 1997 connections: when it ends
  with an exception or undefined
  behaviour, it is that of \<open>poll\<close> or \<open>accept\<close> returning an error, of the periodic work of \<open>run\<close>, or of the
  handler of a request that was queued before, on the connection it came from. So no worker pops from an empty queue and
  no request is served on a closed descriptor. The bound on the connections is needed: \<open>accept\<close> checks the capacity of the
  first vector only, and with more connections it writes past the end of another (\<open>accept_past_end\<close>).
\<close>

theorem threads_fail_outside:
  assumes "length pipefds = 3" "server_sock \<notin> set pipefds" "server_wf s" "\<forall>act\<in>set acts. \<not> is_reset act"
    and "new_clients acts < 1998" "ps_run nworkers acts (threads_start pipefds server_sock buffers s) = Inl e"
  shows "\<exists>pre act post z. acts = pre @ act # post
    \<and> ps_run nworkers pre (threads_start pipefds server_sock buffers s) = Inr z \<and> outside_failure z act e"
  using start_run[OF assms(1-5), of nworkers buffers] assms(6) by simp

section \<open>Instances\<close>

definition ex_threads :: ps_threads where
  "ex_threads = threads_start [3, 4, 5] 6 [worker0] server0"

definition ex_row :: "pollfd list" where "ex_row = replicate 1996 no_fd"

lemma ex_rows: "replicate 2000 no_fd = no_fd # no_fd # no_fd # no_fd # ex_row"
  using replicate_add[of 4 1996 no_fd] by (simp add: ex_row_def numeral_eq_Suc)

lemma ex_row_length: "length ex_row = 1996" by (simp add: ex_row_def)

text \<open>The first thread accepts a connection, which gets descriptor 9, and a worker takes its request.\<close>

lemma list_update_numeral: "(x # xs)[numeral n := v] = x # xs[pred_numeral n := v]"
  by (simp add: numeral_eq_Suc)

lemma replicate_numeral_Cons: "replicate (numeral n) x = x # replicate (pred_numeral n) x"
  by (simp add: numeral_eq_Suc)

definition turns :: "i32 \<Rightarrow> nat \<Rightarrow> ps_action list" where
  "turns newsock k = replicate k (Poll_turn 0 newsock 0)"

definition ex_served :: "ps_action list" where
  "ex_served = [New_client] @ turns 9 7 @ [Client_sends 9 [9, 0, 0, 0]] @ turns 9 6 @ [Work_turn 0 0, Work_timeout 0, Work_turn 0 0, Work_turn 0 0]"

definition ex_reset :: "ps_action list" where
  "ex_reset = turns 9 2 @ [Client_resets 9] @ turns 9 7 @ [New_client] @ turns 9 8 @ [Client_sends 9 [9, 0, 0, 0]] @ turns 9 6"

lemma ex_threads_value:
  "ex_threads = \<lparr>pt_fdses = [\<lparr>pf_fd = 6, pf_events = POLLIN, pf_revents = 0\<rparr> # \<lparr>pf_fd = 3, pf_events = POLLIN, pf_revents = 0\<rparr> # no_fd # no_fd # ex_row,
      \<lparr>pf_fd = 4, pf_events = POLLIN, pf_revents = 0\<rparr> # no_fd # no_fd # no_fd # ex_row,
      \<lparr>pf_fd = 5, pf_events = POLLIN, pf_revents = 0\<rparr> # no_fd # no_fd # no_fd # ex_row],
    pt_curr_indexes = [2, 1, 1], pt_to_process = [], pt_sem_new_req = 0, pt_pipefds = [3, 4, 5], pt_pipes = [0, 0, 0],
    pt_server_sock = 6, pt_backlog = [], pt_conns = Map.empty, pt_server = server0, pt_polls = [At_poll, At_poll, At_poll],
    pt_works = [(At_wait, worker0)]\<rparr>"
proof -
  have k: "NUM_POLL_THREADS = 3" "[0..<3 :: nat] = [0, 1, 2]" "unat max_fds = 2000" "replicate 3 x = [x, x, x]" for x :: 'a
    by (simp_all add: NUM_POLL_THREADS_def max_fds_def upt_rec replicate_numeral_Cons)
  show ?thesis
    unfolding ex_threads_def threads_start_def k main_poll_thread_fn_def ex_rows Let_def
    by (simp add: no_fd_def)
qed

lemmas thread_evals = ps_run_def loop_step_def poll_enter_def poll_return_def revents_set_def poll_revents_def
  fd_ready_def conn_ready_def scan_fd_def accept_conn_def unused_fd_def process_request_def purge_def get_slot_def upd_slot_def
  set_poll_def set_work_def close_fd_def on_conn_def gradient_f_def sem_timeout_def Let_def no_fd_def max_fds_def
  POLLIN_def POLLHUP_def POLLERR_def POLLNVAL_def conn_of_def ex_row_length server0_def NUM_POLL_THREADS_def
  list_update_numeral


lemmas turns_evals = turns_def replicate_numeral_Cons

definition ex_request :: "nat \<Rightarrow> request" where
  "ex_request i = \<lparr>rq_sock = 9, rq_id = 0, rq_incoming_size = 0, rq_poll_fd = (0, i)\<rparr>"

definition ex_serving :: ps_threads where
  "ex_serving = ex_threads\<lparr>pt_fdses := [\<lparr>pf_fd = 6, pf_events = POLLIN, pf_revents = 0\<rparr> # \<lparr>pf_fd = 3, pf_events = POLLIN, pf_revents = 0\<rparr>
        # \<lparr>pf_fd = 9, pf_events = 0, pf_revents = 0\<rparr> # no_fd # ex_row,
      \<lparr>pf_fd = 4, pf_events = POLLIN, pf_revents = 0\<rparr> # no_fd # no_fd # no_fd # ex_row,
      \<lparr>pf_fd = 5, pf_events = POLLIN, pf_revents = 0\<rparr> # no_fd # no_fd # no_fd # ex_row],
    pt_curr_indexes := [3, 1, 1], pt_conns := [9 \<mapsto> conn_of [9, 0, 0, 0]], pt_server := server0\<lparr>sv_num_connections := 2\<rparr>,
    pt_polls := [At_scan 3, At_poll, At_poll], pt_works := [(At_serve (ex_request 2), worker0)]\<rparr>"

lemma ex_served_run: "ps_run 4 ex_served ex_threads = Inr ex_serving"
  by (simp add: ex_served_def ex_serving_def ex_request_def turns_evals ex_threads_value thread_evals)

lemma ex_reset_run: "\<exists>y. ps_run 4 ex_reset ex_serving = Inr y \<and> map rq_sock (pt_to_process y @ being_served y) = [9, 9]"
  by (simp add: ex_reset_def ex_serving_def ex_request_def turns_evals ex_threads_value thread_evals being_served_def)

lemma ex_threads_ok: "length [3, 4, 5 :: i32] = 3" "(6 :: i32) \<notin> set [3, 4, 5]" "server_wf server0"
  by (simp_all add: server_wf_def registry_wf_def registry_def server0_def model_wf_def lrm_new_def)

lemma ex_served_acts: "\<forall>act\<in>set ex_served. \<not> is_reset act" "new_clients ex_served < 1998"
  by (simp_all add: ex_served_def turns_evals new_clients_def is_new_def)

theorem one_request_per_connection_witness:
  "distinct (map rq_sock (pt_to_process ex_serving @ being_served ex_serving)) \<and> readable ex_serving 9
    \<and> ps_step\<^sup>*\<^sup>* server0 (pt_server ex_serving)"
proof -
  have "being_served ex_serving = [ex_request 2]" by (simp add: being_served_def ex_serving_def)
  then show ?thesis
    using one_request_per_connection[OF ex_threads_ok ex_served_acts ex_served_run[unfolded ex_threads_def]]
    by (simp add: ex_request_def)
qed

theorem no_connection_forgotten_witness:
  "\<exists>p<3. \<exists>i. pf_fd (get_slot (p, i) ex_serving) = 9 \<and> (pf_events (get_slot (p, i) ex_serving) = 0
     \<and> requests_for (p, i) ex_serving = 1 \<or> pf_events (get_slot (p, i) ex_serving) = POLLIN)"
proof -
  have "pt_conns ex_serving 9 = Some (conn_of [9, 0, 0, 0])" by (simp add: ex_serving_def)
  from no_connection_forgotten[OF ex_threads_ok ex_served_acts ex_served_run[unfolded ex_threads_def] this] show ?thesis by blast
qed

text \<open>A request for an unknown operation ends the run, when it is served.\<close>

definition ex_unknown :: "ps_action list" where
  "ex_unknown = [New_client] @ turns 9 7 @ [Client_sends 9 [12, 0, 0, 0]] @ turns 9 6 @ [Work_turn 0 0, Work_turn 0 0, Work_turn 0 0, Work_turn 0 0]"

lemma ex_unknown_run: "ps_run 4 ex_unknown ex_threads = Inl (Runtime_error ''Unknown operation'')"
proof -
  have none: "operation_to_f 0 12 = None" by (simp add: operation_to_f_def)
  have u: "u32_of [12, 0, 0, 0] = 12" by (simp add: u32_of_def)
  show ?thesis
    by (simp add: ex_unknown_def turns_evals ex_threads_value thread_evals serve_request_def serve_def read_n_def none u
        unless_blocked_def)
qed

theorem threads_fail_outside_witness:
  "\<exists>pre act post z. ex_unknown = pre @ act # post \<and> ps_run 4 pre (threads_start [3, 4, 5] 6 [worker0] server0) = Inr z
    \<and> outside_failure z act (Runtime_error ''Unknown operation'')"
proof -
  have "\<forall>act\<in>set ex_unknown. \<not> is_reset act" "new_clients ex_unknown < 1998"
    by (simp_all add: ex_unknown_def turns_evals new_clients_def is_new_def)
  from threads_fail_outside[OF ex_threads_ok this ex_unknown_run[unfolded ex_threads_def]] show ?thesis .
qed

section \<open>Connections that are reset, and threads that run out of slots\<close>

text \<open>
  A poll thread closes a descriptor that is hung up also while a worker serves a request for it. The next
  connection gets the same descriptor, and two workers serve it at once.
\<close>

lemma reset_shares_descriptor:
  "\<exists>y. ps_run 4 (ex_served @ ex_reset) ex_threads = Inr y \<and> map rq_sock (pt_to_process y @ being_served y) = [9, 9]"
  using ex_reset_run by (simp add: ps_run_def rfold_append ex_served_run[unfolded ps_run_def])

text \<open>
  The capacity of the first thread is checked, whichever thread gets the connection: when another one is
  full, the descriptor is written past the end of its vector.
\<close>

lemma accept_past_end:
  assumes "\<not> ucast (sv_num_connections (pt_server y)) > (nworkers * 2 + 1) - (1 :: u64)" "pt_curr_indexes y ! 0 \<noteq> max_fds"
    and "pt_curr_indexes y ! (r mod NUM_POLL_THREADS) = max_fds" "length (pt_fdses y ! (r mod NUM_POLL_THREADS)) = 2000"
  shows "accept_conn nworkers newsock r c y = Inl Undefined_behaviour"
proof -
  have "unat max_fds = 2000" by (simp add: max_fds_def)
  then show ?thesis using assms by (simp add: accept_conn_def Let_def)
qed

text \<open>
  A purge moves descriptors while requests refer to their slots: the slot of the request being served
  becomes that of another connection.
\<close>

lemma purge_moves_slots:
  assumes "p < length (pt_fdses y)" "pt_curr_indexes y ! p = max_fds" "pt_fdses y ! p = dead # live_fds" "pf_fd dead = - 1"
    and "\<forall>x\<in>set live_fds. pf_fd x \<noteq> - 1" "i < length live_fds"
  shows "get_slot (p, i) (purge p y) = live_fds ! i"
proof -
  have "filter (\<lambda>x. pf_fd x \<noteq> - 1) (pt_fdses y ! p) = live_fds" using assms(3-5) by simp
  then show ?thesis using assms by (simp add: purge_def testRemove_def get_slot_def Let_def nth_append)
qed

end
