(* ===== verification/Spec2Isabelle.thy ===== *)
theory Spec2Isabelle
  imports MfWorker ErrorTask LibsvmIter CsvRead Loading PollRun
begin

text \<open>
  A verification development for the machine-learning system Cirrus (\<open>src/src\<close>): a parameter
  server that keeps a logistic-regression and a matrix-factorisation model, and workers that
  fetch parts of them, compute gradients on minibatches and send these back.

  How the parts fit together. A loading task reads a training file with threads that share its
  lines (\<open>InputReader\<close>) and stores its samples as objects in S3. A worker gets a minibatch (\<open>SparseDataset\<close>) from \<open>S3SparseIterator\<close>, asks the server through
  \<open>PSSparseServerInterface\<close> for the weights of its features (\<open>GET_LR_SPARSE_MODEL\<close>) or for the
  biases and factors of its users and items (\<open>GET_MF_SPARSE_MODEL\<close>), computes a sparse gradient
  (\<open>SparseLRModel\<close>, \<open>SparseMFModel\<close>) and sends it (\<open>SEND_LR_GRADIENT\<close>, \<open>SEND_MF_GRADIENT\<close>); the server
  applies it with an \<open>OptimizationMethod\<close> or \<open>MFModel::sgd_update\<close>. Tasks register and deregister,
  set their status and share values in a key-value store, all over the same connections.

  The theories, in the order in which they build on each other:

  \<^item> \<open>Prelude\<close>: machine types, failures as values (\<open>cpp_error\<close>), the result monad, loops over
    vectors that may fail and a calculus of postconditions for them.
  \<^item> \<open>Bytes\<close>: \<open>store_value\<close> and \<open>load_value\<close> (\<open>Utils.h\<close>) on little-endian buffers, with the locale
    \<open>codec\<close> for a value and its bytes. \<open>CFloat\<close>: \<open>float\<close> and \<open>double\<close> as IEEE bit patterns, executable.
    \<open>Streams\<close>: the text streams of the configuration parser and of the readers.
  \<^item> \<open>Checksum\<close> (\<open>Checksum.cpp\<close>), \<open>Murmur\<close> (\<open>MurmurHash3.cpp\<close>), \<open>CircularBuf\<close> (\<open>CircularBuffer.h\<close>),
    \<open>Config\<close> (\<open>Configuration.cpp\<close>).
  \<^item> \<open>SparseData\<close> (\<open>SparseDataset.cpp\<close>), \<open>Gradient\<close> (\<open>ModelGradient.cpp\<close>), \<open>LrModel\<close> (\<open>SparseLRModel.cpp\<close>,
    \<open>MlUtils.cpp\<close>) and \<open>SparseGrad\<close>, where its two gradients meet one reference gradient, \<open>Optim\<close> (\<open>SGD.cpp\<close>, \<open>AdaGrad.cpp\<close>, \<open>Momentum.cpp\<close>, \<open>Nesterov.cpp\<close>) with the
    locale \<open>optimizer\<close>, \<open>MfModel\<close> (\<open>MFModel.cpp\<close>), \<open>SparseMf\<close> (\<open>SparseMFModel.cpp\<close>).
  \<^item> \<open>S3Iter\<close> (\<open>S3SparseIterator.cpp\<close>): the steps of the thread that fetches objects from S3 and of \<open>getNext\<close>,
    their invariant, and what their interleavings hand out.
    \<open>LibsvmParse\<close> and \<open>LibsvmIter\<close> (\<open>S3IteratorLibsvm.cpp\<close>) do the same for objects of libsvm text: the
    parser of a piece with its specification, then the iterator.
  \<^item> \<open>TextFields\<close> and \<open>LineParse\<close> (\<open>InputReader.cpp\<close>, \<open>Utils.cpp\<close>): the fields of a line, and one
    function per format that parses a line. \<open>Rounds\<close>: threads that take turns under a schedule, as the locale
    \<open>threads\<close>. \<open>ReadThreads\<close>: the threads that share the lines of a Criteo-Kaggle or RCV1 file, with
    the locale \<open>line_format\<close> for what the two have in common. \<open>Ratings\<close>: the readers of rating files,
    \<open>CsvRead\<close>: those of comma-separated files. \<open>Loading\<close> (\<open>LoadingSparseTaskS3.cpp\<close>,
    \<open>LoadingNetflixTask.cpp\<close>): the loading tasks, and what \<open>S3Iter\<close> hands out of the bucket they fill.
  \<^item> \<open>Socket\<close>: \<open>read_all\<close> and \<open>send_all\<close> (\<open>Utils.cpp\<close>) over an explicit connection.
  \<^item> \<open>Server\<close> (\<open>PSSparseServerTask.cpp\<close>): the state of the server as a record, one definition per
    handler \<open>process_...\<close>, the dispatch of \<open>gradient_f\<close> (\<open>serve\<close>), start and periodic work of \<open>run\<close>, and
    the locale \<open>kv_store\<close>. \<open>Registry\<close>: the life cycle of tasks and the runs of the server
    (\<open>ps_step\<close>), with its invariant. \<open>Client\<close> (\<open>PSSparseServerInterface.cpp\<close>): one definition per
    method.
  \<^item> \<open>Poll\<close> (\<open>loop\<close>, \<open>process\<close>, \<open>gradient_f\<close>, \<open>main_poll_thread_fn\<close> of \<open>PSSparseServerTask.cpp\<close>): the poll
    threads and the worker threads around these handlers, one step per access to what they share: the
    vectors of descriptors, the queue of requests, its semaphore and the pipes. \<open>PollInv\<close>: their
    invariant \<open>ps_inv\<close>, kept by the poll threads and the clients. \<open>PollRun\<close>: kept by the workers, so by every
    run, and what follows.
  \<^item> \<open>EndToEnd\<close> and \<open>ModelFetch\<close>: a client's call composed with the server that serves it.
  \<^item> \<open>Worker\<close> (\<open>LogisticSparseTaskS3.cpp\<close>): the two halves of a turn of a worker's loop, and the
    system of a server and its workers (\<open>lr_step\<close>) with its specification, \<open>async_sgd\<close>.
    \<open>MfWorker\<close> (\<open>MFNetflixTask.cpp\<close>): the same for matrix factorisation (\<open>mf_step\<close>, \<open>async_mf\<close>).
    \<open>ErrorTask\<close> (\<open>ErrorSparseTask.cpp\<close>): the task that measures the loss of the server's model.

  What is shown. However the workers interleave, what the server holds is what asynchronous
  gradient descent reaches, and a worker that trains alone performs stochastic gradient descent on
  the minibatches of its bucket. With the workers of matrix factorisation, every gradient the server
  applies is that of rows of the matrix for the users these rows belong to: the position a worker keeps and
  the objects it reads never drift apart. The error task reads its test set exactly, records the average
  loss of the server's weights on it, and a test run of it ends. Formats are read back as they were written and have the announced sizes. The
  sparse computations of the workers agree bit for bit with the dense ones: the logistic-regression
  gradient on fetched weights is the one on the server's full model, predictions on the fetched
  part of a factorisation are those of the whole. Updates stay inside the model and change only
  what the gradient names; a gradient, a value, a status or a registration sent by a client has
  exactly its intended effect on the server. The minibatches of a worker are those of the objects in
  the bucket, in order, however its two threads interleave; they never wait for each other for ever,
  and objects are freed. A training file is read to what its lines say, each of them once, whatever
  turns the reading threads take, and the threads end; the bucket that the loader fills from a Kaggle
  file hands out the samples of that file. Over every run of the server the sizes of its models
  and the consistency of its registry are kept. However the threads of the server interleave, a
  connection is served by one worker at a time, none is forgotten, and what the threads do to the server
  is one of those runs; this holds while no client resets its connection and fewer than 1998 clients
  connect, which is what fits into a vector of \<open>max_fds\<close> descriptors, and the lemmas at the end of
  \<open>PollRun\<close> show what goes wrong beyond. The error paths are stated as well: what is
  refused, what ends the server, and where the code leaves the language's defined behaviour.

  Conventions. A C++ exception, failed assertion, undefined access or endless wait is \<open>Inl\<close> of the
  corresponding \<open>cpp_error\<close>; after an undefined access nothing is claimed. Functions of the C library
  and the random generators are arguments (\<open>libm\<close>, \<open>draw\<close>), values left uninitialised come from an
  argument (\<open>garbage\<close>), the iteration order of an \<open>unordered_map\<close> is an argument (\<open>iter\<close>), the sizes
  of partial reads and writes are chosen by an argument (\<open>ks\<close>). Loops are recursions over the
  sequence they run through, so they end; the two loops over a socket have a termination proof,
  and the only fuel is the number of elements of the ring in \<open>discard_empty\<close>, of which each turn takes
  one. The threads of a reader run under a schedule, the list of the threads that take the turns; a
  schedule of \<open>4 * (lines + 1) + 3 * threads\<close> rounds ends them all (\<open>2 * (lines + 1) + 2 * threads\<close> for
  the ratings), since every round in which a thread is left lowers a measure of the state.

  Not modelled. A handler is one step: worker threads also interleave inside handlers, where they
  share \<open>key_value_map\<close> and \<open>task_to_status\<close> without locks. The barrier, the set-up of the sockets and
  the checkpoints of the server are left out; time-outs of \<open>poll\<close> and \<open>sem_timedwait\<close> are turns that
  find nothing to do. Memory is
  unbounded. Left out as glue or I/O: the S3 and Redis clients (an S3 object is the value of an
  argument), the iterators over Redis, what \<open>read_input_csv\<close> does after its first write, which
  is already out of bounds, the driver \<open>parameter_server.cpp\<close>, logging, and the dense models built on Eigen.
\<close>

end
